(* ===== verification/Prelude.thy ===== *)
theory Prelude
  imports Main "HOL-Library.Word"
begin

unbundle bit_operations_syntax

text \<open>
  What the components of the development share: the C integer types as words, the outcome of a
  piece of kernel code (it returns, it panics, it gives up the CPU, or it spins forever), the
  sequencing of outcomes, the two shapes of a bounded \<^verbatim>\<open>for\<close> loop over a table, little-endian
  byte access to a block of bytes, and the lemmas about them.
\<close>

type_synonym u8 = "8 word"
type_synonym u16 = "16 word"
type_synonym u32 = "32 word"
type_synonym u64 = "64 word"

named_theorems frame_simps \<open>what an operation leaves unchanged\<close>
named_theorems lock_simps \<open>how a taken lock commutes with the rest of the state\<close>

subsection \<open>Outcomes\<close>

text \<open>
  \<open>Ret x s\<close>: the code returns \<open>x\<close> in state \<open>s\<close>. \<open>Panic m\<close>: it calls \<^verbatim>\<open>panic(m)\<close>, which never
  returns. \<open>Swtch s\<close>: it calls \<^verbatim>\<open>sched()\<close>, and \<open>s\<close> is the state in which the scheduler takes
  over. \<open>Spin\<close>: it loops forever.
\<close>

datatype ('a, 's) outcome = Ret 'a 's | Panic string | Swtch 's | Spin

primrec bnd :: "('a, 's) outcome \<Rightarrow> ('a \<Rightarrow> 's \<Rightarrow> ('b, 's) outcome) \<Rightarrow> ('b, 's) outcome" where
  "bnd (Ret x s) f = f x s"
| "bnd (Panic m) f = Panic m"
| "bnd (Swtch s) f = Swtch s"
| "bnd Spin f = Spin"

lemma bnd_Ret_right [simp]: "bnd m Ret = m"
  by (cases m) simp_all

lemma bnd_assoc: "bnd (bnd m f) g = bnd m (\<lambda>x s. bnd (f x s) g)"
  by (cases m) simp_all

lemma bnd_cong [fundef_cong]:
  "m = m' \<Longrightarrow> (\<And>x s. m' = Ret x s \<Longrightarrow> f x s = f' x s) \<Longrightarrow> bnd m f = bnd m' f'"
  by (cases m') simp_all

lemma bnd_eq_Ret:
  "(bnd m f = Ret y t) \<longleftrightarrow> (\<exists>x s. m = Ret x s \<and> f x s = Ret y t)"
  by (cases m) auto

lemma bnd_RetE:
  assumes "bnd m f = Ret y t"
  obtains x s where "m = Ret x s" and "f x s = Ret y t"
  using assms by (auto simp: bnd_eq_Ret)

subsection \<open>Bounded loops over a table\<close>

text \<open>\<open>for_each\<close> runs a body for every index; \<open>for_find\<close> stops at the first index whose body
  returns \<open>Some\<close> (a \<^verbatim>\<open>return\<close>, \<^verbatim>\<open>break\<close> or \<^verbatim>\<open>goto\<close> out of the loop).\<close>

primrec for_each :: "'i list \<Rightarrow> ('i \<Rightarrow> 's \<Rightarrow> (unit, 's) outcome) \<Rightarrow> 's \<Rightarrow> (unit, 's) outcome" where
  "for_each [] f s = Ret () s"
| "for_each (i # is) f s = bnd (f i s) (\<lambda>_ s. for_each is f s)"

primrec for_find ::
  "'i list \<Rightarrow> ('i \<Rightarrow> 's \<Rightarrow> ('a option, 's) outcome) \<Rightarrow> 's \<Rightarrow> ('a option, 's) outcome" where
  "for_find [] f s = Ret None s"
| "for_find (i # is) f s =
     bnd (f i s) (\<lambda>r s. case r of Some x \<Rightarrow> Ret (Some x) s | None \<Rightarrow> for_find is f s)"

lemma for_each_append:
  "for_each (xs @ ys) f s = bnd (for_each xs f s) (\<lambda>_ s. for_each ys f s)"
  by (induction xs arbitrary: s) (simp_all add: bnd_assoc)

lemma for_each_inv:
  assumes "I s" and "\<And>i s. i \<in> set xs \<Longrightarrow> I s \<Longrightarrow> \<exists>s'. f i s = Ret () s' \<and> I s'"
  shows "\<exists>s'. for_each xs f s = Ret () s' \<and> I s'"
  using assms
proof (induction xs arbitrary: s)
  case Nil
  then show ?case by simp
next
  case (Cons i xs)
  then obtain s1 where "f i s = Ret () s1" "I s1" by (metis list.set_intros(1))
  with Cons show ?case by (auto simp: list.set_intros(2))
qed

text \<open>A loop that examines entries without changing the state finds the first hit.\<close>

lemma for_find_pure:
  assumes "\<And>i. i \<in> set xs \<Longrightarrow> \<not> P i \<Longrightarrow> f i s = Ret None s"
    and "\<And>i. i \<in> set xs \<Longrightarrow> P i \<Longrightarrow> f i s = Ret (Some (v i)) (t i)"
  shows "for_find xs f s =
    (case find P xs of None \<Rightarrow> Ret None s | Some i \<Rightarrow> Ret (Some (v i)) (t i))"
  using assms by (induction xs) (auto split: option.splits)

lemma find_Some_iff_first:
  "find P xs = Some x \<longleftrightarrow> (\<exists>i<length xs. xs ! i = x \<and> P x \<and> (\<forall>j<i. \<not> P (xs ! j)))"
  by (auto simp: find_Some_iff)

lemma find_SomeD: "find P xs = Some x \<Longrightarrow> x \<in> set xs \<and> P x"
  by (auto simp: find_Some_iff)

lemma find_NoneD: "find P xs = None \<Longrightarrow> x \<in> set xs \<Longrightarrow> \<not> P x"
  by (auto simp: find_None_iff)

lemma find_exists: "x \<in> set xs \<Longrightarrow> P x \<Longrightarrow> \<exists>y. find P xs = Some y"
  by (metis find_None_iff not_None_eq)

lemma find_unique:
  "x \<in> set xs \<Longrightarrow> P x \<Longrightarrow> (\<And>y. y \<in> set xs \<Longrightarrow> P y \<Longrightarrow> y = x) \<Longrightarrow> find P xs = Some x"
  by (metis find_exists find_SomeD)

lemma find_append: "find P (xs @ ys) = (case find P xs of None \<Rightarrow> find P ys | Some x \<Rightarrow> Some x)"
  by (induction xs) auto

lemma find_map: "find P (map f xs) = map_option f (find (\<lambda>x. P (f x)) xs)"
  by (induction xs) auto

lemma find_upt_shift: "find P [b..<b + m] = map_option (\<lambda>i. b + i) (find (\<lambda>i. P (b + i)) [0..<m])" for b m :: nat
proof -
  have "[b..<b + m] = map (\<lambda>i. b + i) [0..<m]" using map_add_upt [of b m] by (simp add: add.commute)
  then show ?thesis by (simp add: find_map)
qed

lemma find_cong_set: "(\<And>x. x \<in> set xs \<Longrightarrow> P x = Q x) \<Longrightarrow> find P xs = find Q xs"
  by (induction xs) auto

subsection \<open>Words and naturals\<close>

lemma unat_of_nat_u64 [simp]: "n < 18446744073709551616 \<Longrightarrow> unat (of_nat n :: u64) = n"
  by (simp add: unat_of_nat take_bit_nat_eq_self)

lemma unat_of_nat_u32 [simp]: "n < 4294967296 \<Longrightarrow> unat (of_nat n :: u32) = n"
  by (simp add: unat_of_nat take_bit_nat_eq_self)

lemma unat_u64_less: "unat (w :: u64) < 18446744073709551616"
  using unsigned_less [of w, where 'a = nat] by simp

lemma unat_u32_less: "unat (w :: u32) < 4294967296"
  using unsigned_less [of w, where 'a = nat] by simp

lemma unat_add_u64: "unat (a + b) = (if unat a + unat b < 18446744073709551616 then unat a + unat b
    else unat a + unat b - 18446744073709551616)" for a b :: u64
  using unat_u64_less [of a] unat_u64_less [of b] by (simp add: unat_word_ariths mod_if)

lemma unat_sub_u64: "unat (a - b) = (if unat b \<le> unat a then unat a - unat b
    else 18446744073709551616 + unat a - unat b)" for a b :: u64
  using unat_u64_less [of a] unat_u64_less [of b] unat_sub_if' [of a b] by auto

lemma unat_add_u32: "unat (a + b) = (if unat a + unat b < 4294967296 then unat a + unat b
    else unat a + unat b - 4294967296)" for a b :: u32
  using unat_u32_less [of a] unat_u32_less [of b] by (simp add: unat_word_ariths mod_if)

lemma unat_sub_u32: "unat (a - b) = (if unat b \<le> unat a then unat a - unat b
    else 4294967296 + unat a - unat b)" for a b :: u32
  using unat_u32_less [of a] unat_u32_less [of b] unat_sub_if' [of a b] by auto


lemma unat_u32_u64 [simp]: "unat (ucast (w :: u32) :: u64) = unat w"
  using unsigned_less [of w, where 'a = nat] by (simp add: unsigned_ucast_eq take_bit_nat_eq_self)

lemma unat_u8_u64 [simp]: "unat (ucast (w :: u8) :: u64) = unat w"
  using unsigned_less [of w, where 'a = nat] by (simp add: unsigned_ucast_eq take_bit_nat_eq_self)

lemma unat_u8_u32 [simp]: "unat (ucast (w :: u8) :: u32) = unat w"
  using unsigned_less [of w, where 'a = nat] by (simp add: unsigned_ucast_eq take_bit_nat_eq_self)

lemma unat_u16_u32 [simp]: "unat (ucast (w :: u16) :: u32) = unat w"
  using unsigned_less [of w, where 'a = nat] by (simp add: unsigned_ucast_eq take_bit_nat_eq_self)

end
