(* ===== verification/Ring.thy ===== *)
theory Ring
  imports Prelude
begin

text \<open>
  Bounded byte queues. \<open>byte_queue\<close> is the interface the pipe, the console and the UART driver rely on: a
  queue of at most \<open>cap\<close> bytes with the operations of its two ends. Its client lemmas are about runs of
  bytes put in or taken out. The second part is the implementation all three share: a circular array
  whose two indices run freely and wrap around at the width of their type.
\<close>

subsection \<open>The interface\<close>

locale byte_queue =
  fixes items :: "'q \<Rightarrow> u8 list" and ok :: "'q \<Rightarrow> bool" and full :: "'q \<Rightarrow> bool" and empty :: "'q \<Rightarrow> bool"
    and put :: "u8 \<Rightarrow> 'q \<Rightarrow> 'q" and front :: "'q \<Rightarrow> u8" and pop :: "'q \<Rightarrow> 'q" and cap :: nat
  assumes bound: "ok q \<Longrightarrow> length (items q) \<le> cap"
    and full_law: "ok q \<Longrightarrow> full q \<longleftrightarrow> length (items q) = cap"
    and empty_law: "ok q \<Longrightarrow> empty q \<longleftrightarrow> items q = []"
    and put_law: "ok q \<Longrightarrow> \<not> full q \<Longrightarrow> ok (put b q) \<and> items (put b q) = items q @ [b]"
    and pop_law: "ok q \<Longrightarrow> \<not> empty q \<Longrightarrow> ok (pop q) \<and> items q = front q # items (pop q)"
begin

text \<open>Bytes come out in the order they went in.\<close>

lemma put_run:
  "ok q \<Longrightarrow> length (items q) + length bs \<le> cap \<Longrightarrow> ok (fold put bs q) \<and> items (fold put bs q) = items q @ bs"
proof (induction bs arbitrary: q)
  case (Cons b bs)
  then have "\<not> full q" using full_law [of q] by auto
  then have "ok (put b q)" "items (put b q) = items q @ [b]" using put_law [of q b] Cons.prems(1) by blast+
  then show ?case using Cons.IH [of "put b q"] Cons.prems(2) by simp
qed simp

lemma pop_run:
  "ok q \<Longrightarrow> n \<le> length (items q) \<Longrightarrow> ok ((pop ^^ n) q) \<and> items ((pop ^^ n) q) = drop n (items q)"
proof (induction n arbitrary: q)
  case (Suc n)
  then have "items q \<noteq> []" by auto
  then have "\<not> empty q" using empty_law [of q] Suc.prems(1) by blast
  then have "ok (pop q)" "items q = front q # items (pop q)" using pop_law [of q] Suc.prems(1) by blast+
  moreover from this have "n \<le> length (items (pop q))" using Suc.prems(2) by (metis Suc_le_mono length_Cons)
  ultimately have "ok ((pop ^^ n) (pop q))" "items ((pop ^^ n) (pop q)) = drop n (items (pop q))"
    using Suc.IH [of "pop q"] by blast+
  moreover have "drop (Suc n) (items q) = drop n (items (pop q))" using \<open>items q = front q # items (pop q)\<close> by (metis drop_Suc_Cons)
  ultimately show ?case by (simp add: funpow_swap1)
qed simp

lemma front_run: "ok q \<Longrightarrow> n < length (items q) \<Longrightarrow> front ((pop ^^ n) q) = items q ! n"
proof -
  assume q: "ok q" and n: "n < length (items q)"
  then have p: "ok ((pop ^^ n) q)" "items ((pop ^^ n) q) = drop n (items q)" using pop_run [of q n] by auto
  then have "\<not> empty ((pop ^^ n) q)" using empty_law [OF p(1)] n by simp
  from pop_law [OF p(1) this] have "drop n (items q) = front ((pop ^^ n) q) # items (pop ((pop ^^ n) q))" using p(2) by simp
  then show ?thesis using n by (metis Cons_nth_drop_Suc list.inject)
qed

end

subsection \<open>Circular arrays with free-running indices\<close>

definition ring_items :: "nat \<Rightarrow> (nat \<Rightarrow> u8) \<Rightarrow> 'w::len word \<Rightarrow> 'w word \<Rightarrow> u8 list" where
  "ring_items D d r w = map (\<lambda>k. d ((unat r + k) mod D)) [0..<unat (w - r)]"

lemma length_ring [simp]: "length (ring_items D d r w) = unat (w - r)"
  by (simp add: ring_items_def)

lemma ring_index:
  fixes r w :: "'w::len word"
  assumes "D dvd 2 ^ LENGTH('w)"
  shows "unat w mod D = (unat r + unat (w - r)) mod D"
proof -
  have "unat w = (unat r + unat (w - r)) mod 2 ^ LENGTH('w)"
    using unat_word_ariths(1) [of r "w - r"] by simp
  then show ?thesis using assms by (simp add: mod_mod_cancel)
qed

lemma unat_diff_Suc:
  fixes r w :: "'w::len word"
  assumes "unat (w - r) < 2 ^ LENGTH('w) - 1"
  shows "unat (w + 1 - r) = Suc (unat (w - r))"
proof -
  have "w + 1 - r = (w - r) + 1" by simp
  moreover have "unat ((w - r) + 1) = (unat (w - r) + 1) mod 2 ^ LENGTH('w)"
    using unat_word_ariths(1) [of "w - r" 1] by simp
  ultimately show ?thesis using assms by (simp only:) simp
qed

lemma ring_put:
  fixes r w :: "'w::len word"
  assumes "D dvd 2 ^ LENGTH('w)" and "D < 2 ^ LENGTH('w)" and "unat (w - r) < D"
  shows "ring_items D (d(unat w mod D := b)) r (w + 1) = ring_items D d r w @ [b]"
    and "unat (w + 1 - r) = Suc (unat (w - r))"
proof -
  show s: "unat (w + 1 - r) = Suc (unat (w - r))"
    using assms(2,3) by (intro unat_diff_Suc) linarith
  have i: "unat w mod D = (unat r + unat (w - r)) mod D" by (rule ring_index [OF assms(1)])
  have other: "(unat r + k) mod D \<noteq> (unat r + unat (w - r)) mod D" if "k < unat (w - r)" for k
  proof
    assume eq: "(unat r + k) mod D = (unat r + unat (w - r)) mod D"
    have "D dvd (unat r + unat (w - r)) - (unat r + k)"
      using eq [symmetric] that by (intro mod_eq_dvd_iff_nat [THEN iffD1]) simp_all
    then have "D dvd unat (w - r) - k" by simp
    then show False using that assms(3) by (auto dest: dvd_imp_le)
  qed
  show "ring_items D (d(unat w mod D := b)) r (w + 1) = ring_items D d r w @ [b]"
    unfolding ring_items_def s i using other by (simp add: fun_upd_def cong: map_cong)
qed

lemma ring_pop:
  fixes r w :: "'w::len word"
  assumes "D dvd 2 ^ LENGTH('w)" and "r \<noteq> w"
  shows "ring_items D d r w = d (unat r mod D) # ring_items D d (r + 1) w" and "unat (w - (r + 1)) = unat (w - r) - 1"
proof -
  have nz: "w - r \<noteq> 0" using assms by simp
  have e: "w - (r + 1) = w - r - 1" by simp
  show s: "unat (w - (r + 1)) = unat (w - r) - 1" unfolding e using nz by (rule unat_minus_one)
  have pos: "0 < unat (w - r)" using nz by (simp add: unat_gt_0)
  have idx: "(unat (r + 1) + k) mod D = (unat r + Suc k) mod D" for k
  proof -
    have "unat (r + 1) = (unat r + 1) mod 2 ^ LENGTH('w)" using unat_word_ariths(1) [of r 1] by simp
    then have "unat (r + 1) mod D = (unat r + 1) mod D" using assms(1) by (simp add: mod_mod_cancel)
    then have "(unat (r + 1) + k) mod D = (unat r + 1 + k) mod D" by (metis mod_add_left_eq)
    then show ?thesis by simp
  qed
  have up: "[0..<unat (w - r)] = 0 # map Suc [0..<unat (w - r) - 1]"
    using pos by (simp add: upt_conv_Cons map_Suc_upt)
  show "ring_items D d r w = d (unat r mod D) # ring_items D d (r + 1) w"
    unfolding ring_items_def up s by (simp add: idx)
qed

lemma ring_full:
  fixes r w :: "'w::len word"
  assumes "D < 2 ^ LENGTH('w)"
  shows "w = r + of_nat D \<longleftrightarrow> unat (w - r) = D"
proof -
  have "w = r + of_nat D \<longleftrightarrow> w - r = of_nat D" by (auto simp: algebra_simps)
  also have "\<dots> \<longleftrightarrow> unat (w - r) = D"
    using assms by (simp add: word_unat_eq_iff unat_of_nat take_bit_nat_eq_self)
  finally show ?thesis .
qed

lemma ring_Nil: "ring_items D d r w = [] \<longleftrightarrow> r = w"
  by (auto simp: ring_items_def unat_eq_0)

text \<open>A circular array with a mark between its two ends.\<close>

lemma ring_append:
  fixes r w e :: "'w::len word"
  assumes "D dvd 2 ^ LENGTH('w)" and "unat (w - r) + unat (e - w) < 2 ^ LENGTH('w)"
  shows "ring_items D d r e = ring_items D d r w @ ring_items D d w e" and "unat (e - r) = unat (w - r) + unat (e - w)"
proof -
  have "e - r = (w - r) + (e - w)" by simp
  then show l: "unat (e - r) = unat (w - r) + unat (e - w)"
    using assms(2) unat_word_ariths(1) [of "w - r" "e - w"] by simp
  let ?a = "unat (w - r)" and ?b = "unat (e - w)"
  have idx: "(unat r + (?a + k)) mod D = (unat w + k) mod D" for k
  proof -
    have "(unat r + (?a + k)) mod D = ((unat r + ?a) mod D + k) mod D" by (simp only: add.assoc mod_add_left_eq)
    then show ?thesis by (simp only: ring_index [OF assms(1), of w r, symmetric] mod_add_left_eq)
  qed
  have "[?a..<?a + ?b] = map (\<lambda>k. ?a + k) [0..<?b]"
    using map_add_upt [of ?a ?b] by (simp only: add.commute)
  then have "map (\<lambda>k. d ((unat r + k) mod D)) [?a..<?a + ?b] = map (\<lambda>k. d ((unat w + k) mod D)) [0..<?b]"
    by (simp only: map_map o_def idx)
  then show "ring_items D d r e = ring_items D d r w @ ring_items D d w e"
    unfolding ring_items_def l upt_add_eq_append [of 0 ?a ?b, OF le0] map_append by simp
qed

lemma ring_unput:
  fixes w e :: "'w::len word"
  assumes "D dvd 2 ^ LENGTH('w)" and "e \<noteq> w"
  shows "ring_items D d w e = ring_items D d w (e - 1) @ [d (unat (e - 1) mod D)]"
    and "unat (e - w) = Suc (unat (e - 1 - w))"
proof -
  have nz: "e - w \<noteq> 0" using assms by simp
  have e: "e - 1 - w = e - w - 1" by (simp add: diff_diff_eq add.commute)
  show s: "unat (e - w) = Suc (unat (e - 1 - w))"
    unfolding e using unat_minus_one [OF nz] nz by (simp add: unat_gt_0)
  have "unat (e - 1) mod D = (unat w + unat (e - 1 - w)) mod D" by (rule ring_index [OF assms(1)])
  then show "ring_items D d w e = ring_items D d w (e - 1) @ [d (unat (e - 1) mod D)]"
    unfolding ring_items_def s by simp
qed

end
