(* ===== verification/Machine.thy ===== *)
theory Machine
  imports Prelude
begin

text \<open>
  The machine the kernel code runs on: the harts with their interrupt state, the spinlocks and
  sleeplocks, and the process table, as one record that the later components extend with their
  own state. Modelled: \<^verbatim>\<open>kernel/spinlock.c\<close>, \<^verbatim>\<open>kernel/sleeplock.c\<close> and the parts of
  \<^verbatim>\<open>kernel/proc.c\<close> that hand the CPU over (\<open>sched\<close>, \<open>yield\<close>, \<open>sleep\<close>, \<open>wakeup\<close>, \<open>kill\<close>, the
  body of \<open>scheduler\<close>).

  A state is seen from one hart (\<open>hart\<close>, what \<^verbatim>\<open>r_tp()\<close> returns). An address of kernel data that the
  code uses only as a name (a lock, a wait channel) is a constructor.
\<close>

subsection \<open>Data\<close>

definition NPROC :: nat where "NPROC = 64"
definition NOFILE :: nat where "NOFILE = 16"

text \<open>The spinlocks of the kernel. \<open>Lk_buf i\<close> and \<open>Lk_inode i\<close> are the spinlocks inside the sleeplocks
  of buffer \<open>i\<close> and of inode table entry \<open>i\<close>, and name those sleeplocks too.\<close>

datatype lock = Lk_pid | Lk_wait | Lk_proc nat | Lk_kmem | Lk_bcache | Lk_buf nat | Lk_itable
  | Lk_inode nat | Lk_log | Lk_ftable | Lk_pipe u64 | Lk_ticks | Lk_cons | Lk_uart | Lk_vdisk | Lk_pr

text \<open>The addresses the kernel sleeps on.\<close>

datatype chan = Ch_proc nat | Ch_sleeplock lock | Ch_log | Ch_nread u64 | Ch_nwrite u64 | Ch_ticks
  | Ch_cons_r | Ch_uart_tx_r | Ch_desc_free | Ch_buf nat

record spinlock =
  locked :: u32
  lk_name :: string
  lk_cpu :: "nat option"

record sleeplock =
  sl_locked :: u32
  sl_name :: string
  sl_pid :: int

record cpu =
  c_proc :: "nat option"
  noff :: int
  intena :: bool

datatype procstate = UNUSED | USED | SLEEPING | RUNNABLE | RUNNING | ZOMBIE

text \<open>\<^verbatim>\<open>struct proc\<close>. A pointer to a process, file or inode table entry is an index; of the saved
  context the kernel code itself writes \<open>ra\<close> and \<open>sp\<close> only, the rest belongs to \<^verbatim>\<open>swtch.S\<close>.\<close>

record proc =
  pstate :: procstate
  pchan :: "chan option"
  killed :: int
  xstate :: int
  pid :: int
  parent :: "nat option"
  kstack :: u64
  sz :: u64
  pagetable :: u64
  trapframe :: u64
  ctx_ra :: u64
  ctx_sp :: u64
  ofile :: "nat \<Rightarrow> nat option"
  cwd :: "nat option"
  pname :: "nat \<Rightarrow> u8"

record machine =
  hart :: nat
  intr :: "nat \<Rightarrow> bool"
  cpus :: "nat \<Rightarrow> cpu"
  locks :: "lock \<Rightarrow> spinlock"
  sleeplocks :: "lock \<Rightarrow> sleeplock"
  procs :: "nat \<Rightarrow> proc"
  initproc :: nat
  nextpid :: int

abbreviation mycpu :: "'m machine_scheme \<Rightarrow> cpu" where
  "mycpu s \<equiv> cpus s (hart s)"

definition upd_proc :: "nat \<Rightarrow> (proc \<Rightarrow> proc) \<Rightarrow> 'm machine_scheme \<Rightarrow> 'm machine_scheme" where
  "upd_proc i f s = s\<lparr>procs := (procs s)(i := f (procs s i))\<rparr>"

subsection \<open>Spinlocks (spinlock.c)\<close>

definition initlock :: "lock \<Rightarrow> string \<Rightarrow> 'm machine_scheme \<Rightarrow> 'm machine_scheme" where
  "initlock l name s = s\<lparr>locks := (locks s)(l := \<lparr>locked = 0, lk_name = name, lk_cpu = None\<rparr>)\<rparr>"

definition holding :: "lock \<Rightarrow> 'm machine_scheme \<Rightarrow> bool" where
  "holding l s \<longleftrightarrow> locked (locks s l) \<noteq> 0 \<and> lk_cpu (locks s l) = Some (hart s)"

definition push_off :: "'m machine_scheme \<Rightarrow> 'm machine_scheme" where
  "push_off s =
    (let old = intr s (hart s);
         s = s\<lparr>intr := (intr s)(hart s := False)\<rparr>;
         c = mycpu s;
         c = (if noff c = 0 then c\<lparr>intena := old\<rparr> else c);
         c = c\<lparr>noff := noff c + 1\<rparr>
     in s\<lparr>cpus := (cpus s)(hart s := c)\<rparr>)"

definition pop_off :: "'m machine_scheme \<Rightarrow> (unit, 'm machine_scheme) outcome" where
  "pop_off s =
    (if intr s (hart s) then Panic ''pop_off - interruptible''
     else if noff (mycpu s) < 1 then Panic ''pop_off''
     else let c = (mycpu s)\<lparr>noff := noff (mycpu s) - 1\<rparr>;
              s = s\<lparr>cpus := (cpus s)(hart s := c)\<rparr>
          in if noff c = 0 \<and> intena c then Ret () (s\<lparr>intr := (intr s)(hart s := True)\<rparr>)
             else Ret () s)"

text \<open>The test-and-set of \<open>acquire\<close> succeeds at once or, when another hart holds the lock, spins.\<close>

definition acquire :: "lock \<Rightarrow> 'm machine_scheme \<Rightarrow> (unit, 'm machine_scheme) outcome" where
  "acquire l s =
    (let s = push_off s
     in if holding l s then Panic ''acquire''
        else if locked (locks s l) \<noteq> 0 then Spin
        else Ret () (s\<lparr>locks := (locks s)(l := (locks s l)\<lparr>locked := 1, lk_cpu := Some (hart s)\<rparr>)\<rparr>))"

definition release :: "lock \<Rightarrow> 'm machine_scheme \<Rightarrow> (unit, 'm machine_scheme) outcome" where
  "release l s =
    (if \<not> holding l s then Panic ''release''
     else pop_off (s\<lparr>locks := (locks s)(l := (locks s l)\<lparr>lk_cpu := None, locked := 0\<rparr>)\<rparr>))"

subsection \<open>The current process and process numbers (proc.c)\<close>

definition myproc :: "'m machine_scheme \<Rightarrow> (nat option, 'm machine_scheme) outcome" where
  "myproc s =
    (let s = push_off s; p = c_proc (mycpu s)
     in bnd (pop_off s) (\<lambda>_ s. Ret p s))"

text \<open>\<^verbatim>\<open>myproc()->f\<close>: a null process pointer faults in the kernel, and \<^verbatim>\<open>kerneltrap\<close> panics.\<close>

definition curproc :: "'m machine_scheme \<Rightarrow> (nat, 'm machine_scheme) outcome" where
  "curproc s =
    bnd (myproc s) (\<lambda>p s. case p of None \<Rightarrow> Panic ''kerneltrap'' | Some p \<Rightarrow> Ret p s)"

definition allocpid :: "'m machine_scheme \<Rightarrow> (int, 'm machine_scheme) outcome" where
  "allocpid s =
    bnd (acquire Lk_pid s) (\<lambda>_ s.
    let p = nextpid s; s = s\<lparr>nextpid := nextpid s + 1\<rparr>
    in bnd (release Lk_pid s) (\<lambda>_ s. Ret p s))"

subsection \<open>Giving up the CPU, sleeping and waking (proc.c)\<close>

definition sched :: "'m machine_scheme \<Rightarrow> ('a, 'm machine_scheme) outcome" where
  "sched s =
    bnd (curproc s) (\<lambda>p s.
    if \<not> holding (Lk_proc p) s then Panic ''sched p->lock''
    else if noff (mycpu s) \<noteq> 1 then Panic ''sched locks''
    else if pstate (procs s p) = RUNNING then Panic ''sched running''
    else if intr s (hart s) then Panic ''sched interruptible''
    else Swtch s)"

text \<open>What \<open>sched\<close> does when the scheduler switches back to the process: it restores the
  \<open>intena\<close> it saved, into the CPU it now runs on.\<close>

definition sched_back :: "bool \<Rightarrow> 'm machine_scheme \<Rightarrow> 'm machine_scheme" where
  "sched_back ena s = s\<lparr>cpus := (cpus s)(hart s := (mycpu s)\<lparr>intena := ena\<rparr>)\<rparr>"

definition yield :: "'m machine_scheme \<Rightarrow> (unit, 'm machine_scheme) outcome" where
  "yield s =
    bnd (curproc s) (\<lambda>p s.
    bnd (acquire (Lk_proc p) s) (\<lambda>_ s.
    sched (upd_proc p (\<lambda>q. q\<lparr>pstate := RUNNABLE\<rparr>) s)))"

definition yield_back :: "nat \<Rightarrow> bool \<Rightarrow> 'm machine_scheme \<Rightarrow> (unit, 'm machine_scheme) outcome" where
  "yield_back p ena s = release (Lk_proc p) (sched_back ena s)"

definition sleep :: "chan \<Rightarrow> lock \<Rightarrow> 'm machine_scheme \<Rightarrow> ('a, 'm machine_scheme) outcome" where
  "sleep ch lk s =
    bnd (curproc s) (\<lambda>p s.
    bnd (acquire (Lk_proc p) s) (\<lambda>_ s.
    bnd (release lk s) (\<lambda>_ s.
    sched (upd_proc p (\<lambda>q. q\<lparr>pchan := Some ch, pstate := SLEEPING\<rparr>) s))))"

definition sleep_back ::
  "nat \<Rightarrow> bool \<Rightarrow> lock \<Rightarrow> 'm machine_scheme \<Rightarrow> (unit, 'm machine_scheme) outcome" where
  "sleep_back p ena lk s =
    (let s = upd_proc p (\<lambda>q. q\<lparr>pchan := None\<rparr>) (sched_back ena s)
     in bnd (release (Lk_proc p) s) (\<lambda>_ s. acquire lk s))"

definition wakeup_one :: "chan \<Rightarrow> nat \<Rightarrow> 'm machine_scheme \<Rightarrow> (unit, 'm machine_scheme) outcome" where
  "wakeup_one ch i s =
    bnd (myproc s) (\<lambda>me s.
    if me \<noteq> Some i then
      bnd (acquire (Lk_proc i) s) (\<lambda>_ s.
      let s = (if pstate (procs s i) = SLEEPING \<and> pchan (procs s i) = Some ch
               then upd_proc i (\<lambda>q. q\<lparr>pstate := RUNNABLE\<rparr>) s else s)
      in release (Lk_proc i) s)
    else Ret () s)"

definition wakeup :: "chan \<Rightarrow> 'm machine_scheme \<Rightarrow> (unit, 'm machine_scheme) outcome" where
  "wakeup ch s = for_each [0..<NPROC] (wakeup_one ch) s"

definition kill_one :: "int \<Rightarrow> nat \<Rightarrow> 'm machine_scheme \<Rightarrow> (int option, 'm machine_scheme) outcome" where
  "kill_one k i s =
    bnd (acquire (Lk_proc i) s) (\<lambda>_ s.
    if pid (procs s i) = k then
      let s = upd_proc i (\<lambda>q. q\<lparr>killed := 1\<rparr>) s;
          s = (if pstate (procs s i) = SLEEPING then upd_proc i (\<lambda>q. q\<lparr>pstate := RUNNABLE\<rparr>) s else s)
      in bnd (release (Lk_proc i) s) (\<lambda>_ s. Ret (Some 0) s)
    else bnd (release (Lk_proc i) s) (\<lambda>_ s. Ret None s))"

definition kill :: "int \<Rightarrow> 'm machine_scheme \<Rightarrow> (int, 'm machine_scheme) outcome" where
  "kill k s =
    bnd (for_find [0..<NPROC] (kill_one k) s)
      (\<lambda>r s. case r of Some v \<Rightarrow> Ret v s | None \<Rightarrow> Ret (-1) s)"

definition set_cproc :: "nat option \<Rightarrow> 'm machine_scheme \<Rightarrow> 'm machine_scheme" where
  "set_cproc q s = s\<lparr>cpus := (cpus s)(hart s := (mycpu s)\<lparr>c_proc := q\<rparr>)\<rparr>"

text \<open>One slot of the scheduler's scan: the part before \<^verbatim>\<open>swtch\<close> (the result says whether it
  switches to process \<open>i\<close>, with that process's lock held) and the part after it.\<close>

definition scheduler_slot :: "nat \<Rightarrow> 'm machine_scheme \<Rightarrow> (bool, 'm machine_scheme) outcome" where
  "scheduler_slot i s =
    bnd (acquire (Lk_proc i) s) (\<lambda>_ s.
    if pstate (procs s i) = RUNNABLE then
      Ret True (set_cproc (Some i) (upd_proc i (\<lambda>q. q\<lparr>pstate := RUNNING\<rparr>) s))
    else bnd (release (Lk_proc i) s) (\<lambda>_ s. Ret False s))"

definition scheduler_back :: "nat \<Rightarrow> 'm machine_scheme \<Rightarrow> (unit, 'm machine_scheme) outcome" where
  "scheduler_back i s = release (Lk_proc i) (set_cproc None s)"

subsection \<open>Sleeplocks (sleeplock.c)\<close>

definition initsleeplock :: "lock \<Rightarrow> string \<Rightarrow> 'm machine_scheme \<Rightarrow> 'm machine_scheme" where
  "initsleeplock l name s =
    (let s = initlock l ''sleep lock'' s
     in s\<lparr>sleeplocks := (sleeplocks s)(l := \<lparr>sl_locked = 0, sl_name = name, sl_pid = 0\<rparr>)\<rparr>)"

definition acquiresleep :: "lock \<Rightarrow> 'm machine_scheme \<Rightarrow> (unit, 'm machine_scheme) outcome" where
  "acquiresleep l s =
    bnd (acquire l s) (\<lambda>_ s.
    if sl_locked (sleeplocks s l) \<noteq> 0 then sleep (Ch_sleeplock l) l s
    else
      let s = s\<lparr>sleeplocks := (sleeplocks s)(l := (sleeplocks s l)\<lparr>sl_locked := 1\<rparr>)\<rparr>
      in bnd (curproc s) (\<lambda>p s.
         let s = s\<lparr>sleeplocks := (sleeplocks s)(l := (sleeplocks s l)\<lparr>sl_pid := pid (procs s p)\<rparr>)\<rparr>
         in release l s))"

definition releasesleep :: "lock \<Rightarrow> 'm machine_scheme \<Rightarrow> (unit, 'm machine_scheme) outcome" where
  "releasesleep l s =
    bnd (acquire l s) (\<lambda>_ s.
    let s = s\<lparr>sleeplocks := (sleeplocks s)(l := (sleeplocks s l)\<lparr>sl_locked := 0, sl_pid := 0\<rparr>)\<rparr>
    in bnd (wakeup (Ch_sleeplock l) s) (\<lambda>_ s. release l s))"

definition holdingsleep :: "lock \<Rightarrow> 'm machine_scheme \<Rightarrow> (bool, 'm machine_scheme) outcome" where
  "holdingsleep l s =
    bnd (acquire l s) (\<lambda>_ s.
    bnd (if sl_locked (sleeplocks s l) \<noteq> 0
         then bnd (curproc s) (\<lambda>p s. Ret (sl_pid (sleeplocks s l) = pid (procs s p)) s)
         else Ret False s) (\<lambda>r s.
    bnd (release l s) (\<lambda>_ s. Ret r s)))"


subsection \<open>Interrupt nesting\<close>

text \<open>The states in which \<open>push_off\<close> and \<open>pop_off\<close> undo each other: outside every critical section
  the saved flag agrees with the hart's, inside one the interrupts are off.\<close>

definition cur :: "'m machine_scheme \<Rightarrow> nat option" where
  "cur s = c_proc (mycpu s)"

definition depth :: "'m machine_scheme \<Rightarrow> int" where
  "depth s = noff (mycpu s)"

definition calm :: "'m machine_scheme \<Rightarrow> bool" where
  "calm s \<longleftrightarrow> 0 \<le> noff (mycpu s) \<and> (noff (mycpu s) = 0 \<longrightarrow> intena (mycpu s) = intr s (hart s))
     \<and> (0 < noff (mycpu s) \<longrightarrow> \<not> intr s (hart s))"

definition lock_free :: "lock \<Rightarrow> 'm machine_scheme \<Rightarrow> bool" where
  "lock_free l s \<longleftrightarrow> locked (locks s l) = 0 \<and> lk_cpu (locks s l) = None"

text \<open>The state with lock \<open>l\<close> taken by this hart.\<close>

definition lock_on :: "lock \<Rightarrow> 'm machine_scheme \<Rightarrow> 'm machine_scheme" where
  "lock_on l s = (push_off s)\<lparr>locks :=
     (locks s)(l := (locks s l)\<lparr>locked := 1, lk_cpu := Some (hart s)\<rparr>)\<rparr>"

lemma push_off_fields [simp]:
  "hart (push_off s) = hart s" "locks (push_off s) = locks s"
  "sleeplocks (push_off s) = sleeplocks s" "procs (push_off s) = procs s"
  "initproc (push_off s) = initproc s" "nextpid (push_off s) = nextpid s"
  "machine.more (push_off s) = machine.more s"
  "cur (push_off s) = cur s" "depth (push_off s) = depth s + 1"
  "intr (push_off s) = (intr s)(hart s := False)"
  by (simp_all add: push_off_def Let_def cur_def depth_def)

lemma pop_push_off: "calm s \<Longrightarrow> pop_off (push_off s) = Ret () s"
  by (cases "noff (mycpu s) = 0")
    (auto simp: calm_def push_off_def pop_off_def Let_def fun_eq_iff
      intro!: machine.equality cpu.equality)

lemma myproc_calm [simp]: "calm s \<Longrightarrow> myproc s = Ret (cur s) s"
  by (simp add: myproc_def Let_def pop_push_off flip: cur_def)

lemma curproc_calm [simp]: "calm s \<Longrightarrow> cur s = Some p \<Longrightarrow> curproc s = Ret p s"
  by (simp add: curproc_def)

lemma acquire_free [simp]: "lock_free l s \<Longrightarrow> acquire l s = Ret () (lock_on l s)"
  by (simp add: acquire_def lock_on_def lock_free_def holding_def Let_def)

lemma lock_on_fields [simp]:
  "hart (lock_on l s) = hart s" "sleeplocks (lock_on l s) = sleeplocks s"
  "procs (lock_on l s) = procs s" "initproc (lock_on l s) = initproc s"
  "nextpid (lock_on l s) = nextpid s" "machine.more (lock_on l s) = machine.more s"
  "cur (lock_on l s) = cur s" "depth (lock_on l s) = depth s + 1"
  "intr (lock_on l s) = (intr s)(hart s := False)"
  "locks (lock_on l s) = (locks s)(l := (locks s l)\<lparr>locked := 1, lk_cpu := Some (hart s)\<rparr>)"
  using push_off_fields [of s] by (simp_all add: lock_on_def cur_def depth_def)

lemma lock_free_lock_on [simp]: "lock_free l' (lock_on l s) \<longleftrightarrow> l' \<noteq> l \<and> lock_free l' s"
  by (simp add: lock_free_def)

lemma holding_lock_on [simp]: "holding l (lock_on l s)"
  by (simp add: holding_def)

lemma calm_lock_on [simp]: "calm s \<Longrightarrow> calm (lock_on l s)"
  using lock_on_fields(8) [of l s] by (simp add: calm_def depth_def)

lemma release_lock_on [simp]: "calm s \<Longrightarrow> lock_free l s \<Longrightarrow> release l (lock_on l s) = Ret () s"
proof -
  assume c: "calm s" and f: "lock_free l s"
  have "(locks s l)\<lparr>lk_cpu := None, locked := 0\<rparr> = locks s l"
    using f by (auto simp: lock_free_def intro: spinlock.equality)
  then have "(lock_on l s)\<lparr>locks := (locks (lock_on l s))(l := (locks (lock_on l s) l)
      \<lparr>lk_cpu := None, locked := 0\<rparr>)\<rparr> = push_off s"
    by (auto simp: lock_on_def intro!: machine.equality)
  then show ?thesis using c f by (simp add: release_def pop_push_off)
qed

lemma lock_on_update [lock_simps, simp]:
  "(lock_on l s)\<lparr>procs := x\<rparr> = lock_on l (s\<lparr>procs := x\<rparr>)"
  "(lock_on l s)\<lparr>sleeplocks := y\<rparr> = lock_on l (s\<lparr>sleeplocks := y\<rparr>)"
  "(lock_on l s)\<lparr>nextpid := z\<rparr> = lock_on l (s\<lparr>nextpid := z\<rparr>)"
  "(lock_on l s)\<lparr>machine.more := m\<rparr> = lock_on l (s\<lparr>machine.more := m\<rparr>)"
  "upd_proc i f (lock_on l s) = lock_on l (upd_proc i f s)"
  by (simp_all add: lock_on_def push_off_def Let_def upd_proc_def)

lemma lock_on_commute: "a \<noteq> b \<Longrightarrow> calm s \<Longrightarrow> lock_on a (lock_on b s) = lock_on b (lock_on a s)"
  by (auto simp: lock_on_def push_off_def Let_def calm_def fun_upd_twist)

lemma calm_update [simp]:
  "calm (s\<lparr>procs := x\<rparr>) = calm s" "calm (s\<lparr>sleeplocks := y\<rparr>) = calm s"
  "calm (s\<lparr>nextpid := z\<rparr>) = calm s" "calm (s\<lparr>machine.more := m\<rparr>) = calm (s::'m machine_scheme)"
  "calm (upd_proc i f s) = calm s"
  by (simp_all add: calm_def upd_proc_def)

lemma cur_update [simp]:
  "cur (s\<lparr>procs := x\<rparr>) = cur s" "cur (s\<lparr>sleeplocks := y\<rparr>) = cur s"
  "cur (s\<lparr>nextpid := z\<rparr>) = cur s" "cur (s\<lparr>machine.more := m\<rparr>) = cur (s::'m machine_scheme)"
  "cur (upd_proc i f s) = cur s"
  by (simp_all add: cur_def upd_proc_def)

lemma depth_update [simp]:
  "depth (s\<lparr>procs := x\<rparr>) = depth s" "depth (s\<lparr>sleeplocks := y\<rparr>) = depth s"
  "depth (s\<lparr>nextpid := z\<rparr>) = depth s" "depth (s\<lparr>machine.more := m\<rparr>) = depth (s::'m machine_scheme)"
  "depth (upd_proc i f s) = depth s"
  by (simp_all add: depth_def upd_proc_def)

lemma sched_eq:
  "curproc s = Ret p s \<Longrightarrow> sched s =
    (if \<not> holding (Lk_proc p) s then Panic ''sched p->lock''
     else if depth s \<noteq> 1 then Panic ''sched locks''
     else if pstate (procs s p) = RUNNING then Panic ''sched running''
     else if intr s (hart s) then Panic ''sched interruptible''
     else Swtch s)"
  by (simp add: sched_def depth_def)

lemma lock_free_update [simp]:
  "lock_free l (s\<lparr>procs := x\<rparr>) = lock_free l s" "lock_free l (s\<lparr>sleeplocks := y\<rparr>) = lock_free l s"
  "lock_free l (s\<lparr>nextpid := z\<rparr>) = lock_free l s" "lock_free l (s\<lparr>machine.more := m\<rparr>) = lock_free l s"
  "lock_free l (upd_proc i f s) = lock_free l s"
  by (simp_all add: lock_free_def upd_proc_def)

lemma upd_proc_fields [simp]:
  "hart (upd_proc i f s) = hart s" "intr (upd_proc i f s) = intr s"
  "cpus (upd_proc i f s) = cpus s" "locks (upd_proc i f s) = locks s"
  "sleeplocks (upd_proc i f s) = sleeplocks s" "nextpid (upd_proc i f s) = nextpid s"
  "initproc (upd_proc i f s) = initproc s" "machine.more (upd_proc i f s) = machine.more s"
  "procs (upd_proc i f s) = (procs s)(i := f (procs s i))"
  by (simp_all add: upd_proc_def)


subsection \<open>What waking and sleeping do\<close>

text \<open>A spinlock nobody holds, and the processes' locks all free but for the caller's own.\<close>

definition procs_unlocked :: "'m machine_scheme \<Rightarrow> bool" where
  "procs_unlocked s \<longleftrightarrow> (\<forall>i<NPROC. lock_free (Lk_proc i) s)"

definition wake_proc :: "chan \<Rightarrow> proc \<Rightarrow> proc" where
  "wake_proc ch q = (if pstate q = SLEEPING \<and> pchan q = Some ch then q\<lparr>pstate := RUNNABLE\<rparr> else q)"

definition wake_procs :: "chan \<Rightarrow> nat option \<Rightarrow> (nat \<Rightarrow> proc) \<Rightarrow> nat \<Rightarrow> proc" where
  "wake_procs ch me ps i = (if i < NPROC \<and> me \<noteq> Some i then wake_proc ch (ps i) else ps i)"

lemma wake_proc_idem [simp]: "wake_proc ch (wake_proc ch q) = wake_proc ch q"
  by (simp add: wake_proc_def)

lemma wake_proc_fields [simp]:
  "pchan (wake_proc ch q) = pchan q" "killed (wake_proc ch q) = killed q"
  "xstate (wake_proc ch q) = xstate q" "pid (wake_proc ch q) = pid q"
  "parent (wake_proc ch q) = parent q" "kstack (wake_proc ch q) = kstack q"
  "sz (wake_proc ch q) = sz q" "pagetable (wake_proc ch q) = pagetable q"
  "trapframe (wake_proc ch q) = trapframe q" "ofile (wake_proc ch q) = ofile q"
  "cwd (wake_proc ch q) = cwd q" "pname (wake_proc ch q) = pname q"
  by (simp_all add: wake_proc_def)

lemma wake_procs_fields [simp]:
  "pchan (wake_procs ch me ps i) = pchan (ps i)" "killed (wake_procs ch me ps i) = killed (ps i)"
  "xstate (wake_procs ch me ps i) = xstate (ps i)" "pid (wake_procs ch me ps i) = pid (ps i)"
  "parent (wake_procs ch me ps i) = parent (ps i)" "kstack (wake_procs ch me ps i) = kstack (ps i)"
  "sz (wake_procs ch me ps i) = sz (ps i)" "pagetable (wake_procs ch me ps i) = pagetable (ps i)"
  "trapframe (wake_procs ch me ps i) = trapframe (ps i)"
  "ofile (wake_procs ch me ps i) = ofile (ps i)"
  "cwd (wake_procs ch me ps i) = cwd (ps i)" "pname (wake_procs ch me ps i) = pname (ps i)"
  by (simp_all add: wake_procs_def)

lemma wake_procs_me [simp]: "wake_procs ch (Some p) ps p = ps p"
  by (simp add: wake_procs_def)

lemma wakeup_one_eq:
  assumes "calm s" and "cur s = Some i \<or> lock_free (Lk_proc i) s"
  shows "wakeup_one ch i s = Ret () (if cur s = Some i then s
    else upd_proc i (wake_proc ch) s)"
  using assms by (auto simp: wakeup_one_def wake_proc_def upd_proc_def Let_def)

lemma wakeup_loop:
  assumes "calm s" and "\<forall>i\<in>set xs. cur s = Some i \<or> lock_free (Lk_proc i) s"
  shows "for_each xs (wakeup_one ch) s = Ret () (s\<lparr>procs := \<lambda>i.
    if i \<in> set xs \<and> cur s \<noteq> Some i then wake_proc ch (procs s i) else procs s i\<rparr>)"
  using assms
proof (induction xs arbitrary: s)
  case Nil
  then show ?case by (simp add: machine.equality)
next
  case (Cons j xs)
  define s1 where "s1 = (if cur s = Some j then s else upd_proc j (wake_proc ch) s)"
  have one: "wakeup_one ch j s = Ret () s1"
    using Cons.prems wakeup_one_eq [of s j ch] by (simp add: s1_def)
  have "calm s1" and same: "hart s1 = hart s" "cpus s1 = cpus s"
    and "\<forall>i\<in>set xs. cur s1 = Some i \<or> lock_free (Lk_proc i) s1"
    using Cons.prems by (auto simp: s1_def)
  note IH = Cons.IH [OF this(1,4)]
  show ?case
    unfolding for_each.simps one bnd.simps IH
    by (auto simp: s1_def upd_proc_def fun_eq_iff intro!: machine.equality)
qed

lemma wakeup_eq [simp]:
  assumes "calm s" and "procs_unlocked s"
  shows "wakeup ch s = Ret () (s\<lparr>procs := wake_procs ch (cur s) (procs s)\<rparr>)"
  using assms wakeup_loop [of s "[0..<NPROC]" ch]
  by (auto simp: wakeup_def procs_unlocked_def wake_procs_def fun_eq_iff intro!: machine.equality)

text \<open>\<open>sleep\<close> called by process \<open>p\<close> with \<open>lk\<close> as the only spinlock held: \<open>lk\<close> is free again and
  the process is on the channel, with its own lock held, when the scheduler takes over.\<close>

lemma sleep_eq:
  assumes "calm s" and "depth s = 0" and "cur s = Some p"
    and "lock_free lk s" and "lock_free (Lk_proc p) s" and "lk \<noteq> Lk_proc p"
  shows "sleep ch lk (lock_on lk s)
    = Swtch (lock_on (Lk_proc p) (upd_proc p (\<lambda>q. q\<lparr>pchan := Some ch, pstate := SLEEPING\<rparr>) s))"
proof -
  have "lock_on (Lk_proc p) (lock_on lk s) = lock_on lk (lock_on (Lk_proc p) s)"
    using assms by (intro lock_on_commute) auto
  then show ?thesis
    using assms by (simp add: sleep_def sched_eq [where p = p])
qed

lemma sleep_locks_panic:
  assumes "calm s" and "depth s \<noteq> 0" and "cur s = Some p"
    and "lock_free lk s" and "lock_free (Lk_proc p) s" and "lk \<noteq> Lk_proc p"
  shows "sleep ch lk (lock_on lk s) = Panic ''sched locks''"
proof -
  have "lock_on (Lk_proc p) (lock_on lk s) = lock_on lk (lock_on (Lk_proc p) s)"
    using assms by (intro lock_on_commute) auto
  then show ?thesis
    using assms by (simp add: sleep_def sched_eq [where p = p])
qed

subsection \<open>What the sleeplock operations do\<close>

definition set_slock :: "lock \<Rightarrow> (sleeplock \<Rightarrow> sleeplock) \<Rightarrow> 'm machine_scheme \<Rightarrow> 'm machine_scheme" where
  "set_slock l f s = s\<lparr>sleeplocks := (sleeplocks s)(l := f (sleeplocks s l))\<rparr>"

lemma set_slock_lock_on [simp]: "set_slock k f (lock_on l s) = lock_on l (set_slock k f s)"
  by (simp add: set_slock_def)

lemma set_slock_fields [simp]:
  "hart (set_slock l f s) = hart s" "intr (set_slock l f s) = intr s"
  "cpus (set_slock l f s) = cpus s" "locks (set_slock l f s) = locks s"
  "procs (set_slock l f s) = procs s" "nextpid (set_slock l f s) = nextpid s"
  "initproc (set_slock l f s) = initproc s" "machine.more (set_slock l f s) = machine.more s"
  "sleeplocks (set_slock l f s) = (sleeplocks s)(l := f (sleeplocks s l))"
  "calm (set_slock l f s) = calm s" "cur (set_slock l f s) = cur s" "depth (set_slock l f s) = depth s"
  "lock_free k (set_slock l f s) = lock_free k s"
  by (simp_all add: set_slock_def)

lemma acquiresleep_eq:
  assumes "calm s" and "lock_free l s" and "sl_locked (sleeplocks s l) = 0"
    and "cur s = Some p"
  shows "acquiresleep l s
    = Ret () (set_slock l (\<lambda>k. k\<lparr>sl_locked := 1, sl_pid := pid (procs s p)\<rparr>) s)"
  using assms by (simp add: acquiresleep_def Let_def set_slock_def)

lemma acquiresleep_blocks:
  assumes "calm s" and "depth s = 0" and "lock_free l s" and "sl_locked (sleeplocks s l) \<noteq> 0"
    and "cur s = Some p" and "lock_free (Lk_proc p) s" and "l \<noteq> Lk_proc p"
  shows "acquiresleep l s = Swtch (lock_on (Lk_proc p)
    (upd_proc p (\<lambda>q. q\<lparr>pchan := Some (Ch_sleeplock l), pstate := SLEEPING\<rparr>) s))"
  using assms by (simp add: acquiresleep_def sleep_eq)

lemma procs_unlocked_update [simp]:
  "procs_unlocked (s\<lparr>procs := x\<rparr>) = procs_unlocked s"
  "procs_unlocked (s\<lparr>sleeplocks := y\<rparr>) = procs_unlocked s"
  "procs_unlocked (s\<lparr>nextpid := z\<rparr>) = procs_unlocked s"
  "procs_unlocked (s\<lparr>machine.more := m\<rparr>) = procs_unlocked (s::'m machine_scheme)"
  "procs_unlocked (upd_proc i f s) = procs_unlocked s"
  "procs_unlocked (set_slock l g s) = procs_unlocked s"
  by (simp_all add: procs_unlocked_def)

lemma procs_unlocked_lock_on [simp]:
  "(\<And>i. l \<noteq> Lk_proc i) \<Longrightarrow> procs_unlocked (lock_on l s) = procs_unlocked s"
  by (simp add: procs_unlocked_def) metis

lemma releasesleep_eq:
  assumes "calm s" and "lock_free l s" and "procs_unlocked s" and "\<And>i. l \<noteq> Lk_proc i"
  shows "releasesleep l s = Ret () ((set_slock l (\<lambda>k. k\<lparr>sl_locked := 0, sl_pid := 0\<rparr>) s)
    \<lparr>procs := wake_procs (Ch_sleeplock l) (cur s) (procs s)\<rparr>)"
  using assms by (simp add: releasesleep_def Let_def flip: set_slock_def)

lemma holdingsleep_eq:
  assumes "calm s" and "lock_free l s" and "cur s = Some p"
  shows "holdingsleep l s = Ret (sl_locked (sleeplocks s l) \<noteq> 0
    \<and> sl_pid (sleeplocks s l) = pid (procs s p)) s"
  using assms by (simp add: holdingsleep_def)


subsection \<open>Properties\<close>

lemma set_cproc_fields [simp]:
  "hart (set_cproc q s) = hart s" "intr (set_cproc q s) = intr s" "locks (set_cproc q s) = locks s"
  "sleeplocks (set_cproc q s) = sleeplocks s" "procs (set_cproc q s) = procs s"
  "cur (set_cproc q s) = q" "depth (set_cproc q s) = depth s" "calm (set_cproc q s) = calm s"
  "lock_free l (set_cproc q s) = lock_free l s" "procs_unlocked (set_cproc q s) = procs_unlocked s"
  "set_cproc q (lock_on l s) = lock_on l (set_cproc q s)"
  "set_cproc q (set_cproc q' s) = set_cproc q s"
  "set_cproc q (upd_proc i f s) = upd_proc i f (set_cproc q s)"
  "set_cproc q (s\<lparr>procs := x\<rparr>) = (set_cproc q s)\<lparr>procs := x\<rparr>"
  by (auto simp: set_cproc_def cur_def depth_def calm_def lock_free_def procs_unlocked_def
      lock_on_def push_off_def upd_proc_def Let_def fun_eq_iff intro!: machine.equality cpu.equality)

lemma set_cproc_cur: "cur s = q \<Longrightarrow> set_cproc q s = s"
  by (auto simp: set_cproc_def cur_def intro!: machine.equality cpu.equality)

lemma sched_back_ena [simp]: "intena (mycpu s) = e \<Longrightarrow> sched_back e s = s"
  by (auto simp: sched_back_def intro!: machine.equality)

lemma scheduler_slot_eq:
  assumes "calm s" and "lock_free (Lk_proc i) s"
  shows "scheduler_slot i s = (if pstate (procs s i) = RUNNABLE
    then Ret True (lock_on (Lk_proc i) (set_cproc (Some i) (upd_proc i (\<lambda>q. q\<lparr>pstate := RUNNING\<rparr>) s)))
    else Ret False s)"
  using assms by (simp add: scheduler_slot_def)

lemma kill_loop:
  assumes "calm s" and "\<forall>i\<in>set xs. lock_free (Lk_proc i) s"
  shows "for_find xs (kill_one k) s = (case find (\<lambda>i. pid (procs s i) = k) xs of
     None \<Rightarrow> Ret None s
   | Some i \<Rightarrow> Ret (Some 0) (upd_proc i (\<lambda>q. q\<lparr>killed := 1,
       pstate := if pstate q = SLEEPING then RUNNABLE else pstate q\<rparr>) s))"
proof (rule for_find_pure)
  fix i assume "i \<in> set xs" and "pid (procs s i) \<noteq> k"
  then show "kill_one k i s = Ret None s"
    using assms by (simp add: kill_one_def)
next
  fix i assume "i \<in> set xs" and "pid (procs s i) = k"
  then show "kill_one k i s = Ret (Some 0) (upd_proc i (\<lambda>q. q\<lparr>killed := 1,
       pstate := if pstate q = SLEEPING then RUNNABLE else pstate q\<rparr>) s)"
    using assms by (auto simp: kill_one_def Let_def upd_proc_def intro!: machine.equality proc.equality)
qed

text \<open>\<open>kill\<close> marks the first process of the table with the given pid as killed, makes it
  runnable when it sleeps, leaves every other process alone and returns 0; when no process has the
  pid it changes nothing and returns -1.\<close>

theorem kill_correct:
  assumes "calm s" and "procs_unlocked s"
  shows "kill k s = (case find (\<lambda>i. pid (procs s i) = k) [0..<NPROC] of
     None \<Rightarrow> Ret (-1) s
   | Some i \<Rightarrow> Ret 0 (upd_proc i (\<lambda>q. q\<lparr>killed := 1,
       pstate := if pstate q = SLEEPING then RUNNABLE else pstate q\<rparr>) s))"
  using assms kill_loop [of s "[0..<NPROC]" k]
  by (auto simp: kill_def procs_unlocked_def split: option.splits)



subsection \<open>Several harts\<close>

text \<open>
  The harts of the machine taking and releasing spinlocks in any order, and enabling interrupts
  when they hold none. \<open>H\<close> records who holds what: \<open>acquire l\<close> returning on hart \<open>h\<close> adds
  \<open>(h, l)\<close>, \<open>release l\<close> returning removes it.
\<close>

inductive harts_run :: "(nat \<times> lock) set \<Rightarrow> machine \<Rightarrow> bool" where
  start: "(\<And>l. lock_free l s) \<Longrightarrow> (\<And>h. noff (cpus s h) = 0) \<Longrightarrow> harts_run {} s"
| acquired: "harts_run H s \<Longrightarrow> acquire l (s\<lparr>hart := h\<rparr>) = Ret () t \<Longrightarrow> harts_run (insert (h, l) H) t"
| released: "harts_run H s \<Longrightarrow> release l (s\<lparr>hart := h\<rparr>) = Ret () t \<Longrightarrow> harts_run (H - {(h, l)}) t"
| interrupts: "harts_run H s \<Longrightarrow> noff (cpus s h) = 0 \<Longrightarrow>
    harts_run H (s\<lparr>intr := (intr s)(h := b)\<rparr>)"

definition harts_inv :: "(nat \<times> lock) set \<Rightarrow> machine \<Rightarrow> bool" where
  "harts_inv H s \<longleftrightarrow> finite H
     \<and> (\<forall>h l. (h, l) \<in> H \<longleftrightarrow> locked (locks s l) \<noteq> 0 \<and> lk_cpu (locks s l) = Some h)
     \<and> (\<forall>l. locked (locks s l) = 0 \<longleftrightarrow> lk_cpu (locks s l) = None)
     \<and> (\<forall>h. noff (cpus s h) = int (card {l. (h, l) \<in> H}))
     \<and> (\<forall>h. 0 < noff (cpus s h) \<longrightarrow> \<not> intr s h)"

lemma finite_held: "finite H \<Longrightarrow> finite {l. (h, l) \<in> H}"
  by (rule finite_subset [of _ "snd ` H"]) force+

lemma push_off_noff: "noff (cpus (push_off s) h) = noff (cpus s h) + (if h = hart s then 1 else 0)"
  by (simp add: push_off_def Let_def)

lemma acquire_inv:
  assumes inv: "harts_inv H s" and ret: "acquire l (s\<lparr>hart := h\<rparr>) = Ret () t"
  shows "harts_inv (insert (h, l) H) t"
proof -
  let ?s = "s\<lparr>hart := h\<rparr>"
  from ret have free: "locked (locks s l) = 0"
    by (auto simp: acquire_def Let_def split: if_splits)
  then have none: "lk_cpu (locks s l) = None" using inv by (simp add: harts_inv_def)
  then have t: "t = lock_on l ?s"
    using ret free by (simp add: lock_free_def)
  have notin: "(g, l) \<notin> H" for g
    using inv free by (auto simp: harts_inv_def)
  have "finite H" using inv unfolding harts_inv_def by blast
  then have fin: "finite {k. (h, k) \<in> H}" by (rule finite_held)
  have "{k. (h, k) \<in> insert (h, l) H} = insert l {k. (h, k) \<in> H}" by auto
  then have card1: "card {k. (h, k) \<in> insert (h, l) H} = Suc (card {k. (h, k) \<in> H})"
    using notin fin by simp
  have noff: "noff (cpus t g) = noff (cpus s g) + (if g = h then 1 else 0)" for g
    by (simp add: t lock_on_def push_off_noff)
  have cards: "noff (cpus t g) = int (card {k. (g, k) \<in> insert (h, l) H})" for g
    using inv card1 noff [of g] by (cases "g = h") (auto simp: harts_inv_def)
  show ?thesis
    using inv notin free none cards noff
    by (auto simp: harts_inv_def t split: if_splits)
qed

lemma release_inv:
  assumes inv: "harts_inv H s" and ret: "release l (s\<lparr>hart := h\<rparr>) = Ret () t"
  shows "harts_inv (H - {(h, l)}) t"
proof -
  from ret have held: "locked (locks s l) \<noteq> 0" "lk_cpu (locks s l) = Some h"
    by (auto simp: release_def holding_def split: if_splits)
  then have in_H: "(h, l) \<in> H" using inv by (auto simp: harts_inv_def)
  have only: "(g, l) \<in> H \<Longrightarrow> g = h" for g using inv held by (auto simp: harts_inv_def)
  have "finite H" using inv unfolding harts_inv_def by blast
  then have fin: "finite {k. (h, k) \<in> H}" by (rule finite_held)
  have eq: "{k. (h, k) \<in> H - {(h, l)}} = {k. (h, k) \<in> H} - {l}" by auto
  have mem: "l \<in> {k. (h, k) \<in> H}" using in_H by simp
  then have pos: "0 < card {k. (h, k) \<in> H}" using fin by (auto simp: card_gt_0_iff)
  have "card ({k. (h, k) \<in> H} - {l}) = card {k. (h, k) \<in> H} - 1"
    using mem by (rule card_Diff_singleton)
  then have card1: "int (card {k. (h, k) \<in> H - {(h, l)}}) = int (card {k. (h, k) \<in> H}) - 1"
    using pos unfolding eq by linarith
  have noff: "noff (cpus t g) = noff (cpus s g) - (if g = h then 1 else 0)" for g
    using ret by (auto simp: release_def pop_off_def Let_def split: if_splits)
  have cards: "noff (cpus t g) = int (card {k. (g, k) \<in> H - {(h, l)}})" for g
    using inv card1 noff [of g] by (cases "g = h") (auto simp: harts_inv_def)
  have locks: "locks t = (locks s)(l := (locks s l)\<lparr>lk_cpu := None, locked := 0\<rparr>)"
    using ret by (auto simp: release_def pop_off_def Let_def split: if_splits)
  have intr: "intr t g \<Longrightarrow> intr s g \<or> g = h \<and> noff (cpus t h) = 0" for g
    using ret by (auto simp: release_def pop_off_def Let_def split: if_splits)
  show ?thesis
    unfolding harts_inv_def
  proof (intro conjI allI)
    show "finite (H - {(h, l)})" using inv unfolding harts_inv_def by blast
    show "(g, k) \<in> H - {(h, l)} \<longleftrightarrow> locked (locks t k) \<noteq> 0 \<and> lk_cpu (locks t k) = Some g" for g k
      using inv only unfolding harts_inv_def locks by auto
    show "(locked (locks t k) = 0) = (lk_cpu (locks t k) = None)" for k
      using inv unfolding harts_inv_def locks by auto
    show "noff (cpus t g) = int (card {k. (g, k) \<in> H - {(h, l)}})" for g by (rule cards)
    show "0 < noff (cpus t g) \<longrightarrow> \<not> intr t g" for g
      using inv intr [of g] noff [of g] unfolding harts_inv_def by (auto split: if_splits)
  qed
qed

lemma harts_run_inv: "harts_run H s \<Longrightarrow> harts_inv H s"
proof (induction rule: harts_run.induct)
  case (start s)
  then show ?case by (simp add: harts_inv_def lock_free_def)
next
  case (interrupts H s h b)
  then show ?case by (auto simp: harts_inv_def)
qed (auto intro: acquire_inv release_inv)


text \<open>C19: mutual exclusion and interrupt discipline of the spinlocks, however the harts interleave:
  no lock is ever held by two harts; a hart's \<open>noff\<close> is the number of locks it holds; a hart that
  holds a lock runs with its interrupts off; and a lock nobody holds has no owner recorded.\<close>

theorem spinlocks_exclude:
  assumes "harts_run H s"
  shows "(\<forall>g h l. (g, l) \<in> H \<and> (h, l) \<in> H \<longrightarrow> g = h)
    \<and> (\<forall>h. noff (cpus s h) = int (card {l. (h, l) \<in> H}))
    \<and> (\<forall>h l. (h, l) \<in> H \<longrightarrow> \<not> intr s h)
    \<and> (\<forall>l. (\<forall>h. (h, l) \<notin> H) \<longrightarrow> lock_free l s)"
proof -
  have inv: "harts_inv H s" using assms by (rule harts_run_inv)
  then have "finite H" unfolding harts_inv_def by blast
  have "\<not> intr s h" if "(h, l) \<in> H" for h l
  proof -
    from that have "l \<in> {k. (h, k) \<in> H}" by simp
    then have "0 < card {k. (h, k) \<in> H}"
      using finite_held [OF \<open>finite H\<close>] by (auto simp: card_gt_0_iff)
    then have "0 < noff (cpus s h)" using inv unfolding harts_inv_def by auto
    then show ?thesis using inv unfolding harts_inv_def by blast
  qed
  moreover have "g = h" if "(g, l) \<in> H" "(h, l) \<in> H" for g h l
    using inv that unfolding harts_inv_def by (metis option.inject)
  moreover have "lock_free l s" if "\<forall>h. (h, l) \<notin> H" for l
    using inv that unfolding harts_inv_def lock_free_def by (metis not_None_eq)
  ultimately show ?thesis using inv unfolding harts_inv_def by blast
qed

text \<open>What \<open>acquire\<close> does for a hart in each situation: it returns with the lock when the lock is
  free, panics when the hart itself holds it, and spins when another hart does.\<close>

theorem acquire_cases:
  "acquire l s = (if locked (locks s l) = 0 then Ret () (lock_on l s)
     else if lk_cpu (locks s l) = Some (hart s) then Panic ''acquire'' else Spin)"
  by (auto simp: acquire_def Let_def holding_def lock_on_def)

text \<open>Sleeping while another spinlock is held panics in \<open>sched\<close>: a process that calls \<open>sleep\<close> with
  \<open>lk\<close> and at least one more spinlock held never gives up the CPU.\<close>

theorem sleep_needs_one_lock:
  assumes "calm s" and "depth s \<noteq> 0" and "cur s = Some p"
    and "lock_free lk s" and "lock_free (Lk_proc p) s" and "lk \<noteq> Lk_proc p"
  shows "sleep ch lk (lock_on lk s) = Panic ''sched locks''"
  using assms by (rule sleep_locks_panic)

end
