(* ===== verification/Memory.thy ===== *)
theory Memory
  imports Machine
begin

unbundle bit_operations_syntax

text \<open>
  Physical memory as the kernel sees it (direct-mapped bytes), the byte routines of
  \<^verbatim>\<open>kernel/string.c\<close>, and the physical page allocator of \<^verbatim>\<open>kernel/kalloc.c\<close>, whose free list is
  threaded through the first eight bytes of the free pages themselves. The allocator is proved to
  implement a stack of pages, and that is the interface its clients use.
\<close>

type_synonym mem = "u64 \<Rightarrow> u8"

record memory = machine +
  pmem :: mem
  freelist :: u64
  kend :: u64

subsection \<open>Loads and stores\<close>

definition ld64 :: "mem \<Rightarrow> u64 \<Rightarrow> u64" where
  "ld64 m a = ucast (m a) OR push_bit 8 (ucast (m (a + 1))) OR push_bit 16 (ucast (m (a + 2)))
     OR push_bit 24 (ucast (m (a + 3))) OR push_bit 32 (ucast (m (a + 4)))
     OR push_bit 40 (ucast (m (a + 5))) OR push_bit 48 (ucast (m (a + 6)))
     OR push_bit 56 (ucast (m (a + 7)))"

definition st64 :: "mem \<Rightarrow> u64 \<Rightarrow> u64 \<Rightarrow> mem" where
  "st64 m a v = m(a := ucast v, a + 1 := ucast (drop_bit 8 v), a + 2 := ucast (drop_bit 16 v),
     a + 3 := ucast (drop_bit 24 v), a + 4 := ucast (drop_bit 32 v),
     a + 5 := ucast (drop_bit 40 v), a + 6 := ucast (drop_bit 48 v),
     a + 7 := ucast (drop_bit 56 v))"

lemma byte_of_bit: "bit (push_bit k (ucast (ucast (drop_bit k v :: u64) :: u8)) :: u64) n
    \<longleftrightarrow> k \<le> n \<and> n < k + 8 \<and> bit (v :: u64) n"
  by (auto simp: bit_simps dest: bit_imp_le_length)

lemma bytes_of_u64: "(v :: u64) = ucast (ucast v :: u8) OR push_bit 8 (ucast (ucast (drop_bit 8 v) :: u8))
     OR push_bit 16 (ucast (ucast (drop_bit 16 v) :: u8)) OR push_bit 24 (ucast (ucast (drop_bit 24 v) :: u8))
     OR push_bit 32 (ucast (ucast (drop_bit 32 v) :: u8)) OR push_bit 40 (ucast (ucast (drop_bit 40 v) :: u8))
     OR push_bit 48 (ucast (ucast (drop_bit 48 v) :: u8)) OR push_bit 56 (ucast (ucast (drop_bit 56 v) :: u8))"
  (is "_ = ?w")
proof (rule bit_word_eqI)
  fix n assume n: "n < LENGTH(64)"
  have "bit (ucast (ucast v :: u8) :: u64) n \<longleftrightarrow> n < 8 \<and> bit v n"
    using byte_of_bit [of 0 v n] by simp
  then show "bit v n = bit ?w n"
    unfolding bit_or_iff byte_of_bit using n by simp linarith
qed

lemma ld64_st64 [simp]: "ld64 (st64 m a v) a = v"
  using bytes_of_u64 [of v] by (simp add: ld64_def st64_def)

lemma ld64_cong: "(\<And>i. i < 8 \<Longrightarrow> m (a + i) = m' (a + i)) \<Longrightarrow> ld64 m a = ld64 m' a"
proof -
  assume eq: "\<And>i. i < 8 \<Longrightarrow> m (a + i) = m' (a + i)"
  have "m a = m' a" using eq [of 0] by simp
  with eq [of 1] eq [of 2] eq [of 3] eq [of 4] eq [of 5] eq [of 6] eq [of 7]
  show ?thesis by (simp add: ld64_def)
qed

lemma st64_other: "8 \<le> b - a \<Longrightarrow> st64 m a v b = m b"
proof -
  assume "8 \<le> b - a"
  then have "b - a \<noteq> 0 \<and> b - a \<noteq> 1 \<and> b - a \<noteq> 2 \<and> b - a \<noteq> 3 \<and> b - a \<noteq> 4 \<and> b - a \<noteq> 5
    \<and> b - a \<noteq> 6 \<and> b - a \<noteq> 7"
    by (auto simp: word_le_nat_alt)
  then show ?thesis by (auto simp: st64_def diff_eq_eq add.commute)
qed

subsection \<open>string.c: memory areas\<close>

primrec set_bytes :: "mem \<Rightarrow> u64 \<Rightarrow> u8 \<Rightarrow> nat \<Rightarrow> mem" where
  "set_bytes m a c 0 = m"
| "set_bytes m a c (Suc n) = set_bytes (m(a := c)) (a + 1) c n"

definition memset :: "mem \<Rightarrow> u64 \<Rightarrow> u8 \<Rightarrow> u32 \<Rightarrow> mem" where
  "memset m dst c n = set_bytes m dst c (unat n)"

primrec copy_up :: "mem \<Rightarrow> u64 \<Rightarrow> u64 \<Rightarrow> nat \<Rightarrow> mem" where
  "copy_up m d s 0 = m"
| "copy_up m d s (Suc n) = copy_up (m(d := m s)) (d + 1) (s + 1) n"

primrec copy_down :: "mem \<Rightarrow> u64 \<Rightarrow> u64 \<Rightarrow> nat \<Rightarrow> mem" where
  "copy_down m d s 0 = m"
| "copy_down m d s (Suc n) = copy_down (m(d - 1 := m (s - 1))) (d - 1) (s - 1) n"

definition memmove :: "mem \<Rightarrow> u64 \<Rightarrow> u64 \<Rightarrow> u32 \<Rightarrow> mem" where
  "memmove m d s n =
    (if s < d \<and> d < s + ucast n then copy_down m (d + ucast n) (s + ucast n) (unat n)
     else copy_up m d s (unat n))"

text \<open>The rest of \<^verbatim>\<open>string.c\<close> reads or writes through its pointers only by index, so a pointer is
  the array of bytes found from it on.\<close>

primrec memcmp_loop :: "(nat \<Rightarrow> u8) \<Rightarrow> (nat \<Rightarrow> u8) \<Rightarrow> nat \<Rightarrow> nat \<Rightarrow> int" where
  "memcmp_loop s1 s2 i 0 = 0"
| "memcmp_loop s1 s2 i (Suc n) =
    (if s1 i \<noteq> s2 i then uint (s1 i) - uint (s2 i) else memcmp_loop s1 s2 (Suc i) n)"

definition memcmp :: "(nat \<Rightarrow> u8) \<Rightarrow> (nat \<Rightarrow> u8) \<Rightarrow> u32 \<Rightarrow> int" where
  "memcmp s1 s2 n = memcmp_loop s1 s2 0 (unat n)"

primrec strncmp_loop :: "(nat \<Rightarrow> u8) \<Rightarrow> (nat \<Rightarrow> u8) \<Rightarrow> nat \<Rightarrow> nat \<Rightarrow> int" where
  "strncmp_loop p q i 0 = 0"
| "strncmp_loop p q i (Suc n) =
    (if p i \<noteq> 0 \<and> p i = q i then strncmp_loop p q (Suc i) n else uint (p i) - uint (q i))"

definition strncmp :: "(nat \<Rightarrow> u8) \<Rightarrow> (nat \<Rightarrow> u8) \<Rightarrow> u32 \<Rightarrow> int" where
  "strncmp p q n = strncmp_loop p q 0 (unat n)"

text \<open>\<open>strncpy\<close>: the first loop copies up to and including the NUL, the second pads with NULs.
  \<open>n\<close> is a C \<^verbatim>\<open>int\<close>; a negative \<open>n\<close> copies nothing.\<close>

primrec pad_nul :: "(nat \<Rightarrow> u8) \<Rightarrow> nat \<Rightarrow> nat \<Rightarrow> (nat \<Rightarrow> u8)" where
  "pad_nul s i 0 = s"
| "pad_nul s i (Suc n) = pad_nul (s(i := 0)) (Suc i) n"

primrec strncpy_loop :: "(nat \<Rightarrow> u8) \<Rightarrow> (nat \<Rightarrow> u8) \<Rightarrow> nat \<Rightarrow> nat \<Rightarrow> (nat \<Rightarrow> u8)" where
  "strncpy_loop s t i 0 = s"
| "strncpy_loop s t i (Suc n) =
    (let s = s(i := t i) in if t i \<noteq> 0 then strncpy_loop s t (Suc i) n else pad_nul s (Suc i) n)"

definition strncpy :: "(nat \<Rightarrow> u8) \<Rightarrow> (nat \<Rightarrow> u8) \<Rightarrow> int \<Rightarrow> (nat \<Rightarrow> u8)" where
  "strncpy s t n = strncpy_loop s t 0 (nat n)"

primrec safestrcpy_loop :: "(nat \<Rightarrow> u8) \<Rightarrow> (nat \<Rightarrow> u8) \<Rightarrow> nat \<Rightarrow> nat \<Rightarrow> (nat \<Rightarrow> u8)" where
  "safestrcpy_loop s t i 0 = s(i := 0)"
| "safestrcpy_loop s t i (Suc n) =
    (let s = s(i := t i) in if t i \<noteq> 0 then safestrcpy_loop s t (Suc i) n else s(Suc i := 0))"

definition safestrcpy :: "(nat \<Rightarrow> u8) \<Rightarrow> (nat \<Rightarrow> u8) \<Rightarrow> int \<Rightarrow> (nat \<Rightarrow> u8)" where
  "safestrcpy s t n = (if n \<le> 0 then s else safestrcpy_loop s t 0 (nat (n - 1)))"

text \<open>\<open>strlen\<close> runs on when there is no NUL.\<close>

partial_function (option) strlen_from :: "(nat \<Rightarrow> u8) \<Rightarrow> nat \<Rightarrow> nat option" where
  "strlen_from s n = (if s n \<noteq> 0 then strlen_from s (Suc n) else Some n)"

definition strlen :: "(nat \<Rightarrow> u8) \<Rightarrow> nat option" where
  "strlen s = strlen_from s 0"


subsection \<open>kalloc.c\<close>

definition PGSIZE :: u64 where "PGSIZE = 4096"
definition KERNBASE :: u64 where "KERNBASE = 0x80000000"
definition PHYSTOP :: u64 where "PHYSTOP = KERNBASE + 128 * 1024 * 1024"

definition PGROUNDUP :: "u64 \<Rightarrow> u64" where "PGROUNDUP n = (n + PGSIZE - 1) AND NOT (PGSIZE - 1)"
definition PGROUNDDOWN :: "u64 \<Rightarrow> u64" where "PGROUNDDOWN a = a AND NOT (PGSIZE - 1)"

definition kfree :: "u64 \<Rightarrow> 'm memory_scheme \<Rightarrow> (unit, 'm memory_scheme) outcome" where
  "kfree pa s =
    (if pa mod PGSIZE \<noteq> 0 \<or> pa < kend s \<or> PHYSTOP \<le> pa then Panic ''kfree''
     else
       let s = s\<lparr>pmem := memset (pmem s) pa 1 (ucast PGSIZE)\<rparr>
       in bnd (acquire Lk_kmem s) (\<lambda>_ s.
          let s = s\<lparr>pmem := st64 (pmem s) pa (freelist s)\<rparr>;
              s = s\<lparr>freelist := pa\<rparr>
          in release Lk_kmem s))"

definition kalloc :: "'m memory_scheme \<Rightarrow> (u64, 'm memory_scheme) outcome" where
  "kalloc s =
    bnd (acquire Lk_kmem s) (\<lambda>_ s.
    let r = freelist s;
        s = (if r \<noteq> 0 then s\<lparr>freelist := ld64 (pmem s) r\<rparr> else s)
    in bnd (release Lk_kmem s) (\<lambda>_ s.
       let s = (if r \<noteq> 0 then s\<lparr>pmem := memset (pmem s) r 5 (ucast PGSIZE)\<rparr> else s)
       in Ret r s))"

lemma kfree_below: "kfree p s = Ret x t \<Longrightarrow> p < PHYSTOP"
  by (auto simp: kfree_def split: if_splits)

text \<open>The loop of \<open>freerange\<close> stops because \<open>kfree\<close> panics from \<open>PHYSTOP\<close> on.\<close>

function freerange_loop :: "u64 \<Rightarrow> u64 \<Rightarrow> 'm memory_scheme \<Rightarrow> (unit, 'm memory_scheme) outcome" where
  "freerange_loop p pa_end s =
    (if p + PGSIZE \<le> pa_end then bnd (kfree p s) (\<lambda>_ s. freerange_loop (p + PGSIZE) pa_end s)
     else Ret () s)"
  by pat_completeness auto
termination
proof (relation "measure (\<lambda>(p, e, s). unat PHYSTOP + 4096 - unat p)", goal_cases)
  case 1
  show ?case by simp
next
  case (2 p pa_end s x t)
  then have "p < PHYSTOP" by (simp add: kfree_below)
  then have "unat p < 0x88000000" by (simp add: PHYSTOP_def KERNBASE_def word_less_nat_alt)
  moreover from this have "unat (p + PGSIZE) = unat p + 4096"
    by (simp add: PGSIZE_def unat_word_ariths)
  ultimately show ?case by (simp add: PHYSTOP_def KERNBASE_def)
qed

declare freerange_loop.simps [simp del]

definition freerange :: "u64 \<Rightarrow> u64 \<Rightarrow> 'm memory_scheme \<Rightarrow> (unit, 'm memory_scheme) outcome" where
  "freerange pa_start pa_end s = freerange_loop (PGROUNDUP pa_start) pa_end s"

definition kinit :: "'m memory_scheme \<Rightarrow> (unit, 'm memory_scheme) outcome" where
  "kinit s = (let s = initlock Lk_kmem ''kmem'' s in freerange (kend s) PHYSTOP s)"

lemma lock_on_memory [lock_simps, simp]:
  "(lock_on l s)\<lparr>pmem := x\<rparr> = lock_on l (s\<lparr>pmem := x\<rparr>)"
  "(lock_on l s)\<lparr>freelist := y\<rparr> = lock_on l (s\<lparr>freelist := y\<rparr>)"
  "pmem (lock_on l s) = pmem s" "freelist (lock_on l s) = freelist s" "kend (lock_on l s) = kend s"
  by (simp_all add: lock_on_def push_off_def Let_def)

lemma machine_memory_update [simp]:
  "calm (s\<lparr>pmem := x\<rparr>) = calm s" "calm (s\<lparr>freelist := y\<rparr>) = calm s"
  "cur (s\<lparr>pmem := x\<rparr>) = cur s" "cur (s\<lparr>freelist := y\<rparr>) = cur s"
  "depth (s\<lparr>pmem := x\<rparr>) = depth s" "depth (s\<lparr>freelist := y\<rparr>) = depth s"
  "lock_free l (s\<lparr>pmem := x\<rparr>) = lock_free l s" "lock_free l (s\<lparr>freelist := y\<rparr>) = lock_free l s"
  "procs_unlocked (s\<lparr>pmem := x\<rparr>) = procs_unlocked s"
  "procs_unlocked (s\<lparr>freelist := y\<rparr>) = procs_unlocked s"
  by (simp_all add: calm_def cur_def depth_def lock_free_def procs_unlocked_def)

lemma kfree_eq:
  assumes "calm s" and "lock_free Lk_kmem s"
  shows "kfree pa s = (if pa mod PGSIZE \<noteq> 0 \<or> pa < kend s \<or> PHYSTOP \<le> pa then Panic ''kfree''
    else Ret () (s\<lparr>pmem := st64 (memset (pmem s) pa 1 (ucast PGSIZE)) pa (freelist s), freelist := pa\<rparr>))"
  using assms by (simp add: kfree_def Let_def)

lemma kalloc_eq:
  assumes "calm s" and "lock_free Lk_kmem s"
  shows "kalloc s = (if freelist s = 0 then Ret 0 s
    else Ret (freelist s) (s\<lparr>freelist := ld64 (pmem s) (freelist s),
      pmem := memset (pmem s) (freelist s) 5 (ucast PGSIZE)\<rparr>))"
  using assms by (simp add: kalloc_def Let_def)


subsection \<open>What the byte routines do\<close>

lemma offset_Suc: "unat (x - a) < Suc n \<longleftrightarrow> x = a \<or> unat (x - (a + 1)) < n \<and> x \<noteq> (a :: u64)"
proof (cases "x = a")
  case False
  then have "unat (x - a - 1) = unat (x - a) - 1" by (intro unat_minus_one) simp
  moreover have "0 < unat (x - a)" using False by (simp add: unat_gt_0)
  ultimately show ?thesis using False by (auto simp: diff_diff_add)
qed simp

lemma set_bytes_eq: "set_bytes m a c n = (\<lambda>x. if unat (x - a) < n then c else m x)"
proof (induction n arbitrary: m a)
  case (Suc n)
  show ?case by (simp add: Suc.IH fun_eq_iff offset_Suc)
qed simp

lemma memset_eq: "memset m dst c n = (\<lambda>x. if unat (x - dst) < unat n then c else m x)"
  by (simp add: memset_def set_bytes_eq)

lemma copy_up_eq:
  assumes "d = s \<or> n \<le> unat (d - s)"
  shows "copy_up m d s n = (\<lambda>x. if unat (x - d) < n then m (s + (x - d)) else m x)"
  using assms
proof (induction n arbitrary: m d s)
  case (Suc n)
  have "d + 1 = s + 1 \<or> n \<le> unat (d + 1 - (s + 1))" using Suc.prems by auto
  note IH = Suc.IH [OF this]
  have kept: "(m(d := m s)) (s + 1 + (x - (d + 1))) = m (s + (x - d))"
    if "unat (x - (d + 1)) < n" and "x \<noteq> d" for x
  proof -
    have "unat (x - d) < Suc n" using that by (simp add: offset_Suc)
    moreover have "0 < unat (x - d)" using that by (simp add: unat_gt_0)
    moreover have "s + (x - d) = d \<Longrightarrow> x - d = d - s" by (simp add: algebra_simps)
    ultimately have "s + (x - d) \<noteq> d" using Suc.prems that by (metis add_diff_cancel_left' diff_add_cancel not_less)
    then have "(m(d := m s)) (s + (x - d)) = m (s + (x - d))" by (rule fun_upd_other)
    moreover have "s + 1 + (x - (d + 1)) = s + (x - d)" by simp
    ultimately show ?thesis by (simp only:)
  qed
  show ?case
  proof
    fix x
    show "copy_up m d s (Suc n) x = (if unat (x - d) < Suc n then m (s + (x - d)) else m x)"
      using kept [of x] by (simp only: copy_up.simps IH offset_Suc) auto
  qed
qed simp

lemma copy_down_eq:
  assumes "d = s \<or> n \<le> unat (s - d)" and "n < 2 ^ 64"
  shows "copy_down m (d + of_nat n) (s + of_nat n) n
    = (\<lambda>x. if unat (x - d) < n then m (s + (x - d)) else m x)"
  using assms
proof (induction n arbitrary: m)
  case (Suc n)
  have n: "unat (of_nat n :: u64) = n" using Suc.prems(2) by simp
  have "d = s \<or> n \<le> unat (s - d)" and "n < 2 ^ 64" using Suc.prems by auto
  note IH = Suc.IH [OF this]
  have last: "unat (x - d) = n \<longleftrightarrow> x = d + of_nat n" for x
  proof -
    have "unat (x - d) = n \<longleftrightarrow> x - d = of_nat n" unfolding word_unat_eq_iff n ..
    then show ?thesis by (simp add: diff_eq_eq add.commute)
  qed
  have kept: "(m(d + of_nat n := m (s + of_nat n))) (s + (x - d)) = m (s + (x - d))"
    if "unat (x - d) < n" for x
  proof (cases "s + (x - d) = d + of_nat n")
    case True
    then have eq: "s - d = of_nat n - (x - d)" by (simp add: algebra_simps)
    have "x - d \<le> of_nat n" using that n by (simp add: word_le_nat_alt)
    then have "unat (s - d) = n - unat (x - d)" unfolding eq using n by (simp add: unat_sub)
    then show ?thesis using Suc.prems(1) that by auto
  qed simp
  have "copy_down m (d + of_nat (Suc n)) (s + of_nat (Suc n)) (Suc n)
    = copy_down (m(d + of_nat n := m (s + of_nat n))) (d + of_nat n) (s + of_nat n) n"
    by (simp add: algebra_simps)
  also have "\<dots> = (\<lambda>x. if unat (x - d) < Suc n then m (s + (x - d)) else m x)"
    unfolding IH
  proof
    fix x
    show "(if unat (x - d) < n then (m(d + of_nat n := m (s + of_nat n))) (s + (x - d))
       else (m(d + of_nat n := m (s + of_nat n))) x)
      = (if unat (x - d) < Suc n then m (s + (x - d)) else m x)"
      using last [of x] kept [of x] by (auto simp: less_Suc_eq)
  qed
  finally show ?case .
qed simp

lemma memmove_spec:
  assumes "unat s + unat n < 2 ^ 64" and "unat d + unat n \<le> 2 ^ 64"
  shows "memmove m d s n = (\<lambda>x. if unat (x - d) < unat n then m (s + (x - d)) else m x)"
proof -
  have n64: "(ucast n :: u64) = of_nat (unat n)" "unat (ucast n :: u64) = unat n"
    by (simp_all add: word_unat_eq_iff)
  have sn: "unat (s + ucast n) = unat s + unat n"
    using assms(1) n64 by (simp add: unat_word_ariths)
  show ?thesis
  proof (cases "s < d \<and> d < s + ucast n")
    case True
    then have "unat n \<le> unat (s - d)"
      using assms(2) by (simp add: word_less_nat_alt unat_sub_u64)
    moreover have "unat n < 2 ^ 64" using assms(1) by simp
    ultimately have "copy_down m (d + of_nat (unat n)) (s + of_nat (unat n)) (unat n)
      = (\<lambda>x. if unat (x - d) < unat n then m (s + (x - d)) else m x)"
      by (intro copy_down_eq) auto
    then show ?thesis using True unfolding memmove_def n64(1) by simp
  next
    case False
    then have "unat d \<le> unat s \<or> unat s + unat n \<le> unat d"
      unfolding word_less_nat_alt sn by linarith
    then have "d = s \<or> unat n \<le> unat (d - s)"
    proof
      assume "unat d \<le> unat s"
      show ?thesis
      proof (cases "unat d = unat s")
        case True
        then show ?thesis by (simp add: word_unat_eq_iff)
      next
        case False
        then have "unat (d - s) = 18446744073709551616 + unat d - unat s"
          using \<open>unat d \<le> unat s\<close> by (simp add: unat_sub_u64)
        then show ?thesis using assms(1) by simp linarith
      qed
    next
      assume "unat s + unat n \<le> unat d"
      then have "unat n \<le> unat (d - s)" by (simp add: unat_sub_u64)
      then show ?thesis ..
    qed
    then show ?thesis using False by (auto simp: memmove_def copy_up_eq)
  qed
qed

text \<open>C17: \<open>memmove\<close> copies correctly whichever way the areas overlap: for areas that do not wrap
  around the end of the address space, byte \<open>k\<close> of the destination becomes byte \<open>k\<close> of the source as
  it was before the call, and nothing else changes.\<close>

theorem memmove_correct:
  assumes "unat s + unat n < 2 ^ 64" and "unat d + unat n \<le> 2 ^ 64"
  shows "memmove m d s n = (\<lambda>x. if unat (x - d) < unat n then m (s + (x - d)) else m x)"
  by (rule memmove_spec [OF assms])

subsection \<open>The free list is a stack of pages\<close>

lemma page_offset:
  assumes "x mod PGSIZE = 0" and "r mod PGSIZE = 0" and "x \<noteq> r" and "unat i < 4096"
  shows "4096 \<le> unat (x + i - r)"
proof -
  have dvd: "4096 dvd unat x" "4096 dvd unat r"
    using assms(1,2) by (simp_all add: PGSIZE_def word_unat_eq_iff unat_mod mod_eq_0_iff_dvd)
  let ?d = "unat (x - r)"
  have "4096 dvd (18446744073709551616 :: nat)" by simp
  then have "4096 dvd ?d"
    using dvd unfolding unat_sub_u64 by (simp del: dvd_numeral_simp)
  then obtain k where k: "?d = 4096 * k" ..
  have "?d \<noteq> 0" using assms(3) by (simp add: unat_eq_0)
  then have "1 \<le> k" unfolding k by simp
  have "4096 * k < 4096 * 4503599627370496" using unat_u64_less [of "x - r"] k by simp
  then have "k \<le> 4503599627370495" by simp
  have "4096 \<le> ?d" using \<open>1 \<le> k\<close> k by linarith
  moreover have "?d + unat i < 18446744073709551616"
    using assms(4) k \<open>k \<le> 4503599627370495\<close> by linarith
  ultimately have "4096 \<le> unat (x - r + i)" by (simp add: unat_add_u64)
  moreover have "x + i - r = x - r + i" by simp
  ultimately show ?thesis by (simp only:)
qed

lemma page_cong:
  assumes "\<And>a. 4096 \<le> unat (a - r) \<Longrightarrow> m' a = m a"
    and "x mod PGSIZE = 0" and "r mod PGSIZE = 0" and "x \<noteq> r"
  shows "ld64 m' x = ld64 m x"
proof (rule ld64_cong)
  fix i :: u64 assume "i < 8"
  then have "unat i < 4096" by (simp add: word_less_nat_alt)
  with assms show "m' (x + i) = m (x + i)" by (simp add: page_offset)
qed

text \<open>\<open>freelist_is m r xs\<close>: starting at \<open>r\<close>, the next pointers in memory run through the pages \<open>xs\<close> and
  end in a null pointer.\<close>

primrec freelist_is :: "mem \<Rightarrow> u64 \<Rightarrow> u64 list \<Rightarrow> bool" where
  "freelist_is m r [] \<longleftrightarrow> r = 0"
| "freelist_is m r (x # xs) \<longleftrightarrow> r = x \<and> freelist_is m (ld64 m x) xs"

definition valid_page :: "u64 \<Rightarrow> u64 \<Rightarrow> bool" where
  "valid_page e x \<longleftrightarrow> x mod PGSIZE = 0 \<and> e \<le> x \<and> x < PHYSTOP"

definition kmem_inv :: "'m memory_scheme \<Rightarrow> u64 list \<Rightarrow> bool" where
  "kmem_inv s xs \<longleftrightarrow> 0 < kend s \<and> freelist_is (pmem s) (freelist s) xs \<and> distinct xs
     \<and> (\<forall>x\<in>set xs. valid_page (kend s) x)"

lemma freelist_is_cong:
  assumes "\<And>x. x \<in> set xs \<Longrightarrow> ld64 m' x = ld64 m x"
  shows "freelist_is m' r xs = freelist_is m r xs"
  using assms by (induction xs arbitrary: r) auto

lemma freelist_is_page:
  assumes "\<And>a. 4096 \<le> unat (a - p) \<Longrightarrow> m' a = m a" and "p mod PGSIZE = 0"
    and "\<forall>x\<in>set xs. x mod PGSIZE = 0 \<and> x \<noteq> p"
  shows "freelist_is m' r xs = freelist_is m r xs"
  using assms by (intro freelist_is_cong page_cong [of p]) auto

text \<open>The memory \<open>kfree\<close> leaves: the page filled with ones, its first eight bytes the next pointer.\<close>

definition freed_mem :: "mem \<Rightarrow> u64 \<Rightarrow> u64 \<Rightarrow> mem" where
  "freed_mem m pa r = st64 (memset m pa 1 (ucast PGSIZE)) pa r"

lemma memset_page: "memset m pa c (ucast PGSIZE) = (\<lambda>x. if unat (x - pa) < 4096 then c else m x)"
  by (simp add: memset_eq PGSIZE_def)

lemma freed_mem_outside: "4096 \<le> unat (a - pa) \<Longrightarrow> freed_mem m pa r a = m a"
  by (simp add: freed_mem_def memset_page st64_other word_le_nat_alt)

text \<open>Only the free list and the memory differ.\<close>

definition mem_frame :: "'m memory_scheme \<Rightarrow> 'm memory_scheme \<Rightarrow> bool" where
  "mem_frame s t \<longleftrightarrow> t = s\<lparr>freelist := freelist t, pmem := pmem t\<rparr>"

lemma mem_frame_fields:
  assumes "mem_frame s t"
  shows "hart t = hart s" "intr t = intr s" "cpus t = cpus s" "locks t = locks s"
    "sleeplocks t = sleeplocks s" "procs t = procs s" "initproc t = initproc s"
    "nextpid t = nextpid s" "kend t = kend s" "memory.more t = memory.more s"
    "calm t = calm s" "cur t = cur s" "lock_free l t = lock_free l s"
proof -
  have eq: "t = s\<lparr>freelist := freelist t, pmem := pmem t\<rparr>" using assms by (simp add: mem_frame_def)
  show "hart t = hart s" "intr t = intr s" "cpus t = cpus s" "locks t = locks s"
    "sleeplocks t = sleeplocks s" "procs t = procs s" "initproc t = initproc s"
    "nextpid t = nextpid s" "kend t = kend s" "memory.more t = memory.more s"
    by (subst eq, simp)+
  then show "calm t = calm s" "cur t = cur s" "lock_free l t = lock_free l s"
    by (simp_all add: calm_def cur_def lock_free_def)
qed

lemma mem_frame_refl [simp]: "mem_frame s s"
  by (simp add: mem_frame_def)

lemma mem_frame_trans: "mem_frame s t \<Longrightarrow> mem_frame t u \<Longrightarrow> mem_frame s u"
  using mem_frame_fields(1-10) [of s t] mem_frame_fields(1-10) [of t u]
  unfolding mem_frame_def [of s u] by (intro memory.equality) simp_all

lemma mem_frame_pmem [simp]: "mem_frame s (s\<lparr>pmem := m\<rparr>)"
  by (simp add: mem_frame_def)

lemma kfree_push:
  assumes "calm s" and "lock_free Lk_kmem s" and "kmem_inv s xs"
    and "valid_page (kend s) pa" and "pa \<notin> set xs"
  shows "\<exists>t. kfree pa s = Ret () t \<and> kmem_inv t (pa # xs)
    \<and> (\<forall>a. 4096 \<le> unat (a - pa) \<longrightarrow> pmem t a = pmem s a) \<and> mem_frame s t"
proof -
  let ?t = "s\<lparr>pmem := freed_mem (pmem s) pa (freelist s), freelist := pa\<rparr>"
  have eq: "kfree pa s = Ret () ?t"
    using assms(1,2,4) by (auto simp: kfree_eq valid_page_def freed_mem_def)
  have "freelist_is (freed_mem (pmem s) pa (freelist s)) (freelist s) xs"
    using assms(3-5)
    by (subst freelist_is_page [of pa _ "pmem s"])
      (auto simp: kmem_inv_def valid_page_def freed_mem_outside)
  then have "kmem_inv ?t (pa # xs)"
    using assms(3-5) by (auto simp: kmem_inv_def freed_mem_def)
  then show ?thesis using eq by (auto simp: freed_mem_outside mem_frame_def)
qed

lemma kalloc_pop:
  assumes "calm s" and "lock_free Lk_kmem s" and "kmem_inv s xs"
  shows "case xs of [] \<Rightarrow> kalloc s = Ret 0 s
    | x # ys \<Rightarrow> \<exists>t. kalloc s = Ret x t \<and> x \<noteq> 0 \<and> valid_page (kend t) x \<and> kmem_inv t ys
        \<and> (\<forall>a. pmem t a = (if unat (a - x) < 4096 then 5 else pmem s a)) \<and> mem_frame s t"
proof (cases xs)
  case Nil
  then show ?thesis using assms by (simp add: kalloc_eq kmem_inv_def)
next
  case (Cons x ys)
  let ?t = "s\<lparr>freelist := ld64 (pmem s) x, pmem := memset (pmem s) x 5 (ucast PGSIZE)\<rparr>"
  have x: "freelist s = x" "x \<noteq> 0"
    using assms(3) Cons by (auto simp: kmem_inv_def valid_page_def)
  then have eq: "kalloc s = Ret x ?t" using assms(1,2) by (simp add: kalloc_eq)
  have "freelist_is (memset (pmem s) x 5 (ucast PGSIZE)) (ld64 (pmem s) x) ys"
    using assms(3) Cons
    by (subst freelist_is_page [of x _ "pmem s"])
      (auto simp: kmem_inv_def valid_page_def memset_page)
  then have "kmem_inv ?t ys" using assms(3) Cons by (auto simp: kmem_inv_def)
  moreover have "valid_page (kend s) x" using assms(3) Cons by (simp add: kmem_inv_def)
  ultimately show ?thesis using eq x Cons by (auto simp: memset_page mem_frame_def)
qed

text \<open>\<open>kfree\<close> of a page that is not already free pushes it on the free list: it returns, the
  list of free pages grows by exactly this page in front, and memory changes inside the page only.\<close>

theorem kfree_pushes:
  assumes "calm s" and "lock_free Lk_kmem s" and "kmem_inv s xs"
    and "valid_page (kend s) pa" and "pa \<notin> set xs"
  shows "\<exists>t. kfree pa s = Ret () t \<and> kmem_inv t (pa # xs)
    \<and> (\<forall>a. 4096 \<le> unat (a - pa) \<longrightarrow> pmem t a = pmem s a) \<and> mem_frame s t"
  using assms by (rule kfree_push)

text \<open>\<open>kalloc\<close> pops the free list: with no free page it returns 0 and changes nothing; otherwise it
  returns the page freed last, filled with the byte 5, the other free pages stay free in the same
  order, and memory changes inside the page only.\<close>

theorem kalloc_pops:
  assumes "calm s" and "lock_free Lk_kmem s" and "kmem_inv s xs"
  shows "case xs of [] \<Rightarrow> kalloc s = Ret 0 s
    | x # ys \<Rightarrow> \<exists>t. kalloc s = Ret x t \<and> x \<noteq> 0 \<and> valid_page (kend t) x \<and> kmem_inv t ys
        \<and> (\<forall>a. pmem t a = (if unat (a - x) < 4096 then 5 else pmem s a)) \<and> mem_frame s t"
  using assms by (rule kalloc_pop)


subsection \<open>Filling the allocator at boot\<close>

lemma page_next:
  assumes "p mod PGSIZE = 0" and "p < PHYSTOP"
  shows "(p + PGSIZE) mod PGSIZE = 0" and "unat (p + PGSIZE) = unat p + 4096" and "p + PGSIZE \<le> PHYSTOP"
proof -
  have p: "unat p < 2281701376" using assms(2) by (simp add: PHYSTOP_def KERNBASE_def word_less_nat_alt)
  then show unat: "unat (p + PGSIZE) = unat p + 4096" by (simp add: PGSIZE_def unat_add_u64)
  have m: "unat p mod 4096 = 0"
    using assms(1) by (simp add: PGSIZE_def word_unat_eq_iff unat_mod)
  then show "(p + PGSIZE) mod PGSIZE = 0"
    using unat by (simp add: PGSIZE_def word_unat_eq_iff unat_mod)
  obtain k where "unat p = 4096 * k" using m by auto
  then show "p + PGSIZE \<le> PHYSTOP"
    using p unat by (simp add: PHYSTOP_def KERNBASE_def word_le_nat_alt)
qed

lemma kfree_keeps:
  assumes "kfree pa s = Ret () t" and "calm s" and "lock_free Lk_kmem s"
  shows "calm t" "lock_free Lk_kmem t" "kend t = kend s"
  using assms by (auto simp: kfree_eq split: if_splits)

lemma freerange_loop_correct:
  assumes "unat p + 4096 * n = unat PHYSTOP" and "p mod PGSIZE = 0" and "kend s \<le> p"
    and "calm s" and "lock_free Lk_kmem s" and "kmem_inv s xs" and "\<forall>x\<in>set xs. x < p"
  shows "\<exists>t. freerange_loop p PHYSTOP s = Ret () t
    \<and> kmem_inv t (rev (map (\<lambda>k. p + of_nat k * PGSIZE) [0..<n]) @ xs)"
  using assms
proof (induction n arbitrary: p s xs)
  case 0
  have p: "p = PHYSTOP" using "0.prems"(1) by (simp add: word_unat_eq_iff)
  have "\<not> PHYSTOP + PGSIZE \<le> PHYSTOP" by (simp add: PHYSTOP_def KERNBASE_def PGSIZE_def)
  then show ?case using "0.prems" p by (simp add: freerange_loop.simps [of PHYSTOP])
next
  case (Suc n)
  have lt: "p < PHYSTOP" using Suc.prems(1) by (simp add: word_less_nat_alt)
  note next_p = page_next [OF Suc.prems(2) lt]
  have "valid_page (kend s) p" using Suc.prems lt by (simp add: valid_page_def)
  moreover have "p \<notin> set xs" using Suc.prems(7) by auto
  ultimately obtain t where t: "kfree p s = Ret () t" "kmem_inv t (p # xs)"
    using kfree_push [OF Suc.prems(4,5,6)] by blast
  note kept = kfree_keeps [OF t(1) Suc.prems(4,5)]
  have "\<forall>x\<in>set (p # xs). x < p + PGSIZE"
    using Suc.prems(7) next_p(2) by (auto simp: word_less_nat_alt)
  moreover have "kend t \<le> p + PGSIZE"
    using Suc.prems(3) kept(3) next_p(2) by (simp add: word_le_nat_alt)
  moreover have "unat (p + PGSIZE) + 4096 * n = unat PHYSTOP"
    using Suc.prems(1) next_p(2) by simp
  ultimately obtain u where u: "freerange_loop (p + PGSIZE) PHYSTOP t = Ret () u"
      "kmem_inv u (rev (map (\<lambda>k. p + PGSIZE + of_nat k * PGSIZE) [0..<n]) @ p # xs)"
    using Suc.IH [OF _ next_p(1) _ kept(1,2) t(2)] by blast
  have "map (\<lambda>k. p + of_nat k * PGSIZE) [0..<Suc n]
      = p # map (\<lambda>k. p + PGSIZE + of_nat k * PGSIZE) [0..<n]"
    by (simp add: upt_rec [of 0] map_Suc_upt [symmetric] algebra_simps del: upt_Suc)
  then have "kmem_inv u (rev (map (\<lambda>k. p + of_nat k * PGSIZE) [0..<Suc n]) @ xs)"
    using u(2) by simp
  moreover have "freerange_loop p PHYSTOP s = Ret () u"
    using t(1) u(1) next_p(3) by (simp add: freerange_loop.simps [of p])
  ultimately show ?case by blast
qed

text \<open>C16: booting the allocator: \<open>kinit\<close> returns, and the free list then holds exactly the whole
  pages between the end of the kernel and \<open>PHYSTOP\<close>, each once, the highest first.\<close>

theorem kinit_correct:
  assumes "calm s" and "freelist s = 0" and "0 < kend s"
    and "kend s \<le> PGROUNDUP (kend s)" and "PGROUNDUP (kend s) mod PGSIZE = 0"
    and "unat (PGROUNDUP (kend s)) + 4096 * n = unat PHYSTOP"
  shows "\<exists>t. kinit s = Ret () t
    \<and> kmem_inv t (rev (map (\<lambda>k. PGROUNDUP (kend s) + of_nat k * PGSIZE) [0..<n]))"
proof -
  let ?s = "initlock Lk_kmem ''kmem'' s"
  have same: "calm ?s = calm s" "freelist ?s = freelist s" "kend ?s = kend s"
    by (simp_all add: initlock_def calm_def)
  have "kmem_inv ?s []" using assms(2,3) same by (simp add: kmem_inv_def)
  moreover have "lock_free Lk_kmem ?s" by (simp add: initlock_def lock_free_def)
  ultimately obtain t where "freerange_loop (PGROUNDUP (kend s)) PHYSTOP ?s = Ret () t"
      "kmem_inv t (rev (map (\<lambda>k. PGROUNDUP (kend s) + of_nat k * PGSIZE) [0..<n]) @ [])"
    using freerange_loop_correct [of "PGROUNDUP (kend s)" n ?s "[]"] assms same by auto
  then show ?thesis using same by (simp add: kinit_def freerange_def Let_def)
qed

subsection \<open>Strings in arrays\<close>

text \<open>The string in the first \<open>n\<close> bytes of an array: the bytes before the first NUL.\<close>

primrec cstr_at :: "(nat \<Rightarrow> u8) \<Rightarrow> nat \<Rightarrow> nat \<Rightarrow> u8 list" where
  "cstr_at a i 0 = []"
| "cstr_at a i (Suc n) = (if a i = 0 then [] else a i # cstr_at a (Suc i) n)"

definition cstr :: "(nat \<Rightarrow> u8) \<Rightarrow> nat \<Rightarrow> u8 list" where
  "cstr a n = cstr_at a 0 n"

lemma cstr_at_takeWhile: "cstr_at a i n = takeWhile (\<lambda>b. b \<noteq> 0) (map a [i..<i + n])"
proof (induction n arbitrary: i)
  case (Suc n)
  have "[i..<i + Suc n] = i # [Suc i..<Suc i + n]" by (simp add: upt_rec)
  then show ?case using Suc.IH [of "Suc i"] by (simp del: upt_Suc)
qed simp

lemma cstr_at_cong: "(\<And>k. i \<le> k \<Longrightarrow> k < i + n \<Longrightarrow> a k = b k) \<Longrightarrow> cstr_at a i n = cstr_at b i n"
  by (induction n arbitrary: i) auto

lemma strncmp_loop_0: "strncmp_loop p q i n = 0 \<longleftrightarrow> cstr_at p i n = cstr_at q i n"
proof (induction n arbitrary: i)
  case (Suc n)
  have eq: "uint (p i) - uint (q i) = 0 \<longleftrightarrow> p i = q i" by (simp add: word_uint_eq_iff)
  show ?case
    unfolding strncmp_loop.simps cstr_at.simps using Suc.IH [of "Suc i"] eq by auto
qed simp

text \<open>\<open>strncmp\<close> returns 0 exactly when the two strings, cut off at \<open>n\<close> bytes, are equal.\<close>

theorem strncmp_0: "strncmp p q n = 0 \<longleftrightarrow> cstr p (unat n) = cstr q (unat n)"
  using strncmp_loop_0 [of p q 0 "unat n"] by (simp add: strncmp_def cstr_def)

lemma pad_nul_eq: "pad_nul s i n = (\<lambda>k. if i \<le> k \<and> k < i + n then 0 else s k)"
  by (induction n arbitrary: s i) (auto simp: fun_eq_iff)

lemma strncpy_loop_eq:
  "strncpy_loop s t i n = (\<lambda>k. if i \<le> k \<and> k < i + n
    then (if \<exists>j. i \<le> j \<and> j < k \<and> t j = 0 then 0 else t k) else s k)"
proof (induction n arbitrary: s i)
  case (Suc n)
  show ?case
  proof (cases "t i = 0")
    case True
    then show ?thesis by (auto simp: pad_nul_eq fun_eq_iff)
  next
    case False
    have "(\<exists>j\<ge>i. j < k \<and> t j = 0) \<longleftrightarrow> (\<exists>j\<ge>Suc i. j < k \<and> t j = 0)" for k
      using False by (metis Suc_leD Suc_leI le_neq_implies_less)
    then show ?thesis using False by (auto simp: Suc.IH fun_eq_iff)
  qed
next
  case 0
  show ?case
  proof
    fix k
    have "\<not> (i \<le> k \<and> k < i)" by linarith
    then show "strncpy_loop s t i 0 k = (if i \<le> k \<and> k < i + 0
      then (if \<exists>j. i \<le> j \<and> j < k \<and> t j = 0 then 0 else t k) else s k)" by auto
  qed
qed

text \<open>\<open>strncpy\<close> writes exactly the first \<open>n\<close> bytes of the destination: the source up to its first
  NUL, then NULs.\<close>

theorem strncpy_correct:
  "strncpy s t n k = (if int k < n then (if \<exists>j<k. t j = 0 then 0 else t k) else s k)"
  by (auto simp: strncpy_def strncpy_loop_eq)

lemma cstr_at_upto_nul: "cstr_at (\<lambda>k. if \<exists>j<k. i \<le> j \<and> t j = 0 then 0 else t k) i n = cstr_at t i n"
proof (induction n arbitrary: i)
  case (Suc n)
  show ?case
  proof (cases "t i = 0")
    case False
    then have "(\<exists>j<k. i \<le> j \<and> t j = 0) = (\<exists>j<k. Suc i \<le> j \<and> t j = 0)" for k
      by (metis Suc_leD Suc_leI le_neq_implies_less)
    then show ?thesis using Suc.IH [of "Suc i"] False by auto
  qed auto
qed simp

lemma cstr_strncpy: "cstr (strncpy s t (int n)) n = cstr t n"
proof -
  have "cstr (strncpy s t (int n)) n = cstr_at (\<lambda>k. if \<exists>j<k. 0 \<le> j \<and> t j = 0 then 0 else t k) 0 n"
    unfolding cstr_def by (rule cstr_at_cong) (simp add: strncpy_correct)
  then show ?thesis using cstr_at_upto_nul [of 0 t n] by (simp add: cstr_def)
qed

end
