(* ===== verification/Bio.thy ===== *)
theory Bio
  imports Memory
begin

text \<open>
  The buffer cache (\<^verbatim>\<open>kernel/bio.c\<close>): thirty buffers on a circular doubly linked list in order of
  use, looked up and recycled under the spinlock \<^verbatim>\<open>bcache.lock\<close>, each held by one process at a time
  through its sleeplock. The list is modelled by its \<open>next\<close> and \<open>prev\<close> pointers. The disk behind
  the cache is a map from block numbers to blocks; \<open>disk_rw\<close> is what \<^verbatim>\<open>virtio_disk_rw\<close> has done when
  it returns, and \<open>dwrites\<close> records the writes in order, for the crash theorems of the log.
\<close>

subsection \<open>Data\<close>

definition NBUF :: nat where "NBUF = 30"
definition ROOTDEV :: u32 where "ROOTDEV = 1"
definition BSIZE :: nat where "BSIZE = 1024"

text \<open>The \<open>BSIZE\<close> bytes of a block; the code never indexes it at \<open>BSIZE\<close> or above.\<close>

type_synonym block = "nat \<Rightarrow> u8"

record buf =
  b_valid :: bool
  b_dev :: u32
  b_blockno :: u32
  b_refcnt :: u32
  b_prev :: nat
  b_next :: nat
  b_data :: block

text \<open>Buffers are numbered; \<open>bhead\<close> stands for \<^verbatim>\<open>&bcache.head\<close>.\<close>

definition bhead :: nat where "bhead = NBUF"

record bio = memory +
  bufs :: "nat \<Rightarrow> buf"
  disk :: "u32 \<Rightarrow> block"
  dwrites :: "(u32 \<times> block) list"

definition upd_buf :: "nat \<Rightarrow> (buf \<Rightarrow> buf) \<Rightarrow> 'm bio_scheme \<Rightarrow> 'm bio_scheme" where
  "upd_buf i f s = s\<lparr>bufs := (bufs s)(i := f (bufs s i))\<rparr>"

subsection \<open>Operations\<close>

definition binit_one :: "nat \<Rightarrow> 'm bio_scheme \<Rightarrow> 'm bio_scheme" where
  "binit_one b s =
    (let s = upd_buf b (\<lambda>x. x\<lparr>b_next := b_next (bufs s bhead)\<rparr>) s;
         s = upd_buf b (\<lambda>x. x\<lparr>b_prev := bhead\<rparr>) s;
         s = initsleeplock (Lk_buf b) ''buffer'' s;
         s = upd_buf (b_next (bufs s bhead)) (\<lambda>x. x\<lparr>b_prev := b\<rparr>) s
     in upd_buf bhead (\<lambda>x. x\<lparr>b_next := b\<rparr>) s)"

definition binit :: "'m bio_scheme \<Rightarrow> 'm bio_scheme" where
  "binit s =
    (let s = initlock Lk_bcache ''bcache'' s;
         s = upd_buf bhead (\<lambda>x. x\<lparr>b_prev := bhead\<rparr>) s;
         s = upd_buf bhead (\<lambda>x. x\<lparr>b_next := bhead\<rparr>) s
     in fold binit_one [0..<NBUF] s)"

text \<open>Follow \<open>f\<close> (the \<open>next\<close> or \<open>prev\<close> pointers) from \<open>b\<close> to the first buffer satisfying \<open>P\<close>, or back
  to the list head; \<open>None\<close> if that takes more steps than the list has nodes.\<close>

primrec scan :: "(nat \<Rightarrow> nat) \<Rightarrow> (nat \<Rightarrow> bool) \<Rightarrow> nat \<Rightarrow> nat \<Rightarrow> nat option option" where
  "scan f P b 0 = None"
| "scan f P b (Suc n) =
    (if b = bhead then Some None else if P b then Some (Some b) else scan f P (f b) n)"

definition bget :: "u32 \<Rightarrow> u32 \<Rightarrow> 'm bio_scheme \<Rightarrow> (nat, 'm bio_scheme) outcome" where
  "bget dev blockno s =
    bnd (acquire Lk_bcache s) (\<lambda>_ s.
    case scan (\<lambda>b. b_next (bufs s b))
           (\<lambda>b. b_dev (bufs s b) = dev \<and> b_blockno (bufs s b) = blockno)
           (b_next (bufs s bhead)) (Suc NBUF) of
      None \<Rightarrow> Spin
    | Some (Some b) \<Rightarrow>
        bnd (release Lk_bcache (upd_buf b (\<lambda>x. x\<lparr>b_refcnt := b_refcnt x + 1\<rparr>) s)) (\<lambda>_ s.
        bnd (acquiresleep (Lk_buf b) s) (\<lambda>_ s. Ret b s))
    | Some None \<Rightarrow>
        (case scan (\<lambda>b. b_prev (bufs s b)) (\<lambda>b. b_refcnt (bufs s b) = 0)
             (b_prev (bufs s bhead)) (Suc NBUF) of
           None \<Rightarrow> Spin
         | Some (Some b) \<Rightarrow>
             bnd (release Lk_bcache (upd_buf b
               (\<lambda>x. x\<lparr>b_dev := dev, b_blockno := blockno, b_valid := False, b_refcnt := 1\<rparr>) s)) (\<lambda>_ s.
             bnd (acquiresleep (Lk_buf b) s) (\<lambda>_ s. Ret b s))
         | Some None \<Rightarrow> Panic ''bget: no buffers''))"

definition disk_rw :: "nat \<Rightarrow> bool \<Rightarrow> 'm bio_scheme \<Rightarrow> 'm bio_scheme" where
  "disk_rw b wr s =
    (let n = b_blockno (bufs s b)
     in if wr then s\<lparr>disk := (disk s)(n := b_data (bufs s b)),
                     dwrites := dwrites s @ [(n, b_data (bufs s b))]\<rparr>
        else upd_buf b (\<lambda>x. x\<lparr>b_data := disk s n\<rparr>) s)"

definition bread :: "u32 \<Rightarrow> u32 \<Rightarrow> 'm bio_scheme \<Rightarrow> (nat, 'm bio_scheme) outcome" where
  "bread dev blockno s =
    bnd (bget dev blockno s) (\<lambda>b s.
    if \<not> b_valid (bufs s b) then Ret b (upd_buf b (\<lambda>x. x\<lparr>b_valid := True\<rparr>) (disk_rw b False s))
    else Ret b s)"

definition bwrite :: "nat \<Rightarrow> 'm bio_scheme \<Rightarrow> (unit, 'm bio_scheme) outcome" where
  "bwrite b s =
    bnd (holdingsleep (Lk_buf b) s) (\<lambda>h s.
    if \<not> h then Panic ''bwrite'' else Ret () (disk_rw b True s))"

definition brelse :: "nat \<Rightarrow> 'm bio_scheme \<Rightarrow> (unit, 'm bio_scheme) outcome" where
  "brelse b s =
    bnd (holdingsleep (Lk_buf b) s) (\<lambda>h s.
    if \<not> h then Panic ''brelse''
    else
      bnd (releasesleep (Lk_buf b) s) (\<lambda>_ s.
      bnd (acquire Lk_bcache s) (\<lambda>_ s.
      let s = upd_buf b (\<lambda>x. x\<lparr>b_refcnt := b_refcnt x - 1\<rparr>) s;
          s = (if b_refcnt (bufs s b) = 0 then
                 let s = upd_buf (b_next (bufs s b)) (\<lambda>x. x\<lparr>b_prev := b_prev (bufs s b)\<rparr>) s;
                     s = upd_buf (b_prev (bufs s b)) (\<lambda>x. x\<lparr>b_next := b_next (bufs s b)\<rparr>) s;
                     s = upd_buf b (\<lambda>x. x\<lparr>b_next := b_next (bufs s bhead)\<rparr>) s;
                     s = upd_buf b (\<lambda>x. x\<lparr>b_prev := bhead\<rparr>) s;
                     s = upd_buf (b_next (bufs s bhead)) (\<lambda>x. x\<lparr>b_prev := b\<rparr>) s
                 in upd_buf bhead (\<lambda>x. x\<lparr>b_next := b\<rparr>) s
               else s)
      in release Lk_bcache s)))"

definition bpin :: "nat \<Rightarrow> 'm bio_scheme \<Rightarrow> (unit, 'm bio_scheme) outcome" where
  "bpin b s =
    bnd (acquire Lk_bcache s) (\<lambda>_ s.
    release Lk_bcache (upd_buf b (\<lambda>x. x\<lparr>b_refcnt := b_refcnt x + 1\<rparr>) s))"

definition bunpin :: "nat \<Rightarrow> 'm bio_scheme \<Rightarrow> (unit, 'm bio_scheme) outcome" where
  "bunpin b s =
    bnd (acquire Lk_bcache s) (\<lambda>_ s.
    release Lk_bcache (upd_buf b (\<lambda>x. x\<lparr>b_refcnt := b_refcnt x - 1\<rparr>) s))"

subsection \<open>Circular lists through pointers\<close>

text \<open>\<open>seg f a xs z\<close>: following \<open>f\<close> from \<open>a\<close> one meets the nodes \<open>xs\<close> and then \<open>z\<close>.\<close>

primrec seg :: "(nat \<Rightarrow> nat) \<Rightarrow> nat \<Rightarrow> nat list \<Rightarrow> nat \<Rightarrow> bool" where
  "seg f a [] z \<longleftrightarrow> f a = z"
| "seg f a (x # xs) z \<longleftrightarrow> f a = x \<and> seg f x xs z"

lemma seg_append: "seg f a (xs @ y # ys) z \<longleftrightarrow> seg f a xs y \<and> seg f y ys z"
  by (induction xs arbitrary: a) auto

lemma seg_upd: "p \<notin> set (a # xs) \<Longrightarrow> seg (f(p := v)) a xs z = seg f a xs z"
  by (induction xs arbitrary: a) auto

lemma seg_cong: "(\<And>p. p \<in> set (a # xs) \<Longrightarrow> f p = g p) \<Longrightarrow> seg f a xs z = seg g a xs z"
  by (induction xs arbitrary: a) auto

lemma seg_first: "seg f a xs z \<Longrightarrow> f a = hd (xs @ [z])"
  by (cases xs) auto

lemma last_Cons_rev: "last (z # rev xs) = hd (xs @ [z])"
  by (cases xs) auto

lemma seg_bypass:
  assumes "seg f a xs b" and "seg f b ys z" and "distinct (a # xs @ b # ys)"
  shows "seg (f(last (a # xs) := f b)) a (xs @ ys) z"
  using assms
proof (induction xs arbitrary: a)
  case Nil
  show ?case
  proof (cases ys)
    case (Cons y zs)
    then have "seg (f(a := f b)) y zs z = seg f y zs z"
      using Nil by (intro seg_upd) auto
    moreover have "last [a] = a" by simp
    ultimately show ?thesis
      using Nil Cons by (simp only: append_Nil seg.simps fun_upd_same)
  qed (use Nil in simp)
next
  case (Cons x xs)
  have "last (x # xs) \<noteq> a" using Cons.prems(3) last_in_set [of "x # xs"] by auto
  then show ?case using Cons by simp
qed

lemma seg_insert_first:
  "seg f a xs z \<Longrightarrow> b \<notin> set (a # xs) \<Longrightarrow> a \<notin> set xs \<Longrightarrow> seg (f(b := f a, a := b)) a (b # xs) z"
  by (cases xs) (auto simp: seg_upd)

lemma seg_insert_last:
  assumes "seg f a xs z" and "b \<notin> set (a # xs)" and "distinct (a # xs)"
  shows "seg (f(b := z, last (a # xs) := b)) a (xs @ [b]) z"
  using assms
proof (induction xs arbitrary: a)
  case (Cons x xs)
  have "last (x # xs) \<noteq> a" using Cons.prems(3) last_in_set [of "x # xs"] by auto
  then show ?case using Cons by simp
qed simp

definition dll :: "(nat \<Rightarrow> nat) \<Rightarrow> (nat \<Rightarrow> nat) \<Rightarrow> nat list \<Rightarrow> bool" where
  "dll nx pv xs \<longleftrightarrow> seg nx bhead xs bhead \<and> seg pv bhead (rev xs) bhead \<and> distinct (bhead # xs)"

lemma scan_seg:
  assumes "seg f a xs bhead" and "bhead \<notin> set xs" and "length xs < n"
  shows "scan f P (f a) n = Some (find P xs)"
  using assms
proof (induction xs arbitrary: a n)
  case Nil
  then show ?case by (cases n) auto
next
  case (Cons x xs)
  then show ?case by (cases n) auto
qed

lemma dll_scan:
  assumes "dll nx pv xs" and "length xs = NBUF"
  shows "scan nx P (nx bhead) (Suc NBUF) = Some (find P xs)"
    and "scan pv P (pv bhead) (Suc NBUF) = Some (find P (rev xs))"
  using scan_seg [of nx bhead xs "Suc NBUF" P] scan_seg [of pv bhead "rev xs" "Suc NBUF" P] assms
  by (simp_all add: dll_def del: scan.simps)

declare scan.simps [simp del]

text \<open>The pointer surgery of \<open>brelse\<close>: unlink \<open>b\<close>, then insert it after the head.\<close>

lemma dll_to_front:
  assumes dll: "dll nx pv (xs @ b # ys)"
  defines "pv1 \<equiv> pv(nx b := pv b)" and "nx1 \<equiv> nx(pv b := nx b)"
  defines "nx2 \<equiv> nx1(b := nx1 bhead)"
  shows "dll (nx2(bhead := b)) (pv1(b := bhead, nx2 bhead := b)) (b # xs @ ys)"
proof -
  have d: "distinct (bhead # xs @ b # ys)" using dll by (simp add: dll_def)
  have n: "seg nx bhead xs b" "seg nx b ys bhead"
    and p: "seg pv bhead (rev ys) b" "seg pv b (rev xs) bhead"
    using dll by (auto simp: dll_def seg_append)
  have nxb: "nx b = last (bhead # rev ys)"
    using seg_first [OF n(2)] last_Cons_rev [of bhead ys] by simp
  have pvb: "pv b = last (bhead # xs)"
    using seg_first [OF p(2)] by (cases xs rule: rev_cases) auto
  have s1: "seg nx1 bhead (xs @ ys) bhead"
    unfolding nx1_def pvb using n d by (intro seg_bypass) auto
  have s2: "seg pv1 bhead (rev ys @ rev xs) bhead"
    unfolding pv1_def nxb using p d by (intro seg_bypass) auto
  have d': "distinct (bhead # xs @ ys)" "b \<notin> set (bhead # xs @ ys)" using d by auto
  have h: "nx2 bhead = last (bhead # rev ys @ rev xs)"
    using seg_first [OF s1] d'(2) last_Cons_rev [of bhead "xs @ ys"] by (simp add: nx2_def)
  have "seg (nx2(bhead := b)) bhead (b # xs @ ys) bhead"
    unfolding nx2_def using s1 d' by (intro seg_insert_first) auto
  moreover have "seg (pv1(b := bhead, last (bhead # rev ys @ rev xs) := b)) bhead
      ((rev ys @ rev xs) @ [b]) bhead"
    using s2 d' by (intro seg_insert_last) auto
  ultimately show ?thesis using d h by (simp add: dll_def)
qed


subsection \<open>The machine underneath\<close>

text \<open>Process \<open>p\<close> runs on this hart, outside every critical section, and no spinlock is held.\<close>

definition world :: "nat \<Rightarrow> 'm machine_scheme \<Rightarrow> bool" where
  "world p s \<longleftrightarrow> calm s \<and> (\<forall>l. lock_free l s) \<and> cur s = Some p"

lemma worldD: "world p s \<Longrightarrow> calm s" "world p s \<Longrightarrow> lock_free l s" "world p s \<Longrightarrow> cur s = Some p"
    "world p s \<Longrightarrow> procs_unlocked s"
  by (simp_all add: world_def procs_unlocked_def)

lemma world_cong:
  "hart t = hart s \<Longrightarrow> intr t = intr s \<Longrightarrow> cpus t = cpus s \<Longrightarrow> locks t = locks s
    \<Longrightarrow> world p t = world p s"
  by (simp add: world_def calm_def lock_free_def cur_def)

lemma lock_on_bio [lock_simps, simp]:
  "(lock_on l s)\<lparr>bufs := x\<rparr> = lock_on l (s\<lparr>bufs := x\<rparr>)"
  "(lock_on l s)\<lparr>disk := y\<rparr> = lock_on l (s\<lparr>disk := y\<rparr>)"
  "(lock_on l s)\<lparr>dwrites := z\<rparr> = lock_on l (s\<lparr>dwrites := z\<rparr>)"
  "upd_buf i f (lock_on l s) = lock_on l (upd_buf i f s)"
  "bufs (lock_on l s) = bufs s" "disk (lock_on l s) = disk s" "dwrites (lock_on l s) = dwrites s"
  by (simp_all add: lock_on_def push_off_def Let_def upd_buf_def)

lemma upd_buf_fields [simp]:
  "hart (upd_buf i f s) = hart s" "intr (upd_buf i f s) = intr s" "cpus (upd_buf i f s) = cpus s"
  "locks (upd_buf i f s) = locks s" "sleeplocks (upd_buf i f s) = sleeplocks s"
  "procs (upd_buf i f s) = procs s" "disk (upd_buf i f s) = disk s"
  "dwrites (upd_buf i f s) = dwrites s" "bufs (upd_buf i f s) = (bufs s)(i := f (bufs s i))"
  "calm (upd_buf i f s) = calm s" "cur (upd_buf i f s) = cur s" "depth (upd_buf i f s) = depth s"
  "lock_free l (upd_buf i f s) = lock_free l s" "procs_unlocked (upd_buf i f s) = procs_unlocked s"
  "world p (upd_buf i f s) = world p s"
  by (simp_all add: upd_buf_def calm_def cur_def depth_def lock_free_def procs_unlocked_def world_def)

lemma world_update [simp]:
  "world p (s\<lparr>procs := x\<rparr>) = world p s" "world p (s\<lparr>sleeplocks := y\<rparr>) = world p s"
  "world p (set_slock l g s) = world p s"
  by (simp_all add: world_def)

lemma set_slock_bio [simp]:
  "bufs (set_slock l f s) = bufs s" "disk (set_slock l f s) = disk s"
  "dwrites (set_slock l f s) = dwrites s"
  by (simp_all add: set_slock_def)

text \<open>What a buffer cache operation may change: buffers, sleeplocks, the disk, and which sleeping
  processes are runnable.\<close>

definition bio_frame :: "'m bio_scheme \<Rightarrow> 'm bio_scheme \<Rightarrow> bool" where
  "bio_frame s t \<longleftrightarrow> t = s\<lparr>sleeplocks := sleeplocks t, procs := procs t, bufs := bufs t,
     disk := disk t, dwrites := dwrites t\<rparr>
   \<and> (\<forall>i. procs t i = (procs s i)\<lparr>pstate := pstate (procs t i)\<rparr>)
   \<and> (\<forall>l. (\<forall>i<NBUF. l \<noteq> Lk_buf i) \<longrightarrow> sleeplocks t l = sleeplocks s l)"

lemma bio_frame_refl [simp]: "bio_frame s s"
  by (simp add: bio_frame_def)

lemma bio_frame_more:
  assumes "bio_frame s t"
  shows "hart t = hart s" "intr t = intr s" "cpus t = cpus s" "locks t = locks s"
    "initproc t = initproc s" "nextpid t = nextpid s" "pmem t = pmem s" "freelist t = freelist s"
    "kend t = kend s" "bio.more t = bio.more s" "pid (procs t i) = pid (procs s i)"
    "cwd (procs t i) = cwd (procs s i)" "ofile (procs t i) = ofile (procs s i)"
    "killed (procs t i) = killed (procs s i)" "pagetable (procs t i) = pagetable (procs s i)"
    "cur t = cur s" "calm t = calm s" "lock_free l t = lock_free l s" "world p t = world p s"
proof -
  have eq: "t = s\<lparr>sleeplocks := sleeplocks t, procs := procs t, bufs := bufs t,
     disk := disk t, dwrites := dwrites t\<rparr>" and pr: "\<And>i. procs t i = (procs s i)\<lparr>pstate := pstate (procs t i)\<rparr>"
    using assms by (auto simp: bio_frame_def)
  show "hart t = hart s" "intr t = intr s" "cpus t = cpus s" "locks t = locks s"
    "initproc t = initproc s" "nextpid t = nextpid s" "pmem t = pmem s" "freelist t = freelist s"
    "kend t = kend s" "bio.more t = bio.more s"
    by (subst eq, simp)+
  then show "cur t = cur s" "calm t = calm s" "lock_free l t = lock_free l s" "world p t = world p s"
    by (auto simp: cur_def calm_def lock_free_def world_def)
  show "pid (procs t i) = pid (procs s i)"
    "cwd (procs t i) = cwd (procs s i)" "ofile (procs t i) = ofile (procs s i)"
    "killed (procs t i) = killed (procs s i)" "pagetable (procs t i) = pagetable (procs s i)"
    by (subst pr, simp)+
qed

lemma bio_frame_trans:
  assumes st: "bio_frame s t" and tu: "bio_frame t u"
  shows "bio_frame s u"
proof -
  have "u = s\<lparr>sleeplocks := sleeplocks u, procs := procs u, bufs := bufs u,
     disk := disk u, dwrites := dwrites u\<rparr>"
    using bio_frame_more(1-10) [OF st] bio_frame_more(1-10) [OF tu] by (intro bio.equality) simp_all
  moreover have "procs u i = (procs s i)\<lparr>pstate := pstate (procs u i)\<rparr>" for i
  proof -
    have "procs u i = (procs t i)\<lparr>pstate := pstate (procs u i)\<rparr>" using tu by (simp add: bio_frame_def)
    also have "\<dots> = (procs s i)\<lparr>pstate := pstate (procs t i)\<rparr>\<lparr>pstate := pstate (procs u i)\<rparr>"
      using st by (simp only: bio_frame_def)
    finally show ?thesis by simp
  qed
  moreover have "\<forall>l. (\<forall>i<NBUF. l \<noteq> Lk_buf i) \<longrightarrow> sleeplocks u l = sleeplocks s l"
    using st tu by (simp add: bio_frame_def)
  ultimately show ?thesis by (simp add: bio_frame_def)
qed

lemma bio_frame_upd:
  "bio_frame s (upd_buf i f s)" "i < NBUF \<Longrightarrow> bio_frame s (set_slock (Lk_buf i) g s)"
  "bio_frame s (s\<lparr>disk := d, dwrites := w\<rparr>)" "bio_frame s (disk_rw i wr s)"
  "bio_frame s (s\<lparr>procs := wake_procs ch q (procs s)\<rparr>)"
  by (auto simp: bio_frame_def upd_buf_def set_slock_def disk_rw_def Let_def wake_procs_def
      wake_proc_def intro!: proc.equality)


subsection \<open>The invariant of the cache\<close>

text \<open>\<open>P\<close> are the buffers pinned by the log, \<open>H\<close> those the current process \<open>p\<close> holds between \<open>bread\<close>
  and \<open>brelse\<close>.\<close>

definition lru :: "'m bio_scheme \<Rightarrow> nat list \<Rightarrow> bool" where
  "lru s xs \<longleftrightarrow> dll (\<lambda>b. b_next (bufs s b)) (\<lambda>b. b_prev (bufs s b)) xs \<and> set xs = {0..<NBUF}"

definition bc_refs :: "nat set \<Rightarrow> nat set \<Rightarrow> 'm bio_scheme \<Rightarrow> bool" where
  "bc_refs P H s \<longleftrightarrow> P \<subseteq> {..<NBUF} \<and> H \<subseteq> {..<NBUF}
     \<and> (\<forall>i<NBUF. b_refcnt (bufs s i) = of_bool (i \<in> P) + of_bool (i \<in> H))"

definition bc_slocks :: "nat \<Rightarrow> nat set \<Rightarrow> 'm bio_scheme \<Rightarrow> bool" where
  "bc_slocks p H s \<longleftrightarrow> (\<forall>i<NBUF. (sl_locked (sleeplocks s (Lk_buf i)) \<noteq> 0 \<longleftrightarrow> i \<in> H)
     \<and> (i \<in> H \<longrightarrow> sl_pid (sleeplocks s (Lk_buf i)) = pid (procs s p)))"

definition holds_block :: "'m bio_scheme \<Rightarrow> nat \<Rightarrow> u32 \<Rightarrow> bool" where
  "holds_block s i b \<longleftrightarrow> i < NBUF \<and> b_dev (bufs s i) = ROOTDEV \<and> b_blockno (bufs s i) = b"

definition bc_data :: "nat set \<Rightarrow> nat set \<Rightarrow> 'm bio_scheme \<Rightarrow> bool" where
  "bc_data P H s \<longleftrightarrow> (\<forall>i j b. holds_block s i b \<and> holds_block s j b \<longrightarrow> i = j)
     \<and> (\<forall>i\<in>P \<union> H. b_dev (bufs s i) = ROOTDEV)
     \<and> (\<forall>i b. holds_block s i b \<longrightarrow> b_valid (bufs s i)
          \<and> (i \<notin> P \<union> H \<longrightarrow> b_data (bufs s i) = disk s b))"

definition bc_inv :: "nat \<Rightarrow> nat set \<Rightarrow> nat set \<Rightarrow> 'm bio_scheme \<Rightarrow> bool" where
  "bc_inv p P H s \<longleftrightarrow> world p s \<and> (\<exists>xs. lru s xs) \<and> bc_refs P H s \<and> bc_slocks p H s \<and> bc_data P H s"

text \<open>The contents of the disk as the processes see it: a cached block is what its buffer holds.\<close>

definition view :: "'m bio_scheme \<Rightarrow> u32 \<Rightarrow> block" where
  "view s b = (case find (\<lambda>i. b_dev (bufs s i) = ROOTDEV \<and> b_blockno (bufs s i) = b) [0..<NBUF] of
     Some i \<Rightarrow> b_data (bufs s i) | None \<Rightarrow> disk s b)"

lemma view_cached:
  assumes "bc_data P H s" and "holds_block s i b"
  shows "view s b = b_data (bufs s i)"
proof -
  have "find (\<lambda>i. b_dev (bufs s i) = ROOTDEV \<and> b_blockno (bufs s i) = b) [0..<NBUF] = Some i"
    using assms by (intro find_unique) (auto simp: bc_data_def holds_block_def)
  then show ?thesis by (simp add: view_def)
qed

lemma view_uncached: "(\<And>i. \<not> holds_block s i b) \<Longrightarrow> view s b = disk s b"
proof -
  assume "\<And>i. \<not> holds_block s i b"
  then have "find (\<lambda>i. b_dev (bufs s i) = ROOTDEV \<and> b_blockno (bufs s i) = b) [0..<NBUF] = None"
    by (auto simp: find_None_iff holds_block_def)
  then show ?thesis by (simp add: view_def)
qed

lemma view_clean:
  assumes "bc_data P H s" and "\<And>i. i \<in> P \<union> H \<Longrightarrow> \<not> holds_block s i b"
  shows "view s b = disk s b"
proof (cases "\<exists>i. holds_block s i b")
  case True
  then obtain i where i: "holds_block s i b" ..
  then have "view s b = b_data (bufs s i)" using assms(1) by (simp add: view_cached)
  moreover have "i \<notin> P \<union> H" using assms(2) i by blast
  ultimately show ?thesis using assms(1) i unfolding bc_data_def by metis
qed (simp add: view_uncached)

lemma lru_length: "lru s xs \<Longrightarrow> length xs = NBUF"
  using distinct_card [of xs] by (auto simp: lru_def dll_def)

lemma lru_cong:
  "(\<And>i. b_next (bufs t i) = b_next (bufs s i)) \<Longrightarrow> (\<And>i. b_prev (bufs t i) = b_prev (bufs s i))
    \<Longrightarrow> lru t xs = lru s xs"
  by (simp add: lru_def)

lemma lru_upd_buf [simp]:
  assumes "b_next (f (bufs s i)) = b_next (bufs s i)" and "b_prev (f (bufs s i)) = b_prev (bufs s i)"
  shows "lru (upd_buf i f s) xs = lru s xs"
  using assms by (intro lru_cong) auto

lemma lru_scans:
  assumes "lru s xs"
  shows "scan (\<lambda>b. b_next (bufs s b)) P (b_next (bufs s bhead)) (Suc NBUF) = Some (find P xs)"
    and "scan (\<lambda>b. b_prev (bufs s b)) P (b_prev (bufs s bhead)) (Suc NBUF) = Some (find P (rev xs))"
  using dll_scan [OF _ lru_length [OF assms], of "\<lambda>b. b_next (bufs s b)" "\<lambda>b. b_prev (bufs s b)" P] assms
  by (simp_all add: lru_def)

subsection \<open>bget and bread\<close>

definition take_slock :: "nat \<Rightarrow> nat \<Rightarrow> 'm machine_scheme \<Rightarrow> 'm machine_scheme" where
  "take_slock p b s = set_slock (Lk_buf b) (\<lambda>k. k\<lparr>sl_locked := 1, sl_pid := pid (procs s p)\<rparr>) s"

lemma bget_eq:
  assumes "world p s" and "lru s xs" and "\<forall>b<NBUF. sl_locked (sleeplocks s (Lk_buf b)) \<noteq> 0 \<longrightarrow> b \<in> H"
    and "\<forall>b\<in>H. \<not> (b_dev (bufs s b) = dev \<and> b_blockno (bufs s b) = n)"
    and "\<forall>b\<in>H. b_refcnt (bufs s b) \<noteq> 0"
  shows "bget dev n s = (case find (\<lambda>b. b_dev (bufs s b) = dev \<and> b_blockno (bufs s b) = n) xs of
      Some b \<Rightarrow> Ret b (take_slock p b (upd_buf b (\<lambda>x. x\<lparr>b_refcnt := b_refcnt x + 1\<rparr>) s))
    | None \<Rightarrow> (case find (\<lambda>b. b_refcnt (bufs s b) = 0) (rev xs) of
        Some b \<Rightarrow> Ret b (take_slock p b (upd_buf b
          (\<lambda>x. x\<lparr>b_dev := dev, b_blockno := n, b_valid := False, b_refcnt := 1\<rparr>) s))
      | None \<Rightarrow> Panic ''bget: no buffers''))"
proof -
  have locked: "lru (lock_on Lk_bcache s) xs" using assms(2) by (simp add: lru_def)
  have w: "calm s" "\<And>l. lock_free l s" "cur s = Some p" using assms(1) by (simp_all add: world_def)
  have unlocked: "sl_locked (sleeplocks s (Lk_buf b)) = 0" if "b \<in> set xs" "b \<notin> H" for b
    using assms(2,3) that by (auto simp: lru_def)
  show ?thesis
  proof (cases "find (\<lambda>b. b_dev (bufs s b) = dev \<and> b_blockno (bufs s b) = n) xs")
    case (Some b)
    then have "b \<in> set xs" "b \<notin> H" using assms(4) by (auto dest: find_SomeD)
    then have "sl_locked (sleeplocks s (Lk_buf b)) = 0" by (rule unlocked)
    then show ?thesis using w Some lru_scans [OF assms(2)]
      by (simp add: bget_def acquiresleep_eq take_slock_def)
  next
    case None
    note hit = None
    show ?thesis
    proof (cases "find (\<lambda>b. b_refcnt (bufs s b) = 0) (rev xs)")
      case None
      then show ?thesis using w hit lru_scans [OF assms(2)] by (simp add: bget_def)
    next
      case (Some b)
      then have "b \<in> set xs" "b \<notin> H" using assms(5) by (auto dest: find_SomeD)
      then have "sl_locked (sleeplocks s (Lk_buf b)) = 0" by (rule unlocked)
      then show ?thesis using w hit Some lru_scans [OF assms(2)]
        by (simp add: bget_def acquiresleep_eq take_slock_def)
    qed
  qed
qed


text \<open>The identity and contents of a buffer are the same in both states.\<close>

definition same_buf :: "'m bio_scheme \<Rightarrow> 'm bio_scheme \<Rightarrow> nat \<Rightarrow> bool" where
  "same_buf s t j \<longleftrightarrow> b_dev (bufs t j) = b_dev (bufs s j) \<and> b_blockno (bufs t j) = b_blockno (bufs s j)
     \<and> b_valid (bufs t j) = b_valid (bufs s j) \<and> b_data (bufs t j) = b_data (bufs s j)"

lemma same_buf_refl [simp]: "same_buf s s j"
  by (simp add: same_buf_def)

lemma same_buf_trans: "same_buf s t j \<Longrightarrow> same_buf t u j \<Longrightarrow> same_buf s u j"
  by (simp add: same_buf_def)

lemma view_cong:
  assumes "\<And>i. i < NBUF \<Longrightarrow> same_buf s t i" and "disk t = disk s"
  shows "view t = view s"
proof
  fix b
  have "find (\<lambda>i. b_dev (bufs t i) = ROOTDEV \<and> b_blockno (bufs t i) = b) [0..<NBUF]
      = find (\<lambda>i. b_dev (bufs s i) = ROOTDEV \<and> b_blockno (bufs s i) = b) [0..<NBUF]"
    using assms(1) by (intro find_cong_set) (simp add: same_buf_def)
  then show "view t b = view s b"
    using assms by (auto simp: view_def same_buf_def split: option.split dest!: find_SomeD)
qed

lemma take_slock_fields [simp]:
  "bufs (take_slock p b s) = bufs s" "disk (take_slock p b s) = disk s"
  "dwrites (take_slock p b s) = dwrites s" "procs (take_slock p b s) = procs s"
  "world q (take_slock p b s) = world q s" "lru (take_slock p b s) xs = lru s xs"
  by (simp_all add: take_slock_def lru_def)

lemma bc_slocks_take:
  assumes "bc_slocks p H s" and "bufs t = f" and "sleeplocks t = sleeplocks s" and "procs t = procs s"
  shows "bc_slocks p (insert b H) (take_slock p b t)"
  using assms by (auto simp: bc_slocks_def take_slock_def)

lemma bread_hit:
  assumes inv: "bc_inv p P H s" and b: "holds_block s b n" "b \<notin> H"
  defines "t \<equiv> take_slock p b (upd_buf b (\<lambda>x. x\<lparr>b_refcnt := b_refcnt x + 1\<rparr>) s)"
  shows "bc_inv p P (insert b H) t" and "\<And>j. same_buf s t j" and "bio_frame s t"
    and "disk t = disk s" and "dwrites t = dwrites s" and "b_valid (bufs t b)"
proof -
  have "b < NBUF" using b by (simp add: holds_block_def)
  show same: "same_buf s t j" for j by (simp add: same_buf_def t_def)
  have holds: "holds_block t i m = holds_block s i m" for i m
    using same [of i] by (simp add: holds_block_def same_buf_def)
  have "bc_refs P (insert b H) t"
    using inv b \<open>b < NBUF\<close> by (auto simp: bc_inv_def bc_refs_def t_def)
  moreover have "bc_slocks p (insert b H) t"
    unfolding t_def using inv by (intro bc_slocks_take [of p H s]) (auto simp: bc_inv_def)
  moreover have "bc_data P (insert b H) t"
    unfolding bc_data_def holds using inv b by (auto simp: bc_inv_def bc_data_def holds_block_def t_def)
  ultimately show "bc_inv p P (insert b H) t" using inv by (auto simp: bc_inv_def t_def)
  show "bio_frame s t"
    unfolding t_def take_slock_def using \<open>b < NBUF\<close> by (rule bio_frame_trans [OF bio_frame_upd(1) bio_frame_upd(2)])
  show "b_valid (bufs t b)" using inv b by (auto simp: bc_inv_def bc_data_def t_def)
qed (simp_all add: t_def)

lemma bread_miss:
  assumes inv: "bc_inv p P H s" and b: "b < NBUF" "b_refcnt (bufs s b) = 0"
    and miss: "\<And>i. \<not> holds_block s i n"
  defines "t \<equiv> upd_buf b (\<lambda>x. x\<lparr>b_valid := True\<rparr>) (disk_rw b False (take_slock p b (upd_buf b
      (\<lambda>x. x\<lparr>b_dev := ROOTDEV, b_blockno := n, b_valid := False, b_refcnt := 1\<rparr>) s)))"
  shows "bc_inv p P (insert b H) t" and "\<And>j. j \<noteq> b \<Longrightarrow> same_buf s t j" and "bio_frame s t"
    and "disk t = disk s" and "dwrites t = dwrites s" and "b_data (bufs t b) = view s n"
    and "b_blockno (bufs t b) = n" and "b \<notin> P \<union> H" and "view t = view s"
proof -
  have "b_refcnt (bufs s b) = of_bool (b \<in> P) + of_bool (b \<in> H)"
    using inv b(1) by (simp add: bc_inv_def bc_refs_def)
  then show out: "b \<notin> P \<union> H" using b(2) by (cases "b \<in> P"; cases "b \<in> H") auto
  have bt: "bufs t = (bufs s)(b := (bufs s b)\<lparr>b_dev := ROOTDEV, b_blockno := n, b_valid := True,
      b_refcnt := 1, b_data := disk s n\<rparr>)"
    by (simp add: t_def disk_rw_def fun_eq_iff)
  show same: "same_buf s t j" if "j \<noteq> b" for j using that by (simp add: same_buf_def bt)
  show disk: "disk t = disk s" and "dwrites t = dwrites s" by (simp_all add: t_def disk_rw_def)
  show "b_blockno (bufs t b) = n" by (simp add: bt)
  have v: "view s n = disk s n" using miss by (rule view_uncached)
  then show "b_data (bufs t b) = view s n" by (simp add: bt)
  have holds: "holds_block t i m \<longleftrightarrow> (if i = b then m = n else holds_block s i m)" for i m
    using b(1) by (auto simp: holds_block_def bt)
  have data: "bc_data P H s" using inv by (simp add: bc_inv_def)
  have "bc_refs P (insert b H) t"
    using inv b out by (auto simp: bc_inv_def bc_refs_def bt)
  moreover have "bc_slocks p (insert b H) t"
    using inv bc_slocks_take [of p H s "upd_buf b
      (\<lambda>x. x\<lparr>b_dev := ROOTDEV, b_blockno := n, b_valid := False, b_refcnt := 1\<rparr>) s" _ b]
    by (simp add: bc_inv_def t_def disk_rw_def bc_slocks_def)
  moreover have new: "bc_data P (insert b H) t"
    unfolding bc_data_def holds using data miss out disk
    by (auto simp: bc_data_def bt)
  moreover obtain xs where "lru s xs" using inv by (auto simp: bc_inv_def)
  then have "lru t xs" using lru_cong [of t s xs] by (simp add: bt)
  moreover have "world p t" using inv by (simp add: bc_inv_def t_def disk_rw_def)
  ultimately show "bc_inv p P (insert b H) t" by (auto simp: bc_inv_def)
  show "bio_frame s t"
    unfolding t_def take_slock_def using b(1)
    by (intro bio_frame_trans [OF _ bio_frame_upd(1)] bio_frame_trans [OF _ bio_frame_upd(4)]
        bio_frame_trans [OF _ bio_frame_upd(2)] bio_frame_upd(1))
  show "view t = view s"
  proof
    fix m
    show "view t m = view s m"
    proof (cases "m = n")
      case True
      have "holds_block t b n" by (simp add: holds)
      then show ?thesis using True view_cached [OF new] v by (simp add: bt)
    next
      case False
      show ?thesis
      proof (cases "\<exists>i. i \<noteq> b \<and> holds_block s i m")
        case True
        then obtain i where i: "i \<noteq> b" "holds_block s i m" by blast
        then have "holds_block t i m" by (simp add: holds)
        then show ?thesis using i view_cached [OF new] view_cached [OF data] by (simp add: bt)
      next
        case no: False
        then have "\<And>i. \<not> holds_block t i m" using False by (auto simp: holds)
        then have "view t m = disk s m" using disk by (simp add: view_uncached)
        moreover have "view s m = disk s m"
          using no out by (intro view_clean [OF data]) auto
        ultimately show ?thesis by simp
      qed
    qed
  qed
qed


lemma bread_spec:
  assumes inv: "bc_inv p P H s" and free: "\<And>i. i \<in> H \<Longrightarrow> b_blockno (bufs s i) \<noteq> n"
    and room: "card (P \<union> H) < NBUF \<or> (\<exists>i. holds_block s i n)"
  shows "\<exists>i t. bread ROOTDEV n s = Ret i t \<and> i < NBUF \<and> i \<notin> H \<and> bc_inv p P (insert i H) t
    \<and> b_blockno (bufs t i) = n \<and> b_data (bufs t i) = view s n \<and> view t = view s \<and> bio_frame s t
    \<and> disk t = disk s \<and> dwrites t = dwrites s \<and> (\<forall>j\<in>P \<union> H. same_buf s t j)"
proof -
  obtain xs where xs: "lru s xs" and w: "world p s" and refs: "bc_refs P H s"
    and sl: "bc_slocks p H s" and data: "bc_data P H s"
    using inv by (auto simp: bc_inv_def)
  have set: "set xs = {0..<NBUF}" using xs by (simp add: lru_def)
  have eq: "bget ROOTDEV n s = (case find (\<lambda>b. b_dev (bufs s b) = ROOTDEV \<and> b_blockno (bufs s b) = n) xs of
      Some b \<Rightarrow> Ret b (take_slock p b (upd_buf b (\<lambda>x. x\<lparr>b_refcnt := b_refcnt x + 1\<rparr>) s))
    | None \<Rightarrow> (case find (\<lambda>b. b_refcnt (bufs s b) = 0) (rev xs) of
        Some b \<Rightarrow> Ret b (take_slock p b (upd_buf b
          (\<lambda>x. x\<lparr>b_dev := ROOTDEV, b_blockno := n, b_valid := False, b_refcnt := 1\<rparr>) s))
      | None \<Rightarrow> Panic ''bget: no buffers''))"
  proof (rule bget_eq [OF w xs, of H])
    show "\<forall>b<NBUF. sl_locked (sleeplocks s (Lk_buf b)) \<noteq> 0 \<longrightarrow> b \<in> H"
      using sl by (simp add: bc_slocks_def)
    show "\<forall>b\<in>H. b_refcnt (bufs s b) \<noteq> 0"
    proof
      fix b assume "b \<in> H"
      then show "b_refcnt (bufs s b) \<noteq> 0"
        using refs by (cases "b \<in> P") (auto simp: bc_refs_def)
    qed
  qed (use free in auto)
  show ?thesis
  proof (cases "find (\<lambda>b. b_dev (bufs s b) = ROOTDEV \<and> b_blockno (bufs s b) = n) xs")
    case (Some b)
    from find_SomeD [OF this]
    have "b \<in> set xs" "b_dev (bufs s b) = ROOTDEV" "b_blockno (bufs s b) = n" by blast+
    then have b: "holds_block s b n" "b < NBUF" using set by (simp_all add: holds_block_def)
    then have "b \<notin> H" using free by (auto simp: holds_block_def)
    let ?t = "take_slock p b (upd_buf b (\<lambda>x. x\<lparr>b_refcnt := b_refcnt x + 1\<rparr>) s)"
    note hit = bread_hit [OF inv b(1) \<open>b \<notin> H\<close>]
    have "bread ROOTDEV n s = Ret b ?t" using eq Some hit(6) by (simp add: bread_def)
    moreover have "view ?t = view s" using hit by (intro view_cong) auto
    moreover have "b_data (bufs ?t b) = view s n" using view_cached [OF data b(1)] by simp
    moreover have "b_blockno (bufs ?t b) = n" using b by (simp add: holds_block_def)
    ultimately show ?thesis using hit b \<open>b \<notin> H\<close> by blast
  next
    case None
    have miss: "\<not> holds_block s i n" for i
    proof
      assume h: "holds_block s i n"
      then have "i \<in> set xs" using set by (simp add: holds_block_def)
      from find_NoneD [OF None this] h show False by (simp add: holds_block_def)
    qed
    have "card (P \<union> H) < NBUF" using room miss by blast
    then have "P \<union> H \<noteq> {..<NBUF}" by (metis card_lessThan less_irrefl)
    moreover have "P \<union> H \<subseteq> {..<NBUF}" using refs by (auto simp: bc_refs_def)
    ultimately have "\<exists>b<NBUF. b \<notin> P \<union> H" by blast
    then obtain b0 where "b0 < NBUF" "b0 \<notin> P \<union> H" by blast
    then have b0: "b0 \<in> set (rev xs)" "b_refcnt (bufs s b0) = 0"
      using refs set by (simp_all add: bc_refs_def)
    obtain b where b: "find (\<lambda>b. b_refcnt (bufs s b) = 0) (rev xs) = Some b"
      using find_exists [of b0 "rev xs" "\<lambda>b. b_refcnt (bufs s b) = 0", OF b0] ..
    from find_SomeD [OF b] have "b < NBUF" "b_refcnt (bufs s b) = 0" using set by simp_all
    note ms = bread_miss [OF inv this miss]
    have "bread ROOTDEV n s = Ret b (upd_buf b (\<lambda>x. x\<lparr>b_valid := True\<rparr>) (disk_rw b False
        (take_slock p b (upd_buf b
          (\<lambda>x. x\<lparr>b_dev := ROOTDEV, b_blockno := n, b_valid := False, b_refcnt := 1\<rparr>) s))))"
      using eq None b by (simp add: bread_def)
    moreover have "\<forall>j\<in>P \<union> H. j \<noteq> b" using ms(8) by auto
    ultimately show ?thesis using ms \<open>b < NBUF\<close> by blast
  qed
qed

subsection \<open>brelse, bwrite, bpin and bunpin\<close>

definition drop_slock :: "nat \<Rightarrow> 'm machine_scheme \<Rightarrow> 'm machine_scheme" where
  "drop_slock b s = (set_slock (Lk_buf b) (\<lambda>k. k\<lparr>sl_locked := 0, sl_pid := 0\<rparr>) s)
    \<lparr>procs := wake_procs (Ch_sleeplock (Lk_buf b)) (cur s) (procs s)\<rparr>"

definition to_front :: "nat \<Rightarrow> 'm bio_scheme \<Rightarrow> 'm bio_scheme" where
  "to_front b s =
    (let s = upd_buf (b_next (bufs s b)) (\<lambda>x. x\<lparr>b_prev := b_prev (bufs s b)\<rparr>) s;
         s = upd_buf (b_prev (bufs s b)) (\<lambda>x. x\<lparr>b_next := b_next (bufs s b)\<rparr>) s;
         s = upd_buf b (\<lambda>x. x\<lparr>b_next := b_next (bufs s bhead)\<rparr>) s;
         s = upd_buf b (\<lambda>x. x\<lparr>b_prev := bhead\<rparr>) s;
         s = upd_buf (b_next (bufs s bhead)) (\<lambda>x. x\<lparr>b_prev := b\<rparr>) s
     in upd_buf bhead (\<lambda>x. x\<lparr>b_next := b\<rparr>) s)"

lemma upd_link_bufs:
  "b_dev (bufs (upd_buf j (\<lambda>x. x\<lparr>b_next := v\<rparr>) s) i) = b_dev (bufs s i)"
  "b_dev (bufs (upd_buf j (\<lambda>x. x\<lparr>b_prev := v\<rparr>) s) i) = b_dev (bufs s i)"
  "b_blockno (bufs (upd_buf j (\<lambda>x. x\<lparr>b_next := v\<rparr>) s) i) = b_blockno (bufs s i)"
  "b_blockno (bufs (upd_buf j (\<lambda>x. x\<lparr>b_prev := v\<rparr>) s) i) = b_blockno (bufs s i)"
  "b_valid (bufs (upd_buf j (\<lambda>x. x\<lparr>b_next := v\<rparr>) s) i) = b_valid (bufs s i)"
  "b_valid (bufs (upd_buf j (\<lambda>x. x\<lparr>b_prev := v\<rparr>) s) i) = b_valid (bufs s i)"
  "b_data (bufs (upd_buf j (\<lambda>x. x\<lparr>b_next := v\<rparr>) s) i) = b_data (bufs s i)"
  "b_data (bufs (upd_buf j (\<lambda>x. x\<lparr>b_prev := v\<rparr>) s) i) = b_data (bufs s i)"
  "b_refcnt (bufs (upd_buf j (\<lambda>x. x\<lparr>b_next := v\<rparr>) s) i) = b_refcnt (bufs s i)"
  "b_refcnt (bufs (upd_buf j (\<lambda>x. x\<lparr>b_prev := v\<rparr>) s) i) = b_refcnt (bufs s i)"
  by simp_all

lemma to_front_bufs:
  "b_dev (bufs (to_front b s) i) = b_dev (bufs s i)"
  "b_blockno (bufs (to_front b s) i) = b_blockno (bufs s i)"
  "b_valid (bufs (to_front b s) i) = b_valid (bufs s i)"
  "b_data (bufs (to_front b s) i) = b_data (bufs s i)"
  "b_refcnt (bufs (to_front b s) i) = b_refcnt (bufs s i)"
  by (simp_all only: to_front_def Let_def upd_link_bufs)

text \<open>The two pointer maps of the list.\<close>

definition nexts :: "'m bio_scheme \<Rightarrow> nat \<Rightarrow> nat" where "nexts s i = b_next (bufs s i)"
definition prevs :: "'m bio_scheme \<Rightarrow> nat \<Rightarrow> nat" where "prevs s i = b_prev (bufs s i)"

lemma links_upd:
  "nexts (upd_buf j (\<lambda>x. x\<lparr>b_next := v\<rparr>) s) = (nexts s)(j := v)"
  "nexts (upd_buf j (\<lambda>x. x\<lparr>b_prev := v\<rparr>) s) = nexts s"
  "prevs (upd_buf j (\<lambda>x. x\<lparr>b_prev := v\<rparr>) s) = (prevs s)(j := v)"
  "prevs (upd_buf j (\<lambda>x. x\<lparr>b_next := v\<rparr>) s) = prevs s"
  by (auto simp: nexts_def prevs_def fun_eq_iff)

lemma to_front_frame: "bio_frame s (to_front b s)"
  unfolding to_front_def Let_def by (intro bio_frame_trans [OF _ bio_frame_upd(1)] bio_frame_upd(1))

lemma to_front_lru:
  assumes lru: "lru s xs" and b: "b < NBUF"
  shows "lru (to_front b s) (b # remove1 b xs)"
proof -
  have "b \<in> set xs" using assms by (simp add: lru_def)
  then obtain as bs where xs: "xs = as @ b # bs" by (meson split_list)
  let ?n = "nexts s" and ?p = "prevs s"
  have lru_links: "lru t ys \<longleftrightarrow> dll (nexts t) (prevs t) ys \<and> set ys = {0..<NBUF}" for t :: "'m bio_scheme" and ys
    by (simp add: lru_def nexts_def [abs_def] prevs_def [abs_def])
  have dll: "dll ?n ?p (as @ b # bs)" using lru xs by (simp add: lru_links)
  then have d: "b \<noteq> bhead" "b \<notin> set as" "distinct (bhead # as @ b # bs)" by (auto simp: dll_def)
  have nb: "?n b \<noteq> b"
  proof -
    have "?n b = hd (bs @ [bhead])" using dll by (auto simp: dll_def seg_append intro: seg_first)
    then show ?thesis using d by (cases bs) auto
  qed
  have pb: "?p b \<noteq> b"
  proof -
    have "?p b = hd (rev as @ [bhead])" using dll by (auto simp: dll_def seg_append intro: seg_first)
    then show ?thesis using d by (cases as rule: rev_cases) auto
  qed
  define n1 where "n1 = ?n(?p b := ?n b)"
  define n2 where "n2 = n1(b := n1 bhead)"
  define p1 where "p1 = ?p(?n b := ?p b)"
  have nx: "nexts (to_front b s) = n2(bhead := b)"
    unfolding to_front_def Let_def nexts_def [symmetric] prevs_def [symmetric] links_upd
    using d(1) nb pb by (simp add: n2_def n1_def)
  have pv: "prevs (to_front b s) = p1(b := bhead, n2 bhead := b)"
    unfolding to_front_def Let_def nexts_def [symmetric] prevs_def [symmetric] links_upd
    using d(1) nb pb by (simp add: n2_def n1_def p1_def)
  have "dll (n2(bhead := b)) (p1(b := bhead, n2 bhead := b)) (b # as @ bs)"
    unfolding n2_def n1_def p1_def using dll by (rule dll_to_front)
  then show ?thesis
    using lru d(2) unfolding lru_links nx pv by (auto simp: xs remove1_append)
qed


lemma to_front_lock_on [simp]: "to_front b (lock_on l s) = lock_on l (to_front b s)"
  unfolding to_front_def Let_def by (simp only: lock_on_bio)

lemma drop_slock_fields [simp]:
  "bufs (drop_slock b s) = bufs s" "disk (drop_slock b s) = disk s"
  "dwrites (drop_slock b s) = dwrites s" "world q (drop_slock b s) = world q s"
  by (simp_all add: drop_slock_def)

lemma drop_slock_pid [simp]: "pid (procs (drop_slock b s) i) = pid (procs s i)"
  by (simp add: drop_slock_def)

lemma brelse_to_front:
  "brelse b s =
    bnd (holdingsleep (Lk_buf b) s) (\<lambda>h s.
    if \<not> h then Panic ''brelse''
    else
      bnd (releasesleep (Lk_buf b) s) (\<lambda>_ s.
      bnd (acquire Lk_bcache s) (\<lambda>_ s.
      let s = upd_buf b (\<lambda>x. x\<lparr>b_refcnt := b_refcnt x - 1\<rparr>) s;
          s = (if b_refcnt (bufs s b) = 0 then to_front b s else s)
      in release Lk_bcache s)))"
  unfolding brelse_def to_front_def ..

lemma brelse_eq:
  assumes w: "world p s" and held: "sl_locked (sleeplocks s (Lk_buf b)) \<noteq> 0"
    "sl_pid (sleeplocks s (Lk_buf b)) = pid (procs s p)"
  defines "t \<equiv> upd_buf b (\<lambda>x. x\<lparr>b_refcnt := b_refcnt x - 1\<rparr>) (drop_slock b s)"
  shows "brelse b s = Ret () (if b_refcnt (bufs s b) = 1 then to_front b t else t)"
proof -
  have w': "calm s" "lock_free (Lk_buf b) s" "cur s = Some p" "procs_unlocked s"
    using worldD [OF w] by blast+
  have "holdingsleep (Lk_buf b) s = Ret True s"
    using holdingsleep_eq [OF w'(1-3)] held by simp
  moreover have "releasesleep (Lk_buf b) s = Ret () (drop_slock b s)"
    using w' by (simp add: releasesleep_eq drop_slock_def)
  moreover have wd: "world p (drop_slock b s)" using w by simp
  moreover have "acquire Lk_bcache (drop_slock b s) = Ret () (lock_on Lk_bcache (drop_slock b s))"
    using worldD [OF wd] by simp
  moreover have "release Lk_bcache (lock_on Lk_bcache u) = Ret () u" if "world p u" for u :: "'a bio_scheme"
    using worldD [OF that] by simp
  moreover have "world p t" using w by (simp add: t_def)
  moreover have "world p (to_front b t)"
    using bio_frame_more(19) [OF to_front_frame] \<open>world p t\<close> by blast
  ultimately show ?thesis
    by (simp add: brelse_to_front t_def Let_def)
qed

lemma bc_slocks_frame:
  assumes "bc_slocks p H s" and "sleeplocks t = sleeplocks s" and "\<And>i. pid (procs t i) = pid (procs s i)"
  shows "bc_slocks p H t"
  using assms by (simp add: bc_slocks_def)

lemma holds_same:
  assumes "\<And>j. same_buf s t j"
  shows "holds_block t i m = holds_block s i m"
  using assms [of i] by (auto simp: holds_block_def same_buf_def)

lemma same_bufD:
  assumes "same_buf s t i"
  shows "b_dev (bufs t i) = b_dev (bufs s i)" "b_blockno (bufs t i) = b_blockno (bufs s i)"
    "b_valid (bufs t i) = b_valid (bufs s i)" "b_data (bufs t i) = b_data (bufs s i)"
  using assms by (auto simp: same_buf_def)

lemma bc_data_same:
  assumes data: "bc_data P H s" and same: "\<And>j. same_buf s t j" and "disk t = disk s"
    and "P' \<union> H' \<subseteq> P \<union> H"
    and clean: "\<And>i. i \<in> P \<union> H - (P' \<union> H') \<Longrightarrow> b_data (bufs s i) = disk s (b_blockno (bufs s i))"
  shows "bc_data P' H' t"
  unfolding bc_data_def holds_same [OF same] same_bufD [OF same] assms(3)
proof (intro conjI allI impI ballI)
  show "i = j" if "holds_block s i b \<and> holds_block s j b" for i j b
    using data that unfolding bc_data_def by blast
  show "b_dev (bufs s i) = ROOTDEV" if "i \<in> P' \<union> H'" for i
    using data that assms(4) unfolding bc_data_def by blast
  fix i b assume h: "holds_block s i b"
  then show "b_valid (bufs s i)" using data unfolding bc_data_def by blast
  show "b_data (bufs s i) = disk s b" if "i \<notin> P' \<union> H'"
    using data h that clean [of i] unfolding bc_data_def holds_block_def by blast
qed

lemma same_to_front: "same_buf s (to_front b s) j"
  by (simp add: same_buf_def to_front_bufs)

lemma to_front_disk: "disk (to_front b s) = disk s" "dwrites (to_front b s) = dwrites s"
    "sleeplocks (to_front b s) = sleeplocks s" "procs (to_front b s) = procs s"
  by (simp_all only: to_front_def Let_def upd_buf_fields)

lemma brelse_spec:
  assumes inv: "bc_inv p P H s" and i: "i \<in> H"
    and clean: "i \<in> P \<or> b_data (bufs s i) = disk s (b_blockno (bufs s i))"
  shows "\<exists>t. brelse i s = Ret () t \<and> bc_inv p P (H - {i}) t \<and> view t = view s \<and> bio_frame s t
    \<and> disk t = disk s \<and> dwrites t = dwrites s \<and> (\<forall>j. same_buf s t j)"
proof -
  obtain xs where xs: "lru s xs" and w: "world p s" and refs: "bc_refs P H s"
    and sl: "bc_slocks p H s" and data: "bc_data P H s"
    using inv by (auto simp: bc_inv_def)
  have ib: "i < NBUF" using refs i by (auto simp: bc_refs_def)
  define u where "u = upd_buf i (\<lambda>x. x\<lparr>b_refcnt := b_refcnt x - 1\<rparr>) (drop_slock i s)"
  define t where "t = (if b_refcnt (bufs s i) = 1 then to_front i u else u)"
  have eq: "brelse i s = Ret () t"
    unfolding t_def u_def using w sl i ib by (intro brelse_eq) (simp_all add: bc_slocks_def)
  have same_u: "same_buf s u j" for j by (simp add: same_buf_def u_def)
  have same: "same_buf s t j" for j
    using same_u same_buf_trans [OF same_u same_to_front] by (simp add: t_def)
  have disk: "disk t = disk s" "dwrites t = dwrites s" by (simp_all add: t_def to_front_disk u_def)
  have "bio_frame s (drop_slock i s)"
    unfolding drop_slock_def using ib by (intro bio_frame_trans [OF bio_frame_upd(2) bio_frame_upd(5)
      [of "set_slock (Lk_buf i) (\<lambda>k. k\<lparr>sl_locked := 0, sl_pid := 0\<rparr>) s", simplified]])
  then have fu: "bio_frame s u" unfolding u_def by (rule bio_frame_trans [OF _ bio_frame_upd(1)])
  then have ft: "bio_frame s t" using bio_frame_trans [OF fu to_front_frame] by (simp add: t_def)
  have "lru u xs" using xs lru_cong [of u s xs] by (simp add: u_def)
  then have "\<exists>ys. lru t ys" using to_front_lru [OF _ ib] unfolding t_def by (auto split: if_splits)
  moreover have "world p t" using w bio_frame_more(19) [OF ft] by blast
  moreover have "bc_refs P (H - {i}) t"
    using refs i ib by (auto simp: bc_refs_def t_def to_front_bufs u_def)
  moreover have su: "sleeplocks t = (sleeplocks s)(Lk_buf i := (sleeplocks s (Lk_buf i))\<lparr>sl_locked := 0, sl_pid := 0\<rparr>)"
    by (simp add: t_def to_front_disk u_def drop_slock_def set_slock_def)
  have "bc_slocks p (H - {i}) t"
    using sl bio_frame_more(11) [OF ft] by (auto simp: bc_slocks_def su)
  moreover have "bc_data P (H - {i}) t"
    using clean by (intro bc_data_same [OF data same disk(1)]) auto
  moreover have "view t = view s" using same disk by (intro view_cong) auto
  ultimately show ?thesis using eq disk ft same by (auto simp: bc_inv_def)
qed


lemma holds_held:
  assumes "bc_inv p P H s" and "i \<in> P \<union> H"
  shows "holds_block s i (b_blockno (bufs s i))" and "i < NBUF"
  using assms by (auto simp: bc_inv_def bc_data_def bc_refs_def holds_block_def)

lemma view_held:
  assumes "bc_inv p P H s" and "i \<in> P \<union> H"
  shows "view s (b_blockno (bufs s i)) = b_data (bufs s i)"
  using view_cached [of P H s i] holds_held(1) [OF assms] assms(1) by (auto simp: bc_inv_def)

lemma held_unique:
  assumes "bc_inv p P H s" and "i \<in> P \<union> H" and "j \<in> P \<union> H"
    and "b_blockno (bufs s i) = b_blockno (bufs s j)"
  shows "i = j"
  using assms holds_held(1) [OF assms(1) assms(2)] holds_held(1) [OF assms(1) assms(3)]
  unfolding bc_inv_def bc_data_def by metis

text \<open>A process that holds a buffer stores into its data.\<close>

definition put_data :: "nat \<Rightarrow> block \<Rightarrow> 'm bio_scheme \<Rightarrow> 'm bio_scheme" where
  "put_data i d s = upd_buf i (\<lambda>x. x\<lparr>b_data := d\<rparr>) s"

lemma put_data_spec:
  assumes inv: "bc_inv p P H s" and i: "i \<in> H"
  shows "bc_inv p P H (put_data i d s)"
    and "view (put_data i d s) = (view s)(b_blockno (bufs s i) := d)"
    and "bio_frame s (put_data i d s)" and "disk (put_data i d s) = disk s"
    and "dwrites (put_data i d s) = dwrites s"
    and "j \<noteq> i \<Longrightarrow> same_buf s (put_data i d s) j"
    and "b_blockno (bufs (put_data i d s) j) = b_blockno (bufs s j)"
    and "b_data (bufs (put_data i d s) i) = d"
proof -
  let ?t = "put_data i d s"
  have holds: "holds_block ?t j m = holds_block s j m" for j m
    by (simp add: holds_block_def put_data_def)
  have data: "bc_data P H s" using inv by (simp add: bc_inv_def)
  have data': "bc_data P H ?t"
    using data i unfolding bc_data_def holds by (auto simp: put_data_def)
  obtain xs where xs: "lru s xs" using inv by (auto simp: bc_inv_def)
  have "lru ?t xs" using xs lru_cong [of ?t s xs] by (simp add: put_data_def)
  then show "bc_inv p P H ?t"
    using inv data' by (auto simp: bc_inv_def put_data_def bc_refs_def bc_slocks_def)
  show "view ?t = (view s)(b_blockno (bufs s i) := d)"
  proof
    fix m
    show "view ?t m = ((view s)(b_blockno (bufs s i) := d)) m"
    proof (cases "\<exists>j. holds_block s j m")
      case True
      then obtain j where j: "holds_block s j m" ..
      then have "view ?t m = b_data (bufs ?t j)" using data' holds by (intro view_cached) auto
      moreover have "view s m = b_data (bufs s j)" using data j by (rule view_cached)
      moreover have "m = b_blockno (bufs s i) \<longleftrightarrow> j = i"
        using j holds_held(1) [OF inv, of i] i data unfolding bc_data_def holds_block_def by blast
      ultimately show ?thesis by (simp add: put_data_def)
    next
      case False
      then have "view ?t m = disk s m" "view s m = disk s m"
        using holds view_uncached [of ?t m] view_uncached [of s m] by (auto simp: put_data_def)
      moreover have "m \<noteq> b_blockno (bufs s i)" using False holds_held(1) [OF inv, of i] i by auto
      ultimately show ?thesis by simp
    qed
  qed
qed (simp_all add: put_data_def bio_frame_upd same_buf_def)

lemma bwrite_spec:
  assumes inv: "bc_inv p P H s" and i: "i \<in> H"
  defines "n \<equiv> b_blockno (bufs s i)" and "d \<equiv> b_data (bufs s i)"
  shows "\<exists>t. bwrite i s = Ret () t \<and> bc_inv p P H t \<and> view t = view s \<and> bio_frame s t
    \<and> disk t = (disk s)(n := d) \<and> dwrites t = dwrites s @ [(n, d)] \<and> (\<forall>j. same_buf s t j)"
proof -
  obtain xs where xs: "lru s xs" and w: "world p s" and refs: "bc_refs P H s"
    and sl: "bc_slocks p H s" and data: "bc_data P H s"
    using inv by (auto simp: bc_inv_def)
  have ib: "i < NBUF" using refs i by (auto simp: bc_refs_def)
  let ?t = "s\<lparr>disk := (disk s)(n := d), dwrites := dwrites s @ [(n, d)]\<rparr>"
  have w': "calm s" "lock_free (Lk_buf i) s" "cur s = Some p" using worldD [OF w] by blast+
  have "holdingsleep (Lk_buf i) s = Ret True s"
    using holdingsleep_eq [OF w'] sl i ib by (simp add: bc_slocks_def)
  then have eq: "bwrite i s = Ret () ?t"
    by (simp add: bwrite_def disk_rw_def n_def d_def Let_def)
  have holds: "holds_block ?t j m = holds_block s j m" for j m by (simp add: holds_block_def)
  have own: "holds_block s i n" using holds_held(1) [OF inv, of i] i by (simp add: n_def)
  have data': "bc_data P H ?t"
    unfolding bc_data_def holds
  proof (intro conjI allI impI ballI)
    show "j = k" if "holds_block s j b \<and> holds_block s k b" for j k b
      using data that unfolding bc_data_def by blast
    show "b_dev (bufs ?t j) = ROOTDEV" if "j \<in> P \<union> H" for j
      using data that unfolding bc_data_def by simp
    fix j b assume h: "holds_block s j b"
    then show "b_valid (bufs ?t j)" using data unfolding bc_data_def by simp
    assume "j \<notin> P \<union> H"
    moreover from this i have "j \<noteq> i" by blast
    then have "b \<noteq> n" using data h own unfolding bc_data_def by blast
    ultimately show "b_data (bufs ?t j) = disk ?t b" using data h unfolding bc_data_def by simp
  qed
  have "lru ?t xs" using xs lru_cong [of ?t s xs] by simp
  then have "bc_inv p P H ?t"
    using w refs sl data' by (auto simp: bc_inv_def bc_refs_def bc_slocks_def world_def calm_def
      lock_free_def cur_def)
  moreover have "view ?t = view s"
  proof
    fix m
    show "view ?t m = view s m"
    proof (cases "m = n")
      case True
      have "view ?t n = b_data (bufs ?t i)" using data' own holds by (intro view_cached) auto
      then show ?thesis using True view_cached [OF data own] by simp
    qed (simp add: view_def split: option.split)
  qed
  ultimately show ?thesis using eq bio_frame_upd(3) by (auto simp: same_buf_def)
qed

text \<open>\<open>bpin\<close> and \<open>bunpin\<close> of a buffer the process holds.\<close>

lemma refcnt_upd_spec:
  assumes inv: "bc_inv p P H s" and i: "i \<in> H" and P': "P' \<union> H = P \<union> H" "P' - {i} = P - {i}"
    and cnt: "f (of_bool (i \<in> P) + 1) = (of_bool (i \<in> P') + 1 :: u32)"
  defines "t \<equiv> upd_buf i (\<lambda>x. x\<lparr>b_refcnt := f (b_refcnt x)\<rparr>) s"
  shows "bc_inv p P' H t \<and> view t = view s \<and> bio_frame s t
    \<and> disk t = disk s \<and> dwrites t = dwrites s \<and> (\<forall>j. same_buf s t j)"
proof -
  obtain xs where xs: "lru s xs" and w: "world p s" and refs: "bc_refs P H s"
    and sl: "bc_slocks p H s" and data: "bc_data P H s"
    using inv by (auto simp: bc_inv_def)
  have same: "same_buf s t j" for j by (simp add: same_buf_def t_def)
  have same_P: "k \<in> P' \<longleftrightarrow> k \<in> P" if "k \<noteq> i" for k using P'(2) that by blast
  have "bc_refs P' H t"
    unfolding bc_refs_def
  proof (intro conjI allI impI)
    show "P' \<subseteq> {..<NBUF}" "H \<subseteq> {..<NBUF}" using refs P'(1) by (auto simp: bc_refs_def)
    show "b_refcnt (bufs t k) = of_bool (k \<in> P') + of_bool (k \<in> H)" if "k < NBUF" for k
      using refs that i cnt same_P [of k] by (cases "k = i") (auto simp: bc_refs_def t_def)
  qed
  moreover have "bc_data P' H t"
    using P'(1) by (intro bc_data_same [OF data same]) (auto simp: t_def)
  moreover have "lru t xs" using xs lru_cong [of t s xs] by (simp add: t_def)
  moreover have "world p t" "bc_slocks p H t" using w sl by (simp_all add: t_def bc_slocks_def)
  moreover have "view t = view s" using same by (intro view_cong) (auto simp: t_def)
  ultimately show ?thesis using same bio_frame_upd(1) by (auto simp: bc_inv_def t_def)
qed

lemma bpin_eq:
  "calm s \<Longrightarrow> lock_free Lk_bcache s \<Longrightarrow> bpin i s = Ret () (upd_buf i (\<lambda>x. x\<lparr>b_refcnt := b_refcnt x + 1\<rparr>) s)"
  by (simp add: bpin_def)

lemma bpin_spec:
  assumes inv: "bc_inv p P H s" and i: "i \<in> H" "i \<notin> P"
  shows "\<exists>t. bpin i s = Ret () t \<and> bc_inv p (insert i P) H t \<and> view t = view s \<and> bio_frame s t
    \<and> disk t = disk s \<and> dwrites t = dwrites s \<and> (\<forall>j. same_buf s t j)"
proof -
  have w: "world p s" using inv by (simp add: bc_inv_def)
  have "bpin i s = Ret () (upd_buf i (\<lambda>x. x\<lparr>b_refcnt := b_refcnt x + 1\<rparr>) s)"
    using worldD [OF w] by (simp add: bpin_eq)
  then show ?thesis
    using refcnt_upd_spec [OF inv i(1), of "insert i P" "\<lambda>c. c + 1"] i by auto
qed

lemma bunpin_spec:
  assumes inv: "bc_inv p P H s" and i: "i \<in> H" "i \<in> P"
  shows "\<exists>t. bunpin i s = Ret () t \<and> bc_inv p (P - {i}) H t \<and> view t = view s \<and> bio_frame s t
    \<and> disk t = disk s \<and> dwrites t = dwrites s \<and> (\<forall>j. same_buf s t j)"
proof -
  have w: "world p s" using inv by (simp add: bc_inv_def)
  have "bunpin i s = Ret () (upd_buf i (\<lambda>x. x\<lparr>b_refcnt := b_refcnt x - 1\<rparr>) s)"
    using worldD [OF w] by (simp add: bunpin_def)
  then show ?thesis
    using refcnt_upd_spec [OF inv i(1), of "P - {i}" "\<lambda>c. c - 1"] i by auto
qed


subsection \<open>binit\<close>

lemma dll_insert_front:
  assumes "dll nx pv xs" and "b \<notin> set (bhead # xs)"
  shows "dll (nx(b := nx bhead, bhead := b)) (pv(b := bhead, nx bhead := b)) (b # xs)"
proof -
  have d: "distinct (bhead # xs)" using assms by (simp add: dll_def)
  have "nx bhead = hd (xs @ [bhead])" using assms by (auto simp: dll_def intro: seg_first)
  then have h: "nx bhead = last (bhead # rev xs)" using last_Cons_rev [of bhead xs] by simp
  have "seg (nx(b := nx bhead, bhead := b)) bhead (b # xs) bhead"
    using assms d by (intro seg_insert_first) (auto simp: dll_def)
  moreover have "seg (pv(b := bhead, last (bhead # rev xs) := b)) bhead (rev xs @ [b]) bhead"
    using assms d by (intro seg_insert_last) (auto simp: dll_def)
  ultimately show ?thesis using d assms(2) by (simp add: dll_def h)
qed

lemma links_slock [simp]:
  "nexts (initsleeplock l n s) = nexts s" "prevs (initsleeplock l n s) = prevs s"
  "nexts (initlock l n s) = nexts s" "prevs (initlock l n s) = prevs s"
  by (simp_all add: nexts_def [abs_def] prevs_def [abs_def] initsleeplock_def initlock_def)

lemma bufs_slock [simp]:
  "bufs (initsleeplock l n s) = bufs s" "bufs (initlock l n s) = bufs s"
  "disk (initsleeplock l n s) = disk s" "disk (initlock l n s) = disk s"
  "procs (initsleeplock l n s) = procs s" "procs (initlock l n s) = procs s"
  "sleeplocks (initlock l n s) = sleeplocks s"
  "sleeplocks (initsleeplock l n s) = (sleeplocks s)(l := \<lparr>sl_locked = 0, sl_name = n, sl_pid = 0\<rparr>)"
  by (simp_all add: initsleeplock_def initlock_def)

lemma world_init [simp]: "world p s \<Longrightarrow> world p (initlock l n s)"
    "world p s \<Longrightarrow> world p (initsleeplock l n s)"
  by (simp_all add: world_def calm_def lock_free_def cur_def initsleeplock_def initlock_def)

definition binit_state :: "nat \<Rightarrow> nat \<Rightarrow> 'm bio_scheme \<Rightarrow> bool" where
  "binit_state p k s \<longleftrightarrow> world p s \<and> dll (nexts s) (prevs s) (rev [0..<k])
     \<and> (\<forall>i<k. sl_locked (sleeplocks s (Lk_buf i)) = 0)
     \<and> (\<forall>i<NBUF. b_refcnt (bufs s i) = 0 \<and> b_dev (bufs s i) \<noteq> ROOTDEV)"

lemma binit_one_state:
  assumes inv: "binit_state p k s" and k: "k < NBUF"
  shows "binit_state p (Suc k) (binit_one k s)" and "disk (binit_one k s) = disk s"
proof -
  let ?t = "binit_one k s"
  have kb: "k \<noteq> bhead" "k \<notin> set (bhead # rev [0..<k])" using k by (auto simp: bhead_def)
  have "nexts ?t = (nexts s)(k := nexts s bhead, bhead := k)"
    unfolding binit_one_def Let_def nexts_def [symmetric] prevs_def [symmetric] links_upd links_slock
    using kb by (simp add: fun_upd_twist)
  moreover have "prevs ?t = (prevs s)(k := bhead, nexts s bhead := k)"
    unfolding binit_one_def Let_def nexts_def [symmetric] prevs_def [symmetric] links_upd links_slock
    using kb by simp
  moreover have "dll ((nexts s)(k := nexts s bhead, bhead := k)) ((prevs s)(k := bhead, nexts s bhead := k))
      (k # rev [0..<k])"
    using inv kb(2) by (intro dll_insert_front) (simp_all add: binit_state_def)
  moreover have "world p ?t" using inv by (simp add: binit_one_def Let_def binit_state_def)
  moreover have "sleeplocks ?t = (sleeplocks s)(Lk_buf k := \<lparr>sl_locked = 0, sl_name = ''buffer'', sl_pid = 0\<rparr>)"
    by (simp add: binit_one_def Let_def)
  moreover have "b_refcnt (bufs ?t i) = b_refcnt (bufs s i)" "b_dev (bufs ?t i) = b_dev (bufs s i)" for i
    by (simp_all only: binit_one_def Let_def upd_link_bufs bufs_slock)
  ultimately show "binit_state p (Suc k) ?t"
    using inv by (auto simp: binit_state_def less_Suc_eq)
  show "disk ?t = disk s" by (simp add: binit_one_def Let_def)
qed

lemma binit_loop:
  assumes "binit_state p 0 s" and "n \<le> NBUF"
  shows "binit_state p n (fold binit_one [0..<n] s) \<and> disk (fold binit_one [0..<n] s) = disk s"
  using assms(2)
proof (induction n)
  case (Suc n)
  then have "n < NBUF" and *: "binit_state p n (fold binit_one [0..<n] s)"
    "disk (fold binit_one [0..<n] s) = disk s" by auto
  then show ?case using binit_one_state [OF *(1)] by simp
qed (simp add: assms)

lemma binit_inv:
  assumes "world p s" and "\<forall>i<NBUF. b_refcnt (bufs s i) = 0 \<and> b_dev (bufs s i) \<noteq> ROOTDEV"
  shows "bc_inv p {} {} (binit s) \<and> disk (binit s) = disk s \<and> view (binit s) = disk s"
proof -
  define s0 where "s0 = upd_buf bhead (\<lambda>x. x\<lparr>b_next := bhead\<rparr>)
    (upd_buf bhead (\<lambda>x. x\<lparr>b_prev := bhead\<rparr>) (initlock Lk_bcache ''bcache'' s))"
  have b: "binit s = fold binit_one [0..<NBUF] s0" by (simp add: binit_def s0_def Let_def)
  have "nexts s0 bhead = bhead" "prevs s0 bhead = bhead"
    by (simp_all add: s0_def links_upd)
  then have "binit_state p 0 s0"
    using assms by (auto simp: binit_state_def dll_def s0_def bhead_def)
  from binit_loop [OF this, of NBUF]
  have st: "binit_state p NBUF (binit s)" and d: "disk (binit s) = disk s"
    by (simp_all add: b s0_def)
  have no: "\<not> holds_block (binit s) i m" for i m using st by (auto simp: binit_state_def holds_block_def)
  then have "bc_data {} {} (binit s)" by (simp add: bc_data_def)
  moreover have "lru (binit s) (rev [0..<NBUF])"
    using st by (auto simp: binit_state_def lru_def nexts_def [abs_def] prevs_def [abs_def])
  moreover have "view (binit s) m = disk s m" for m using no view_uncached d by metis
  ultimately show ?thesis
    using st d by (auto simp: bc_inv_def binit_state_def bc_refs_def bc_slocks_def)
qed

subsection \<open>Properties\<close>

text \<open>\<open>binit\<close> puts the thirty buffers on a well-formed circular list, unlocked, unreferenced and
  caching no block, so that the contents of the disk are read through to the disk itself.\<close>

theorem binit_correct:
  assumes "world p s" and "\<forall>i<NBUF. b_refcnt (bufs s i) = 0 \<and> b_dev (bufs s i) \<noteq> ROOTDEV"
  shows "bc_inv p {} {} (binit s) \<and> disk (binit s) = disk s \<and> view (binit s) = disk s"
  using assms by (rule binit_inv)

text \<open>C5: with the cache's invariant, no buffer of block \<open>n\<close> held by the caller, and either a buffer
  free or the block cached, \<open>bread\<close> returns a buffer, now held by the caller, whose data are block
  \<open>n\<close> as the processes see it. The invariant is kept and nobody's view of the disk changes.\<close>

theorem bread_correct:
  assumes "bc_inv p P H s" and "\<And>i. i \<in> H \<Longrightarrow> b_blockno (bufs s i) \<noteq> n"
    and "card (P \<union> H) < NBUF \<or> (\<exists>i. holds_block s i n)"
  shows "\<exists>i t. bread ROOTDEV n s = Ret i t \<and> i < NBUF \<and> i \<notin> H \<and> bc_inv p P (insert i H) t
    \<and> b_blockno (bufs t i) = n \<and> b_data (bufs t i) = view s n \<and> view t = view s
    \<and> disk t = disk s \<and> (\<forall>j\<in>P \<union> H. same_buf s t j)"
  using bread_spec [OF assms] by blast

text \<open>\<open>brelse\<close> of a held buffer whose data are on the disk (or pinned by the log) gives the buffer
  up, keeps the invariant, and changes neither the disk nor anybody's view of it.\<close>

theorem brelse_correct:
  assumes "bc_inv p P H s" and "i \<in> H"
    and "i \<in> P \<or> b_data (bufs s i) = disk s (b_blockno (bufs s i))"
  shows "\<exists>t. brelse i s = Ret () t \<and> bc_inv p P (H - {i}) t \<and> view t = view s \<and> disk t = disk s"
  using brelse_spec [OF assms] by blast

lemma brelse_lru:
  assumes inv: "bc_inv p P H s" and i: "i \<in> H" "i \<notin> P" and xs: "lru s xs"
  shows "\<exists>t. brelse i s = Ret () t \<and> lru t (i # remove1 i xs)"
proof -
  have refs: "bc_refs P H s" and sl: "bc_slocks p H s" and w: "world p s"
    using inv by (auto simp: bc_inv_def)
  have ib: "i < NBUF" using refs i by (auto simp: bc_refs_def)
  let ?u = "upd_buf i (\<lambda>x. x\<lparr>b_refcnt := b_refcnt x - 1\<rparr>) (drop_slock i s)"
  have "brelse i s = Ret () (if b_refcnt (bufs s i) = 1 then to_front i ?u else ?u)"
    using w sl i ib by (intro brelse_eq) (simp_all add: bc_slocks_def)
  moreover have "b_refcnt (bufs s i) = 1" using refs i ib by (simp add: bc_refs_def)
  moreover have "lru ?u xs" using xs lru_cong [of ?u s xs] by simp
  then have "lru (to_front i ?u) (i # remove1 i xs)" using ib by (rule to_front_lru)
  ultimately show ?thesis by auto
qed

lemma bget_free:
  assumes inv: "bc_inv p P H s" and xs: "lru s xs" and miss: "\<And>i. \<not> holds_block s i n"
  shows "case find (\<lambda>b. b \<notin> P \<union> H) (rev xs) of
      None \<Rightarrow> bread ROOTDEV n s = Panic ''bget: no buffers''
    | Some b \<Rightarrow> \<exists>t. bread ROOTDEV n s = Ret b t \<and> lru t xs"
proof -
  have w: "world p s" and refs: "bc_refs P H s" and sl: "bc_slocks p H s"
    using inv by (auto simp: bc_inv_def)
  have set: "set xs = {0..<NBUF}" using xs by (simp add: lru_def)
  have zero: "b_refcnt (bufs s b) = 0 \<longleftrightarrow> b \<notin> P \<union> H" if "b < NBUF" for b
    using refs that by (cases "b \<in> P"; cases "b \<in> H") (auto simp: bc_refs_def)
  have none: "find (\<lambda>b. b_dev (bufs s b) = ROOTDEV \<and> b_blockno (bufs s b) = n) xs = None"
    using miss set by (auto simp: find_None_iff holds_block_def)
  have free: "find (\<lambda>b. b_refcnt (bufs s b) = 0) (rev xs) = find (\<lambda>b. b \<notin> P \<union> H) (rev xs)"
    using zero set by (intro find_cong_set) auto
  have "bget ROOTDEV n s = (case find (\<lambda>b. b \<notin> P \<union> H) (rev xs) of
      Some b \<Rightarrow> Ret b (take_slock p b (upd_buf b
        (\<lambda>x. x\<lparr>b_dev := ROOTDEV, b_blockno := n, b_valid := False, b_refcnt := 1\<rparr>) s))
    | None \<Rightarrow> Panic ''bget: no buffers'')"
    unfolding free [symmetric]
  proof (subst bget_eq [OF w xs, of H])
    show "\<forall>b<NBUF. sl_locked (sleeplocks s (Lk_buf b)) \<noteq> 0 \<longrightarrow> b \<in> H"
      using sl by (simp add: bc_slocks_def)
    have "b < NBUF" if "b \<in> H" for b using refs that by (auto simp: bc_refs_def)
    then show "\<forall>b\<in>H. b_refcnt (bufs s b) \<noteq> 0"
      and "\<forall>b\<in>H. \<not> (b_dev (bufs s b) = ROOTDEV \<and> b_blockno (bufs s b) = n)"
      using zero miss by (auto simp: holds_block_def)
  qed (simp add: none)
  moreover have "lru (upd_buf b f (disk_rw b False (take_slock p b (upd_buf b g s)))) xs"
    if "\<And>x. b_next (f x) = b_next x \<and> b_prev (f x) = b_prev x"
      "\<And>x. b_next (g x) = b_next x \<and> b_prev (g x) = b_prev x" for b f g
    by (rule lru_cong [THEN iffD2, OF _ _ xs]) (simp_all add: that disk_rw_def)
  ultimately show ?thesis by (auto simp: bread_def split: option.split)
qed

text \<open>C6: the replacement policy. The list is in order of last use: releasing an unpinned buffer moves
  it to the front; a miss recycles the last unreferenced buffer of the list, and panics exactly when
  every buffer is referenced.\<close>

theorem cache_is_lru:
  assumes "bc_inv p P H s" and "lru s xs"
  shows "(\<forall>i\<in>H - P. \<exists>t. brelse i s = Ret () t \<and> lru t (i # remove1 i xs))
    \<and> (\<forall>n. (\<forall>i. \<not> holds_block s i n) \<longrightarrow>
        (case find (\<lambda>b. b \<notin> P \<union> H) (rev xs) of
           None \<Rightarrow> bread ROOTDEV n s = Panic ''bget: no buffers''
         | Some b \<Rightarrow> \<exists>t. bread ROOTDEV n s = Ret b t \<and> lru t xs))"
  using brelse_lru [OF assms(1) _ _ assms(2)] bget_free [OF assms] by blast

end
