(* ===== verification/Log.thy ===== *)
theory Log
  imports Bio
begin

unbundle bit_operations_syntax

text \<open>
  The write-ahead log (\<^verbatim>\<open>kernel/log.c\<close>). System calls write blocks through \<open>log_write\<close>, which pins
  the buffer and records the block number in the in-memory header; the last \<open>end_op\<close> commits: the
  blocks go to the log area, then the header (the commit point), then home, then an empty header.
  The crash theorems quantify over every prefix of those disk writes and run the boot-time recovery
  on what that prefix leaves on the disk.
\<close>

subsection \<open>Data\<close>

definition MAXOPBLOCKS :: int where "MAXOPBLOCKS = 10"
definition LOGSIZE :: int where "LOGSIZE = MAXOPBLOCKS * 3"

record superblock =
  sb_magic :: u32
  sb_size :: u32
  sb_nblocks :: u32
  sb_ninodes :: u32
  sb_nlog :: u32
  sb_logstart :: u32
  sb_inodestart :: u32
  sb_bmapstart :: u32

text \<open>\<^verbatim>\<open>struct log\<close>, its lock being \<open>Lk_log\<close>. The elements of \<open>lh.block\<close> are only used as block numbers.\<close>

record logst = bio +
  lg_start :: int
  lg_size :: int
  lg_outstanding :: int
  lg_committing :: int
  lg_dev :: u32
  lh_n :: int
  lh_block :: "nat \<Rightarrow> u32"

text \<open>Little-endian 32-bit words of a block.\<close>

definition ld32 :: "block \<Rightarrow> nat \<Rightarrow> u32" where
  "ld32 d k = ucast (d k) OR push_bit 8 (ucast (d (k + 1))) OR push_bit 16 (ucast (d (k + 2)))
     OR push_bit 24 (ucast (d (k + 3)))"

definition st32 :: "nat \<Rightarrow> u32 \<Rightarrow> block \<Rightarrow> block" where
  "st32 k v d = d(k := ucast v, k + 1 := ucast (drop_bit 8 v), k + 2 := ucast (drop_bit 16 v),
     k + 3 := ucast (drop_bit 24 v))"

text \<open>The header block as \<^verbatim>\<open>struct logheader\<close>: \<open>n\<close> at offset 0, \<open>block[i]\<close> at \<open>4 + 4 i\<close>.\<close>

definition hdr_n :: "block \<Rightarrow> int" where "hdr_n d = sint (ld32 d 0)"
definition hdr_block :: "block \<Rightarrow> nat \<Rightarrow> u32" where "hdr_block d i = ld32 d (4 + 4 * i)"

subsection \<open>Operations\<close>

definition install_one :: "bool \<Rightarrow> nat \<Rightarrow> 'm logst_scheme \<Rightarrow> (unit, 'm logst_scheme) outcome" where
  "install_one recovering tail s =
    bnd (bread (lg_dev s) (of_int (lg_start s + int tail + 1)) s) (\<lambda>lbuf s.
    bnd (bread (lg_dev s) (lh_block s tail) s) (\<lambda>dbuf s.
    let s = upd_buf dbuf (\<lambda>x. x\<lparr>b_data := b_data (bufs s lbuf)\<rparr>) s
    in bnd (bwrite dbuf s) (\<lambda>_ s.
       bnd (if \<not> recovering then bunpin dbuf s else Ret () s) (\<lambda>_ s.
       bnd (brelse lbuf s) (\<lambda>_ s.
       brelse dbuf s)))))"

definition install_trans :: "bool \<Rightarrow> 'm logst_scheme \<Rightarrow> (unit, 'm logst_scheme) outcome" where
  "install_trans recovering s = for_each [0..<nat (lh_n s)] (install_one recovering) s"

definition read_head :: "'m logst_scheme \<Rightarrow> (unit, 'm logst_scheme) outcome" where
  "read_head s =
    bnd (bread (lg_dev s) (of_int (lg_start s)) s) (\<lambda>b s.
    let lh = b_data (bufs s b);
        s = s\<lparr>lh_n := hdr_n lh\<rparr>;
        s = fold (\<lambda>i s. s\<lparr>lh_block := (lh_block s)(i := hdr_block lh i)\<rparr>) [0..<nat (lh_n s)] s
    in brelse b s)"

definition write_head :: "'m logst_scheme \<Rightarrow> (unit, 'm logst_scheme) outcome" where
  "write_head s =
    bnd (bread (lg_dev s) (of_int (lg_start s)) s) (\<lambda>b s.
    let hb = st32 0 (of_int (lh_n s)) (b_data (bufs s b));
        hb = fold (\<lambda>i. st32 (4 + 4 * i) (lh_block s i)) [0..<nat (lh_n s)] hb;
        s = upd_buf b (\<lambda>x. x\<lparr>b_data := hb\<rparr>) s
    in bnd (bwrite b s) (\<lambda>_ s. brelse b s))"

definition recover_from_log :: "'m logst_scheme \<Rightarrow> (unit, 'm logst_scheme) outcome" where
  "recover_from_log s =
    bnd (read_head s) (\<lambda>_ s.
    bnd (install_trans True s) (\<lambda>_ s.
    write_head (s\<lparr>lh_n := 0\<rparr>)))"

definition initlog :: "u32 \<Rightarrow> superblock \<Rightarrow> 'm logst_scheme \<Rightarrow> (unit, 'm logst_scheme) outcome" where
  "initlog dev sb s =
    (if 4 + 4 * LOGSIZE \<ge> int BSIZE then Panic ''initlog: too big logheader''
     else
       let s = initlock Lk_log ''log'' s;
           s = s\<lparr>lg_start := sint (sb_logstart sb)\<rparr>;
           s = s\<lparr>lg_size := sint (sb_nlog sb)\<rparr>;
           s = s\<lparr>lg_dev := dev\<rparr>
       in recover_from_log s)"

text \<open>One turn of the loop of \<open>begin_op\<close>, with \<open>log.lock\<close> held; a process that slept takes it again
  (\<open>begin_op_back\<close>).\<close>

definition begin_op_turn :: "'m logst_scheme \<Rightarrow> (unit, 'm logst_scheme) outcome" where
  "begin_op_turn s =
    (if lg_committing s \<noteq> 0 then sleep Ch_log Lk_log s
     else if lh_n s + (lg_outstanding s + 1) * MAXOPBLOCKS > LOGSIZE then sleep Ch_log Lk_log s
     else release Lk_log (s\<lparr>lg_outstanding := lg_outstanding s + 1\<rparr>))"

definition begin_op :: "'m logst_scheme \<Rightarrow> (unit, 'm logst_scheme) outcome" where
  "begin_op s = bnd (acquire Lk_log s) (\<lambda>_ s. begin_op_turn s)"

definition begin_op_back :: "nat \<Rightarrow> bool \<Rightarrow> 'm logst_scheme \<Rightarrow> (unit, 'm logst_scheme) outcome" where
  "begin_op_back p ena s = bnd (sleep_back p ena Lk_log s) (\<lambda>_ s. begin_op_turn s)"

definition write_log_one :: "nat \<Rightarrow> 'm logst_scheme \<Rightarrow> (unit, 'm logst_scheme) outcome" where
  "write_log_one tail s =
    bnd (bread (lg_dev s) (of_int (lg_start s + int tail + 1)) s) (\<lambda>to s.
    bnd (bread (lg_dev s) (lh_block s tail) s) (\<lambda>from s.
    let s = upd_buf to (\<lambda>x. x\<lparr>b_data := b_data (bufs s from)\<rparr>) s
    in bnd (bwrite to s) (\<lambda>_ s.
       bnd (brelse from s) (\<lambda>_ s.
       brelse to s))))"

definition write_log :: "'m logst_scheme \<Rightarrow> (unit, 'm logst_scheme) outcome" where
  "write_log s = for_each [0..<nat (lh_n s)] write_log_one s"

definition commit :: "'m logst_scheme \<Rightarrow> (unit, 'm logst_scheme) outcome" where
  "commit s =
    (if lh_n s > 0 then
       bnd (write_log s) (\<lambda>_ s.
       bnd (write_head s) (\<lambda>_ s.
       bnd (install_trans False s) (\<lambda>_ s.
       write_head (s\<lparr>lh_n := 0\<rparr>))))
     else Ret () s)"

definition end_op :: "'m logst_scheme \<Rightarrow> (unit, 'm logst_scheme) outcome" where
  "end_op s =
    bnd (acquire Lk_log s) (\<lambda>_ s.
    let s = s\<lparr>lg_outstanding := lg_outstanding s - 1\<rparr>
    in if lg_committing s \<noteq> 0 then Panic ''log.committing''
       else
         bnd (if lg_outstanding s = 0 then Ret True (s\<lparr>lg_committing := 1\<rparr>)
              else bnd (wakeup Ch_log s) (\<lambda>_ s. Ret False s)) (\<lambda>do_commit s.
         bnd (release Lk_log s) (\<lambda>_ s.
         if do_commit then
           bnd (commit s) (\<lambda>_ s.
           bnd (acquire Lk_log s) (\<lambda>_ s.
           bnd (wakeup Ch_log (s\<lparr>lg_committing := 0\<rparr>)) (\<lambda>_ s.
           release Lk_log s)))
         else Ret () s)))"

definition log_write :: "nat \<Rightarrow> 'm logst_scheme \<Rightarrow> (unit, 'm logst_scheme) outcome" where
  "log_write b s =
    bnd (acquire Lk_log s) (\<lambda>_ s.
    if lh_n s \<ge> LOGSIZE \<or> lh_n s \<ge> lg_size s - 1 then Panic ''too big a transaction''
    else if lg_outstanding s < 1 then Panic ''log_write outside of trans''
    else
      let i = (case find (\<lambda>i. lh_block s i = b_blockno (bufs s b)) [0..<nat (lh_n s)] of
                 Some i \<Rightarrow> i | None \<Rightarrow> nat (lh_n s));
          s = s\<lparr>lh_block := (lh_block s)(i := b_blockno (bufs s b))\<rparr>
      in bnd (if i = nat (lh_n s) then bnd (bpin b s) (\<lambda>_ s. Ret () (s\<lparr>lh_n := lh_n s + 1\<rparr>))
              else Ret () s) (\<lambda>_ s.
         release Lk_log s))"

subsection \<open>Words of a block\<close>

lemma byte_of_bit32: "bit (push_bit k (ucast (ucast (drop_bit k v :: u32) :: u8)) :: u32) n
    \<longleftrightarrow> k \<le> n \<and> n < k + 8 \<and> bit (v :: u32) n"
  by (auto simp: bit_simps dest: bit_imp_le_length)

lemma bytes_of_u32: "(v :: u32) = ucast (ucast v :: u8) OR push_bit 8 (ucast (ucast (drop_bit 8 v) :: u8))
     OR push_bit 16 (ucast (ucast (drop_bit 16 v) :: u8)) OR push_bit 24 (ucast (ucast (drop_bit 24 v) :: u8))"
  (is "_ = ?w")
proof (rule bit_word_eqI)
  fix n assume n: "n < LENGTH(32)"
  have "bit (ucast (ucast v :: u8) :: u32) n \<longleftrightarrow> n < 8 \<and> bit v n"
    using byte_of_bit32 [of 0 v n] by simp
  then show "bit v n = bit ?w n"
    unfolding bit_or_iff byte_of_bit32 using n by simp linarith
qed

lemma ld32_st32 [simp]: "ld32 (st32 k v d) k = v"
  using bytes_of_u32 [of v] by (simp add: ld32_def st32_def)

lemma st32_other: "j < k \<or> k + 4 \<le> j \<Longrightarrow> st32 k v d j = d j"
  by (auto simp: st32_def)

lemma ld32_cong: "(\<And>i. k \<le> i \<Longrightarrow> i < k + 4 \<Longrightarrow> d i = e i) \<Longrightarrow> ld32 d k = ld32 e k"
  by (simp add: ld32_def)

lemma ld32_st32_other: "j + 4 \<le> k \<or> k + 4 \<le> j \<Longrightarrow> ld32 (st32 k v d) j = ld32 d j"
  by (rule ld32_cong) (auto intro!: st32_other)

lemma st32_loop:
  "ld32 (fold (\<lambda>i. st32 (4 + 4 * i) (f i)) [0..<n] d) k = (if \<exists>i<n. k = 4 + 4 * i then f ((k - 4) div 4) else ld32 d k)"
  if "k mod 4 = 0"
proof (induction n)
  case (Suc n)
  show ?case
  proof (cases "k = 4 + 4 * n")
    case False
    then have "k + 4 \<le> 4 + 4 * n \<or> 4 + 4 * n + 4 \<le> k" using that by presburger
    then show ?thesis using Suc False by (auto simp: ld32_st32_other less_Suc_eq)
  qed (simp add: less_Suc_eq)
qed simp

definition mk_hdr :: "int \<Rightarrow> (nat \<Rightarrow> u32) \<Rightarrow> block \<Rightarrow> block" where
  "mk_hdr n f d = fold (\<lambda>i. st32 (4 + 4 * i) (f i)) [0..<nat n] (st32 0 (of_int n) d)"

lemma sint_of_int_u32: "- 2147483648 \<le> n \<Longrightarrow> n < 2147483648 \<Longrightarrow> sint (of_int n :: u32) = n"
  by (simp add: signed_of_int signed_take_bit_int_eq_self)

lemma hdr_mk_hdr [simp]:
  "0 \<le> n \<Longrightarrow> n < 2147483648 \<Longrightarrow> hdr_n (mk_hdr n f d) = n"
  "i < nat n \<Longrightarrow> hdr_block (mk_hdr n f d) i = f i"
  by (simp_all add: hdr_n_def hdr_block_def mk_hdr_def st32_loop sint_of_int_u32)


subsection \<open>Frames\<close>

lemma logst_frame:
  fixes s t :: "'m logst_scheme"
  assumes "bio_frame s t"
  shows "lg_start t = lg_start s" "lg_size t = lg_size s" "lg_outstanding t = lg_outstanding s"
    "lg_committing t = lg_committing s" "lg_dev t = lg_dev s" "lh_n t = lh_n s"
    "lh_block t = lh_block s" "logst.more t = logst.more s"
proof -
  have eq: "t = s\<lparr>sleeplocks := sleeplocks t, procs := procs t, bufs := bufs t,
     disk := disk t, dwrites := dwrites t\<rparr>"
    using assms by (auto simp: bio_frame_def)
  show "lg_start t = lg_start s" "lg_size t = lg_size s" "lg_outstanding t = lg_outstanding s"
    "lg_committing t = lg_committing s" "lg_dev t = lg_dev s" "lh_n t = lh_n s"
    "lh_block t = lh_block s" "logst.more t = logst.more s"
    by (subst eq, simp)+
qed

lemma lock_on_logst [lock_simps, simp]:
  "(lock_on l s)\<lparr>lg_outstanding := x\<rparr> = lock_on l (s\<lparr>lg_outstanding := x\<rparr>)"
  "(lock_on l s)\<lparr>lg_committing := y\<rparr> = lock_on l (s\<lparr>lg_committing := y\<rparr>)"
  "(lock_on l s)\<lparr>lh_n := n\<rparr> = lock_on l (s\<lparr>lh_n := n\<rparr>)"
  "(lock_on l s)\<lparr>lh_block := f\<rparr> = lock_on l (s\<lparr>lh_block := f\<rparr>)"
  "lg_start (lock_on l s) = lg_start s" "lg_size (lock_on l s) = lg_size s"
  "lg_outstanding (lock_on l s) = lg_outstanding s" "lg_committing (lock_on l s) = lg_committing s"
  "lg_dev (lock_on l s) = lg_dev s" "lh_n (lock_on l s) = lh_n s" "lh_block (lock_on l s) = lh_block s"
  by (simp_all add: lock_on_def push_off_def Let_def)

lemma bc_inv_cong:
  assumes "bufs t = bufs s" and "disk t = disk s" and "sleeplocks t = sleeplocks s"
    and "\<And>i. pid (procs t i) = pid (procs s i)" and "world p t = world p s"
  shows "bc_inv p P H t = bc_inv p P H s" and "view t = view s"
  using assms by (auto simp: bc_inv_def lru_def bc_refs_def bc_slocks_def bc_data_def holds_block_def
    view_def fun_eq_iff split: option.split)

lemma machine_logst [simp]:
  "world p (s\<lparr>lg_outstanding := a\<rparr>) = world p s" "calm (s\<lparr>lg_outstanding := a\<rparr>) = calm s"
  "world p (s\<lparr>lg_committing := b\<rparr>) = world p s" "calm (s\<lparr>lg_committing := b\<rparr>) = calm s"
  "world p (s\<lparr>lh_n := n\<rparr>) = world p s" "calm (s\<lparr>lh_n := n\<rparr>) = calm s"
  "world p (s\<lparr>lh_block := f\<rparr>) = world p s" "calm (s\<lparr>lh_block := f\<rparr>) = calm s"
  "world p (s\<lparr>lg_start := c\<rparr>) = world p s" "calm (s\<lparr>lg_start := c\<rparr>) = calm s"
  "world p (s\<lparr>lg_size := d\<rparr>) = world p s" "calm (s\<lparr>lg_size := d\<rparr>) = calm s"
  "world p (s\<lparr>lg_dev := e\<rparr>) = world p s" "calm (s\<lparr>lg_dev := e\<rparr>) = calm s"
  "cur (s\<lparr>lg_outstanding := a\<rparr>) = cur s" "lock_free l (s\<lparr>lg_outstanding := a\<rparr>) = lock_free l s"
  "cur (s\<lparr>lg_committing := b\<rparr>) = cur s" "lock_free l (s\<lparr>lg_committing := b\<rparr>) = lock_free l s"
  "cur (s\<lparr>lh_n := n\<rparr>) = cur s" "lock_free l (s\<lparr>lh_n := n\<rparr>) = lock_free l s"
  "cur (s\<lparr>lh_block := f\<rparr>) = cur s" "lock_free l (s\<lparr>lh_block := f\<rparr>) = lock_free l s"
  "cur (s\<lparr>lg_start := c\<rparr>) = cur s" "lock_free l (s\<lparr>lg_start := c\<rparr>) = lock_free l s"
  "cur (s\<lparr>lg_size := d\<rparr>) = cur s" "lock_free l (s\<lparr>lg_size := d\<rparr>) = lock_free l s"
  "cur (s\<lparr>lg_dev := e\<rparr>) = cur s" "lock_free l (s\<lparr>lg_dev := e\<rparr>) = lock_free l s"
  "depth (s\<lparr>lg_outstanding := a\<rparr>) = depth s" "procs_unlocked (s\<lparr>lg_outstanding := a\<rparr>) = procs_unlocked s"
  "depth (s\<lparr>lg_committing := b\<rparr>) = depth s" "procs_unlocked (s\<lparr>lg_committing := b\<rparr>) = procs_unlocked s"
  "depth (s\<lparr>lh_n := n\<rparr>) = depth s" "procs_unlocked (s\<lparr>lh_n := n\<rparr>) = procs_unlocked s"
  "depth (s\<lparr>lh_block := f\<rparr>) = depth s" "procs_unlocked (s\<lparr>lh_block := f\<rparr>) = procs_unlocked s"
  "depth (s\<lparr>lg_start := c\<rparr>) = depth s" "procs_unlocked (s\<lparr>lg_start := c\<rparr>) = procs_unlocked s"
  "depth (s\<lparr>lg_size := d\<rparr>) = depth s" "procs_unlocked (s\<lparr>lg_size := d\<rparr>) = procs_unlocked s"
  "depth (s\<lparr>lg_dev := e\<rparr>) = depth s" "procs_unlocked (s\<lparr>lg_dev := e\<rparr>) = procs_unlocked s"
  by (simp_all add: world_def calm_def lock_free_def cur_def depth_def procs_unlocked_def)

lemma bc_inv_logst [simp]:
  "bc_inv p P H (s\<lparr>lg_outstanding := a\<rparr>) = bc_inv p P H s"
  "bc_inv p P H (s\<lparr>lg_committing := b\<rparr>) = bc_inv p P H s"
  "bc_inv p P H (s\<lparr>lh_n := n\<rparr>) = bc_inv p P H s"
  "bc_inv p P H (s\<lparr>lh_block := f\<rparr>) = bc_inv p P H s"
  "bc_inv p P H (s\<lparr>lg_start := c\<rparr>) = bc_inv p P H s"
  "bc_inv p P H (s\<lparr>lg_size := d\<rparr>) = bc_inv p P H s"
  "bc_inv p P H (s\<lparr>lg_dev := e\<rparr>) = bc_inv p P H s"
  by (intro bc_inv_cong; simp add: world_def calm_def lock_free_def cur_def)+

lemma view_logst [simp]:
  "view (s\<lparr>lg_outstanding := a\<rparr>) = view s" "view (s\<lparr>lg_committing := b\<rparr>) = view s"
  "view (s\<lparr>lh_n := n\<rparr>) = view s" "view (s\<lparr>lh_block := f\<rparr>) = view s"
  "view (s\<lparr>lg_start := c\<rparr>) = view s" "view (s\<lparr>lg_size := d\<rparr>) = view s"
  "view (s\<lparr>lg_dev := e\<rparr>) = view s"
  by (simp_all add: view_def fun_eq_iff split: option.split)

lemma bc_inv_wake [simp]:
  "bc_inv p P H (s\<lparr>procs := wake_procs ch q (procs s)\<rparr>) = bc_inv p P H s"
  "view (s\<lparr>procs := x\<rparr>) = view s"
  by (rule bc_inv_cong; simp add: world_def procs_unlocked_def)
    (simp add: view_def fun_eq_iff split: option.split)

subsection \<open>Writing a block through the cache\<close>

definition apply_writes :: "(u32 \<times> block) list \<Rightarrow> (u32 \<Rightarrow> block) \<Rightarrow> u32 \<Rightarrow> block" where
  "apply_writes ws d = fold (\<lambda>(b, v) d. d(b := v)) ws d"

lemma apply_writes_simps [simp]:
  "apply_writes [] d = d" "apply_writes (w # ws) d = apply_writes ws (d(fst w := snd w))"
  "apply_writes (vs @ ws) d = apply_writes ws (apply_writes vs d)"
  by (simp_all add: apply_writes_def split_beta)

lemma apply_writes_other: "b \<notin> fst ` set ws \<Longrightarrow> apply_writes ws d b = d b"
  by (induction ws arbitrary: d) auto

text \<open>One step from \<open>s\<close> to \<open>t\<close> that wrote the blocks \<open>ws\<close>, both for the processes and on the disk.\<close>

definition wrote :: "nat \<Rightarrow> nat set \<Rightarrow> (u32 \<times> block) list \<Rightarrow> 'm logst_scheme \<Rightarrow> 'm logst_scheme \<Rightarrow> bool" where
  "wrote p P ws s t \<longleftrightarrow> bc_inv p P {} t \<and> bio_frame s t \<and> disk t = apply_writes ws (disk s)
     \<and> dwrites t = dwrites s @ ws \<and> view t = apply_writes ws (view s) \<and> (\<forall>j\<in>P. same_buf s t j)"

lemma wrote_trans:
  assumes "wrote p P vs s t" and "wrote p Q ws t u" and "Q \<subseteq> P"
  shows "wrote p Q (vs @ ws) s u"
  using assms bio_frame_trans [of s t u] same_buf_trans [of s t _ u] by (auto simp: wrote_def subset_iff)

lemma write_head_spec:
  assumes inv: "bc_inv p P {} s" and dev: "lg_dev s = ROOTDEV" and card: "card P < NBUF"
    and free: "\<And>i. i \<in> P \<Longrightarrow> b_blockno (bufs s i) \<noteq> of_int (lg_start s)"
  shows "\<exists>t. write_head s = Ret () t \<and> wrote p P [(of_int (lg_start s),
     mk_hdr (lh_n s) (lh_block s) (view s (of_int (lg_start s))))] s t"
proof -
  let ?hb = "of_int (lg_start s) :: u32"
  let ?h = "mk_hdr (lh_n s) (lh_block s) (view s ?hb)"
  from bread_spec [OF inv, of ?hb] card
  obtain i t1 where r: "bread ROOTDEV ?hb s = Ret i t1" "i < NBUF" "bc_inv p P {i} t1"
    "b_blockno (bufs t1 i) = ?hb" "b_data (bufs t1 i) = view s ?hb" "view t1 = view s" "bio_frame s t1"
    "disk t1 = disk s" "dwrites t1 = dwrites s" "\<forall>j\<in>P. same_buf s t1 j" by auto
  note lf1 = logst_frame [OF r(7)]
  define t2 where "t2 = put_data i ?h t1"
  have i: "i \<in> {i}" by simp
  note p2 = put_data_spec [OF r(3) i, where d = ?h, folded t2_def]
  from bwrite_spec [OF p2(1) i]
  obtain t3 where w: "bwrite i t2 = Ret () t3" "bc_inv p P {i} t3" "view t3 = view t2" "bio_frame t2 t3"
    "disk t3 = (disk t2)(b_blockno (bufs t2 i) := b_data (bufs t2 i))"
    "dwrites t3 = dwrites t2 @ [(b_blockno (bufs t2 i), b_data (bufs t2 i))]"
    "\<forall>j. same_buf t2 t3 j" by auto
  have same: "b_data (bufs t3 i) = ?h" "b_blockno (bufs t3 i) = ?hb"
    using w(7) p2(7) p2(8) r(4) by (simp_all add: same_buf_def)
  have "b_data (bufs t3 i) = disk t3 (b_blockno (bufs t3 i))"
    using w p2 r(4) same by simp
  with brelse_spec [OF w(2) i]
  obtain t where b: "brelse i t3 = Ret () t" "bc_inv p P {} t" "view t = view t3" "bio_frame t3 t"
    "disk t = disk t3" "dwrites t = dwrites t3" "\<forall>j. same_buf t3 t j" by auto
  have "bio_frame s t" using r(7) p2(3) w(4) b(4) by (blast intro: bio_frame_trans)
  moreover have "same_buf s t j" if "j \<in> P" for j
  proof -
    have "j \<noteq> i" using free [OF that] r(4) r(10) that by (auto simp: same_buf_def)
    then show ?thesis using r(10) that p2(6) w(7) b(7) by (blast intro: same_buf_trans)
  qed
  moreover have "write_head s = Ret () t"
    using r(1,5) w(1) b(1) dev lf1 by (simp add: write_head_def Let_def t2_def put_data_def mk_hdr_def)
  ultimately show ?thesis using b w p2 r by (auto simp: wrote_def)
qed


lemma write_log_one_spec:
  assumes inv: "bc_inv p P {} s" and dev: "lg_dev s = ROOTDEV" and card: "card P < NBUF"
    and src: "i \<in> P" "b_blockno (bufs s i) = lh_block s tail"
    and free: "\<And>i. i \<in> P \<Longrightarrow> b_blockno (bufs s i) \<noteq> d"
    and d: "d = of_int (lg_start s + int tail + 1)"
  shows "\<exists>t. write_log_one tail s = Ret () t \<and> wrote p P [(d, view s (lh_block s tail))] s t"
proof -
  let ?s = "lh_block s tail"
  let ?v = "view s ?s"
  from bread_spec [OF inv, of d] card
  obtain a t1 where r1: "bread ROOTDEV d s = Ret a t1" "a < NBUF" "bc_inv p P {a} t1"
    "b_blockno (bufs t1 a) = d" "view t1 = view s" "bio_frame s t1"
    "disk t1 = disk s" "dwrites t1 = dwrites s" "\<forall>j\<in>P. same_buf s t1 j" by auto
  have aP: "a \<notin> P" using free [of a] r1(4,9) by (auto simp: same_buf_def)
  have blk: "b_blockno (bufs t1 i) = ?s" using r1(9) src by (auto simp: same_buf_def)
  have ne: "?s \<noteq> d" using free src by metis
  have "holds_block t1 i ?s" using holds_held(1) [OF r1(3), of i] src(1) blk by simp
  with bread_spec [OF r1(3), of ?s] r1(4) ne
  obtain b t2 where r2: "bread ROOTDEV ?s t1 = Ret b t2" "b < NBUF" "b \<notin> {a}" "bc_inv p P {b, a} t2"
    "b_blockno (bufs t2 b) = ?s" "b_data (bufs t2 b) = ?v" "view t2 = view t1" "bio_frame t1 t2"
    "disk t2 = disk t1" "dwrites t2 = dwrites t1" "\<forall>j\<in>P \<union> {a}. same_buf t1 t2 j"
    using r1(5) by auto
  have "b_blockno (bufs t2 i) = ?s" using r2(11) src(1) blk by (auto simp: same_buf_def)
  then have "b = i" using held_unique [OF r2(4), of b i] r2(5) src(1) by auto
  define t3 where "t3 = put_data a ?v t2"
  have a: "a \<in> {b, a}" by simp
  note p3 = put_data_spec [OF r2(4) a, where d = ?v, folded t3_def]
  have blk_a: "b_blockno (bufs t2 a) = d" using r2(11) r1(4) by (auto simp: same_buf_def)
  from bwrite_spec [OF p3(1) a]
  obtain t4 where w: "bwrite a t3 = Ret () t4" "bc_inv p P {b, a} t4" "view t4 = view t3" "bio_frame t3 t4"
    "disk t4 = (disk t3)(d := ?v)" "dwrites t4 = dwrites t3 @ [(d, ?v)]" "\<forall>j. same_buf t3 t4 j"
    using p3(7) [of a] p3(8) blk_a by auto
  from brelse_spec [OF w(2), of b] \<open>b = i\<close> src(1) r2(3)
  obtain t5 where b: "brelse b t4 = Ret () t5" "bc_inv p P {a} t5" "view t5 = view t4" "bio_frame t4 t5"
    "disk t5 = disk t4" "dwrites t5 = dwrites t4" "\<forall>j. same_buf t4 t5 j"
    by (auto simp: insert_Diff_if)
  have same: "b_data (bufs t5 a) = ?v" "b_blockno (bufs t5 a) = d"
    using w(7) b(7) p3(7) [of a] p3(8) blk_a by (simp_all add: same_buf_def)
  have "b_data (bufs t5 a) = disk t5 (b_blockno (bufs t5 a))" using w b same by simp
  with brelse_spec [OF b(2), of a]
  obtain t where c: "brelse a t5 = Ret () t" "bc_inv p P {} t" "view t = view t5" "bio_frame t5 t"
    "disk t = disk t5" "dwrites t = dwrites t5" "\<forall>j. same_buf t5 t j" by auto
  have "bio_frame s t" using r1(6) r2(8) p3(3) w(4) b(4) c(4) by (blast intro: bio_frame_trans)
  moreover have "same_buf s t j" if "j \<in> P" for j
  proof -
    have "j \<noteq> a" using that aP by blast
    then have "same_buf s t1 j" "same_buf t1 t2 j" "same_buf t2 t3 j" using r1(9) r2(11) that p3(6) by auto
    then show ?thesis using w(7) b(7) c(7) by (simp add: same_buf_def)
  qed
  moreover have "write_log_one tail s = Ret () t"
    using r1(1) r2(1,6) w(1) b(1) c(1) dev logst_frame [OF r1(6)]
    unfolding write_log_one_def d [symmetric] by (simp add: Let_def t3_def put_data_def)
  moreover have "view t = (view s)(d := ?v)"
    using c(3) b(3) w(3) p3(2) r2(7) r1(5) blk_a by simp
  moreover have "disk t = (disk s)(d := ?v)" "dwrites t = dwrites s @ [(d, ?v)]"
    using c(5,6) b(5,6) w(5,6) p3(4,5) r2(9,10) r1(7,8) by simp_all
  ultimately show ?thesis using c(2) by (simp add: wrote_def)
qed

lemma install_one_spec:
  assumes inv: "bc_inv p P {} s" and dev: "lg_dev s = ROOTDEV" and card: "card P < NBUF"
    and pin: "\<not> r \<Longrightarrow> i \<in> P \<and> b_blockno (bufs s i) = lh_block s tail" and rec: "r \<Longrightarrow> P = {}"
    and ne: "lh_block s tail \<noteq> l"
    and free: "\<And>i. i \<in> P \<Longrightarrow> b_blockno (bufs s i) \<noteq> l"
    and l: "l = of_int (lg_start s + int tail + 1)"
  shows "\<exists>t. install_one r tail s = Ret () t \<and> wrote p (if r then P else P - {i})
     [(lh_block s tail, view s l)] s t"
proof -
  let ?d = "lh_block s tail"
  let ?v = "view s l" and ?P = "if r then P else P - {i}"
  from bread_spec [OF inv, of l] card
  obtain a t1 where r1: "bread ROOTDEV l s = Ret a t1" "a < NBUF" "bc_inv p P {a} t1"
    "b_blockno (bufs t1 a) = l" "b_data (bufs t1 a) = ?v" "view t1 = view s" "bio_frame s t1"
    "disk t1 = disk s" "dwrites t1 = dwrites s" "\<forall>j\<in>P. same_buf s t1 j" by auto
  have aP: "a \<notin> P" using free [of a] r1(4,10) by (auto simp: same_buf_def)
  have room: "card (P \<union> {a}) < NBUF \<or> (\<exists>k. holds_block t1 k ?d)"
  proof (cases r)
    case True
    then show ?thesis using card rec by (auto simp: NBUF_def)
  next
    case False
    then have "i \<in> P" "b_blockno (bufs t1 i) = ?d" using pin r1(10) by (auto simp: same_buf_def)
    then show ?thesis using holds_held(1) [OF r1(3), of i] by auto
  qed
  have "\<And>k. k \<in> {a} \<Longrightarrow> b_blockno (bufs t1 k) \<noteq> ?d" using r1(4) ne by auto
  from bread_spec [OF r1(3) this room]
  obtain b t2 where r2: "bread ROOTDEV ?d t1 = Ret b t2" "b < NBUF" "b \<notin> {a}" "bc_inv p P {b, a} t2"
    "b_blockno (bufs t2 b) = ?d" "view t2 = view t1" "bio_frame t1 t2"
    "disk t2 = disk t1" "dwrites t2 = dwrites t1" "\<forall>j\<in>P \<union> {a}. same_buf t1 t2 j"
    by auto
  have data_a: "b_data (bufs t2 a) = ?v" "b_blockno (bufs t2 a) = l"
    using r2(10) r1(4,5) by (auto simp: same_buf_def)
  have bi: "b = i" if "\<not> r"
  proof -
    have "i \<in> P" "b_blockno (bufs t2 i) = ?d" using pin [OF that] r1(10) r2(10) by (auto simp: same_buf_def)
    then show ?thesis using held_unique [OF r2(4), of b i] r2(5) by auto
  qed
  define t3 where "t3 = put_data b ?v t2"
  have b: "b \<in> {b, a}" by simp
  note p3 = put_data_spec [OF r2(4) b, where d = ?v, folded t3_def]
  from bwrite_spec [OF p3(1) b]
  obtain t4 where w: "bwrite b t3 = Ret () t4" "bc_inv p P {b, a} t4" "view t4 = view t3" "bio_frame t3 t4"
    "disk t4 = (disk t3)(?d := ?v)" "dwrites t4 = dwrites t3 @ [(?d, ?v)]" "\<forall>j. same_buf t3 t4 j"
    using p3(7) [of b] p3(8) r2(5) by auto
  obtain t5 where u: "(if \<not> r then bunpin b t4 else Ret () t4) = Ret () t5" "bc_inv p ?P {b, a} t5"
    "view t5 = view t4" "bio_frame t4 t5" "disk t5 = disk t4" "dwrites t5 = dwrites t4"
    "\<forall>j. same_buf t4 t5 j"
  proof (cases r)
    case True
    then show ?thesis using that [of t4] w(2) by (auto simp: bio_frame_def)
  next
    case False
    then have "b \<in> P" using bi pin by blast
    from bunpin_spec [OF w(2) b this] False bi show ?thesis using that by auto
  qed
  have ab: "a \<noteq> b" using r2(3) by simp
  have same5: "b_data (bufs t5 a) = ?v" "b_blockno (bufs t5 a) = l"
    "b_data (bufs t5 b) = ?v" "b_blockno (bufs t5 b) = ?d"
    using w(7) u(7) p3(6) [OF ab] p3(7) [of b] p3(8) data_a r2(5) by (simp_all add: same_buf_def)
  have clean_a: "a \<in> ?P \<or> b_data (bufs t5 a) = disk t5 (b_blockno (bufs t5 a))"
  proof -
    have "bc_inv p P {} s" by fact
    have "\<not> holds_block s k l" if "k \<in> P \<union> {}" for k
      using free that by (auto simp: holds_block_def)
    then have "?v = disk s l" using inv by (intro view_clean) (auto simp: bc_inv_def)
    then show ?thesis using same5 u w p3 r2 r1 ne by simp
  qed
  from brelse_spec [OF u(2) _ clean_a] ab
  obtain t6 where c: "brelse a t5 = Ret () t6" "bc_inv p ?P {b} t6" "view t6 = view t5" "bio_frame t5 t6"
    "disk t6 = disk t5" "dwrites t6 = dwrites t5" "\<forall>j. same_buf t5 t6 j"
    by (auto simp: insert_Diff_if)
  have "b_data (bufs t6 b) = disk t6 (b_blockno (bufs t6 b))"
    using same5 c u w by (simp add: same_buf_def)
  with brelse_spec [OF c(2), of b]
  obtain t where e: "brelse b t6 = Ret () t" "bc_inv p ?P {} t" "view t = view t6" "bio_frame t6 t"
    "disk t = disk t6" "dwrites t = dwrites t6" "\<forall>j. same_buf t6 t j" by auto
  have "bio_frame s t" using r1(7) r2(7) p3(3) w(4) u(4) c(4) e(4) by (blast intro: bio_frame_trans)
  moreover have "same_buf s t j" if "j \<in> ?P" for j
  proof -
    have "j \<noteq> b" "j \<in> P" using that bi rec by (auto split: if_splits)
    then have "same_buf s t1 j" "same_buf t1 t2 j" "same_buf t2 t3 j" using r1(10) r2(10) p3(6) by auto
    then show ?thesis using w(7) u(7) c(7) e(7) by (simp add: same_buf_def)
  qed
  moreover have "install_one r tail s = Ret () t"
    using r1(1) r2(1) w(1) u(1) c(1) e(1) dev logst_frame [OF r1(7)] data_a(1)
    unfolding install_one_def l [symmetric] by (simp add: Let_def t3_def put_data_def)
  moreover have "view t = (view s)(?d := ?v)"
    using e(3) c(3) u(3) w(3) p3(2) r2(5,6) r1(6) by simp
  moreover have "disk t = (disk s)(?d := ?v)" "dwrites t = dwrites s @ [(?d, ?v)]"
    using e(5,6) c(5,6) u(5,6) w(5,6) p3(4,5) r2(8,9) r1(8,9) by simp_all
  ultimately show ?thesis using e(2) by (simp add: wrote_def)
qed


subsection \<open>The log area\<close>

definition log_geom :: "'m logst_scheme \<Rightarrow> bool" where
  "log_geom s \<longleftrightarrow> 0 \<le> lg_start s \<and> 1 \<le> lg_size s \<and> lg_start s + lg_size s < 2147483648
     \<and> lg_dev s = ROOTDEV"

definition logblk :: "'m logst_scheme \<Rightarrow> nat \<Rightarrow> u32" where
  "logblk s k = of_int (lg_start s + int k)"

definition in_log :: "'m logst_scheme \<Rightarrow> u32 \<Rightarrow> bool" where
  "in_log s b \<longleftrightarrow> lg_start s \<le> uint b \<and> uint b < lg_start s + lg_size s"

lemma uint_logblk:
  assumes "log_geom s" and "int k < lg_size s"
  shows "uint (logblk s k) = lg_start s + int k"
proof -
  have "0 \<le> lg_start s + int k" "lg_start s + int k < 2 ^ LENGTH(32)"
    using assms by (auto simp: log_geom_def)
  then show ?thesis unfolding logblk_def by (simp only: uint_word_of_int mod_pos_pos_trivial)
qed

lemma logblk_in_log: "log_geom s \<Longrightarrow> int k < lg_size s \<Longrightarrow> in_log s (logblk s k)"
  by (simp add: in_log_def uint_logblk)

lemma logblk_inj: "log_geom s \<Longrightarrow> int j < lg_size s \<Longrightarrow> int k < lg_size s \<Longrightarrow> logblk s j = logblk s k \<longleftrightarrow> j = k"
  by (metis uint_logblk add_left_cancel of_nat_eq_iff)

lemma logblk_Suc: "logblk s (Suc k) = of_int (lg_start s + int k + 1)" "logblk s 0 = of_int (lg_start s)"
  by (simp_all add: logblk_def)

lemma log_frame:
  assumes "bio_frame s t"
  shows "log_geom t = log_geom s" "logblk t k = logblk s k" "in_log t b = in_log s b"
  using logst_frame [OF assms] by (simp_all add: log_geom_def logblk_def in_log_def)

definition log_writes :: "nat \<Rightarrow> 'm logst_scheme \<Rightarrow> (u32 \<times> block) list" where
  "log_writes n s = map (\<lambda>k. (logblk s (Suc k), view s (lh_block s k))) [0..<n]"

definition home_writes :: "nat \<Rightarrow> 'm logst_scheme \<Rightarrow> (u32 \<times> block) list" where
  "home_writes n s = map (\<lambda>k. (lh_block s k, view s (logblk s (Suc k)))) [0..<n]"

lemma writes_Suc:
  "log_writes (Suc n) s = log_writes n s @ [(logblk s (Suc n), view s (lh_block s n))]"
  "home_writes (Suc n) s = home_writes n s @ [(lh_block s n, view s (logblk s (Suc n)))]"
  by (simp_all add: log_writes_def home_writes_def)

lemma write_log_loop:
  assumes inv: "bc_inv p P {} s" and geom: "log_geom s" and card: "card P < NBUF"
    and pins: "\<And>k. k < n \<Longrightarrow> \<exists>i\<in>P. b_blockno (bufs s i) = lh_block s k"
    and out: "\<And>i. i \<in> P \<Longrightarrow> \<not> in_log s (b_blockno (bufs s i))" and n: "int n \<le> lg_size s - 1"
  shows "\<exists>t. for_each [0..<n] write_log_one s = Ret () t \<and> wrote p P (log_writes n s) s t"
  using pins n
proof (induction n)
  case 0
  have "bio_frame s s" by (simp add: bio_frame_def)
  then show ?case using inv by (simp add: log_writes_def wrote_def)
next
  case (Suc n)
  then obtain t where t: "for_each [0..<n] write_log_one s = Ret () t" "wrote p P (log_writes n s) s t"
    by auto
  then have w: "bc_inv p P {} t" "bio_frame s t" "view t = apply_writes (log_writes n s) (view s)"
    "\<forall>j\<in>P. same_buf s t j" by (auto simp: wrote_def)
  note lf = logst_frame [OF w(2)]
  obtain i where i: "i \<in> P" "b_blockno (bufs s i) = lh_block s n" using Suc.prems(1) by blast
  have d: "logblk s (Suc n) = of_int (lg_start t + int n + 1)" by (simp add: logblk_Suc(1) lf)
  have "in_log s (logblk s (Suc n))" using geom Suc.prems(2) by (intro logblk_in_log) auto
  then have free: "b_blockno (bufs t j) \<noteq> logblk s (Suc n)" if "j \<in> P" for j
    using out [OF that] that w(4) by (auto simp: same_buf_def)
  have keep: "view t (lh_block s n) = view s (lh_block s n)"
  proof -
    have "logblk s (Suc k) \<noteq> lh_block s n" if "k < n" for k
      using logblk_in_log [OF geom, of "Suc k"] out [OF i(1)] i(2) that Suc.prems(2) by auto
    then have "lh_block s n \<notin> fst ` set (log_writes n s)" unfolding log_writes_def by fastforce
    then show ?thesis unfolding w(3) by (rule apply_writes_other)
  qed
  have "lg_dev t = ROOTDEV" "b_blockno (bufs t i) = lh_block t n"
    using geom i w(4) lf by (auto simp: log_geom_def same_buf_def)
  from write_log_one_spec [OF w(1) this(1) card i(1) this(2) free d]
  obtain u where u: "write_log_one n t = Ret () u" "wrote p P [(logblk s (Suc n), view s (lh_block s n))] t u"
    using lf keep by auto
  have "for_each [0..<Suc n] write_log_one s = Ret () u" using t(1) u(1) by (simp add: for_each_append)
  then show ?case using wrote_trans [OF t(2) u(2)] by (auto simp: writes_Suc)
qed

text \<open>The pinned buffers that wait to be installed after \<open>n\<close> steps.\<close>

definition pinned_left :: "nat set \<Rightarrow> nat \<Rightarrow> 'm logst_scheme \<Rightarrow> nat set" where
  "pinned_left P n s = {i\<in>P. b_blockno (bufs s i) \<notin> lh_block s ` {..<n}}"

lemma install_loop:
  assumes inv: "bc_inv p P {} s" and geom: "log_geom s" and card: "card P < NBUF" and fin: "finite P"
    and pins: "\<And>k. k < n \<Longrightarrow> \<not> r \<Longrightarrow> \<exists>i\<in>P. b_blockno (bufs s i) = lh_block s k"
    and rec: "r \<Longrightarrow> P = {}" and dist: "\<not> r \<Longrightarrow> distinct (map (lh_block s) [0..<n])"
    and out: "\<And>i. i \<in> P \<Longrightarrow> \<not> in_log s (b_blockno (bufs s i))"
    and out': "\<And>k. k < n \<Longrightarrow> \<not> in_log s (lh_block s k)" and n: "int n \<le> lg_size s - 1"
  shows "\<exists>t. for_each [0..<n] (install_one r) s = Ret () t
    \<and> wrote p (pinned_left P n s) (home_writes n s) s t"
  using pins dist out' n
proof (induction n)
  case 0
  have "bio_frame s s" by (simp add: bio_frame_def)
  then show ?case using inv by (simp add: home_writes_def wrote_def pinned_left_def)
next
  case (Suc n)
  let ?P = "pinned_left P n s"
  obtain t where t: "for_each [0..<n] (install_one r) s = Ret () t" "wrote p ?P (home_writes n s) s t"
    using Suc.IH Suc.prems by auto
  then have w: "bc_inv p ?P {} t" "bio_frame s t" "view t = apply_writes (home_writes n s) (view s)"
    "\<forall>j\<in>?P. same_buf s t j" by (auto simp: wrote_def)
  note lf = logst_frame [OF w(2)]
  have sub: "?P \<subseteq> P" by (auto simp: pinned_left_def)
  then have "card ?P < NBUF" using card card_mono [OF fin sub] by simp
  have d: "logblk s (Suc n) = of_int (lg_start t + int n + 1)" by (simp add: logblk_Suc(1) lf)
  have in_l: "in_log s (logblk s (Suc n))" using geom Suc.prems(4) by (intro logblk_in_log) auto
  then have free: "b_blockno (bufs t j) \<noteq> logblk s (Suc n)" if "j \<in> ?P" for j
    using out [of j] sub that w(4) in_l by (auto simp: same_buf_def)
  have ne: "lh_block t n \<noteq> logblk s (Suc n)" using Suc.prems(3) [of n] in_l lf by auto
  have keep: "view t (logblk s (Suc n)) = view s (logblk s (Suc n))"
    unfolding w(3) using Suc.prems(3) in_l by (intro apply_writes_other) (auto simp: home_writes_def)
  obtain i where i: "\<not> r \<Longrightarrow> i \<in> ?P" "\<not> r \<Longrightarrow> b_blockno (bufs s i) = lh_block s n"
  proof (cases r)
    case False
    then obtain i where "i \<in> P" "b_blockno (bufs s i) = lh_block s n" using Suc.prems(1) by blast
    moreover have "lh_block s n \<notin> lh_block s ` {..<n}" using Suc.prems(2) False by auto
    ultimately show ?thesis using that by (auto simp: pinned_left_def)
  qed (use that in blast)
  then have pin: "\<not> r \<Longrightarrow> i \<in> ?P \<and> b_blockno (bufs t i) = lh_block t n"
    using w(4) lf by (auto simp: same_buf_def)
  have rec': "r \<Longrightarrow> ?P = {}" using rec by (auto simp: pinned_left_def)
  have "lg_dev t = ROOTDEV" using geom lf by (simp add: log_geom_def)
  from install_one_spec [OF w(1) this \<open>card ?P < NBUF\<close> pin rec' ne free d]
  obtain u where u: "install_one r n t = Ret () u"
    "wrote p (if r then ?P else ?P - {i}) [(lh_block t n, view t (logblk s (Suc n)))] t u" by auto
  have P': "(if r then ?P else ?P - {i}) = pinned_left P (Suc n) s"
  proof (cases r)
    case True
    then show ?thesis using rec by (auto simp: pinned_left_def)
  next
    case False
    have "j = i" if "j \<in> P" "b_blockno (bufs s j) = lh_block s n" for j
    proof -
      have "i \<in> P \<union> {}" "j \<in> P \<union> {}" using i(1) [OF False] sub that(1) by blast+
      from held_unique [OF inv this(2,1)] show ?thesis using i(2) [OF False] that(2) by simp
    qed
    then have "pinned_left P (Suc n) s = ?P - {i}"
      unfolding pinned_left_def lessThan_Suc using i(2) [OF False] by blast
    then show ?thesis using False by simp
  qed
  have "for_each [0..<Suc n] (install_one r) s = Ret () u" using t(1) u(1) by (simp add: for_each_append)
  moreover have "pinned_left P (Suc n) s \<subseteq> ?P" by (auto simp: pinned_left_def)
  moreover from wrote_trans [OF t(2) u(2) [unfolded P' keep lf] this]
  have "wrote p (pinned_left P (Suc n) s) (home_writes (Suc n) s) s u" by (simp only: writes_Suc)
  ultimately show ?case by blast
qed


subsection \<open>Commit\<close>

definition log_inv :: "nat \<Rightarrow> nat set \<Rightarrow> nat set \<Rightarrow> 'm logst_scheme \<Rightarrow> bool" where
  "log_inv p P H s \<longleftrightarrow> bc_inv p P H s \<and> log_geom s \<and> lg_size s \<le> LOGSIZE
     \<and> 0 \<le> lh_n s \<and> lh_n s \<le> lg_size s - 1
     \<and> distinct (map (lh_block s) [0..<nat (lh_n s)])
     \<and> (\<forall>k<nat (lh_n s). \<not> in_log s (lh_block s k))
     \<and> (\<lambda>i. b_blockno (bufs s i)) ` P = lh_block s ` {..<nat (lh_n s)}"

lemma log_invD:
  assumes "log_inv p P H s"
  shows "bc_inv p P H s" "log_geom s" "lg_size s \<le> LOGSIZE" "0 \<le> lh_n s" "lh_n s \<le> lg_size s - 1"
    "distinct (map (lh_block s) [0..<nat (lh_n s)])"
    "k < nat (lh_n s) \<Longrightarrow> \<not> in_log s (lh_block s k)"
    "(\<lambda>i. b_blockno (bufs s i)) ` P = lh_block s ` {..<nat (lh_n s)}"
  using assms unfolding log_inv_def by blast+

lemma log_inv_pins:
  assumes inv: "log_inv p P H s"
  shows "finite P" and "card P = nat (lh_n s)" and "card P < NBUF"
    and "k < nat (lh_n s) \<Longrightarrow> \<exists>i\<in>P. b_blockno (bufs s i) = lh_block s k"
    and "i \<in> P \<Longrightarrow> \<not> in_log s (b_blockno (bufs s i))"
proof -
  note d = log_invD [OF inv]
  have "P \<subseteq> {..<NBUF}" using d(1) by (simp add: bc_inv_def bc_refs_def)
  then show fin: "finite P" by (rule finite_subset) simp
  have "inj_on (\<lambda>i. b_blockno (bufs s i)) P"
    by (rule inj_onI) (rule held_unique [OF d(1)]; simp)
  then have "card P = card (lh_block s ` {..<nat (lh_n s)})" using card_image d(8) by metis
  also have "\<dots> = card (set (map (lh_block s) [0..<nat (lh_n s)]))" by (simp add: atLeast_upt lessThan_atLeast0)
  also have "\<dots> = nat (lh_n s)" using distinct_card [OF d(6)] by simp
  finally show c: "card P = nat (lh_n s)" .
  then show "card P < NBUF" using d(3,5) by (simp add: NBUF_def LOGSIZE_def MAXOPBLOCKS_def)
  show "\<exists>i\<in>P. b_blockno (bufs s i) = lh_block s k" if "k < nat (lh_n s)"
  proof -
    have "lh_block s k \<in> lh_block s ` {..<nat (lh_n s)}" using that by blast
    then have "lh_block s k \<in> (\<lambda>i. b_blockno (bufs s i)) ` P" unfolding d(8) .
    then show ?thesis by auto
  qed
  show "\<not> in_log s (b_blockno (bufs s i))" if "i \<in> P"
  proof -
    have "b_blockno (bufs s i) \<in> lh_block s ` {..<nat (lh_n s)}" using that d(8) by blast
    then show ?thesis using d(7) by auto
  qed
qed

definition full_hdr :: "'m logst_scheme \<Rightarrow> block" where
  "full_hdr s = mk_hdr (lh_n s) (lh_block s) (view s (logblk s 0))"

text \<open>The disk writes of one commit, in order.\<close>

definition commit_writes :: "'m logst_scheme \<Rightarrow> (u32 \<times> block) list" where
  "commit_writes s = log_writes (nat (lh_n s)) s @ [(logblk s 0, full_hdr s)]
     @ map (\<lambda>k. (lh_block s k, view s (lh_block s k))) [0..<nat (lh_n s)]
     @ [(logblk s 0, mk_hdr 0 (lh_block s) (full_hdr s))]"

lemma apply_map_writes:
  assumes "distinct (map f [0..<n])" and "k < n"
  shows "apply_writes (map (\<lambda>k. (f k, v k)) [0..<n]) d (f k) = v k"
  using assms
proof (induction n)
  case (Suc n)
  show ?case
  proof (cases "k = n")
    case False
    then have "k < n" using Suc.prems(2) by simp
    moreover from this have "f n \<noteq> f k" using Suc.prems(1) by auto
    ultimately show ?thesis using Suc by simp
  qed simp
qed simp

lemma apply_log_writes:
  assumes "log_geom s" and "int n \<le> lg_size s - 1" and "k < n"
  shows "apply_writes (log_writes n s) d (logblk s (Suc k)) = view s (lh_block s k)"
proof -
  have "inj_on (\<lambda>k. logblk s (Suc k)) {0..<n}"
    using assms(2) by (intro inj_onI) (simp add: logblk_inj [OF assms(1)])
  then have "distinct (map (\<lambda>k. logblk s (Suc k)) [0..<n])" by (simp add: distinct_map)
  from apply_map_writes [OF this assms(3)] show ?thesis by (simp add: log_writes_def)
qed

lemma wrote_inv: "wrote p P ws s t \<Longrightarrow> bc_inv p P {} t" "wrote p P ws s t \<Longrightarrow> bio_frame s t"
    "wrote p P ws s t \<Longrightarrow> view t = apply_writes ws (view s)"
    "wrote p P ws s t \<Longrightarrow> j \<in> P \<Longrightarrow> same_buf s t j"
  by (simp_all add: wrote_def)

lemma apply_map_same: "e b = d b \<Longrightarrow> apply_writes (map (\<lambda>k. (f k, d (f k))) ks) e b = d b"
  by (induction ks arbitrary: e) simp_all

lemma bio_frame_lh_n:
  assumes f: "bio_frame s t"
  shows "bio_frame (s\<lparr>lh_n := n\<rparr>) (t\<lparr>lh_n := n\<rparr>)"
  unfolding bio_frame_def
proof (intro conjI allI impI)
  show "t\<lparr>lh_n := n\<rparr> = s\<lparr>lh_n := n\<rparr>\<lparr>sleeplocks := sleeplocks (t\<lparr>lh_n := n\<rparr>),
    procs := procs (t\<lparr>lh_n := n\<rparr>), bufs := bufs (t\<lparr>lh_n := n\<rparr>), disk := disk (t\<lparr>lh_n := n\<rparr>),
    dwrites := dwrites (t\<lparr>lh_n := n\<rparr>)\<rparr>"
    using bio_frame_more(1-9) [OF f] logst_frame [OF f] by (intro logst.equality) simp_all
qed (use f in \<open>simp_all add: bio_frame_def\<close>)

lemma wrote_lh_n:
  assumes "wrote p P ws s t"
  shows "wrote p P ws (s\<lparr>lh_n := n\<rparr>) (t\<lparr>lh_n := n\<rparr>)"
  using assms bio_frame_lh_n [of s t n] by (simp add: wrote_def same_buf_def)

lemma commit_spec:
  assumes inv: "log_inv p P {} s" and n: "0 < lh_n s"
  shows "\<exists>t. commit s = Ret () t \<and> lh_n t = 0 \<and> wrote p {} (commit_writes s) (s\<lparr>lh_n := 0\<rparr>) t
    \<and> (\<forall>b. \<not> in_log s b \<longrightarrow> view t b = view s b)"
proof -
  note d = log_invD [OF inv] and pins = log_inv_pins [OF inv]
  let ?n = "nat (lh_n s)"
  have n': "int ?n \<le> lg_size s - 1" using d(4,5) by simp
  from write_log_loop [OF d(1,2) pins(3) pins(4) pins(5) n']
  obtain t1 where t1: "write_log s = Ret () t1" "wrote p P (log_writes ?n s) s t1"
    by (auto simp: write_log_def)
  note w1 = wrote_inv [OF t1(2)] and lf1 = logst_frame [OF wrote_inv(2) [OF t1(2)]]
    and g1 = log_frame [OF wrote_inv(2) [OF t1(2)]]
  have pos: "1 \<le> lg_size s" using d(2) by (simp add: log_geom_def)
  then have hb: "in_log s (logblk s 0)" by (intro logblk_in_log [OF d(2)]) simp
  have blk1: "b_blockno (bufs t1 i) = b_blockno (bufs s i)" if "i \<in> P" for i
    using w1(4) [OF that] by (simp add: same_buf_def)
  have "b_blockno (bufs t1 i) \<noteq> of_int (lg_start t1)" if "i \<in> P" for i
    using pins(5) [OF that] blk1 [OF that] hb by (auto simp: logblk_Suc(2) lf1)
  moreover have "lg_dev t1 = ROOTDEV" using d(2) lf1 by (simp add: log_geom_def)
  ultimately obtain t2 where t2: "write_head t1 = Ret () t2" "wrote p P [(logblk s 0,
     mk_hdr (lh_n s) (lh_block s) (view t1 (logblk s 0)))] t1 t2"
    using write_head_spec [OF w1(1) _ pins(3)] by (auto simp: logblk_Suc(2) lf1)
  have "logblk s 0 \<notin> fst ` set (log_writes ?n s)"
  proof
    assume "logblk s 0 \<in> fst ` set (log_writes ?n s)"
    then obtain k where "k < ?n" "logblk s 0 = logblk s (Suc k)" by (auto simp: log_writes_def)
    then show False using n' logblk_inj [OF d(2), of 0 "Suc k"] by simp
  qed
  then have v0: "view t1 (logblk s 0) = view s (logblk s 0)" unfolding w1(3) by (rule apply_writes_other)
  have t2': "wrote p P (log_writes ?n s @ [(logblk s 0, full_hdr s)]) s t2"
    using wrote_trans [OF t1(2) t2(2) [unfolded v0]] by (simp add: full_hdr_def)
  note w2 = wrote_inv [OF t2'] and lf2 = logst_frame [OF wrote_inv(2) [OF t2']]
    and g2 = log_frame [OF wrote_inv(2) [OF t2']]
  have blk2: "b_blockno (bufs t2 i) = b_blockno (bufs s i)" if "i \<in> P" for i
    using w2(4) [OF that] by (simp add: same_buf_def)
  have hv: "view t2 (logblk s (Suc k)) = view s (lh_block s k)" if "k < ?n" for k
  proof -
    have "int (Suc k) < lg_size s" using that n' by linarith
    then have "logblk s (Suc k) \<noteq> logblk s 0" using logblk_inj [OF d(2), of "Suc k" 0] pos by simp
    then show ?thesis unfolding w2(3) using apply_log_writes [OF d(2) n' that] by simp
  qed
  have hw: "home_writes ?n t2 = map (\<lambda>k. (lh_block s k, view s (lh_block s k))) [0..<?n]"
    using hv by (simp add: home_writes_def lf2 g2)
  have left: "pinned_left P ?n t2 = {}"
    using blk2 d(8) by (auto simp: pinned_left_def lf2)
  have "\<exists>t3. for_each [0..<?n] (install_one False) t2 = Ret () t3
    \<and> wrote p (pinned_left P ?n t2) (home_writes ?n t2) t2 t3"
    using w2(1) d(2) pins n' d(6,7) blk2
    by (intro install_loop) (auto simp: lf2 g2)
  then obtain t3 where t3: "install_trans False t2 = Ret () t3"
    "wrote p {} (map (\<lambda>k. (lh_block s k, view s (lh_block s k))) [0..<?n]) t2 t3"
    unfolding left hw by (auto simp: install_trans_def lf2)
  have t3': "wrote p {} ((log_writes ?n s @ [(logblk s 0, full_hdr s)])
      @ map (\<lambda>k. (lh_block s k, view s (lh_block s k))) [0..<?n]) s t3"
    by (rule wrote_trans [OF t2' t3(2)]) simp
  note w3 = wrote_inv [OF t3'] and lf3 = logst_frame [OF wrote_inv(2) [OF t3']]
  have "b_blockno (bufs t3 i) \<noteq> x" if "i \<in> {}" for i x using that by simp
  moreover have "lg_dev t3 = ROOTDEV" using d(2) lf3 by (simp add: log_geom_def)
  moreover have "bc_inv p {} {} (t3\<lparr>lh_n := 0\<rparr>)" using w3(1) by simp
  ultimately obtain t where t: "write_head (t3\<lparr>lh_n := 0\<rparr>) = Ret () t" "wrote p {} [(logblk s 0,
     mk_hdr 0 (lh_block s) (view t3 (logblk s 0)))] (t3\<lparr>lh_n := 0\<rparr>) t"
    using write_head_spec [of p "{}" "t3\<lparr>lh_n := 0\<rparr>"] by (auto simp: logblk_Suc(2) lf3 NBUF_def)
  have "logblk s 0 \<notin> fst ` set (map (\<lambda>k. (lh_block s k, view s (lh_block s k))) [0..<?n])"
    using d(7) hb by auto
  then have v3: "view t3 (logblk s 0) = full_hdr s"
    unfolding w3(3) by (simp add: apply_writes_other)
  from wrote_trans [OF wrote_lh_n [OF t3'] t(2) [unfolded v3]]
  have fin: "wrote p {} (commit_writes s) (s\<lparr>lh_n := 0\<rparr>) t" by (simp add: commit_writes_def)
  have "view t b = view s b" if "\<not> in_log s b" for b
  proof -
    have b: "b \<noteq> logblk s 0" using that hb by auto
    have "b \<notin> fst ` set (log_writes ?n s)"
    proof
      assume "b \<in> fst ` set (log_writes ?n s)"
      then obtain k where "k < ?n" "b = logblk s (Suc k)" by (auto simp: log_writes_def)
      then show False using that n' logblk_in_log [OF d(2), of "Suc k"] by simp
    qed
    then have "apply_writes (log_writes ?n s) (view s) b = view s b" by (rule apply_writes_other)
    then have "view t3 b = view s b"
      unfolding w3(3) using b by (simp add: apply_map_same)
    moreover have "view t b = view t3 b" using wrote_inv(3) [OF t(2)] b by simp
    ultimately show ?thesis by simp
  qed
  moreover have "lh_n t = 0" using logst_frame [OF wrote_inv(2) [OF t(2)]] by simp
  moreover have "commit s = Ret () t" using n t1(1) t2(1) t3(1) t(1) by (simp add: commit_def)
  ultimately show ?thesis using fin by blast
qed


subsection \<open>Recovery\<close>

definition rec_writes :: "(nat \<Rightarrow> u32) \<Rightarrow> (u32 \<Rightarrow> block) \<Rightarrow> (u32 \<times> block) list" where
  "rec_writes L D = map (\<lambda>k. (hdr_block (D (L 0)) k, D (L (Suc k)))) [0..<nat (hdr_n (D (L 0)))]
     @ [(L 0, st32 0 0 (D (L 0)))]"

lemma mk_hdr_0: "mk_hdr 0 f d = st32 0 0 d"
  by (simp add: mk_hdr_def)

lemma hdr_n_empty [simp]: "hdr_n (st32 0 0 d) = 0"
  by (simp add: hdr_n_def)

lemma fold_lh_block:
  "fold (\<lambda>i s. s\<lparr>lh_block := (lh_block s)(i := h i)\<rparr>) xs s
    = s\<lparr>lh_block := fold (\<lambda>i f. f(i := h i)) xs (lh_block s)\<rparr>"
  by (induction xs arbitrary: s) simp_all

lemma fold_upd_apply: "fold (\<lambda>i f. f(i := h i)) xs f k = (if k \<in> set xs then h k else f k)"
  by (induction xs arbitrary: f) auto

lemma read_head_spec:
  assumes inv: "bc_inv p {} {} s" and dev: "lg_dev s = ROOTDEV"
  shows "\<exists>t g. read_head s = Ret () t
    \<and> wrote p {} [] (s\<lparr>lh_n := hdr_n (view s (logblk s 0)), lh_block := g\<rparr>) t
    \<and> (\<forall>k<nat (hdr_n (view s (logblk s 0))). g k = hdr_block (view s (logblk s 0)) k)"
proof -
  let ?d = "view s (logblk s 0)"
  let ?g = "fold (\<lambda>i f. f(i := hdr_block ?d i)) [0..<nat (hdr_n ?d)] (lh_block s)"
  from bread_spec [OF inv, of "logblk s 0"]
  obtain i t1 where r: "bread ROOTDEV (logblk s 0) s = Ret i t1" "bc_inv p {} {i} t1"
    "b_blockno (bufs t1 i) = logblk s 0" "b_data (bufs t1 i) = ?d" "view t1 = view s"
    "bio_frame s t1" "disk t1 = disk s" "dwrites t1 = dwrites s" by (auto simp: NBUF_def)
  let ?t1 = "t1\<lparr>lh_n := hdr_n ?d, lh_block := ?g\<rparr>"
  have "?d = disk s (logblk s 0)" using inv by (intro view_clean [of "{}" "{}"]) (auto simp: bc_inv_def)
  then have "b_data (bufs ?t1 i) = disk ?t1 (b_blockno (bufs ?t1 i))" using r by simp
  then obtain t where t: "brelse i ?t1 = Ret () t" "bc_inv p {} {} t" "view t = view ?t1"
    "bio_frame ?t1 t" "disk t = disk ?t1" "dwrites t = dwrites ?t1"
    using brelse_spec [of p "{}" "{i}" ?t1 i] r(2) by auto
  have "read_head s = Ret () t"
    using r(1,4) t(1) dev logst_frame [OF r(6)]
    by (simp add: read_head_def Let_def fold_lh_block logblk_Suc(2))
  moreover have "bio_frame (s\<lparr>lh_n := hdr_n ?d, lh_block := ?g\<rparr>) ?t1"
    unfolding bio_frame_def
  proof (intro conjI allI impI)
    show "?t1 = s\<lparr>lh_n := hdr_n ?d, lh_block := ?g\<rparr>\<lparr>sleeplocks := sleeplocks ?t1, procs := procs ?t1,
        bufs := bufs ?t1, disk := disk ?t1, dwrites := dwrites ?t1\<rparr>"
      using bio_frame_more(1-9) [OF r(6)] logst_frame [OF r(6)] by (intro logst.equality) simp_all
  qed (use r(6) in \<open>simp_all add: bio_frame_def\<close>)
  then have "bio_frame (s\<lparr>lh_n := hdr_n ?d, lh_block := ?g\<rparr>) t" using t(4) by (rule bio_frame_trans)
  ultimately show ?thesis using t r by (auto simp: wrote_def fold_upd_apply)
qed

lemma recover_spec:
  assumes inv: "bc_inv p {} {} s" and geom: "log_geom s"
    and n: "0 \<le> hdr_n (view s (logblk s 0))" "hdr_n (view s (logblk s 0)) \<le> lg_size s - 1"
    and out: "\<And>k. k < nat (hdr_n (view s (logblk s 0))) \<Longrightarrow> \<not> in_log s (hdr_block (view s (logblk s 0)) k)"
  shows "\<exists>t. recover_from_log s = Ret () t \<and> lh_n t = 0 \<and> bc_inv p {} {} t \<and> log_geom t
    \<and> disk t = apply_writes (rec_writes (logblk s) (disk s)) (disk s)
    \<and> dwrites t = dwrites s @ rec_writes (logblk s) (disk s)"
proof -
  let ?d = "view s (logblk s 0)"
  let ?n = "nat (hdr_n ?d)"
  have dev: "lg_dev s = ROOTDEV" using geom by (simp add: log_geom_def)
  have clean: "view s b = disk s b" for b
    using inv by (intro view_clean [of "{}" "{}"]) (auto simp: bc_inv_def)
  from read_head_spec [OF inv dev] obtain t1 g where t1: "read_head s = Ret () t1"
    "wrote p {} [] (s\<lparr>lh_n := hdr_n ?d, lh_block := g\<rparr>) t1" "\<forall>k<?n. g k = hdr_block ?d k" by blast
  note w1 = wrote_inv [OF t1(2)]
  have lf1: "lg_start t1 = lg_start s" "lg_size t1 = lg_size s" "lg_dev t1 = lg_dev s"
    "lh_n t1 = hdr_n ?d" "lh_block t1 = g" using logst_frame [OF w1(2)] by simp_all
  have g1: "log_geom t1" "logblk t1 = logblk s" "in_log t1 = in_log s"
    using geom lf1 by (simp_all add: log_geom_def logblk_def fun_eq_iff in_log_def)
  have "\<exists>t2. for_each [0..<?n] (install_one True) t1 = Ret () t2
      \<and> wrote p (pinned_left {} ?n t1) (home_writes ?n t1) t1 t2"
    using w1(1) g1 n out t1(3) by (intro install_loop) (auto simp: NBUF_def lf1)
  then obtain t2 where t2: "install_trans True t1 = Ret () t2" "wrote p {} (home_writes ?n t1) t1 t2"
    by (auto simp: install_trans_def lf1 pinned_left_def)
  note w2 = wrote_inv [OF t2(2)] and lf2 = logst_frame [OF wrote_inv(2) [OF t2(2)]]
  have hw: "home_writes ?n t1 = map (\<lambda>k. (hdr_block ?d k, view s (logblk s (Suc k)))) [0..<?n]"
    using t1(3) w1(3) by (auto simp: home_writes_def lf1 g1)
  have "in_log s (logblk s 0)" using geom by (intro logblk_in_log) (auto simp: log_geom_def)
  have "logblk s 0 \<notin> fst ` set (home_writes ?n t1)"
  proof
    assume "logblk s 0 \<in> fst ` set (home_writes ?n t1)"
    then obtain k where "k < ?n" "logblk s 0 = hdr_block ?d k" unfolding hw by auto
    then show False using out [of k] \<open>in_log s (logblk s 0)\<close> by simp
  qed
  then have v2: "view t2 (logblk s 0) = ?d"
    using w2(3) w1(3) by (simp add: apply_writes_other)
  have "bc_inv p {} {} (t2\<lparr>lh_n := 0\<rparr>)" using w2(1) by simp
  then obtain t where t: "write_head (t2\<lparr>lh_n := 0\<rparr>) = Ret () t"
    "wrote p {} [(logblk s 0, st32 0 0 ?d)] (t2\<lparr>lh_n := 0\<rparr>) t"
    using write_head_spec [of p "{}" "t2\<lparr>lh_n := 0\<rparr>"] dev v2
    by (auto simp: lf2 lf1 NBUF_def logblk_Suc(2) mk_hdr_0)
  from wrote_trans [OF wrote_lh_n [OF t2(2)] t(2)]
  have w: "wrote p {} (home_writes ?n t1 @ [(logblk s 0, st32 0 0 ?d)]) (t1\<lparr>lh_n := 0\<rparr>) t" by simp
  have rw: "rec_writes (logblk s) (disk s) = home_writes ?n t1 @ [(logblk s 0, st32 0 0 ?d)]"
    unfolding rec_writes_def hw unfolding clean ..
  have "disk t1 = disk s" "dwrites t1 = dwrites s" using t1(2) by (simp_all add: wrote_def)
  then have "disk t = apply_writes (rec_writes (logblk s) (disk s)) (disk s)"
    "dwrites t = dwrites s @ rec_writes (logblk s) (disk s)"
    using w unfolding rw by (simp_all add: wrote_def)
  moreover have "recover_from_log s = Ret () t"
    using t1(1) t2(1) t(1) by (simp add: recover_from_log_def)
  moreover have "log_geom t" "lh_n t = 0" "bc_inv p {} {} t"
    using w g1(1) logst_frame [OF wrote_inv(2) [OF w]] by (simp_all add: wrote_def log_geom_def)
  ultimately show ?thesis by blast
qed


subsection \<open>Crashes\<close>

text \<open>The three kinds of disk a crash during the commit of \<open>s\<close>, or during recovery from such a crash,
  leaves behind: not committed; committed, with home blocks installed or not; committed, installed
  and erased from the log.\<close>

definition uncommitted :: "'m logst_scheme \<Rightarrow> (u32 \<Rightarrow> block) \<Rightarrow> bool" where
  "uncommitted s D \<longleftrightarrow> hdr_n (D (logblk s 0)) = 0 \<and> (\<forall>b. \<not> in_log s b \<longrightarrow> D b = disk s b)"

definition committed :: "'m logst_scheme \<Rightarrow> (u32 \<Rightarrow> block) \<Rightarrow> bool" where
  "committed s D \<longleftrightarrow> D (logblk s 0) = full_hdr s
     \<and> (\<forall>k<nat (lh_n s). D (logblk s (Suc k)) = view s (lh_block s k))
     \<and> (\<forall>b. \<not> in_log s b \<longrightarrow> D b = view s b \<or> b \<in> lh_block s ` {..<nat (lh_n s)})"

definition installed :: "'m logst_scheme \<Rightarrow> (u32 \<Rightarrow> block) \<Rightarrow> bool" where
  "installed s D \<longleftrightarrow> hdr_n (D (logblk s 0)) = 0 \<and> (\<forall>b. \<not> in_log s b \<longrightarrow> D b = view s b)"

lemma apply_map_hit:
  "b \<in> f ` set ks \<Longrightarrow> apply_writes (map (\<lambda>k. (f k, d (f k))) ks) e b = d b"
proof (induction ks arbitrary: e)
  case (Cons k ks)
  then show ?case by (cases "b \<in> f ` set ks") (auto simp: apply_writes_other image_image)
qed simp


lemma log_area:
  assumes inv: "log_inv p P H s"
  shows "in_log s (logblk s 0)" "k < nat (lh_n s) \<Longrightarrow> in_log s (logblk s (Suc k))"
    "k < nat (lh_n s) \<Longrightarrow> logblk s (Suc k) \<noteq> logblk s 0"
proof -
  note d = log_invD [OF inv]
  have "int 0 < lg_size s" using d(2) by (simp add: log_geom_def)
  then show "in_log s (logblk s 0)" using d(2) by (intro logblk_in_log)
  assume "k < nat (lh_n s)"
  then have k: "int (Suc k) < lg_size s" using d(4,5) by linarith
  then show "in_log s (logblk s (Suc k))" using d(2) by (intro logblk_in_log)
  show "logblk s (Suc k) \<noteq> logblk s 0" using logblk_inj [OF d(2) k, of 0] \<open>int 0 < lg_size s\<close> by simp
qed

lemma log_area_disjoint:
  assumes inv: "log_inv p P H s"
  shows "\<not> in_log s b \<or> b = logblk s 0 \<Longrightarrow> b \<notin> (\<lambda>k. logblk s (Suc k)) ` {..<nat (lh_n s)}"
    and "in_log s b \<Longrightarrow> b \<notin> lh_block s ` {..<nat (lh_n s)}"
proof -
  assume b: "\<not> in_log s b \<or> b = logblk s 0"
  show "b \<notin> (\<lambda>k. logblk s (Suc k)) ` {..<nat (lh_n s)}"
  proof
    assume "b \<in> (\<lambda>k. logblk s (Suc k)) ` {..<nat (lh_n s)}"
    then obtain k where "k < nat (lh_n s)" "b = logblk s (Suc k)" by blast
    then show False using b log_area(2,3) [OF inv, of k] by auto
  qed
next
  assume b: "in_log s b"
  show "b \<notin> lh_block s ` {..<nat (lh_n s)}"
  proof
    assume "b \<in> lh_block s ` {..<nat (lh_n s)}"
    then obtain k where "k < nat (lh_n s)" "b = lh_block s k" by blast
    then show False using b log_invD(7) [OF inv, of k] by simp
  qed
qed

lemma unpinned_clean:
  assumes inv: "log_inv p P {} s" and "b \<notin> lh_block s ` {..<nat (lh_n s)}"
  shows "view s b = disk s b"
proof -
  have "\<not> holds_block s i b" if "i \<in> P \<union> {}" for i
    using log_invD(8) [OF inv] assms(2) that by (auto simp: holds_block_def)
  then show ?thesis using log_invD(1) [OF inv] by (intro view_clean) (auto simp: bc_inv_def)
qed

lemma hdr_of_full:
  assumes "log_inv p P H s"
  shows "hdr_n (full_hdr s) = lh_n s" "k < nat (lh_n s) \<Longrightarrow> hdr_block (full_hdr s) k = lh_block s k"
  using log_invD(3,4,5) [OF assms] by (simp_all add: full_hdr_def LOGSIZE_def MAXOPBLOCKS_def)

lemma crash_before:
  assumes inv: "log_inv p P {} s" and empty: "hdr_n (disk s (logblk s 0)) = 0" and k: "k \<le> nat (lh_n s)"
  shows "uncommitted s (apply_writes (take k (commit_writes s)) (disk s))"
proof -
  have tk: "take k (commit_writes s) = take k (log_writes (nat (lh_n s)) s)"
    using k by (simp add: commit_writes_def log_writes_def)
  have sub: "fst ` set (take k (commit_writes s)) \<subseteq> (\<lambda>k. logblk s (Suc k)) ` {..<nat (lh_n s)}"
    unfolding tk using set_take_subset [of k "log_writes (nat (lh_n s)) s"]
    by (auto simp: log_writes_def)
  have "b \<notin> fst ` set (take k (commit_writes s))" if "\<not> in_log s b \<or> b = logblk s 0" for b
    using sub log_area_disjoint(1) [OF inv that] by (rule contra_subsetD)
  then show ?thesis using empty by (simp add: uncommitted_def apply_writes_other)
qed

lemma committed_other:
  "committed s D \<Longrightarrow> \<not> in_log s b \<Longrightarrow> b \<notin> lh_block s ` {..<nat (lh_n s)} \<Longrightarrow> D b = view s b"
  unfolding committed_def by blast

lemma committed_home:
  assumes inv: "log_inv p P {} s" and c: "committed s D"
  shows "committed s (apply_writes (take j (map (\<lambda>k. (lh_block s k, view s (lh_block s k)))
     [0..<nat (lh_n s)])) D)"
proof -
  let ?ws = "take j (map (\<lambda>k. (lh_block s k, view s (lh_block s k))) [0..<nat (lh_n s)])"
  have sub: "fst ` set ?ws \<subseteq> lh_block s ` {..<nat (lh_n s)}"
    using set_take_subset [of j "map (\<lambda>k. (lh_block s k, view s (lh_block s k))) [0..<nat (lh_n s)]"]
    by auto
  have out: "b \<notin> fst ` set ?ws" if "in_log s b \<or> b \<notin> lh_block s ` {..<nat (lh_n s)}" for b
  proof -
    have "b \<notin> lh_block s ` {..<nat (lh_n s)}" using that log_area_disjoint(2) [OF inv, of b] by blast
    then show ?thesis by (rule contra_subsetD [OF sub])
  qed
  have same: "apply_writes ?ws D b = D b" if "in_log s b \<or> b \<notin> lh_block s ` {..<nat (lh_n s)}" for b
    using out [OF that] by (rule apply_writes_other)
  show ?thesis
    unfolding committed_def
  proof (intro conjI allI impI)
    show "apply_writes ?ws D (logblk s 0) = full_hdr s"
      using same [of "logblk s 0"] log_area(1) [OF inv] c by (simp add: committed_def)
    show "apply_writes ?ws D (logblk s (Suc k)) = view s (lh_block s k)" if "k < nat (lh_n s)" for k
      using same [of "logblk s (Suc k)"] log_area(2) [OF inv that] that c by (simp add: committed_def)
    show "apply_writes ?ws D b = view s b \<or> b \<in> lh_block s ` {..<nat (lh_n s)}" if "\<not> in_log s b" for b
    proof (cases "b \<in> lh_block s ` {..<nat (lh_n s)}")
      case False
      then show ?thesis using same [of b] committed_other [OF c that] by simp
    qed simp
  qed
qed

lemma crash_after:
  assumes inv: "log_inv p P {} s" and k: "nat (lh_n s) < k"
  shows "committed s (apply_writes (take k (commit_writes s)) (disk s))
     \<or> installed s (apply_writes (take k (commit_writes s)) (disk s))"
proof -
  note d = log_invD [OF inv]
  let ?n = "nat (lh_n s)" and ?home = "\<lambda>n. map (\<lambda>k. (lh_block s k, view s (lh_block s k))) [0..<n]"
  let ?D = "apply_writes (log_writes ?n s @ [(logblk s 0, full_hdr s)]) (disk s)"
  have n': "int ?n \<le> lg_size s - 1" using d(4,5) by simp
  have "?D b = disk s b" if "\<not> in_log s b" for b
  proof -
    have "fst ` set (log_writes ?n s) = (\<lambda>k. logblk s (Suc k)) ` {..<?n}"
      by (simp add: log_writes_def image_image atLeast_upt lessThan_atLeast0)
    then have "b \<notin> fst ` set (log_writes ?n s)" using log_area_disjoint(1) [OF inv] that by blast
    moreover have "b \<noteq> logblk s 0" using that log_area(1) [OF inv] by blast
    ultimately show ?thesis by (simp add: apply_writes_other)
  qed
  moreover have "?D (logblk s (Suc k)) = view s (lh_block s k)" if "k < ?n" for k
    using log_area(3) [OF inv that] apply_log_writes [OF d(2) n' that] by simp
  ultimately have c: "committed s ?D"
    using unpinned_clean [OF inv] by (auto simp: committed_def)
  obtain j where j: "k = Suc ?n + j" using k by (metis less_iff_Suc_add add_Suc)
  show ?thesis
  proof (cases "j \<le> ?n")
    case True
    then have "take k (commit_writes s) = log_writes ?n s @ [(logblk s 0, full_hdr s)] @ take j (?home ?n)"
      unfolding j commit_writes_def by (simp add: log_writes_def)
    then show ?thesis using committed_home [OF inv c, of j] by simp
  next
    case False
    then have "take k (commit_writes s) = commit_writes s"
      unfolding j commit_writes_def by (simp add: log_writes_def)
    moreover have "apply_writes (?home ?n) ?D b = view s b" if "\<not> in_log s b" for b
    proof (cases "b \<in> lh_block s ` set [0..<?n]")
      case True
      then show ?thesis by (rule apply_map_hit)
    next
      case False
      then have "apply_writes (?home ?n) ?D b = ?D b" by (intro apply_writes_other) auto
      moreover have "b \<notin> lh_block s ` {..<?n}" using False by (simp add: atLeast_upt lessThan_atLeast0)
      ultimately show ?thesis using committed_other [OF c that] by simp
    qed
    then have "installed s (apply_writes (commit_writes s) (disk s))"
      using log_area(1) [OF inv] by (auto simp: installed_def commit_writes_def mk_hdr_0)
    ultimately show ?thesis by simp
  qed
qed

lemma rec_phases:
  assumes inv: "log_inv p P {} s" and L: "L = logblk s"
  shows "uncommitted s D \<Longrightarrow> uncommitted s (apply_writes (take j (rec_writes L D)) D)"
    and "installed s D \<Longrightarrow> installed s (apply_writes (take j (rec_writes L D)) D)"
    and "committed s D \<Longrightarrow> committed s (apply_writes (take j (rec_writes L D)) D)
      \<or> installed s (apply_writes (take j (rec_writes L D)) D)"
    and "committed s D \<Longrightarrow> installed s (apply_writes (rec_writes L D) D)"
proof -
  have only: "take j (rec_writes L D) = (if j = 0 then [] else [(logblk s 0, st32 0 0 (D (logblk s 0)))])"
    if "hdr_n (D (logblk s 0)) = 0"
    using that by (cases j) (simp_all add: rec_writes_def L)
  show "uncommitted s D \<Longrightarrow> uncommitted s (apply_writes (take j (rec_writes L D)) D)"
    using only log_area(1) [OF inv] by (auto simp: uncommitted_def)
  show "installed s D \<Longrightarrow> installed s (apply_writes (take j (rec_writes L D)) D)"
    using only log_area(1) [OF inv] by (auto simp: installed_def)
  assume c: "committed s D"
  let ?n = "nat (lh_n s)" and ?home = "\<lambda>n. map (\<lambda>k. (lh_block s k, view s (lh_block s k))) [0..<n]"
  have rw: "rec_writes L D = ?home ?n @ [(logblk s 0, st32 0 0 (full_hdr s))]"
    using c hdr_of_full [OF inv] by (simp add: rec_writes_def L committed_def)
  have "apply_writes (?home ?n) D b = view s b" if "\<not> in_log s b" for b
  proof (cases "b \<in> lh_block s ` set [0..<?n]")
    case True
    then show ?thesis by (rule apply_map_hit)
  next
    case False
    then have "apply_writes (?home ?n) D b = D b" by (intro apply_writes_other) auto
    moreover have "b \<notin> lh_block s ` {..<?n}" using False by (simp add: atLeast_upt lessThan_atLeast0)
    ultimately show ?thesis using committed_other [OF c that] by simp
  qed
  then show fin: "installed s (apply_writes (rec_writes L D) D)"
    unfolding rw using log_area(1) [OF inv] by (auto simp: installed_def)
  show "committed s (apply_writes (take j (rec_writes L D)) D)
      \<or> installed s (apply_writes (take j (rec_writes L D)) D)"
  proof (cases "j \<le> ?n")
    case True
    then have "take j (rec_writes L D) = take j (?home ?n)" unfolding rw by simp
    then show ?thesis using committed_home [OF inv c, of j] by simp
  next
    case False
    then have "take j (rec_writes L D) = rec_writes L D" unfolding rw by simp
    then show ?thesis using fin by simp
  qed
qed


lemma bc_inv_initlock: "bc_inv p P H s \<Longrightarrow> bc_inv p P H (initlock l n s)"
  using bc_inv_cong(1) [of "initlock l n s" s p P H] world_init(1) [of p s l n] by (simp add: bc_inv_def)

text \<open>The log area a superblock describes is that of \<open>s\<close>.\<close>

definition log_of_sb :: "superblock \<Rightarrow> 'm logst_scheme \<Rightarrow> bool" where
  "log_of_sb sb s \<longleftrightarrow> sint (sb_logstart sb) = lg_start s \<and> sint (sb_nlog sb) = lg_size s"

lemma initlog_spec:
  assumes inv: "log_inv p P {} s" and sb: "log_of_sb sb s"
    and boot: "bc_inv q {} {} s0" and D: "uncommitted s (disk s0) \<or> committed s (disk s0) \<or> installed s (disk s0)"
  shows "\<exists>t. initlog ROOTDEV sb s0 = Ret () t \<and> lh_n t = 0 \<and> bc_inv q {} {} t \<and> log_geom t
    \<and> disk t = apply_writes (rec_writes (logblk s) (disk s0)) (disk s0)
    \<and> dwrites t = dwrites s0 @ rec_writes (logblk s) (disk s0)"
proof -
  note d = log_invD [OF inv]
  define s1 where "s1 = (initlock Lk_log ''log'' s0)\<lparr>lg_start := lg_start s, lg_size := lg_size s, lg_dev := ROOTDEV\<rparr>"
  have i: "bc_inv q {} {} s1" using bc_inv_initlock [OF boot] by (simp add: s1_def)
  have g: "log_geom s1" using d(2) by (simp add: s1_def log_geom_def)
  have L: "logblk s1 = logblk s" "in_log s1 = in_log s"
    by (simp_all add: s1_def logblk_def in_log_def fun_eq_iff)
  have size: "lg_size s1 = lg_size s" by (simp add: s1_def)
  have disk: "disk s1 = disk s0" "dwrites s1 = dwrites s0" by (simp_all add: s1_def initlock_def)
  have clean: "view s1 b = disk s0 b" for b
    using i disk by (subst view_clean [of "{}" "{}"]) (auto simp: bc_inv_def)
  have "1 \<le> lg_size s" using d(2) by (simp add: log_geom_def)
  have n: "hdr_n (disk s0 (logblk s 0)) = 0 \<or> disk s0 (logblk s 0) = full_hdr s"
    using D by (auto simp: uncommitted_def committed_def installed_def)
  have "\<exists>t. recover_from_log s1 = Ret () t \<and> lh_n t = 0 \<and> bc_inv q {} {} t \<and> log_geom t
    \<and> disk t = apply_writes (rec_writes (logblk s1) (disk s1)) (disk s1)
    \<and> dwrites t = dwrites s1 @ rec_writes (logblk s1) (disk s1)"
  proof (rule recover_spec [OF i g])
    show "0 \<le> hdr_n (view s1 (logblk s1 0))" "hdr_n (view s1 (logblk s1 0)) \<le> lg_size s1 - 1"
      using n hdr_of_full(1) [OF inv] d(4,5) \<open>1 \<le> lg_size s\<close> by (auto simp: L clean size)
    show "\<not> in_log s1 (hdr_block (view s1 (logblk s1 0)) k)"
      if "k < nat (hdr_n (view s1 (logblk s1 0)))" for k
    proof -
      have full: "disk s0 (logblk s 0) = full_hdr s" using n that by (auto simp: L clean)
      then have "k < nat (lh_n s)" using that hdr_of_full(1) [OF inv] by (simp add: L clean)
      then show ?thesis using d(7) hdr_of_full(2) [OF inv] full by (simp add: L clean)
    qed
  qed
  moreover have "initlog ROOTDEV sb s0 = recover_from_log s1"
    using sb by (simp add: initlog_def Let_def s1_def log_of_sb_def LOGSIZE_def MAXOPBLOCKS_def BSIZE_def)
  ultimately show ?thesis by (simp add: L disk)
qed

text \<open>\<open>crashed sb s c D\<close>: \<open>D\<close> is what the disk may hold after the machine was cut off during the commit
  of \<open>s\<close>, and then any number of times during the recovery at boot. \<open>c\<close> says whether the first crash
  came after the commit point, the write of the full header.\<close>

inductive crashed :: "superblock \<Rightarrow> 'm logst_scheme \<Rightarrow> bool \<Rightarrow> (u32 \<Rightarrow> block) \<Rightarrow> bool"
  for sb :: superblock and s :: "'m logst_scheme" where
  in_commit: "commit s = Ret () t \<Longrightarrow>
    crashed sb s (nat (lh_n s) < k) (apply_writes (take k (drop (length (dwrites s)) (dwrites t))) (disk s))"
| in_recovery: "crashed sb s c (disk s0) \<Longrightarrow> bc_inv q {} {} (s0 :: 'm logst_scheme) \<Longrightarrow>
    initlog ROOTDEV sb s0 = Ret () t \<Longrightarrow>
    crashed sb s c (apply_writes (take j (drop (length (dwrites s0)) (dwrites t))) (disk s0))"

lemma crashed_phases:
  assumes inv: "log_inv p P {} s" and pos: "0 < lh_n s" and sb: "log_of_sb sb s"
    and empty: "hdr_n (disk s (logblk s 0)) = 0" and "crashed sb s c D"
  shows "if c then committed s D \<or> installed s D else uncommitted s D"
  using assms(5)
proof (induction rule: crashed.induct)
  case (in_commit t k)
  obtain t' where "commit s = Ret () t'" "wrote p {} (commit_writes s) (s\<lparr>lh_n := 0\<rparr>) t'"
    using commit_spec [OF inv pos] by blast
  then have "drop (length (dwrites s)) (dwrites t) = commit_writes s"
    using in_commit by (simp add: wrote_def)
  then show ?case using crash_before [OF inv empty, of k] crash_after [OF inv, of k] by auto
next
  case (in_recovery c s0 q t j)
  then have "uncommitted s (disk s0) \<or> committed s (disk s0) \<or> installed s (disk s0)"
    by (auto split: if_splits)
  from initlog_spec [OF inv sb in_recovery(2) this] in_recovery(3)
  have "drop (length (dwrites s0)) (dwrites t) = rec_writes (logblk s) (disk s0)" by simp
  then show ?case
    using in_recovery(4) rec_phases(1-3) [OF inv refl, of "disk s0" j] by (auto split: if_splits)
qed

text \<open>C1: crash safety of the log. Cut the machine off after any number of the disk writes of a commit,
  and again after any number of writes of any number of interrupted recoveries: the next boot's
  \<open>initlog\<close> returns, leaves an empty log, and every block outside the log area has the contents from
  before the transaction if the first crash came before the header was written, and the
  transaction's contents if it came after. No mixture of the two is possible.\<close>

theorem log_crash_safe:
  assumes "log_inv p P {} s" and "0 < lh_n s" and "log_of_sb sb s"
    and "hdr_n (disk s (logblk s 0)) = 0" and "crashed sb s c (disk s0)" and "bc_inv q {} {} s0"
  shows "\<exists>t. initlog ROOTDEV sb s0 = Ret () t \<and> lh_n t = 0 \<and> hdr_n (disk t (logblk s 0)) = 0
    \<and> (\<forall>b. \<not> in_log s b \<longrightarrow> disk t b = (if c then view s b else disk s b))"
proof -
  have ph: "if c then committed s (disk s0) \<or> installed s (disk s0) else uncommitted s (disk s0)"
    using assms(1-5) by (rule crashed_phases)
  then have "uncommitted s (disk s0) \<or> committed s (disk s0) \<or> installed s (disk s0)"
    by (auto split: if_splits)
  from initlog_spec [OF assms(1,3,6) this]
  obtain t where t: "initlog ROOTDEV sb s0 = Ret () t" "lh_n t = 0"
    "disk t = apply_writes (rec_writes (logblk s) (disk s0)) (disk s0)" by blast
  let ?r = "rec_writes (logblk s) (disk s0)"
  have "if c then installed s (disk t) else uncommitted s (disk t)"
    using ph rec_phases(1,2) [OF assms(1) refl, of "disk s0" "length ?r"]
      rec_phases(4) [OF assms(1) refl, of "disk s0"] by (auto simp: t(3) split: if_splits)
  then show ?thesis using t(1,2) by (auto simp: installed_def uncommitted_def split: if_splits)
qed


subsection \<open>Operations of a transaction\<close>

text \<open>What a file-system operation inside a transaction may change of the state below it.\<close>

definition op_frame :: "'m logst_scheme \<Rightarrow> 'm logst_scheme \<Rightarrow> bool" where
  "op_frame s t \<longleftrightarrow> bio_frame (s\<lparr>lh_n := lh_n t, lh_block := lh_block t\<rparr>) t"

lemma op_frame_bio: "bio_frame s t \<Longrightarrow> op_frame s t"
proof -
  assume f: "bio_frame s t"
  have "s\<lparr>lh_n := lh_n t, lh_block := lh_block t\<rparr> = s"
    using logst_frame [OF f] by (intro logst.equality) simp_all
  then show ?thesis using f by (simp add: op_frame_def)
qed

lemma op_frame_fields:
  assumes "op_frame s t"
  shows "hart t = hart s" "intr t = intr s" "cpus t = cpus s" "locks t = locks s"
    "initproc t = initproc s" "nextpid t = nextpid s" "pmem t = pmem s" "freelist t = freelist s"
    "kend t = kend s" "pid (procs t i) = pid (procs s i)" "cwd (procs t i) = cwd (procs s i)"
    "ofile (procs t i) = ofile (procs s i)" "killed (procs t i) = killed (procs s i)"
    "pagetable (procs t i) = pagetable (procs s i)"
    "lg_start t = lg_start s" "lg_size t = lg_size s" "lg_outstanding t = lg_outstanding s"
    "lg_committing t = lg_committing s" "lg_dev t = lg_dev s" "logst.more t = logst.more s"
    "cur t = cur s" "world p t = world p s"
    "(\<forall>i<NBUF. l \<noteq> Lk_buf i) \<Longrightarrow> sleeplocks t l = sleeplocks s l"
proof -
  let ?s = "s\<lparr>lh_n := lh_n t, lh_block := lh_block t\<rparr>"
  have f: "bio_frame ?s t" using assms by (simp add: op_frame_def)
  show "hart t = hart s" "intr t = intr s" "cpus t = cpus s" "locks t = locks s"
    "initproc t = initproc s" "nextpid t = nextpid s" "pmem t = pmem s" "freelist t = freelist s"
    "kend t = kend s" "pid (procs t i) = pid (procs s i)" "cwd (procs t i) = cwd (procs s i)"
    "ofile (procs t i) = ofile (procs s i)" "killed (procs t i) = killed (procs s i)"
    "pagetable (procs t i) = pagetable (procs s i)"
    using bio_frame_more(1-9,11-15) [OF f] by simp_all
  then show "cur t = cur s" "world p t = world p s"
    by (simp_all add: cur_def world_def calm_def lock_free_def)
  show "lg_start t = lg_start s" "lg_size t = lg_size s" "lg_outstanding t = lg_outstanding s"
    "lg_committing t = lg_committing s" "lg_dev t = lg_dev s" "logst.more t = logst.more s"
    using logst_frame [OF f] by simp_all
  show "(\<forall>i<NBUF. l \<noteq> Lk_buf i) \<Longrightarrow> sleeplocks t l = sleeplocks s l"
    using f by (simp add: bio_frame_def)
qed

lemma op_frame_trans:
  assumes st: "op_frame s t" and tu: "op_frame t u"
  shows "op_frame s u"
  unfolding op_frame_def bio_frame_def
proof (intro conjI allI impI)
  show "u = s\<lparr>lh_n := lh_n u, lh_block := lh_block u, sleeplocks := sleeplocks u, procs := procs u,
      bufs := bufs u, disk := disk u, dwrites := dwrites u\<rparr>"
    using op_frame_fields(1-9,15-20) [OF st] op_frame_fields(1-9,15-20) [OF tu]
    by (intro logst.equality) simp_all
  show "procs u i = (procs (s\<lparr>lh_n := lh_n u, lh_block := lh_block u\<rparr>) i)\<lparr>pstate := pstate (procs u i)\<rparr>" for i
  proof -
    have 1: "procs u i = (procs t i)\<lparr>pstate := pstate (procs u i)\<rparr>"
      using tu by (simp add: op_frame_def bio_frame_def)
    have 2: "procs t i = (procs s i)\<lparr>pstate := pstate (procs t i)\<rparr>"
      using st by (simp add: op_frame_def bio_frame_def)
    have "procs u i = (procs s i)\<lparr>pstate := pstate (procs t i)\<rparr>\<lparr>pstate := pstate (procs u i)\<rparr>"
      using 1 2 by metis
    then show ?thesis by simp
  qed
qed (use op_frame_fields(23) [OF st] op_frame_fields(23) [OF tu] in simp)

lemma log_write_spec:
  assumes inv: "log_inv p P H s" and i: "i \<in> H" and room: "lh_n s < lg_size s - 1"
    and out: "1 \<le> lg_outstanding s" and home: "\<not> in_log s (b_blockno (bufs s i))"
  shows "\<exists>t. log_write i s = Ret () t \<and> log_inv p (insert i P) H t
    \<and> lh_n t = (if i \<in> P then lh_n s else lh_n s + 1) \<and> view t = view s \<and> disk t = disk s
    \<and> dwrites t = dwrites s \<and> op_frame s t \<and> (\<forall>j. same_buf s t j)"
proof -
  note d = log_invD [OF inv] and pins = log_inv_pins [OF inv]
  let ?n = "nat (lh_n s)" and ?b = "b_blockno (bufs s i)"
  have w: "world p s" using d(1) by (simp add: bc_inv_def)
  have logged: "?b \<in> lh_block s ` {..<?n} \<longleftrightarrow> i \<in> P"
  proof
    assume "?b \<in> lh_block s ` {..<?n}"
    then obtain j where j: "j \<in> P" "?b = b_blockno (bufs s j)" unfolding d(8) [symmetric] by blast
    then have "i = j" using i by (intro held_unique [OF d(1)]) auto
    then show "i \<in> P" using j by simp
  qed (use d(8) in blast)
  have small: "lh_n s < LOGSIZE" using room d(3) by linarith
  show ?thesis
  proof (cases "i \<in> P")
    case True
    then have "?b \<in> lh_block s ` {..<?n}" using logged by blast
    then obtain k where k: "k < ?n" "lh_block s k = ?b" by (metis imageE lessThan_iff)
    have "inj_on (lh_block s) {0..<?n}" using d(6) by (simp add: distinct_map)
    then have uniq: "j = k" if "j < ?n" "lh_block s j = ?b" for j
      using that k by (auto dest!: inj_onD [of _ _ j k])
    have f: "find (\<lambda>i'. lh_block s i' = ?b) [0..<?n] = Some k"
    proof (rule find_unique)
      show "k \<in> set [0..<?n]" using k(1) by simp
    qed (use uniq k(2) in simp_all)
    have "(lh_block s)(k := ?b) = lh_block s" using k by auto
    then have same: "s\<lparr>lh_block := (lh_block s)(k := ?b)\<rparr> = s" by (simp add: logst.equality)
    have "log_write i s = Ret () s"
      using worldD [OF w] small room out f k(1) same by (simp add: log_write_def Let_def)
    moreover have "op_frame s s" by (rule op_frame_bio) (simp add: bio_frame_def)
    ultimately show ?thesis using inv True by (auto simp: insert_absorb)
  next
    case False
    then have none: "find (\<lambda>i'. lh_block s i' = ?b) [0..<?n] = None"
      unfolding find_None_iff using logged False
      by (metis atLeastLessThan_iff imageI lessThan_iff set_upt)
    let ?s1 = "s\<lparr>lh_block := (lh_block s)(?n := ?b)\<rparr>"
    have "bc_inv p P H ?s1" using d(1) by simp
    from bpin_spec [OF this i False]
    obtain t1 where t1: "bpin i ?s1 = Ret () t1" "bc_inv p (insert i P) H t1" "view t1 = view s"
      "bio_frame ?s1 t1" "disk t1 = disk s" "dwrites t1 = dwrites s" "\<forall>j. same_buf ?s1 t1 j" by auto
    let ?t = "t1\<lparr>lh_n := lh_n s + 1\<rparr>"
    note lf = logst_frame [OF t1(4)]
    have w1: "world p t1" using t1(2) by (simp add: bc_inv_def)
    have "lock_free Lk_log t1" using worldD(2) [OF w1] by simp
    moreover have "bpin i (lock_on Lk_log ?s1) = Ret () (lock_on Lk_log t1)"
    proof -
      have "world p ?s1" using w by simp
      from worldD [OF this] have c: "calm ?s1" "lock_free Lk_bcache ?s1" by blast+
      then have "t1 = upd_buf i (\<lambda>x. x\<lparr>b_refcnt := b_refcnt x + 1\<rparr>) ?s1"
        using t1(1) by (simp add: bpin_eq)
      then show ?thesis using c by (simp add: bpin_eq)
    qed
    ultimately have "log_write i s = Ret () ?t"
      using worldD [OF w] worldD [OF w1] small room out none lf
      by (simp add: log_write_def Let_def)
    moreover have "log_inv p (insert i P) H ?t"
      unfolding log_inv_def
    proof (intro conjI allI impI)
      have [simp]: "nat (lh_n s + 1) = Suc ?n" using d(4) by simp
      have g: "log_geom ?t = log_geom s" "in_log ?t = in_log s"
        by (simp_all add: log_geom_def in_log_def fun_eq_iff lf)
      have blk: "b_blockno (bufs t1 j) = b_blockno (bufs s j)" for j
        using t1(7) by (simp add: same_buf_def)
      have new: "?b \<notin> lh_block s ` {..<?n}" using logged False by blast
      show "bc_inv p (insert i P) H ?t" using t1(2) by simp
      show "log_geom ?t" using d(2) by (simp only: g)
      show "lg_size ?t \<le> LOGSIZE" "0 \<le> lh_n ?t" "lh_n ?t \<le> lg_size ?t - 1"
        using d(3,4) room by (simp_all add: lf)
      have "lh_block s ` {0..<?n} = lh_block s ` {..<?n}" by (simp add: lessThan_atLeast0)
      then show "distinct (map (lh_block ?t) [0..<nat (lh_n ?t)])"
        using d(6) new by (simp add: lf distinct_map inj_on_def)
      show "\<not> in_log ?t (lh_block ?t k)" if "k < nat (lh_n ?t)" for k
        using that d(7) home by (auto simp: g lf less_Suc_eq)
      have "lh_block ?t ` {..<nat (lh_n ?t)} = insert ?b (lh_block s ` {..<?n})"
        by (auto simp: lf lessThan_Suc)
      then show "(\<lambda>j. b_blockno (bufs ?t j)) ` insert i P = lh_block ?t ` {..<nat (lh_n ?t)}"
        using d(8) by (simp add: blk)
    qed
    moreover have "op_frame s ?t"
    proof -
      have "s\<lparr>lh_n := lh_n s + 1, lh_block := lh_block t1\<rparr> = ?s1\<lparr>lh_n := lh_n s + 1\<rparr>"
        by (intro logst.equality) (simp_all add: lf)
      then show ?thesis using bio_frame_lh_n [OF t1(4), of "lh_n s + 1"] by (simp add: op_frame_def)
    qed
    ultimately show ?thesis using t1 False by (auto simp: same_buf_def)
  qed
qed


lemma log_inv_counters [simp]:
  "log_inv p P H (s\<lparr>lg_outstanding := a\<rparr>) = log_inv p P H s"
  "log_inv p P H (s\<lparr>lg_committing := b\<rparr>) = log_inv p P H s"
  "log_inv p P H (s\<lparr>procs := wake_procs ch q (procs s)\<rparr>) = log_inv p P H s"
  by (simp_all add: log_inv_def log_geom_def in_log_def)

text \<open>What \<open>begin_op\<close> does in each situation: it joins the transaction, or it sleeps because a commit is
  running or the reservations of the running operations might exhaust the log.\<close>

lemma begin_op_eq:
  assumes "world p s"
  shows "begin_op s =
    (if lg_committing s \<noteq> 0 \<or> lh_n s + (lg_outstanding s + 1) * MAXOPBLOCKS > LOGSIZE
     then sleep Ch_log Lk_log (lock_on Lk_log s)
     else Ret () (s\<lparr>lg_outstanding := lg_outstanding s + 1\<rparr>))"
  using worldD [OF assms] by (simp add: begin_op_def begin_op_turn_def)

lemma end_op_last:
  assumes inv: "log_inv p P {} s" and last: "lg_outstanding s = 1" "lg_committing s = 0"
  shows "\<exists>t. end_op s = Ret () t \<and> log_inv p {} {} t \<and> lh_n t = 0 \<and> lg_outstanding t = 0
    \<and> lg_committing t = 0 \<and> dwrites t = dwrites s @ (if 0 < lh_n s then commit_writes s else [])
    \<and> (\<forall>b. \<not> in_log s b \<longrightarrow> disk t b = view s b \<and> view t b = view s b)
    \<and> logst.more t = logst.more s"
proof -
  let ?s = "s\<lparr>lg_outstanding := 0, lg_committing := 1\<rparr>"
  have w: "world p s" using log_invD(1) [OF inv] by (simp add: bc_inv_def)
  have i: "log_inv p P {} ?s" using inv by simp
  have cw: "commit_writes ?s = commit_writes s" "in_log ?s = in_log s"
    by (simp_all add: commit_writes_def log_writes_def logblk_def full_hdr_def in_log_def fun_eq_iff)
  obtain t where t: "commit ?s = Ret () t" "lh_n t = 0"
    "wrote p {} (if 0 < lh_n s then commit_writes s else []) (?s\<lparr>lh_n := 0\<rparr>) t"
    "\<forall>b. \<not> in_log s b \<longrightarrow> view t b = view s b"
  proof (cases "0 < lh_n s")
    case True
    then have "0 < lh_n ?s" by simp
    from commit_spec [OF i this] True show ?thesis using that by (auto simp: cw)
  next
    case False
    then have z: "lh_n s = 0" using log_invD(4) [OF inv] by simp
    then have "P = {}" using log_invD(8) [OF inv] by simp
    moreover have "?s\<lparr>lh_n := 0\<rparr> = ?s" using z by (simp add: logst.equality)
    ultimately have "wrote p {} [] (?s\<lparr>lh_n := 0\<rparr>) ?s"
      using log_invD(1) [OF inv] by (simp add: wrote_def bio_frame_def)
    then show ?thesis using that [of ?s] False z by (simp add: commit_def)
  qed
  note w3 = wrote_inv [OF t(3)] and lf = logst_frame [OF wrote_inv(2) [OF t(3)]]
  have wt: "world p t" using w3(1) by (simp add: bc_inv_def)
  define u where "u = t\<lparr>lg_committing := 0, procs := wake_procs Ch_log (cur t) (procs t)\<rparr>"
  have "end_op s = Ret () u"
    using worldD [OF w] worldD [OF wt] last t(1)
    by (simp add: end_op_def Let_def u_def)
  moreover have "log_inv p {} {} t"
    using w3(1) log_invD(2,3) [OF inv] lf
    by (simp add: log_inv_def log_geom_def t(2))
  then have "log_inv p {} {} u"
    using log_inv_counters(3) [where s = "t\<lparr>lg_committing := 0\<rparr>" and q = "cur t" and p = p] by (simp add: u_def)
  moreover have "disk t b = view t b" for b
    using w3(1) by (subst view_clean [of "{}" "{}"]) (auto simp: bc_inv_def)
  moreover have "dwrites t = dwrites s @ (if 0 < lh_n s then commit_writes s else [])"
    using t(3) by (simp add: wrote_def)
  ultimately show ?thesis using t(2,4) lf by (auto simp: u_def)
qed

lemma end_op_more:
  assumes inv: "log_inv p P {} s" and more: "1 < lg_outstanding s" "lg_committing s = 0"
  shows "end_op s = Ret () (s\<lparr>lg_outstanding := lg_outstanding s - 1,
    procs := wake_procs Ch_log (Some p) (procs s)\<rparr>)"
proof -
  have w: "world p s" using log_invD(1) [OF inv] by (simp add: bc_inv_def)
  show ?thesis using worldD [OF w] more by (simp add: end_op_def Let_def)
qed

subsection \<open>Properties\<close>


text \<open>C2: the \<open>end_op\<close> of the last running operation commits: it returns with the log empty, every block
  outside the log area on the disk as the processes saw it, all buffers unpinned, and having made
  exactly the disk writes of one commit.\<close>

theorem end_op_commits:
  assumes "log_inv p P {} s" and "lg_outstanding s = 1" and "lg_committing s = 0"
  shows "\<exists>t. end_op s = Ret () t \<and> log_inv p {} {} t \<and> lh_n t = 0 \<and> lg_outstanding t = 0
    \<and> lg_committing t = 0 \<and> dwrites t = dwrites s @ (if 0 < lh_n s then commit_writes s else [])
    \<and> (\<forall>b. \<not> in_log s b \<longrightarrow> disk t b = view s b \<and> view t b = view s b)"
  using end_op_last [OF assms] by blast

text \<open>A file-system call that ends while others run leaves the commit to them: no disk write is made
  and the calls waiting for log space are woken.\<close>

theorem end_op_defers:
  assumes "log_inv p P {} s" and "1 < lg_outstanding s" and "lg_committing s = 0"
  shows "end_op s = Ret () (s\<lparr>lg_outstanding := lg_outstanding s - 1,
    procs := wake_procs Ch_log (Some p) (procs s)\<rparr>)"
  using assms by (rule end_op_more)

text \<open>C4: the reservation of \<open>begin_op\<close> does not cover the log. \<open>LOGSIZE\<close> counts the header block, so
  with the log of \<open>LOGSIZE\<close> blocks that \<^verbatim>\<open>mkfs\<close> makes three operations of \<open>MAXOPBLOCKS\<close> blocks each are
  admitted, but \<open>log_write\<close> panics at the thirtieth block.\<close>

theorem reservation_too_large:
  assumes "world p s" and "lh_n s = 0" and "lg_outstanding s = 0" and "lg_committing s = 0"
    and "lg_size s = LOGSIZE"
  shows "\<exists>t. bnd (begin_op s) (\<lambda>_ s. bnd (begin_op s) (\<lambda>_ s. begin_op s)) = Ret () t
    \<and> log_write b (t\<lparr>lh_n := 3 * MAXOPBLOCKS - 1\<rparr>) = Panic ''too big a transaction''"
proof -
  have "bnd (begin_op s) (\<lambda>_ s. bnd (begin_op s) (\<lambda>_ s. begin_op s)) = Ret () (s\<lparr>lg_outstanding := 3\<rparr>)"
    using assms begin_op_eq [OF assms(1)]
    by (simp add: begin_op_eq [of p] MAXOPBLOCKS_def LOGSIZE_def)
  then show ?thesis
    using assms worldD [OF assms(1)] by (simp add: log_write_def LOGSIZE_def MAXOPBLOCKS_def)
qed

end
