(* ===== verification/Store.thy ===== *)
theory Store
  imports Log
begin

text \<open>
  The interface between the file system and what is below it: reading a block gives a buffer, its data
  may be changed and logged, and it is released. \<open>block_store\<close> states the laws a client may rely on,
  with \<open>inv H k s\<close> for "the buffers \<open>H\<close> are held and \<open>k\<close> more blocks may be logged"; the two client
  lemmas are the read and the update of one block, the shapes almost every file-system routine is
  made of. The interpretation shows that the buffer cache with the log provides the interface.
\<close>

locale block_store =
  fixes rd :: "u32 \<Rightarrow> 's \<Rightarrow> (nat, 's) outcome"
    and wr :: "nat \<Rightarrow> 's \<Rightarrow> (unit, 's) outcome"
    and rel :: "nat \<Rightarrow> 's \<Rightarrow> (unit, 's) outcome"
    and put :: "nat \<Rightarrow> block \<Rightarrow> 's \<Rightarrow> 's"
    and inv :: "nat set \<Rightarrow> nat \<Rightarrow> 's \<Rightarrow> bool"
    and blk :: "'s \<Rightarrow> nat \<Rightarrow> u32"
    and dat :: "'s \<Rightarrow> nat \<Rightarrow> block"
    and clean :: "'s \<Rightarrow> nat \<Rightarrow> bool"
    and vw :: "'s \<Rightarrow> u32 \<Rightarrow> block"
    and home :: "'s \<Rightarrow> u32 \<Rightarrow> bool"
    and frame :: "'s \<Rightarrow> 's \<Rightarrow> bool"
  assumes frame_trans: "frame s t \<Longrightarrow> frame t u \<Longrightarrow> frame s u"
    and frame_home: "frame s t \<Longrightarrow> home t = home s"
    and inv_less: "inv H (Suc k) s \<Longrightarrow> inv H k s"
    and rd_law: "inv H k s \<Longrightarrow> card H \<le> 2 \<Longrightarrow> n \<notin> blk s ` H \<Longrightarrow>
      \<exists>i t. rd n s = Ret i t \<and> i \<notin> H \<and> inv (insert i H) k t \<and> blk t i = n \<and> dat t i = vw s n \<and> clean t i
        \<and> vw t = vw s \<and> frame s t \<and> (\<forall>j\<in>H. blk t j = blk s j \<and> dat t j = dat s j \<and> clean t j = clean s j)"
    and put_law: "inv H k s \<Longrightarrow> i \<in> H \<Longrightarrow>
      inv H k (put i d s) \<and> vw (put i d s) = (vw s)(blk s i := d) \<and> frame s (put i d s)
        \<and> (\<forall>j\<in>H. blk (put i d s) j = blk s j)
        \<and> dat (put i d s) i = d
        \<and> (\<forall>j\<in>H. j \<noteq> i \<longrightarrow> dat (put i d s) j = dat s j \<and> clean (put i d s) j = clean s j)"
    and wr_law: "inv H (Suc k) s \<Longrightarrow> i \<in> H \<Longrightarrow> home s (blk s i) \<Longrightarrow>
      \<exists>t. wr i s = Ret () t \<and> inv H k t \<and> vw t = vw s \<and> frame s t \<and> clean t i
        \<and> (\<forall>j\<in>H. blk t j = blk s j \<and> dat t j = dat s j \<and> (clean s j \<longrightarrow> clean t j))"
    and rel_law: "inv H k s \<Longrightarrow> i \<in> H \<Longrightarrow> clean s i \<Longrightarrow>
      \<exists>t. rel i s = Ret () t \<and> inv (H - {i}) k t \<and> vw t = vw s \<and> frame s t
        \<and> (\<forall>j\<in>H. blk t j = blk s j \<and> dat t j = dat s j \<and> clean t j = clean s j)"
begin

text \<open>The buffers held keep their block, their data and their right to be released.\<close>

definition keeps :: "nat set \<Rightarrow> 's \<Rightarrow> 's \<Rightarrow> bool" where
  "keeps H s t \<longleftrightarrow> (\<forall>j\<in>H. blk t j = blk s j \<and> dat t j = dat s j \<and> (clean s j \<longrightarrow> clean t j))"

lemma keeps_trans: "keeps H s t \<Longrightarrow> keeps H t u \<Longrightarrow> keeps H s u"
  by (simp add: keeps_def)

lemma keeps_refl: "keeps H s s"
  by (simp add: keeps_def)

lemma read_block:
  assumes inv: "inv H k s" and H: "card H \<le> 2" "n \<notin> blk s ` H"
  shows "\<exists>i t u. rd n s = Ret i t \<and> dat t i = vw s n \<and> vw t = vw s \<and> frame s t \<and> rel i t = Ret () u
    \<and> inv H k u \<and> vw u = vw s \<and> frame t u \<and> frame s u \<and> keeps H s u"
proof -
  obtain i t where t: "rd n s = Ret i t" "i \<notin> H" "inv (insert i H) k t" "dat t i = vw s n" "clean t i"
    "vw t = vw s" "frame s t" "\<forall>j\<in>H. blk t j = blk s j \<and> dat t j = dat s j \<and> clean t j = clean s j"
    using rd_law [OF inv H] by blast
  have "i \<in> insert i H" by simp
  from rel_law [OF t(3) this t(5)]
  obtain u where u: "rel i t = Ret () u" "inv (insert i H - {i}) k u" "vw u = vw t" "frame t u"
    "\<forall>j\<in>insert i H. blk u j = blk t j \<and> dat u j = dat t j \<and> clean u j = clean t j" by blast
  have "insert i H - {i} = H" using t(2) by blast
  moreover have "keeps H s u" using t(8) u(5) by (simp add: keeps_def)
  ultimately show ?thesis using t u frame_trans [OF t(7) u(4)] by auto
qed

text \<open>Reading a block into a buffer, changing it, logging it and releasing it changes that block in
  the processes' view of the disk, and nothing else.\<close>

lemma update_block:
  assumes inv: "inv H (Suc k) s" and H: "card H \<le> 2" "n \<notin> blk s ` H" and home: "home s n"
  shows "\<exists>i t. rd n s = Ret i t \<and> dat t i = vw s n \<and> vw t = vw s \<and> frame s t
    \<and> (\<forall>d. \<exists>u. bnd (wr i (put i d t)) (\<lambda>_ s. rel i s) = Ret () u
         \<and> inv H k u \<and> vw u = (vw s)(n := d) \<and> frame t u \<and> frame s u \<and> keeps H s u)"
proof -
  obtain i t where t: "rd n s = Ret i t" "i \<notin> H" "inv (insert i H) (Suc k) t" "blk t i = n"
    "dat t i = vw s n" "vw t = vw s" "frame s t"
    "\<forall>j\<in>H. blk t j = blk s j \<and> dat t j = dat s j \<and> clean t j = clean s j"
    using rd_law [OF inv H] by blast
  have i: "i \<in> insert i H" by simp
  have "\<exists>u. bnd (wr i (put i d t)) (\<lambda>_ s. rel i s) = Ret () u
         \<and> inv H k u \<and> vw u = (vw s)(n := d) \<and> frame t u \<and> frame s u \<and> keeps H s u" for d
  proof -
    note p = put_law [OF t(3) i, of d]
    have "home (put i d t) (blk (put i d t) i)"
      using home p t(4) frame_home [OF t(7)] frame_home [of t "put i d t"] by auto
    with wr_law [of "insert i H" k "put i d t" i] p
    obtain v where v: "wr i (put i d t) = Ret () v" "inv (insert i H) k v" "vw v = (vw s)(n := d)"
      "frame (put i d t) v" "clean v i"
      "\<forall>j\<in>insert i H. blk v j = blk (put i d t) j \<and> dat v j = dat (put i d t) j
        \<and> (clean (put i d t) j \<longrightarrow> clean v j)" using t(4,6) by auto
    from rel_law [OF v(2) i v(5)]
    obtain u where u: "rel i v = Ret () u" "inv (insert i H - {i}) k u" "vw u = vw v" "frame v u"
      "\<forall>j\<in>insert i H. blk u j = blk v j \<and> dat u j = dat v j \<and> clean u j = clean v j" by blast
    have "insert i H - {i} = H" using t(2) by blast
    moreover have "frame t u" using p v(4) u(4) frame_trans by blast
    moreover from this t(7) have "frame s u" by (rule frame_trans [rotated])
    moreover have "keeps H s u"
      unfolding keeps_def
    proof
      fix j assume j: "j \<in> H"
      then have "j \<noteq> i" using t(2) by blast
      then show "blk u j = blk s j \<and> dat u j = dat s j \<and> (clean s j \<longrightarrow> clean u j)"
        using j t(8) p v(6) u(5) by auto
    qed
    ultimately show ?thesis using v u by auto
  qed
  then show ?thesis using t by blast
qed

end

subsection \<open>The cache and the log provide the interface\<close>

definition logged :: "'m logst_scheme \<Rightarrow> nat \<Rightarrow> bool" where
  "logged s i \<longleftrightarrow> b_blockno (bufs s i) \<in> lh_block s ` {..<nat (lh_n s)}"

definition settled :: "'m logst_scheme \<Rightarrow> nat \<Rightarrow> bool" where
  "settled s i \<longleftrightarrow> logged s i \<or> b_data (bufs s i) = disk s (b_blockno (bufs s i))"

text \<open>Process \<open>p\<close> is inside a transaction, holds the buffers \<open>H\<close> and may log \<open>k\<close> more blocks, with three
  buffers of the cache to spare.\<close>

definition tx_inv :: "nat \<Rightarrow> nat set \<Rightarrow> nat \<Rightarrow> 'm logst_scheme \<Rightarrow> bool" where
  "tx_inv p H k s \<longleftrightarrow> (\<exists>P. log_inv p P H s) \<and> 1 \<le> lg_outstanding s
     \<and> lh_n s + int k \<le> lg_size s - 1 \<and> lh_n s + int k \<le> int NBUF - 3"

lemma logged_pinned:
  assumes inv: "log_inv p P H s" and i: "i \<in> H"
  shows "logged s i \<longleftrightarrow> i \<in> P"
proof
  assume "logged s i"
  then have "b_blockno (bufs s i) \<in> (\<lambda>i. b_blockno (bufs s i)) ` P"
    using log_invD(8) [OF inv] by (simp add: logged_def)
  then obtain j where j: "j \<in> P" "b_blockno (bufs s i) = b_blockno (bufs s j)" by blast
  then have "i = j" using i by (intro held_unique [OF log_invD(1) [OF inv]]) auto
  then show "i \<in> P" using j by simp
next
  assume "i \<in> P"
  then show "logged s i" using log_invD(8) [OF inv] by (auto simp: logged_def)
qed

lemma log_inv_frame:
  fixes s t :: "'m logst_scheme"
  assumes inv: "log_inv p P H s" and t: "bc_inv p P H' t" and f: "bio_frame s t"
    and P: "\<And>i. i \<in> P \<Longrightarrow> b_blockno (bufs t i) = b_blockno (bufs s i)"
  shows "log_inv p P H' t"
proof -
  note d = log_invD [OF inv] and lf = logst_frame [OF f] and g = log_frame [OF f]
  have "(\<lambda>i. b_blockno (bufs t i)) ` P = (\<lambda>i. b_blockno (bufs s i)) ` P" using P by simp
  then show ?thesis
    using t d unfolding log_inv_def lf g by simp
qed

lemma settled_same:
  assumes "bio_frame s t" and "same_buf s t j" and "disk t = disk s"
  shows "settled t j = settled s j"
  using assms logst_frame [OF assms(1)] by (simp add: settled_def logged_def same_buf_def)

interpretation store: block_store "bread ROOTDEV :: u32 \<Rightarrow> 'm logst_scheme \<Rightarrow> (nat, 'm logst_scheme) outcome"
  log_write brelse put_data "tx_inv p" "\<lambda>s i. b_blockno (bufs s i)" "\<lambda>s i. b_data (bufs s i)" settled view
  "\<lambda>s b. \<not> in_log s b" op_frame
proof (unfold_locales, goal_cases)
  case (1 s t u)
  then show ?case by (rule op_frame_trans)
next
  case (2 s t)
  then show ?case by (simp add: op_frame_fields in_log_def fun_eq_iff)
next
  case (3 H k s)
  then show ?case by (auto simp: tx_inv_def)
next
  case (4 H k s n)
  then obtain P where inv: "log_inv p P H s" by (auto simp: tx_inv_def)
  note d = log_invD [OF inv] and pins = log_inv_pins [OF inv]
  have "card (P \<union> H) < NBUF"
  proof -
    have "lh_n s + int k \<le> 27" using 4(1) by (simp add: tx_inv_def NBUF_def)
    then have "nat (lh_n s) \<le> 27" by linarith
    then show ?thesis using 4(2) pins(2) card_Un_le [of P H] by (simp add: NBUF_def)
  qed
  moreover have "b_blockno (bufs s i) \<noteq> n" if "i \<in> H" for i using 4(3) that by blast
  ultimately obtain i t where t: "bread ROOTDEV n s = Ret i t" "i \<notin> H" "bc_inv p P (insert i H) t"
    "b_blockno (bufs t i) = n" "b_data (bufs t i) = view s n" "view t = view s" "bio_frame s t"
    "disk t = disk s" "\<forall>j\<in>P \<union> H. same_buf s t j"
    using bread_spec [OF d(1)] by metis
  have inv': "log_inv p P (insert i H) t"
    using t(9) by (intro log_inv_frame [OF inv t(3,7)]) (auto simp: same_buf_def)
  have "settled t i"
  proof (cases "i \<in> P")
    case True
    then show ?thesis using logged_pinned [OF inv', of i] by (simp add: settled_def)
  next
    case False
    have "\<not> holds_block s j n" if "j \<in> P \<union> H" for j
    proof
      assume h: "holds_block s j n"
      then have "holds_block t j n" using t(9) that by (auto simp: holds_block_def same_buf_def)
      then have "j = i" using held_unique [OF t(3), of j i] that t(4) by (auto simp: holds_block_def)
      then show False using that False t(2) by blast
    qed
    then have "view s n = disk s n" using d(1) by (intro view_clean [of P H]) (auto simp: bc_inv_def)
    then show ?thesis using t(4,5,8) by (simp add: settled_def)
  qed
  moreover have "tx_inv p (insert i H) k t"
    using inv' 4(1) logst_frame [OF t(7)] by (auto simp: tx_inv_def)
  moreover have "settled t j = settled s j" if "j \<in> H" for j
    using t(7,8,9) that by (intro settled_same) auto
  ultimately show ?case using t op_frame_bio [OF t(7)] by (auto simp: same_buf_def)
next
  case (5 H k s i d)
  then obtain P where inv: "log_inv p P H s" by (auto simp: tx_inv_def)
  note p = put_data_spec [OF log_invD(1) [OF inv] 5(2), where d = d]
  have "log_inv p P H (put_data i d s)" using p(7) by (intro log_inv_frame [OF inv p(1,3)])
  then have "tx_inv p H k (put_data i d s)"
    using 5(1) logst_frame [OF p(3)] by (auto simp: tx_inv_def)
  moreover have "settled (put_data i d s) j = settled s j" if "j \<noteq> i" for j
    using p(3,4) p(6) [OF that] by (intro settled_same)
  moreover have "b_data (bufs (put_data i d s) j) = b_data (bufs s j)" if "j \<noteq> i" for j
    using p(6) [OF that] by (simp add: same_buf_def)
  ultimately show ?case using p(2,3,7,8) op_frame_bio by auto
next
  case (6 H k s i)
  then obtain P where inv: "log_inv p P H s" by (auto simp: tx_inv_def)
  have "lh_n s < lg_size s - 1" "1 \<le> lg_outstanding s" using 6(1) by (auto simp: tx_inv_def)
  from log_write_spec [OF inv 6(2) this 6(3)]
  obtain t where t: "log_write i s = Ret () t" "log_inv p (insert i P) H t"
    "lh_n t = (if i \<in> P then lh_n s else lh_n s + 1)" "view t = view s" "disk t = disk s" "op_frame s t"
    "\<forall>j. same_buf s t j" by blast
  have "tx_inv p H k t"
    using t(2,3) 6(1) op_frame_fields(16,17) [OF t(6)] by (auto simp: tx_inv_def)
  moreover have "settled t i" using logged_pinned [OF t(2) 6(2)] by (simp add: settled_def)
  moreover have "settled t j" if "settled s j" "j \<in> H" for j
    using that logged_pinned [OF inv that(2)] logged_pinned [OF t(2) that(2)] t(5,7)
    by (auto simp: settled_def same_buf_def)
  ultimately show ?case using t by (auto simp: same_buf_def)
next
  case (7 H k s i)
  then obtain P where inv: "log_inv p P H s" by (auto simp: tx_inv_def)
  have "i \<in> P \<or> b_data (bufs s i) = disk s (b_blockno (bufs s i))"
    using 7(3) logged_pinned [OF inv 7(2)] by (simp add: settled_def)
  from brelse_spec [OF log_invD(1) [OF inv] 7(2) this]
  obtain t where t: "brelse i s = Ret () t" "bc_inv p P (H - {i}) t" "view t = view s" "bio_frame s t"
    "disk t = disk s" "\<forall>j. same_buf s t j" by blast
  have "log_inv p P (H - {i}) t" using t(6) by (intro log_inv_frame [OF inv t(2,4)]) (simp add: same_buf_def)
  then have "tx_inv p (H - {i}) k t"
    using 7(1) logst_frame [OF t(4)] by (auto simp: tx_inv_def)
  moreover have "settled t j = settled s j" for j using t(4,5,6) by (intro settled_same) auto
  ultimately show ?case using t op_frame_bio [OF t(4)] by (auto simp: same_buf_def)
qed

end
