(* ===== verification/Vm.thy ===== *)
theory Vm
  imports Memory
begin

unbundle bit_operations_syntax

text \<open>
  Virtual memory (\<^verbatim>\<open>kernel/vm.c\<close>, with the page-table macros of \<^verbatim>\<open>kernel/riscv.h\<close>): Sv39 page tables
  stored in the physical pages they are made of, creating and removing mappings, user address
  spaces, and copying between the kernel and a user address space. A page table is the physical
  address of its root page; a null pointer is 0.

  The abstract view is the tree of table pages (\<open>node\<close>) and the entries at its leaves; the lemmas
  show that \<open>walk\<close> and \<open>mappages\<close> keep it a tree and change one entry per page.
\<close>

subsection \<open>Constants and page-table entries\<close>

definition UART0 :: u64 where "UART0 = 0x10000000"
definition VIRTIO0 :: u64 where "VIRTIO0 = 0x10001000"
definition PLIC :: u64 where "PLIC = 0x0c000000"
definition PTE_V :: u64 where "PTE_V = 1"
definition PTE_R :: u64 where "PTE_R = 2"
definition PTE_W :: u64 where "PTE_W = 4"
definition PTE_X :: u64 where "PTE_X = 8"
definition PTE_U :: u64 where "PTE_U = 16"
definition PA2PTE :: "u64 \<Rightarrow> u64" where "PA2PTE pa = push_bit 10 (drop_bit 12 pa)"
definition PTE2PA :: "u64 \<Rightarrow> u64" where "PTE2PA pte = push_bit 12 (drop_bit 10 pte)"
definition PTE_FLAGS :: "u64 \<Rightarrow> u64" where "PTE_FLAGS pte = pte AND 0x3FF"
definition PX :: "nat \<Rightarrow> u64 \<Rightarrow> u64" where "PX level va = drop_bit (12 + 9 * level) va AND 0x1FF"
definition MAXVA :: u64 where "MAXVA = push_bit (9 + 9 + 9 + 12 - 1) 1"
definition TRAMPOLINE :: u64 where "TRAMPOLINE = MAXVA - PGSIZE"
definition TRAPFRAME :: u64 where "TRAPFRAME = TRAMPOLINE - PGSIZE"
definition KSTACK :: "nat \<Rightarrow> u64" where "KSTACK p = TRAMPOLINE - (of_nat p + 1) * 2 * PGSIZE"

subsection \<open>Walking and mapping\<close>

text \<open>The loop of \<open>walk\<close> over \<open>level\<close>, from level \<open>l\<close> down to the address of the entry at level 0.\<close>

primrec walk_level :: "nat \<Rightarrow> u64 \<Rightarrow> u64 \<Rightarrow> bool \<Rightarrow> 'm memory_scheme \<Rightarrow> (u64, 'm memory_scheme) outcome" where
  "walk_level 0 pt va alloc s = Ret (pt + 8 * PX 0 va) s"
| "walk_level (Suc l) pt va alloc s =
    (let pte = pt + 8 * PX (Suc l) va; v = ld64 (pmem s) pte
     in if v AND PTE_V \<noteq> 0 then walk_level l (PTE2PA v) va alloc s
        else if \<not> alloc then Ret 0 s
        else bnd (kalloc s) (\<lambda>pt s.
          if pt = 0 then Ret 0 s
          else
            let s = s\<lparr>pmem := memset (pmem s) pt 0 (ucast PGSIZE)\<rparr>;
                s = s\<lparr>pmem := st64 (pmem s) pte (PA2PTE pt OR PTE_V)\<rparr>
            in walk_level l pt va alloc s))"

definition walk :: "u64 \<Rightarrow> u64 \<Rightarrow> bool \<Rightarrow> 'm memory_scheme \<Rightarrow> (u64, 'm memory_scheme) outcome" where
  "walk pt va alloc s =
    (if va \<ge> MAXVA then Panic ''walk'' else walk_level 2 pt va alloc s)"

definition walkaddr :: "u64 \<Rightarrow> u64 \<Rightarrow> 'm memory_scheme \<Rightarrow> (u64, 'm memory_scheme) outcome" where
  "walkaddr pt va s =
    (if va \<ge> MAXVA then Ret 0 s
     else bnd (walk pt va False s) (\<lambda>pte s.
       if pte = 0 then Ret 0 s
       else if ld64 (pmem s) pte AND PTE_V = 0 then Ret 0 s
       else if ld64 (pmem s) pte AND PTE_U = 0 then Ret 0 s
       else Ret (PTE2PA (ld64 (pmem s) pte)) s))"

lemma walk_below: "walk pt va a s = Ret x t \<Longrightarrow> va < MAXVA"
  by (auto simp: walk_def split: if_splits)

text \<open>The loops over pages stop at the latest when \<open>walk\<close> panics from \<open>MAXVA\<close> on.\<close>

lemma page_measure: "a < MAXVA \<Longrightarrow> unat MAXVA + 4096 - unat (a + PGSIZE) < unat MAXVA + 4096 - unat a"
proof -
  assume "a < MAXVA"
  then have "unat a < 0x4000000000" by (simp add: MAXVA_def word_less_nat_alt)
  moreover from this have "unat (a + PGSIZE) = unat a + 4096"
    by (simp add: PGSIZE_def unat_word_ariths)
  ultimately show ?thesis by (simp add: MAXVA_def)
qed

function mappages_loop ::
  "u64 \<Rightarrow> u64 \<Rightarrow> u64 \<Rightarrow> u64 \<Rightarrow> u64 \<Rightarrow> 'm memory_scheme \<Rightarrow> (int, 'm memory_scheme) outcome" where
  "mappages_loop pt a final pa perm s =
    bnd (walk pt a True s) (\<lambda>pte s.
    if pte = 0 then Ret (-1) s
    else if ld64 (pmem s) pte AND PTE_V \<noteq> 0 then Panic ''remap''
    else
      let s = s\<lparr>pmem := st64 (pmem s) pte (PA2PTE pa OR perm OR PTE_V)\<rparr>
      in if a = final then Ret 0 s
         else mappages_loop pt (a + PGSIZE) final (pa + PGSIZE) perm s)"
  by pat_completeness auto
termination
  by (relation "measure (\<lambda>(pt, a, l, pa, f, s). unat MAXVA + 4096 - unat a)")
    (auto dest!: walk_below intro: page_measure)

declare mappages_loop.simps [simp del]

definition mappages ::
  "u64 \<Rightarrow> u64 \<Rightarrow> u64 \<Rightarrow> u64 \<Rightarrow> u64 \<Rightarrow> 'm memory_scheme \<Rightarrow> (int, 'm memory_scheme) outcome" where
  "mappages pt va n pa perm s =
    mappages_loop pt (PGROUNDDOWN va) (PGROUNDDOWN (va + n - 1)) pa perm s"

definition kvmmap ::
  "u64 \<Rightarrow> u64 \<Rightarrow> u64 \<Rightarrow> u64 \<Rightarrow> u64 \<Rightarrow> 'm memory_scheme \<Rightarrow> (unit, 'm memory_scheme) outcome" where
  "kvmmap kpgtbl va pa n perm s =
    bnd (mappages kpgtbl va n pa perm s) (\<lambda>r s. if r \<noteq> 0 then Panic ''kvmmap'' else Ret () s)"

text \<open>\<^verbatim>\<open>proc_mapstacks\<close> of \<^verbatim>\<open>proc.c\<close>: a page for each process's kernel stack.\<close>

definition mapstack_one :: "u64 \<Rightarrow> nat \<Rightarrow> 'm memory_scheme \<Rightarrow> (unit, 'm memory_scheme) outcome" where
  "mapstack_one kpgtbl i s =
    bnd (kalloc s) (\<lambda>pa s.
    if pa = 0 then Panic ''kalloc'' else kvmmap kpgtbl (KSTACK i) pa PGSIZE (PTE_R OR PTE_W) s)"

definition proc_mapstacks :: "u64 \<Rightarrow> 'm memory_scheme \<Rightarrow> (unit, 'm memory_scheme) outcome" where
  "proc_mapstacks kpgtbl s = for_each [0..<NPROC] (mapstack_one kpgtbl) s"

text \<open>The linker symbols \<open>etext\<close> and \<open>trampoline\<close> are arguments. The store of \<open>memset\<close> through a null
  pointer faults in the kernel.\<close>

definition kvmmake :: "u64 \<Rightarrow> u64 \<Rightarrow> 'm memory_scheme \<Rightarrow> (u64, 'm memory_scheme) outcome" where
  "kvmmake etext trampoline s =
    bnd (kalloc s) (\<lambda>kpgtbl s.
    if kpgtbl = 0 then Panic ''kerneltrap''
    else
      let s = s\<lparr>pmem := memset (pmem s) kpgtbl 0 (ucast PGSIZE)\<rparr>
      in bnd (kvmmap kpgtbl UART0 UART0 PGSIZE (PTE_R OR PTE_W) s) (\<lambda>_ s.
         bnd (kvmmap kpgtbl VIRTIO0 VIRTIO0 PGSIZE (PTE_R OR PTE_W) s) (\<lambda>_ s.
         bnd (kvmmap kpgtbl PLIC PLIC 0x400000 (PTE_R OR PTE_W) s) (\<lambda>_ s.
         bnd (kvmmap kpgtbl KERNBASE KERNBASE (etext - KERNBASE) (PTE_R OR PTE_X) s) (\<lambda>_ s.
         bnd (kvmmap kpgtbl etext etext (PHYSTOP - etext) (PTE_R OR PTE_W) s) (\<lambda>_ s.
         bnd (kvmmap kpgtbl TRAMPOLINE trampoline PGSIZE (PTE_R OR PTE_X) s) (\<lambda>_ s.
         bnd (proc_mapstacks kpgtbl s) (\<lambda>_ s. Ret kpgtbl s))))))))"

subsection \<open>User address spaces\<close>

function uvmunmap_loop ::
  "u64 \<Rightarrow> u64 \<Rightarrow> u64 \<Rightarrow> bool \<Rightarrow> 'm memory_scheme \<Rightarrow> (unit, 'm memory_scheme) outcome" where
  "uvmunmap_loop pt a limit do_free s =
    (if a < limit then
       bnd (walk pt a False s) (\<lambda>pte s.
       if pte = 0 then Panic ''uvmunmap: walk''
       else if ld64 (pmem s) pte AND PTE_V = 0 then Panic ''uvmunmap: not mapped''
       else if PTE_FLAGS (ld64 (pmem s) pte) = PTE_V then Panic ''uvmunmap: not a leaf''
       else
         bnd (if do_free then kfree (PTE2PA (ld64 (pmem s) pte)) s else Ret () s) (\<lambda>_ s.
         let s = s\<lparr>pmem := st64 (pmem s) pte 0\<rparr>
         in uvmunmap_loop pt (a + PGSIZE) limit do_free s))
     else Ret () s)"
  by pat_completeness auto
termination
  by (relation "measure (\<lambda>(pt, a, l, f, s). unat MAXVA + 4096 - unat a)")
    (auto dest!: walk_below intro: page_measure)

declare uvmunmap_loop.simps [simp del]

definition uvmunmap ::
  "u64 \<Rightarrow> u64 \<Rightarrow> u64 \<Rightarrow> bool \<Rightarrow> 'm memory_scheme \<Rightarrow> (unit, 'm memory_scheme) outcome" where
  "uvmunmap pt va npages do_free s =
    (if va mod PGSIZE \<noteq> 0 then Panic ''uvmunmap: not aligned''
     else uvmunmap_loop pt va (va + npages * PGSIZE) do_free s)"

definition uvmcreate :: "'m memory_scheme \<Rightarrow> (u64, 'm memory_scheme) outcome" where
  "uvmcreate s =
    bnd (kalloc s) (\<lambda>pt s.
    if pt = 0 then Ret 0 s
    else Ret pt (s\<lparr>pmem := memset (pmem s) pt 0 (ucast PGSIZE)\<rparr>))"

text \<open>\<open>memmove\<close> from an object that is not in the modelled memory: the bytes \<open>src\<close> are stored at \<open>a\<close>.\<close>

primrec put_bytes :: "mem \<Rightarrow> u64 \<Rightarrow> (nat \<Rightarrow> u8) \<Rightarrow> nat \<Rightarrow> mem" where
  "put_bytes m a src 0 = m"
| "put_bytes m a src (Suc n) = put_bytes (m(a := src 0)) (a + 1) (\<lambda>i. src (Suc i)) n"

definition uvminit :: "u64 \<Rightarrow> (nat \<Rightarrow> u8) \<Rightarrow> u32 \<Rightarrow> 'm memory_scheme \<Rightarrow> (unit, 'm memory_scheme) outcome" where
  "uvminit pt src n s =
    (if n \<ge> ucast PGSIZE then Panic ''inituvm: more than a page''
     else
       bnd (kalloc s) (\<lambda>mem s.
       if mem = 0 then Panic ''kerneltrap''
       else
         let s = s\<lparr>pmem := memset (pmem s) mem 0 (ucast PGSIZE)\<rparr>
         in bnd (mappages pt 0 PGSIZE mem (PTE_W OR PTE_R OR PTE_X OR PTE_U) s) (\<lambda>_ s.
            Ret () (s\<lparr>pmem := put_bytes (pmem s) mem src (unat n)\<rparr>))))"

text \<open>\<open>npages\<close> is a C \<^verbatim>\<open>int\<close>.\<close>

definition uvmdealloc :: "u64 \<Rightarrow> u64 \<Rightarrow> u64 \<Rightarrow> 'm memory_scheme \<Rightarrow> (u64, 'm memory_scheme) outcome" where
  "uvmdealloc pt oldsz newsz s =
    (if newsz \<ge> oldsz then Ret oldsz s
     else
       bnd (if PGROUNDUP newsz < PGROUNDUP oldsz then
              let npages = ucast ((PGROUNDUP oldsz - PGROUNDUP newsz) div PGSIZE) :: u32
              in uvmunmap pt (PGROUNDUP newsz) (scast npages) True s
            else Ret () s) (\<lambda>_ s.
       Ret newsz s))"

lemma mappages_below: "mappages_loop pt a l pa f s = Ret x t \<Longrightarrow> a < MAXVA"
  by (subst (asm) mappages_loop.simps) (auto simp: bnd_eq_Ret dest: walk_below)

lemma round_down: "a AND NOT (PGSIZE - 1) = a - a mod PGSIZE"
proof -
  have "a AND NOT (mask 12) = a - take_bit 12 a"
  proof -
    have "(a AND NOT (mask 12)) + take_bit 12 a = (a AND NOT (mask 12)) OR take_bit 12 a"
      by (rule disjunctive_add_eq_or) (rule bit_word_eqI, auto simp: bit_simps)
    also have "\<dots> = a" by (rule bit_word_eqI) (auto simp: bit_simps)
    finally show ?thesis by (simp add: eq_diff_eq)
  qed
  moreover have "PGSIZE - 1 = mask 12" by (simp add: PGSIZE_def mask_eq_exp_minus_1)
  moreover have "take_bit 12 a = a mod PGSIZE" by (simp add: take_bit_eq_mod PGSIZE_def)
  ultimately show ?thesis by simp
qed

lemma unat_page_mod: "unat (a mod PGSIZE) = unat a mod 4096" "unat (a mod PGSIZE) < 4096"
  by (simp_all add: unat_mod_distrib PGSIZE_def)

lemma unat_round_down: "unat (a - a mod PGSIZE) = unat a - unat a mod 4096"
  using unat_page_mod(1) [of a] by (simp add: unat_sub_u64)

lemma page_of_le: "a AND NOT (PGSIZE - 1) < MAXVA \<Longrightarrow> unat a < unat MAXVA + 4096"
  using unat_round_down [of a] mod_less_divisor [of 4096 "unat a"]
  by (simp add: round_down word_less_nat_alt)

lemma mappages_page_below: "mappages pt a n pa f s = Ret x t \<Longrightarrow> unat a < unat MAXVA + 4096"
  by (auto simp: mappages_def PGROUNDDOWN_def dest!: mappages_below intro: page_of_le)

function uvmalloc_loop ::
  "u64 \<Rightarrow> u64 \<Rightarrow> u64 \<Rightarrow> u64 \<Rightarrow> 'm memory_scheme \<Rightarrow> (u64, 'm memory_scheme) outcome" where
  "uvmalloc_loop pt a oldsz newsz s =
    (if a < newsz then
       bnd (kalloc s) (\<lambda>mem s.
       if mem = 0 then bnd (uvmdealloc pt a oldsz s) (\<lambda>_ s. Ret 0 s)
       else
         let s = s\<lparr>pmem := memset (pmem s) mem 0 (ucast PGSIZE)\<rparr>
         in bnd (mappages pt a PGSIZE mem (PTE_W OR PTE_X OR PTE_R OR PTE_U) s) (\<lambda>r s.
            if r \<noteq> 0 then
              bnd (kfree mem s) (\<lambda>_ s.
              bnd (uvmdealloc pt a oldsz s) (\<lambda>_ s. Ret 0 s))
            else uvmalloc_loop pt (a + PGSIZE) oldsz newsz s))
     else Ret newsz s)"
  by pat_completeness auto
termination
proof (relation "measure (\<lambda>(pt, a, o', n, s). unat MAXVA + 8192 - unat a)", goal_cases)
  case (2 pt a oldsz newsz s mem s1 s2 r s3)
  then have "unat a < unat MAXVA + 4096" using mappages_page_below by blast
  then show ?case by (simp add: PGSIZE_def MAXVA_def unat_word_ariths)
qed simp

declare uvmalloc_loop.simps [simp del]

definition uvmalloc :: "u64 \<Rightarrow> u64 \<Rightarrow> u64 \<Rightarrow> 'm memory_scheme \<Rightarrow> (u64, 'm memory_scheme) outcome" where
  "uvmalloc pt oldsz newsz s =
    (if newsz < oldsz then Ret oldsz s
     else let oldsz = PGROUNDUP oldsz in uvmalloc_loop pt oldsz oldsz newsz s)"

text \<open>\<open>freewalk\<close> recurses down the tree of table pages. \<open>fuel\<close> bounds the depth of the recursion; an
  Sv39 tree has three levels.\<close>

fun freewalk :: "nat \<Rightarrow> u64 \<Rightarrow> 'm memory_scheme \<Rightarrow> (unit, 'm memory_scheme) outcome" where
  "freewalk 0 pt s = Spin"
| "freewalk (Suc fuel) pt s =
    bnd (for_each [0..<512] (\<lambda>i s.
      let pte = ld64 (pmem s) (pt + 8 * of_nat i)
      in if pte AND PTE_V \<noteq> 0 \<and> pte AND (PTE_R OR PTE_W OR PTE_X) = 0 then
           bnd (freewalk fuel (PTE2PA pte) s) (\<lambda>_ s.
           Ret () (s\<lparr>pmem := st64 (pmem s) (pt + 8 * of_nat i) 0\<rparr>))
         else if pte AND PTE_V \<noteq> 0 then Panic ''freewalk: leaf''
         else Ret () s) s)
    (\<lambda>_ s. kfree pt s)"

definition uvmfree :: "nat \<Rightarrow> u64 \<Rightarrow> u64 \<Rightarrow> 'm memory_scheme \<Rightarrow> (unit, 'm memory_scheme) outcome" where
  "uvmfree fuel pt n s =
    bnd (if n > 0 then uvmunmap pt 0 (PGROUNDUP n div PGSIZE) True s else Ret () s) (\<lambda>_ s.
    freewalk fuel pt s)"

definition uvmcopy_err :: "u64 \<Rightarrow> u64 \<Rightarrow> 'm memory_scheme \<Rightarrow> (int, 'm memory_scheme) outcome" where
  "uvmcopy_err new i s = bnd (uvmunmap new 0 (i div PGSIZE) True s) (\<lambda>_ s. Ret (-1) s)"

function uvmcopy_loop ::
  "u64 \<Rightarrow> u64 \<Rightarrow> u64 \<Rightarrow> u64 \<Rightarrow> 'm memory_scheme \<Rightarrow> (int, 'm memory_scheme) outcome" where
  "uvmcopy_loop old new i n s =
    (if i < n then
       bnd (walk old i False s) (\<lambda>pte s.
       if pte = 0 then Panic ''uvmcopy: pte should exist''
       else if ld64 (pmem s) pte AND PTE_V = 0 then Panic ''uvmcopy: page not present''
       else
         let pa = PTE2PA (ld64 (pmem s) pte); flags = PTE_FLAGS (ld64 (pmem s) pte)
         in bnd (kalloc s) (\<lambda>mem s.
            if mem = 0 then uvmcopy_err new i s
            else
              let s = s\<lparr>pmem := memmove (pmem s) mem pa (ucast PGSIZE)\<rparr>
              in bnd (mappages new i PGSIZE mem flags s) (\<lambda>r s.
                 if r \<noteq> 0 then bnd (kfree mem s) (\<lambda>_ s. uvmcopy_err new i s)
                 else uvmcopy_loop old new (i + PGSIZE) n s)))
     else Ret 0 s)"
  by pat_completeness auto
termination
  by (relation "measure (\<lambda>(old, new, i, n, s). unat MAXVA + 4096 - unat i)")
    (auto dest!: walk_below intro: page_measure)

declare uvmcopy_loop.simps [simp del]

definition uvmcopy :: "u64 \<Rightarrow> u64 \<Rightarrow> u64 \<Rightarrow> 'm memory_scheme \<Rightarrow> (int, 'm memory_scheme) outcome" where
  "uvmcopy old new n s = uvmcopy_loop old new 0 n s"

definition uvmclear :: "u64 \<Rightarrow> u64 \<Rightarrow> 'm memory_scheme \<Rightarrow> (unit, 'm memory_scheme) outcome" where
  "uvmclear pt va s =
    bnd (walk pt va False s) (\<lambda>pte s.
    if pte = 0 then Panic ''uvmclear''
    else Ret () (s\<lparr>pmem := st64 (pmem s) pte (ld64 (pmem s) pte AND NOT PTE_U)\<rparr>))"


subsection \<open>Copying between the kernel and user space\<close>

text \<open>The kernel's side of a copy is an array of bytes, as in \<^verbatim>\<open>string.c\<close>.\<close>

primrec get_bytes :: "(nat \<Rightarrow> u8) \<Rightarrow> nat \<Rightarrow> mem \<Rightarrow> u64 \<Rightarrow> nat \<Rightarrow> (nat \<Rightarrow> u8)" where
  "get_bytes dst k m a 0 = dst"
| "get_bytes dst k m a (Suc n) = get_bytes (dst(k := m a)) (Suc k) m (a + 1) n"

text \<open>The part of a copy that stays in the page of \<open>va\<close>: \<open>n = PGSIZE - (va - va0)\<close>, at most \<open>len\<close>.\<close>

definition chunk :: "u64 \<Rightarrow> u64 \<Rightarrow> u64" where
  "chunk va len = (let n = PGSIZE - (va - PGROUNDDOWN va) in if n > len then len else n)"

lemma page_part: "va - PGROUNDDOWN va = va mod PGSIZE"
  by (simp add: PGROUNDDOWN_def round_down)

lemma chunk_pos: "len > 0 \<Longrightarrow> 0 < unat (chunk va len) \<and> unat (chunk va len) \<le> unat len
    \<and> unat (chunk va len) \<le> 4096 - unat va mod 4096"
proof -
  assume "len > 0"
  then have "0 < unat len" by (simp add: word_less_nat_alt)
  moreover have "unat (PGSIZE - va mod PGSIZE) = 4096 - unat va mod 4096"
    using unat_page_mod [of va] by (simp add: unat_sub_u64 PGSIZE_def)
  moreover have "0 < 4096 - unat va mod 4096" by simp
  ultimately show ?thesis by (auto simp: chunk_def Let_def page_part word_less_nat_alt)
qed

function copyout ::
  "u64 \<Rightarrow> u64 \<Rightarrow> (nat \<Rightarrow> u8) \<Rightarrow> u64 \<Rightarrow> 'm memory_scheme \<Rightarrow> (int, 'm memory_scheme) outcome" where
  "copyout pt dstva src len s =
    (if len > 0 then
       let va0 = PGROUNDDOWN dstva
       in bnd (walkaddr pt va0 s) (\<lambda>pa0 s.
          if pa0 = 0 then Ret (-1) s
          else
            let n = chunk dstva len;
                s = s\<lparr>pmem := put_bytes (pmem s) (pa0 + (dstva - va0)) src (unat n)\<rparr>
            in copyout pt (va0 + PGSIZE) (\<lambda>i. src (unat n + i)) (len - n) s)
     else Ret 0 s)"
  by pat_completeness auto
termination
  by (relation "measure (\<lambda>(pt, va, src, len, s). unat len)")
    (use chunk_pos in \<open>auto simp: unat_sub_u64 word_less_nat_alt\<close>)

function copyin_at ::
  "u64 \<Rightarrow> (nat \<Rightarrow> u8) \<Rightarrow> nat \<Rightarrow> u64 \<Rightarrow> u64 \<Rightarrow> 'm memory_scheme
    \<Rightarrow> (int \<times> (nat \<Rightarrow> u8), 'm memory_scheme) outcome" where
  "copyin_at pt dst k srcva len s =
    (if len > 0 then
       let va0 = PGROUNDDOWN srcva
       in bnd (walkaddr pt va0 s) (\<lambda>pa0 s.
          if pa0 = 0 then Ret (-1, dst) s
          else
            let n = chunk srcva len;
                dst = get_bytes dst k (pmem s) (pa0 + (srcva - va0)) (unat n)
            in copyin_at pt dst (k + unat n) (va0 + PGSIZE) (len - n) s)
     else Ret (0, dst) s)"
  by pat_completeness auto
termination
  by (relation "measure (\<lambda>(pt, dst, k, va, len, s). unat len)")
    (use chunk_pos in \<open>auto simp: unat_sub_u64 word_less_nat_alt\<close>)

declare copyout.simps [simp del] copyin_at.simps [simp del]

definition copyin ::
  "u64 \<Rightarrow> (nat \<Rightarrow> u8) \<Rightarrow> u64 \<Rightarrow> u64 \<Rightarrow> 'm memory_scheme \<Rightarrow> (int \<times> (nat \<Rightarrow> u8), 'm memory_scheme) outcome" where
  "copyin pt dst srcva len s = copyin_at pt dst 0 srcva len s"

text \<open>The inner loop of \<open>copyinstr\<close> over at most \<open>n\<close> bytes at physical address \<open>p\<close>: whether the NUL was
  reached, the destination, and how many bytes before the NUL were copied.\<close>

primrec copystr_page :: "mem \<Rightarrow> u64 \<Rightarrow> (nat \<Rightarrow> u8) \<Rightarrow> nat \<Rightarrow> nat \<Rightarrow> bool \<times> (nat \<Rightarrow> u8) \<times> nat" where
  "copystr_page m p dst k 0 = (False, dst, k)"
| "copystr_page m p dst k (Suc n) =
    (if m p = 0 then (True, dst(k := 0), k)
     else copystr_page m (p + 1) (dst(k := m p)) (Suc k) n)"

function copyinstr_at ::
  "u64 \<Rightarrow> (nat \<Rightarrow> u8) \<Rightarrow> nat \<Rightarrow> u64 \<Rightarrow> u64 \<Rightarrow> 'm memory_scheme
    \<Rightarrow> (int \<times> (nat \<Rightarrow> u8), 'm memory_scheme) outcome" where
  "copyinstr_at pt dst k srcva mx s =
    (if mx > 0 then
       let va0 = PGROUNDDOWN srcva
       in bnd (walkaddr pt va0 s) (\<lambda>pa0 s.
          if pa0 = 0 then Ret (-1, dst) s
          else
            let n = chunk srcva mx;
                (got_null, dst, k) = copystr_page (pmem s) (pa0 + (srcva - va0)) dst k (unat n)
            in if got_null then Ret (0, dst) s
               else copyinstr_at pt dst k (va0 + PGSIZE) (mx - n) s)
     else Ret (-1, dst) s)"
  by pat_completeness auto
termination
  by (relation "measure (\<lambda>(pt, dst, k, va, len, s). unat len)")
    (use chunk_pos in \<open>auto simp: unat_sub_u64 word_less_nat_alt\<close>)

declare copyinstr_at.simps [simp del]

definition copyinstr ::
  "u64 \<Rightarrow> (nat \<Rightarrow> u8) \<Rightarrow> u64 \<Rightarrow> u64 \<Rightarrow> 'm memory_scheme \<Rightarrow> (int \<times> (nat \<Rightarrow> u8), 'm memory_scheme) outcome" where
  "copyinstr pt dst srcva mx s = copyinstr_at pt dst 0 srcva mx s"

text \<open>\<open>either_copyout\<close> and \<open>either_copyin\<close> (\<^verbatim>\<open>proc.c\<close>). The side that may be a user address is a kernel
  address otherwise.\<close>

definition either_copyout ::
  "bool \<Rightarrow> u64 \<Rightarrow> (nat \<Rightarrow> u8) \<Rightarrow> u64 \<Rightarrow> 'm memory_scheme \<Rightarrow> (int, 'm memory_scheme) outcome" where
  "either_copyout user_dst dst src len s =
    bnd (myproc s) (\<lambda>p s.
    if user_dst then
      case p of None \<Rightarrow> Panic ''kerneltrap'' | Some p \<Rightarrow> copyout (pagetable (procs s p)) dst src len s
    else Ret 0 (s\<lparr>pmem := put_bytes (pmem s) dst src (unat (ucast len :: u32))\<rparr>))"

definition either_copyin ::
  "(nat \<Rightarrow> u8) \<Rightarrow> nat \<Rightarrow> bool \<Rightarrow> u64 \<Rightarrow> u64 \<Rightarrow> 'm memory_scheme
    \<Rightarrow> (int \<times> (nat \<Rightarrow> u8), 'm memory_scheme) outcome" where
  "either_copyin dst k user_src src len s =
    bnd (myproc s) (\<lambda>p s.
    if user_src then
      case p of None \<Rightarrow> Panic ''kerneltrap'' | Some p \<Rightarrow> copyin_at (pagetable (procs s p)) dst k src len s
    else Ret (0, get_bytes dst k (pmem s) src (unat (ucast len :: u32))) s)"


subsection \<open>Translation as a function of memory\<close>

primrec walk_ro :: "nat \<Rightarrow> mem \<Rightarrow> u64 \<Rightarrow> u64 \<Rightarrow> u64" where
  "walk_ro 0 m pt va = pt + 8 * PX 0 va"
| "walk_ro (Suc l) m pt va =
    (let v = ld64 m (pt + 8 * PX (Suc l) va)
     in if v AND PTE_V \<noteq> 0 then walk_ro l m (PTE2PA v) va else 0)"

lemma walk_level_ro: "walk_level l pt va False s = Ret (walk_ro l (pmem s) pt va) s"
  by (induction l arbitrary: pt) (simp_all add: Let_def)

text \<open>The physical page behind user address \<open>va\<close>, 0 if there is none.\<close>

definition upage :: "mem \<Rightarrow> u64 \<Rightarrow> u64 \<Rightarrow> u64" where
  "upage m pt va =
    (if va \<ge> MAXVA then 0
     else let pte = walk_ro 2 m pt va
          in if pte = 0 \<or> ld64 m pte AND PTE_V = 0 \<or> ld64 m pte AND PTE_U = 0 then 0
             else PTE2PA (ld64 m pte))"

lemma walkaddr_eq: "walkaddr pt va s = Ret (upage (pmem s) pt va) s"
  by (simp add: walkaddr_def upage_def walk_def walk_level_ro Let_def)

text \<open>User memory: what a process reads at its address \<open>va\<close>.\<close>

definition umem :: "mem \<Rightarrow> u64 \<Rightarrow> u64 \<Rightarrow> u8 option" where
  "umem m pt va =
    (let p = upage m pt (PGROUNDDOWN va) in if p = 0 then None else Some (m (p + va mod PGSIZE)))"

text \<open>The table pages \<open>walk\<close> visits.\<close>

primrec tpages :: "nat \<Rightarrow> mem \<Rightarrow> u64 \<Rightarrow> u64 \<Rightarrow> u64 set" where
  "tpages 0 m pt va = {pt}"
| "tpages (Suc l) m pt va =
    (let v = ld64 m (pt + 8 * PX (Suc l) va)
     in insert pt (if v AND PTE_V \<noteq> 0 then tpages l m (PTE2PA v) va else {}))"

lemma PX_less: "unat (PX l va) < 512"
proof -
  have "PX l va = take_bit 9 (drop_bit (12 + 9 * l) va)"
    by (simp add: PX_def take_bit_eq_mask mask_eq_exp_minus_1)
  then show ?thesis
    using unsigned_take_bit_eq [of 9 "drop_bit (12 + 9 * l) va", where 'a = nat]
      take_bit_nat_less_exp [of 9] by simp
qed

lemma entry_offset: "i < 8 \<Longrightarrow> unat (8 * PX l va + i) < 4096"
proof -
  assume "i < 8"
  then have "unat i < 8" by (simp add: word_less_nat_alt)
  moreover have "unat (8 * PX l va) = 8 * unat (PX l va)"
    using PX_less [of l va] by (simp add: unat_word_ariths)
  ultimately show ?thesis using PX_less [of l va] by (simp add: unat_add_u64)
qed

lemma PTE2PA_aligned [simp]: "PTE2PA v mod PGSIZE = 0"
proof -
  have "take_bit 12 (PTE2PA v) = 0" unfolding PTE2PA_def by (rule bit_word_eqI) (auto simp: bit_simps)
  then show ?thesis by (simp add: take_bit_eq_mod PGSIZE_def)
qed

lemma entry_cong:
  assumes "\<And>o'. unat o' < 4096 \<Longrightarrow> m' (p + o') = m (p + o')"
  shows "ld64 m' (p + 8 * PX l va) = ld64 m (p + 8 * PX l va)"
proof (rule ld64_cong)
  fix i :: u64 assume "i < 8"
  then show "m' (p + 8 * PX l va + i) = m (p + 8 * PX l va + i)"
    using assms [OF entry_offset, of i l va] by (simp add: add.assoc)
qed

lemma walk_ro_cong:
  assumes "\<And>p o'. p \<in> tpages l m pt va \<Longrightarrow> unat o' < 4096 \<Longrightarrow> m' (p + o') = m (p + o')"
  shows "walk_ro l m' pt va = walk_ro l m pt va \<and> tpages l m' pt va = tpages l m pt va
    \<and> (walk_ro l m pt va \<noteq> 0 \<longrightarrow> ld64 m' (walk_ro l m pt va) = ld64 m (walk_ro l m pt va))"
  using assms
proof (induction l arbitrary: pt)
  case 0
  then show ?case by (simp add: entry_cong [of m' pt m 0 va])
next
  case (Suc l)
  have e: "ld64 m' (pt + 8 * PX (Suc l) va) = ld64 m (pt + 8 * PX (Suc l) va)"
    using Suc.prems [of pt] by (intro entry_cong) (simp add: Let_def)
  show ?case
  proof (cases "ld64 m (pt + 8 * PX (Suc l) va) AND PTE_V = 0")
    case False
    then show ?thesis
      using Suc.IH [of "PTE2PA (ld64 m (pt + 8 * PX (Suc l) va))"] Suc.prems by (simp add: e Let_def)
  qed (simp add: e Let_def)
qed

text \<open>A well-formed address space: user pages are never table pages, and no two user pages coincide.\<close>

definition uspace :: "mem \<Rightarrow> u64 \<Rightarrow> bool" where
  "uspace m pt \<longleftrightarrow> pt mod PGSIZE = 0
     \<and> (\<forall>va vb. upage m pt va \<noteq> 0 \<and> vb < MAXVA \<longrightarrow> upage m pt va \<notin> tpages 2 m pt vb)
     \<and> (\<forall>va vb. upage m pt (PGROUNDDOWN va) \<noteq> 0
          \<and> upage m pt (PGROUNDDOWN va) = upage m pt (PGROUNDDOWN vb)
          \<longrightarrow> PGROUNDDOWN va = PGROUNDDOWN vb)"

lemma tpages_aligned: "pt mod PGSIZE = 0 \<Longrightarrow> p \<in> tpages l m pt va \<Longrightarrow> p mod PGSIZE = 0"
  by (induction l arbitrary: pt) (simp_all add: Let_def split: if_splits, metis PTE2PA_aligned)

lemma upage_aligned [simp]: "upage m pt va mod PGSIZE = 0"
  by (simp add: upage_def Let_def)

lemma uspace_store:
  assumes us: "uspace m pt" and p: "upage m pt vp \<noteq> 0"
    and same: "\<And>a. 4096 \<le> unat (a - upage m pt vp) \<Longrightarrow> m' a = m a"
  shows "upage m' pt va = upage m pt va" and "uspace m' pt"
proof -
  let ?p = "upage m pt vp"
  have cong: "walk_ro 2 m' pt vb = walk_ro 2 m pt vb \<and> tpages 2 m' pt vb = tpages 2 m pt vb
    \<and> (walk_ro 2 m pt vb \<noteq> 0 \<longrightarrow> ld64 m' (walk_ro 2 m pt vb) = ld64 m (walk_ro 2 m pt vb))"
    if "vb < MAXVA" for vb
  proof (rule walk_ro_cong)
    fix q o' :: u64 assume q: "q \<in> tpages 2 m pt vb" and o': "unat o' < 4096"
    have "?p \<notin> tpages 2 m pt vb" using us p that unfolding uspace_def by blast
    then have "q \<noteq> ?p" using q by blast
    have "pt mod PGSIZE = 0" using us by (simp add: uspace_def)
    then have "q mod PGSIZE = 0" using q by (rule tpages_aligned)
    then have "4096 \<le> unat (q + o' - ?p)" using \<open>q \<noteq> ?p\<close> o' by (intro page_offset) simp_all
    then show "m' (q + o') = m (q + o')" by (rule same)
  qed
  show up: "upage m' pt va = upage m pt va" for va
    using cong [of va] by (auto simp: upage_def Let_def not_le)
  show "uspace m' pt"
    unfolding uspace_def up
  proof (intro conjI allI impI; (elim conjE)?)
    show "pt mod PGSIZE = 0" using us by (simp add: uspace_def)
    show "upage m pt va \<notin> tpages 2 m' pt vb" if "upage m pt va \<noteq> 0" "vb < MAXVA" for va vb
      using us that cong [OF that(2)] by (simp add: uspace_def)
    show "PGROUNDDOWN va = PGROUNDDOWN vb" if "upage m pt (PGROUNDDOWN va) \<noteq> 0"
      "upage m pt (PGROUNDDOWN va) = upage m pt (PGROUNDDOWN vb)" for va vb
      using us that unfolding uspace_def by blast
  qed
qed

subsection \<open>Copying reads and writes user memory\<close>

lemma put_bytes_eq:
  "n \<le> 2 ^ 64 \<Longrightarrow> put_bytes m a src n = (\<lambda>x. if unat (x - a) < n then src (unat (x - a)) else m x)"
proof (induction n arbitrary: m a src)
  case (Suc n)
  have "unat (x - a) = Suc (unat (x - (a + 1)))" if "x \<noteq> a" for x
  proof -
    have "unat (x - a - 1) = unat (x - a) - 1" using that by (intro unat_minus_one) simp
    moreover have "0 < unat (x - a)" using that by (simp add: unat_gt_0)
    ultimately show ?thesis by (simp add: diff_diff_add)
  qed
  moreover have "\<not> unat (- 1 :: u64) < n"
    using Suc.prems by (simp add: unsigned_minus_1_eq_mask mask_eq_exp_minus_1)
  ultimately show ?case
    using Suc by (auto simp: fun_eq_iff offset_Suc)
qed simp

lemma get_bytes_eq:
  "get_bytes dst k m a n = (\<lambda>i. if k \<le> i \<and> i < k + n then m (a + of_nat (i - k)) else dst i)"
proof (induction n arbitrary: dst k a)
  case (Suc n)
  have "m (a + 1 + of_nat (i - Suc k)) = m (a + of_nat (i - k))" if "Suc k \<le> i" for i
  proof -
    have "i - k = Suc (i - Suc k)" using that by simp
    then show ?thesis by (simp add: add.assoc)
  qed
  then show ?case by (auto simp: Suc.IH fun_eq_iff)
qed (force simp: fun_eq_iff)

lemma page_split:
  assumes "unat (va - b) < 4096 - unat b mod 4096"
  shows "PGROUNDDOWN va = PGROUNDDOWN b" and "va mod PGSIZE = b mod PGSIZE + (va - b)"
    and "unat (va mod PGSIZE) = unat b mod 4096 + unat (va - b)"
proof -
  have "unat b - unat b mod 4096 + 4096 \<le> 18446744073709551616"
  proof -
    have "unat b div 4096 < 4503599627370496" using unat_u64_less [of b] by (simp add: less_mult_imp_div_less)
    then show ?thesis by (simp add: minus_mod_eq_mult_div)
  qed
  then have nw: "unat b + unat (va - b) < 18446744073709551616" using assms by linarith
  have "va = b + (va - b)" by simp
  then have va: "unat va = unat b + unat (va - b)" using nw unat_add_u64 [of b "va - b"] by simp
  have "unat va mod 4096 = (unat b mod 4096 + unat (va - b)) mod 4096" by (simp add: va mod_add_left_eq)
  then have m: "unat va mod 4096 = unat b mod 4096 + unat (va - b)" using assms by simp
  then show "unat (va mod PGSIZE) = unat b mod 4096 + unat (va - b)" by (simp add: unat_page_mod)
  have "unat (b mod PGSIZE + (va - b)) = unat b mod 4096 + unat (va - b)"
  proof -
    have "unat b mod 4096 + unat (va - b) < 18446744073709551616" using assms by linarith
    then show ?thesis by (simp add: unat_add_u64 unat_page_mod)
  qed
  then show e: "va mod PGSIZE = b mod PGSIZE + (va - b)"
    using m by (simp add: word_unat_eq_iff unat_page_mod)
  show "PGROUNDDOWN va = PGROUNDDOWN b"
    by (simp add: PGROUNDDOWN_def round_down e)
qed


lemma copyout_page:
  fixes src :: "nat \<Rightarrow> u8"
  assumes us: "uspace m pt" and P: "upage m pt (PGROUNDDOWN b) = P" "P \<noteq> 0"
    and n: "n \<le> 4096 - unat b mod 4096"
  defines "m' \<equiv> put_bytes m (P + b mod PGSIZE) src n"
  shows "upage m' pt va = upage m pt va" and "uspace m' pt"
    and "umem m' pt va = (if unat (va - b) < n then Some (src (unat (va - b))) else umem m pt va)"
    and "4096 \<le> unat (a - P) \<Longrightarrow> m' a = m a"
proof -
  have m': "m' x = (if unat (x - (P + b mod PGSIZE)) < n then src (unat (x - (P + b mod PGSIZE))) else m x)" for x
    unfolding m'_def using n by (subst put_bytes_eq) simp_all
  have inside: "unat (x - P) < 4096" if "unat (x - (P + b mod PGSIZE)) < n" for x
  proof -
    have e: "x - P = b mod PGSIZE + (x - (P + b mod PGSIZE))" by simp
    have "unat (b mod PGSIZE) + unat (x - (P + b mod PGSIZE)) < 4096"
      using that n by (simp add: unat_page_mod)
    then show ?thesis by (subst e, subst unat_add_u64) simp
  qed
  show out: "m' a = m a" if "4096 \<le> unat (a - P)" for a
    using inside [of a] that by (auto simp: m')
  have Pb: "upage m pt (PGROUNDDOWN b) \<noteq> 0" using P by simp
  show up: "upage m' pt va = upage m pt va" for va
    using us Pb by (rule uspace_store) (simp add: P(1) out)
  show "uspace m' pt"
    using us Pb by (rule uspace_store) (simp add: P(1) out)
  show "umem m' pt va = (if unat (va - b) < n then Some (src (unat (va - b))) else umem m pt va)"
  proof (cases "unat (va - b) < n")
    case True
    then have "unat (va - b) < 4096 - unat b mod 4096" using n by linarith
    note sp = page_split [OF this]
    have "m' (P + va mod PGSIZE) = src (unat (va - b))" using True by (simp add: m' sp(2))
    then show ?thesis using True P by (simp add: umem_def up sp(1))
  next
    case False
    let ?Q = "upage m pt (PGROUNDDOWN va)"
    have "m' (?Q + va mod PGSIZE) = m (?Q + va mod PGSIZE)" if "?Q \<noteq> 0"
    proof (cases "?Q = P")
      case True
      then have pg: "PGROUNDDOWN va = PGROUNDDOWN b" using us P that unfolding uspace_def by metis
      have "va mod PGSIZE - b mod PGSIZE = va - b"
      proof -
        have "va = PGROUNDDOWN va + va mod PGSIZE" "b = PGROUNDDOWN b + b mod PGSIZE"
          by (simp_all add: PGROUNDDOWN_def round_down)
        then show ?thesis using pg by (metis add_diff_cancel_left)
      qed
      then show ?thesis using False by (simp add: m' True)
    next
      case no: False
      have "4096 \<le> unat (?Q + va mod PGSIZE - P)"
        using no unat_page_mod(2) P(1) by (intro page_offset) auto
      then show ?thesis by (rule out)
    qed
    then show ?thesis using False by (simp add: umem_def up Let_def)
  qed
qed

lemma range_split:
  fixes va b n len :: u64
  assumes "unat n \<le> unat len"
  shows "unat (va - b) < unat len \<longleftrightarrow> unat (va - b) < unat n \<or> unat (va - (b + n)) < unat (len - n)"
    and "\<not> unat (va - b) < unat n \<Longrightarrow> unat (va - (b + n)) = unat (va - b) - unat n"
    and "unat (va - b) < unat n \<Longrightarrow> \<not> unat (va - (b + n)) < unat (len - n)"
proof -
  have e: "va - (b + n) = va - b - n" by simp
  have "unat (va - (b + n)) = (if unat n \<le> unat (va - b) then unat (va - b) - unat n
      else 18446744073709551616 + unat (va - b) - unat n)"
    unfolding e by (rule unat_sub_u64)
  moreover have "unat (len - n) = unat len - unat n" using assms by (simp add: unat_sub_u64)
  ultimately show "unat (va - b) < unat len \<longleftrightarrow> unat (va - b) < unat n \<or> unat (va - (b + n)) < unat (len - n)"
    and "\<not> unat (va - b) < unat n \<Longrightarrow> unat (va - (b + n)) = unat (va - b) - unat n"
    and "unat (va - b) < unat n \<Longrightarrow> \<not> unat (va - (b + n)) < unat (len - n)"
    using assms unat_u64_less [of len] by auto
qed

lemma chunk_next: "chunk va len \<noteq> len \<Longrightarrow> PGROUNDDOWN va + PGSIZE = va + chunk va len"
  by (auto simp: chunk_def Let_def PGROUNDDOWN_def round_down split: if_splits)

lemma umem_None: "umem m pt b = None \<longleftrightarrow> upage m pt (PGROUNDDOWN b) = 0"
  by (simp add: umem_def Let_def)

lemma copyout_spec:
  assumes "uspace (pmem s) pt"
  shows "\<exists>t. copyout pt dst src len s
      = Ret (if \<forall>va. unat (va - dst) < unat len \<longrightarrow> umem (pmem s) pt va \<noteq> None then 0 else -1) t
    \<and> mem_frame s t \<and> freelist t = freelist s \<and> uspace (pmem t) pt
    \<and> (\<forall>va. upage (pmem t) pt va = upage (pmem s) pt va)
    \<and> ((\<forall>va. unat (va - dst) < unat len \<longrightarrow> umem (pmem s) pt va \<noteq> None) \<longrightarrow>
        (\<forall>va. umem (pmem t) pt va = (if unat (va - dst) < unat len then Some (src (unat (va - dst)))
           else umem (pmem s) pt va)))
    \<and> (\<forall>a. (\<forall>va. upage (pmem s) pt va \<noteq> 0 \<longrightarrow> 4096 \<le> unat (a - upage (pmem s) pt va)) \<longrightarrow> pmem t a = pmem s a)"
  using assms
proof (induction pt dst src len s rule: copyout.induct)
  case (1 pt dst src len s)
  let ?p = "upage (pmem s) pt (PGROUNDDOWN dst)"
  show ?case
  proof (cases "len > 0")
    case False
    then have "len = 0" by (simp add: word_gt_0)
    then show ?thesis using "1.prems" by (simp add: copyout.simps [of pt dst src 0])
  next
    case len: True
    show ?thesis
    proof (cases "?p = 0")
      case True
      have "unat (dst - dst) < unat len" using len by (simp add: word_less_nat_alt)
      moreover have "umem (pmem s) pt dst = None" using True by (simp add: umem_None)
      ultimately have "\<not> (\<forall>va. unat (va - dst) < unat len \<longrightarrow> umem (pmem s) pt va \<noteq> None)" by blast
      then have n: "\<not> (\<forall>va. unat (va - dst) < unat len \<longrightarrow> umem (pmem s) pt va \<noteq> None)" by blast
      have "copyout pt dst src len s = Ret (-1) s"
        using len True by (simp add: copyout.simps [of pt dst src len] walkaddr_eq)
      then show ?thesis using "1.prems" n by (intro exI [of _ s] conjI) (simp_all only: if_False mem_frame_refl, simp_all)
    next
      case P: False
      let ?n = "chunk dst len"
      define s1 where "s1 = s\<lparr>pmem := put_bytes (pmem s) (?p + (dst - PGROUNDDOWN dst)) src (unat ?n)\<rparr>"
      have cn: "unat ?n \<le> unat len" "unat ?n \<le> 4096 - unat dst mod 4096" "0 < unat ?n"
        using chunk_pos [OF len, of dst] by auto
      note pg = copyout_page [OF "1.prems" refl P cn(2), where src = src]
      have s1: "upage (pmem s1) pt va = upage (pmem s) pt va" "uspace (pmem s1) pt"
        "umem (pmem s1) pt va = (if unat (va - dst) < unat ?n then Some (src (unat (va - dst))) else umem (pmem s) pt va)"
        "4096 \<le> unat (a - ?p) \<Longrightarrow> pmem s1 a = pmem s a" for va a
        using pg by (simp_all add: s1_def page_part)
      have eq: "copyout pt dst src len s = copyout pt (PGROUNDDOWN dst + PGSIZE) (\<lambda>i. src (unat ?n + i)) (len - ?n) s1"
        using len P by (simp add: copyout.simps [of pt dst src len s] walkaddr_eq s1_def page_part Let_def)
      let ?all = "\<lambda>b l m. \<forall>va. unat (va - b) < unat l \<longrightarrow> umem m pt va \<noteq> None"
      let ?d = "PGROUNDDOWN dst + PGSIZE"
      obtain t where t: "copyout pt ?d (\<lambda>i. src (unat ?n + i)) (len - ?n) s1
          = Ret (if ?all ?d (len - ?n) (pmem s1) then 0 else -1) t"
        "mem_frame s1 t" "freelist t = freelist s1" "uspace (pmem t) pt"
        "\<forall>va. upage (pmem t) pt va = upage (pmem s1) pt va"
        "?all ?d (len - ?n) (pmem s1) \<longrightarrow>
          (\<forall>va. umem (pmem t) pt va = (if unat (va - ?d) < unat (len - ?n) then Some (src (unat ?n + unat (va - ?d)))
           else umem (pmem s1) pt va))"
        "\<forall>a. (\<forall>va. upage (pmem s1) pt va \<noteq> 0 \<longrightarrow> 4096 \<le> unat (a - upage (pmem s1) pt va)) \<longrightarrow> pmem t a = pmem s1 a"
        using "1.IH" [OF len refl walkaddr_eq P refl refl, folded s1_def, OF s1(2)] by blast
      have rest: "unat (va - ?d) < unat (len - ?n) \<longleftrightarrow> \<not> unat (va - dst) < unat ?n \<and> unat (va - dst) < unat len"
        and off: "\<not> unat (va - dst) < unat ?n \<Longrightarrow> unat (va - dst) < unat len
          \<Longrightarrow> unat ?n + unat (va - ?d) = unat (va - dst)" for va
      proof -
        show "unat (va - ?d) < unat (len - ?n) \<longleftrightarrow> \<not> unat (va - dst) < unat ?n \<and> unat (va - dst) < unat len"
        proof (cases "?n = len")
          case False
          show ?thesis
            unfolding chunk_next [OF False] using range_split [OF cn(1), of va dst] by blast
        qed simp
        assume *: "\<not> unat (va - dst) < unat ?n" "unat (va - dst) < unat len"
        then have "?n \<noteq> len" by auto
        then show "unat ?n + unat (va - ?d) = unat (va - dst)"
          using range_split(2) [OF cn(1) *(1)] * by (simp add: chunk_next)
      qed
      have mapped: "umem (pmem s1) pt va \<noteq> None \<longleftrightarrow> umem (pmem s) pt va \<noteq> None" for va
        unfolding umem_None s1(1) ..
      have first: "umem (pmem s) pt va \<noteq> None" if "unat (va - dst) < unat ?n" for va
        using page_split(1) [of va dst] that cn(2) P by (simp add: umem_None)
      have all: "?all ?d (len - ?n) (pmem s1) \<longleftrightarrow> ?all dst len (pmem s)"
        unfolding mapped rest using first by blast
      have "copyout pt dst src len s = Ret (if ?all dst len (pmem s) then 0 else -1) t"
        unfolding eq t(1) all ..
      moreover have "mem_frame s t" "freelist t = freelist s"
        using mem_frame_trans [OF _ t(2), of s] t(3) by (simp_all add: s1_def)
      moreover have "umem (pmem t) pt va = (if unat (va - dst) < unat len then Some (src (unat (va - dst)))
           else umem (pmem s) pt va)" if "?all dst len (pmem s)" for va
        using t(6) that rest [of va] off [of va] s1(3) [of va] cn(1) unfolding all by auto
      moreover have "upage (pmem t) pt va = upage (pmem s) pt va" for va using t(5) s1(1) by simp
      moreover have "pmem t a = pmem s a"
        if "\<forall>va. upage (pmem s) pt va \<noteq> 0 \<longrightarrow> 4096 \<le> unat (a - upage (pmem s) pt va)" for a
        using t(7) s1(1,4) that P by simp
      ultimately show ?thesis using t(4) by blast
    qed
  qed
qed


lemma umem_in_page:
  assumes "unat (va - b) < 4096 - unat b mod 4096" and "upage m pt (PGROUNDDOWN b) = P" and "P \<noteq> 0"
  shows "umem m pt va = Some (m (P + b mod PGSIZE + (va - b)))"
  using page_split(1,2) [OF assms(1)] assms(2,3) by (simp add: umem_def add.assoc)

lemma copyin_spec:
  "\<exists>d. copyin_at pt dst k src len s
      = Ret (if \<forall>va. unat (va - src) < unat len \<longrightarrow> umem (pmem s) pt va \<noteq> None then 0 else -1, d) s
    \<and> ((\<forall>va. unat (va - src) < unat len \<longrightarrow> umem (pmem s) pt va \<noteq> None) \<longrightarrow>
        (\<forall>i. i < unat len \<longrightarrow> umem (pmem s) pt (src + of_nat i) = Some (d (k + i))))
    \<and> (\<forall>i. i < k \<or> k + unat len \<le> i \<longrightarrow> d i = dst i)"
proof (induction pt dst k src len s rule: copyin_at.induct)
  case (1 pt dst k src len s)
  let ?p = "upage (pmem s) pt (PGROUNDDOWN src)"
  let ?all = "\<lambda>b l. \<forall>va. unat (va - b) < unat l \<longrightarrow> umem (pmem s) pt va \<noteq> None"
  show ?case
  proof (cases "len > 0")
    case False
    then have "len = 0" by (simp add: word_gt_0)
    then show ?thesis by (simp add: copyin_at.simps [of pt dst k src 0])
  next
    case len: True
    show ?thesis
    proof (cases "?p = 0")
      case True
      have "unat (src - src) < unat len" using len by (simp add: word_less_nat_alt)
      moreover have "umem (pmem s) pt src = None" using True by (simp add: umem_None)
      ultimately have n: "\<not> ?all src len" by blast
      have "copyin_at pt dst k src len s = Ret (-1, dst) s"
        using len True by (simp add: copyin_at.simps [of pt dst k src len] walkaddr_eq)
      then show ?thesis using n by (intro exI [of _ dst] conjI) (simp_all only: if_False, simp_all)
    next
      case P: False
      let ?n = "chunk src len" and ?s = "PGROUNDDOWN src + PGSIZE"
      let ?d = "get_bytes dst k (pmem s) (?p + (src - PGROUNDDOWN src)) (unat ?n)"
      have cn: "unat ?n \<le> unat len" "unat ?n \<le> 4096 - unat src mod 4096" "0 < unat ?n"
        using chunk_pos [OF len, of src] by auto
      have eq: "copyin_at pt dst k src len s = copyin_at pt ?d (k + unat ?n) ?s (len - ?n) s"
        using len P by (simp add: copyin_at.simps [of pt dst k src len s] walkaddr_eq Let_def)
      from "1.IH" [OF len refl walkaddr_eq P refl refl]
      obtain e where e: "copyin_at pt ?d (k + unat ?n) ?s (len - ?n) s = Ret (if ?all ?s (len - ?n) then 0 else -1, e) s"
        "?all ?s (len - ?n) \<longrightarrow> (\<forall>i. i < unat (len - ?n) \<longrightarrow> umem (pmem s) pt (?s + of_nat i) = Some (e (k + unat ?n + i)))"
        "\<forall>i. i < k + unat ?n \<or> k + unat ?n + unat (len - ?n) \<le> i \<longrightarrow> e i = ?d i" by blast
      have len_n: "unat (len - ?n) = unat len - unat ?n" using cn(1) by (simp add: unat_sub_u64)
      have first: "umem (pmem s) pt va = Some (pmem s (?p + src mod PGSIZE + (va - src)))"
        if "unat (va - src) < unat ?n" for va
        using that cn(2) P by (intro umem_in_page) auto
      have rest: "unat (va - ?s) < unat (len - ?n) \<longleftrightarrow> \<not> unat (va - src) < unat ?n \<and> unat (va - src) < unat len" for va
      proof (cases "?n = len")
        case False
        show ?thesis
          unfolding chunk_next [OF False] using range_split [OF cn(1), of va src] by blast
      qed simp
      have all: "?all ?s (len - ?n) \<longleftrightarrow> ?all src len"
        unfolding rest using first by blast
      have val: "umem (pmem s) pt (src + of_nat i) = Some (e (k + i))" if a: "?all src len" and i: "i < unat len" for i
      proof -
        have i64: "i < 18446744073709551616" using i unat_u64_less [of len] by linarith
        show ?thesis
        proof (cases "i < unat ?n")
          case True
          have "e (k + i) = pmem s (?p + src mod PGSIZE + of_nat i)"
            using e(3) True by (simp add: get_bytes_eq page_part)
          moreover have "unat (src + of_nat i - src) < unat ?n" using True i64 by simp
          ultimately show ?thesis using first [of "src + of_nat i"] by simp
        next
          case False
          then have "?n \<noteq> len" using i by auto
          then have "?s + of_nat (i - unat ?n) = src + of_nat i"
            using False by (simp add: chunk_next)
          moreover have "i - unat ?n < unat (len - ?n)" using False i len_n by linarith
          moreover have "k + unat ?n + (i - unat ?n) = k + i" using False by simp
          ultimately show ?thesis using e(2) a all by metis
        qed
      qed
      have "copyin_at pt dst k src len s = Ret (if ?all src len then 0 else -1, e) s"
        unfolding eq e(1) all ..
      moreover have "e i = dst i" if "i < k \<or> k + unat len \<le> i" for i
        using that e(3) cn(1) len_n by (auto simp: get_bytes_eq)
      ultimately show ?thesis using val by blast
    qed
  qed
qed


subsection \<open>The tree of table pages\<close>

definition entry :: "mem \<Rightarrow> u64 \<Rightarrow> u64 \<Rightarrow> u64" where
  "entry m p i = ld64 m (p + 8 * i)"

text \<open>The table page at the end of a path of indices, the last index first.\<close>

primrec node :: "mem \<Rightarrow> u64 \<Rightarrow> u64 list \<Rightarrow> u64 option" where
  "node m pt [] = Some pt"
| "node m pt (i # is) =
    (case node m pt is of None \<Rightarrow> None
     | Some p \<Rightarrow> if entry m p i AND PTE_V \<noteq> 0 then Some (PTE2PA (entry m p i)) else None)"

definition paths :: "u64 list set" where
  "paths = {is. length is \<le> 2 \<and> (\<forall>i\<in>set is. unat i < 512)}"

definition tnodes :: "mem \<Rightarrow> u64 \<Rightarrow> u64 set" where
  "tnodes m pt = {p. \<exists>is\<in>paths. node m pt is = Some p}"

definition pt_tree :: "u64 \<Rightarrow> mem \<Rightarrow> u64 \<Rightarrow> bool" where
  "pt_tree e m pt \<longleftrightarrow> (\<forall>p\<in>tnodes m pt. valid_page e p)
     \<and> (\<forall>is\<in>paths. \<forall>js\<in>paths. \<forall>p. node m pt is = Some p \<and> node m pt js = Some p \<longrightarrow> is = js)"

text \<open>The level-0 entry for \<open>va\<close>.\<close>

definition leaf :: "mem \<Rightarrow> u64 \<Rightarrow> u64 \<Rightarrow> u64" where
  "leaf m pt va = (case node m pt [PX 1 va, PX 2 va] of None \<Rightarrow> 0 | Some p \<Rightarrow> entry m p (PX 0 va))"

lemma paths_Nil [simp]: "[] \<in> paths"
  by (simp add: paths_def)

lemma paths_Cons: "i # is \<in> paths \<longleftrightarrow> unat i < 512 \<and> length is \<le> 1 \<and> is \<in> paths"
  by (auto simp: paths_def)

lemma paths_va: "[PX 1 va, PX 2 va] \<in> paths" "[PX 2 va] \<in> paths"
  using PX_less by (simp_all add: paths_def)

lemma entry_st64_same [simp]: "entry (st64 m (p + 8 * i) v) p i = v"
  by (simp add: entry_def)

lemma entry_st64_other:
  assumes "p mod PGSIZE = 0" and "q mod PGSIZE = 0" and "unat i < 512" and "unat j < 512" and "q \<noteq> p \<or> j \<noteq> i"
  shows "entry (st64 m (p + 8 * i) v) q j = entry m q j"
  unfolding entry_def
proof (rule ld64_cong, rule st64_other)
  fix k :: u64 assume "k < 8"
  then have k: "unat k < 8" by (simp add: word_less_nat_alt)
  have ij: "unat (8 * i) = 8 * unat i" "unat (8 * j) = 8 * unat j"
    using assms(3,4) by (simp_all add: unat_word_ariths)
  have jk: "unat (8 * j + k) = 8 * unat j + unat k" using ij k assms(4) by (simp add: unat_add_u64)
  show "8 \<le> q + 8 * j + k - (p + 8 * i)"
  proof (cases "q = p")
    case True
    then have "unat j \<noteq> unat i" using assms(5) by (simp add: word_unat_eq_iff)
    moreover have e: "q + 8 * j + k - (p + 8 * i) = (8 * j + k) - 8 * i" using True by simp
    ultimately have "8 \<le> unat ((8 * j + k) - 8 * i)"
      using k assms(3) unfolding unat_sub_u64 ij jk by auto
    then show ?thesis unfolding e by (simp add: word_le_nat_alt)
  next
    case False
    have "unat (8 * j + k) < 4096" using jk k assms(4) by linarith
    then have "4096 \<le> unat (q + (8 * j + k) - p)" using assms(1,2) False by (intro page_offset) auto
    moreover have e: "q + 8 * j + k - (p + 8 * i) = (q + (8 * j + k) - p) - 8 * i" by simp
    ultimately have "8 \<le> unat ((q + (8 * j + k) - p) - 8 * i)"
      unfolding unat_sub_u64 [of _ "8 * i"] ij using assms(3) by auto
    then show ?thesis unfolding e by (simp add: word_le_nat_alt)
  qed
qed

lemma entry_zero_page:
  assumes "q mod PGSIZE = 0" and "r mod PGSIZE = 0" and "unat j < 512"
  shows "entry (memset m q 0 (ucast PGSIZE)) r j = (if r = q then 0 else entry m r j)"
proof -
  have off: "unat (8 * j + k) < 4096" if "k < 8" for k
  proof -
    have "unat (8 * j) = 8 * unat j" using assms(3) by (simp add: unat_word_ariths)
    moreover have "unat k < 8" using that by (simp add: word_less_nat_alt)
    ultimately show ?thesis using assms(3) by (simp add: unat_add_u64)
  qed
  show ?thesis
  proof (cases "r = q")
    case True
    have "ld64 (memset m q 0 (ucast PGSIZE)) (q + 8 * j) = ld64 (\<lambda>_. 0) (q + 8 * j)"
      using off by (intro ld64_cong) (simp add: memset_page add.assoc)
    then show ?thesis using True by (simp add: entry_def ld64_def)
  next
    case False
    have "ld64 (memset m q 0 (ucast PGSIZE)) (r + 8 * j) = ld64 m (r + 8 * j)"
    proof (rule ld64_cong)
      fix k :: u64 assume "k < 8"
      then have "4096 \<le> unat (r + (8 * j + k) - q)" using assms False off by (intro page_offset) auto
      then show "memset m q 0 (ucast PGSIZE) (r + 8 * j + k) = m (r + 8 * j + k)"
        by (simp add: memset_page add.assoc)
    qed
    then show ?thesis using False by (simp add: entry_def)
  qed
qed

lemma tnodesI: "is \<in> paths \<Longrightarrow> node m pt is = Some p \<Longrightarrow> p \<in> tnodes m pt"
  by (auto simp: tnodes_def)

lemma pt_treeD:
  assumes "pt_tree e m pt"
  shows "p \<in> tnodes m pt \<Longrightarrow> p mod PGSIZE = 0" "p \<in> tnodes m pt \<Longrightarrow> 0 < e \<Longrightarrow> p \<noteq> 0"
    "p \<in> tnodes m pt \<Longrightarrow> valid_page e p"
    "is \<in> paths \<Longrightarrow> js \<in> paths \<Longrightarrow> node m pt is = Some p \<Longrightarrow> node m pt js = Some p \<Longrightarrow> is = js"
  using assms by (auto simp: pt_tree_def valid_page_def)

text \<open>The valid entries above the leaves are those of before, or lead to pages that were added.\<close>

definition inner_from :: "mem \<Rightarrow> mem \<Rightarrow> u64 \<Rightarrow> bool" where
  "inner_from m m' pt \<longleftrightarrow> (\<forall>js r j. js \<in> paths \<and> length js < 2 \<and> node m' pt js = Some r \<and> unat j < 512 \<and> entry m' r j AND PTE_V \<noteq> 0
     \<longrightarrow> node m pt js = Some r \<and> entry m' r j = entry m r j \<or> (\<exists>x. entry m' r j = PA2PTE x OR PTE_V))"

lemma inner_from_refl [simp]: "inner_from m m pt"
  by (simp add: inner_from_def)

lemma inner_from_trans: "inner_from m m' pt \<Longrightarrow> inner_from m' m'' pt \<Longrightarrow> inner_from m m'' pt"
  unfolding inner_from_def by metis

text \<open>Storing a level-0 entry changes no path and no other entry.\<close>

lemma node_set_leaf:
  fixes v :: u64
  assumes tree: "pt_tree e m pt" and "is": "is \<in> paths" "length is = 2" "node m pt is = Some p" and i: "unat i < 512"
  defines "m' \<equiv> st64 m (p + 8 * i) v"
  shows "js \<in> paths \<Longrightarrow> node m' pt js = node m pt js" and "pt_tree e m' pt"
    and "tnodes m' pt = tnodes m pt"
    and "leaf m' pt va = (if [PX 0 va, PX 1 va, PX 2 va] = i # is then v else leaf m pt va)"
    and "inner_from m m' pt"
proof -
  have p: "p mod PGSIZE = 0" using tree tnodesI [OF "is"(1,3)] by (rule pt_treeD)
  show nodes: "node m' pt js = node m pt js" if "js \<in> paths" for js
    using that
  proof (induction js)
    case (Cons j js)
    then have js: "js \<in> paths" "unat j < 512" "length js \<le> 1" by (auto simp: paths_Cons)
    show ?case
    proof (cases "node m pt js")
      case (Some r)
      have "r \<noteq> p" using pt_treeD(4) [OF tree js(1) "is"(1)] Some "is"(2,3) js(3) by auto
      moreover have "r mod PGSIZE = 0" using tree tnodesI [OF js(1) Some] by (rule pt_treeD)
      ultimately have "entry m' r j = entry m r j"
        unfolding m'_def using p i js(2) by (intro entry_st64_other) auto
      then show ?thesis using Cons.IH [OF js(1)] Some by simp
    qed (use Cons.IH js in simp)
  qed simp
  then show tn: "tnodes m' pt = tnodes m pt" by (auto simp: tnodes_def)
  show "inner_from m m' pt"
    unfolding inner_from_def
  proof (intro allI impI disjI1, elim conjE)
    fix js r and j :: u64
    assume a: "js \<in> paths" "length js < 2" "node m' pt js = Some r" "unat j < (512 :: nat)"
    then have n: "node m pt js = Some r" using nodes by metis
    then have "r \<noteq> p" using pt_treeD(4) [OF tree a(1) "is"(1)] "is"(2,3) a(2) by auto
    moreover have "r mod PGSIZE = 0" using tree tnodesI [OF a(1) n] by (rule pt_treeD)
    ultimately have "entry m' r j = entry m r j"
      unfolding m'_def using p i a(4) by (intro entry_st64_other) auto
    then show "node m pt js = Some r \<and> entry m' r j = entry m r j" using n by blast
  qed
  show "pt_tree e m' pt"
    using tree unfolding pt_tree_def tn by (simp add: nodes)
  show "leaf m' pt va = (if [PX 0 va, PX 1 va, PX 2 va] = i # is then v else leaf m pt va)"
  proof (cases "node m pt [PX 1 va, PX 2 va]")
    case None
    then show ?thesis using "is"(3) nodes [OF paths_va(1)] by (auto simp: leaf_def)
  next
    case (Some r)
    have r: "r mod PGSIZE = 0" using tree tnodesI [OF paths_va(1) Some] by (rule pt_treeD)
    have rp: "r = p \<longleftrightarrow> [PX 1 va, PX 2 va] = is"
      using pt_treeD(4) [OF tree paths_va(1) "is"(1) Some] Some "is"(3) by auto
    show ?thesis
    proof (cases "r = p \<and> PX 0 va = i")
      case True
      then have "node m' pt [PX 1 va, PX 2 va] = Some p" using Some nodes [OF paths_va(1)] by metis
      moreover have "[PX 0 va, PX 1 va, PX 2 va] = i # is" using True rp by simp
      ultimately show ?thesis using True by (simp only: leaf_def option.case m'_def entry_st64_same if_True simp_thms)
    next
      case False
      then have "entry m' r (PX 0 va) = entry m r (PX 0 va)"
        unfolding m'_def using p r i PX_less by (intro entry_st64_other) auto
      then show ?thesis using False rp Some nodes [OF paths_va(1)] by (auto simp: leaf_def)
    qed
  qed
qed


lemma PTE_roundtrip:
  assumes "q mod PGSIZE = 0" and "q < PHYSTOP"
  shows "PTE2PA (PA2PTE q OR PTE_V) = q" and "(PA2PTE q OR PTE_V) AND PTE_V \<noteq> 0"
proof -
  have low: "\<not> bit q n" if "n < 12" for n
  proof -
    have "take_bit 12 q = 0" using assms(1) by (simp add: take_bit_eq_mod PGSIZE_def)
    then have "bit (take_bit 12 q) n = bit (0 :: u64) n" by simp
    then show ?thesis using that by (simp add: bit_take_bit_iff)
  qed
  have high: "\<not> bit q n" if "32 \<le> n" for n
  proof -
    have "unat q < 2 ^ 32" using assms(2) by (simp add: PHYSTOP_def KERNBASE_def word_less_nat_alt)
    then have "take_bit 32 q = q" by (simp add: word_unat_eq_iff unsigned_take_bit_eq take_bit_nat_eq_self)
    then have "bit (take_bit 32 q) n = bit q n" by simp
    then show ?thesis using that by (simp add: bit_take_bit_iff)
  qed
  show "PTE2PA (PA2PTE q OR PTE_V) = q"
  proof (rule bit_word_eqI)
    fix n assume "n < LENGTH(64)"
    show "bit (PTE2PA (PA2PTE q OR PTE_V)) n = bit q n"
    proof (cases "n < 12")
      case True
      then show ?thesis using low by (auto simp: PTE2PA_def bit_simps)
    next
      case False
      then have "bit (PTE2PA (PA2PTE q OR PTE_V)) n \<longleftrightarrow> n < 64 \<and> n - 2 < 64 \<and> bit q n"
        using \<open>n < LENGTH(64)\<close>
        by (auto simp: PTE2PA_def PA2PTE_def PTE_V_def bit_simps)
      then show ?thesis using \<open>n < LENGTH(64)\<close> by auto
    qed
  qed
  have "bit ((PA2PTE q OR PTE_V) AND PTE_V) 0" by (simp add: PTE_V_def bit_simps)
  then show "(PA2PTE q OR PTE_V) AND PTE_V \<noteq> 0" by auto
qed

text \<open>Hanging a fresh zeroed page below an invalid entry adds one node and no leaf.\<close>

lemma node_add_page:
  assumes tree: "pt_tree e m pt" and "is": "i # is \<in> paths" "node m pt is = Some p"
    and free: "entry m p i AND PTE_V = 0" and q: "valid_page e q" "q \<notin> tnodes m pt"
  defines "m' \<equiv> st64 (memset m q 0 (ucast PGSIZE)) (p + 8 * i) (PA2PTE q OR PTE_V)"
  shows "js \<in> paths \<Longrightarrow> node m' pt js = (if js = i # is then Some q else node m pt js)"
    and "pt_tree e m' pt" and "tnodes m' pt = insert q (tnodes m pt)" and "leaf m' pt va = leaf m pt va"
    and "inner_from m m' pt"
proof -
  have is': "is \<in> paths" "unat i < 512" "length is \<le> 1" using "is"(1) by (auto simp: paths_Cons)
  have pn: "p \<in> tnodes m pt" using is'(1) "is"(2) by (rule tnodesI)
  have p: "p mod PGSIZE = 0" "p \<noteq> q" using pt_treeD(1) [OF tree pn] pn q(2) by auto
  have qa: "q mod PGSIZE = 0" "q < PHYSTOP" using q(1) by (simp_all add: valid_page_def)
  note rt = PTE_roundtrip [OF qa]
  have e_q: "entry m' q j = 0" if "unat j < 512" for j
    unfolding m'_def using p qa is'(2) that
    by (simp add: entry_st64_other entry_zero_page)
  have e_p: "entry m' p i = PA2PTE q OR PTE_V" by (simp add: m'_def)
  have e_r: "entry m' r j = entry m r j"
    if "r \<in> tnodes m pt" "unat j < 512" "r \<noteq> p \<or> j \<noteq> i" for r j
  proof -
    have "r mod PGSIZE = 0" "r \<noteq> q" using pt_treeD(1) [OF tree that(1)] that(1) q(2) by auto
    then show ?thesis unfolding m'_def using p qa is'(2) that
      by (simp add: entry_st64_other entry_zero_page)
  qed
  have none: "node m pt (i # is) = None" using "is"(2) free by simp
  show nodes: "node m' pt js = (if js = i # is then Some q else node m pt js)" if "js \<in> paths" for js
    using that
  proof (induction js)
    case (Cons j js)
    then have js: "js \<in> paths" "unat j < 512" "length js \<le> 1" by (auto simp: paths_Cons)
    note IH = Cons.IH [OF js(1)]
    show ?case
    proof (cases "js = i # is")
      case True
      then have "node m' pt (j # js) = None" using IH e_q [OF js(2)] by simp
      moreover have "node m pt (j # js) = None" using True none by simp
      moreover have "j # js \<noteq> i # is" using True by auto
      ultimately show ?thesis by simp
    next
      case False
      show ?thesis
      proof (cases "node m pt js")
        case None
        moreover have "j # js \<noteq> i # is" using None "is"(2) by auto
        ultimately show ?thesis using IH False by simp
      next
        case (Some r)
        have r: "r \<in> tnodes m pt" using js(1) Some by (rule tnodesI)
        have rp: "r = p \<longleftrightarrow> js = is"
          using pt_treeD(4) [OF tree js(1) is'(1) Some] Some "is"(2) by auto
        show ?thesis
        proof (cases "r = p \<and> j = i")
          case True
          then show ?thesis using IH False Some rp e_p rt by simp
        next
          case no: False
          then have "entry m' r j = entry m r j" using e_r [OF r js(2)] by blast
          then have "node m' pt (j # js) = node m pt (j # js)" using IH False Some by simp
          moreover have "j # js \<noteq> i # is" using no rp by auto
          ultimately show ?thesis by (simp only: if_False)
        qed
      qed
    qed
  qed auto
  show "inner_from m m' pt"
    unfolding inner_from_def
  proof (intro allI impI, elim conjE)
    fix js r and j :: u64
    assume a: "js \<in> paths" "length js < 2" "node m' pt js = Some r" "unat j < (512 :: nat)" "entry m' r j AND PTE_V \<noteq> 0"
    show "node m pt js = Some r \<and> entry m' r j = entry m r j \<or> (\<exists>x. entry m' r j = PA2PTE x OR PTE_V)"
    proof (cases "js = i # is")
      case True
      then have "r = q" using nodes [OF a(1)] a(3) by simp
      then show ?thesis using e_q [OF a(4)] a(5) by simp
    next
      case False
      then have n: "node m pt js = Some r" using nodes [OF a(1)] a(3) by simp
      show ?thesis
      proof (cases "r = p \<and> j = i")
        case False
        then show ?thesis using n e_r [OF tnodesI [OF a(1) n] a(4)] by blast
      qed (use e_p in blast)
    qed
  qed
  show tn: "tnodes m' pt = insert q (tnodes m pt)"
  proof (intro equalityI subsetI)
    fix r assume "r \<in> tnodes m' pt"
    then obtain js where js: "js \<in> paths" "node m' pt js = Some r" unfolding tnodes_def by blast
    then show "r \<in> insert q (tnodes m pt)"
      using nodes [OF js(1)] tnodesI [OF js(1), of m pt r] by (simp split: if_splits)
  next
    fix r assume r: "r \<in> insert q (tnodes m pt)"
    show "r \<in> tnodes m' pt"
    proof (cases "r = q")
      case True
      have "node m' pt (i # is) = Some q" using nodes [OF "is"(1)] by (simp only: if_True simp_thms)
      then show ?thesis using True tnodesI [OF "is"(1)] by blast
    next
      case False
      then obtain js where js: "js \<in> paths" "node m pt js = Some r" using r unfolding tnodes_def by blast
      then have "js \<noteq> i # is" using none by (metis option.simps(3))
      then have "node m' pt js = Some r" using nodes [OF js(1)] js(2) by (simp only: if_False)
      then show ?thesis by (rule tnodesI [OF js(1)])
    qed
  qed
  show "pt_tree e m' pt"
    unfolding pt_tree_def tn
  proof (intro conjI ballI allI impI; (elim conjE)?)
    show "valid_page e r" if "r \<in> insert q (tnodes m pt)" for r
      using that q(1) pt_treeD(3) [OF tree] by blast
    show "ks = js" if "ks \<in> paths" "js \<in> paths" "node m' pt ks = Some r" "node m' pt js = Some r" for ks js r
    proof -
      have no: "node m pt ls \<noteq> Some q" if "ls \<in> paths" for ls using q(2) tnodesI [OF that] by blast
      show ?thesis
        using that nodes [OF that(1)] nodes [OF that(2)] no [OF that(1)] no [OF that(2)]
          pt_treeD(4) [OF tree that(1,2)] by (auto split: if_splits)
    qed
  qed
  show "leaf m' pt va = leaf m pt va"
  proof (cases "[PX 1 va, PX 2 va] = i # is")
    case True
    then have "node m' pt [PX 1 va, PX 2 va] = Some q" "node m pt [PX 1 va, PX 2 va] = None"
      using nodes [OF paths_va(1)] none by metis+
    then show ?thesis using e_q [OF PX_less] by (simp only: leaf_def option.case)
  next
    case False
    then have eq: "node m' pt [PX 1 va, PX 2 va] = node m pt [PX 1 va, PX 2 va]"
      using nodes [OF paths_va(1)] by metis
    show ?thesis
    proof (cases "node m pt [PX 1 va, PX 2 va]")
      case (Some r)
      have r: "r \<in> tnodes m pt" using paths_va(1) Some by (rule tnodesI)
      have "r \<noteq> p" using pt_treeD(4) [OF tree paths_va(1) is'(1) Some] Some "is"(2) is'(3) by auto
      then have "entry m' r (PX 0 va) = entry m r (PX 0 va)" using e_r [OF r PX_less] by blast
      then show ?thesis unfolding leaf_def eq Some by simp
    qed (simp only: leaf_def eq option.case)
  qed
qed


subsection \<open>walk and mappages on the tree\<close>

text \<open>An address space over an allocator whose free pages are none of its table pages.\<close>

definition vm_inv :: "'m memory_scheme \<Rightarrow> u64 \<Rightarrow> u64 list \<Rightarrow> bool" where
  "vm_inv s pt xs \<longleftrightarrow> calm s \<and> lock_free Lk_kmem s \<and> kmem_inv s xs \<and> pt_tree (kend s) (pmem s) pt
     \<and> tnodes (pmem s) pt \<inter> set xs = {}"

definition vpath :: "nat \<Rightarrow> u64 \<Rightarrow> u64 list" where
  "vpath l va = map (\<lambda>k. PX k va) [Suc l..<3]"

lemma vpath_simps: "vpath 2 va = []" "vpath 0 va = [PX 1 va, PX 2 va]"
    "l < 2 \<Longrightarrow> vpath l va = PX (Suc l) va # vpath (Suc l) va"
  by (auto simp: vpath_def upt_conv_Cons numeral_3_eq_3 numeral_2_eq_2 One_nat_def less_Suc_eq)

lemma vpath_paths: "l \<le> 2 \<Longrightarrow> vpath l va \<in> paths"
  using PX_less by (auto simp: vpath_def paths_def)

lemma kmem_inv_store:
  assumes inv: "kmem_inv s xs" and p: "p mod PGSIZE = 0" "p \<notin> set xs"
    and same: "\<And>a. 4096 \<le> unat (a - p) \<Longrightarrow> m a = pmem s a"
  shows "kmem_inv (s\<lparr>pmem := m\<rparr>) xs"
proof -
  have "\<forall>x\<in>set xs. x mod PGSIZE = 0 \<and> x \<noteq> p" using inv p(2) by (auto simp: kmem_inv_def valid_page_def)
  with same p(1) have "freelist_is m (freelist s) xs = freelist_is (pmem s) (freelist s) xs"
    by (rule freelist_is_page)
  then show ?thesis using inv by (simp add: kmem_inv_def)
qed

lemma entry_store_outside:
  assumes "p mod PGSIZE = 0" and "unat i < 512" and "4096 \<le> unat (a - p)"
  shows "st64 m (p + 8 * i) v a = m a"
proof (rule st64_other)
  have "unat (8 * i) = 8 * unat i" using assms(2) by (simp add: unat_word_ariths)
  moreover have e: "a - (p + 8 * i) = a - p - 8 * i" by simp
  ultimately have "8 \<le> unat (a - p - 8 * i)"
    unfolding unat_sub_u64 [of _ "8 * i"] using assms(2,3) by auto
  then show "8 \<le> a - (p + 8 * i)" unfolding e by (simp add: word_le_nat_alt)
qed

lemma walk_level_alloc:
  assumes "l \<le> 2" and "vm_inv s pt xs" and "node (pmem s) pt (vpath l va) = Some p"
  shows "\<exists>r t ys. walk_level l p va True s = Ret r t \<and> mem_frame s t \<and> vm_inv t pt ys
    \<and> set ys \<subseteq> set xs \<and> tnodes (pmem t) pt \<subseteq> tnodes (pmem s) pt \<union> set xs
    \<and> (\<forall>vb. leaf (pmem t) pt vb = leaf (pmem s) pt vb)
    \<and> (if r = 0 then ys = []
       else \<exists>q. node (pmem t) pt (vpath 0 va) = Some q \<and> r = q + 8 * PX 0 va)
    \<and> (\<forall>a. (\<forall>q\<in>tnodes (pmem s) pt \<union> set xs. 4096 \<le> unat (a - q)) \<longrightarrow> pmem t a = pmem s a)
    \<and> tnodes (pmem t) pt \<union> set ys = tnodes (pmem s) pt \<union> set xs \<and> inner_from (pmem s) (pmem t) pt"
  using assms
proof (induction l arbitrary: p s xs)
  case 0
  have p: "p \<in> tnodes (pmem s) pt" using vpath_paths [of 0] "0.prems"(3) by (intro tnodesI) auto
  have k: "0 < kend s" and tree: "pt_tree (kend s) (pmem s) pt"
    using "0.prems"(2) by (auto simp: vm_inv_def kmem_inv_def)
  have "p + 8 * PX 0 va \<noteq> 0"
  proof -
    have "valid_page (kend s) p" using pt_treeD(3) [OF tree p] .
    then have "unat p < 2281701376" "0 < unat p"
      using k by (auto simp: valid_page_def PHYSTOP_def KERNBASE_def word_less_nat_alt word_le_nat_alt)
    moreover have "unat (8 * PX 0 va) < 4096" using entry_offset [of 0 0 va] by simp
    ultimately have "unat (p + 8 * PX 0 va) \<noteq> 0" by (simp add: unat_add_u64)
    then show ?thesis by (metis unat_0)
  qed
  then show ?case using "0.prems" by (intro exI [of _ "p + 8 * PX 0 va"] exI [of _ s] exI [of _ xs]) auto
next
  case (Suc l)
  have l: "l < 2" and l': "l \<le> 2" using Suc.prems(1) by auto
  let ?i = "PX (Suc l) va" and ?is = "vpath (Suc l) va"
  have path: "vpath l va = ?i # ?is" using l by (rule vpath_simps)
  have ip: "?i # ?is \<in> paths" using vpath_paths [OF l', of va] unfolding path .
  have tree: "pt_tree (kend s) (pmem s) pt" and km: "kmem_inv s xs" and c: "calm s" "lock_free Lk_kmem s"
    and dis: "tnodes (pmem s) pt \<inter> set xs = {}"
    using Suc.prems(2) by (auto simp: vm_inv_def)
  have p: "p \<in> tnodes (pmem s) pt" using vpath_paths [OF Suc.prems(1)] Suc.prems(3) by (rule tnodesI)
  show ?case
  proof (cases "entry (pmem s) p ?i AND PTE_V = 0")
    case False
    then have "node (pmem s) pt (vpath l va) = Some (PTE2PA (entry (pmem s) p ?i))"
      using Suc.prems(3) path by simp
    from Suc.IH [OF l' Suc.prems(2) this] False show ?thesis by (simp add: entry_def Let_def)
  next
    case free: True
    show ?thesis
    proof (cases xs)
      case Nil
      then have "kalloc s = Ret 0 s" using kalloc_pop [OF c km] by simp
      then have "walk_level (Suc l) p va True s = Ret 0 s" using free by (simp add: entry_def)
      then show ?thesis using Suc.prems(2) Nil by (intro exI [of _ 0] exI [of _ s] exI [of _ "[]"]) auto
    next
      case (Cons q ys)
      obtain u where u: "kalloc s = Ret q u" "q \<noteq> 0" "valid_page (kend u) q" "kmem_inv u ys"
        "\<forall>a. pmem u a = (if unat (a - q) < 4096 then 5 else pmem s a)" "mem_frame s u"
        using kalloc_pop [OF c km] Cons by auto
      note fu = mem_frame_fields [OF u(6)]
      have q: "q \<notin> tnodes (pmem s) pt" "q \<in> set xs" using dis Cons by auto
      have pq: "p mod PGSIZE = 0" "q mod PGSIZE = 0" "p \<noteq> q" "p \<notin> set ys" "q \<notin> set ys"
        using pt_treeD(1) [OF tree p] u(3) q p dis Cons km by (auto simp: valid_page_def kmem_inv_def)
      let ?m = "st64 (memset (pmem s) q 0 (ucast PGSIZE)) (p + 8 * ?i) (PA2PTE q OR PTE_V)"
      have zero: "memset (pmem u) q 0 (ucast PGSIZE) = memset (pmem s) q 0 (ucast PGSIZE)"
        using u(5) by (simp add: memset_page fun_eq_iff)
      define v where "v = u\<lparr>pmem := ?m\<rparr>"
      have vp: "valid_page (kend s) q" using u(3) fu by simp
      note na = node_add_page [OF tree ip Suc.prems(3) free vp q(1)]
      have "kmem_inv (u\<lparr>pmem := memset (pmem s) q 0 (ucast PGSIZE)\<rparr>) ys"
        using u(5) by (intro kmem_inv_store [OF u(4) pq(2,5)]) (simp add: memset_page)
      from kmem_inv_store [OF this pq(1,4), of ?m]
      have kv: "kmem_inv v ys" using pq(1) PX_less by (simp add: v_def entry_store_outside)
      have fv: "mem_frame s v" using mem_frame_trans [OF u(6)] by (simp add: v_def)
      have tv: "tnodes (pmem v) pt = insert q (tnodes (pmem s) pt)" using na(3) by (simp add: v_def)
      have "insert q (tnodes (pmem s) pt) \<inter> set ys = {}" using dis Cons pq by auto
      then have inv_v: "vm_inv v pt ys"
        using c kv na(2) mem_frame_fields [OF fv] unfolding vm_inv_def tv by (simp add: v_def)
      have mv: "pmem v = ?m" by (simp add: v_def)
      have "node (pmem v) pt (vpath l va) = Some q"
        unfolding mv path using na(1) [OF ip] by (simp only: if_True simp_thms)
      from Suc.IH [OF l' inv_v this]
      obtain r t zs where t: "walk_level l q va True v = Ret r t" "mem_frame v t" "vm_inv t pt zs"
        "set zs \<subseteq> set ys" "tnodes (pmem t) pt \<subseteq> tnodes (pmem v) pt \<union> set ys"
        "\<forall>vb. leaf (pmem t) pt vb = leaf (pmem v) pt vb"
        "if r = 0 then zs = [] else \<exists>q. node (pmem t) pt (vpath 0 va) = Some q \<and> r = q + 8 * PX 0 va"
        "\<forall>a. (\<forall>q\<in>tnodes (pmem v) pt \<union> set ys. 4096 \<le> unat (a - q)) \<longrightarrow> pmem t a = pmem v a"
        "tnodes (pmem t) pt \<union> set zs = tnodes (pmem v) pt \<union> set ys" "inner_from (pmem v) (pmem t) pt"
        by blast
      have "inner_from (pmem s) (pmem v) pt" using na(5) by (simp add: v_def)
      then have inn: "inner_from (pmem s) (pmem t) pt" using t(10) by (rule inner_from_trans)
      have "walk_level (Suc l) p va True s = Ret r t"
        using free u(1,2) t(1) zero by (simp add: entry_def v_def Let_def)
      moreover have "leaf (pmem v) pt vb = leaf (pmem s) pt vb" for vb using na(4) by (simp add: v_def)
      moreover have "pmem v a = pmem s a" if "\<forall>q\<in>tnodes (pmem s) pt \<union> set xs. 4096 \<le> unat (a - q)" for a
      proof -
        have "4096 \<le> unat (a - p)" "4096 \<le> unat (a - q)" using that p q by blast+
        then show ?thesis using pq(1) PX_less by (simp add: mv entry_store_outside memset_page)
      qed
      ultimately show ?thesis
        using t(2-9) inn mem_frame_trans [OF fv t(2)] tv Cons q
        by (intro exI [of _ r] exI [of _ t] exI [of _ zs]) auto
    qed
  qed
qed


lemma same_page:
  assumes "va < MAXVA" and "vb < MAXVA"
  shows "[PX 0 va, PX 1 va, PX 2 va] = [PX 0 vb, PX 1 vb, PX 2 vb] \<longleftrightarrow> PGROUNDDOWN va = PGROUNDDOWN vb"
proof -
  have bits: "bit (PX l v) n \<longleftrightarrow> n < 9 \<and> bit v (12 + 9 * l + n)" for l v n
  proof -
    have "PX l v = take_bit 9 (drop_bit (12 + 9 * l) v)"
      by (simp add: PX_def take_bit_eq_mask mask_eq_exp_minus_1)
    then show ?thesis by (simp add: bit_simps)
  qed
  have rd: "bit (PGROUNDDOWN v) n \<longleftrightarrow> 12 \<le> n \<and> bit v n" for v n
  proof -
    have "PGSIZE - 1 = mask 12" by (simp add: PGSIZE_def mask_eq_exp_minus_1)
    then show ?thesis by (auto simp: PGROUNDDOWN_def bit_simps dest: bit_imp_le_length)
  qed
  have high: "\<not> bit v n" if "v < MAXVA" "39 \<le> n" for v n
  proof -
    have "unat v < 2 ^ 38" using that(1) by (simp add: MAXVA_def word_less_nat_alt)
    then have "take_bit 38 v = v" by (simp add: word_unat_eq_iff unsigned_take_bit_eq take_bit_nat_eq_self)
    then have "bit (take_bit 38 v) n = bit v n" by simp
    then show ?thesis using that(2) by (simp add: bit_take_bit_iff)
  qed
  show ?thesis
  proof
    assume eq: "[PX 0 va, PX 1 va, PX 2 va] = [PX 0 vb, PX 1 vb, PX 2 vb]"
    show "PGROUNDDOWN va = PGROUNDDOWN vb"
    proof (rule bit_word_eqI)
      fix n assume "n < LENGTH(64)"
      have "bit va n = bit vb n" if "12 \<le> n" "n < 39"
      proof -
        define l where "l = (n - 12) div 9"
        have n: "12 + 9 * l + (n - 12) mod 9 = n" using that(1) by (simp add: l_def)
        have "l < 3" using that by (simp add: l_def)
        then have "PX l va = PX l vb" using eq by (auto simp: numeral_3_eq_3 less_Suc_eq numeral_2_eq_2)
        then have "bit (PX l va) ((n - 12) mod 9) = bit (PX l vb) ((n - 12) mod 9)" by simp
        then show ?thesis unfolding bits n by simp
      qed
      then show "bit (PGROUNDDOWN va) n = bit (PGROUNDDOWN vb) n"
        using high [OF assms(1), of n] high [OF assms(2), of n] unfolding rd by (meson not_le)
    qed
  next
    assume eq: "PGROUNDDOWN va = PGROUNDDOWN vb"
    have "PX l va = PX l vb" for l
    proof (rule bit_word_eqI)
      fix n
      have "bit (PGROUNDDOWN va) (12 + 9 * l + n) = bit (PGROUNDDOWN vb) (12 + 9 * l + n)" using eq by simp
      then show "bit (PX l va) n = bit (PX l vb) n" unfolding bits rd by auto
    qed
    then show "[PX 0 va, PX 1 va, PX 2 va] = [PX 0 vb, PX 1 vb, PX 2 vb]" by simp
  qed
qed

lemma page_aligned_round:
  assumes "va mod PGSIZE = 0"
  shows "PGROUNDDOWN va = va" and "va < MAXVA \<Longrightarrow> PGROUNDDOWN (va + PGSIZE - 1) = va"
proof -
  show "PGROUNDDOWN va = va" using assms by (simp add: PGROUNDDOWN_def round_down)
  assume "va < MAXVA"
  then have "unat va < 274877906944" by (simp add: MAXVA_def word_less_nat_alt)
  have e: "va + PGSIZE - 1 = va + 4095" by (simp add: PGSIZE_def)
  have "unat (va + 4095 - va) < 4096 - unat va mod 4096"
    using assms unat_page_mod(1) [of va] by simp
  then show "PGROUNDDOWN (va + PGSIZE - 1) = va"
    using page_split(1) [of "va + 4095" va] \<open>PGROUNDDOWN va = va\<close> by (simp add: e)
qed

lemma leaf_entry:
  assumes "pt_tree (kend s) (pmem s) pt" and "node (pmem s) pt (vpath 0 va) = Some q"
  shows "ld64 (pmem s) (q + 8 * PX 0 va) = leaf (pmem s) pt va"
  using assms by (simp add: leaf_def vpath_simps(2) entry_def del: node.simps)

lemma mappages_page:
  assumes inv: "vm_inv s pt xs" and va: "va mod PGSIZE = 0" "va < MAXVA"
    and free: "leaf (pmem s) pt va AND PTE_V = 0"
  shows "\<exists>r t ys. mappages pt va PGSIZE pa perm s = Ret r t \<and> mem_frame s t \<and> vm_inv t pt ys
    \<and> set ys \<subseteq> set xs \<and> (r = 0 \<or> r = -1 \<and> ys = [])
    \<and> (\<forall>vb. leaf (pmem t) pt vb = (if r = 0 \<and> [PX 0 vb, PX 1 vb, PX 2 vb] = [PX 0 va, PX 1 va, PX 2 va] then PA2PTE pa OR perm OR PTE_V
         else leaf (pmem s) pt vb))
    \<and> (\<forall>a. (\<forall>q\<in>tnodes (pmem s) pt \<union> set xs. 4096 \<le> unat (a - q)) \<longrightarrow> pmem t a = pmem s a)
    \<and> tnodes (pmem t) pt \<union> set ys = tnodes (pmem s) pt \<union> set xs \<and> inner_from (pmem s) (pmem t) pt"
proof -
  let ?v = "PA2PTE pa OR perm OR PTE_V"
  have eq: "mappages pt va PGSIZE pa perm s = mappages_loop pt va va pa perm s"
    using page_aligned_round [OF va(1)] va(2) by (simp add: mappages_def)
  have "node (pmem s) pt (vpath 2 va) = Some pt" by (simp add: vpath_simps)
  from walk_level_alloc [OF _ inv this]
  obtain r t ys where t: "walk_level 2 pt va True s = Ret r t" "mem_frame s t" "vm_inv t pt ys"
    "set ys \<subseteq> set xs" "tnodes (pmem t) pt \<subseteq> tnodes (pmem s) pt \<union> set xs"
    "\<forall>vb. leaf (pmem t) pt vb = leaf (pmem s) pt vb"
    "if r = 0 then ys = [] else \<exists>q. node (pmem t) pt (vpath 0 va) = Some q \<and> r = q + 8 * PX 0 va"
    "\<forall>a. (\<forall>q\<in>tnodes (pmem s) pt \<union> set xs. 4096 \<le> unat (a - q)) \<longrightarrow> pmem t a = pmem s a"
    "tnodes (pmem t) pt \<union> set ys = tnodes (pmem s) pt \<union> set xs" "inner_from (pmem s) (pmem t) pt"
    by blast
  have w: "walk pt va True s = Ret r t" using va(2) t(1) by (simp add: walk_def)
  show ?thesis
  proof (cases "r = 0")
    case True
    then have "mappages pt va PGSIZE pa perm s = Ret (-1) t"
      unfolding eq by (subst mappages_loop.simps) (simp add: w)
    then show ?thesis using t True by (intro exI [of _ "-1"] exI [of _ t] exI [of _ ys]) auto
  next
    case False
    then obtain q where q: "node (pmem t) pt (vpath 0 va) = Some q" "r = q + 8 * PX 0 va" using t(7) by auto
    have tree: "pt_tree (kend t) (pmem t) pt" using t(3) by (simp add: vm_inv_def)
    have ld: "ld64 (pmem t) r = leaf (pmem s) pt va" using leaf_entry [OF tree q(1)] t(6) q(2) by simp
    let ?u = "t\<lparr>pmem := st64 (pmem t) r ?v\<rparr>"
    have res: "mappages pt va PGSIZE pa perm s = Ret 0 ?u"
      unfolding eq using False free by (subst mappages_loop.simps) (simp add: w ld)
    have path: "vpath 0 va \<in> paths" "length (vpath 0 va) = 2"
      using vpath_paths [of 0] by (simp_all add: vpath_simps(2))
    note sl = node_set_leaf [OF tree path q(1) PX_less [of 0 va], where v = ?v, folded q(2)]
    have qn: "q \<in> tnodes (pmem t) pt" using path(1) q(1) by (rule tnodesI)
    have "q mod PGSIZE = 0" using tree qn by (rule pt_treeD)
    moreover have "q \<notin> set ys" using qn t(3) by (auto simp: vm_inv_def)
    ultimately have "kmem_inv ?u ys"
      using t(3) PX_less [of 0 va] entry_store_outside q(2)
      by (intro kmem_inv_store [of t ys q]) (auto simp: vm_inv_def)
    then have "vm_inv ?u pt ys"
      using t(3) sl(2,3) by (simp add: vm_inv_def)
    moreover have "leaf (pmem ?u) pt vb = (if [PX 0 vb, PX 1 vb, PX 2 vb] = [PX 0 va, PX 1 va, PX 2 va] then ?v else leaf (pmem s) pt vb)" for vb
    proof -
      have "PX 0 va # vpath 0 va = [PX 0 va, PX 1 va, PX 2 va]" by (simp only: vpath_simps(2))
      then show ?thesis using sl(4) [of vb] t(6) by simp
    qed
    moreover have "tnodes (pmem ?u) pt \<union> set ys = tnodes (pmem s) pt \<union> set xs" using sl(3) t(9) by simp
    moreover have "inner_from (pmem s) (pmem ?u) pt" using inner_from_trans [OF t(10) sl(5)] by simp
    moreover have "pmem ?u a = pmem s a" if "\<forall>q\<in>tnodes (pmem s) pt \<union> set xs. 4096 \<le> unat (a - q)" for a
    proof -
      have "4096 \<le> unat (a - q)" using that qn t(5) by blast
      then have "st64 (pmem t) r ?v a = pmem t a"
        unfolding q(2) using \<open>q mod PGSIZE = 0\<close> PX_less [of 0 va] by (intro entry_store_outside)
      then show ?thesis using t(8) that by simp
    qed
    ultimately show ?thesis
      using res t(4) mem_frame_trans [OF t(2)] by (intro exI [of _ 0] exI [of _ ?u] exI [of _ ys]) simp
  qed
qed


subsection \<open>Properties\<close>

text \<open>Every address of the area is mapped for the user.\<close>

definition all_mapped :: "mem \<Rightarrow> u64 \<Rightarrow> u64 \<Rightarrow> u64 \<Rightarrow> bool" where
  "all_mapped m pt a len \<longleftrightarrow> (\<forall>va. unat (va - a) < unat len \<longrightarrow> umem m pt va \<noteq> None)"

text \<open>mapping one page. On a well-formed tree with the page not mapped, \<open>mappages\<close> returns 0, after
  which exactly the entry for that page has changed and refers to \<open>pa\<close>, or -1 when it ran out of
  pages, after which no entry has changed. The table pages still form a tree disjoint from the free
  pages, and no other memory is touched.\<close>

theorem mappages_correct:
  assumes "vm_inv s pt xs" and "va mod PGSIZE = 0" and "va < MAXVA"
    and "leaf (pmem s) pt va AND PTE_V = 0"
  shows "\<exists>r t ys. mappages pt va PGSIZE pa perm s = Ret r t \<and> vm_inv t pt ys
    \<and> (r = 0 \<or> r = -1 \<and> ys = [])
    \<and> (\<forall>vb<MAXVA. leaf (pmem t) pt vb = (if r = 0 \<and> PGROUNDDOWN vb = va then PA2PTE pa OR perm OR PTE_V
         else leaf (pmem s) pt vb))
    \<and> (\<forall>a. (\<forall>q\<in>tnodes (pmem s) pt \<union> set xs. 4096 \<le> unat (a - q)) \<longrightarrow> pmem t a = pmem s a)"
proof -
  obtain r t ys where t: "mappages pt va PGSIZE pa perm s = Ret r t" "vm_inv t pt ys" "r = 0 \<or> r = -1 \<and> ys = []"
    "\<forall>vb. leaf (pmem t) pt vb = (if r = 0 \<and> [PX 0 vb, PX 1 vb, PX 2 vb] = [PX 0 va, PX 1 va, PX 2 va] then PA2PTE pa OR perm OR PTE_V
         else leaf (pmem s) pt vb)"
    "\<forall>a. (\<forall>q\<in>tnodes (pmem s) pt \<union> set xs. 4096 \<le> unat (a - q)) \<longrightarrow> pmem t a = pmem s a"
    using mappages_page [OF assms, of pa perm] by blast
  have "leaf (pmem t) pt vb = (if r = 0 \<and> PGROUNDDOWN vb = va then PA2PTE pa OR perm OR PTE_V else leaf (pmem s) pt vb)"
    if "vb < MAXVA" for vb
    using t(4) same_page [OF that assms(3)] page_aligned_round(1) [OF assms(2)] by metis
  then show ?thesis using t(1,2,3,5) by blast
qed

text \<open>C13: \<open>copyout\<close> returns 0 exactly when every destination address is mapped for the user, and the
  process then reads the source bytes there and its old memory everywhere else; in every case the
  address space keeps its mappings and only the physical pages it maps are written.\<close>

theorem copyout_correct:
  assumes "uspace (pmem s) pt"
  shows "\<exists>t. copyout pt dst src len s = Ret (if all_mapped (pmem s) pt dst len then 0 else -1) t
    \<and> (\<forall>va. upage (pmem t) pt va = upage (pmem s) pt va)
    \<and> (all_mapped (pmem s) pt dst len \<longrightarrow> (\<forall>va. umem (pmem t) pt va
         = (if unat (va - dst) < unat len then Some (src (unat (va - dst))) else umem (pmem s) pt va)))
    \<and> (\<forall>a. (\<forall>va. upage (pmem s) pt va \<noteq> 0 \<longrightarrow> 4096 \<le> unat (a - upage (pmem s) pt va)) \<longrightarrow> pmem t a = pmem s a)"
  using copyout_spec [OF assms, of dst src len] unfolding all_mapped_def by blast

text \<open>\<open>copyin\<close> changes nothing but its destination; it returns 0 exactly when every source address
  is mapped for the user, and the destination then holds the bytes the process reads there.\<close>

theorem copyin_correct:
  "\<exists>d. copyin pt dst src len s = Ret (if all_mapped (pmem s) pt src len then 0 else -1, d) s
    \<and> (all_mapped (pmem s) pt src len \<longrightarrow> (\<forall>i<unat len. umem (pmem s) pt (src + of_nat i) = Some (d i)))
    \<and> (\<forall>i\<ge>unat len. d i = dst i)"
  using copyin_spec [of pt dst 0 src len s] unfolding all_mapped_def copyin_def by simp

end
