(* ===== verification/Fs.thy ===== *)
theory Fs
  imports Store Vm
begin

unbundle bit_operations_syntax

text \<open>
  The file system (\<^verbatim>\<open>kernel/fs.c\<close>): block allocation in the free bitmap, inodes and the in-memory inode
  table, file contents through direct and indirect blocks, directories, and path names. On-disk
  structures are read and written at their byte offsets in the blocks of \<^verbatim>\<open>kernel/fs.h\<close>.

  A pointer to an inode is its index in the table. A path is the list of its bytes before the NUL. The
  local variable \<open>de\<close> of \<open>dirlookup\<close> and \<open>dirlink\<close>, which they pass by address, lives in memory at
  \<open>de_addr\<close>.
\<close>

subsection \<open>Data\<close>

definition NINODE :: nat where "NINODE = 50"
definition ROOTINO :: u32 where "ROOTINO = 1"
definition FSMAGIC :: u32 where "FSMAGIC = 0x10203040"
definition NDIRECT :: nat where "NDIRECT = 12"
definition NINDIRECT :: nat where "NINDIRECT = BSIZE div 4"
definition MAXFILE :: nat where "MAXFILE = NDIRECT + NINDIRECT"
definition DIRSIZ :: nat where "DIRSIZ = 14"
definition IPB :: u32 where "IPB = 16"
definition BPB :: nat where "BPB = BSIZE * 8"
definition T_DIR :: u16 where "T_DIR = 1"
definition T_FILE :: u16 where "T_FILE = 2"
definition T_DEVICE :: u16 where "T_DEVICE = 3"

record inode =
  i_dev :: u32
  i_inum :: u32
  i_ref :: int
  i_valid :: bool
  i_type :: u16
  i_major :: u16
  i_minor :: u16
  i_nlink :: u16
  i_size :: u32
  i_addrs :: "nat \<Rightarrow> u32"

record fsst = logst +
  itable :: "nat \<Rightarrow> inode"
  fs_sb :: superblock
  de_addr :: u64

definition IBLOCK :: "u32 \<Rightarrow> superblock \<Rightarrow> u32" where
  "IBLOCK i sb = i div IPB + sb_inodestart sb"

definition BBLOCK :: "nat \<Rightarrow> superblock \<Rightarrow> u32" where
  "BBLOCK b sb = of_nat (b div BPB) + sb_bmapstart sb"

definition upd_inode :: "nat \<Rightarrow> (inode \<Rightarrow> inode) \<Rightarrow> 'm fsst_scheme \<Rightarrow> 'm fsst_scheme" where
  "upd_inode i f s = s\<lparr>itable := (itable s)(i := f (itable s i))\<rparr>"

definition ld16 :: "block \<Rightarrow> nat \<Rightarrow> u16" where
  "ld16 d k = ucast (d k) OR push_bit 8 (ucast (d (k + 1)))"

definition st16 :: "nat \<Rightarrow> u16 \<Rightarrow> block \<Rightarrow> block" where
  "st16 k v d = d(k := ucast v, k + 1 := ucast (drop_bit 8 v))"

text \<open>\<^verbatim>\<open>struct dinode\<close> number \<open>i\<close> of its block starts at byte \<open>64 * (i % IPB)\<close>.\<close>

definition dinode_at :: "u32 \<Rightarrow> nat" where
  "dinode_at i = 64 * unat (i mod IPB)"

definition set_data :: "nat \<Rightarrow> (block \<Rightarrow> block) \<Rightarrow> 'm fsst_scheme \<Rightarrow> 'm fsst_scheme" where
  "set_data b f s = upd_buf b (\<lambda>x. x\<lparr>b_data := f (b_data x)\<rparr>) s"

subsection \<open>Super block and free blocks\<close>

definition readsb :: "u32 \<Rightarrow> 'm fsst_scheme \<Rightarrow> (superblock, 'm fsst_scheme) outcome" where
  "readsb dev s =
    bnd (bread dev 1 s) (\<lambda>bp s.
    let d = b_data (bufs s bp);
        sb = \<lparr>sb_magic = ld32 d 0, sb_size = ld32 d 4, sb_nblocks = ld32 d 8, sb_ninodes = ld32 d 12,
              sb_nlog = ld32 d 16, sb_logstart = ld32 d 20, sb_inodestart = ld32 d 24, sb_bmapstart = ld32 d 28\<rparr>
    in bnd (brelse bp s) (\<lambda>_ s. Ret sb s))"

definition fsinit :: "u32 \<Rightarrow> 'm fsst_scheme \<Rightarrow> (unit, 'm fsst_scheme) outcome" where
  "fsinit dev s =
    bnd (readsb dev s) (\<lambda>sb s.
    let s = s\<lparr>fs_sb := sb\<rparr>
    in if sb_magic (fs_sb s) \<noteq> FSMAGIC then Panic ''invalid file system'' else initlog dev (fs_sb s) s)"

definition bzero :: "u32 \<Rightarrow> u32 \<Rightarrow> 'm fsst_scheme \<Rightarrow> (unit, 'm fsst_scheme) outcome" where
  "bzero dev bno s =
    bnd (bread dev bno s) (\<lambda>bp s.
    let s = set_data bp (\<lambda>_ _. 0) s
    in bnd (log_write bp s) (\<lambda>_ s. brelse bp s))"

text \<open>Bit \<open>bi\<close> of a bitmap block.\<close>

definition bm_mask :: "nat \<Rightarrow> u8" where "bm_mask bi = push_bit (bi mod 8) 1"
definition bm_free :: "block \<Rightarrow> nat \<Rightarrow> bool" where "bm_free d bi \<longleftrightarrow> d (bi div 8) AND bm_mask bi = 0"
definition bm_set :: "nat \<Rightarrow> block \<Rightarrow> block" where
  "bm_set bi d = d(bi div 8 := d (bi div 8) OR bm_mask bi)"
definition bm_clear :: "nat \<Rightarrow> block \<Rightarrow> block" where
  "bm_clear bi d = d(bi div 8 := d (bi div 8) AND NOT (bm_mask bi))"

definition balloc_one :: "u32 \<Rightarrow> nat \<Rightarrow> 'm fsst_scheme \<Rightarrow> (u32 option, 'm fsst_scheme) outcome" where
  "balloc_one dev b s =
    bnd (bread dev (BBLOCK b (fs_sb s)) s) (\<lambda>bp s.
    case find (bm_free (b_data (bufs s bp))) [0..<min BPB (unat (sb_size (fs_sb s)) - b)] of
      Some bi \<Rightarrow>
        let s = set_data bp (bm_set bi) s
        in bnd (log_write bp s) (\<lambda>_ s.
           bnd (brelse bp s) (\<lambda>_ s.
           bnd (bzero dev (of_nat (b + bi)) s) (\<lambda>_ s. Ret (Some (of_nat (b + bi))) s)))
    | None \<Rightarrow> bnd (brelse bp s) (\<lambda>_ s. Ret None s))"

definition balloc :: "u32 \<Rightarrow> 'm fsst_scheme \<Rightarrow> (u32, 'm fsst_scheme) outcome" where
  "balloc dev s =
    bnd (for_find (map (\<lambda>k. k * BPB) [0..<(unat (sb_size (fs_sb s)) + BPB - 1) div BPB]) (balloc_one dev) s)
      (\<lambda>r s. case r of Some b \<Rightarrow> Ret b s | None \<Rightarrow> Panic ''balloc: out of blocks'')"

definition bfree :: "u32 \<Rightarrow> u32 \<Rightarrow> 'm fsst_scheme \<Rightarrow> (unit, 'm fsst_scheme) outcome" where
  "bfree dev b s =
    bnd (bread dev (BBLOCK (unat b) (fs_sb s)) s) (\<lambda>bp s.
    let bi = unat b mod BPB
    in if bm_free (b_data (bufs s bp)) bi then Panic ''freeing free block''
       else
         let s = set_data bp (bm_clear bi) s
         in bnd (log_write bp s) (\<lambda>_ s. brelse bp s))"

subsection \<open>Inodes\<close>

definition iinit :: "'m fsst_scheme \<Rightarrow> 'm fsst_scheme" where
  "iinit s =
    fold (\<lambda>i s. initsleeplock (Lk_inode i) ''inode'' s) [0..<NINODE] (initlock Lk_itable ''itable'' s)"

definition iget :: "u32 \<Rightarrow> u32 \<Rightarrow> 'm fsst_scheme \<Rightarrow> (nat, 'm fsst_scheme) outcome" where
  "iget dev inum s =
    bnd (acquire Lk_itable s) (\<lambda>_ s.
    case find (\<lambda>i. i_ref (itable s i) > 0 \<and> i_dev (itable s i) = dev \<and> i_inum (itable s i) = inum) [0..<NINODE] of
      Some ip \<Rightarrow>
        let s = upd_inode ip (\<lambda>x. x\<lparr>i_ref := i_ref x + 1\<rparr>) s
        in bnd (release Lk_itable s) (\<lambda>_ s. Ret ip s)
    | None \<Rightarrow>
        (case find (\<lambda>i. i_ref (itable s i) = 0) [0..<NINODE] of
           None \<Rightarrow> Panic ''iget: no inodes''
         | Some ip \<Rightarrow>
             let s = upd_inode ip (\<lambda>x. x\<lparr>i_dev := dev, i_inum := inum, i_ref := 1, i_valid := False\<rparr>) s
             in bnd (release Lk_itable s) (\<lambda>_ s. Ret ip s)))"

definition ialloc_one :: "u32 \<Rightarrow> u16 \<Rightarrow> nat \<Rightarrow> 'm fsst_scheme \<Rightarrow> (nat option, 'm fsst_scheme) outcome" where
  "ialloc_one dev ty inum s =
    bnd (bread dev (IBLOCK (of_nat inum) (fs_sb s)) s) (\<lambda>bp s.
    let o' = dinode_at (of_nat inum)
    in if ld16 (b_data (bufs s bp)) o' = 0 then
         let s = set_data bp (\<lambda>d k. if o' \<le> k \<and> k < o' + 64 then 0 else d k) s;
             s = set_data bp (st16 o' ty) s
         in bnd (log_write bp s) (\<lambda>_ s.
            bnd (brelse bp s) (\<lambda>_ s.
            bnd (iget dev (of_nat inum) s) (\<lambda>ip s. Ret (Some ip) s)))
       else bnd (brelse bp s) (\<lambda>_ s. Ret None s))"

definition ialloc :: "u32 \<Rightarrow> u16 \<Rightarrow> 'm fsst_scheme \<Rightarrow> (nat, 'm fsst_scheme) outcome" where
  "ialloc dev ty s =
    bnd (for_find [1..<unat (sb_ninodes (fs_sb s))] (ialloc_one dev ty) s)
      (\<lambda>r s. case r of Some ip \<Rightarrow> Ret ip s | None \<Rightarrow> Panic ''ialloc: no inodes'')"

text \<open>The fields of an in-memory inode stored into, and loaded from, a \<^verbatim>\<open>struct dinode\<close>.\<close>

definition put_dinode :: "nat \<Rightarrow> inode \<Rightarrow> block \<Rightarrow> block" where
  "put_dinode o' ip d =
    (let d = st16 o' (i_type ip) d;
         d = st16 (o' + 2) (i_major ip) d;
         d = st16 (o' + 4) (i_minor ip) d;
         d = st16 (o' + 6) (i_nlink ip) d;
         d = st32 (o' + 8) (i_size ip) d
     in fold (\<lambda>k. st32 (o' + 12 + 4 * k) (i_addrs ip k)) [0..<NDIRECT + 1] d)"

definition get_dinode :: "block \<Rightarrow> nat \<Rightarrow> inode \<Rightarrow> inode" where
  "get_dinode d o' ip = ip\<lparr>i_type := ld16 d o', i_major := ld16 d (o' + 2), i_minor := ld16 d (o' + 4),
     i_nlink := ld16 d (o' + 6), i_size := ld32 d (o' + 8),
     i_addrs := (\<lambda>k. if k < NDIRECT + 1 then ld32 d (o' + 12 + 4 * k) else i_addrs ip k)\<rparr>"

definition iupdate :: "nat \<Rightarrow> 'm fsst_scheme \<Rightarrow> (unit, 'm fsst_scheme) outcome" where
  "iupdate ip s =
    (let x = itable s ip
     in bnd (bread (i_dev x) (IBLOCK (i_inum x) (fs_sb s)) s) (\<lambda>bp s.
        let s = set_data bp (put_dinode (dinode_at (i_inum x)) (itable s ip)) s
        in bnd (log_write bp s) (\<lambda>_ s. brelse bp s)))"

definition idup :: "nat \<Rightarrow> 'm fsst_scheme \<Rightarrow> (nat, 'm fsst_scheme) outcome" where
  "idup ip s =
    bnd (acquire Lk_itable s) (\<lambda>_ s.
    let s = upd_inode ip (\<lambda>x. x\<lparr>i_ref := i_ref x + 1\<rparr>) s
    in bnd (release Lk_itable s) (\<lambda>_ s. Ret ip s))"

definition ilock :: "nat \<Rightarrow> 'm fsst_scheme \<Rightarrow> (unit, 'm fsst_scheme) outcome" where
  "ilock ip s =
    (if i_ref (itable s ip) < 1 then Panic ''ilock''
     else
       bnd (acquiresleep (Lk_inode ip) s) (\<lambda>_ s.
       if \<not> i_valid (itable s ip) then
         let x = itable s ip
         in bnd (bread (i_dev x) (IBLOCK (i_inum x) (fs_sb s)) s) (\<lambda>bp s.
            let s = upd_inode ip (get_dinode (b_data (bufs s bp)) (dinode_at (i_inum x))) s
            in bnd (brelse bp s) (\<lambda>_ s.
               let s = upd_inode ip (\<lambda>x. x\<lparr>i_valid := True\<rparr>) s
               in if i_type (itable s ip) = 0 then Panic ''ilock: no type'' else Ret () s))
       else Ret () s))"

definition iunlock :: "nat \<Rightarrow> 'm fsst_scheme \<Rightarrow> (unit, 'm fsst_scheme) outcome" where
  "iunlock ip s =
    bnd (holdingsleep (Lk_inode ip) s) (\<lambda>h s.
    if \<not> h \<or> i_ref (itable s ip) < 1 then Panic ''iunlock'' else releasesleep (Lk_inode ip) s)"

subsection \<open>Inode contents\<close>

definition bmap :: "nat \<Rightarrow> u32 \<Rightarrow> 'm fsst_scheme \<Rightarrow> (u32, 'm fsst_scheme) outcome" where
  "bmap ip bn s =
    (if unat bn < NDIRECT then
       let addr = i_addrs (itable s ip) (unat bn)
       in if addr = 0 then
            bnd (balloc (i_dev (itable s ip)) s) (\<lambda>addr s.
            Ret addr (upd_inode ip (\<lambda>x. x\<lparr>i_addrs := (i_addrs x)(unat bn := addr)\<rparr>) s))
          else Ret addr s
     else
       let bn = bn - of_nat NDIRECT
       in if unat bn < NINDIRECT then
            bnd (let addr = i_addrs (itable s ip) NDIRECT
                 in if addr = 0 then
                      bnd (balloc (i_dev (itable s ip)) s) (\<lambda>addr s.
                      Ret addr (upd_inode ip (\<lambda>x. x\<lparr>i_addrs := (i_addrs x)(NDIRECT := addr)\<rparr>) s))
                    else Ret addr s) (\<lambda>addr s.
            bnd (bread (i_dev (itable s ip)) addr s) (\<lambda>bp s.
            bnd (let addr = ld32 (b_data (bufs s bp)) (4 * unat bn)
                 in if addr = 0 then
                      bnd (balloc (i_dev (itable s ip)) s) (\<lambda>addr s.
                      let s = set_data bp (st32 (4 * unat bn) addr) s
                      in bnd (log_write bp s) (\<lambda>_ s. Ret addr s))
                    else Ret addr s) (\<lambda>addr s.
            bnd (brelse bp s) (\<lambda>_ s. Ret addr s))))
          else Panic ''bmap: out of range'')"

definition itrunc_direct :: "nat \<Rightarrow> nat \<Rightarrow> 'm fsst_scheme \<Rightarrow> (unit, 'm fsst_scheme) outcome" where
  "itrunc_direct ip i s =
    (if i_addrs (itable s ip) i \<noteq> 0 then
       bnd (bfree (i_dev (itable s ip)) (i_addrs (itable s ip) i) s) (\<lambda>_ s.
       Ret () (upd_inode ip (\<lambda>x. x\<lparr>i_addrs := (i_addrs x)(i := 0)\<rparr>) s))
     else Ret () s)"

definition itrunc :: "nat \<Rightarrow> 'm fsst_scheme \<Rightarrow> (unit, 'm fsst_scheme) outcome" where
  "itrunc ip s =
    bnd (for_each [0..<NDIRECT] (itrunc_direct ip) s) (\<lambda>_ s.
    bnd (if i_addrs (itable s ip) NDIRECT \<noteq> 0 then
           bnd (bread (i_dev (itable s ip)) (i_addrs (itable s ip) NDIRECT) s) (\<lambda>bp s.
           bnd (for_each [0..<NINDIRECT] (\<lambda>j s.
             let a = ld32 (b_data (bufs s bp)) (4 * j)
             in if a \<noteq> 0 then bfree (i_dev (itable s ip)) a s else Ret () s) s) (\<lambda>_ s.
           bnd (brelse bp s) (\<lambda>_ s.
           bnd (bfree (i_dev (itable s ip)) (i_addrs (itable s ip) NDIRECT) s) (\<lambda>_ s.
           Ret () (upd_inode ip (\<lambda>x. x\<lparr>i_addrs := (i_addrs x)(NDIRECT := 0)\<rparr>) s)))))
         else Ret () s) (\<lambda>_ s.
    iupdate ip (upd_inode ip (\<lambda>x. x\<lparr>i_size := 0\<rparr>) s)))"

definition iput :: "nat \<Rightarrow> 'm fsst_scheme \<Rightarrow> (unit, 'm fsst_scheme) outcome" where
  "iput ip s =
    bnd (acquire Lk_itable s) (\<lambda>_ s.
    bnd (if i_ref (itable s ip) = 1 \<and> i_valid (itable s ip) \<and> i_nlink (itable s ip) = 0 then
           bnd (acquiresleep (Lk_inode ip) s) (\<lambda>_ s.
           bnd (release Lk_itable s) (\<lambda>_ s.
           bnd (itrunc ip s) (\<lambda>_ s.
           bnd (iupdate ip (upd_inode ip (\<lambda>x. x\<lparr>i_type := 0\<rparr>) s)) (\<lambda>_ s.
           bnd (releasesleep (Lk_inode ip) (upd_inode ip (\<lambda>x. x\<lparr>i_valid := False\<rparr>) s)) (\<lambda>_ s.
           acquire Lk_itable s)))))
         else Ret () s) (\<lambda>_ s.
    release Lk_itable (upd_inode ip (\<lambda>x. x\<lparr>i_ref := i_ref x - 1\<rparr>) s)))"

definition iunlockput :: "nat \<Rightarrow> 'm fsst_scheme \<Rightarrow> (unit, 'm fsst_scheme) outcome" where
  "iunlockput ip s = bnd (iunlock ip s) (\<lambda>_ s. iput ip s)"

record fstat =
  st_dev :: u32
  st_ino :: u32
  st_type :: u16
  st_nlink :: u16
  st_size :: u64

definition stati :: "nat \<Rightarrow> 'm fsst_scheme \<Rightarrow> fstat" where
  "stati ip s =
    (let x = itable s ip
     in \<lparr>st_dev = i_dev x, st_ino = i_inum x, st_type = i_type x, st_nlink = i_nlink x, st_size = ucast (i_size x)\<rparr>)"


text \<open>\<open>m = min(n - tot, BSIZE - off % BSIZE)\<close>, the bytes of one turn of the loops of \<open>readi\<close> and \<open>writei\<close>.\<close>

definition io_step :: "u32 \<Rightarrow> u32 \<Rightarrow> u32 \<Rightarrow> u32" where
  "io_step n tot off =
    (if n - tot < of_nat BSIZE - off mod of_nat BSIZE then n - tot else of_nat BSIZE - off mod of_nat BSIZE)"

lemma unat_off_mod: "unat (off mod of_nat BSIZE :: u32) = unat off mod 1024"
  by (simp add: BSIZE_def unat_mod_distrib)

lemma unat_io_step:
  "unat (io_step n tot off) = min (unat (n - tot)) (1024 - unat off mod 1024)"
proof -
  have "unat (of_nat BSIZE - off mod of_nat BSIZE :: u32) = 1024 - unat off mod 1024"
    using unat_off_mod [of off] mod_less_divisor [of 1024 "unat off"]
    by (simp add: unat_sub_u32 BSIZE_def)
  then show ?thesis by (auto simp: io_step_def word_less_nat_alt)
qed

lemma io_step_progress:
  assumes "tot < n"
  shows "unat (tot + io_step n tot off) = unat tot + unat (io_step n tot off)" and "0 < unat (io_step n tot off)"
    and "unat tot + unat (io_step n tot off) \<le> unat n" and "tot + io_step n tot off \<le> n"
    and "unat n - unat (tot + io_step n tot off) < unat n - unat tot"
proof -
  have lt: "unat tot < unat n" using assms by (simp add: word_less_nat_alt)
  then have d: "unat (n - tot) = unat n - unat tot" by (simp add: unat_sub_u32)
  have s: "unat (io_step n tot off) = min (unat n - unat tot) (1024 - unat off mod 1024)"
    by (simp add: unat_io_step d)
  then show p: "0 < unat (io_step n tot off)" using lt mod_less_divisor [of 1024 "unat off"] by simp
  show le: "unat tot + unat (io_step n tot off) \<le> unat n" using s lt by simp
  then show a: "unat (tot + io_step n tot off) = unat tot + unat (io_step n tot off)"
    using unat_u32_less [of n] by (simp add: unat_add_u32)
  then show "tot + io_step n tot off \<le> n" using le by (simp add: word_le_nat_alt)
  show "unat n - unat (tot + io_step n tot off) < unat n - unat tot" unfolding a using p lt le by linarith
qed

function readi_loop ::
  "nat \<Rightarrow> bool \<Rightarrow> u64 \<Rightarrow> u32 \<Rightarrow> u32 \<Rightarrow> u32 \<Rightarrow> 'm fsst_scheme \<Rightarrow> (int, 'm fsst_scheme) outcome" where
  "readi_loop ip user_dst dst tot off n s =
    (if tot < n then
       bnd (bmap ip (off div of_nat BSIZE) s) (\<lambda>addr s.
       bnd (bread (i_dev (itable s ip)) addr s) (\<lambda>bp s.
       let m = io_step n tot off
       in bnd (either_copyout user_dst dst (\<lambda>i. b_data (bufs s bp) (unat (off mod of_nat BSIZE) + i)) (ucast m) s) (\<lambda>r s.
          bnd (brelse bp s) (\<lambda>_ s.
          if r = -1 then Ret (-1) s
          else readi_loop ip user_dst (dst + ucast m) (tot + m) (off + m) n s))))
     else Ret (sint tot) s)"
  by pat_completeness auto
termination
  by (relation "measure (\<lambda>(ip, u, dst, tot, off, n, s). unat n - unat tot)")
    (auto intro: io_step_progress(5))

definition readi ::
  "nat \<Rightarrow> bool \<Rightarrow> u64 \<Rightarrow> u32 \<Rightarrow> u32 \<Rightarrow> 'm fsst_scheme \<Rightarrow> (int, 'm fsst_scheme) outcome" where
  "readi ip user_dst dst off n s =
    (if off > i_size (itable s ip) \<or> off + n < off then Ret 0 s
     else
       let n = (if off + n > i_size (itable s ip) then i_size (itable s ip) - off else n)
       in readi_loop ip user_dst dst 0 off n s)"

text \<open>The loop of \<open>writei\<close> returns \<open>tot\<close> and \<open>off\<close>. A failed \<open>either_copyin\<close> may have stored a part of
  the bytes.\<close>

function writei_loop ::
  "nat \<Rightarrow> bool \<Rightarrow> u64 \<Rightarrow> u32 \<Rightarrow> u32 \<Rightarrow> u32 \<Rightarrow> 'm fsst_scheme \<Rightarrow> (u32 \<times> u32, 'm fsst_scheme) outcome" where
  "writei_loop ip user_src src tot off n s =
    (if tot < n then
       bnd (bmap ip (off div of_nat BSIZE) s) (\<lambda>addr s.
       bnd (bread (i_dev (itable s ip)) addr s) (\<lambda>bp s.
       let m = io_step n tot off
       in bnd (either_copyin (b_data (bufs s bp)) (unat (off mod of_nat BSIZE)) user_src src (ucast m) s) (\<lambda>(r, d) s.
          let s = set_data bp (\<lambda>_. d) s
          in if r = -1 then bnd (brelse bp s) (\<lambda>_ s. Ret (tot, off) s)
             else
               bnd (log_write bp s) (\<lambda>_ s.
               bnd (brelse bp s) (\<lambda>_ s.
               writei_loop ip user_src (src + ucast m) (tot + m) (off + m) n s)))))
     else Ret (tot, off) s)"
  by pat_completeness auto
termination
  by (relation "measure (\<lambda>(ip, u, src, tot, off, n, s). unat n - unat tot)")
    (auto intro: io_step_progress(5))

declare readi_loop.simps [simp del] writei_loop.simps [simp del]

definition writei ::
  "nat \<Rightarrow> bool \<Rightarrow> u64 \<Rightarrow> u32 \<Rightarrow> u32 \<Rightarrow> 'm fsst_scheme \<Rightarrow> (int, 'm fsst_scheme) outcome" where
  "writei ip user_src src off n s =
    (if off > i_size (itable s ip) \<or> off + n < off then Ret (-1) s
     else if unat (off + n) > MAXFILE * BSIZE then Ret (-1) s
     else
       bnd (writei_loop ip user_src src 0 off n s) (\<lambda>(tot, off) s.
       let s = (if off > i_size (itable s ip) then upd_inode ip (\<lambda>x. x\<lparr>i_size := off\<rparr>) s else s)
       in bnd (iupdate ip s) (\<lambda>_ s. Ret (sint tot) s)))"

subsection \<open>Directories\<close>

definition namecmp :: "(nat \<Rightarrow> u8) \<Rightarrow> (nat \<Rightarrow> u8) \<Rightarrow> int" where
  "namecmp s t = strncmp s t (of_nat DIRSIZ)"

text \<open>\<^verbatim>\<open>struct dirent\<close> at an address: \<open>inum\<close> in the first two bytes, then the name.\<close>

definition de_inum :: "mem \<Rightarrow> u64 \<Rightarrow> u16" where
  "de_inum m a = ucast (m a) OR push_bit 8 (ucast (m (a + 1)))"

definition de_name :: "mem \<Rightarrow> u64 \<Rightarrow> nat \<Rightarrow> u8" where
  "de_name m a k = m (a + 2 + of_nat k)"

lemma readi_no_wrap: "readi ip u dst off n s = Ret r t \<Longrightarrow> r \<noteq> 0 \<Longrightarrow> \<not> off + n < off"
  by (auto simp: readi_def split: if_splits)

lemma entry_measure: "\<not> off + 16 < (off :: u32) \<Longrightarrow> 4294967296 - unat (off + 16) < 4294967296 - unat off"
  using unat_u32_less [of off] unat_u32_less [of "off + 16"]
  by (auto simp: word_less_nat_alt unat_add_u32 split: if_splits)

text \<open>The result is the inode and the offset stored in \<open>*poff\<close>.\<close>

function dirlookup_loop ::
  "nat \<Rightarrow> (nat \<Rightarrow> u8) \<Rightarrow> u32 \<Rightarrow> 'm fsst_scheme \<Rightarrow> ((nat \<times> u32) option, 'm fsst_scheme) outcome" where
  "dirlookup_loop dp name off s =
    (if off < i_size (itable s dp) then
       bnd (readi dp False (de_addr s) off 16 s) (\<lambda>r s.
       if r \<noteq> 16 then Panic ''dirlookup read''
       else if de_inum (pmem s) (de_addr s) = 0 then dirlookup_loop dp name (off + 16) s
       else if namecmp name (de_name (pmem s) (de_addr s)) = 0 then
         bnd (iget (i_dev (itable s dp)) (ucast (de_inum (pmem s) (de_addr s))) s) (\<lambda>ip s. Ret (Some (ip, off)) s)
       else dirlookup_loop dp name (off + 16) s)
     else Ret None s)"
  by pat_completeness auto
termination
  by (relation "measure (\<lambda>(dp, name, off, s). 4294967296 - unat off)")
    (auto dest!: readi_no_wrap intro: entry_measure)

definition dirlookup ::
  "nat \<Rightarrow> (nat \<Rightarrow> u8) \<Rightarrow> 'm fsst_scheme \<Rightarrow> ((nat \<times> u32) option, 'm fsst_scheme) outcome" where
  "dirlookup dp name s =
    (if i_type (itable s dp) \<noteq> T_DIR then Panic ''dirlookup not DIR'' else dirlookup_loop dp name 0 s)"

function dirlink_loop :: "nat \<Rightarrow> u32 \<Rightarrow> 'm fsst_scheme \<Rightarrow> (u32, 'm fsst_scheme) outcome" where
  "dirlink_loop dp off s =
    (if off < i_size (itable s dp) then
       bnd (readi dp False (de_addr s) off 16 s) (\<lambda>r s.
       if r \<noteq> 16 then Panic ''dirlink read''
       else if de_inum (pmem s) (de_addr s) = 0 then Ret off s
       else dirlink_loop dp (off + 16) s)
     else Ret off s)"
  by pat_completeness auto
termination
  by (relation "measure (\<lambda>(dp, off, s). 4294967296 - unat off)")
    (auto dest!: readi_no_wrap intro: entry_measure)

declare dirlookup_loop.simps [simp del] dirlink_loop.simps [simp del]

definition dirlink :: "nat \<Rightarrow> (nat \<Rightarrow> u8) \<Rightarrow> u32 \<Rightarrow> 'm fsst_scheme \<Rightarrow> (int, 'm fsst_scheme) outcome" where
  "dirlink dp name inum s =
    bnd (dirlookup dp name s) (\<lambda>r s.
    case r of
      Some (ip, _) \<Rightarrow> bnd (iput ip s) (\<lambda>_ s. Ret (-1) s)
    | None \<Rightarrow>
        bnd (dirlink_loop dp 0 s) (\<lambda>off s.
        let a = de_addr s;
            s = s\<lparr>pmem := put_bytes (pmem s) (a + 2) (strncpy (de_name (pmem s) a) name (int DIRSIZ)) DIRSIZ\<rparr>;
            s = s\<lparr>pmem := (pmem s)(a := ucast inum, a + 1 := ucast (drop_bit 8 inum))\<rparr>
        in bnd (writei dp False a off 16 s) (\<lambda>r s.
           if r \<noteq> 16 then Panic ''dirlink'' else Ret 0 s)))"

subsection \<open>Paths\<close>

definition slash :: u8 where "slash = 47"

definition skipelem :: "u8 list \<Rightarrow> (nat \<Rightarrow> u8) \<Rightarrow> (u8 list \<times> (nat \<Rightarrow> u8)) option" where
  "skipelem path name =
    (let path = dropWhile (\<lambda>c. c = slash) path
     in if path = [] then None
        else
          let s = path;
              path = dropWhile (\<lambda>c. c \<noteq> slash) path;
              len = length s - length path;
              name = (if len \<ge> DIRSIZ then (\<lambda>k. if k < DIRSIZ then s ! k else name k)
                      else (\<lambda>k. if k < len then s ! k else name k)(len := 0))
          in Some (dropWhile (\<lambda>c. c = slash) path, name))"

lemma skipelem_shorter: "skipelem path name = Some (path', name') \<Longrightarrow> length path' < length path"
proof -
  assume a: "skipelem path name = Some (path', name')"
  let ?p = "dropWhile (\<lambda>c. c = slash) path"
  have ne: "?p \<noteq> []" and p': "path' = dropWhile (\<lambda>c. c = slash) (dropWhile (\<lambda>c. c \<noteq> slash) ?p)"
    using a by (auto simp: skipelem_def Let_def split: if_splits)
  then obtain c cs where c: "?p = c # cs" by (cases ?p) auto
  then have "c \<noteq> slash" using hd_dropWhile [OF ne] by simp
  then have "length (dropWhile (\<lambda>c. c \<noteq> slash) ?p) < length ?p"
    unfolding c using length_dropWhile_le [of "\<lambda>c. c \<noteq> slash" cs] by simp
  moreover have "length path' \<le> length (dropWhile (\<lambda>c. c \<noteq> slash) ?p)"
    unfolding p' by (rule length_dropWhile_le)
  moreover have "length ?p \<le> length path" by (rule length_dropWhile_le)
  ultimately show ?thesis by linarith
qed

text \<open>The loop of \<open>namex\<close>; the second result is the buffer \<open>name\<close>.\<close>

function namex_loop ::
  "nat \<Rightarrow> u8 list \<Rightarrow> bool \<Rightarrow> (nat \<Rightarrow> u8) \<Rightarrow> 'm fsst_scheme
    \<Rightarrow> (nat option \<times> (nat \<Rightarrow> u8), 'm fsst_scheme) outcome" where
  "namex_loop ip path nameiparent name s =
    (case skipelem path name of
       None \<Rightarrow>
         if nameiparent then bnd (iput ip s) (\<lambda>_ s. Ret (None, name) s) else Ret (Some ip, name) s
     | Some (path, name) \<Rightarrow>
         bnd (ilock ip s) (\<lambda>_ s.
         if i_type (itable s ip) \<noteq> T_DIR then bnd (iunlockput ip s) (\<lambda>_ s. Ret (None, name) s)
         else if nameiparent \<and> path = [] then bnd (iunlock ip s) (\<lambda>_ s. Ret (Some ip, name) s)
         else
           bnd (dirlookup ip name s) (\<lambda>r s.
           case r of
             None \<Rightarrow> bnd (iunlockput ip s) (\<lambda>_ s. Ret (None, name) s)
           | Some (next', _) \<Rightarrow>
               bnd (iunlockput ip s) (\<lambda>_ s. namex_loop next' path nameiparent name s))))"
  by pat_completeness auto
termination
  by (relation "measure (\<lambda>(ip, path, np, name, s). length path)") (auto dest: skipelem_shorter)

declare namex_loop.simps [simp del]

definition namex ::
  "u8 list \<Rightarrow> bool \<Rightarrow> (nat \<Rightarrow> u8) \<Rightarrow> 'm fsst_scheme \<Rightarrow> (nat option \<times> (nat \<Rightarrow> u8), 'm fsst_scheme) outcome" where
  "namex path nameiparent name s =
    bnd (if path \<noteq> [] \<and> hd path = slash then iget ROOTDEV ROOTINO s
         else bnd (curproc s) (\<lambda>p s.
           case cwd (procs s p) of None \<Rightarrow> Panic ''kerneltrap'' | Some ip \<Rightarrow> idup ip s)) (\<lambda>ip s.
    namex_loop ip path nameiparent name s)"

definition namei :: "u8 list \<Rightarrow> 'm fsst_scheme \<Rightarrow> (nat option, 'm fsst_scheme) outcome" where
  "namei path s = bnd (namex path False (\<lambda>_. 0) s) (\<lambda>(ip, _) s. Ret ip s)"

definition nameiparent ::
  "u8 list \<Rightarrow> (nat \<Rightarrow> u8) \<Rightarrow> 'm fsst_scheme \<Rightarrow> (nat option \<times> (nat \<Rightarrow> u8), 'm fsst_scheme) outcome" where
  "nameiparent path name s = namex path True name s"


subsection \<open>The block interface under the file system\<close>

lemma set_data_put: "set_data b f s = put_data b (f (b_data (bufs s b))) s"
  by (simp add: set_data_def put_data_def upd_buf_def)

lemma fs_frame:
  fixes s t :: "'m fsst_scheme"
  assumes "op_frame s t"
  shows "itable t = itable s" "fs_sb t = fs_sb s" "de_addr t = de_addr s" "fsst.more t = fsst.more s"
proof -
  have eq: "t = s\<lparr>lh_n := lh_n t, lh_block := lh_block t, sleeplocks := sleeplocks t, procs := procs t,
     bufs := bufs t, disk := disk t, dwrites := dwrites t\<rparr>"
    using assms by (simp add: op_frame_def bio_frame_def)
  show "itable t = itable s" "fs_sb t = fs_sb s" "de_addr t = de_addr s" "fsst.more t = fsst.more s"
    by (subst eq, simp)+
qed

abbreviation held :: "'m fsst_scheme \<Rightarrow> nat set \<Rightarrow> u32 set" where
  "held s H \<equiv> (\<lambda>i. b_blockno (bufs s i)) ` H"

abbreviation kept :: "nat set \<Rightarrow> 'm fsst_scheme \<Rightarrow> 'm fsst_scheme \<Rightarrow> bool" where
  "kept H s t \<equiv> block_store.keeps (\<lambda>s i. b_blockno (bufs s i)) (\<lambda>s i. b_data (bufs s i)) settled H s t"

lemma kept_held: "kept H s t \<Longrightarrow> held t H = held s H"
  by (simp add: store.keeps_def)

text \<open>One update of a block, in the shape the code has.\<close>

lemma update_set_data:
  fixes s :: "'m fsst_scheme"
  assumes "tx_inv p H (Suc k) s" and "card H \<le> 2" and "n \<notin> held s H" and "\<not> in_log s n"
  shows "\<exists>i t. bread ROOTDEV n s = Ret i t \<and> b_data (bufs t i) = view s n \<and> view t = view s \<and> op_frame s t
    \<and> (\<forall>f. \<exists>u. bnd (log_write i (set_data i f t)) (\<lambda>_ s. brelse i s) = Ret () u
         \<and> tx_inv p H k u \<and> view u = (view s)(n := f (view s n)) \<and> op_frame t u \<and> op_frame s u \<and> kept H s u)"
proof -
  obtain i t where t: "bread ROOTDEV n s = Ret i t" "b_data (bufs t i) = view s n" "view t = view s" "op_frame s t"
    "\<forall>d. \<exists>u. bnd (log_write i (put_data i d t)) (\<lambda>_ s. brelse i s) = Ret () u
         \<and> tx_inv p H k u \<and> view u = (view s)(n := d) \<and> op_frame t u \<and> op_frame s u \<and> kept H s u"
    using store.update_block [OF assms] by blast
  have "\<exists>u. bnd (log_write i (set_data i f t)) (\<lambda>_ s. brelse i s) = Ret () u
         \<and> tx_inv p H k u \<and> view u = (view s)(n := f (view s n)) \<and> op_frame t u \<and> op_frame s u \<and> kept H s u" for f
    unfolding set_data_put t(2) using t(5) by blast
  then show ?thesis using t by blast
qed

lemma bzero_spec:
  assumes "tx_inv p H (Suc k) s" and "card H \<le> 2" and "n \<notin> held s H" and "\<not> in_log s n"
  shows "\<exists>t. bzero ROOTDEV n s = Ret () t \<and> tx_inv p H k t \<and> view t = (view s)(n := (\<lambda>_. 0))
    \<and> op_frame s t \<and> kept H s t"
proof -
  obtain i t where t: "bread ROOTDEV n s = Ret i t"
    "\<forall>f. \<exists>u. bnd (log_write i (set_data i f t)) (\<lambda>_ s. brelse i s) = Ret () u
         \<and> tx_inv p H k u \<and> view u = (view s)(n := f (view s n)) \<and> op_frame t u \<and> op_frame s u \<and> kept H s u"
    using update_set_data [OF assms] by blast
  from t(2) [rule_format, of "\<lambda>_ _. 0"]
  obtain u where u: "bnd (log_write i (set_data i (\<lambda>_ _. 0) t)) (\<lambda>_ s. brelse i s) = Ret () u"
    "tx_inv p H k u" "view u = (view s)(n := (\<lambda>_. 0))" "op_frame s u" "kept H s u" by blast
  then show ?thesis using t(1) by (auto simp: bzero_def)
qed

subsection \<open>The free bitmap\<close>

lemma bm_free_bit: "bm_free d bi \<longleftrightarrow> \<not> bit (d (bi div 8)) (bi mod 8)"
proof -
  have "bi mod 8 < LENGTH(8)" by simp
  then show ?thesis
    unfolding bm_free_def bm_mask_def
    by (auto simp: bit_iff_and_push_bit_not_eq_0 and.commute)
qed

lemma bm_mask_bit: "bit (bm_mask bi) n \<longleftrightarrow> n = bi mod 8"
  by (auto simp: bm_mask_def bit_simps)

lemma same_bit: "bi div 8 = bj div 8 \<Longrightarrow> bi mod 8 = bj mod 8 \<Longrightarrow> bi = (bj :: nat)"
  by (metis div_mult_mod_eq)

lemma bm_free_set [simp]: "bm_free (bm_set bi d) bj \<longleftrightarrow> bi \<noteq> bj \<and> bm_free d bj"
  using same_bit [of bi bj] by (auto simp: bm_free_bit bm_set_def bit_or_iff bm_mask_bit)

lemma bm_free_clear [simp]: "bm_free (bm_clear bi d) bj \<longleftrightarrow> bi = bj \<or> bm_free d bj"
proof -
  have "bj mod 8 < LENGTH(8)" by simp
  then show ?thesis
    using same_bit [of bi bj]
    by (auto simp: bm_free_bit bm_clear_def bit_and_iff bit_not_iff bm_mask_bit)
qed

text \<open>Block \<open>b\<close> is marked in use.\<close>

definition used :: "'m fsst_scheme \<Rightarrow> nat \<Rightarrow> bool" where
  "used s b \<longleftrightarrow> \<not> bm_free (view s (BBLOCK b (fs_sb s))) (b mod BPB)"

definition fs_blocks :: "'m fsst_scheme \<Rightarrow> nat" where
  "fs_blocks s = unat (sb_size (fs_sb s))"

text \<open>The blocks of the log and of the bitmap are marked in use, the bitmap is not in the log, and its
  blocks are numbered within 32 bits.\<close>

definition meta_used :: "'m fsst_scheme \<Rightarrow> bool" where
  "meta_used s \<longleftrightarrow> (\<forall>b<fs_blocks s. \<not> in_log s (BBLOCK b (fs_sb s)))
     \<and> (\<forall>b<fs_blocks s. (in_log s (of_nat b) \<or> (\<exists>c<fs_blocks s. of_nat b = BBLOCK c (fs_sb s))) \<longrightarrow> used s b)
     \<and> (fs_blocks s - 1) div BPB + unat (sb_bmapstart (fs_sb s)) < 2 ^ 32"

lemma BBLOCK_add: "b mod BPB = 0 \<Longrightarrow> bi < BPB \<Longrightarrow> BBLOCK (b + bi) sb = BBLOCK b sb \<and> (b + bi) mod BPB = bi"
proof -
  assume "b mod BPB = 0" and bi: "bi < BPB"
  then obtain k where b: "b = k * BPB" by (metis mod_0_imp_dvd dvd_def mult.commute)
  have "(b + bi) div BPB = k" "b div BPB = k" "(b + bi) mod BPB = bi"
    using bi by (simp_all add: b)
  then show ?thesis by (simp add: BBLOCK_def)
qed

lemma BBLOCK_inj:
  assumes "meta_used s" and "b < fs_blocks s" and "c < fs_blocks s"
  shows "BBLOCK b (fs_sb s) = BBLOCK c (fs_sb s) \<longleftrightarrow> b div BPB = c div BPB"
proof
  assume eq: "BBLOCK b (fs_sb s) = BBLOCK c (fs_sb s)"
  have small: "x div BPB < 4294967296" if "x < fs_blocks s" for x
  proof -
    have "x div BPB \<le> (fs_blocks s - 1) div BPB" using that by (intro div_le_mono) simp
    then show ?thesis using assms(1) by (simp add: meta_used_def)
  qed
  have "(of_nat (b div BPB) :: u32) = of_nat (c div BPB)" using eq by (simp add: BBLOCK_def)
  then have "unat (of_nat (b div BPB) :: u32) = unat (of_nat (c div BPB) :: u32)" by simp
  then show "b div BPB = c div BPB" using small [OF assms(2)] small [OF assms(3)] by simp
qed (simp add: BBLOCK_def)


text \<open>What an allocation of block \<open>b\<close> does to the view of the disk.\<close>

definition alloc_view :: "'m fsst_scheme \<Rightarrow> nat \<Rightarrow> u32 \<Rightarrow> block" where
  "alloc_view s b = (view s)(BBLOCK b (fs_sb s) := bm_set (b mod BPB) (view s (BBLOCK b (fs_sb s))),
     of_nat b := (\<lambda>_. 0))"

lemma used_frame: "op_frame s t \<Longrightarrow> view t = view s \<Longrightarrow> used t b = used s b"
  by (simp add: used_def fs_frame)

lemma fs_blocks_frame: "op_frame s t \<Longrightarrow> fs_blocks t = fs_blocks s"
  by (simp add: fs_blocks_def fs_frame)

lemma meta_used_frame: "op_frame s t \<Longrightarrow> view t = view s \<Longrightarrow> meta_used t = meta_used s"
  using op_frame_fields(15,16) [of s t]
  by (simp add: meta_used_def used_frame fs_blocks_frame fs_frame in_log_def)

lemma balloc_one_spec:
  fixes s :: "'m fsst_scheme"
  assumes inv: "tx_inv p H (Suc (Suc k)) s" and H: "card H \<le> 2" and meta: "meta_used s"
    and b: "b mod BPB = 0" "b < fs_blocks s"
    and bm: "BBLOCK b (fs_sb s) \<notin> held s H"
    and fr: "\<And>c. c < fs_blocks s \<Longrightarrow> \<not> used s c \<Longrightarrow> of_nat c \<notin> held s H"
  shows "case find (\<lambda>c. \<not> used s c) [b..<min (b + BPB) (fs_blocks s)] of
      None \<Rightarrow> \<exists>t. balloc_one ROOTDEV b s = Ret None t \<and> tx_inv p H (Suc (Suc k)) t \<and> view t = view s
        \<and> op_frame s t \<and> kept H s t
    | Some c \<Rightarrow> \<exists>t. balloc_one ROOTDEV b s = Ret (Some (of_nat c)) t \<and> tx_inv p H k t
        \<and> view t = alloc_view s c \<and> op_frame s t \<and> kept H s t"
proof -
  let ?B = "BBLOCK b (fs_sb s)"
  have "\<not> in_log s ?B" using meta b(2) by (simp add: meta_used_def)
  from update_set_data [OF inv H bm this]
  obtain i t where t: "bread ROOTDEV ?B s = Ret i t" "b_data (bufs t i) = view s ?B" "view t = view s" "op_frame s t"
    "\<forall>f. \<exists>u. bnd (log_write i (set_data i f t)) (\<lambda>_ s. brelse i s) = Ret () u
         \<and> tx_inv p H (Suc k) u \<and> view u = (view s)(?B := f (view s ?B)) \<and> op_frame t u \<and> op_frame s u \<and> kept H s u"
    by blast
  have sb: "fs_sb t = fs_sb s" using t(4) by (rule fs_frame)
  have bits: "\<not> used s (b + bi) \<longleftrightarrow> bm_free (view s ?B) bi" if "bi < BPB" for bi
    using BBLOCK_add [OF b(1) that] by (simp add: used_def)
  let ?m = "min BPB (fs_blocks s - b)"
  have m: "min (b + BPB) (fs_blocks s) = b + ?m" using b(2) by auto
  have fnd: "find (\<lambda>c. \<not> used s c) [b..<min (b + BPB) (fs_blocks s)]
      = map_option (\<lambda>i. b + i) (find (bm_free (view s ?B)) [0..<?m])"
    unfolding m find_upt_shift using bits by (intro arg_cong [where f = "map_option _"] find_cong_set) auto
  show ?thesis
  proof (cases "find (bm_free (view s ?B)) [0..<?m]")
    case None
    obtain i' t' u where r: "bread ROOTDEV ?B s = Ret i' t'" "brelse i' t' = Ret () u" "tx_inv p H (Suc (Suc k)) u"
      "view u = view s" "op_frame s u" "kept H s u"
      using store.read_block [OF inv H bm] by blast
    have same: "i' = i" "t' = t" using r(1) t(1) by simp_all
    have "balloc_one ROOTDEV b s = Ret None u"
      using t(1,2) r(2) None by (simp add: balloc_one_def sb same fs_blocks_def)
    then show ?thesis using r None fnd by auto
  next
    case (Some bi)
    from find_SomeD [OF Some] have bi: "bi < BPB" "b + bi < fs_blocks s" "bm_free (view s ?B) bi" by auto
    let ?c = "b + bi"
    have nu: "\<not> used s ?c" using bits bi by blast
    have c: "\<not> in_log s (of_nat ?c)" "of_nat ?c \<noteq> ?B"
      using meta nu bi(2) b(2) unfolding meta_used_def by blast+
    from t(5) [rule_format, of "bm_set bi"]
    obtain u where u: "bnd (log_write i (set_data i (bm_set bi) t)) (\<lambda>_ s. brelse i s) = Ret () u"
      "tx_inv p H (Suc k) u" "view u = (view s)(?B := bm_set bi (view s ?B))" "op_frame s u" "kept H s u" by blast
    have "\<not> in_log u (of_nat ?c)"
      using c(1) op_frame_fields(15,16) [OF u(4)] by (simp add: in_log_def)
    moreover have "of_nat ?c \<notin> held u H" using fr [OF bi(2) nu] kept_held [OF u(5)] by simp
    ultimately obtain v where v: "bzero ROOTDEV (of_nat ?c) u = Ret () v" "tx_inv p H k v"
      "view v = (view u)(of_nat ?c := (\<lambda>_. 0))" "op_frame u v" "kept H u v"
      using bzero_spec [OF u(2) H] by blast
    have "balloc_one ROOTDEV b s = Ret (Some (of_nat ?c)) v"
      using t(1,2) u(1) v(1) Some
      by (auto simp: balloc_one_def sb fs_blocks_def Let_def bnd_eq_Ret)
    moreover have "view v = alloc_view s ?c"
      using v(3) u(3) BBLOCK_add [OF b(1) bi(1)] by (simp add: alloc_view_def)
    ultimately show ?thesis
      using v(2) op_frame_trans [OF u(4) v(4)] store.keeps_trans [OF u(5) v(5)] Some fnd by auto
  qed
qed

lemma balloc_chunks:
  fixes s :: "'m fsst_scheme"
  assumes inv: "tx_inv p H (Suc (Suc k)) s" and H: "card H \<le> 2" and meta: "meta_used s"
    and bm: "\<And>c. c < fs_blocks s \<Longrightarrow> BBLOCK c (fs_sb s) \<notin> held s H"
    and fr: "\<And>c. c < fs_blocks s \<Longrightarrow> \<not> used s c \<Longrightarrow> of_nat c \<notin> held s H"
    and n: "n = (fs_blocks s + BPB - 1) div BPB" and j: "j \<le> n"
  shows "case find (\<lambda>c. \<not> used s c) [j * BPB..<fs_blocks s] of
      None \<Rightarrow> \<exists>t. for_find (map (\<lambda>k. k * BPB) [j..<n]) (balloc_one ROOTDEV) s = Ret None t
    | Some c \<Rightarrow> \<exists>t. for_find (map (\<lambda>k. k * BPB) [j..<n]) (balloc_one ROOTDEV) s = Ret (Some (of_nat c)) t
        \<and> tx_inv p H k t \<and> view t = alloc_view s c \<and> op_frame s t \<and> kept H s t"
  using assms
proof (induction "n - j" arbitrary: j s)
  case 0
  then have "fs_blocks s \<le> j * BPB"
    by (simp add: BPB_def BSIZE_def)
  then show ?case using 0 by simp
next
  case (Suc d)
  then have jn: "j < n" by simp
  then have lt: "j * BPB < fs_blocks s"
    using Suc.prems(6) by (simp add: BPB_def BSIZE_def)
  have list: "[j * BPB..<fs_blocks s]
      = [j * BPB..<min (j * BPB + BPB) (fs_blocks s)] @ [Suc j * BPB..<fs_blocks s]"
  proof (cases "j * BPB + BPB \<le> fs_blocks s")
    case True
    then have "[j * BPB..<fs_blocks s] = [j * BPB..<j * BPB + BPB] @ [j * BPB + BPB..<fs_blocks s]"
      using upt_add_eq_append [of "j * BPB" "j * BPB + BPB" "fs_blocks s - (j * BPB + BPB)"] by simp
    then show ?thesis using True by (simp add: add.commute)
  qed (simp add: add.commute)
  have up: "[j..<n] = j # [Suc j..<n]" using jn by (rule upt_conv_Cons)
  from balloc_one_spec [OF Suc.prems(1-3) _ lt Suc.prems(4) [OF lt] Suc.prems(5)]
  have one: "case find (\<lambda>c. \<not> used s c) [j * BPB..<min (j * BPB + BPB) (fs_blocks s)] of
      None \<Rightarrow> \<exists>t. balloc_one ROOTDEV (j * BPB) s = Ret None t \<and> tx_inv p H (Suc (Suc k)) t \<and> view t = view s
        \<and> op_frame s t \<and> kept H s t
    | Some c \<Rightarrow> \<exists>t. balloc_one ROOTDEV (j * BPB) s = Ret (Some (of_nat c)) t \<and> tx_inv p H k t
        \<and> view t = alloc_view s c \<and> op_frame s t \<and> kept H s t" by simp
  show ?case
  proof (cases "find (\<lambda>c. \<not> used s c) [j * BPB..<min (j * BPB + BPB) (fs_blocks s)]")
    case (Some c)
    then show ?thesis using one by (auto simp: list find_append up)
  next
    case None
    then obtain t where t: "balloc_one ROOTDEV (j * BPB) s = Ret None t" "tx_inv p H (Suc (Suc k)) t" "view t = view s"
      "op_frame s t" "kept H s t" using one by auto
    note fr = fs_blocks_frame [OF t(4)] and us = used_frame [OF t(4,3)] and ff = fs_frame [OF t(4)]
    have IH: "case find (\<lambda>c. \<not> used t c) [Suc j * BPB..<fs_blocks t] of
      None \<Rightarrow> \<exists>u. for_find (map (\<lambda>k. k * BPB) [Suc j..<n]) (balloc_one ROOTDEV) t = Ret None u
    | Some c \<Rightarrow> \<exists>u. for_find (map (\<lambda>k. k * BPB) [Suc j..<n]) (balloc_one ROOTDEV) t = Ret (Some (of_nat c)) u
        \<and> tx_inv p H k u \<and> view u = alloc_view t c \<and> op_frame t u \<and> kept H t u"
      using Suc.prems Suc.hyps(2) t jn kept_held [OF t(5)]
      by (intro Suc.hyps(1)) (simp_all add: fr us ff meta_used_frame [OF t(4,3)])
    have al: "alloc_view t c = alloc_view s c" for c using t(3) by (simp add: alloc_view_def ff)
    show ?thesis
    proof (cases "find (\<lambda>c. \<not> used s c) [Suc j * BPB..<fs_blocks s]")
      case None': None
      then show ?thesis using IH t(1) None by (auto simp: list find_append up fr us)
    next
      case (Some c)
      then show ?thesis
        using IH t(1) None op_frame_trans [OF t(4)] store.keeps_trans [OF t(5)]
        by (auto simp: list find_append up fr us al)
    qed
  qed
qed

lemma balloc_spec:
  fixes s :: "'m fsst_scheme"
  assumes inv: "tx_inv p H (Suc (Suc k)) s" and H: "card H \<le> 2" and meta: "meta_used s"
    and bm: "\<And>c. c < fs_blocks s \<Longrightarrow> BBLOCK c (fs_sb s) \<notin> held s H"
    and fr: "\<And>c. c < fs_blocks s \<Longrightarrow> \<not> used s c \<Longrightarrow> of_nat c \<notin> held s H"
  shows "case find (\<lambda>c. \<not> used s c) [0..<fs_blocks s] of
      None \<Rightarrow> balloc ROOTDEV s = Panic ''balloc: out of blocks''
    | Some c \<Rightarrow> \<exists>t. balloc ROOTDEV s = Ret (of_nat c) t \<and> tx_inv p H k t \<and> view t = alloc_view s c
        \<and> op_frame s t \<and> kept H s t"
proof -
  have "case find (\<lambda>c. \<not> used s c) [0 * BPB..<fs_blocks s] of
      None \<Rightarrow> \<exists>t. for_find (map (\<lambda>k. k * BPB) [0..<(fs_blocks s + BPB - 1) div BPB]) (balloc_one ROOTDEV) s = Ret None t
    | Some c \<Rightarrow> \<exists>t. for_find (map (\<lambda>k. k * BPB) [0..<(fs_blocks s + BPB - 1) div BPB]) (balloc_one ROOTDEV) s
          = Ret (Some (of_nat c)) t
        \<and> tx_inv p H k t \<and> view t = alloc_view s c \<and> op_frame s t \<and> kept H s t"
    by (rule balloc_chunks [OF inv H meta bm fr refl]) simp_all
  then show ?thesis
    by (cases "find (\<lambda>c. \<not> used s c) [0..<fs_blocks s]")
      (auto simp: balloc_def fs_blocks_def)
qed


lemma read_view:
  fixes s :: "'m fsst_scheme"
  assumes "tx_inv p H k s" and "card H \<le> 2" and "n \<notin> held s H"
  shows "\<exists>i t u. bread ROOTDEV n s = Ret i t \<and> b_data (bufs t i) = view s n \<and> view t = view s
    \<and> op_frame s t \<and> brelse i t = Ret () u \<and> tx_inv p H k u \<and> view u = view s \<and> op_frame s u \<and> kept H s u"
  using store.read_block [OF assms] by blast

lemma bfree_spec:
  fixes s :: "'m fsst_scheme"
  assumes inv: "tx_inv p H (Suc k) s" and H: "card H \<le> 2"
    and B: "BBLOCK (unat b) (fs_sb s) \<notin> held s H" "\<not> in_log s (BBLOCK (unat b) (fs_sb s))"
  shows "if used s (unat b)
    then \<exists>t. bfree ROOTDEV b s = Ret () t \<and> tx_inv p H k t \<and> op_frame s t \<and> kept H s t
      \<and> view t = (view s)(BBLOCK (unat b) (fs_sb s)
          := bm_clear (unat b mod BPB) (view s (BBLOCK (unat b) (fs_sb s))))
    else bfree ROOTDEV b s = Panic ''freeing free block''"
proof -
  let ?B = "BBLOCK (unat b) (fs_sb s)"
  obtain i t where t: "bread ROOTDEV ?B s = Ret i t" "b_data (bufs t i) = view s ?B" "op_frame s t"
    "\<forall>f. \<exists>u. bnd (log_write i (set_data i f t)) (\<lambda>_ s. brelse i s) = Ret () u
         \<and> tx_inv p H k u \<and> view u = (view s)(?B := f (view s ?B)) \<and> op_frame t u \<and> op_frame s u \<and> kept H s u"
    using update_set_data [OF inv H B] by blast
  show ?thesis
  proof (cases "used s (unat b)")
    case True
    from t(4) [rule_format, of "bm_clear (unat b mod BPB)"]
    obtain u where u: "bnd (log_write i (set_data i (bm_clear (unat b mod BPB)) t)) (\<lambda>_ s. brelse i s) = Ret () u"
      "tx_inv p H k u" "view u = (view s)(?B := bm_clear (unat b mod BPB) (view s ?B))" "op_frame s u" "kept H s u"
      by blast
    have "bfree ROOTDEV b s = Ret () u" using t(1,2) u(1) True by (simp add: bfree_def Let_def used_def)
    then show ?thesis using True u by auto
  next
    case False
    then show ?thesis using t(1,2) by (simp add: bfree_def Let_def used_def)
  qed
qed

subsection \<open>Inodes on disk\<close>

lemma ld16_st16 [simp]: "ld16 (st16 k v d) k = v"
proof -
  have "(ucast (ucast v :: u8) :: u16) OR push_bit 8 (ucast (ucast (drop_bit 8 v) :: u8)) = v"
  proof (rule bit_word_eqI)
    fix n assume n: "n < LENGTH(16)"
    have "bit (push_bit k' (ucast (ucast (drop_bit k' v :: u16) :: u8)) :: u16) n \<longleftrightarrow> k' \<le> n \<and> n < k' + 8 \<and> bit v n" for k'
      by (auto simp: bit_simps dest: bit_imp_le_length)
    from this [of 0] this [of 8] show "bit ((ucast (ucast v :: u8) :: u16) OR push_bit 8 (ucast (ucast (drop_bit 8 v) :: u8))) n = bit v n"
      unfolding bit_or_iff using n by simp linarith
  qed
  then show ?thesis by (simp add: ld16_def st16_def)
qed

lemma ld16_cong: "d k = e k \<Longrightarrow> d (Suc k) = e (Suc k) \<Longrightarrow> ld16 d k = ld16 e k"
  by (simp add: ld16_def)

lemma ld16_other [simp]:
  "j + 2 \<le> k \<or> k + 2 \<le> j \<Longrightarrow> ld16 (st16 k v d) j = ld16 d j"
  "j + 2 \<le> k \<or> k + 4 \<le> j \<Longrightarrow> ld16 (st32 k w d) j = ld16 d j"
  by (auto intro!: ld16_cong simp: st16_def st32_def)

lemma ld32_other [simp]:
  "j + 4 \<le> k \<or> k + 2 \<le> j \<Longrightarrow> ld32 (st16 k v d) j = ld32 d j"
  by (auto intro!: ld32_cong simp: st16_def)

lemma fold_st32_other:
  "j < a \<or> a + 4 * n \<le> j \<Longrightarrow> fold (\<lambda>k. st32 (a + 4 * k) (f k)) [0..<n] d j = d j"
  by (induction n) (auto simp: st32_def)

lemma ld32_fold_st32:
  "i < n \<Longrightarrow> ld32 (fold (\<lambda>k. st32 (a + 4 * k) (f k)) [0..<n] d) (a + 4 * i) = f i"
proof (induction n)
  case (Suc n)
  then show ?case by (cases "i = n") (auto simp: ld32_st32_other)
qed simp

text \<open>The fields of an inode that live on the disk.\<close>

definition same_dinode :: "inode \<Rightarrow> inode \<Rightarrow> bool" where
  "same_dinode x y \<longleftrightarrow> i_type x = i_type y \<and> i_major x = i_major y \<and> i_minor x = i_minor y
     \<and> i_nlink x = i_nlink y \<and> i_size x = i_size y \<and> (\<forall>k\<le>NDIRECT. i_addrs x k = i_addrs y k)"

lemma get_put_dinode: "same_dinode (get_dinode (put_dinode a x d) a y) x"
proof -
  let ?d = "st32 (a + 8) (i_size x) (st16 (a + 6) (i_nlink x) (st16 (a + 4) (i_minor x)
      (st16 (a + 2) (i_major x) (st16 a (i_type x) d))))"
  let ?e = "put_dinode a x d"
  have e: "?e = fold (\<lambda>k. st32 (a + 12 + 4 * k) (i_addrs x k)) [0..<NDIRECT + 1] ?d"
    by (simp add: put_dinode_def Let_def)
  have low: "?e j = ?d j" if "j < a + 12" for j
    unfolding e using that by (intro fold_st32_other) simp
  have l16: "ld16 ?e j = ld16 ?d j" if "j + 1 < a + 12" for j
    using that by (intro ld16_cong low) auto
  have "ld32 ?e (a + 8) = ld32 ?d (a + 8)" by (intro ld32_cong low) auto
  moreover have "ld32 ?e (a + 12 + 4 * k) = i_addrs x k" if "k \<le> NDIRECT" for k
    unfolding e using that by (intro ld32_fold_st32) simp
  ultimately show ?thesis by (simp add: same_dinode_def get_dinode_def l16)
qed

lemma put_dinode_other: "j < a \<or> a + 64 \<le> j \<Longrightarrow> put_dinode a x d j = d j"
proof -
  assume j: "j < a \<or> a + 64 \<le> j"
  then have "j < a + 12 \<or> a + 12 + 4 * (NDIRECT + 1) \<le> j" by (auto simp: NDIRECT_def)
  then have "put_dinode a x d j = st32 (a + 8) (i_size x) (st16 (a + 6) (i_nlink x) (st16 (a + 4) (i_minor x)
      (st16 (a + 2) (i_major x) (st16 a (i_type x) d)))) j"
    unfolding put_dinode_def Let_def by (rule fold_st32_other)
  then show ?thesis using j by (auto simp: st32_def st16_def)
qed

lemma get_dinode_cong:
  "(\<And>j. a \<le> j \<Longrightarrow> j < a + 64 \<Longrightarrow> d j = e j) \<Longrightarrow> get_dinode d a x = get_dinode e a x"
  by (auto simp: get_dinode_def fun_eq_iff NDIRECT_def intro!: ld16_cong ld32_cong inode.equality)

lemma dinode_at_apart: "i mod IPB \<noteq> j mod IPB \<Longrightarrow> dinode_at i + 64 \<le> dinode_at j \<or> dinode_at j + 64 \<le> dinode_at i"
proof -
  assume "i mod IPB \<noteq> j mod IPB"
  then have "unat (i mod IPB) \<noteq> unat (j mod IPB)" by (simp add: word_unat_eq_iff)
  then show ?thesis unfolding dinode_at_def by linarith
qed

lemma iupdate_spec:
  fixes s :: "'m fsst_scheme"
  assumes inv: "tx_inv p {} (Suc k) s" and dev: "i_dev (itable s ip) = ROOTDEV"
  defines "B \<equiv> IBLOCK (i_inum (itable s ip)) (fs_sb s)"
  assumes home: "\<not> in_log s B"
  shows "\<exists>t. iupdate ip s = Ret () t \<and> tx_inv p {} k t \<and> op_frame s t
    \<and> view t = (view s)(B := put_dinode (dinode_at (i_inum (itable s ip))) (itable s ip) (view s B))"
proof -
  let ?f = "put_dinode (dinode_at (i_inum (itable s ip))) (itable s ip)"
  obtain i t where t: "bread ROOTDEV B s = Ret i t" "op_frame s t"
    "\<forall>f. \<exists>u. bnd (log_write i (set_data i f t)) (\<lambda>_ s. brelse i s) = Ret () u
         \<and> tx_inv p {} k u \<and> view u = (view s)(B := f (view s B)) \<and> op_frame t u \<and> op_frame s u \<and> kept {} s u"
    using update_set_data [OF inv _ _ home] by auto
  from t(3) [rule_format, of ?f]
  obtain u where u: "bnd (log_write i (set_data i ?f t)) (\<lambda>_ s. brelse i s) = Ret () u"
    "tx_inv p {} k u" "view u = (view s)(B := ?f (view s B))" "op_frame s u" by blast
  have "iupdate ip s = Ret () u"
    using t(1) u(1) dev fs_frame [OF t(2)] by (simp add: iupdate_def B_def)
  then show ?thesis using u by blast
qed

subsection \<open>Properties\<close>

text \<open>C11: \<open>balloc\<close>, inside a transaction with room for two more blocks, returns the first block the bitmap
  marks free, with its bit set and its contents zeroed and no other block changed; when no block is
  free it panics.\<close>

theorem balloc_correct:
  assumes "tx_inv p {} (Suc (Suc k)) s" and "meta_used s"
  shows "case find (\<lambda>c. \<not> used s c) [0..<fs_blocks s] of
      None \<Rightarrow> balloc ROOTDEV s = Panic ''balloc: out of blocks''
    | Some c \<Rightarrow> \<exists>t. balloc ROOTDEV s = Ret (of_nat c) t \<and> tx_inv p {} k t \<and> view t = alloc_view s c"
proof -
  have "case find (\<lambda>c. \<not> used s c) [0..<fs_blocks s] of
      None \<Rightarrow> balloc ROOTDEV s = Panic ''balloc: out of blocks''
    | Some c \<Rightarrow> \<exists>t. balloc ROOTDEV s = Ret (of_nat c) t \<and> tx_inv p {} k t \<and> view t = alloc_view s c
        \<and> op_frame s t \<and> kept {} s t"
    by (rule balloc_spec [OF assms(1) _ assms(2)]) simp_all
  then show ?thesis by (auto split: option.splits)
qed

text \<open>\<open>bfree\<close> of a block in use clears its bit in the bitmap and changes nothing else; \<open>bfree\<close> of a
  block that is not in use panics.\<close>

theorem bfree_correct:
  assumes "tx_inv p {} (Suc k) s" and "\<not> in_log s (BBLOCK (unat b) (fs_sb s))"
  shows "if used s (unat b)
    then \<exists>t. bfree ROOTDEV b s = Ret () t \<and> tx_inv p {} k t
      \<and> view t = (view s)(BBLOCK (unat b) (fs_sb s)
          := bm_clear (unat b mod BPB) (view s (BBLOCK (unat b) (fs_sb s))))
    else bfree ROOTDEV b s = Panic ''freeing free block''"
proof -
  have "if used s (unat b)
    then \<exists>t. bfree ROOTDEV b s = Ret () t \<and> tx_inv p {} k t \<and> op_frame s t \<and> kept {} s t
      \<and> view t = (view s)(BBLOCK (unat b) (fs_sb s)
          := bm_clear (unat b mod BPB) (view s (BBLOCK (unat b) (fs_sb s))))
    else bfree ROOTDEV b s = Panic ''freeing free block''"
    by (rule bfree_spec [OF assms(1) _ _ assms(2)]) simp_all
  then show ?thesis by (auto split: if_splits)
qed

text \<open>C12: \<open>iupdate\<close> writes the inode so that what \<open>ilock\<close> reads back of it are the fields in memory, and
  the inodes that share its block read as before.\<close>

theorem iupdate_correct:
  assumes "tx_inv p {} (Suc k) s" and "i_dev (itable s ip) = ROOTDEV"
    and "\<not> in_log s (IBLOCK (i_inum (itable s ip)) (fs_sb s))"
  shows "\<exists>t. iupdate ip s = Ret () t \<and> tx_inv p {} k t \<and> fs_sb t = fs_sb s
    \<and> same_dinode (get_dinode (view t (IBLOCK (i_inum (itable s ip)) (fs_sb s)))
         (dinode_at (i_inum (itable s ip))) x) (itable s ip)
    \<and> (\<forall>j. j \<noteq> i_inum (itable s ip) \<longrightarrow> get_dinode (view t (IBLOCK j (fs_sb s))) (dinode_at j) x
         = get_dinode (view s (IBLOCK j (fs_sb s))) (dinode_at j) x)"
proof -
  let ?i = "i_inum (itable s ip)"
  obtain t where t: "iupdate ip s = Ret () t" "tx_inv p {} k t" "op_frame s t"
    "view t = (view s)(IBLOCK ?i (fs_sb s) := put_dinode (dinode_at ?i) (itable s ip) (view s (IBLOCK ?i (fs_sb s))))"
    using iupdate_spec [OF assms] by blast
  have "get_dinode (view t (IBLOCK j (fs_sb s))) (dinode_at j) x = get_dinode (view s (IBLOCK j (fs_sb s))) (dinode_at j) x"
    if "j \<noteq> ?i" for j
  proof (cases "IBLOCK j (fs_sb s) = IBLOCK ?i (fs_sb s)")
    case True
    then have "j div IPB = ?i div IPB" by (simp add: IBLOCK_def)
    then have "j mod IPB \<noteq> ?i mod IPB" using that by (metis div_mult_mod_eq)
    then have "dinode_at j + 64 \<le> dinode_at ?i \<or> dinode_at ?i + 64 \<le> dinode_at j" by (rule dinode_at_apart)
    then show ?thesis unfolding t(4) True by (intro get_dinode_cong) (auto intro!: put_dinode_other)
  qed (simp add: t(4))
  then show ?thesis using t fs_frame [OF t(3)] get_put_dinode by auto
qed

end
