(* ===== verification/Content.thy ===== *)
theory Content
  imports Fs
begin

unbundle bit_operations_syntax

text \<open>
  What the routines of \<^verbatim>\<open>kernel/fs.c\<close> do to files: the inode table, the block map of an inode, reading
  a file, looking a name up in a directory, and taking a path apart. A file's contents are the
  function \<open>fbyte\<close> from offsets to bytes.
\<close>

subsection \<open>The inode table\<close>

lemma tx_world: "tx_inv p H k s \<Longrightarrow> world p s"
  by (auto simp: tx_inv_def log_inv_def bc_inv_def)

lemma upd_inode_fields [simp]:
  "itable (upd_inode i f s) = (itable s)(i := f (itable s i))" "fs_sb (upd_inode i f s) = fs_sb s"
  "lock_free l (upd_inode i f s) = lock_free l s" "calm (upd_inode i f s) = calm s"
  "cur (upd_inode i f s) = cur s" "world p (upd_inode i f s) = world p s" "pmem (upd_inode i f s) = pmem s"
  by (simp_all add: upd_inode_def lock_free_def calm_def cur_def world_def)

lemma lock_on_fsst [lock_simps, simp]:
  "upd_inode i f (lock_on l s) = lock_on l (upd_inode i f s)"
  "itable (lock_on l s) = itable s" "fs_sb (lock_on l s) = fs_sb s" "de_addr (lock_on l s) = de_addr s"
  by (simp_all add: lock_on_def push_off_def Let_def upd_inode_def)

text \<open>Entries in use have a positive count, and no two of them are the same inode.\<close>

definition itable_ok :: "'m fsst_scheme \<Rightarrow> bool" where
  "itable_ok s \<longleftrightarrow> (\<forall>i<NINODE. 0 \<le> i_ref (itable s i))
     \<and> (\<forall>i<NINODE. \<forall>j<NINODE. 0 < i_ref (itable s i) \<and> 0 < i_ref (itable s j)
          \<and> i_dev (itable s i) = i_dev (itable s j) \<and> i_inum (itable s i) = i_inum (itable s j) \<longrightarrow> i = j)"

lemma iget_spec:
  assumes w: "world p s" and ok: "itable_ok s"
  shows "if \<exists>i<NINODE. 0 < i_ref (itable s i) \<and> i_dev (itable s i) = dev \<and> i_inum (itable s i) = inum
    then \<exists>i<NINODE. 0 < i_ref (itable s i) \<and> i_dev (itable s i) = dev \<and> i_inum (itable s i) = inum
      \<and> iget dev inum s = Ret i (upd_inode i (\<lambda>x. x\<lparr>i_ref := i_ref x + 1\<rparr>) s)
    else if \<exists>i<NINODE. i_ref (itable s i) = 0
    then \<exists>i<NINODE. i_ref (itable s i) = 0 \<and> iget dev inum s
      = Ret i (upd_inode i (\<lambda>x. x\<lparr>i_dev := dev, i_inum := inum, i_ref := 1, i_valid := False\<rparr>) s)
    else iget dev inum s = Panic ''iget: no inodes''"
proof -
  let ?hit = "\<lambda>i. i_ref (itable s i) > 0 \<and> i_dev (itable s i) = dev \<and> i_inum (itable s i) = inum"
  have eq: "iget dev inum s = (case find ?hit [0..<NINODE] of
      Some ip \<Rightarrow> Ret ip (upd_inode ip (\<lambda>x. x\<lparr>i_ref := i_ref x + 1\<rparr>) s)
    | None \<Rightarrow> (case find (\<lambda>i. i_ref (itable s i) = 0) [0..<NINODE] of
        None \<Rightarrow> Panic ''iget: no inodes''
      | Some ip \<Rightarrow> Ret ip (upd_inode ip (\<lambda>x. x\<lparr>i_dev := dev, i_inum := inum, i_ref := 1, i_valid := False\<rparr>) s)))"
    using worldD [OF w] by (auto simp: iget_def Let_def split: option.splits)
  show ?thesis
  proof (cases "find ?hit [0..<NINODE]")
    case (Some i)
    from find_SomeD [OF this] have "i < NINODE" "?hit i" by auto
    then show ?thesis unfolding eq Some by auto
  next
    case None
    then have no: "\<not> (\<exists>i<NINODE. ?hit i)" by (auto simp: find_None_iff)
    show ?thesis
    proof (cases "find (\<lambda>i. i_ref (itable s i) = 0) [0..<NINODE]")
      case (Some i)
      from find_SomeD [OF this] have "i < NINODE" "i_ref (itable s i) = 0" by auto
      then show ?thesis unfolding eq None Some using no by auto
    next
      case None': None
      then have "\<not> (\<exists>i<NINODE. i_ref (itable s i) = 0)" by (auto simp: find_None_iff)
      then show ?thesis unfolding eq None None' using no by auto
    qed
  qed
qed

lemma iget_RetE:
  assumes w: "world p s" and ok: "itable_ok s" and ret: "iget dev inum s = Ret i t"
  obtains (hit) "i < NINODE" "0 < i_ref (itable s i)" "i_dev (itable s i) = dev" "i_inum (itable s i) = inum"
      "t = upd_inode i (\<lambda>x. x\<lparr>i_ref := i_ref x + 1\<rparr>) s"
    | (fresh) "i < NINODE" "i_ref (itable s i) = 0"
      "\<not> (\<exists>i<NINODE. 0 < i_ref (itable s i) \<and> i_dev (itable s i) = dev \<and> i_inum (itable s i) = inum)"
      "t = upd_inode i (\<lambda>x. x\<lparr>i_dev := dev, i_inum := inum, i_ref := 1, i_valid := False\<rparr>) s"
proof (cases "\<exists>i<NINODE. 0 < i_ref (itable s i) \<and> i_dev (itable s i) = dev \<and> i_inum (itable s i) = inum")
  case True
  then obtain j where "j < NINODE" "0 < i_ref (itable s j)" "i_dev (itable s j) = dev" "i_inum (itable s j) = inum"
    "iget dev inum s = Ret j (upd_inode j (\<lambda>x. x\<lparr>i_ref := i_ref x + 1\<rparr>) s)"
    using iget_spec [OF w ok, of dev inum] by (simp only: if_True) blast
  then show ?thesis using ret by (intro hit) simp_all
next
  case no: False
  show ?thesis
  proof (cases "\<exists>i<NINODE. i_ref (itable s i) = 0")
    case True
    then obtain j where "j < NINODE" "i_ref (itable s j) = 0" "iget dev inum s
      = Ret j (upd_inode j (\<lambda>x. x\<lparr>i_dev := dev, i_inum := inum, i_ref := 1, i_valid := False\<rparr>) s)"
      using iget_spec [OF w ok, of dev inum] no by (simp only: if_True if_False) blast
    then show ?thesis using ret no by (intro fresh) simp_all
  next
    case False
    then have "iget dev inum s = Panic ''iget: no inodes''"
      using iget_spec [OF w ok, of dev inum] no by (simp only: if_False)
    then show ?thesis using ret by simp
  qed
qed

lemma itable_ok_upd:
  assumes "itable_ok s" and "0 \<le> i_ref (f (itable s i))"
    and "\<And>j. j < NINODE \<Longrightarrow> j \<noteq> i \<Longrightarrow> 0 < i_ref (itable s j) \<Longrightarrow> 0 < i_ref (f (itable s i)) \<Longrightarrow>
      i_dev (itable s j) = i_dev (f (itable s i)) \<Longrightarrow> i_inum (itable s j) = i_inum (f (itable s i)) \<Longrightarrow> False"
  shows "itable_ok (upd_inode i f s)"
proof -
  have "a = b" if "a < NINODE" "b < NINODE" "0 < i_ref (itable (upd_inode i f s) a)"
    "0 < i_ref (itable (upd_inode i f s) b)"
    "i_dev (itable (upd_inode i f s) a) = i_dev (itable (upd_inode i f s) b)"
    "i_inum (itable (upd_inode i f s) a) = i_inum (itable (upd_inode i f s) b)" for a b
  proof (cases "a = i")
    case True
    show ?thesis
    proof (cases "b = i")
      case False
      then show ?thesis using assms(3) [of b] that True by simp
    qed (simp add: True)
  next
    case a: False
    show ?thesis
    proof (cases "b = i")
      case True
      then show ?thesis using assms(3) [of a] that a by simp
    next
      case False
      then show ?thesis using a that assms(1) by (simp add: itable_ok_def)
    qed
  qed
  moreover have "0 \<le> i_ref (itable (upd_inode i f s) j)" if "j < NINODE" for j
    using assms(1,2) that by (simp add: itable_ok_def)
  ultimately show ?thesis unfolding itable_ok_def by blast
qed

lemma itable_ok_iget:
  assumes w: "world p s" and ok: "itable_ok s" and ret: "iget dev inum s = Ret i t"
  shows "itable_ok t \<and> i < NINODE \<and> 0 < i_ref (itable t i) \<and> i_dev (itable t i) = dev \<and> i_inum (itable t i) = inum"
  using assms
proof (cases rule: iget_RetE)
  case hit
  have "itable_ok t" unfolding hit(5)
  proof (rule itable_ok_upd [OF ok])
    fix j
    assume "j < NINODE" "j \<noteq> i" "0 < i_ref (itable s j)"
      "i_dev (itable s j) = i_dev (itable s i\<lparr>i_ref := i_ref (itable s i) + 1\<rparr>)"
      "i_inum (itable s j) = i_inum (itable s i\<lparr>i_ref := i_ref (itable s i) + 1\<rparr>)"
    then show False using ok hit(1-4) by (simp add: itable_ok_def)
  qed (use hit in simp)
  then show ?thesis using hit by simp
next
  case fresh
  have "itable_ok t" unfolding fresh(4) by (rule itable_ok_upd [OF ok]) (use fresh(3) in auto)
  then show ?thesis using fresh by simp
qed

subsection \<open>The block map\<close>

text \<open>The disk block of block \<open>bn\<close> of the file; 0 for a hole.\<close>

definition baddr :: "'m fsst_scheme \<Rightarrow> nat \<Rightarrow> nat \<Rightarrow> u32" where
  "baddr s ip bn =
    (if bn < NDIRECT then i_addrs (itable s ip) bn
     else if i_addrs (itable s ip) NDIRECT = 0 then 0
     else ld32 (view s (i_addrs (itable s ip) NDIRECT)) (4 * (bn - NDIRECT)))"

definition fbyte :: "'m fsst_scheme \<Rightarrow> nat \<Rightarrow> nat \<Rightarrow> u8" where
  "fbyte s ip k = view s (baddr s ip (k div BSIZE)) (k mod BSIZE)"

lemma baddr_frame: "op_frame s t \<Longrightarrow> view t = view s \<Longrightarrow> baddr t ip bn = baddr s ip bn"
  by (simp add: baddr_def fs_frame)

lemma fbyte_frame: "op_frame s t \<Longrightarrow> view t = view s \<Longrightarrow> fbyte t ip k = fbyte s ip k"
  by (simp add: fbyte_def baddr_frame)

lemma op_frame_refl [simp]: "op_frame s s"
  by (rule op_frame_bio) (simp add: bio_frame_def)

lemma bmap_mapped:
  fixes s :: "'m fsst_scheme"
  assumes inv: "tx_inv p {} k s" and dev: "i_dev (itable s ip) = ROOTDEV"
    and bn: "unat bn < MAXFILE" "baddr s ip (unat bn) \<noteq> 0"
  shows "\<exists>t. bmap ip bn s = Ret (baddr s ip (unat bn)) t \<and> tx_inv p {} k t \<and> view t = view s \<and> op_frame s t"
proof (cases "unat bn < NDIRECT")
  case True
  then have "bmap ip bn s = Ret (baddr s ip (unat bn)) s" using bn by (simp add: bmap_def baddr_def Let_def)
  then show ?thesis using inv by auto
next
  case False
  let ?a = "i_addrs (itable s ip) NDIRECT" and ?n = "bn - of_nat NDIRECT :: u32"
  have n: "unat ?n = unat bn - NDIRECT" using False by (simp add: unat_sub_u32 NDIRECT_def)
  have a: "?a \<noteq> 0" using bn False by (auto simp: baddr_def)
  obtain i t u where t: "bread ROOTDEV ?a s = Ret i t" "b_data (bufs t i) = view s ?a" "op_frame s t"
    "brelse i t = Ret () u" "tx_inv p {} k u" "view u = view s" "op_frame s u"
    using read_view [OF inv, of ?a] by auto
  have v: "ld32 (view s ?a) (4 * unat ?n) = baddr s ip (unat bn)" using False a n by (simp add: baddr_def)
  have "unat ?n < NINDIRECT" using bn(1) False n by (simp add: MAXFILE_def)
  then have "bmap ip bn s = Ret (baddr s ip (unat bn)) u"
    using False a t(1,2,4) dev v bn(2) by (simp add: bmap_def Let_def)
  then show ?thesis using t by blast
qed

subsection \<open>Reading a file into kernel memory\<close>

lemma pmem_upd [simp]:
  "tx_inv p H k (s\<lparr>pmem := m\<rparr>) = tx_inv p H k s" "view (s\<lparr>pmem := m\<rparr>) = view s" "world p (s\<lparr>pmem := m\<rparr>) = world p s"
  "baddr (s\<lparr>pmem := m\<rparr>) ip bn = baddr s ip bn" "fbyte (s\<lparr>pmem := m\<rparr>) ip i = fbyte s ip i"
proof -
  have v: "view (s\<lparr>pmem := m\<rparr>) = view s" for s :: "'m fsst_scheme"
    by (simp add: view_def fun_eq_iff split: option.split)
  have w: "world p (s\<lparr>pmem := m\<rparr>) = world p s" by (rule world_cong) simp_all
  have bc: "bc_inv p P H (s\<lparr>pmem := m\<rparr>) = bc_inv p P H s" for P
    by (intro bc_inv_cong; simp add: world_def calm_def lock_free_def cur_def)
  show "tx_inv p H k (s\<lparr>pmem := m\<rparr>) = tx_inv p H k s"
    by (simp add: tx_inv_def log_inv_def bc log_geom_def in_log_def)
  show "view (s\<lparr>pmem := m\<rparr>) = view s" by (rule v)
  show "world p (s\<lparr>pmem := m\<rparr>) = world p s" by (rule w)
  show "baddr (s\<lparr>pmem := m\<rparr>) ip bn = baddr s ip bn" for bn by (simp add: baddr_def v)
  then show "fbyte (s\<lparr>pmem := m\<rparr>) ip i = fbyte s ip i" by (simp add: fbyte_def v)
qed

lemma tx_inv_itable [simp]:
  "tx_inv p H k (s\<lparr>itable := x\<rparr>) = tx_inv p H k s" "view (s\<lparr>itable := x\<rparr>) = view s"
proof -
  have v: "view (s\<lparr>itable := x\<rparr>) = view s" for s :: "'m fsst_scheme"
    by (simp add: view_def fun_eq_iff split: option.split)
  have bc: "bc_inv p P H (s\<lparr>itable := x\<rparr>) = bc_inv p P H s" for P
    by (intro bc_inv_cong; simp add: world_def calm_def lock_free_def cur_def)
  show "tx_inv p H k (s\<lparr>itable := x\<rparr>) = tx_inv p H k s"
    by (simp add: tx_inv_def log_inv_def bc log_geom_def in_log_def)
  show "view (s\<lparr>itable := x\<rparr>) = view s" by (rule v)
qed

lemma op_frame_pmem: "op_frame s t \<Longrightarrow> op_frame (s\<lparr>pmem := m\<rparr>) (t\<lparr>pmem := m\<rparr>)"
proof -
  assume f: "op_frame s t"
  let ?s = "s\<lparr>lh_n := lh_n t, lh_block := lh_block t\<rparr>"
  have f: "bio_frame ?s t" using f by (simp add: op_frame_def)
  then have e: "t = ?s\<lparr>sleeplocks := sleeplocks t, procs := procs t, bufs := bufs t, disk := disk t, dwrites := dwrites t\<rparr>"
    unfolding bio_frame_def by blast
  have "t\<lparr>pmem := m\<rparr> = ?s\<lparr>pmem := m, sleeplocks := sleeplocks t, procs := procs t, bufs := bufs t,
      disk := disk t, dwrites := dwrites t\<rparr>"
    by (rule trans [OF arg_cong [OF e, where f = "\<lambda>t. t\<lparr>pmem := m\<rparr>"]]) simp
  then show ?thesis
    using f unfolding op_frame_def bio_frame_def by simp
qed

lemma put_bytes_append:
  "put_bytes (put_bytes m a f n) (a + of_nat n) (\<lambda>i. f (n + i)) k = put_bytes m a f (n + k)"
proof (induction n arbitrary: m a f)
  case (Suc n)
  have e: "a + of_nat (Suc n) = a + 1 + of_nat n" by simp
  show ?case unfolding e by (simp only: put_bytes.simps add_Suc Suc.IH [of "m(a := f 0)" "a + 1" "\<lambda>i. f (Suc i)"])
qed simp

lemma put_bytes_cong: "(\<And>i. i < n \<Longrightarrow> f i = g i) \<Longrightarrow> put_bytes m a f n = put_bytes m a g n"
proof (induction n arbitrary: m a f g)
  case (Suc n)
  have "f 0 = g 0" using Suc.prems [of 0] by simp
  moreover have "put_bytes x (a + 1) (\<lambda>i. f (Suc i)) n = put_bytes x (a + 1) (\<lambda>i. g (Suc i)) n" for x
    using Suc.prems by (intro Suc.IH) simp
  ultimately show ?case by simp
qed simp

lemma ucast_u32_u64 [simp]: "ucast (ucast (m :: u32) :: u64) = m"
  by (rule bit_word_eqI) (auto simp: bit_simps)

lemma either_copyout_kernel:
  assumes "world p s"
  shows "either_copyout False dst src (ucast (m :: u32)) s = Ret 0 (s\<lparr>pmem := put_bytes (pmem s) dst src (unat m)\<rparr>)"
  using worldD [OF assms] by (simp add: either_copyout_def)

text \<open>All blocks of the file that hold a byte of the range are allocated.\<close>

definition mapped_range :: "'m fsst_scheme \<Rightarrow> nat \<Rightarrow> nat \<Rightarrow> nat \<Rightarrow> bool" where
  "mapped_range s ip a b \<longleftrightarrow> b \<le> MAXFILE * BSIZE \<and> (\<forall>i. a \<le> i \<and> i < b \<longrightarrow> baddr s ip (i div BSIZE) \<noteq> 0)"

lemma readi_loop_kernel:
  fixes s :: "'m fsst_scheme"
  assumes "tx_inv p {} k s" and "i_dev (itable s ip) = ROOTDEV" and "tot \<le> n"
    and "mapped_range s ip (unat off) (unat off + (unat n - unat tot))"
  shows "\<exists>t. readi_loop ip False dst tot off n s = Ret (sint n) t \<and> tx_inv p {} k t \<and> view t = view s
    \<and> pmem t = put_bytes (pmem s) dst (\<lambda>i. fbyte s ip (unat off + i)) (unat n - unat tot)
    \<and> op_frame (s\<lparr>pmem := pmem t\<rparr>) t"
  using assms
proof (induction "unat n - unat tot" arbitrary: tot off dst s rule: less_induct)
  case less
  show ?case
  proof (cases "tot < n")
    case False
    then have "tot = n" using less.prems(3) by simp
    then show ?thesis using less.prems by (subst readi_loop.simps) simp
  next
    case lt: True
    let ?m = "io_step n tot off" and ?bn = "off div of_nat BSIZE"
    note st = io_step_progress [OF lt, of off]
    have lt': "unat tot < unat n" using lt by (simp add: word_less_nat_alt)
    have mle: "unat ?m \<le> 1024 - unat off mod 1024" by (simp add: unat_io_step)
    have bn: "unat ?bn = unat off div 1024" by (simp add: unat_div BSIZE_def)
    have upto: "unat off + (unat n - unat tot) \<le> MAXFILE * 1024"
      using less.prems(4) by (simp add: mapped_range_def BSIZE_def)
    have "unat ?bn < MAXFILE" unfolding bn using upto lt' by (intro less_mult_imp_div_less) linarith
    moreover have a: "baddr s ip (unat ?bn) \<noteq> 0"
      using less.prems(4) lt' unfolding mapped_range_def bn by (auto simp: BSIZE_def)
    ultimately obtain s1 where s1: "bmap ip ?bn s = Ret (baddr s ip (unat ?bn)) s1" "tx_inv p {} k s1" "view s1 = view s"
      "op_frame s s1"
      using bmap_mapped [OF less.prems(1,2)] by blast
    let ?a = "baddr s ip (unat ?bn)"
    obtain i s2 where s2: "bread ROOTDEV ?a s1 = Ret i s2" "tx_inv p {i} k s2" "b_data (bufs s2 i) = view s ?a"
      "settled s2 i" "view s2 = view s" "op_frame s1 s2"
      using store.rd_law [OF s1(2), of ?a] s1(3) by auto
    define s3 where "s3 = s2\<lparr>pmem := put_bytes (pmem s2) dst (\<lambda>j. view s ?a (unat off mod 1024 + j)) (unat ?m)\<rparr>"
    have i3: "tx_inv p {i} k s3" "view s3 = view s" "settled s3 i" "bufs s3 = bufs s2"
      using s2 by (simp_all add: s3_def settled_def logged_def)
    obtain u where u: "brelse i s3 = Ret () u" "tx_inv p {} k u" "view u = view s" "op_frame s3 u"
      using store.rel_law [OF i3(1) _ i3(3)] i3(2) by auto
    have f13: "op_frame s s2" using s1(4) s2(6) by (rule op_frame_trans)
    note f2 = fs_frame [OF f13] op_frame_fields(7) [OF f13] and fu = fs_frame [OF u(4)] op_frame_fields(7) [OF u(4)]
    have pm: "pmem u = put_bytes (pmem s) dst (\<lambda>j. fbyte s ip (unat off + j)) (unat ?m)"
    proof -
      have "view s ?a (unat off mod 1024 + j) = fbyte s ip (unat off + j)" if "j < unat ?m" for j
      proof -
        have "unat off mod 1024 + j < 1024" using that mle by linarith
        moreover from this have "(unat off + j) div 1024 = unat off div 1024"
          using div_mult_mod_eq [of "unat off" 1024] by linarith
        moreover have "(unat off + j) mod 1024 = unat off mod 1024 + j"
          using mod_add_left_eq [of "unat off" 1024 j] calculation(1) by simp
        ultimately show ?thesis using bn by (simp add: fbyte_def BSIZE_def)
      qed
      then show ?thesis using fu(5) f2(5) by (simp add: s3_def) (rule put_bytes_cong)
    qed
    have b_same: "baddr u ip j = baddr s ip j" "fbyte u ip j = fbyte s ip j" for j
    proof -
      have e: "s3 = s2\<lparr>pmem := pmem s3\<rparr>" by (simp add: s3_def)
      have "baddr u ip j = baddr s2 ip j" "fbyte u ip j = fbyte s2 ip j"
        using baddr_frame [OF u(4)] fbyte_frame [OF u(4)] u(3) i3(2) pmem_upd(4,5) [where s = s2 and m = "pmem s3" and ip = ip]
        by (simp_all flip: e)
      then show "baddr u ip j = baddr s ip j" "fbyte u ip j = fbyte s ip j"
        using baddr_frame [OF f13] fbyte_frame [OF f13] s2(5) by simp_all
    qed
    have "unat off + unat n - unat tot < 4294967296"
      using upto by (simp add: MAXFILE_def NDIRECT_def NINDIRECT_def BSIZE_def)
    then have "unat off + unat ?m < 4294967296" using st(3) lt' by linarith
    then have off: "unat (off + ?m) = unat off + unat ?m" by (simp add: unat_add_u32)
    have dev: "i_dev (itable u ip) = ROOTDEV" using less.prems(2) f2 fu by (simp add: s3_def)
    have map: "mapped_range u ip (unat (off + ?m)) (unat (off + ?m) + (unat n - unat (tot + ?m)))"
      using less.prems(4) st(1,3) unfolding mapped_range_def off b_same by auto
    obtain t where t: "readi_loop ip False (dst + ucast ?m) (tot + ?m) (off + ?m) n u = Ret (sint n) t"
      "tx_inv p {} k t" "view t = view u"
      "pmem t = put_bytes (pmem u) (dst + ucast ?m) (\<lambda>i. fbyte u ip (unat (off + ?m) + i)) (unat n - unat (tot + ?m))"
      "op_frame (u\<lparr>pmem := pmem t\<rparr>) t"
      using less.hyps [OF st(5) u(2) dev st(4) map] by blast
    have "readi_loop ip False dst tot off n s
      = readi_loop ip False (dst + ucast ?m) (tot + ?m) (off + ?m) n u"
      using lt s1(1) s2(1,3) u(1) less.prems(2) fs_frame [OF s1(4)] either_copyout_kernel [of p s2]
        tx_world [OF s2(2)]
      by (subst readi_loop.simps) (simp add: Let_def s3_def unat_off_mod)
    moreover have "pmem t = put_bytes (pmem s) dst (\<lambda>i. fbyte s ip (unat off + i)) (unat n - unat tot)"
    proof -
      have "ucast ?m = (of_nat (unat ?m) :: u64)" by simp
      moreover have "unat n - unat tot = unat ?m + (unat n - unat (tot + ?m))" using st(1,3) by linarith
      ultimately show ?thesis
        using put_bytes_append [of "pmem s" dst "\<lambda>i. fbyte s ip (unat off + i)" "unat ?m"]
        by (simp add: t(4) pm b_same off add.assoc)
    qed
    moreover have "op_frame (s\<lparr>pmem := pmem t\<rparr>) t"
    proof -
      have "op_frame (s\<lparr>pmem := pmem t\<rparr>) (s2\<lparr>pmem := pmem t\<rparr>)" using f13 by (rule op_frame_pmem)
      moreover have "op_frame (s3\<lparr>pmem := pmem t\<rparr>) (u\<lparr>pmem := pmem t\<rparr>)" using u(4) by (rule op_frame_pmem)
      ultimately show ?thesis using t(5) op_frame_trans by (simp add: s3_def) blast
    qed
    ultimately show ?thesis using t u(3) by auto
  qed
qed

text \<open>\<open>readi\<close> clips the range to the file's size.\<close>

definition read_len :: "'m fsst_scheme \<Rightarrow> nat \<Rightarrow> u32 \<Rightarrow> u32 \<Rightarrow> u32" where
  "read_len s ip off n =
    (if off > i_size (itable s ip) \<or> off + n < off then 0
     else if off + n > i_size (itable s ip) then i_size (itable s ip) - off else n)"

lemma unat_read_len:
  "unat (read_len s ip off n) =
    (if unat off + unat n < 4294967296 then min (unat n) (unat (i_size (itable s ip)) - unat off) else 0)"
  using unat_u32_less [of off] unat_u32_less [of n]
  by (auto simp: read_len_def word_less_nat_alt unat_add_u32 unat_sub_u32)

lemma readi_kernel:
  fixes s :: "'m fsst_scheme"
  assumes inv: "tx_inv p {} k s" and dev: "i_dev (itable s ip) = ROOTDEV"
    and map: "mapped_range s ip (unat off) (unat off + unat (read_len s ip off n))"
  shows "\<exists>t. readi ip False dst off n s = Ret (sint (read_len s ip off n)) t \<and> tx_inv p {} k t \<and> view t = view s
    \<and> pmem t = put_bytes (pmem s) dst (\<lambda>i. fbyte s ip (unat off + i)) (unat (read_len s ip off n))
    \<and> op_frame (s\<lparr>pmem := pmem t\<rparr>) t"
proof (cases "off > i_size (itable s ip) \<or> off + n < off")
  case True
  then show ?thesis using inv by (auto simp: readi_def read_len_def)
next
  case False
  then have "readi ip False dst off n s = readi_loop ip False dst 0 off (read_len s ip off n) s"
    by (simp add: readi_def read_len_def Let_def)
  then show ?thesis using readi_loop_kernel [OF inv dev, of 0 "read_len s ip off n" off dst] map by simp
qed

subsection \<open>Directories\<close>

definition ent_inum :: "'m fsst_scheme \<Rightarrow> nat \<Rightarrow> nat \<Rightarrow> u16" where
  "ent_inum s dp j = ucast (fbyte s dp (16 * j)) OR push_bit 8 (ucast (fbyte s dp (16 * j + 1)))"

definition ent_name :: "'m fsst_scheme \<Rightarrow> nat \<Rightarrow> nat \<Rightarrow> nat \<Rightarrow> u8" where
  "ent_name s dp j i = fbyte s dp (16 * j + 2 + i)"

text \<open>Entry \<open>j\<close> is in use and has this name.\<close>

definition ent_hit :: "'m fsst_scheme \<Rightarrow> nat \<Rightarrow> (nat \<Rightarrow> u8) \<Rightarrow> nat \<Rightarrow> bool" where
  "ent_hit s dp name j \<longleftrightarrow> ent_inum s dp j \<noteq> 0 \<and> namecmp name (ent_name s dp j) = 0"

text \<open>A directory on the root device, its blocks allocated, its size a number of whole entries.\<close>

definition dir_ok :: "'m fsst_scheme \<Rightarrow> nat \<Rightarrow> bool" where
  "dir_ok s dp \<longleftrightarrow> i_dev (itable s dp) = ROOTDEV \<and> unat (i_size (itable s dp)) mod 16 = 0
     \<and> mapped_range s dp 0 (unat (i_size (itable s dp)))"

lemma strncmp_loop_cong:
  "(\<And>j. i \<le> j \<Longrightarrow> j < i + m \<Longrightarrow> e j = e' j) \<Longrightarrow> strncmp_loop n e i m = strncmp_loop n e' i m"
proof (induction m arbitrary: i)
  case (Suc m)
  have "strncmp_loop n e (Suc i) m = strncmp_loop n e' (Suc i) m" using Suc.prems by (intro Suc.IH) simp
  then show ?case using Suc.prems [of i] by simp
qed simp

lemma namecmp_cong: "(\<And>i. i < 14 \<Longrightarrow> e i = e' i) \<Longrightarrow> namecmp n e = namecmp n e'"
  unfolding namecmp_def strncmp_def by (rule strncmp_loop_cong) (simp add: DIRSIZ_def)

lemma dir_ent_read:
  fixes s :: "'m fsst_scheme"
  assumes inv: "tx_inv p {} k s" and dir: "dir_ok s dp" and j: "16 * j < unat (i_size (itable s dp))"
  shows "\<exists>t. readi dp False (de_addr s) (of_nat (16 * j)) 16 s = Ret 16 t \<and> tx_inv p {} k t \<and> view t = view s
    \<and> op_frame (s\<lparr>pmem := pmem t\<rparr>) t \<and> de_inum (pmem t) (de_addr t) = ent_inum s dp j
    \<and> namecmp name (de_name (pmem t) (de_addr t)) = namecmp name (ent_name s dp j)"
proof -
  let ?o = "of_nat (16 * j) :: u32"
  have m: "unat (i_size (itable s dp)) mod 16 = 0" and le: "unat (i_size (itable s dp)) \<le> MAXFILE * BSIZE"
    using dir by (simp_all add: dir_ok_def mapped_range_def)
  have "16 * j + 16 \<le> unat (i_size (itable s dp))" using m j by presburger
  note sz = this le
  then have lt: "16 * j + 16 < 4294967296" by (simp add: MAXFILE_def NDIRECT_def NINDIRECT_def BSIZE_def)
  then have o: "unat ?o = 16 * j" by (intro unat_of_nat_u32) simp
  have "unat (read_len s dp ?o 16) = 16" using sz lt by (simp only: unat_read_len o) simp
  then have len: "read_len s dp ?o 16 = 16" by (simp add: word_unat_eq_iff)
  have map: "mapped_range s dp (unat ?o) (unat ?o + unat (read_len s dp ?o 16))"
    using dir sz by (simp add: dir_ok_def mapped_range_def o len del: of_nat_mult)
  have dev: "i_dev (itable s dp) = ROOTDEV" using dir by (simp add: dir_ok_def)
  obtain t where t: "readi dp False (de_addr s) ?o 16 s = Ret 16 t" "tx_inv p {} k t" "view t = view s"
    "pmem t = put_bytes (pmem s) (de_addr s) (\<lambda>i. fbyte s dp (16 * j + i)) 16" "op_frame (s\<lparr>pmem := pmem t\<rparr>) t"
    using readi_kernel [OF inv dev map, of "de_addr s"] by (auto simp: len o simp del: of_nat_mult)
  have a: "de_addr t = de_addr s" using fs_frame [OF t(5)] by simp
  have b: "pmem t (de_addr s + of_nat i) = fbyte s dp (16 * j + i)" if "i < 16" for i
    using that by (simp add: t(4) put_bytes_eq)
  have "de_inum (pmem t) (de_addr t) = ent_inum s dp j"
    using b [of 0] b [of 1] by (simp add: de_inum_def ent_inum_def a)
  moreover have "namecmp name (de_name (pmem t) (de_addr t)) = namecmp name (ent_name s dp j)"
  proof (rule namecmp_cong)
    fix i :: nat assume "i < 14"
    then show "de_name (pmem t) (de_addr t) i = ent_name s dp j i"
      using b [of "2 + i"] by (simp add: de_name_def ent_name_def a add.assoc)
  qed
  ultimately show ?thesis using t by blast
qed

lemma dir_frame:
  fixes s :: "'m fsst_scheme"
  assumes "op_frame (s\<lparr>pmem := pmem t\<rparr>) t" and "view t = view s"
  shows "baddr t ip bn = baddr s ip bn" "fbyte t ip i = fbyte s ip i" "itable t = itable s" "fs_sb t = fs_sb s"
    "ent_inum t ip j = ent_inum s ip j" "ent_name t ip j = ent_name s ip j" "dir_ok t ip = dir_ok s ip"
    "ent_hit t ip name j = ent_hit s ip name j"
proof -
  show b: "baddr t ip bn = baddr s ip bn" for bn using baddr_frame [OF assms(1)] assms(2) by simp
  then show f: "fbyte t ip i = fbyte s ip i" for i using assms(2) by (simp add: fbyte_def)
  show "itable t = itable s" "fs_sb t = fs_sb s" using fs_frame [OF assms(1)] by simp_all
  moreover from f have "ent_name t ip j = ent_name s ip j" by (simp add: ent_name_def fun_eq_iff)
  ultimately show "ent_inum t ip j = ent_inum s ip j" "ent_name t ip j = ent_name s ip j" "dir_ok t ip = dir_ok s ip"
    "ent_hit t ip name j = ent_hit s ip name j"
    by (simp_all add: ent_inum_def dir_ok_def mapped_range_def ent_hit_def b f)
qed

lemma pmem_frame_trans:
  "op_frame (s\<lparr>pmem := pmem t\<rparr>) t \<Longrightarrow> op_frame (t\<lparr>pmem := pmem u\<rparr>) u \<Longrightarrow> op_frame (s\<lparr>pmem := pmem u\<rparr>) u"
  for s :: "'m fsst_scheme"
  using op_frame_pmem [of "s\<lparr>pmem := pmem t\<rparr>" t "pmem u"] op_frame_trans by auto

lemma dirlookup_loop_spec:
  fixes s :: "'m fsst_scheme"
  assumes "tx_inv p {} k s" and "dir_ok s dp" and "16 * j \<le> unat (i_size (itable s dp))"
  shows "\<exists>t. tx_inv p {} k t \<and> view t = view s \<and> op_frame (s\<lparr>pmem := pmem t\<rparr>) t
    \<and> dirlookup_loop dp name (of_nat (16 * j)) s =
      (case find (ent_hit s dp name) [j..<unat (i_size (itable s dp)) div 16] of
         None \<Rightarrow> Ret None t
       | Some j \<Rightarrow> bnd (iget ROOTDEV (ucast (ent_inum s dp j)) t) (\<lambda>ip s. Ret (Some (ip, of_nat (16 * j))) s))"
  using assms
proof (induction "unat (i_size (itable s dp)) div 16 - j" arbitrary: j s)
  let ?o = "\<lambda>j. of_nat (16 * j) :: u32"
  case 0
  have "unat (i_size (itable s dp)) mod 16 = 0" using 0 by (simp add: dir_ok_def)
  then have "unat (i_size (itable s dp)) = 16 * (unat (i_size (itable s dp)) div 16)"
    using div_mult_mod_eq [of "unat (i_size (itable s dp))" 16] by linarith
  moreover have "unat (i_size (itable s dp)) div 16 \<le> j" using 0(1) by linarith
  ultimately have sz: "unat (i_size (itable s dp)) = 16 * j" using 0(4) by linarith
  have "\<not> ?o j < i_size (itable s dp)" unfolding sz [symmetric] by simp
  moreover have "find h [j..<unat (i_size (itable s dp)) div 16] = None" for h unfolding sz by simp
  ultimately show ?case using 0(2) by (intro exI [of _ s]) (simp add: dirlookup_loop.simps [of dp name "?o j" s] del: of_nat_mult)
next
  let ?o = "\<lambda>j. of_nat (16 * j) :: u32"
  case (Suc d)
  have lt: "16 * j < unat (i_size (itable s dp))" using Suc(2) by linarith
  then have o: "unat (?o j) = 16 * j" using unat_u32_less [of "i_size (itable s dp)"] by (intro unat_of_nat_u32) simp
  obtain t where t: "readi dp False (de_addr s) (?o j) 16 s = Ret 16 t" "tx_inv p {} k t" "view t = view s"
    "op_frame (s\<lparr>pmem := pmem t\<rparr>) t" "de_inum (pmem t) (de_addr t) = ent_inum s dp j"
    "namecmp name (de_name (pmem t) (de_addr t)) = namecmp name (ent_name s dp j)"
    using dir_ent_read [OF Suc.prems(1,2) lt] by blast
  note f = dir_frame [OF t(4,3)]
  have dev: "i_dev (itable s dp) = ROOTDEV" using Suc.prems(2) by (simp add: dir_ok_def)
  have up: "[j..<unat (i_size (itable s dp)) div 16] = j # [Suc j..<unat (i_size (itable s dp)) div 16]"
    using Suc(2) by (intro upt_conv_Cons) linarith
  have next_o: "?o j + 16 = ?o (Suc j)" by simp
  have here: "?o j < i_size (itable s dp)" unfolding word_less_nat_alt o by (rule lt)
  have "dirlookup_loop dp name x s = (if ent_hit s dp name j
      then bnd (iget ROOTDEV (ucast (ent_inum s dp j)) t) (\<lambda>ip s. Ret (Some (ip, x)) s)
      else dirlookup_loop dp name (x + 16) t)" if "x < i_size (itable s dp)"
      "readi dp False (de_addr s) x 16 s = Ret 16 t" for x
    unfolding dirlookup_loop.simps [of dp name x s] using that t(5,6) f(3) dev by (simp add: ent_hit_def)
  from this [OF here t(1)] have step: "dirlookup_loop dp name (?o j) s = (if ent_hit s dp name j
      then bnd (iget ROOTDEV (ucast (ent_inum s dp j)) t) (\<lambda>ip s. Ret (Some (ip, ?o j)) s)
      else dirlookup_loop dp name (?o (Suc j)) t)" unfolding next_o .
  show ?case
  proof (cases "ent_hit s dp name j")
    case True
    then show ?thesis unfolding step up using t by (intro exI [of _ t]) simp
  next
    case False
    have "unat (i_size (itable s dp)) mod 16 = 0" using Suc.prems(2) by (simp add: dir_ok_def)
    then have le: "16 * Suc j \<le> unat (i_size (itable t dp))" unfolding f(3) using lt by presburger
    have "d = unat (i_size (itable t dp)) div 16 - Suc j" "dir_ok t dp" using Suc.hyps(2) Suc.prems(2) f by simp_all
    from Suc.hyps(1) [OF this(1) t(2) this(2) le]
    obtain u where u: "tx_inv p {} k u" "view u = view t" "op_frame (t\<lparr>pmem := pmem u\<rparr>) u"
      "dirlookup_loop dp name (?o (Suc j)) t =
        (case find (ent_hit t dp name) [Suc j..<unat (i_size (itable t dp)) div 16] of
           None \<Rightarrow> Ret None u
         | Some j \<Rightarrow> bnd (iget ROOTDEV (ucast (ent_inum t dp j)) u) (\<lambda>ip s. Ret (Some (ip, ?o j)) s))" by blast
    have same: "ent_hit t dp name = ent_hit s dp name" "ent_inum t dp = ent_inum s dp" using f by auto
    show ?thesis
      unfolding step up using False u(1,2) u(4) [unfolded same] t(3) f(3) pmem_frame_trans [OF t(4) u(3)]
      by (intro exI [of _ u]) simp
  qed
qed

lemma dirlookup_spec:
  fixes s :: "'m fsst_scheme"
  assumes inv: "tx_inv p {} k s" and dir: "dir_ok s dp" "i_type (itable s dp) = T_DIR"
  shows "\<exists>t. tx_inv p {} k t \<and> view t = view s \<and> op_frame (s\<lparr>pmem := pmem t\<rparr>) t
    \<and> dirlookup dp name s =
      (case find (ent_hit s dp name) [0..<unat (i_size (itable s dp)) div 16] of
         None \<Rightarrow> Ret None t
       | Some j \<Rightarrow> bnd (iget ROOTDEV (ucast (ent_inum s dp j)) t) (\<lambda>ip s. Ret (Some (ip, of_nat (16 * j))) s))"
  using dirlookup_loop_spec [OF inv dir(1), of 0 name] dir(2) by (simp add: dirlookup_def del: of_nat_mult)

subsection \<open>Paths\<close>

text \<open>The elements of a path: what stands between its slashes, leaving out empty pieces.\<close>

fun pieces :: "u8 list \<Rightarrow> u8 list list" where
  "pieces [] = [[]]"
| "pieces (c # cs) = (if c = slash then [] # pieces cs else (c # hd (pieces cs)) # tl (pieces cs))"

definition path_elems :: "u8 list \<Rightarrow> u8 list list" where
  "path_elems path = filter (\<lambda>e. e \<noteq> []) (pieces path)"

text \<open>An element copied into the buffer \<open>name\<close>: cut off at \<open>DIRSIZ\<close> bytes, with a NUL if it is shorter.\<close>

definition set_name :: "(nat \<Rightarrow> u8) \<Rightarrow> u8 list \<Rightarrow> (nat \<Rightarrow> u8)" where
  "set_name name e = (\<lambda>k. if k < min DIRSIZ (length e) then e ! k else if k = length e \<and> k < DIRSIZ then 0 else name k)"

lemma pieces_not_Nil [simp]: "pieces path \<noteq> []"
  by (induction path) auto

lemma path_elems_slash [simp]: "path_elems (slash # path) = path_elems path"
  by (simp add: path_elems_def)

lemma path_elems_strip [simp]: "path_elems (dropWhile (\<lambda>c. c = slash) path) = path_elems path"
  by (induction path) simp_all

lemma pieces_elem: "pieces path =
    takeWhile (\<lambda>c. c \<noteq> slash) path # (case dropWhile (\<lambda>c. c \<noteq> slash) path of [] \<Rightarrow> [] | c # cs \<Rightarrow> pieces cs)"
  by (induction path) auto

lemma path_elems_Nil [simp]: "path_elems [] = []"
  by (simp add: path_elems_def)

lemma path_elems_elem:
  assumes "path \<noteq> []" and "hd path \<noteq> slash"
  shows "path_elems path
    = takeWhile (\<lambda>c. c \<noteq> slash) path # path_elems (dropWhile (\<lambda>c. c \<noteq> slash) path)"
proof -
  have ne: "takeWhile (\<lambda>c. c \<noteq> slash) path \<noteq> []" using assms by (cases path) auto
  show ?thesis
  proof (cases "dropWhile (\<lambda>c. c \<noteq> slash) path")
    case Nil
    then show ?thesis unfolding path_elems_def using ne by (subst pieces_elem) (simp add: Nil)
  next
    case (Cons c cs)
    then have "c = slash" using hd_dropWhile [of "\<lambda>c. c \<noteq> slash" path] by simp
    then show ?thesis using ne Cons unfolding path_elems_def by (subst pieces_elem) simp
  qed
qed

lemma skipelem_spec: "skipelem path name =
    (case path_elems path of [] \<Rightarrow> None
     | e # es \<Rightarrow> Some (dropWhile (\<lambda>c. c = slash) (dropWhile (\<lambda>c. c \<noteq> slash) (dropWhile (\<lambda>c. c = slash) path)),
         set_name name e))"
proof (cases "dropWhile (\<lambda>c. c = slash) path = []")
  case True
  then have "path_elems path = []" using path_elems_strip [of path] by (simp only: path_elems_Nil)
  then show ?thesis using True by (simp add: skipelem_def)
next
  case False
  let ?p = "dropWhile (\<lambda>c. c = slash) path"
  let ?e = "takeWhile (\<lambda>c. c \<noteq> slash) ?p"
  have "hd ?p \<noteq> slash" using hd_dropWhile [OF False] by simp
  from path_elems_elem [OF False this]
  have el: "path_elems path = ?e # path_elems (dropWhile (\<lambda>c. c \<noteq> slash) ?p)" by simp
  have e: "?p = ?e @ dropWhile (\<lambda>c. c \<noteq> slash) ?p" by simp
  have "length ?p = length ?e + length (dropWhile (\<lambda>c. c \<noteq> slash) ?p)"
    by (subst e) (simp only: length_append)
  then have len: "length ?p - length (dropWhile (\<lambda>c. c \<noteq> slash) ?p) = length ?e" by linarith
  have nth: "?p ! k = ?e ! k" if "k < length ?e" for k using that by (simp add: takeWhile_nth)
  show ?thesis unfolding skipelem_def Let_def el len using False nth
    by (auto simp: set_name_def fun_eq_iff)
qed

lemma skipelem_rest: "skipelem path name = Some (path', name') \<Longrightarrow> path_elems path' = tl (path_elems path)"
proof -
  assume s: "skipelem path name = Some (path', name')"
  let ?p = "dropWhile (\<lambda>c. c = slash) path"
  have ne: "?p \<noteq> []" using s by (auto simp: skipelem_def Let_def simp del: dropWhile_eq_Nil_conv)
  then have "hd ?p \<noteq> slash" using hd_dropWhile [OF ne] by simp
  with path_elems_elem [OF ne this] s show ?thesis
    by (auto simp: skipelem_spec split: list.splits)
qed

subsection \<open>Properties\<close>


text \<open>C7: \<open>readi\<close> into kernel memory copies exactly the file's bytes from \<open>off\<close> on, as many as were asked
  for and the file has, to the destination, returns their number, and changes no file.\<close>

theorem readi_correct:
  assumes "tx_inv p {} k s" and "i_dev (itable s ip) = ROOTDEV"
    and "mapped_range s ip (unat off) (unat off + unat (read_len s ip off n))"
  shows "\<exists>t. readi ip False dst off n s = Ret (sint (read_len s ip off n)) t \<and> tx_inv p {} k t
    \<and> (\<forall>jp i. fbyte t jp i = fbyte s jp i)
    \<and> (\<forall>a. pmem t a = (if unat (a - dst) < unat (read_len s ip off n)
          then fbyte s ip (unat off + unat (a - dst)) else pmem s a))
    \<and> unat (read_len s ip off n) = (if unat off + unat n < 2 ^ 32
          then min (unat n) (unat (i_size (itable s ip)) - unat off) else 0)"
proof -
  obtain t where t: "readi ip False dst off n s = Ret (sint (read_len s ip off n)) t" "tx_inv p {} k t" "view t = view s"
    "pmem t = put_bytes (pmem s) dst (\<lambda>i. fbyte s ip (unat off + i)) (unat (read_len s ip off n))"
    "op_frame (s\<lparr>pmem := pmem t\<rparr>) t"
    using readi_kernel [OF assms] by blast
  have "unat (read_len s ip off n) \<le> 2 ^ 64" using unat_u32_less [of "read_len s ip off n"] by simp
  from put_bytes_eq [OF this] show ?thesis
    using t dir_frame(2) [OF t(5,3)] by (simp add: unat_read_len)
qed

text \<open>C8: \<open>dirlookup\<close> finds the first entry in use whose name agrees with the given one on \<open>DIRSIZ\<close> bytes,
  returns the inode \<open>iget\<close> gives for its number together with its offset, and returns nothing exactly
  when there is no such entry. It writes to no file.\<close>

theorem dirlookup_correct:
  assumes "tx_inv p {} k s" and "dir_ok s dp" and "i_type (itable s dp) = T_DIR"
  shows "\<exists>t. tx_inv p {} k t \<and> view t = view s \<and> itable t = itable s
    \<and> dirlookup dp name s =
      (case find (ent_hit s dp name) [0..<unat (i_size (itable s dp)) div 16] of
         None \<Rightarrow> Ret None t
       | Some j \<Rightarrow> bnd (iget ROOTDEV (ucast (ent_inum s dp j)) t) (\<lambda>ip s. Ret (Some (ip, of_nat (16 * j))) s))"
  using dirlookup_spec [OF assms, of name] dir_frame(3) by blast


end
