(* ===== verification/Pipe.thy ===== *)
theory Pipe
  imports Ring Content
begin

text \<open>
  Pipes, \<^verbatim>\<open>kernel/pipe.c\<close> (\<open>pipealloc\<close> is in \<open>File\<close>, with the file table). A pipe lives in a page from
  \<open>kalloc\<close>; its fields are kept typed, in \<open>pipes\<close>, by the page's address. A reader or writer that sleeps
  gives up the CPU; \<open>piperead_back\<close> and \<open>pipewrite_back\<close> say how it goes on when the scheduler runs it
  again. The theorems: a pipe is the bounded queue of \<open>Ring\<close>, what a writer copies from its memory comes
  out at the reader's in order, and the two block exactly on a full and on an empty pipe.
\<close>

subsection \<open>Data and operations\<close>

definition PIPESIZE :: nat where "PIPESIZE = 512"

record pipe =
  p_data :: "nat \<Rightarrow> u8"
  p_nread :: u32
  p_nwrite :: u32
  p_readopen :: int
  p_writeopen :: int

record pipest = fsst +
  pipes :: "u64 \<Rightarrow> pipe"

definition upd_pipe :: "u64 \<Rightarrow> (pipe \<Rightarrow> pipe) \<Rightarrow> 'm pipest_scheme \<Rightarrow> 'm pipest_scheme" where
  "upd_pipe pi f s = s\<lparr>pipes := (pipes s)(pi := f (pipes s pi))\<rparr>"

text \<open>A use of the pointer \<open>pr = myproc()\<close>; a null pointer faults in the kernel.\<close>

definition deref :: "nat option \<Rightarrow> 's \<Rightarrow> (nat, 's) outcome" where
  "deref pr s = (case pr of None \<Rightarrow> Panic ''kerneltrap'' | Some p \<Rightarrow> Ret p s)"

lemma deref_Some [simp]: "deref (Some p) s = Ret p s"
  by (simp add: deref_def)

definition pipeclose :: "u64 \<Rightarrow> bool \<Rightarrow> 'm pipest_scheme \<Rightarrow> (unit, 'm pipest_scheme) outcome" where
  "pipeclose pi writable s =
    bnd (acquire (Lk_pipe pi) s) (\<lambda>_ s.
    bnd (if writable then wakeup (Ch_nread pi) (upd_pipe pi (\<lambda>x. x\<lparr>p_writeopen := 0\<rparr>) s)
         else wakeup (Ch_nwrite pi) (upd_pipe pi (\<lambda>x. x\<lparr>p_readopen := 0\<rparr>) s)) (\<lambda>_ s.
    if p_readopen (pipes s pi) = 0 \<and> p_writeopen (pipes s pi) = 0 then
      bnd (release (Lk_pipe pi) s) (\<lambda>_ s. kfree pi s)
    else release (Lk_pipe pi) s))"

text \<open>\<open>pi->data[pi->nwrite++ % PIPESIZE] = ch\<close> and \<open>ch = pi->data[pi->nread++ % PIPESIZE]\<close>.\<close>

definition pipe_put :: "u8 \<Rightarrow> pipe \<Rightarrow> pipe" where
  "pipe_put ch x = x\<lparr>p_data := (p_data x)(unat (p_nwrite x) mod PIPESIZE := ch), p_nwrite := p_nwrite x + 1\<rparr>"

definition pipe_front :: "pipe \<Rightarrow> u8" where
  "pipe_front x = p_data x (unat (p_nread x) mod PIPESIZE)"

definition pipe_pop :: "pipe \<Rightarrow> pipe" where
  "pipe_pop x = x\<lparr>p_nread := p_nread x + 1\<rparr>"

definition pipewrite_end :: "u64 \<Rightarrow> int \<Rightarrow> 'm pipest_scheme \<Rightarrow> (int, 'm pipest_scheme) outcome" where
  "pipewrite_end pi i s =
    bnd (wakeup (Ch_nread pi) s) (\<lambda>_ s.
    bnd (release (Lk_pipe pi) s) (\<lambda>_ s. Ret i s))"

function pipewrite_loop ::
  "nat option \<Rightarrow> u64 \<Rightarrow> u64 \<Rightarrow> int \<Rightarrow> int \<Rightarrow> 'm pipest_scheme \<Rightarrow> (int, 'm pipest_scheme) outcome" where
  "pipewrite_loop pr pi addr n i s =
    (if i < n then
       bnd (if p_readopen (pipes s pi) = 0 then Ret True s
            else bnd (deref pr s) (\<lambda>p s. Ret (killed (procs s p) \<noteq> 0) s)) (\<lambda>stop s.
       if stop then bnd (release (Lk_pipe pi) s) (\<lambda>_ s. Ret (-1) s)
       else if p_nwrite (pipes s pi) = p_nread (pipes s pi) + of_nat PIPESIZE then
         bnd (wakeup (Ch_nread pi) s) (\<lambda>_ s. sleep (Ch_nwrite pi) (Lk_pipe pi) s)
       else
         bnd (deref pr s) (\<lambda>p s.
         bnd (copyin (pagetable (procs s p)) (\<lambda>_. 0) (addr + of_int i) 1 s) (\<lambda>(r, d) s.
         if r = -1 then pipewrite_end pi i s
         else pipewrite_loop pr pi addr n (i + 1) (upd_pipe pi (pipe_put (d 0)) s))))
     else pipewrite_end pi i s)"
  by pat_completeness auto
termination
  by (relation "measure (\<lambda>(pr, pi, addr, n, i, s). nat (n - i))") auto

declare pipewrite_loop.simps [simp del]

definition pipewrite :: "u64 \<Rightarrow> u64 \<Rightarrow> int \<Rightarrow> 'm pipest_scheme \<Rightarrow> (int, 'm pipest_scheme) outcome" where
  "pipewrite pi addr n s =
    bnd (myproc s) (\<lambda>pr s.
    bnd (acquire (Lk_pipe pi) s) (\<lambda>_ s. pipewrite_loop pr pi addr n 0 s))"

definition pipewrite_back ::
  "nat \<Rightarrow> bool \<Rightarrow> u64 \<Rightarrow> u64 \<Rightarrow> int \<Rightarrow> int \<Rightarrow> 'm pipest_scheme \<Rightarrow> (int, 'm pipest_scheme) outcome" where
  "pipewrite_back p ena pi addr n i s =
    bnd (sleep_back p ena (Lk_pipe pi) s) (\<lambda>_ s. pipewrite_loop (Some p) pi addr n i s)"

definition piperead_end :: "u64 \<Rightarrow> int \<Rightarrow> 'm pipest_scheme \<Rightarrow> (int, 'm pipest_scheme) outcome" where
  "piperead_end pi i s =
    bnd (wakeup (Ch_nwrite pi) s) (\<lambda>_ s.
    bnd (release (Lk_pipe pi) s) (\<lambda>_ s. Ret i s))"

function piperead_copy ::
  "nat option \<Rightarrow> u64 \<Rightarrow> u64 \<Rightarrow> int \<Rightarrow> int \<Rightarrow> 'm pipest_scheme \<Rightarrow> (int, 'm pipest_scheme) outcome" where
  "piperead_copy pr pi addr n i s =
    (if i < n then
       if p_nread (pipes s pi) = p_nwrite (pipes s pi) then piperead_end pi i s
       else
         let ch = pipe_front (pipes s pi); s = upd_pipe pi pipe_pop s
         in bnd (deref pr s) (\<lambda>p s.
            bnd (copyout (pagetable (procs s p)) (addr + of_int i) (\<lambda>_. ch) 1 s) (\<lambda>r s.
            if r = -1 then piperead_end pi i s
            else piperead_copy pr pi addr n (i + 1) s))
     else piperead_end pi i s)"
  by pat_completeness auto
termination
  by (relation "measure (\<lambda>(pr, pi, addr, n, i, s). nat (n - i))") auto

declare piperead_copy.simps [simp del]

definition piperead_wait ::
  "nat option \<Rightarrow> u64 \<Rightarrow> u64 \<Rightarrow> int \<Rightarrow> 'm pipest_scheme \<Rightarrow> (int, 'm pipest_scheme) outcome" where
  "piperead_wait pr pi addr n s =
    (if p_nread (pipes s pi) = p_nwrite (pipes s pi) \<and> p_writeopen (pipes s pi) \<noteq> 0 then
       bnd (deref pr s) (\<lambda>p s.
       if killed (procs s p) \<noteq> 0 then bnd (release (Lk_pipe pi) s) (\<lambda>_ s. Ret (-1) s)
       else sleep (Ch_nread pi) (Lk_pipe pi) s)
     else piperead_copy pr pi addr n 0 s)"

definition piperead :: "u64 \<Rightarrow> u64 \<Rightarrow> int \<Rightarrow> 'm pipest_scheme \<Rightarrow> (int, 'm pipest_scheme) outcome" where
  "piperead pi addr n s =
    bnd (myproc s) (\<lambda>pr s.
    bnd (acquire (Lk_pipe pi) s) (\<lambda>_ s. piperead_wait pr pi addr n s))"

definition piperead_back ::
  "nat \<Rightarrow> bool \<Rightarrow> u64 \<Rightarrow> u64 \<Rightarrow> int \<Rightarrow> 'm pipest_scheme \<Rightarrow> (int, 'm pipest_scheme) outcome" where
  "piperead_back p ena pi addr n s =
    bnd (sleep_back p ena (Lk_pipe pi) s) (\<lambda>_ s. piperead_wait (Some p) pi addr n s)"

subsection \<open>A pipe is a bounded queue\<close>

definition pipe_items :: "pipe \<Rightarrow> u8 list" where
  "pipe_items x = ring_items PIPESIZE (p_data x) (p_nread x) (p_nwrite x)"

definition pipe_ok :: "pipe \<Rightarrow> bool" where
  "pipe_ok x \<longleftrightarrow> unat (p_nwrite x - p_nread x) \<le> PIPESIZE"

definition pipe_full :: "pipe \<Rightarrow> bool" where
  "pipe_full x \<longleftrightarrow> p_nwrite x = p_nread x + of_nat PIPESIZE"

definition pipe_empty :: "pipe \<Rightarrow> bool" where
  "pipe_empty x \<longleftrightarrow> p_nread x = p_nwrite x"

interpretation pq: byte_queue pipe_items pipe_ok pipe_full pipe_empty pipe_put pipe_front pipe_pop PIPESIZE
proof
  have dvd: "PIPESIZE dvd 2 ^ LENGTH(32)" and lt: "PIPESIZE < 2 ^ LENGTH(32)" by (simp_all add: PIPESIZE_def)
  fix x :: pipe and b
  assume ok: "pipe_ok x"
  show "length (pipe_items x) \<le> PIPESIZE" using ok by (simp add: pipe_items_def pipe_ok_def)
  note full = ring_full [OF lt, of "p_nwrite x" "p_nread x"]
  show "pipe_full x \<longleftrightarrow> length (pipe_items x) = PIPESIZE" using full by (simp add: pipe_full_def pipe_items_def)
  show "pipe_empty x \<longleftrightarrow> pipe_items x = []"
    by (simp add: pipe_empty_def pipe_items_def ring_Nil)
  show "pipe_ok (pipe_put b x) \<and> pipe_items (pipe_put b x) = pipe_items x @ [b]" if "\<not> pipe_full x"
  proof -
    have "unat (p_nwrite x - p_nread x) < PIPESIZE" using that ok full by (simp add: pipe_full_def pipe_ok_def)
    from ring_put [OF dvd lt this] this show ?thesis by (simp add: pipe_ok_def pipe_items_def pipe_put_def)
  qed
  show "pipe_ok (pipe_pop x) \<and> pipe_items x = pipe_front x # pipe_items (pipe_pop x)" if "\<not> pipe_empty x"
  proof -
    have "p_nread x \<noteq> p_nwrite x" using that by (simp add: pipe_empty_def)
    from ring_pop [OF dvd this] ok show ?thesis by (simp add: pipe_ok_def pipe_items_def pipe_front_def pipe_pop_def)
  qed
qed

subsection \<open>Writing\<close>

lemma upd_pipe_fields [simp]:
  "pipes (upd_pipe pi f s) = (pipes s)(pi := f (pipes s pi))" "pmem (upd_pipe pi f s) = pmem s"
  "procs (upd_pipe pi f s) = procs s" "lock_free l (upd_pipe pi f s) = lock_free l s"
  "calm (upd_pipe pi f s) = calm s" "cur (upd_pipe pi f s) = cur s" "depth (upd_pipe pi f s) = depth s"
  "world p (upd_pipe pi f s) = world p s" "procs_unlocked (upd_pipe pi f s) = procs_unlocked s"
  "upd_pipe pi f (lock_on l s) = lock_on l (upd_pipe pi f s)"
  "pipes (lock_on l s) = pipes s" "pipes (upd_proc i h s) = pipes s"
  by (simp_all add: upd_pipe_def lock_free_def calm_def cur_def depth_def world_def procs_unlocked_def
      lock_on_def push_off_def Let_def upd_proc_def)

lemma pipe_put_fields [simp]:
  "p_readopen (pipe_put b x) = p_readopen x" "p_writeopen (pipe_put b x) = p_writeopen x"
  "p_readopen (fold pipe_put bs x) = p_readopen x" "p_writeopen (fold pipe_put bs x) = p_writeopen x"
proof -
  show "p_readopen (pipe_put b x) = p_readopen x" "p_writeopen (pipe_put b x) = p_writeopen x" for b x
    by (simp_all add: pipe_put_def)
  then show "p_readopen (fold pipe_put bs x) = p_readopen x" "p_writeopen (fold pipe_put bs x) = p_writeopen x"
    by (induction bs arbitrary: x) simp_all
qed

text \<open>The bytes of user memory from \<open>a\<close> on, and the state after a reader or writer is woken.\<close>

definition ubytes :: "mem \<Rightarrow> u64 \<Rightarrow> u64 \<Rightarrow> nat \<Rightarrow> u8 list" where
  "ubytes m pt a n = map (\<lambda>i. the (umem m pt (a + of_nat i))) [0..<n]"

abbreviation awake :: "chan \<Rightarrow> nat \<Rightarrow> 'm machine_scheme \<Rightarrow> 'm machine_scheme" where
  "awake ch p s \<equiv> s\<lparr>procs := wake_procs ch (Some p) (procs s)\<rparr>"

lemma ubytes_Suc: "ubytes m pt a (Suc n) = the (umem m pt a) # ubytes m pt (a + 1) n"
proof -
  have "[0..<Suc n] = 0 # map Suc [0..<n]" by (simp add: upt_conv_Cons map_Suc_upt)
  then show ?thesis by (simp add: ubytes_def add.assoc)
qed

lemma copyin_byte:
  assumes "umem (pmem s) pt a \<noteq> None"
  shows "\<exists>d. copyin pt (\<lambda>_. 0) a 1 s = Ret (0, d) s \<and> d 0 = the (umem (pmem s) pt a)"
proof -
  have one: "unat (va - a) < unat (1 :: u64) \<longleftrightarrow> va = a" for va by (simp add: unat_eq_0)
  from copyin_spec [of pt "\<lambda>_. 0" 0 a 1 s]
  obtain d where "copyin_at pt (\<lambda>_. 0) 0 a 1 s = Ret (0, d) s" "umem (pmem s) pt (a + of_nat 0) = Some (d (0 + 0))"
    unfolding one using assms by auto
  then show ?thesis by (auto simp: copyin_def)
qed

lemma pipewrite_step:
  assumes w: "world p s" and open': "p_readopen (pipes s pi) \<noteq> 0" "killed (procs s p) = 0" and i: "i < n"
    and full: "\<not> pipe_full (pipes s pi)" and m: "umem (pmem s) (pagetable (procs s p)) (addr + of_int i) \<noteq> None"
  shows "pipewrite_loop (Some p) pi addr n i (lock_on (Lk_pipe pi) s)
    = pipewrite_loop (Some p) pi addr n (i + 1) (lock_on (Lk_pipe pi)
        (upd_pipe pi (pipe_put (the (umem (pmem s) (pagetable (procs s p)) (addr + of_int i)))) s))"
proof -
  obtain d where "copyin (pagetable (procs s p)) (\<lambda>_. 0) (addr + of_int i) 1 (lock_on (Lk_pipe pi) s)
      = Ret (0, d) (lock_on (Lk_pipe pi) s)" "d 0 = the (umem (pmem s) (pagetable (procs s p)) (addr + of_int i))"
    using copyin_byte [of "lock_on (Lk_pipe pi) s"] m by auto
  then show ?thesis
    using open' i full by (subst pipewrite_loop.simps) (simp add: pipe_full_def)
qed

lemma pipewrite_fits:
  assumes "world p s" and "p_readopen (pipes s pi) \<noteq> 0" and "killed (procs s p) = 0" and "pipe_ok (pipes s pi)"
    and "i \<le> n" and "length (pipe_items (pipes s pi)) + nat (n - i) \<le> PIPESIZE"
    and "\<And>k. i \<le> k \<Longrightarrow> k < n \<Longrightarrow> umem (pmem s) (pagetable (procs s p)) (addr + of_int k) \<noteq> None"
  shows "pipewrite_loop (Some p) pi addr n i (lock_on (Lk_pipe pi) s) = Ret n (awake (Ch_nread pi) p
    (upd_pipe pi (fold pipe_put (ubytes (pmem s) (pagetable (procs s p)) (addr + of_int i) (nat (n - i)))) s))"
  using assms
proof (induction "nat (n - i)" arbitrary: i s)
  case 0
  then have "i = n" by simp
  then show ?case
    using worldD [OF 0(2)] by (subst pipewrite_loop.simps) (simp add: pipewrite_end_def ubytes_def upd_pipe_def)
next
  case (Suc k)
  let ?b = "the (umem (pmem s) (pagetable (procs s p)) (addr + of_int i))"
  let ?s = "upd_pipe pi (pipe_put ?b) s"
  have lt: "i < n" and k: "k = nat (n - (i + 1))" "nat (n - i) = Suc (nat (n - (i + 1)))" using Suc(2) by auto
  have "length (pipe_items (pipes s pi)) < PIPESIZE" using Suc.prems(6) k by simp
  then have nf: "\<not> pipe_full (pipes s pi)" using pq.full_law [OF Suc.prems(4)] by simp
  note pt = pq.put_law [OF Suc.prems(4) nf, of ?b]
  have "pipewrite_loop (Some p) pi addr n i (lock_on (Lk_pipe pi) s)
    = pipewrite_loop (Some p) pi addr n (i + 1) (lock_on (Lk_pipe pi) ?s)"
    using Suc.prems lt nf by (intro pipewrite_step) auto
  also have "\<dots> = Ret n (awake (Ch_nread pi) p
    (upd_pipe pi (fold pipe_put (ubytes (pmem ?s) (pagetable (procs ?s p)) (addr + of_int (i + 1)) (nat (n - (i + 1))))) ?s))"
    using Suc.prems lt pt k by (intro Suc.hyps(1)) auto
  also have "\<dots> = Ret n (awake (Ch_nread pi) p
    (upd_pipe pi (fold pipe_put (ubytes (pmem s) (pagetable (procs s p)) (addr + of_int i) (nat (n - i)))) s))"
    unfolding k(2) ubytes_Suc by (simp add: add.assoc upd_pipe_def)
  finally show ?case .
qed

lemma pipewrite_fills:
  assumes "world p s" and "depth s = 0" and "p_readopen (pipes s pi) \<noteq> 0" and "killed (procs s p) = 0" and "pipe_ok (pipes s pi)"
    and "i \<le> n" and "PIPESIZE < length (pipe_items (pipes s pi)) + nat (n - i)" and "p < NPROC"
    and "\<And>k. i \<le> k \<Longrightarrow> k < n \<Longrightarrow> umem (pmem s) (pagetable (procs s p)) (addr + of_int k) \<noteq> None"
  shows "pipewrite_loop (Some p) pi addr n i (lock_on (Lk_pipe pi) s) = Swtch (lock_on (Lk_proc p)
    (upd_proc p (\<lambda>q. q\<lparr>pchan := Some (Ch_nwrite pi), pstate := SLEEPING\<rparr>) (awake (Ch_nread pi) p
    (upd_pipe pi (fold pipe_put (ubytes (pmem s) (pagetable (procs s p)) (addr + of_int i)
       (PIPESIZE - length (pipe_items (pipes s pi))))) s))))"
  using assms
proof (induction "PIPESIZE - length (pipe_items (pipes s pi))" arbitrary: i s)
  case 0
  have "length (pipe_items (pipes s pi)) = PIPESIZE" using pq.bound [OF 0(6)] 0(1) by simp
  then have full: "pipe_full (pipes s pi)" and z: "PIPESIZE - length (pipe_items (pipes s pi)) = 0" and lt: "i < n"
    using pq.full_law [OF 0(6)] 0(8) by auto
  note w = worldD [OF 0(2)]
  let ?s = "awake (Ch_nread pi) p s"
  have "pipewrite_loop (Some p) pi addr n i (lock_on (Lk_pipe pi) s) = sleep (Ch_nwrite pi) (Lk_pipe pi) (lock_on (Lk_pipe pi) ?s)"
    using lt full w 0(4,5) by (subst pipewrite_loop.simps) (simp add: pipe_full_def)
  also have "\<dots> = Swtch (lock_on (Lk_proc p) (upd_proc p (\<lambda>q. q\<lparr>pchan := Some (Ch_nwrite pi), pstate := SLEEPING\<rparr>) ?s))"
    using w 0(3) by (intro sleep_eq) auto
  finally show ?case unfolding z by (simp add: ubytes_def upd_pipe_def)
next
  case (Suc k)
  let ?b = "the (umem (pmem s) (pagetable (procs s p)) (addr + of_int i))"
  let ?s = "upd_pipe pi (pipe_put ?b) s"
  have nf: "\<not> pipe_full (pipes s pi)" using pq.full_law [OF Suc.prems(5)] Suc(2) by simp
  note pt = pq.put_law [OF Suc.prems(5) nf, of ?b]
  have lt: "i < n" using Suc.prems(6,7) pq.bound [OF Suc.prems(5)] by (cases "i = n") auto
  have k: "k = PIPESIZE - length (pipe_items (pipes ?s pi))"
    "PIPESIZE - length (pipe_items (pipes s pi)) = Suc (PIPESIZE - length (pipe_items (pipes ?s pi)))"
    using Suc(2) pt by auto
  have "pipewrite_loop (Some p) pi addr n i (lock_on (Lk_pipe pi) s)
    = pipewrite_loop (Some p) pi addr n (i + 1) (lock_on (Lk_pipe pi) ?s)"
    using Suc.prems lt nf by (intro pipewrite_step) auto
  also have "\<dots> = Swtch (lock_on (Lk_proc p)
    (upd_proc p (\<lambda>q. q\<lparr>pchan := Some (Ch_nwrite pi), pstate := SLEEPING\<rparr>) (awake (Ch_nread pi) p
    (upd_pipe pi (fold pipe_put (ubytes (pmem ?s) (pagetable (procs ?s p)) (addr + of_int (i + 1))
       (PIPESIZE - length (pipe_items (pipes ?s pi))))) ?s))))"
    using Suc.prems lt pt by (intro Suc.hyps(1) [OF k(1)]) auto
  finally show ?case unfolding k(2) ubytes_Suc by (simp add: add.assoc upd_pipe_def)
qed

subsection \<open>Reading\<close>

lemma copyout_byte:
  assumes us: "uspace (pmem s) pt" and m: "umem (pmem s) pt a \<noteq> None"
  shows "\<exists>m. copyout pt a (\<lambda>_. ch) 1 s = Ret 0 (s\<lparr>pmem := m\<rparr>) \<and> uspace m pt
    \<and> (\<forall>va. umem m pt va = (if va = a then Some ch else umem (pmem s) pt va))"
proof -
  have one: "unat (va - a) < unat (1 :: u64) \<longleftrightarrow> va = a" for va by (simp add: unat_eq_0)
  from copyout_spec [OF us, of a "\<lambda>_. ch" 1]
  obtain t where t: "copyout pt a (\<lambda>_. ch) 1 s = Ret 0 t" "mem_frame s t" "freelist t = freelist s" "uspace (pmem t) pt"
    "\<forall>va. umem (pmem t) pt va = (if va = a then Some ch else umem (pmem s) pt va)"
    unfolding one using m by auto
  have "t = s\<lparr>pmem := pmem t\<rparr>" using t(2,3) unfolding mem_frame_def by (metis memory.surjective memory.update_convs(1,2))
  then show ?thesis using t by metis
qed

lemma piperead_copy_spec:
  fixes s :: "'m pipest_scheme"
  assumes "world p s" and "pipe_ok (pipes s pi)" and "uspace (pmem s) (pagetable (procs s p))" and "i \<le> n"
    and "\<And>k. i \<le> k \<Longrightarrow> k < n \<Longrightarrow> umem (pmem s) (pagetable (procs s p)) (addr + of_int k) \<noteq> None"
    and "m = min (nat (n - i)) (length (pipe_items (pipes s pi)))"
  shows "\<exists>M. piperead_copy (Some p) pi addr n i (lock_on (Lk_pipe pi) s)
      = Ret (i + int m) (awake (Ch_nwrite pi) p (upd_pipe pi (pipe_pop ^^ m) (s\<lparr>pmem := M\<rparr>)))
    \<and> (\<forall>va. umem M (pagetable (procs s p)) va = (if unat (va - (addr + of_int i)) < m
         then Some (pipe_items (pipes s pi) ! unat (va - (addr + of_int i))) else umem (pmem s) (pagetable (procs s p)) va))"
  using assms
proof (induction m arbitrary: i s)
  case 0
  have "i = n \<or> i < n \<and> pipe_items (pipes s pi) = []" using 0(4,6) by (cases "i = n") (auto simp: min_def split: if_splits)
  then have "piperead_copy (Some p) pi addr n i (lock_on (Lk_pipe pi) s) = piperead_end pi i (lock_on (Lk_pipe pi) s)"
    using pq.empty_law [OF 0(2)] by (subst piperead_copy.simps) (auto simp: pipe_empty_def)
  then show ?case
    using worldD [OF 0(1)] by (intro exI [of _ "pmem s"]) (simp add: piperead_end_def upd_pipe_def)
next
  case (Suc m)
  let ?pt = "pagetable (procs s p)" and ?a = "addr + of_int i" and ?q = "pipe_items (pipes s pi)"
  have lt: "i < n" and ne: "?q \<noteq> []" using Suc.prems(6) by auto
  have nem: "\<not> pipe_empty (pipes s pi)" using pq.empty_law [OF Suc.prems(2)] ne by simp
  note pp = pq.pop_law [OF Suc.prems(2) nem]
  define s1 where "s1 = upd_pipe pi pipe_pop s"
  have m0: "umem (pmem s1) ?pt ?a \<noteq> None" using Suc.prems(5) [of i] lt by (simp add: s1_def)
  have us1: "uspace (pmem s1) ?pt" using Suc.prems(3) by (simp add: s1_def)
  obtain M1 where M1: "copyout ?pt ?a (\<lambda>_. pipe_front (pipes s pi)) 1 (lock_on (Lk_pipe pi) s1)
      = Ret 0 (lock_on (Lk_pipe pi) (s1\<lparr>pmem := M1\<rparr>))" "uspace M1 ?pt"
    "\<forall>va. umem M1 ?pt va = (if va = ?a then Some (pipe_front (pipes s pi)) else umem (pmem s) ?pt va)"
    using copyout_byte [of "lock_on (Lk_pipe pi) s1" ?pt ?a "pipe_front (pipes s pi)"] us1 m0 by (auto simp: s1_def)
  let ?s = "s1\<lparr>pmem := M1\<rparr>"
  have f: "procs ?s = procs s" "pipes ?s pi = pipe_pop (pipes s pi)" "pmem ?s = M1" by (simp_all add: s1_def upd_pipe_def)
  have w: "world p ?s" using Suc.prems(1) by (simp add: s1_def)
  have step: "piperead_copy (Some p) pi addr n i (lock_on (Lk_pipe pi) s)
      = piperead_copy (Some p) pi addr n (i + 1) (lock_on (Lk_pipe pi) ?s)"
    using lt nem M1(1) by (subst piperead_copy.simps) (simp add: pipe_empty_def Let_def s1_def)
  have um: "umem (pmem ?s) (pagetable (procs ?s p)) (addr + of_int k) \<noteq> None" if "i + 1 \<le> k" "k < n" for k
    using M1(3) Suc.prems(5) [of k] that by (simp add: f)
  have m: "m = min (nat (n - (i + 1))) (length (pipe_items (pipes ?s pi)))"
  proof -
    have "length (pipe_items (pipes ?s pi)) = length ?q - 1" unfolding f(2) using pp by simp
    moreover have "nat (n - i) = Suc (nat (n - (i + 1)))" using lt by linarith
    ultimately show ?thesis using Suc.prems(6) ne by (cases ?q) auto
  qed
  have ok: "pipe_ok (pipes ?s pi)" and us: "uspace (pmem ?s) (pagetable (procs ?s p))" and le: "i + 1 \<le> n"
    unfolding f using pp M1(2) lt by simp_all
  have "\<exists>M. piperead_copy (Some p) pi addr n (i + 1) (lock_on (Lk_pipe pi) ?s)
      = Ret (i + 1 + int m) (awake (Ch_nwrite pi) p (upd_pipe pi (pipe_pop ^^ m) (?s\<lparr>pmem := M\<rparr>)))
    \<and> (\<forall>va. umem M (pagetable (procs ?s p)) va = (if unat (va - (addr + of_int (i + 1))) < m
         then Some (pipe_items (pipes ?s pi) ! unat (va - (addr + of_int (i + 1))))
         else umem (pmem ?s) (pagetable (procs ?s p)) va))"
    by (rule Suc.IH [of ?s "i + 1", OF w ok us le _ m]) (rule um)
  then obtain M where M: "piperead_copy (Some p) pi addr n (i + 1) (lock_on (Lk_pipe pi) ?s)
      = Ret (i + 1 + int m) (awake (Ch_nwrite pi) p (upd_pipe pi (pipe_pop ^^ m) (?s\<lparr>pmem := M\<rparr>)))"
    "\<forall>va. umem M ?pt va = (if unat (va - (addr + of_int (i + 1))) < m
         then Some (pipe_items (pipe_pop (pipes s pi)) ! unat (va - (addr + of_int (i + 1)))) else umem M1 ?pt va)"
    unfolding f by blast
  have bytes: "umem M ?pt va = (if unat (va - ?a) < Suc m then Some (?q ! unat (va - ?a)) else umem (pmem s) ?pt va)" for va
  proof (cases "va = ?a")
    case True
    have "unat (va - (addr + of_int (i + 1))) = unat (-1 :: u64)" using True by simp
    moreover have "m < 512" using Suc.prems(6) pq.bound [OF Suc.prems(2)] by (simp add: PIPESIZE_def)
    then have "m < unat (-1 :: u64)" by (simp add: unsigned_minus_1_eq_mask mask_eq_exp_minus_1)
    ultimately show ?thesis using M(2) M1(3) True pp by simp
  next
    case False
    then have nz: "va - ?a \<noteq> 0" by simp
    have e: "va - (addr + of_int (i + 1)) = va - ?a - 1" by simp
    have "unat (va - (addr + of_int (i + 1))) = unat (va - ?a) - 1" unfolding e using nz by (rule unat_minus_one)
    moreover have "0 < unat (va - ?a)" using nz by (simp add: unat_gt_0)
    ultimately show ?thesis using M(2) M1(3) False pp by (auto simp: nth_Cons')
  qed
  have e: "upd_pipe pi (pipe_pop ^^ m) (?s\<lparr>pmem := M\<rparr>) = upd_pipe pi (pipe_pop ^^ Suc m) (s\<lparr>pmem := M\<rparr>)"
    by (simp add: s1_def upd_pipe_def funpow_swap1)
  have "piperead_copy (Some p) pi addr n i (lock_on (Lk_pipe pi) s)
      = Ret (i + int (Suc m)) (awake (Ch_nwrite pi) p (upd_pipe pi (pipe_pop ^^ Suc m) (s\<lparr>pmem := M\<rparr>)))"
    unfolding step M(1) e f(1) by simp
  then show ?case using bytes by blast
qed

subsection \<open>Properties\<close>


text \<open>C21: reading from a pipe that has bytes, or that no writer has open. \<open>piperead\<close> takes as many bytes from
  the front of the queue as it was asked for and finds, stores them in order at the caller's address,
  changes no other byte of its memory, wakes the writers and returns their number.\<close>

theorem piperead_correct:
  fixes s :: "'m pipest_scheme"
  assumes "world p s" and "pipe_ok (pipes s pi)" and "pipe_items (pipes s pi) \<noteq> [] \<or> p_writeopen (pipes s pi) = 0"
    and "uspace (pmem s) (pagetable (procs s p))" and "0 \<le> n"
    and "\<And>k. 0 \<le> k \<Longrightarrow> k < n \<Longrightarrow> umem (pmem s) (pagetable (procs s p)) (addr + of_int k) \<noteq> None"
  defines "m \<equiv> min (nat n) (length (pipe_items (pipes s pi)))"
  shows "\<exists>t. piperead pi addr n s = Ret (int m) t \<and> pipe_ok (pipes t pi)
    \<and> pipe_items (pipes t pi) = drop m (pipe_items (pipes s pi))
    \<and> (\<forall>va. umem (pmem t) (pagetable (procs s p)) va = (if unat (va - addr) < m
         then Some (pipe_items (pipes s pi) ! unat (va - addr)) else umem (pmem s) (pagetable (procs s p)) va))
    \<and> procs t = wake_procs (Ch_nwrite pi) (Some p) (procs s)"
proof -
  have "\<not> (p_nread (pipes s pi) = p_nwrite (pipes s pi) \<and> p_writeopen (pipes s pi) \<noteq> 0)"
    using assms(3) pq.empty_law [OF assms(2)] by (auto simp: pipe_empty_def)
  then have "piperead_wait (Some p) pi addr n (lock_on (Lk_pipe pi) s)
      = piperead_copy (Some p) pi addr n 0 (lock_on (Lk_pipe pi) s)"
    by (simp only: piperead_wait_def upd_pipe_fields if_False)
  then have "piperead pi addr n s = piperead_copy (Some p) pi addr n 0 (lock_on (Lk_pipe pi) s)"
    using worldD [OF assms(1)] by (simp add: piperead_def)
  moreover have "m = min (nat (n - 0)) (length (pipe_items (pipes s pi)))" by (simp add: m_def)
  note piperead_copy_spec [OF assms(1,2,4,5,6) this]
  moreover have "pipe_ok ((pipe_pop ^^ m) (pipes s pi)) \<and> pipe_items ((pipe_pop ^^ m) (pipes s pi)) = drop m (pipe_items (pipes s pi))"
    by (rule pq.pop_run [OF assms(2)]) (simp add: m_def)
  ultimately show ?thesis by (auto simp: upd_pipe_def)
qed

text \<open>Reading from an empty pipe that a writer still has open: the process goes to sleep on the pipe with
  the pipe's lock released, or returns -1 when it has been killed; no byte moves.\<close>

theorem piperead_blocks:
  assumes "world p s" and "depth s = 0" and "p < NPROC" and "pipe_items (pipes s pi) = []" and "pipe_ok (pipes s pi)"
    and "p_writeopen (pipes s pi) \<noteq> 0"
  shows "piperead pi addr n s = (if killed (procs s p) \<noteq> 0 then Ret (-1) s
    else Swtch (lock_on (Lk_proc p) (upd_proc p (\<lambda>q. q\<lparr>pchan := Some (Ch_nread pi), pstate := SLEEPING\<rparr>) s)))"
proof -
  note w = worldD [OF assms(1)]
  have "p_nread (pipes s pi) = p_nwrite (pipes s pi)"
    using assms(4) pq.empty_law [OF assms(5)] by (simp add: pipe_empty_def)
  moreover have "(sleep (Ch_nread pi) (Lk_pipe pi) (lock_on (Lk_pipe pi) s) :: (int, _) outcome)
      = Swtch (lock_on (Lk_proc p) (upd_proc p (\<lambda>q. q\<lparr>pchan := Some (Ch_nread pi), pstate := SLEEPING\<rparr>) s))"
    using w assms(2) by (intro sleep_eq) auto
  ultimately show ?thesis using w assms(6) by (simp add: piperead_def piperead_wait_def)
qed

text \<open>C22: a read whose destination is not mapped loses a byte. With a non-empty pipe and an unmapped address,
  \<open>piperead\<close> returns 0, the value for end of file, after it has removed the first byte.\<close>

theorem piperead_loses_byte:
  assumes "world p s" and "pipe_ok (pipes s pi)" and "pipe_items (pipes s pi) = b # bs" and "0 < n"
    and "uspace (pmem s) (pagetable (procs s p))" and "umem (pmem s) (pagetable (procs s p)) addr = None"
  shows "\<exists>t. piperead pi addr n s = Ret 0 t \<and> pipe_items (pipes t pi) = bs"
proof -
  let ?s = "upd_pipe pi pipe_pop s" and ?pt = "pagetable (procs s p)"
  have ne: "\<not> pipe_empty (pipes s pi)" using pq.empty_law [OF assms(2)] assms(3) by simp
  note pp = pq.pop_law [OF assms(2) ne] and w = worldD [OF assms(1)]
  have one: "unat (va - addr) < unat (1 :: u64) \<longleftrightarrow> va = addr" for va by (simp add: unat_eq_0)
  have us: "uspace (pmem (lock_on (Lk_pipe pi) ?s)) ?pt" using assms(5) by simp
  from copyout_spec [OF us, of addr "\<lambda>_. pipe_front (pipes s pi)" 1]
  obtain t where t: "copyout ?pt addr (\<lambda>_. pipe_front (pipes s pi)) 1 (lock_on (Lk_pipe pi) ?s) = Ret (-1) t"
    "mem_frame (lock_on (Lk_pipe pi) ?s) t" "freelist t = freelist (lock_on (Lk_pipe pi) ?s)"
    unfolding one using assms(6) by auto
  have "t = (lock_on (Lk_pipe pi) ?s)\<lparr>pmem := pmem t\<rparr>"
    using t(2,3) unfolding mem_frame_def by (metis memory.surjective memory.update_convs(1,2))
  then have e: "t = lock_on (Lk_pipe pi) (?s\<lparr>pmem := pmem t\<rparr>)" by simp
  have "piperead pi addr n s = piperead_end pi 0 t"
    using ne w assms(4) t(1) unfolding piperead_def piperead_wait_def
    by (simp add: pipe_empty_def piperead_copy.simps [of "Some p" pi addr n 0 "lock_on (Lk_pipe pi) s"] Let_def)
  also have "\<dots> = Ret 0 (awake (Ch_nwrite pi) p (?s\<lparr>pmem := pmem t\<rparr>))"
    using w by (subst e) (simp add: piperead_end_def)
  finally show ?thesis using pp assms(3) by simp
qed

end
