(* ===== verification/Boot.thy ===== *)
theory Boot
  imports Pipe
begin

unbundle bit_operations_syntax

declare One_nat_def [simp del]

text \<open>
  Concrete states: the machine as it comes up, with one process running, an empty cache and an empty
  log, and states a few steps later. Each property of the kernel with hypotheses is applied here to one
  of them.
\<close>

subsection \<open>The machine at boot\<close>

definition boot_proc :: proc where
  "boot_proc = \<lparr>pstate = UNUSED, pchan = None, killed = 0, xstate = 0, pid = 0, parent = None, kstack = 0, sz = 0,
     pagetable = 0, trapframe = 0, ctx_ra = 0, ctx_sp = 0, ofile = (\<lambda>_. None), cwd = None, pname = (\<lambda>_. 0)\<rparr>"

definition boot_buf :: buf where
  "boot_buf = \<lparr>b_valid = False, b_dev = 0, b_blockno = 0, b_refcnt = 0, b_prev = 0, b_next = 0, b_data = (\<lambda>_. 0)\<rparr>"

definition boot_inode :: inode where
  "boot_inode = \<lparr>i_dev = 0, i_inum = 0, i_ref = 0, i_valid = False, i_type = 0, i_major = 0, i_minor = 0,
     i_nlink = 0, i_size = 0, i_addrs = (\<lambda>_. 0)\<rparr>"

definition boot_sb :: superblock where
  "boot_sb = \<lparr>sb_magic = FSMAGIC, sb_size = 1000, sb_nblocks = 954, sb_ninodes = 200, sb_nlog = 30,
     sb_logstart = 2, sb_inodestart = 32, sb_bmapstart = 45\<rparr>"

text \<open>Process 1 runs on hart 0; the bitmap, block 45, marks the first 48 blocks as in use; block 46 holds a
  directory entry, name \<open>.\<close> and inode 1.\<close>

definition boot :: fsst where
  "boot = \<lparr>hart = 0, intr = (\<lambda>_. False), cpus = (\<lambda>_. \<lparr>c_proc = Some 1, noff = 0, intena = False\<rparr>),
     locks = (\<lambda>_. \<lparr>locked = 0, lk_name = [], lk_cpu = None\<rparr>),
     sleeplocks = (\<lambda>_. \<lparr>sl_locked = 0, sl_name = [], sl_pid = 0\<rparr>),
     procs = (\<lambda>i. boot_proc\<lparr>pid := if i = 1 then 1 else 0, pstate := if i = 1 then RUNNING else UNUSED\<rparr>),
     initproc = 1, nextpid = 2,
     pmem = (\<lambda>_. 0), freelist = 0, kend = 0x80020000,
     bufs = (\<lambda>_. boot_buf),
     disk = (\<lambda>b k. if b = 45 \<and> k < 6 then - 1 else if b = 46 \<and> k = 0 then 1 else if b = 46 \<and> k = 2 then 46 else 0), dwrites = [],
     lg_start = 2, lg_size = 30, lg_outstanding = 1, lg_committing = 0, lg_dev = ROOTDEV, lh_n = 0, lh_block = (\<lambda>_. 0),
     itable = (\<lambda>_. boot_inode), fs_sb = boot_sb, de_addr = 0x80001000\<rparr>"

lemma boot_world [simp]: "calm boot" "cur boot = Some 1" "depth boot = 0" "lock_free l boot" "world 1 boot" "procs_unlocked boot"
  by (simp_all add: calm_def boot_def cur_def depth_def lock_free_def world_def procs_unlocked_def)

lemma boot_fields [simp]:
  "lg_start boot = 2" "lg_size boot = 30" "lg_outstanding boot = 1" "lg_committing boot = 0" "lg_dev boot = ROOTDEV"
  "lh_n boot = 0" "fs_sb boot = boot_sb" "freelist boot = 0" "kend boot = 0x80020000" "pmem boot = (\<lambda>_. 0)"
  "itable boot = (\<lambda>_. boot_inode)" "disk boot = (\<lambda>b k. if b = 45 \<and> k < 6 then - 1 else if b = 46 \<and> k = 0 then 1 else if b = 46 \<and> k = 2 then 46 else 0)"
  "bufs boot i = boot_buf" "hart boot = 0"
  by (simp_all add: boot_def)

subsection \<open>Processes and locks\<close>

theorem kill_correct_witness:
  "kill 1 boot = Ret 0 (upd_proc 1 (\<lambda>q. q\<lparr>killed := 1,
      pstate := if pstate q = SLEEPING then RUNNABLE else pstate q\<rparr>) boot) \<and> kill 7 boot = Ret (-1) boot"
proof -
  have "find (\<lambda>i. pid (procs boot i) = 1) [0..<NPROC] = Some 1"
    by (rule find_unique) (auto simp: NPROC_def boot_def split: if_splits)
  moreover have "find (\<lambda>i. pid (procs boot i) = 7) [0..<NPROC] = None"
    by (auto simp: find_None_iff boot_def boot_proc_def)
  ultimately show ?thesis
    using kill_correct [OF boot_world(1,6), of 1] kill_correct [OF boot_world(1,6), of 7] by (simp only: option.case simp_thms)
qed


definition boot_m :: machine where
  "boot_m = \<lparr>hart = 0, intr = (\<lambda>_. True), cpus = (\<lambda>_. \<lparr>c_proc = None, noff = 0, intena = False\<rparr>),
     locks = (\<lambda>_. \<lparr>locked = 0, lk_name = [], lk_cpu = None\<rparr>),
     sleeplocks = (\<lambda>_. \<lparr>sl_locked = 0, sl_name = [], sl_pid = 0\<rparr>),
     procs = (\<lambda>_. boot_proc), initproc = 1, nextpid = 1\<rparr>"

theorem spinlocks_exclude_witness:
  "\<exists>s. harts_run {(1, Lk_log)} s \<and> \<not> intr s 1 \<and> noff (cpus s 1) = 1"
proof -
  have "harts_run {} boot_m"
    by (rule harts_run.start) (simp_all add: boot_m_def lock_free_def)
  moreover have "acquire Lk_log (boot_m\<lparr>hart := 1\<rparr>) = Ret () (lock_on Lk_log (boot_m\<lparr>hart := 1\<rparr>))"
    by (rule acquire_free) (simp add: boot_m_def lock_free_def)
  ultimately have r: "harts_run {(1, Lk_log)} (lock_on Lk_log (boot_m\<lparr>hart := 1\<rparr>))"
    by (rule harts_run.acquired [where H = "{}", simplified])
  show ?thesis
  proof (intro exI conjI)
    show "noff (cpus (lock_on Lk_log (boot_m\<lparr>hart := 1\<rparr>)) 1) = 1"
      using spinlocks_exclude [OF r] by simp
    show "\<not> intr (lock_on Lk_log (boot_m\<lparr>hart := 1\<rparr>)) 1"
      using spinlocks_exclude [OF r] by blast
  qed (rule r)
qed

theorem sleep_needs_one_lock_witness:
  "sleep Ch_log Lk_log (lock_on Lk_log (lock_on Lk_bcache boot)) = Panic ''sched locks''"
  by (rule sleep_needs_one_lock [where p = 1]) simp_all

subsection \<open>Memory\<close>

theorem memmove_correct_witness: "memmove (\<lambda>a. ucast a) 4 3 2 5 = 4"
  using memmove_correct [of 3 2 4 "\<lambda>a. ucast a"] by simp

text \<open>One free page.\<close>

definition boot1 :: fsst where "boot1 = boot\<lparr>freelist := 0x80200000\<rparr>"

lemma boot1_kmem: "kmem_inv boot1 [0x80200000]"
  by (simp add: kmem_inv_def boot1_def valid_page_def ld64_def PGSIZE_def PHYSTOP_def KERNBASE_def)

lemma boot1_world: "calm boot1" "lock_free l boot1"
  by (simp_all add: boot1_def calm_def lock_free_def boot_def)

theorem kfree_pushes_witness: "\<exists>t. kfree 0x80300000 boot1 = Ret () t \<and> kmem_inv t [0x80300000, 0x80200000]"
  using kfree_pushes [OF boot1_world boot1_kmem, of "0x80300000"]
  by (auto simp: valid_page_def boot1_def PGSIZE_def PHYSTOP_def KERNBASE_def)

theorem kalloc_pops_witness: "\<exists>t. kalloc boot1 = Ret 0x80200000 t \<and> kmem_inv t [] \<and> pmem t 0x80200001 = 5"
  using kalloc_pops [OF boot1_world boot1_kmem] by (auto simp: word_less_nat_alt)

theorem kinit_correct_witness:
  "\<exists>t. kinit boot = Ret () t \<and> kmem_inv t (rev (map (\<lambda>k. PGROUNDUP 0x80020000 + of_nat k * PGSIZE) [0..<32736]))"
  using kinit_correct [of boot 32736] by (simp add: PGROUNDUP_def PGSIZE_def PHYSTOP_def KERNBASE_def)

subsection \<open>The buffer cache\<close>

lemma boot_bufs: "\<forall>i<NBUF. b_refcnt (bufs boot i) = 0 \<and> b_dev (bufs boot i) \<noteq> ROOTDEV"
  by (simp add: boot_buf_def ROOTDEV_def)

theorem binit_correct_witness: "bc_inv 1 {} {} (binit boot) \<and> view (binit boot) 45 0 = - 1"
  using binit_correct [OF boot_world(5) boot_bufs] by simp

definition boot_c :: fsst where "boot_c = binit boot"

lemma boot_c: "bc_inv 1 {} {} boot_c" "disk boot_c = disk boot" "view boot_c = disk boot"
  using binit_inv [OF boot_world(5) boot_bufs] unfolding boot_c_def by blast+

theorem bread_correct_witness: "\<exists>i t. bread ROOTDEV 45 boot_c = Ret i t \<and> bc_inv 1 {} {i} t \<and> b_data (bufs t i) 0 = - 1"
  using bread_correct [OF boot_c(1), of 45] by (auto simp: boot_c(3) NBUF_def)

lemma boot_read: "\<exists>i t. bread ROOTDEV 45 boot_c = Ret i t \<and> bc_inv 1 {} {i} t \<and> b_data (bufs t i) = disk t (b_blockno (bufs t i))"
  using bread_spec [OF boot_c(1), of 45] by (auto simp: boot_c(2,3) NBUF_def simp del: boot_fields)

theorem brelse_correct_witness: "\<exists>i t u. bread ROOTDEV 45 boot_c = Ret i t \<and> brelse i t = Ret () u \<and> bc_inv 1 {} {} u"
proof -
  obtain i t where t: "bread ROOTDEV 45 boot_c = Ret i t" "bc_inv 1 {} {i} t"
    "b_data (bufs t i) = disk t (b_blockno (bufs t i))" using boot_read by blast
  from brelse_correct [OF t(2) _ disjI2 [OF t(3)]] t(1) show ?thesis by auto
qed

theorem cache_is_lru_witness:
  "\<exists>i t u xs. bread ROOTDEV 45 boot_c = Ret i t \<and> lru t xs \<and> brelse i t = Ret () u \<and> lru u (i # remove1 i xs)"
proof -
  obtain i t where t: "bread ROOTDEV 45 boot_c = Ret i t" "bc_inv 1 {} {i} t" using boot_read by blast
  then obtain xs where xs: "lru t xs" by (auto simp: bc_inv_def)
  have "i \<in> {i} - {}" by simp
  with cache_is_lru [OF t(2) xs] obtain u where "brelse i t = Ret () u" "lru u (i # remove1 i xs)" by blast
  then show ?thesis using t xs by blast
qed

subsection \<open>The log\<close>

lemma fold_keeps: "(\<And>x s. g (f x s) = g s) \<Longrightarrow> g (fold f xs s) = g s"
  by (induction xs arbitrary: s) simp_all

lemma binit_log:
  fixes s :: fsst
  shows "lg_start (binit s) = lg_start s" "lg_size (binit s) = lg_size s"
    "lg_outstanding (binit s) = lg_outstanding s" "lg_committing (binit s) = lg_committing s" "lg_dev (binit s) = lg_dev s"
    "lh_n (binit s) = lh_n s" "itable (binit s) = itable s" "fs_sb (binit s) = fs_sb s"
  unfolding binit_def Let_def
  by (subst fold_keeps; simp add: binit_one_def Let_def upd_buf_def initsleeplock_def initlock_def)+

lemma boot_c_log [simp]:
  "lg_start boot_c = 2" "lg_size boot_c = 30" "lg_outstanding boot_c = 1" "lg_committing boot_c = 0"
  "lg_dev boot_c = ROOTDEV" "lh_n boot_c = 0" "itable boot_c = (\<lambda>_. boot_inode)" "fs_sb boot_c = boot_sb"
  by (simp_all add: boot_c_def binit_log)

lemma boot_c_geom: "in_log boot_c b \<longleftrightarrow> 2 \<le> uint b \<and> uint b < 32"
  by (simp add: in_log_def)

lemma boot_log_inv: "log_inv 1 {} {} boot_c"
  using boot_c(1) by (simp add: log_inv_def log_geom_def LOGSIZE_def MAXOPBLOCKS_def)

text \<open>A transaction with one block logged.\<close>

lemma boot_logged:
  "\<exists>i t. bread ROOTDEV 100 boot_c = Ret i t \<and> log_inv 1 {} {i} t \<and> b_blockno (bufs t i) = 100 \<and> lh_n t = 0
    \<and> disk t = disk boot_c \<and> lg_size t = 30 \<and> lg_start t = 2 \<and> lg_outstanding t = 1 \<and> lg_committing t = 0"
proof -
  obtain i t where t: "bread ROOTDEV 100 boot_c = Ret i t" "bc_inv 1 {} {i} t" "b_blockno (bufs t i) = 100"
    "bio_frame boot_c t" "disk t = disk boot_c"
    using bread_spec [OF boot_c(1), of 100] by (auto simp: NBUF_def)
  have "log_inv 1 {} {i} t" using log_inv_frame [OF boot_log_inv t(2,4)] by simp
  then show ?thesis using t logst_frame [OF t(4)] by auto
qed


lemma boot_tx:
  "\<exists>i (s :: fsst). log_inv 1 {i} {} s \<and> lh_n s = 1 \<and> lg_outstanding s = 1 \<and> lg_committing s = 0 \<and> lg_start s = 2 \<and> lg_size s = 30
    \<and> disk s = disk boot_c"
proof -
  obtain i t where t: "bread ROOTDEV 100 boot_c = Ret i t" "log_inv 1 {} {i} t" "b_blockno (bufs t i) = 100" "lh_n t = 0"
    "lg_size t = 30" "lg_start t = 2" "lg_outstanding t = 1" "lg_committing t = 0" "disk t = disk boot_c"
    using boot_logged by (elim exE conjE) (rule that, assumption+)
  have i: "i \<in> {i}" and w: "lh_n t < lg_size t - 1" "1 \<le> lg_outstanding t" "\<not> in_log t (b_blockno (bufs t i))"
    using t by (simp_all add: in_log_def)
  from log_write_spec [OF t(2) i w]
  obtain u where u: "log_inv 1 (insert i {}) {i} u" "lh_n u = (if i \<in> {} then lh_n t else lh_n t + 1)" "op_frame t u" "disk u = disk t"
    by blast
  from brelse_spec [OF log_invD(1) [OF u(1)] i disjI1 [OF insertI1]]
  obtain v where v: "bc_inv 1 (insert i {}) ({i} - {i}) v" "bio_frame u v" "disk v = disk u" "\<forall>j. same_buf u v j" by blast
  have "{i} - {i} = {}" by simp
  with v(1) have "bc_inv 1 (insert i {}) {} v" by simp
  from log_inv_frame [OF u(1) this v(2)] have "log_inv 1 {i} {} v" using v(4) by (simp add: same_buf_def)
  moreover have "lh_n v = 1" "lg_outstanding v = 1" "lg_committing v = 0" "lg_start v = 2" "lg_size v = 30"
    using u(2) t logst_frame [OF v(2)] op_frame_fields(15-18) [OF u(3)] by simp_all
  ultimately show ?thesis using v(3) u(4) t(9) by auto
qed

theorem log_crash_safe_witness:
  "\<exists>(s :: fsst) u (s0 :: fsst) t. lh_n s = 1 \<and> commit s = Ret () u
    \<and> disk s0 = apply_writes (take 2 (drop (length (dwrites s)) (dwrites u))) (disk s)
    \<and> initlog ROOTDEV boot_sb s0 = Ret () t \<and> disk t 100 = view s 100"
proof -
  obtain i and s :: fsst where s: "log_inv 1 {i} {} s" "lh_n s = 1" "lg_start s = 2" "lg_size s = 30" "disk s = disk boot_c"
    using boot_tx by (elim exE conjE) (rule that, assumption+)
  have n: "0 < lh_n s" using s(2) by simp
  obtain u where u: "commit s = Ret () u" using commit_spec [OF s(1) n] by blast
  let ?D = "apply_writes (take 2 (drop (length (dwrites s)) (dwrites u))) (disk s)"
  have "crashed boot_sb s (nat (lh_n s) < 2) ?D" using u by (rule crashed.in_commit)
  then have cr: "crashed boot_sb s True (disk (binit (boot\<lparr>disk := ?D\<rparr>)))"
    and inv: "bc_inv 1 {} {} (binit (boot\<lparr>disk := ?D\<rparr>))"
    using binit_inv [of 1 "boot\<lparr>disk := ?D\<rparr>"] boot_bufs boot_world(5) s(2)
    by (simp_all add: world_def calm_def lock_free_def cur_def)
  have sb: "log_of_sb boot_sb s" using s by (simp add: log_of_sb_def boot_sb_def)
  have "logblk s 0 = 2" using s(3) by (simp add: logblk_def)
  then have "hdr_n (disk s (logblk s 0)) = 0" using s(5) by (simp add: boot_c(2) hdr_n_def ld32_def)
  from log_crash_safe [OF s(1) n sb this cr inv]
  obtain t where t: "initlog ROOTDEV boot_sb (binit (boot\<lparr>disk := ?D\<rparr>)) = Ret () t" "\<forall>b. \<not> in_log s b \<longrightarrow> disk t b = view s b"
    by auto
  have "\<not> in_log s 100" using s by (simp add: in_log_def)
  then have "disk t 100 = view s 100" using t(2) by blast
  moreover have "disk (binit (boot\<lparr>disk := ?D\<rparr>)) = ?D"
    using binit_inv [of 1 "boot\<lparr>disk := ?D\<rparr>"] boot_bufs boot_world(5)
    by (simp add: world_def calm_def lock_free_def cur_def)
  ultimately show ?thesis using s(2) u t(1) by blast
qed

theorem end_op_commits_witness:
  "\<exists>(s :: fsst) t. lh_n s = 1 \<and> end_op s = Ret () t \<and> lh_n t = 0 \<and> disk t 100 = view s 100"
proof -
  obtain i and s :: fsst where s: "log_inv 1 {i} {} s" "lh_n s = 1" "lg_outstanding s = 1" "lg_committing s = 0"
    "lg_start s = 2" "lg_size s = 30" using boot_tx by (elim exE conjE) (rule that, assumption+)
  have "\<not> in_log s 100" using s by (simp add: in_log_def)
  with end_op_commits [OF s(1,3,4)] show ?thesis using s(2) by blast
qed

theorem end_op_defers_witness: "\<exists>t. end_op (boot_c\<lparr>lg_outstanding := 2\<rparr>) = Ret () t \<and> lg_outstanding t = 1"
proof -
  have "log_inv 1 {} {} (boot_c\<lparr>lg_outstanding := 2\<rparr>)"
    using boot_log_inv by (simp add: log_inv_def log_geom_def in_log_def)
  from end_op_defers [OF this] show ?thesis by simp
qed

theorem reservation_too_large_witness:
  "\<exists>t. bnd (begin_op (boot\<lparr>lg_outstanding := 0\<rparr>)) (\<lambda>_ s. bnd (begin_op s) (\<lambda>_ s. begin_op s)) = Ret () t
    \<and> log_write 0 (t\<lparr>lh_n := 3 * MAXOPBLOCKS - 1\<rparr>) = Panic ''too big a transaction''"
  by (rule reservation_too_large [where p = 1]) (use boot_world(5) in \<open>simp_all add: LOGSIZE_def MAXOPBLOCKS_def\<close>)

subsection \<open>Address spaces\<close>

lemma zero_entry: "entry (\<lambda>_. 0) p i = 0"
  by (simp add: entry_def ld64_def)

lemma boot1_vm: "vm_inv boot1 0x80100000 [0x80200000]"
proof -
  have "pmem boot1 = (\<lambda>_. 0)" by (simp add: boot1_def)
  then have n: "node (pmem boot1) 0x80100000 is = Some p \<longleftrightarrow> is = [] \<and> p = 0x80100000" for "is" p
    by (cases "is") (auto simp: zero_entry split: option.splits)
  then have "tnodes (pmem boot1) 0x80100000 = {0x80100000}"
    unfolding tnodes_def n by (auto intro: paths_Nil)
  moreover have "pt_tree (kend boot1) (pmem boot1) 0x80100000"
    unfolding pt_tree_def calculation n by (simp add: valid_page_def boot1_def PGSIZE_def PHYSTOP_def KERNBASE_def)
  ultimately show ?thesis using boot1_kmem boot1_world by (simp add: vm_inv_def)
qed

theorem mappages_correct_witness:
  "\<exists>r t ys. mappages 0x80100000 0x1000 PGSIZE 0x80300000 PTE_R boot1 = Ret r t \<and> vm_inv t 0x80100000 ys"
proof -
  have "leaf (pmem boot1) 0x80100000 0x1000 = 0"
    by (simp add: leaf_def boot1_def zero_entry)
  then show ?thesis
    using mappages_correct [OF boot1_vm, where va = "0x1000" and pa = "0x80300000" and perm = PTE_R] by (auto simp: PGSIZE_def MAXVA_def word_less_nat_alt)
qed

text \<open>A page table that maps page 0 to the page at \<^verbatim>\<open>0x80103000\<close>.\<close>

definition demo_mem :: mem where
  "demo_mem = st64 (st64 (st64 (\<lambda>_. 0) 0x80100000 (PA2PTE 0x80101000 OR PTE_V))
     0x80101000 (PA2PTE 0x80102000 OR PTE_V))
     0x80102000 (PA2PTE 0x80103000 OR PTE_R OR PTE_W OR PTE_U OR PTE_V)"

lemma entry_st64_first:
  assumes "p mod PGSIZE = 0" and "q mod PGSIZE = 0" and "unat i < 512"
  shows "entry (st64 m p v) q i = (if q = p \<and> i = 0 then v else entry m q i)"
  using entry_st64_other [OF assms(1,2) _ assms(3), of 0 m v] entry_st64_same [of m p 0 v] by auto

lemma demo_entry:
  assumes "unat i < 512"
  shows "entry demo_mem 0x80100000 i = (if i = 0 then PA2PTE 0x80101000 OR PTE_V else 0)"
    and "entry demo_mem 0x80101000 i = (if i = 0 then PA2PTE 0x80102000 OR PTE_V else 0)"
    and "entry demo_mem 0x80102000 i = (if i = 0 then PA2PTE 0x80103000 OR PTE_R OR PTE_W OR PTE_U OR PTE_V else 0)"
proof -
  have p: "0x80100000 mod PGSIZE = 0" "0x80101000 mod PGSIZE = 0" "0x80102000 mod PGSIZE = 0"
    by (simp_all add: PGSIZE_def)
  note e = entry_st64_first [OF _ _ assms]
  show "entry demo_mem 0x80100000 i = (if i = 0 then PA2PTE 0x80101000 OR PTE_V else 0)"
    "entry demo_mem 0x80101000 i = (if i = 0 then PA2PTE 0x80102000 OR PTE_V else 0)"
    "entry demo_mem 0x80102000 i = (if i = 0 then PA2PTE 0x80103000 OR PTE_R OR PTE_W OR PTE_U OR PTE_V else 0)"
    by (simp_all add: demo_mem_def e p zero_entry)
qed

lemma demo_pte:
  "PTE2PA (PA2PTE 0x80101000 OR PTE_V) = 0x80101000" "(PA2PTE 0x80101000 OR PTE_V) AND PTE_V \<noteq> 0"
  "PTE2PA (PA2PTE 0x80102000 OR PTE_V) = 0x80102000" "(PA2PTE 0x80102000 OR PTE_V) AND PTE_V \<noteq> 0"
  "PTE2PA (PA2PTE 0x80103000 OR PTE_R OR PTE_W OR PTE_U OR PTE_V) = 0x80103000"
  "(PA2PTE 0x80103000 OR PTE_R OR PTE_W OR PTE_U OR PTE_V) AND PTE_V \<noteq> 0"
  "(PA2PTE 0x80103000 OR PTE_R OR PTE_W OR PTE_U OR PTE_V) AND PTE_U \<noteq> 0"
  by code_simp+

lemma demo_walk: "walk_ro 2 demo_mem 0x80100000 va =
    (if PX 2 va = 0 \<and> PX 1 va = 0 then 0x80102000 + 8 * PX 0 va else 0)"
proof -
  have e: "ld64 demo_mem (0x80100000 + 8 * PX 2 va) = (if PX 2 va = 0 then PA2PTE 0x80101000 OR PTE_V else 0)"
    "ld64 demo_mem (0x80101000 + 8 * PX 1 va) = (if PX 1 va = 0 then PA2PTE 0x80102000 OR PTE_V else 0)"
    using demo_entry [of "PX 2 va"] demo_entry [of "PX 1 va"] PX_less [of 2 va] PX_less [of 1 va]
    by (simp_all only: entry_def)
  have w: "walk_ro 2 m p va = (let v = ld64 m (p + 8 * PX 2 va) in if v AND PTE_V \<noteq> 0 then
      (let p = PTE2PA v; v = ld64 m (p + 8 * PX 1 va) in if v AND PTE_V \<noteq> 0 then PTE2PA v + 8 * PX 0 va else 0) else 0)" for m p
    by (simp only: numeral_2_eq_2 One_nat_def walk_ro.simps Let_def)
  show ?thesis
  proof (cases "PX 2 va = 0")
    case two: True
    have e0: "ld64 demo_mem (0x80100000 + 8 * PX 2 va) = PA2PTE 0x80101000 OR PTE_V" using e(1) two by simp
    show ?thesis
    proof (cases "PX 1 va = 0")
      case True
      have e1: "ld64 demo_mem (0x80101000 + 8 * PX 1 va) = PA2PTE 0x80102000 OR PTE_V" using e(2) True by simp
      show ?thesis unfolding w Let_def e0 demo_pte(1) e1 demo_pte(3) using demo_pte(2,4) two True by simp
    next
      case False
      have e1: "ld64 demo_mem (0x80101000 + 8 * PX 1 va) = 0" using e(2) False by simp
      show ?thesis unfolding w Let_def e0 demo_pte(1) e1 using demo_pte(2) False by simp
    qed
  next
    case False
    have e0: "ld64 demo_mem (0x80100000 + 8 * PX 2 va) = 0" using e(1) False by simp
    show ?thesis unfolding w Let_def e0 using False by simp
  qed
qed

lemma demo_upage: "upage demo_mem 0x80100000 va = (if PGROUNDDOWN va = 0 \<and> va < MAXVA then 0x80103000 else 0)"
proof (cases "va < MAXVA")
  case True
  have z: "PX 0 0 = 0" "PX 1 0 = 0" "PX 2 0 = 0" "PGROUNDDOWN 0 = 0" "0 < MAXVA"
    by (simp_all add: PX_def PGROUNDDOWN_def MAXVA_def)
  have pg: "PX 0 va = 0 \<and> PX 1 va = 0 \<and> PX 2 va = 0 \<longleftrightarrow> PGROUNDDOWN va = 0"
    using same_page [OF True z(5)] by (simp add: z del: One_nat_def)
  have nz: "0x80102000 + 8 * PX 0 va \<noteq> 0"
  proof -
    have "unat (8 * PX 0 va) = 8 * unat (PX 0 va)" using PX_less [of 0 va] by (simp add: unat_word_ariths)
    then have "unat (0x80102000 + 8 * PX 0 va) \<noteq> 0" using PX_less [of 0 va] by (simp add: unat_add_u64)
    then show ?thesis by auto
  qed
  have "ld64 demo_mem (0x80102000 + 8 * PX 0 va)
      = (if PX 0 va = 0 then PA2PTE 0x80103000 OR PTE_R OR PTE_W OR PTE_U OR PTE_V else 0)"
    using demo_entry(3) [OF PX_less [of 0 va]] by (simp only: entry_def)
  then have l: "ld64 demo_mem (0x80102000 + 8 * PX 0 va) AND PTE_V = 0 \<or> ld64 demo_mem (0x80102000 + 8 * PX 0 va) AND PTE_U = 0
      \<longleftrightarrow> PX 0 va \<noteq> 0" "PX 0 va = 0 \<Longrightarrow> PTE2PA (ld64 demo_mem (0x80102000 + 8 * PX 0 va)) = 0x80103000"
    using demo_pte(5-7) by (simp_all only: if_True if_False split: if_splits) simp_all
  show ?thesis
  proof (cases "PX 2 va = 0 \<and> PX 1 va = 0")
    case two: True
    then have "walk_ro 2 demo_mem 0x80100000 va = 0x80102000 + 8 * PX 0 va" by (subst demo_walk) (rule if_P)
    note w = this
    have lt: "\<not> MAXVA \<le> va" using True by simp
    show ?thesis
    proof (cases "PX 0 va = 0")
      case True
      then have "PGROUNDDOWN va = 0" using pg two by blast
      then show ?thesis using True nz l w lt by (simp add: upage_def Let_def not_le [symmetric] del: One_nat_def not_le)
    next
      case False
      then have "PGROUNDDOWN va \<noteq> 0" using pg by blast
      then show ?thesis using False nz l(1) w lt by (simp add: upage_def Let_def del: One_nat_def)
    qed
  next
    case False
    then have "walk_ro 2 demo_mem 0x80100000 va = 0" by (subst demo_walk) (rule if_not_P)
    then show ?thesis using True False pg by (simp add: upage_def del: One_nat_def) blast
  qed
qed (simp add: upage_def not_less)

lemma demo_uspace: "uspace demo_mem 0x80100000"
proof -
  have t: "tpages 2 demo_mem 0x80100000 va \<subseteq> {0x80100000, 0x80101000, 0x80102000}" for va
  proof -
    have e: "ld64 demo_mem (0x80100000 + 8 * PX 2 va) = (if PX 2 va = 0 then PA2PTE 0x80101000 OR PTE_V else 0)"
      "ld64 demo_mem (0x80101000 + 8 * PX 1 va) = (if PX 1 va = 0 then PA2PTE 0x80102000 OR PTE_V else 0)"
      using demo_entry [of "PX 2 va"] demo_entry [of "PX 1 va"] PX_less [of 2 va] PX_less [of 1 va]
      by (simp_all only: entry_def)
    have w: "tpages 2 m p va = (let v = ld64 m (p + 8 * PX 2 va) in insert p (if v AND PTE_V \<noteq> 0 then
      (let p = PTE2PA v; v = ld64 m (p + 8 * PX 1 va) in insert p (if v AND PTE_V \<noteq> 0 then {PTE2PA v} else {})) else {}))" for m p
      by (simp only: numeral_2_eq_2 One_nat_def tpages.simps Let_def)
    show ?thesis by (simp add: w e demo_pte Let_def del: One_nat_def)
  qed
  have "upage demo_mem 0x80100000 va \<notin> {0x80100000, 0x80101000, 0x80102000}" if "upage demo_mem 0x80100000 va \<noteq> 0" for va
    using that by (simp add: demo_upage split: if_splits)
  then have 1: "upage demo_mem 0x80100000 va \<noteq> 0 \<and> vb < MAXVA \<longrightarrow> upage demo_mem 0x80100000 va \<notin> tpages 2 demo_mem 0x80100000 vb" for va vb
    using t by blast
  have rr: "PGROUNDDOWN (PGROUNDDOWN va) = PGROUNDDOWN va" for va
    by (simp add: PGROUNDDOWN_def and.assoc)
  have 2: "PGROUNDDOWN va = PGROUNDDOWN vb" if "upage demo_mem 0x80100000 (PGROUNDDOWN va) \<noteq> 0"
    "upage demo_mem 0x80100000 (PGROUNDDOWN va) = upage demo_mem 0x80100000 (PGROUNDDOWN vb)" for va vb
    using that by (simp add: demo_upage rr split: if_splits)
  have 3: "(0x80100000 :: u64) mod PGSIZE = 0" by (simp add: PGSIZE_def)
  show ?thesis unfolding uspace_def using 1 2 3 by blast
qed

lemma demo_low: "umem demo_mem 0x80100000 va \<noteq> None" if "unat va < 4096"
proof -
  have "unat (PGROUNDDOWN va) = 0" using that by (simp only: PGROUNDDOWN_def round_down unat_round_down) simp
  then have "PGROUNDDOWN va = 0" by (simp only: unat_eq_zero)
  then show ?thesis by (simp add: umem_def Let_def demo_upage PGROUNDDOWN_def MAXVA_def)
qed

lemma demo_mapped: "all_mapped demo_mem 0x80100000 0x10 0x20"
proof -
  have "unat va < 4096" if "unat (va - 0x10) < 0x20" for va :: u64
  proof -
    have "va - 0x10 < 0x20" using that by (simp add: word_less_nat_alt)
    then have "va < 0x1000" by unat_arith
    then show ?thesis by (simp add: word_less_nat_alt)
  qed
  then show ?thesis by (simp add: all_mapped_def demo_low)
qed

theorem copyout_correct_witness:
  "\<exists>t. copyout 0x80100000 0x10 (\<lambda>i. of_nat i) 0x20 (boot\<lparr>pmem := demo_mem\<rparr>) = Ret 0 t \<and> umem (pmem t) 0x80100000 0x13 = Some 3"
  using copyout_correct [of "boot\<lparr>pmem := demo_mem\<rparr>" "0x80100000" "0x10" "\<lambda>i. of_nat i" "0x20"] demo_uspace demo_mapped by auto

theorem copyin_correct_witness:
  "\<exists>d. copyin 0x80100000 (\<lambda>_. 9) 0x10 0x20 (boot\<lparr>pmem := demo_mem\<rparr>) = Ret (0, d) (boot\<lparr>pmem := demo_mem\<rparr>)
    \<and> d 1 = 0 \<and> d 0x20 = 9"
proof -
  obtain d where d: "copyin 0x80100000 (\<lambda>_. 9) 0x10 0x20 (boot\<lparr>pmem := demo_mem\<rparr>) = Ret (0, d) (boot\<lparr>pmem := demo_mem\<rparr>)"
    "\<forall>i<32. umem demo_mem 0x80100000 (0x10 + of_nat i) = Some (d i)" "\<forall>i\<ge>32. d i = 9"
    using copyin_correct [of "0x80100000" "\<lambda>_. 9" "0x10" "0x20" "boot\<lparr>pmem := demo_mem\<rparr>"] demo_mapped by auto
  have "PGROUNDDOWN 0x11 = 0" "(0x11 :: u64) mod PGSIZE = 0x11" by (simp_all add: PGROUNDDOWN_def PGSIZE_def)
  then have "umem demo_mem 0x80100000 0x11 = Some (demo_mem 0x80103011)"
    using demo_upage [of 0] by (simp add: umem_def Let_def PGROUNDDOWN_def MAXVA_def)
  moreover have "demo_mem 0x80103011 = 0"
    by (simp add: demo_mem_def st64_def)
  ultimately have "d 1 = 0" using d(2) [rule_format, of 1] by simp
  then show ?thesis using d(1,3) by auto
qed

subsection \<open>The file system\<close>

lemma boot_c_tx: "k \<le> 27 \<Longrightarrow> tx_inv 1 {} k boot_c"
  unfolding tx_inv_def using boot_log_inv by (simp add: NBUF_def) blast

lemma boot_bitmap: "BBLOCK c boot_sb = 45" "used boot_c c \<longleftrightarrow> c < 48" if "c < 1000"
proof -
  show b: "BBLOCK c boot_sb = 45" using that by (simp add: BBLOCK_def boot_sb_def BPB_def BSIZE_def)
  have "c mod 8192 = c" "c div 8 < 6 \<longleftrightarrow> c < 48" using that by auto
  then show "used boot_c c \<longleftrightarrow> c < 48"
    by (simp add: used_def b boot_c(3) bm_free_bit BPB_def BSIZE_def)
qed

lemma boot_c_meta: "meta_used boot_c"
proof -
  have n: "fs_blocks boot_c = 1000" by (simp add: fs_blocks_def boot_sb_def)
  have u: "unat (of_nat b :: u32) = b" if "b < 1000" for b using that by simp
  then have ui: "uint (of_nat b :: u32) = int b" if "b < 1000" for b using that by (metis uint_nat)
  have "\<not> in_log boot_c (BBLOCK b (fs_sb boot_c))" if "b < 1000" for b
    using that by (simp add: boot_bitmap boot_c_geom)
  moreover have "used boot_c b" if "b < 1000" "in_log boot_c (of_nat b) \<or> (\<exists>c<1000. of_nat b = BBLOCK c (fs_sb boot_c))" for b
  proof -
    have "b < 48"
      using that(2)
    proof
      assume "in_log boot_c (of_nat b)"
      then show ?thesis using ui [OF that(1)] by (simp add: boot_c_geom)
    next
      assume "\<exists>c<1000. of_nat b = BBLOCK c (fs_sb boot_c)"
      then have "(of_nat b :: u32) = 45" by (auto simp: boot_bitmap)
      then show ?thesis using u [OF that(1)] by simp
    qed
    then show ?thesis using that(1) by (simp add: boot_bitmap)
  qed
  moreover have "(1000 - 1) div BPB + unat (sb_bmapstart (fs_sb boot_c)) < 2 ^ 32"
    by (simp add: boot_sb_def BPB_def BSIZE_def)
  ultimately show ?thesis unfolding meta_used_def n by blast
qed

lemma boot_first_free: "find (\<lambda>c. \<not> used boot_c c) [0..<1000] = Some 48"
  by (subst find_Some_iff) (intro exI [of _ 48], simp add: boot_bitmap)

theorem balloc_correct_witness: "\<exists>t. balloc ROOTDEV boot_c = Ret 48 t \<and> view t 45 6 = 1"
proof -
  have n: "fs_blocks boot_c = 1000" by (simp add: fs_blocks_def boot_sb_def)
  have "tx_inv 1 {} (Suc (Suc 0)) boot_c" by (rule boot_c_tx) simp
  from balloc_correct [OF this boot_c_meta] obtain t where t: "balloc ROOTDEV boot_c = Ret (of_nat 48) t" "view t = alloc_view boot_c 48"
    unfolding n boot_first_free by auto
  have "view t 45 6 = 1"
    by (simp add: t(2) alloc_view_def boot_bitmap boot_c(3) bm_set_def bm_mask_def BPB_def BSIZE_def)
  then show ?thesis using t(1) by simp
qed

theorem bfree_correct_witness: "(\<exists>t. bfree ROOTDEV 47 boot_c = Ret () t) \<and> bfree ROOTDEV 48 boot_c = Panic ''freeing free block''"
proof -
  have "tx_inv 1 {} (Suc 0) boot_c" by (rule boot_c_tx) simp
  then show ?thesis
    using bfree_correct [of 1 0 boot_c 47] bfree_correct [of 1 0 boot_c 48] by (auto simp: boot_bitmap boot_c_geom)
qed

text \<open>A file of 2000 bytes, the first 1024 in block 45, and a directory with one entry.\<close>

definition boot_f :: fsst where
  "boot_f = boot_c\<lparr>itable := (\<lambda>_. boot_inode)(0 := boot_inode\<lparr>i_dev := ROOTDEV, i_inum := 7, i_ref := 1, i_valid := True,
       i_type := T_FILE, i_nlink := 1, i_size := 2000, i_addrs := (\<lambda>_. 0)(0 := 45, 1 := 46)\<rparr>,
     1 := boot_inode\<lparr>i_dev := ROOTDEV, i_inum := 1, i_ref := 1, i_valid := True,
       i_type := T_DIR, i_nlink := 1, i_size := 32, i_addrs := (\<lambda>_. 0)(0 := 46)\<rparr>)\<rparr>"

lemma boot_f: "k \<le> 27 \<Longrightarrow> tx_inv 1 {} k boot_f" "view boot_f = disk boot" "in_log boot_f b = in_log boot_c b" "fs_sb boot_f = boot_sb"
  "de_addr boot_f = de_addr boot_c"
  using boot_c_tx by (simp_all add: boot_f_def boot_c(3) in_log_def)

theorem iupdate_correct_witness:
  "\<exists>t. iupdate 0 boot_f = Ret () t \<and> same_dinode (get_dinode (view t 32) (dinode_at 7) boot_inode) (itable boot_f 0)"
proof -
  have B: "IBLOCK 7 boot_sb = 32" by (simp add: IBLOCK_def IPB_def boot_sb_def)
  have "tx_inv 1 {} (Suc 0) boot_f" by (rule boot_f) simp
  moreover have "i_dev (itable boot_f 0) = ROOTDEV" "i_inum (itable boot_f 0) = 7" by (simp_all add: boot_f_def)
  moreover have "\<not> in_log boot_f 32" by (simp add: boot_f boot_c_geom)
  ultimately show ?thesis
    using iupdate_correct [of 1 0 boot_f 0 boot_inode] by (auto simp: boot_f B)
qed

lemma boot_f_world: "world 1 boot_f"
  using tx_world [OF boot_f(1) [of 0]] by simp

lemma boot_f_itable: "itable_ok boot_f"
  by (auto simp: itable_ok_def boot_f_def boot_inode_def split: if_splits)


lemma boot_f_addr: "baddr boot_f 0 0 = 45" "baddr boot_f 0 1 = 46" "baddr boot_f 1 0 = 46"
  by (simp_all add: baddr_def boot_f_def NDIRECT_def)

theorem readi_correct_witness:
  "\<exists>t. readi 0 False 0x80001000 2 100 boot_f = Ret 100 t \<and> pmem t 0x80001003 = - 1 \<and> pmem t 0x80001004 = 0"
proof -
  have len: "read_len boot_f 0 2 100 = 100" by (simp add: read_len_def boot_f_def)
  have "mapped_range boot_f 0 (unat (2 :: u32)) (unat (2 :: u32) + unat (read_len boot_f 0 2 100))"
    unfolding len mapped_range_def by (auto simp: boot_f_addr MAXFILE_def NDIRECT_def NINDIRECT_def BSIZE_def)
  moreover have "tx_inv 1 {} 0 boot_f" by (rule boot_f) simp
  moreover have "i_dev (itable boot_f 0) = ROOTDEV" by (simp add: boot_f_def)
  ultimately obtain t where t: "readi 0 False 0x80001000 2 100 boot_f = Ret 100 t"
    "\<forall>a. pmem t a = (if unat (a - 0x80001000) < 100 then fbyte boot_f 0 (2 + unat (a - 0x80001000)) else pmem boot_f a)"
    using readi_correct [of 1 0 boot_f 0 2 100 "0x80001000"] by (auto simp: len)
  then have "pmem t 0x80001003 = fbyte boot_f 0 5" "pmem t 0x80001004 = fbyte boot_f 0 6" by simp_all
  then show ?thesis using t(1) by (simp add: fbyte_def boot_f_addr boot_f BSIZE_def)
qed

theorem dirlookup_correct_witness:
  "\<exists>ip t. dirlookup 1 ((\<lambda>_. 0)(0 := 46)) boot_f = Ret (Some (ip, 0)) t \<and> i_inum (itable t ip) = 1"
proof -
  let ?n = "(\<lambda>_. 0 :: u8)(0 := 46)"
  have b: "fbyte boot_f 1 i = (if i = 0 then 1 else if i = 2 then 46 else 0)" if "i < 32" for i
    using that by (simp add: fbyte_def boot_f_addr boot_f BSIZE_def del: One_nat_def)
  have inum: "ent_inum boot_f 1 0 = 1" using b [of 0] b [of 1] by (simp add: ent_inum_def)
  have nm: "ent_name boot_f 1 0 k = ?n k" if "k < 14" for k
    using that b [of "2 + k"] by (simp add: ent_name_def)
  have "namecmp ?n (ent_name boot_f 1 0) = namecmp ?n ?n" by (rule namecmp_cong) (rule nm)
  also have "\<dots> = 0" by (simp add: namecmp_def strncmp_def strncmp_loop_0)
  finally have hit: "ent_hit boot_f 1 ?n 0" by (simp add: ent_hit_def inum)
  have sz: "unat (i_size (itable boot_f 1)) = 32" by (simp add: boot_f_def)
  have dir: "dir_ok boot_f 1"
    using boot_f_addr(3) unfolding dir_ok_def mapped_range_def sz
    by (simp add: boot_f_def MAXFILE_def NDIRECT_def NINDIRECT_def BSIZE_def)
  have ty: "i_type (itable boot_f 1) = T_DIR" by (simp add: boot_f_def)
  have "[0..<unat (i_size (itable boot_f 1)) div 16] = [0, 1]" unfolding sz by (simp add: upt_rec)
  then have fd: "find (ent_hit boot_f 1 ?n) [0..<unat (i_size (itable boot_f 1)) div 16] = Some 0" using hit by simp
  obtain t where t: "tx_inv 1 {} 0 t" "itable t = itable boot_f"
    "dirlookup 1 ?n boot_f = bnd (iget ROOTDEV (ucast (1 :: u16)) t) (\<lambda>ip s. Ret (Some (ip, of_nat (16 * 0))) s)"
    using dirlookup_correct [OF boot_f(1) dir ty, of 0 ?n] unfolding fd option.case inum by auto
  have w: "world 1 t" using tx_world [OF t(1)] .
  have ok: "itable_ok t" using boot_f_itable t(2) by (simp add: itable_ok_def)
  have "1 < NINODE \<and> 0 < i_ref (itable t 1) \<and> i_dev (itable t 1) = ROOTDEV \<and> i_inum (itable t 1) = 1"
    unfolding t(2) by (simp add: boot_f_def NINODE_def)
  then have "\<exists>i u. iget ROOTDEV 1 t = Ret i u" using iget_spec [OF w ok, of ROOTDEV 1] by (auto split: if_splits)
  then obtain i u where i: "iget ROOTDEV 1 t = Ret i u" by blast
  then show ?thesis using t(3) itable_ok_iget [OF w ok i] by auto
qed


subsection \<open>Pipes\<close>

text \<open>Process 1 with the demonstration page table, and a pipe at 0x80010000 that holds two bytes.\<close>

definition demo_pipe :: pipe where
  "demo_pipe = \<lparr>p_data = (\<lambda>i. of_nat i + 7), p_nread = 0, p_nwrite = 2, p_readopen = 1, p_writeopen = 1\<rparr>"

definition boot_p :: pipest where
  "boot_p = fsst.extend (upd_proc 1 (\<lambda>q. q\<lparr>pagetable := 0x80100000\<rparr>) (boot\<lparr>pmem := demo_mem\<rparr>))
    (pipest.fields (\<lambda>i. if i = 0x80010000 then demo_pipe else demo_pipe\<lparr>p_nwrite := 0\<rparr>))"

lemma boot_p_world [simp]: "world 1 boot_p" "depth boot_p = 0"
  by (simp_all add: boot_p_def fsst.defs pipest.defs upd_proc_def boot_def world_def calm_def cur_def depth_def lock_free_def)

lemma boot_p_fields [simp]:
  "pipes boot_p 0x80010000 = demo_pipe" "pipes boot_p 0 = demo_pipe\<lparr>p_nwrite := 0\<rparr>" "pmem boot_p = demo_mem"
  "pagetable (procs boot_p 1) = 0x80100000" "killed (procs boot_p 1) = 0"
  by (simp_all add: boot_p_def fsst.defs pipest.defs upd_proc_def boot_def boot_proc_def)

lemma demo_pipe_queue [simp]:
  "pipe_ok demo_pipe" "pipe_items demo_pipe = [7, 8]" "pipe_ok (demo_pipe\<lparr>p_nwrite := 0\<rparr>)" "pipe_items (demo_pipe\<lparr>p_nwrite := 0\<rparr>) = []"
  "p_readopen demo_pipe = 1" "p_writeopen demo_pipe = 1"
  by (simp_all add: pipe_ok_def pipe_items_def ring_items_def demo_pipe_def PIPESIZE_def upt_rec)

lemma demo_small: "umem demo_mem 0x80100000 (0 + of_int k) \<noteq> None" if "0 \<le> k" "k < 4096"
  using that by (intro demo_low) (simp add: unsigned_of_int take_bit_int_eq_self)

lemma demo_unmapped: "umem demo_mem 0x80100000 0x5000 = None"
  by (simp add: umem_def Let_def demo_upage PGROUNDDOWN_def PGSIZE_def)


theorem piperead_correct_witness:
  "\<exists>t. piperead 0x80010000 0 3 boot_p = Ret 2 t \<and> pipe_items (pipes t 0x80010000) = []"
  using piperead_correct [of 1 boot_p "0x80010000" 3 0] demo_small demo_uspace by auto

theorem piperead_blocks_witness: "\<exists>t. piperead 0 0 3 boot_p = Swtch t"
  using piperead_blocks [of 1 boot_p 0 0 3] by (simp add: NPROC_def)

theorem piperead_loses_byte_witness:
  "\<exists>t. piperead 0x80010000 0x5000 3 boot_p = Ret 0 t \<and> pipe_items (pipes t 0x80010000) = [8]"
  using piperead_loses_byte [of 1 boot_p "0x80010000" 7 "[8]" 3 "0x5000"] demo_uspace demo_unmapped by simp

end
