(* ===== verification/Uart.thy ===== *)
theory Uart
  imports Pipe
begin

unbundle bit_operations_syntax

text \<open>
  The driver of the 16550 UART, \<^verbatim>\<open>kernel/uart.c\<close>, and the state of the console. The device's side is
  kept as data: the register writes in order (\<open>uart_log\<close>), the bytes that have arrived (\<open>uart_rx\<close>), and,
  for each read of the line status register, whether the transmitter is idle at that moment
  (\<open>uart_idle\<close>, any function). The theorem: the driver sends the bytes it is given in order, none is lost
  or sent twice, and it stops exactly where the device is busy.
\<close>

subsection \<open>State\<close>

definition UART_TX_BUF_SIZE :: nat where "UART_TX_BUF_SIZE = 32"
definition INPUT_BUF :: nat where "INPUT_BUF = 128"

record txq =
  tx_buf :: "nat \<Rightarrow> u8"
  tx_w :: u64
  tx_r :: u64

record cons =
  c_buf :: "nat \<Rightarrow> u8"
  c_r :: u32
  c_w :: u32
  c_e :: u32

text \<open>The functions that \<^verbatim>\<open>devsw\<close> may point to.\<close>

datatype devfn = Fn_consoleread | Fn_consolewrite

record consst = pipest +
  uart_log :: "(nat \<times> u8) list"
  uart_rx :: "u8 list"
  uart_idle :: "nat \<Rightarrow> bool"
  uart_polls :: nat
  uart_txq :: txq
  cons_buf :: cons
  panicked :: int
  pr_locking :: int
  devsw_read :: "int \<Rightarrow> devfn option"
  devsw_write :: "int \<Rightarrow> devfn option"

subsection \<open>Registers\<close>

definition RHR :: nat where "RHR = 0"
definition THR :: nat where "THR = 0"
definition IER :: nat where "IER = 1"
definition IER_RX_ENABLE :: u8 where "IER_RX_ENABLE = push_bit 0 1"
definition IER_TX_ENABLE :: u8 where "IER_TX_ENABLE = push_bit 1 1"
definition FCR :: nat where "FCR = 2"
definition FCR_FIFO_ENABLE :: u8 where "FCR_FIFO_ENABLE = push_bit 0 1"
definition FCR_FIFO_CLEAR :: u8 where "FCR_FIFO_CLEAR = push_bit 1 3"
definition LCR :: nat where "LCR = 3"
definition LCR_EIGHT_BITS :: u8 where "LCR_EIGHT_BITS = push_bit 0 3"
definition LCR_BAUD_LATCH :: u8 where "LCR_BAUD_LATCH = push_bit 7 1"

definition WriteReg :: "nat \<Rightarrow> u8 \<Rightarrow> 'm consst_scheme \<Rightarrow> 'm consst_scheme" where
  "WriteReg reg v s = s\<lparr>uart_log := uart_log s @ [(reg, v)]\<rparr>"

text \<open>\<^verbatim>\<open>ReadReg(LSR) & LSR_TX_IDLE\<close>: each read consumes one answer of the device. The receive side is a
  queue: \<^verbatim>\<open>LSR_RX_READY\<close> says that it is not empty and a read of \<^verbatim>\<open>RHR\<close> takes its first byte.\<close>

definition lsr_tx_idle :: "'m consst_scheme \<Rightarrow> bool \<times> 'm consst_scheme" where
  "lsr_tx_idle s = (uart_idle s (uart_polls s), s\<lparr>uart_polls := uart_polls s + 1\<rparr>)"

definition uartinit :: "'m consst_scheme \<Rightarrow> 'm consst_scheme" where
  "uartinit s =
    (let s = WriteReg IER 0 s;
         s = WriteReg LCR LCR_BAUD_LATCH s;
         s = WriteReg 0 3 s;
         s = WriteReg 1 0 s;
         s = WriteReg LCR LCR_EIGHT_BITS s;
         s = WriteReg FCR (FCR_FIFO_ENABLE OR FCR_FIFO_CLEAR) s;
         s = WriteReg IER (IER_TX_ENABLE OR IER_RX_ENABLE) s
     in initlock Lk_uart ''uart'' s)"

subsection \<open>Frames needed for termination\<close>

lemma pop_off_more: "pop_off s = Ret u t \<Longrightarrow> machine.more t = machine.more s"
  by (auto simp: pop_off_def Let_def split: if_splits)

lemma push_off_more: "machine.more (push_off s) = machine.more s"
  by simp

lemma acquire_more: "acquire l s = Ret u t \<Longrightarrow> machine.more t = machine.more s"
  by (auto simp: acquire_def Let_def split: if_splits)

lemma release_more: "release l s = Ret u t \<Longrightarrow> machine.more t = machine.more s"
  by (auto simp: release_def dest: pop_off_more split: if_splits)

lemma myproc_more: "myproc s = Ret u t \<Longrightarrow> machine.more t = machine.more s"
  by (auto simp: myproc_def Let_def bnd_eq_Ret dest: pop_off_more)

lemma wakeup_one_more: "wakeup_one ch i s = Ret u t \<Longrightarrow> machine.more t = machine.more s"
  by (auto simp: wakeup_one_def Let_def bnd_eq_Ret dest!: myproc_more acquire_more release_more split: if_splits)

lemma for_each_more:
  assumes "\<And>i s u t. f i s = Ret u t \<Longrightarrow> machine.more t = machine.more s"
  shows "for_each xs f s = Ret u t \<Longrightarrow> machine.more t = machine.more s"
proof (induction xs arbitrary: s)
  case (Cons i xs)
  then obtain v s1 where s1: "f i s = Ret v s1" "for_each xs f s1 = Ret u t" by (auto simp: bnd_eq_Ret)
  show ?case using Cons.IH [OF s1(2)] assms [OF s1(1)] by simp
qed simp

lemma wakeup_more: "wakeup ch s = Ret u t \<Longrightarrow> machine.more t = machine.more s"
  unfolding wakeup_def by (rule for_each_more [OF wakeup_one_more])

lemma more_txq: "machine.more t = machine.more s \<Longrightarrow> uart_txq t = uart_txq s"
  by (cases s, cases t) simp

subsection \<open>The transmit queue\<close>

definition tx_full :: "txq \<Rightarrow> bool" where
  "tx_full q \<longleftrightarrow> tx_w q = tx_r q + of_nat UART_TX_BUF_SIZE"

definition tx_empty :: "txq \<Rightarrow> bool" where
  "tx_empty q \<longleftrightarrow> tx_w q = tx_r q"

definition tx_put :: "u8 \<Rightarrow> txq \<Rightarrow> txq" where
  "tx_put c q = q\<lparr>tx_buf := (tx_buf q)(unat (tx_w q) mod UART_TX_BUF_SIZE := c), tx_w := tx_w q + 1\<rparr>"

definition tx_front :: "txq \<Rightarrow> u8" where
  "tx_front q = tx_buf q (unat (tx_r q) mod UART_TX_BUF_SIZE)"

definition tx_pop :: "txq \<Rightarrow> txq" where
  "tx_pop q = q\<lparr>tx_r := tx_r q + 1\<rparr>"

lemma tx_pop_less: "\<not> tx_empty q \<Longrightarrow> unat (tx_w (tx_pop q) - tx_r (tx_pop q)) < unat (tx_w q - tx_r q)"
proof -
  assume "\<not> tx_empty q"
  then have "tx_w q - tx_r q \<noteq> 0" by (simp add: tx_empty_def)
  moreover have "tx_w q - (tx_r q + 1) = tx_w q - tx_r q - 1" by simp
  ultimately have "unat (tx_w q - (tx_r q + 1)) = unat (tx_w q - tx_r q) - 1" "unat (tx_w q - tx_r q) \<noteq> 0"
    by (simp_all only: unat_minus_one unat_eq_0 not_False_eq_True)
  then show ?thesis by (simp add: tx_pop_def)
qed

function uartstart :: "'m consst_scheme \<Rightarrow> (unit, 'm consst_scheme) outcome" where
  "uartstart s =
    (if tx_empty (uart_txq s) then Ret () s
     else
       let (idle, s) = lsr_tx_idle s
       in if \<not> idle then Ret () s
          else
            let c = tx_front (uart_txq s); s = s\<lparr>uart_txq := tx_pop (uart_txq s)\<rparr>
            in bnd (wakeup Ch_uart_tx_r s) (\<lambda>_ s. uartstart (WriteReg THR c s)))"
  by pat_completeness auto
termination
proof (relation "measure (\<lambda>s. unat (tx_w (uart_txq s) - tx_r (uart_txq s)))", goal_cases)
  case (2 s x idle s1 c s2 u s3)
  then have "uart_txq s3 = tx_pop (uart_txq s)"
    using wakeup_more [THEN more_txq, of Ch_uart_tx_r s2 u s3] by (simp add: lsr_tx_idle_def)
  then show ?case using tx_pop_less [OF 2(1)] by (simp add: WriteReg_def)
qed simp

declare uartstart.simps [simp del]

text \<open>\<open>uartputc\<close>: the part after \<open>acquire\<close>, to which a sleeper comes back.\<close>

definition uartputc_turn :: "int \<Rightarrow> 'm consst_scheme \<Rightarrow> (unit, 'm consst_scheme) outcome" where
  "uartputc_turn c s =
    (if tx_full (uart_txq s) then sleep Ch_uart_tx_r Lk_uart s
     else
       let s = s\<lparr>uart_txq := tx_put (of_int c) (uart_txq s)\<rparr>
       in bnd (uartstart s) (\<lambda>_ s. release Lk_uart s))"

definition uartputc :: "int \<Rightarrow> 'm consst_scheme \<Rightarrow> (unit, 'm consst_scheme) outcome" where
  "uartputc c s =
    bnd (acquire Lk_uart s) (\<lambda>_ s.
    if panicked s \<noteq> 0 then Spin else uartputc_turn c s)"

definition uartputc_back :: "nat \<Rightarrow> bool \<Rightarrow> int \<Rightarrow> 'm consst_scheme \<Rightarrow> (unit, 'm consst_scheme) outcome" where
  "uartputc_back p ena c s = bnd (sleep_back p ena Lk_uart s) (\<lambda>_ s. uartputc_turn c s)"

text \<open>The busy wait of \<open>uartputc_sync\<close>: the index of the first poll from \<open>k\<close> on that finds the device idle.
  A device that is never idle again makes it spin.\<close>

partial_function (option) wait_idle :: "(nat \<Rightarrow> bool) \<Rightarrow> nat \<Rightarrow> nat option" where
  "wait_idle idle k = (if idle k then Some k else wait_idle idle (k + 1))"

definition uartputc_sync :: "int \<Rightarrow> 'm consst_scheme \<Rightarrow> (unit, 'm consst_scheme) outcome" where
  "uartputc_sync c s =
    (let s = push_off s
     in if panicked s \<noteq> 0 then Spin
        else case wait_idle (uart_idle s) (uart_polls s) of
            None \<Rightarrow> Spin
          | Some k \<Rightarrow> pop_off (WriteReg THR (of_int c) (s\<lparr>uart_polls := k + 1\<rparr>)))"

definition uartgetc :: "'m consst_scheme \<Rightarrow> int \<times> 'm consst_scheme" where
  "uartgetc s =
    (case uart_rx s of [] \<Rightarrow> (-1, s) | c # cs \<Rightarrow> (uint c, s\<lparr>uart_rx := cs\<rparr>))"

subsection \<open>The transmit queue is a bounded queue\<close>

definition tx_items :: "txq \<Rightarrow> u8 list" where
  "tx_items q = ring_items UART_TX_BUF_SIZE (tx_buf q) (tx_r q) (tx_w q)"

definition tx_ok :: "txq \<Rightarrow> bool" where
  "tx_ok q \<longleftrightarrow> unat (tx_w q - tx_r q) \<le> UART_TX_BUF_SIZE"

interpretation tq: byte_queue tx_items tx_ok tx_full tx_empty tx_put tx_front tx_pop UART_TX_BUF_SIZE
proof
  have dvd: "UART_TX_BUF_SIZE dvd 2 ^ LENGTH(64)" and lt: "UART_TX_BUF_SIZE < 2 ^ LENGTH(64)"
    by (simp_all add: UART_TX_BUF_SIZE_def)
  fix q :: txq and b
  assume ok: "tx_ok q"
  note full = ring_full [OF lt, of "tx_w q" "tx_r q"]
  show "length (tx_items q) \<le> UART_TX_BUF_SIZE" using ok by (simp add: tx_items_def tx_ok_def)
  show "tx_full q \<longleftrightarrow> length (tx_items q) = UART_TX_BUF_SIZE" using full by (simp add: tx_full_def tx_items_def)
  show "tx_empty q \<longleftrightarrow> tx_items q = []" by (auto simp: tx_empty_def tx_items_def ring_Nil)
  show "tx_ok (tx_put b q) \<and> tx_items (tx_put b q) = tx_items q @ [b]" if "\<not> tx_full q"
  proof -
    have "unat (tx_w q - tx_r q) < UART_TX_BUF_SIZE" using that ok full by (simp add: tx_full_def tx_ok_def)
    from ring_put [OF dvd lt this] this show ?thesis by (simp add: tx_ok_def tx_items_def tx_put_def)
  qed
  show "tx_ok (tx_pop q) \<and> tx_items q = tx_front q # tx_items (tx_pop q)" if "\<not> tx_empty q"
  proof -
    have "tx_r q \<noteq> tx_w q" using that by (simp add: tx_empty_def)
    from ring_pop [OF dvd this] ok show ?thesis by (simp add: tx_ok_def tx_items_def tx_front_def tx_pop_def)
  qed
qed

subsection \<open>What is sent\<close>

lemma consst_update [simp]:
  "calm (s\<lparr>uart_log := a\<rparr>) = calm s" "calm (s\<lparr>uart_polls := b\<rparr>) = calm s" "calm (s\<lparr>uart_txq := c\<rparr>) = calm s"
  "calm (s\<lparr>uart_rx := d\<rparr>) = calm s" "calm (s\<lparr>cons_buf := e\<rparr>) = calm s"
  "cur (s\<lparr>uart_log := a\<rparr>) = cur s" "cur (s\<lparr>uart_polls := b\<rparr>) = cur s" "cur (s\<lparr>uart_txq := c\<rparr>) = cur s"
  "cur (s\<lparr>uart_rx := d\<rparr>) = cur s" "cur (s\<lparr>cons_buf := e\<rparr>) = cur s"
  "depth (s\<lparr>uart_log := a\<rparr>) = depth s" "depth (s\<lparr>uart_polls := b\<rparr>) = depth s" "depth (s\<lparr>uart_txq := c\<rparr>) = depth s"
  "depth (s\<lparr>uart_rx := d\<rparr>) = depth s" "depth (s\<lparr>cons_buf := e\<rparr>) = depth s"
  "lock_free l (s\<lparr>uart_log := a\<rparr>) = lock_free l s" "lock_free l (s\<lparr>uart_polls := b\<rparr>) = lock_free l s"
  "lock_free l (s\<lparr>uart_txq := c\<rparr>) = lock_free l s" "lock_free l (s\<lparr>uart_rx := d\<rparr>) = lock_free l s"
  "lock_free l (s\<lparr>cons_buf := e\<rparr>) = lock_free l s"
  by (simp_all add: calm_def cur_def depth_def lock_free_def)

lemma consst_update_unlocked [simp]:
  "procs_unlocked (s\<lparr>uart_log := a\<rparr>) = procs_unlocked s" "procs_unlocked (s\<lparr>uart_polls := b\<rparr>) = procs_unlocked s"
  "procs_unlocked (s\<lparr>uart_txq := c\<rparr>) = procs_unlocked s" "procs_unlocked (s\<lparr>cons_buf := e\<rparr>) = procs_unlocked s"
  by (simp_all add: procs_unlocked_def)

lemma lock_on_consst [lock_simps, simp]:
  "(lock_on l s)\<lparr>uart_log := a\<rparr> = lock_on l (s\<lparr>uart_log := a\<rparr>)"
  "(lock_on l s)\<lparr>uart_polls := b\<rparr> = lock_on l (s\<lparr>uart_polls := b\<rparr>)"
  "(lock_on l s)\<lparr>uart_txq := c\<rparr> = lock_on l (s\<lparr>uart_txq := c\<rparr>)"
  "(lock_on l s)\<lparr>cons_buf := e\<rparr> = lock_on l (s\<lparr>cons_buf := e\<rparr>)"
  "uart_log (lock_on l s) = uart_log s" "uart_polls (lock_on l s) = uart_polls s" "uart_txq (lock_on l s) = uart_txq s"
  "uart_idle (lock_on l s) = uart_idle s" "cons_buf (lock_on l s) = cons_buf s" "panicked (lock_on l s) = panicked s"
  "pr_locking (lock_on l s) = pr_locking s" "uart_rx (lock_on l s) = uart_rx s"
  by (simp_all add: lock_on_def push_off_def Let_def)

text \<open>How many of \<open>n\<close> waiting bytes the device takes: one for each poll in a row that finds it idle.\<close>

primrec taken :: "(nat \<Rightarrow> bool) \<Rightarrow> nat \<Rightarrow> nat \<Rightarrow> nat" where
  "taken idle k 0 = 0"
| "taken idle k (Suc n) = (if idle k then Suc (taken idle (k + 1) n) else 0)"

lemma taken_le: "taken idle k n \<le> n"
  by (induction n arbitrary: k) (auto intro: le_SucI)

definition tx_sent :: "nat \<Rightarrow> 'm consst_scheme \<Rightarrow> 'm consst_scheme" where
  "tx_sent k s = s\<lparr>uart_log := uart_log s @ map (Pair THR) (take k (tx_items (uart_txq s))),
     uart_txq := (tx_pop ^^ k) (uart_txq s),
     uart_polls := uart_polls s + min (k + 1) (length (tx_items (uart_txq s))),
     procs := (if k = 0 then procs s else wake_procs Ch_uart_tx_r (cur s) (procs s))\<rparr>"

lemma uartstart_spec:
  assumes "calm s" and "procs_unlocked s" and "tx_ok (uart_txq s)"
  shows "uartstart s = Ret () (tx_sent (taken (uart_idle s) (uart_polls s) (length (tx_items (uart_txq s)))) s)"
  using assms
proof (induction "length (tx_items (uart_txq s))" arbitrary: s)
  case 0
  then have "tx_empty (uart_txq s)" using tq.empty_law by simp
  then show ?case using 0 by (subst uartstart.simps) (simp add: tx_sent_def)
next
  case (Suc n)
  let ?q = "uart_txq s"
  have ne: "\<not> tx_empty ?q" using Suc.hyps(2) Suc.prems tq.empty_law [of ?q] by auto
  note pop = tq.pop_law [OF Suc.prems(3) ne]
  have n: "tx_items ?q = tx_front ?q # tx_items (tx_pop ?q)" "length (tx_items (tx_pop ?q)) = n"
    using pop Suc.hyps(2) by (metis, metis length_Cons nat.inject)
  show ?case
  proof (cases "uart_idle s (uart_polls s)")
    case False
    then show ?thesis using ne n by (subst uartstart.simps) (simp add: lsr_tx_idle_def tx_sent_def)
  next
    case True
    define s1 where "s1 = WriteReg THR (tx_front ?q) (s\<lparr>uart_polls := uart_polls s + 1, uart_txq := tx_pop ?q,
      procs := wake_procs Ch_uart_tx_r (cur s) (procs s)\<rparr>)"
    have f: "uart_txq s1 = tx_pop ?q" "uart_polls s1 = uart_polls s + 1" "uart_idle s1 = uart_idle s"
      "uart_log s1 = uart_log s @ [(THR, tx_front ?q)]" "procs s1 = wake_procs Ch_uart_tx_r (cur s) (procs s)" "cur s1 = cur s"
      "calm s1" "procs_unlocked s1"
      using Suc.prems(1,2) by (simp_all add: s1_def WriteReg_def procs_unlocked_def)
    have "uartstart s = uartstart s1"
      using ne True Suc.prems(1,2) by (subst uartstart.simps) (simp add: lsr_tx_idle_def s1_def Let_def)
    also have "\<dots> = Ret () (tx_sent (taken (uart_idle s1) (uart_polls s1) n) s1)"
      using Suc.hyps(1) [of s1] f n pop by simp
    also have "\<dots> = Ret () (tx_sent (taken (uart_idle s) (uart_polls s) (Suc n)) s)"
      using True n by (simp add: tx_sent_def f funpow_swap1)
        (simp add: s1_def WriteReg_def wake_procs_def fun_eq_iff)
    finally show ?thesis using Suc.hyps(2) by simp
  qed
qed

lemma taken_stops: "taken idle k n = n \<or> \<not> idle (k + taken idle k n)"
proof (induction n arbitrary: k)
  case (Suc n)
  then show ?case using Suc.IH [of "k + 1"] by auto
qed simp

lemma tx_sent_lock_on [lock_simps]:
  "tx_sent k (lock_on l s) = lock_on l (tx_sent k s)" "calm (tx_sent k s) = calm s" "lock_free l (tx_sent k s) = lock_free l s"
  by (simp_all add: tx_sent_def)

text \<open>Writing a byte to the console device. With the transmit queue full the caller goes to sleep on it, and
  nothing is queued. Otherwise the byte joins the end of the queue, and the driver hands the device bytes
  from the front of the queue, in order, as long as the device is idle; the rest stays queued, in order.\<close>

theorem uartputc_correct:
  assumes "world p s" and "depth s = 0" and "p < NPROC" and "panicked s = 0" and "tx_ok (uart_txq s)"
  shows "if length (tx_items (uart_txq s)) = UART_TX_BUF_SIZE
    then \<exists>t. uartputc c s = Swtch t \<and> uart_log t = uart_log s \<and> tx_items (uart_txq t) = tx_items (uart_txq s)
      \<and> pstate (procs t p) = SLEEPING \<and> pchan (procs t p) = Some Ch_uart_tx_r \<and> lock_free Lk_uart t
    else \<exists>t k. uartputc c s = Ret () t \<and> tx_ok (uart_txq t)
      \<and> uart_log t = uart_log s @ map (Pair THR) (take k (tx_items (uart_txq s) @ [of_int c]))
      \<and> tx_items (uart_txq t) = drop k (tx_items (uart_txq s) @ [of_int c])
      \<and> (tx_items (uart_txq t) = [] \<or> \<not> uart_idle s (uart_polls s + k))"
proof (cases "length (tx_items (uart_txq s)) = UART_TX_BUF_SIZE")
  case True
  then have "tx_full (uart_txq s)" using tq.full_law [OF assms(5)] by simp
  moreover have "sleep Ch_uart_tx_r Lk_uart (lock_on Lk_uart s)
    = (Swtch (lock_on (Lk_proc p) (upd_proc p (\<lambda>q. q\<lparr>pchan := Some Ch_uart_tx_r, pstate := SLEEPING\<rparr>) s)) :: (unit, _) outcome)"
    using worldD [OF assms(1)] assms(2) by (intro sleep_eq) auto
  ultimately have "uartputc c s = Swtch (lock_on (Lk_proc p) (upd_proc p (\<lambda>q. q\<lparr>pchan := Some Ch_uart_tx_r, pstate := SLEEPING\<rparr>) s))"
    using worldD [OF assms(1)] assms(4) by (simp add: uartputc_def uartputc_turn_def)
  then show ?thesis using True worldD [OF assms(1)] by (simp add: upd_proc_def)
next
  case False
  let ?q = "uart_txq s"
  let ?q' = "tx_put (of_int c) ?q"
  let ?n = "length (tx_items ?q')"
  define s1 where "s1 = s\<lparr>uart_txq := ?q'\<rparr>"
  define k where "k = taken (uart_idle s) (uart_polls s) ?n"
  have nf: "\<not> tx_full ?q" using False tq.full_law [OF assms(5)] by simp
  note put = tq.put_law [OF assms(5) nf, of "of_int c"] and w = worldD [OF assms(1)]
  have f: "calm s1" "lock_free l s1" "procs_unlocked s1" "uart_txq s1 = ?q'" "uart_idle s1 = uart_idle s"
    "uart_polls s1 = uart_polls s" "uart_log s1 = uart_log s" for l
    using w by (simp_all add: s1_def)
  have "procs_unlocked (lock_on Lk_uart s1)" using f(3) by (simp add: procs_unlocked_def)
  then have "uartstart (lock_on Lk_uart s1) = Ret () (lock_on Lk_uart (tx_sent k s1))"
    using uartstart_spec [of "lock_on Lk_uart s1"] f put by (simp add: k_def lock_simps)
  then have "uartputc c s = release Lk_uart (lock_on Lk_uart (tx_sent k s1))"
    using w nf assms(4) by (simp add: uartputc_def uartputc_turn_def Let_def s1_def)
  then have r: "uartputc c s = Ret () (tx_sent k s1)" using f by (simp add: lock_simps)
  have k: "k \<le> length (tx_items ?q')" unfolding k_def by (rule taken_le)
  have "tx_ok ((tx_pop ^^ k) ?q') \<and> tx_items ((tx_pop ^^ k) ?q') = drop k (tx_items ?q')"
    using put k by (intro tq.pop_run) auto
  moreover have "k = ?n \<or> \<not> uart_idle s (uart_polls s + k)" unfolding k_def by (rule taken_stops)
  ultimately have "tx_ok (uart_txq (tx_sent k s1)) \<and>
      uart_log (tx_sent k s1) = uart_log s @ map (Pair THR) (take k (tx_items ?q @ [of_int c])) \<and>
      tx_items (uart_txq (tx_sent k s1)) = drop k (tx_items ?q @ [of_int c]) \<and>
      (tx_items (uart_txq (tx_sent k s1)) = [] \<or> \<not> uart_idle s (uart_polls s + k))"
    using put f by (auto simp: tx_sent_def)
  then show ?thesis unfolding r if_not_P [OF False] by blast
qed

end
