(* ===== verification/Digits.thy ===== *)
theory Digits
  imports Prelude
begin

unbundle bit_operations_syntax

text \<open>
  Numbers as text: the digit loop that \<^verbatim>\<open>printint\<close> has in the kernel (\<^verbatim>\<open>kernel/printf.c\<close>) and in the user
  library (\<^verbatim>\<open>user/printf.c\<close>), which produces the digits from the last one on, and \<^verbatim>\<open>atoi\<close> of
  \<^verbatim>\<open>user/ulib.c\<close>. Text is a list of bytes.
\<close>

definition bytes :: "string \<Rightarrow> u8 list" where
  "bytes cs = map of_char cs"

lemma bytes_simps [simp]: "bytes [] = []" "bytes (c # cs) = of_char c # bytes cs"
  by (simp_all add: bytes_def)

lemma unat_of_nat_u8: "n < 256 \<Longrightarrow> unat (of_nat n :: u8) = n"
  by (simp add: unat_of_nat take_bit_nat_eq_self)

lemma div_shrinks: "x div b \<noteq> 0 \<Longrightarrow> 2 \<le> unat b \<Longrightarrow> unat (x div b) < unat x" for x b :: u32
proof -
  assume nz: "x div b \<noteq> 0" and b: "2 \<le> unat b"
  have "unat x \<noteq> 0" using nz unat_div [of x b] by (metis div_0 unat_eq_zero)
  then show ?thesis using b by (simp add: unat_div div_less_dividend)
qed

text \<open>\<^verbatim>\<open>do { buf[i++] = digits[x % base]; } while((x /= base) != 0)\<close>. The callers pass 10 and 16; with a base
  below 2 the C loop would not end.\<close>

function digits_rev :: "u8 list \<Rightarrow> u32 \<Rightarrow> u32 \<Rightarrow> u8 list" where
  "digits_rev ds base x =
    ds ! unat (x mod base) #
      (let x = x div base in if x = 0 \<or> base < 2 then [] else digits_rev ds base x)"
  by pat_completeness auto
termination
proof (relation "measure (\<lambda>(ds, base, x). unat x)", goal_cases)
  case (2 ds base x y)
  then have "2 \<le> unat base" by (simp add: word_less_nat_alt)
  then show ?case using 2 div_shrinks [of x base] by simp
qed simp

declare digits_rev.simps [simp del]

lemma digits_rev_length: "2 \<le> unat base \<Longrightarrow> 0 < k \<Longrightarrow> unat x < unat base ^ k \<Longrightarrow> length (digits_rev ds base x) \<le> k"
proof (induction ds base x arbitrary: k rule: digits_rev.induct)
  case (1 ds base x)
  show ?case
  proof (cases "x div base = 0 \<or> base < 2")
    case True
    then show ?thesis using 1 by (subst digits_rev.simps) (simp add: Let_def)
  next
    case False
    obtain k' where k: "k = Suc k'" using 1(3) by (cases k) auto
    have "unat x div unat base < unat base ^ k'" using 1(2,4) k by (simp add: less_mult_imp_div_less mult.commute)
    moreover have "unat x div unat base \<noteq> 0" using False by (simp add: unat_div [symmetric] unat_eq_0)
    ultimately have "0 < k'" by (cases k') auto
    have "length (digits_rev ds base (x div base)) \<le> k'"
      using 1(1) [OF refl False 1(2) \<open>0 < k'\<close>] \<open>unat x div unat base < unat base ^ k'\<close> by (simp add: unat_div)
    then show ?thesis using False k by (subst digits_rev.simps) (simp add: Let_def)
  qed
qed

text \<open>The text of \<^verbatim>\<open>printint\<close>, as the two callers have it: \<open>x\<close> is made positive first; the digits and the
  sign stand in \<^verbatim>\<open>buf\<close> in reverse.\<close>

definition int_buf :: "u8 list \<Rightarrow> u32 \<Rightarrow> u32 \<Rightarrow> bool \<Rightarrow> u8 list" where
  "int_buf ds xx base sign =
    (let neg = (sign \<and> sint xx < 0); x = (if neg then - xx else xx)
     in digits_rev ds base x @ (if neg then [45] else []))"

lemma int_buf_bound: "10 \<le> unat base \<Longrightarrow> length (int_buf ds xx base sign) \<le> 11"
proof -
  assume b: "10 \<le> unat base"
  have "length (digits_rev ds base x) \<le> 10" for x
  proof (rule digits_rev_length)
    have "unat x < 10 ^ 10" using unat_u32_less [of x] by simp
    also have "\<dots> \<le> unat base ^ 10" by (rule power_mono [OF b]) simp
    finally show "unat x < unat base ^ 10" .
  qed (use b in simp_all)
  then have "length (digits_rev ds base (- xx)) \<le> 10" "length (digits_rev ds base xx) \<le> 10" by blast+
  then show ?thesis unfolding int_buf_def Let_def by (cases "sign \<and> sint xx < 0") simp_all
qed

subsection \<open>Reading a number back\<close>

definition digit :: "u8 \<Rightarrow> bool" where
  "digit c \<longleftrightarrow> 48 \<le> c \<and> c \<le> 57"

text \<open>\<^verbatim>\<open>n = n*10 + *s++ - '0'\<close>, in 32 bits.\<close>

fun atoi_loop :: "u32 \<Rightarrow> u8 list \<Rightarrow> u32" where
  "atoi_loop n [] = n"
| "atoi_loop n (c # s) = (if digit c then atoi_loop (n * 10 + ucast c - 48) s else n)"

definition atoi :: "u8 list \<Rightarrow> int" where
  "atoi s = sint (atoi_loop 0 s)"

definition is_decimal :: "u8 list \<Rightarrow> bool" where
  "is_decimal ds \<longleftrightarrow> (\<forall>k<10. ds ! k = of_nat (48 + k))"

lemma decimal_digit: "is_decimal ds \<Longrightarrow> digit (ds ! unat (x mod 10)) \<and> ucast (ds ! unat (x mod 10)) - 48 = (x mod 10 :: u32)"
proof -
  assume d: "is_decimal ds"
  have k: "unat (x mod 10) < 10" by (simp add: unat_mod)
  then have e: "ds ! unat (x mod 10) = of_nat (48 + unat (x mod 10))" using d by (simp add: is_decimal_def)
  have u: "unat (of_nat (48 + unat (x mod 10)) :: u8) = 48 + unat (x mod 10)"
    using k by (intro unat_of_nat_u8) linarith
  have "digit (of_nat (48 + unat (x mod 10)))"
    using k unfolding digit_def word_le_nat_alt u by simp
  moreover have "unat (ucast (of_nat (48 + unat (x mod 10)) :: u8) - 48 :: u32) = unat (x mod 10)"
    unfolding unat_sub_u32 unat_u8_u32 u by simp
  ultimately show ?thesis unfolding e by (simp add: word_unat_eq_iff)
qed

lemma atoi_loop_digits:
  assumes "is_decimal ds"
  shows "atoi_loop 0 (rev (digits_rev ds 10 x) @ rest) = atoi_loop x rest"
proof (induction x arbitrary: rest rule: measure_induct_rule [where f = unat])
  case (less x)
  let ?d = "ds ! unat (x mod 10)"
  note d = decimal_digit [OF assms, of x]
  show ?case
  proof (cases "x div 10 = 0")
    case True
    then have "x mod 10 = x" using word_mod_div_equality [of x 10] by simp
    then show ?thesis using True d by (subst digits_rev.simps) simp
  next
    case False
    then have "unat (x div 10) < unat x" by (intro div_shrinks) simp_all
    then have "atoi_loop 0 (rev (digits_rev ds 10 (x div 10)) @ ?d # rest) = atoi_loop (x div 10) (?d # rest)"
      by (rule less)
    moreover have "x div 10 * 10 + ucast ?d - 48 = x"
      using d word_mod_div_equality [of x 10] by (simp add: add_diff_eq [symmetric])
    ultimately show ?thesis using False d by (subst digits_rev.simps) (simp add: Let_def)
  qed
qed

subsection \<open>Numbers as text, mathematically\<close>

fun nat_text :: "u8 list \<Rightarrow> nat \<Rightarrow> nat \<Rightarrow> u8 list" where
  "nat_text ds b n = (if n < b \<or> b < 2 then [] else nat_text ds b (n div b)) @ [ds ! (n mod b)]"

declare nat_text.simps [simp del]

definition int_text :: "u8 list \<Rightarrow> nat \<Rightarrow> int \<Rightarrow> u8 list" where
  "int_text ds b i = (if i < 0 then [45] else []) @ nat_text ds b (nat \<bar>i\<bar>)"

lemma digits_rev_text: "2 \<le> unat base \<Longrightarrow> rev (digits_rev ds base x) = nat_text ds (unat base) (unat x)"
proof (induction ds base x rule: digits_rev.induct)
  case (1 ds base x)
  have b: "\<not> base < 2" "\<not> unat base < 2" using 1(2) by (simp_all add: word_less_nat_alt)
  have z: "x div base = 0 \<longleftrightarrow> unat x < unat base"
  proof -
    have "x div base = 0 \<longleftrightarrow> unat x div unat base = 0" by (simp add: unat_div [symmetric] unat_eq_0)
    also have "\<dots> \<longleftrightarrow> unat x < unat base" using 1(2) by (simp add: div_eq_0_iff)
    finally show ?thesis .
  qed
  show ?case
  proof (cases "x div base = 0")
    case True
    then show ?thesis using z by (subst digits_rev.simps, subst nat_text.simps) (simp add: Let_def unat_mod)
  next
    case False
    then have "rev (digits_rev ds base (x div base)) = nat_text ds (unat base) (unat x div unat base)"
      using 1(1) [OF refl _ 1(2)] b by (simp add: unat_div)
    then show ?thesis using False z b by (subst digits_rev.simps, subst nat_text.simps) (simp add: Let_def unat_mod)
  qed
qed

lemma sint_abs: "nat \<bar>sint x\<bar> = unat (if sint x < 0 then - x else x)" for x :: u32
proof (cases "sint x < 0")
  case True
  have "uint x = sint x mod 2 ^ 32" using uint_sint [of x] by (simp add: take_bit_eq_mod)
  also have "\<dots> = (sint x + 2 ^ 32) mod 2 ^ 32" by simp
  also have "\<dots> = sint x + 2 ^ 32" using True sint_ge [of x] by (intro mod_pos_pos_trivial) simp_all
  finally have u: "uint x = sint x + 2 ^ 32" .
  then have "x \<noteq> 0" using True by auto
  then have "uint x \<noteq> 0" "uint x mod 2 ^ 32 = uint x" using uint_lt2p [of x] by (simp_all add: unsigned_eq_0_iff)
  then have "uint (- x) = 2 ^ 32 - uint x" by (simp add: uint_word_ariths zmod_zminus1_eq_if)
  then have "uint (- x) = - sint x" using u by simp
  then show ?thesis using True by (simp add: unat_eq_nat_uint)
next
  case False
  have "uint x = sint x mod 2 ^ 32" using uint_sint [of x] by (simp add: take_bit_eq_mod)
  also have "\<dots> = sint x" using False sint_lt [of x] by (intro mod_pos_pos_trivial) simp_all
  finally have "uint x = sint x" .
  then show ?thesis using False by (simp add: unat_eq_nat_uint)
qed

lemma int_buf_text:
  assumes "2 \<le> unat base"
  shows "rev (int_buf ds xx base True) = int_text ds (unat base) (sint xx)"
    and "rev (int_buf ds xx base False) = nat_text ds (unat base) (unat xx)"
  using assms by (simp_all add: int_buf_def int_text_def digits_rev_text sint_abs)

text \<open>\<^verbatim>\<open>printptr\<close>: \<open>digits[x >> 60]\<close>, then \<open>x <<= 4\<close>, sixteen times.\<close>

primrec ptr_digits :: "u8 list \<Rightarrow> nat \<Rightarrow> u64 \<Rightarrow> u8 list" where
  "ptr_digits ds 0 x = []"
| "ptr_digits ds (Suc n) x = ds ! unat (drop_bit 60 x) # ptr_digits ds n (push_bit 4 x)"

definition ptr_text :: "u8 list \<Rightarrow> u64 \<Rightarrow> u8 list" where
  "ptr_text ds x = map (\<lambda>k. ds ! unat (drop_bit (60 - 4 * k) x AND 15)) [0..<16]"

end
