(* ===== verification/Printf.thy ===== *)
theory Printf
  imports Uart Digits
begin

unbundle bit_operations_syntax

text \<open>
  The kernel's formatted output, \<^verbatim>\<open>kernel/printf.c\<close>, with \<^verbatim>\<open>consputc\<close> of \<^verbatim>\<open>kernel/console.c\<close> and \<^verbatim>\<open>procdump\<close>
  of \<^verbatim>\<open>kernel/proc.c\<close>. \<open>emits bs s t\<close> says that \<open>t\<close> is \<open>s\<close> with the bytes \<open>bs\<close> written to the transmit
  register, after waiting for the device each time; \<open>prints f bs\<close> that \<open>f\<close> does so from every state.
\<close>

definition BACKSPACE :: int where "BACKSPACE = 0x100"

definition consputc :: "int \<Rightarrow> 'm consst_scheme \<Rightarrow> (unit, 'm consst_scheme) outcome" where
  "consputc c s =
    (if c = BACKSPACE then
       bnd (uartputc_sync 8 s) (\<lambda>_ s. bnd (uartputc_sync 32 s) (\<lambda>_ s. uartputc_sync 8 s))
     else uartputc_sync c s)"

definition kdigits :: "u8 list" where
  "kdigits = bytes ''0123456789abcdef''"

definition printint :: "u32 \<Rightarrow> u32 \<Rightarrow> bool \<Rightarrow> 'm consst_scheme \<Rightarrow> (unit, 'm consst_scheme) outcome" where
  "printint xx base sign s = for_each (rev (int_buf kdigits xx base sign)) (\<lambda>c. consputc (uint c)) s"

primrec printptr_loop :: "nat \<Rightarrow> u64 \<Rightarrow> 'm consst_scheme \<Rightarrow> (unit, 'm consst_scheme) outcome" where
  "printptr_loop 0 x s = Ret () s"
| "printptr_loop (Suc n) x s =
    bnd (consputc (uint (kdigits ! unat (drop_bit 60 x))) s) (\<lambda>_ s. printptr_loop n (push_bit 4 x) s)"

definition printptr :: "u64 \<Rightarrow> 'm consst_scheme \<Rightarrow> (unit, 'm consst_scheme) outcome" where
  "printptr x s =
    bnd (consputc 48 s) (\<lambda>_ s. bnd (consputc 120 s) (\<lambda>_ s. printptr_loop 16 x s))"

text \<open>An argument of a variadic call is a register: \<^verbatim>\<open>va_arg\<close> reads it as a number or as the address of a
  string. A string is the list of the bytes before its NUL; \<open>None\<close> is the null pointer.\<close>

record va_slot =
  a_word :: u64
  a_str :: "u8 list option"

abbreviation num :: "u32 \<Rightarrow> va_slot" where "num x \<equiv> \<lparr>a_word = ucast x, a_str = None\<rparr>"
abbreviation str :: "u8 list \<Rightarrow> va_slot" where "str x \<equiv> \<lparr>a_word = 0, a_str = Some x\<rparr>"

definition puts :: "u8 list \<Rightarrow> 'm consst_scheme \<Rightarrow> (unit, 'm consst_scheme) outcome" where
  "puts cs s = for_each cs (\<lambda>c. consputc (uint c)) s"

text \<open>The loop of \<open>printf\<close> over the rest of the format, with the next argument's index.\<close>

fun printf_loop :: "u8 list \<Rightarrow> (nat \<Rightarrow> va_slot) \<Rightarrow> nat \<Rightarrow> 'm consst_scheme \<Rightarrow> (unit, 'm consst_scheme) outcome" where
  "printf_loop [] ap n s = Ret () s"
| "printf_loop (c # fmt) ap n s =
    (if c \<noteq> 37 then bnd (consputc (uint c) s) (\<lambda>_ s. printf_loop fmt ap n s)
     else case fmt of
         [] \<Rightarrow> Ret () s
       | d # fmt \<Rightarrow>
           if d = 100 then bnd (printint (ucast (a_word (ap n))) 10 True s) (\<lambda>_ s. printf_loop fmt ap (n + 1) s)
           else if d = 120 then bnd (printint (ucast (a_word (ap n))) 16 True s) (\<lambda>_ s. printf_loop fmt ap (n + 1) s)
           else if d = 112 then bnd (printptr (a_word (ap n)) s) (\<lambda>_ s. printf_loop fmt ap (n + 1) s)
           else if d = 115 then
             bnd (puts (case a_str (ap n) of None \<Rightarrow> bytes ''(null)'' | Some x \<Rightarrow> x) s) (\<lambda>_ s.
             printf_loop fmt ap (n + 1) s)
           else if d = 37 then bnd (consputc 37 s) (\<lambda>_ s. printf_loop fmt ap n s)
           else bnd (consputc 37 s) (\<lambda>_ s. bnd (consputc (uint d) s) (\<lambda>_ s. printf_loop fmt ap n s)))"

definition printf :: "u8 list option \<Rightarrow> (nat \<Rightarrow> va_slot) \<Rightarrow> 'm consst_scheme \<Rightarrow> (unit, 'm consst_scheme) outcome" where
  "printf fmt ap s =
    (let locking = pr_locking s
     in bnd (if locking \<noteq> 0 then acquire Lk_pr s else Ret () s) (\<lambda>_ s.
        case fmt of
          None \<Rightarrow> Panic ''null fmt''
        | Some fmt \<Rightarrow>
            bnd (printf_loop fmt ap 0 s) (\<lambda>_ s.
            if locking \<noteq> 0 then release Lk_pr s else Ret () s)))"

abbreviation no_args :: "nat \<Rightarrow> va_slot" where "no_args \<equiv> \<lambda>_. num 0"

text \<open>\<open>panic\<close> up to its endless loop: the state in which it stays.\<close>

definition panic :: "u8 list \<Rightarrow> 'm consst_scheme \<Rightarrow> (unit, 'm consst_scheme) outcome" where
  "panic m s =
    (let s = s\<lparr>pr_locking := 0\<rparr>
     in bnd (printf (Some (bytes ''panic: '')) no_args s) (\<lambda>_ s.
        bnd (printf (Some m) no_args s) (\<lambda>_ s.
        bnd (printf (Some [10]) no_args s) (\<lambda>_ s.
        Ret () (s\<lparr>panicked := 1\<rparr>)))))"

definition printfinit :: "'m consst_scheme \<Rightarrow> 'm consst_scheme" where
  "printfinit s = (initlock Lk_pr ''pr'' s)\<lparr>pr_locking := 1\<rparr>"

subsection \<open>The process list\<close>

definition state_name :: "procstate \<Rightarrow> u8 list" where
  "state_name st =
    (case st of UNUSED \<Rightarrow> bytes ''unused'' | SLEEPING \<Rightarrow> bytes ''sleep '' | RUNNABLE \<Rightarrow> bytes ''runble''
     | RUNNING \<Rightarrow> bytes ''run   '' | ZOMBIE \<Rightarrow> bytes ''zombie'' | USED \<Rightarrow> bytes ''???'')"

definition procdump_args :: "proc \<Rightarrow> nat \<Rightarrow> va_slot" where
  "procdump_args q n =
    (if n = 0 then num (of_int (pid q)) else if n = 1 then str (state_name (pstate q)) else str (cstr (pname q) 16))"

definition procdump_one :: "nat \<Rightarrow> 'm consst_scheme \<Rightarrow> (unit, 'm consst_scheme) outcome" where
  "procdump_one i s =
    (if pstate (procs s i) = UNUSED then Ret () s
     else
       bnd (printf (Some (bytes ''%d %s %s'')) (procdump_args (procs s i)) s) (\<lambda>_ s.
       printf (Some [10]) no_args s))"

definition procdump :: "'m consst_scheme \<Rightarrow> (unit, 'm consst_scheme) outcome" where
  "procdump s =
    bnd (printf (Some [10]) no_args s) (\<lambda>_ s. for_each [0..<NPROC] procdump_one s)"

subsection \<open>One character\<close>

definition ready :: "'m consst_scheme \<Rightarrow> bool" where
  "ready s \<longleftrightarrow> panicked s = 0 \<and> (\<forall>k. \<exists>j\<ge>k. uart_idle s j)"

definition emits :: "u8 list \<Rightarrow> 'm consst_scheme \<Rightarrow> 'm consst_scheme \<Rightarrow> bool" where
  "emits bs s t \<longleftrightarrow>
    (\<exists>k\<ge>uart_polls s. t = s\<lparr>uart_log := uart_log s @ map (Pair THR) bs, uart_polls := k\<rparr>)"

definition prints :: "('m consst_scheme \<Rightarrow> (unit, 'm consst_scheme) outcome) \<Rightarrow> u8 list \<Rightarrow> bool" where
  "prints f bs \<longleftrightarrow> (\<forall>s. calm s \<longrightarrow> ready s \<longrightarrow> (\<exists>t. f s = Ret () t \<and> emits bs s t))"

lemma wait_idle_spec: "idle j \<Longrightarrow> k \<le> j \<Longrightarrow> \<exists>i\<ge>k. wait_idle idle k = Some i \<and> idle i"
proof (induction "j - k" arbitrary: k)
  case 0
  then show ?case by (subst wait_idle.simps) auto
next
  case (Suc n)
  show ?case
  proof (cases "idle k")
    case False
    have "\<exists>i\<ge>k + 1. wait_idle idle (k + 1) = Some i \<and> idle i" using Suc by (intro Suc.hyps(1)) auto
    then show ?thesis using False by (subst wait_idle.simps) auto
  qed (subst wait_idle.simps, auto)
qed

lemma emits_Nil [simp]: "emits [] s s"
  unfolding emits_def by (rule exI [of _ "uart_polls s"]) simp

lemma emits_trans: "emits a s t \<Longrightarrow> emits b t u \<Longrightarrow> emits (a @ b) s u"
proof -
  assume "emits a s t" and "emits b t u"
  then obtain i j where "uart_polls s \<le> i" "t = s\<lparr>uart_log := uart_log s @ map (Pair THR) a, uart_polls := i\<rparr>"
    "uart_polls t \<le> j" "u = t\<lparr>uart_log := uart_log t @ map (Pair THR) b, uart_polls := j\<rparr>"
    unfolding emits_def by (elim exE conjE) (rule that, assumption+)
  then show ?thesis unfolding emits_def by (intro exI [of _ j]) simp
qed

lemma emits_calm: "emits bs s t \<Longrightarrow> calm t = calm s"
  by (auto simp: emits_def)

lemma emits_ready: "emits bs s t \<Longrightarrow> ready t = ready s"
  by (auto simp: emits_def ready_def)

lemma push_off_consst [simp]:
  "(push_off s)\<lparr>uart_log := a\<rparr> = push_off (s\<lparr>uart_log := a\<rparr>)"
  "(push_off s)\<lparr>uart_polls := b\<rparr> = push_off (s\<lparr>uart_polls := b\<rparr>)"
  "uart_log (push_off s) = uart_log s" "uart_polls (push_off s) = uart_polls s" "uart_idle (push_off s) = uart_idle s"
  "panicked (push_off s) = panicked s" "cons_buf (push_off s) = cons_buf s" "uart_rx (push_off s) = uart_rx s"
  by (simp_all add: push_off_def Let_def)

lemma prints_uartputc_sync: "prints (uartputc_sync c) [of_int c]"
  unfolding prints_def
proof (intro allI impI)
  fix s :: "'m consst_scheme"
  assume c: "calm s" and r: "ready s"
  then obtain j where "uart_idle s j" "uart_polls s \<le> j" by (auto simp: ready_def)
  then obtain i where i: "i \<ge> uart_polls s" "wait_idle (uart_idle s) (uart_polls s) = Some i" by (auto dest: wait_idle_spec)
  then have "uartputc_sync c s = Ret () (s\<lparr>uart_polls := i + 1, uart_log := uart_log s @ [(THR, of_int c)]\<rparr>)"
    using c r by (simp add: uartputc_sync_def Let_def ready_def WriteReg_def pop_push_off)
  then show "\<exists>t. uartputc_sync c s = Ret () t \<and> emits [of_int c] s t"
    using i(1) by (auto simp: emits_def intro!: exI [of _ "Suc i"])
qed

lemma prints_cong: "(\<And>s. g s = f s) \<Longrightarrow> prints f a \<Longrightarrow> prints g a"
  by (simp add: prints_def)

lemma prints_Ret: "prints (\<lambda>s. Ret () s) []"
  by (simp add: prints_def)

lemma prints_bnd:
  assumes "prints f a" and "prints g b"
  shows "prints (\<lambda>s. bnd (f s) (\<lambda>_ s. g s)) (a @ b)"
  unfolding prints_def
proof (intro allI impI)
  fix s :: "'a consst_scheme"
  assume s: "calm s" "ready s"
  then obtain t where t: "f s = Ret () t" "emits a s t" using assms(1) by (auto simp: prints_def)
  moreover from this s have "calm t" "ready t" by (simp_all add: emits_calm emits_ready)
  ultimately obtain u where "g t = Ret () u" "emits b t u" using assms(2) by (auto simp: prints_def)
  then show "\<exists>u. bnd (f s) (\<lambda>_ s. g s) = Ret () u \<and> emits (a @ b) s u" using t by (auto intro: emits_trans)
qed

lemma prints_skip: "(\<And>s. g s = Ret () s) \<Longrightarrow> prints g []"
  by (rule prints_cong [OF _ prints_Ret])

lemma prints_then:
  "(\<And>s. g s = bnd (f s) (\<lambda>_ s. h s)) \<Longrightarrow> prints f a \<Longrightarrow> prints h b \<Longrightarrow> ab = a @ b \<Longrightarrow> prints g ab"
  using prints_cong [OF _ prints_bnd] by metis

lemma prints_for_each: "(\<And>x. prints (f x) (out x)) \<Longrightarrow> prints (for_each xs f) (concat (map out xs))"
proof (induction xs)
  case Nil
  have "for_each [] f = (\<lambda>s. Ret () s)" by auto
  then show ?case by (simp add: prints_Ret)
next
  case (Cons x xs)
  then have "prints (for_each xs f) (concat (map out xs))" by blast
  moreover have "for_each (x # xs) f = (\<lambda>s. bnd (f x s) (\<lambda>_ s. for_each xs f s))" by auto
  ultimately show ?case using prints_bnd [OF Cons.prems [of x]] by simp
qed

lemma prints_consputc: "c \<noteq> BACKSPACE \<Longrightarrow> prints (consputc c) [of_int c]"
  by (rule prints_cong [OF _ prints_uartputc_sync]) (simp add: consputc_def)

lemma prints_byte: "prints (consputc (uint (c :: u8))) [c]"
proof -
  have "uint c \<noteq> BACKSPACE" using uint_lt2p [of c] by (simp add: BACKSPACE_def)
  then show ?thesis using prints_consputc [of "uint c"] by simp
qed

lemma prints_backspace: "prints (consputc BACKSPACE) [8, 32, 8]"
proof (rule prints_cong)
  show "prints (\<lambda>s. bnd (uartputc_sync 8 s) (\<lambda>_ s. bnd (uartputc_sync 32 s) (\<lambda>_ s. uartputc_sync 8 s))) [8, 32, 8]"
    using prints_bnd [OF prints_uartputc_sync [of 8] prints_bnd [OF prints_uartputc_sync [of 32] prints_uartputc_sync [of 8]]] by simp
qed (simp add: consputc_def)

lemma prints_bytes: "prints (for_each cs (\<lambda>c. consputc (uint c))) cs"
proof -
  have "prints (for_each cs (\<lambda>c. consputc (uint c))) (concat (map (\<lambda>c. [c]) cs))"
    by (rule prints_for_each) (rule prints_byte)
  then show ?thesis by simp
qed

lemma prints_puts: "prints (puts cs) cs"
  by (rule prints_cong [OF _ prints_bytes]) (simp add: puts_def)

subsection \<open>What printf writes\<close>

text \<open>The text a format and its arguments stand for. A number after \<^verbatim>\<open>%x\<close> is signed here, as in the code.\<close>

fun render :: "u8 list \<Rightarrow> (nat \<Rightarrow> va_slot) \<Rightarrow> nat \<Rightarrow> u8 list" where
  "render [] ap n = []"
| "render (c # fmt) ap n =
    (if c \<noteq> 37 then c # render fmt ap n
     else case fmt of
         [] \<Rightarrow> []
       | d # fmt \<Rightarrow>
           if d = 100 then int_text kdigits 10 (sint (ucast (a_word (ap n)) :: u32)) @ render fmt ap (n + 1)
           else if d = 120 then int_text kdigits 16 (sint (ucast (a_word (ap n)) :: u32)) @ render fmt ap (n + 1)
           else if d = 112 then [48, 120] @ ptr_text kdigits (a_word (ap n)) @ render fmt ap (n + 1)
           else if d = 115 then (case a_str (ap n) of None \<Rightarrow> bytes ''(null)'' | Some x \<Rightarrow> x) @ render fmt ap (n + 1)
           else if d = 37 then 37 # render fmt ap n
           else [37, d] @ render fmt ap n)"

lemma prints_printint:
  "2 \<le> unat base \<Longrightarrow> prints (printint xx base True) (int_text kdigits (unat base) (sint xx))"
  by (rule prints_cong [where f = "for_each (rev (int_buf kdigits xx base True)) (\<lambda>c. consputc (uint c))"])
    (simp add: printint_def, simp only: int_buf_text(1) [symmetric] prints_bytes)

lemma prints_number:
  "prints (printint x 10 True) (int_text kdigits 10 (sint x))" "prints (printint x 16 True) (int_text kdigits 16 (sint x))"
  using prints_printint [of 10 x] prints_printint [of 16 x] by simp_all

lemma prints_char: "prints (consputc 37) [37]" "prints (consputc 48) [48]" "prints (consputc 120) [120]" "prints (consputc 10) [10]"
  using prints_consputc [of 37] prints_consputc [of 48] prints_consputc [of 120] prints_consputc [of 10] by (simp_all add: BACKSPACE_def)

lemma prints_printptr_loop: "prints (printptr_loop n x) (ptr_digits kdigits n x)"
proof (induction n arbitrary: x)
  case 0
  then show ?case by (simp add: prints_def)
next
  case (Suc n)
  show ?case by (rule prints_then [OF _ prints_byte Suc]) simp_all
qed

lemma ptr_digits_text: "ptr_digits ds 16 x = ptr_text ds x"
proof -
  have d: "ptr_digits ds n (push_bit (4 * k) x) = map (\<lambda>j. ds ! unat (drop_bit (60 - 4 * j) x AND 15)) [k..<k + n]"
    if "k + n \<le> 16" for n k
    using that
  proof (induction n arbitrary: k)
    case (Suc n)
    have "drop_bit 60 (push_bit (4 * k) x) = drop_bit (60 - 4 * k) x AND 15"
    proof (rule bit_word_eqI)
      fix i assume "i < LENGTH(64)"
      have m: "(15 :: u64) = mask 4" by (simp add: mask_eq_exp_minus_1)
      show "bit (drop_bit 60 (push_bit (4 * k) x)) i = bit (drop_bit (60 - 4 * k) x AND 15) i"
        unfolding m using Suc.prems by (auto simp: bit_simps algebra_simps dest: bit_imp_le_length)
    qed
    moreover have "push_bit 4 (push_bit (4 * k) x) = push_bit (4 * Suc k) x" by simp
    moreover have "[k..<k + Suc n] = k # [Suc k..<Suc k + n]" by (simp add: upt_rec)
    ultimately show ?case using Suc.IH [of "Suc k"] Suc.prems by (simp del: upt_Suc mult_Suc_right)
  qed simp
  show ?thesis using d [of 0 16] by (simp add: ptr_text_def)
qed

lemma prints_printptr: "prints (printptr x) ([48, 120] @ ptr_text kdigits x)"
proof (rule prints_cong)
  from prints_bnd [OF prints_char(2) prints_bnd [OF prints_char(3) prints_printptr_loop [of 16 x]]]
  show "prints (\<lambda>s. bnd (consputc 48 s) (\<lambda>_ s. bnd (consputc 120 s) (\<lambda>_ s. printptr_loop 16 x s))) ([48, 120] @ ptr_text kdigits x)"
    by (simp only: ptr_digits_text append.simps)
qed (simp add: printptr_def)

lemma prints_printf_loop: "prints (printf_loop fmt ap n) (render fmt ap n)"
proof (induction fmt ap n rule: render.induct)
  case (1 ap n)
  show ?case by (simp add: prints_def)
next
  case (2 c fmt ap n)
  show ?case
  proof (cases "c = 37")
    case False
    show ?thesis
      by (rule prints_then [OF _ prints_byte [of c] "2.IH"(1) [OF False]]) (simp_all add: False)
  next
    case pct: True
    then have nc: "\<not> c \<noteq> 37" by simp
    show ?thesis
    proof (cases fmt)
      case Nil
      then show ?thesis using pct by (simp add: prints_def)
    next
      case (Cons d fmt')
      note IH = "2.IH"(2-) [OF nc Cons]
      show ?thesis
      proof (cases "d \<in> {100, 120, 112, 115}")
        case mem: True
        consider "d = 100" | "d = 120" | "d = 112" | "d = 115" using mem by auto
        then show ?thesis
        proof cases
          case 1
          then show ?thesis using pct Cons by (intro prints_then [OF _ prints_number(1) IH(1)]) simp_all
        next
          case 2
          then show ?thesis using pct Cons by (intro prints_then [OF _ prints_number(2) IH(2)]) simp_all
        next
          case 3
          then show ?thesis using pct Cons by (intro prints_then [OF _ prints_printptr IH(3)]) simp_all
        next
          case 4
          then show ?thesis using pct Cons by (intro prints_then [OF _ prints_puts IH(4)]) simp_all
        qed
      next
        case nm: False
        show ?thesis
        proof (cases "d = 37")
        case True
        then show ?thesis using pct Cons nm by (intro prints_then [OF _ prints_char(1) IH(5)]) simp_all
      next
        case False
        show ?thesis
          using pct Cons nm False
          by (intro prints_then [OF _ prints_char(1) prints_bnd [OF prints_byte [of d] IH(6)]]) simp_all
        qed
      qed
    qed
  qed
qed

lemma emits_lock_free: "emits bs s t \<Longrightarrow> lock_free l t = lock_free l s"
  by (auto simp: emits_def)

lemma emits_fields:
  assumes "emits bs s t"
  shows "procs t = procs s" "cons_buf t = cons_buf s" "cur t = cur s" "uart_rx t = uart_rx s" "uart_txq t = uart_txq s"
    "pr_locking t = pr_locking s" "procs_unlocked t = procs_unlocked s" "uart_log t = uart_log s @ map (Pair THR) bs"
  using assms by (auto simp: emits_def)

lemma emits_lock_on: "emits bs (lock_on l s) t \<Longrightarrow> \<exists>u. t = lock_on l u \<and> emits bs s u"
  by (auto simp: emits_def)

lemma ready_lock_on [simp]: "ready (lock_on l s) = ready s"
  by (simp add: ready_def)

definition quiet :: "'m consst_scheme \<Rightarrow> bool" where
  "quiet s \<longleftrightarrow> calm s \<and> ready s \<and> (pr_locking s \<noteq> 0 \<longrightarrow> lock_free Lk_pr s)"

lemma emits_quiet: "emits bs s t \<Longrightarrow> quiet t = quiet s"
  by (simp add: quiet_def emits_calm emits_ready emits_lock_free emits_fields)

lemma printf_spec:
  assumes "quiet s"
  shows "\<exists>t. printf (Some fmt) ap s = Ret () t \<and> emits (render fmt ap 0) s t"
proof (cases "pr_locking s = 0")
  case True
  have "\<exists>t. printf_loop fmt ap 0 s = Ret () t \<and> emits (render fmt ap 0) s t"
    using assms prints_printf_loop unfolding prints_def quiet_def by blast
  then show ?thesis using True by (simp add: printf_def)
next
  case False
  let ?s = "lock_on Lk_pr s"
  have "calm ?s" "ready ?s" using assms by (simp_all add: quiet_def)
  then obtain t where t: "printf_loop fmt ap 0 ?s = Ret () t" "emits (render fmt ap 0) ?s t"
    using prints_printf_loop unfolding prints_def by blast
  then obtain u where u: "t = lock_on Lk_pr u" "emits (render fmt ap 0) s u" using emits_lock_on by blast
  have "calm u" "lock_free Lk_pr u" using u(2) assms False by (simp_all add: quiet_def emits_calm emits_lock_free)
  then show ?thesis using t(1) u assms False by (simp add: printf_def quiet_def)
qed

lemma procdump_spec:
  assumes "quiet s"
  shows "\<exists>t bs. procdump s = Ret () t \<and> emits bs s t"
proof -
  let ?I = "\<lambda>t. \<exists>bs. emits bs s t"
  obtain s1 where s1: "printf (Some [10]) no_args s = Ret () s1" "emits (render [10] no_args 0) s s1"
    using printf_spec [OF assms] by blast
  have "\<exists>t. for_each [0..<NPROC] procdump_one s1 = Ret () t \<and> ?I t"
  proof (rule for_each_inv)
    fix i t
    assume I: "?I t"
    then have q: "quiet t" using assms emits_quiet by blast
    show "\<exists>t'. procdump_one i t = Ret () t' \<and> ?I t'"
    proof (cases "pstate (procs t i) = UNUSED")
      case False
      obtain t1 where t1: "printf (Some (bytes ''%d %s %s'')) (procdump_args (procs t i)) t = Ret () t1"
        "emits (render (bytes ''%d %s %s'') (procdump_args (procs t i)) 0) t t1"
        using printf_spec [OF q] by blast
      then have "quiet t1" using q emits_quiet by blast
      then obtain t2 where "printf (Some [10]) no_args t1 = Ret () t2" "emits (render [10] no_args 0) t1 t2"
        using printf_spec by blast
      then show ?thesis using I t1 False by (auto simp: procdump_one_def dest: emits_trans)
    qed (use I in \<open>simp add: procdump_one_def\<close>)
  qed (use s1 in blast)
  then show ?thesis using s1 by (auto simp: procdump_def)
qed

text \<open>C25: \<open>printf\<close> writes the text that its format and arguments stand for to the UART, byte by byte in order,
  waiting for the device as often as needed, and leaves the rest of the state as it was, its lock free
  again. The device may be busy any number of times, as long as it becomes idle again.\<close>

theorem printf_correct:
  assumes "calm s" and "panicked s = 0" and "\<And>k. \<exists>j\<ge>k. uart_idle s j" and "pr_locking s \<noteq> 0 \<longrightarrow> lock_free Lk_pr s"
  shows "\<exists>t k. printf (Some fmt) ap s = Ret () t
    \<and> t = s\<lparr>uart_log := uart_log s @ map (Pair THR) (render fmt ap 0), uart_polls := k\<rparr>"
  using printf_spec [of s fmt ap] assms by (auto simp: quiet_def ready_def emits_def)

end
