(* ===== verification/Console.thy ===== *)
theory Console
  imports Printf
begin

unbundle bit_operations_syntax

text \<open>
  The console, \<^verbatim>\<open>kernel/console.c\<close>, and the interrupt handler of the UART, which feeds it. Input is a
  circular buffer with three indices: the bytes from \<open>c_r\<close> to \<open>c_w\<close> are complete lines, those from \<open>c_w\<close>
  to \<open>c_e\<close> are the line being edited. The theorems: an input character changes these two lists as the
  line discipline \<open>edit\<close> says, and a read returns one line, or what is asked for of it.
\<close>

subsection \<open>Operations\<close>

definition ctrl :: "char \<Rightarrow> int" where
  "ctrl x = of_char x - of_char CHR ''@''"

function consolewrite_loop :: "bool \<Rightarrow> u64 \<Rightarrow> int \<Rightarrow> int \<Rightarrow> 'm consst_scheme \<Rightarrow> (int, 'm consst_scheme) outcome" where
  "consolewrite_loop user_src src n i s =
    (if i < n then
       bnd (either_copyin (\<lambda>_. 0) 0 user_src (src + of_int i) 1 s) (\<lambda>(r, d) s.
       if r = -1 then Ret i s
       else bnd (uartputc (uint (d 0)) s) (\<lambda>_ s. consolewrite_loop user_src src n (i + 1) s))
     else Ret i s)"
  by pat_completeness auto
termination
  by (relation "measure (\<lambda>(user_src, src, n, i, s). nat (n - i))") auto

declare consolewrite_loop.simps [simp del]

definition consolewrite :: "bool \<Rightarrow> u64 \<Rightarrow> int \<Rightarrow> 'm consst_scheme \<Rightarrow> (int, 'm consst_scheme) outcome" where
  "consolewrite user_src src n s = consolewrite_loop user_src src n 0 s"

definition consolewrite_back ::
  "nat \<Rightarrow> bool \<Rightarrow> int \<Rightarrow> bool \<Rightarrow> u64 \<Rightarrow> int \<Rightarrow> int \<Rightarrow> 'm consst_scheme \<Rightarrow> (int, 'm consst_scheme) outcome" where
  "consolewrite_back p ena c user_src src n i s =
    bnd (uartputc_back p ena c s) (\<lambda>_ s. consolewrite_loop user_src src n (i + 1) s)"

definition cons_front :: "cons \<Rightarrow> u8" where
  "cons_front c = c_buf c (unat (c_r c) mod INPUT_BUF)"

definition consoleread_end :: "u32 \<Rightarrow> int \<Rightarrow> 'm consst_scheme \<Rightarrow> (int, 'm consst_scheme) outcome" where
  "consoleread_end target n s = bnd (release Lk_cons s) (\<lambda>_ s. Ret (sint (target - of_int n)) s)"

function consoleread_loop ::
  "bool \<Rightarrow> u64 \<Rightarrow> int \<Rightarrow> u32 \<Rightarrow> 'm consst_scheme \<Rightarrow> (int, 'm consst_scheme) outcome" where
  "consoleread_loop user_dst dst n target s =
    (if n > 0 then
       if c_r (cons_buf s) = c_w (cons_buf s) then
         bnd (curproc s) (\<lambda>p s.
         if killed (procs s p) \<noteq> 0 then bnd (release Lk_cons s) (\<lambda>_ s. Ret (-1) s)
         else sleep Ch_cons_r Lk_cons s)
       else
         let c = cons_front (cons_buf s); s = s\<lparr>cons_buf := (cons_buf s)\<lparr>c_r := c_r (cons_buf s) + 1\<rparr>\<rparr>
         in if uint c = ctrl CHR ''D'' then
              let s = (if (of_int n :: u32) < target
                       then s\<lparr>cons_buf := (cons_buf s)\<lparr>c_r := c_r (cons_buf s) - 1\<rparr>\<rparr> else s)
              in consoleread_end target n s
            else
              bnd (either_copyout user_dst dst (\<lambda>_. c) 1 s) (\<lambda>r s.
              if r = -1 then consoleread_end target n s
              else if c = 10 then consoleread_end target (n - 1) s
              else consoleread_loop user_dst (dst + 1) (n - 1) target s)
     else consoleread_end target n s)"
  by pat_completeness auto
termination
  by (relation "measure (\<lambda>(user_dst, dst, n, target, s). nat n)") auto

declare consoleread_loop.simps [simp del]

definition consoleread :: "bool \<Rightarrow> u64 \<Rightarrow> int \<Rightarrow> 'm consst_scheme \<Rightarrow> (int, 'm consst_scheme) outcome" where
  "consoleread user_dst dst n s =
    (let target = of_int n
     in bnd (acquire Lk_cons s) (\<lambda>_ s. consoleread_loop user_dst dst n target s))"

definition consoleread_back ::
  "nat \<Rightarrow> bool \<Rightarrow> bool \<Rightarrow> u64 \<Rightarrow> int \<Rightarrow> u32 \<Rightarrow> 'm consst_scheme \<Rightarrow> (int, 'm consst_scheme) outcome" where
  "consoleread_back p ena user_dst dst n target s =
    bnd (sleep_back p ena Lk_cons s) (\<lambda>_ s. consoleread_loop user_dst dst n target s)"

text \<open>What does not change while characters are printed: the input side.\<close>

definition input_side :: "'m consst_scheme \<Rightarrow> cons \<times> u8 list" where
  "input_side s = (cons_buf s, uart_rx s)"

lemma more_input: "machine.more t = machine.more s \<Longrightarrow> input_side t = input_side s"
  by (cases s, cases t) (simp add: input_side_def)

lemmas lock_input = acquire_more [THEN more_input] release_more [THEN more_input] wakeup_more [THEN more_input]

lemma uartputc_sync_input: "uartputc_sync c s = Ret u t \<Longrightarrow> input_side t = input_side s"
proof -
  assume "uartputc_sync c s = Ret u t"
  then obtain k where "pop_off (WriteReg THR (of_int c) ((push_off s)\<lparr>uart_polls := k + 1\<rparr>)) = Ret u t"
    by (auto simp: uartputc_sync_def Let_def simp del: push_off_consst split: if_splits option.splits)
  from pop_off_more [OF this, THEN more_input] show ?thesis by (simp add: WriteReg_def input_side_def)
qed

lemma consputc_input: "consputc c s = Ret u t \<Longrightarrow> input_side t = input_side s"
  by (auto simp: consputc_def bnd_eq_Ret dest!: uartputc_sync_input split: if_splits)

lemma for_each_input:
  assumes "\<And>i s u t. f i s = Ret u t \<Longrightarrow> input_side t = input_side s"
  shows "for_each xs f s = Ret u t \<Longrightarrow> input_side t = input_side s"
proof (induction xs arbitrary: s)
  case (Cons i xs)
  then obtain v s1 where s1: "f i s = Ret v s1" "for_each xs f s1 = Ret u t" by (auto simp: bnd_eq_Ret)
  show ?case using Cons.IH [OF s1(2)] assms [OF s1(1)] by simp
qed simp

lemma printptr_loop_input: "printptr_loop n x s = Ret u t \<Longrightarrow> input_side t = input_side s"
  by (induction n arbitrary: x s) (auto simp: bnd_eq_Ret dest!: consputc_input)

lemma print_input:
  "printint x b g s = Ret u t \<Longrightarrow> input_side t = input_side s"
  "printptr y s = Ret u t \<Longrightarrow> input_side t = input_side s"
  "puts cs s = Ret u t \<Longrightarrow> input_side t = input_side s"
proof -
  show "printint x b g s = Ret u t \<Longrightarrow> input_side t = input_side s" "puts cs s = Ret u t \<Longrightarrow> input_side t = input_side s"
    unfolding printint_def puts_def by (erule for_each_input [rotated], erule consputc_input)+
  show "printptr y s = Ret u t \<Longrightarrow> input_side t = input_side s"
    by (auto simp: printptr_def bnd_eq_Ret dest!: consputc_input printptr_loop_input)
qed

lemma printf_loop_input: "printf_loop fmt ap n s = Ret () t \<Longrightarrow> input_side t = input_side s"
proof (induction fmt arbitrary: n s rule: measure_induct_rule [where f = length])
  case (less fmt)
  show ?case
  proof (cases fmt)
    case c: (Cons c fmt1)
    have IH1: "printf_loop fmt1 ap n s = Ret () t \<Longrightarrow> input_side t = input_side s" for n s
      using less.IH [of fmt1] c by simp
    show ?thesis
    proof (cases "c = 37")
      case False
      then show ?thesis using less.prems c by (auto simp: bnd_eq_Ret dest!: consputc_input IH1)
    next
      case True
      show ?thesis
      proof (cases fmt1)
        case d: (Cons d fmt2)
        have IH2: "printf_loop fmt2 ap n s = Ret () t \<Longrightarrow> input_side t = input_side s" for n s
          using less.IH [of fmt2] c d by simp
        show ?thesis using less.prems c d True
          by (auto simp: bnd_eq_Ret dest!: consputc_input print_input IH2 split: if_splits)
      qed (use less.prems c True in simp)
    qed
  qed (use less.prems in simp)
qed

lemma printf_input: "printf fmt ap s = Ret u t \<Longrightarrow> input_side t = input_side s"
  by (auto simp: printf_def Let_def bnd_eq_Ret dest!: lock_input printf_loop_input split: if_splits option.splits)

lemma procdump_input: "procdump s = Ret u t \<Longrightarrow> input_side t = input_side s"
proof -
  have one: "procdump_one i s = Ret u t \<Longrightarrow> input_side t = input_side s" for i s u and t :: "'a consst_scheme"
    by (auto simp: procdump_one_def bnd_eq_Ret dest!: printf_input split: if_splits)
  assume "procdump s = Ret u t"
  then obtain s1 where "printf (Some [10]) no_args s = Ret () s1" "for_each [0..<NPROC] procdump_one s1 = Ret u t"
    by (auto simp: procdump_def bnd_eq_Ret)
  then show ?thesis using for_each_input [where f = procdump_one, OF one] by (simp add: printf_input)
qed

definition edit_last :: "cons \<Rightarrow> u8" where
  "edit_last c = c_buf c (unat (c_e c - 1) mod INPUT_BUF)"

definition edit_drop :: "cons \<Rightarrow> cons" where
  "edit_drop c = c\<lparr>c_e := c_e c - 1\<rparr>"

function kill_line :: "'m consst_scheme \<Rightarrow> (unit, 'm consst_scheme) outcome" where
  "kill_line s =
    (if c_e (cons_buf s) \<noteq> c_w (cons_buf s) \<and> edit_last (cons_buf s) \<noteq> 10 then
       bnd (consputc BACKSPACE (s\<lparr>cons_buf := edit_drop (cons_buf s)\<rparr>)) (\<lambda>_ s. kill_line s)
     else Ret () s)"
  by pat_completeness auto
termination
proof (relation "measure (\<lambda>s. unat (c_e (cons_buf s) - c_w (cons_buf s)))", goal_cases)
  case (2 s u t)
  then have "cons_buf t = edit_drop (cons_buf s)" by (auto dest!: consputc_input simp: input_side_def)
  moreover have nz: "c_e (cons_buf s) - c_w (cons_buf s) \<noteq> 0" using 2 by simp
  ultimately have "unat (c_e (cons_buf t) - c_w (cons_buf t)) = unat (c_e (cons_buf s) - c_w (cons_buf s) - 1)"
    by (simp add: edit_drop_def diff_diff_eq add.commute)
  then have "unat (c_e (cons_buf t) - c_w (cons_buf t)) = unat (c_e (cons_buf s) - c_w (cons_buf s)) - 1"
    by (simp only: unat_minus_one [OF nz])
  moreover have "unat (c_e (cons_buf s) - c_w (cons_buf s)) \<noteq> 0" using nz by (simp add: unat_eq_0)
  ultimately show ?case by simp
qed simp

declare kill_line.simps [simp del]

definition edit_put :: "u8 \<Rightarrow> cons \<Rightarrow> cons" where
  "edit_put b c = c\<lparr>c_buf := (c_buf c)(unat (c_e c) mod INPUT_BUF := b), c_e := c_e c + 1\<rparr>"

definition consoleintr :: "int \<Rightarrow> 'm consst_scheme \<Rightarrow> (unit, 'm consst_scheme) outcome" where
  "consoleintr c s =
    bnd (acquire Lk_cons s) (\<lambda>_ s.
    bnd (if c = ctrl CHR ''P'' then procdump s
         else if c = ctrl CHR ''U'' then kill_line s
         else if c = ctrl CHR ''H'' \<or> c = 0x7f then
           if c_e (cons_buf s) \<noteq> c_w (cons_buf s) then
             consputc BACKSPACE (s\<lparr>cons_buf := edit_drop (cons_buf s)\<rparr>)
           else Ret () s
         else if c \<noteq> 0 \<and> c_e (cons_buf s) - c_r (cons_buf s) < of_nat INPUT_BUF then
           let c = (if c = 13 then 10 else c)
           in bnd (consputc c s) (\<lambda>_ s.
              let s = s\<lparr>cons_buf := edit_put (of_int c) (cons_buf s)\<rparr>
              in if c = 10 \<or> c = ctrl CHR ''D'' \<or> c_e (cons_buf s) = c_r (cons_buf s) + of_nat INPUT_BUF then
                   wakeup Ch_cons_r (s\<lparr>cons_buf := (cons_buf s)\<lparr>c_w := c_e (cons_buf s)\<rparr>\<rparr>)
                 else Ret () s)
         else Ret () s) (\<lambda>_ s.
    release Lk_cons s))"

lemma kill_line_rx: "kill_line s = Ret u t \<Longrightarrow> uart_rx t = uart_rx s"
proof (induction s rule: kill_line.induct)
  case (1 s)
  show ?case
  proof (cases "c_e (cons_buf s) \<noteq> c_w (cons_buf s) \<and> edit_last (cons_buf s) \<noteq> 10")
    case True
    with 1(2) obtain v s1 where s1: "consputc BACKSPACE (s\<lparr>cons_buf := edit_drop (cons_buf s)\<rparr>) = Ret v s1" "kill_line s1 = Ret u t"
      by (subst (asm) kill_line.simps) (auto simp: bnd_eq_Ret)
    then show ?thesis using 1(1) [OF True s1(1) s1(2)] by (auto dest!: consputc_input simp: input_side_def)
  qed (use 1(2) in \<open>subst (asm) kill_line.simps, auto\<close>)
qed

lemma consoleintr_rx: "consoleintr c s = Ret u t \<Longrightarrow> uart_rx t = uart_rx s"
  by (auto simp: consoleintr_def bnd_eq_Ret Let_def input_side_def
      dest!: lock_input consputc_input procdump_input kill_line_rx split: if_splits)

text \<open>The loop of \<open>uartintr\<close> over the bytes that have arrived.\<close>

function uartintr_loop :: "'m consst_scheme \<Rightarrow> (unit, 'm consst_scheme) outcome" where
  "uartintr_loop s =
    (let (c, s) = uartgetc s
     in if c = -1 then Ret () s else bnd (consoleintr c s) (\<lambda>_ s. uartintr_loop s))"
  by pat_completeness auto
termination
  by (relation "measure (\<lambda>s. length (uart_rx s))")
    (auto simp: uartgetc_def dest!: consoleintr_rx split: list.splits)

declare uartintr_loop.simps [simp del]

definition uartintr :: "'m consst_scheme \<Rightarrow> (unit, 'm consst_scheme) outcome" where
  "uartintr s =
    bnd (uartintr_loop s) (\<lambda>_ s.
    bnd (acquire Lk_uart s) (\<lambda>_ s.
    bnd (uartstart s) (\<lambda>_ s. release Lk_uart s)))"

definition CONSOLE :: int where "CONSOLE = 1"

definition consoleinit :: "'m consst_scheme \<Rightarrow> 'm consst_scheme" where
  "consoleinit s =
    (let s = uartinit (initlock Lk_cons ''cons'' s)
     in s\<lparr>devsw_read := (devsw_read s)(CONSOLE := Some Fn_consoleread),
          devsw_write := (devsw_write s)(CONSOLE := Some Fn_consolewrite)\<rparr>)"

subsection \<open>The line discipline\<close>

definition cons_done :: "cons \<Rightarrow> u8 list" where
  "cons_done c = ring_items INPUT_BUF (c_buf c) (c_r c) (c_w c)"

definition cons_edit :: "cons \<Rightarrow> u8 list" where
  "cons_edit c = ring_items INPUT_BUF (c_buf c) (c_w c) (c_e c)"

definition cons_ok :: "cons \<Rightarrow> bool" where
  "cons_ok c \<longleftrightarrow> length (cons_done c) + length (cons_edit c) \<le> INPUT_BUF \<and> 10 \<notin> set (cons_edit c)"

definition edit :: "u8 \<Rightarrow> u8 list \<times> u8 list \<Rightarrow> u8 list \<times> u8 list" where
  "edit c q = (case q of (ls, l) \<Rightarrow>
    if c = 16 then (ls, l)
    else if c = 21 then (ls, [])
    else if c = 8 \<or> c = 127 then (ls, butlast l)
    else if c = 0 \<or> length ls + length l \<ge> INPUT_BUF then (ls, l)
    else
      let c = (if c = 13 then 10 else c)
      in if c = 10 \<or> c = 4 \<or> length ls + length l + 1 = INPUT_BUF then (ls @ l @ [c], []) else (ls, l @ [c]))"

lemma cons_dvd: "INPUT_BUF dvd 2 ^ LENGTH(32)" "INPUT_BUF < 2 ^ LENGTH(32)"
  by (simp_all add: INPUT_BUF_def)

lemma cons_okD: "cons_ok c \<Longrightarrow> length (cons_done c) + length (cons_edit c) \<le> INPUT_BUF"
  by (simp add: cons_ok_def)

lemma cons_count:
  assumes "length (cons_done c) + length (cons_edit c) \<le> INPUT_BUF"
  shows "unat (c_e c - c_r c) = length (cons_done c) + length (cons_edit c)"
    and "ring_items INPUT_BUF (c_buf c) (c_r c) (c_e c) = cons_done c @ cons_edit c"
proof -
  have "unat (c_w c - c_r c) + unat (c_e c - c_w c) < 2 ^ LENGTH(32)"
    using assms cons_dvd(2) by (simp add: cons_done_def cons_edit_def)
  note r = ring_append [OF cons_dvd(1) this]
  then show "unat (c_e c - c_r c) = length (cons_done c) + length (cons_edit c)"
    "ring_items INPUT_BUF (c_buf c) (c_r c) (c_e c) = cons_done c @ cons_edit c"
    by (simp_all add: cons_done_def cons_edit_def)
qed

lemma edit_drop_spec:
  assumes "cons_ok c" and "c_e c \<noteq> c_w c"
  shows "cons_done (edit_drop c) = cons_done c" and "cons_edit c = cons_edit (edit_drop c) @ [edit_last c]"
    and "cons_ok (edit_drop c)" and "c_w (edit_drop c) = c_w c"
proof -
  show d: "cons_done (edit_drop c) = cons_done c" "c_w (edit_drop c) = c_w c" by (simp_all add: cons_done_def edit_drop_def)
  show e: "cons_edit c = cons_edit (edit_drop c) @ [edit_last c]"
    using ring_unput(1) [OF cons_dvd(1) assms(2), of "c_buf c"] by (simp add: cons_edit_def edit_drop_def edit_last_def)
  show "cons_ok (edit_drop c)" using assms(1) unfolding cons_ok_def d e by simp
qed

lemma edit_put_spec:
  assumes "cons_ok c" and "length (cons_done c) + length (cons_edit c) < INPUT_BUF"
  shows "cons_done (edit_put b c) = cons_done c" and "cons_edit (edit_put b c) = cons_edit c @ [b]"
    and "unat (c_e (edit_put b c) - c_r (edit_put b c)) = length (cons_done c) + length (cons_edit c) + 1"
proof -
  let ?c = "edit_put b c"
  note n = cons_count [OF cons_okD [OF assms(1)]]
  have lt: "unat (c_e c - c_r c) < INPUT_BUF" using n assms(2) by simp
  note put = ring_put(1) [OF cons_dvd lt, where d = "c_buf c" and b = b] ring_put(2) [OF cons_dvd lt]
  have f: "c_r ?c = c_r c" "c_w ?c = c_w c" "c_e ?c = c_e c + 1" "c_buf ?c = (c_buf c)(unat (c_e c) mod INPUT_BUF := b)"
    by (simp_all add: edit_put_def)
  show "unat (c_e ?c - c_r ?c) = length (cons_done c) + length (cons_edit c) + 1" using put(2) n(1) f by simp
  have e: "unat (c_e c - c_w c) = length (cons_edit c)" "unat (c_w c - c_r c) = length (cons_done c)"
    by (simp_all add: cons_edit_def cons_done_def)
  have e1: "unat (c_e c + 1 - c_w c) = Suc (unat (c_e c - c_w c))"
    using e assms(2) cons_dvd(2) by (intro unat_diff_Suc) linarith
  have "unat (c_w c - c_r c) + unat (c_e c + 1 - c_w c) < 2 ^ LENGTH(32)"
    using e e1 assms(2) cons_dvd(2) by linarith
  from ring_append(1) [OF cons_dvd(1) this, of "c_buf ?c"] put(1) n(2)
  have "cons_done ?c @ cons_edit ?c = cons_done c @ cons_edit c @ [b]"
    by (simp add: cons_done_def cons_edit_def f)
  moreover have "length (cons_done ?c) = length (cons_done c)" by (simp add: cons_done_def f)
  ultimately show "cons_done ?c = cons_done c" "cons_edit ?c = cons_edit c @ [b]" by simp_all
qed

lemma kill_line_spec:
  assumes "calm s" and "ready s" and "cons_ok (cons_buf s)"
  shows "\<exists>t bs. kill_line s = Ret () t \<and> emits bs (s\<lparr>cons_buf := (cons_buf s)\<lparr>c_e := c_w (cons_buf s)\<rparr>\<rparr>) t"
  using assms
proof (induction s rule: kill_line.induct)
  case (1 s)
  let ?c = "cons_buf s" and ?s = "s\<lparr>cons_buf := edit_drop (cons_buf s)\<rparr>"
  show ?case
  proof (cases "c_e ?c = c_w ?c")
    case True
    have "(?c\<lparr>c_e := c_w ?c\<rparr>) = ?c" using True by (intro cons.equality) simp_all
    then have "s\<lparr>cons_buf := ?c\<lparr>c_e := c_w ?c\<rparr>\<rparr> = s" by simp
    moreover have "kill_line s = Ret () s" using True by (subst kill_line.simps) simp
    ultimately show ?thesis by (metis emits_Nil)
  next
    case False
    note d = edit_drop_spec [OF 1(4) False]
    have nl: "edit_last ?c \<noteq> 10" using 1(4) d(2) by (auto simp: cons_ok_def)
    have "calm ?s" "ready ?s" using 1(2,3) by (simp_all add: ready_def)
    then obtain s1 where s1: "consputc BACKSPACE ?s = Ret () s1" "emits [8, 32, 8] ?s s1"
      using prints_backspace unfolding prints_def by blast
    have c1: "cons_buf s1 = edit_drop ?c" using emits_fields(2) [OF s1(2)] by simp
    have "calm s1" "ready s1" "cons_ok (cons_buf s1)"
      using emits_calm [OF s1(2)] emits_ready [OF s1(2)] \<open>calm ?s\<close> \<open>ready ?s\<close> c1 d(3) by simp_all
    then obtain t bs where t: "kill_line s1 = Ret () t" "emits bs (s1\<lparr>cons_buf := (cons_buf s1)\<lparr>c_e := c_w (cons_buf s1)\<rparr>\<rparr>) t"
      using 1(1) [of "()" s1] s1(1) False nl by blast
    have "kill_line s = Ret () t" using False nl s1(1) t(1) by (subst kill_line.simps) simp
    moreover have "emits [8, 32, 8] (s\<lparr>cons_buf := ?c\<lparr>c_e := c_w ?c\<rparr>\<rparr>) (s1\<lparr>cons_buf := (cons_buf s1)\<lparr>c_e := c_w (cons_buf s1)\<rparr>\<rparr>)"
      using s1(2) by (auto simp: emits_def edit_drop_def)
    ultimately show ?thesis using t(2) emits_trans by blast
  qed
qed

lemma ctrl_codes [simp]: "ctrl CHR ''P'' = 16" "ctrl CHR ''U'' = 21" "ctrl CHR ''H'' = 8" "ctrl CHR ''D'' = 4"
  by (simp_all add: ctrl_def)

lemma uint_u8_codes [simp]: "uint (b :: u8) = 16 \<longleftrightarrow> b = 16" "uint b = 21 \<longleftrightarrow> b = 21" "uint b = 8 \<longleftrightarrow> b = 8"
  "uint b = 127 \<longleftrightarrow> b = 127" "uint b = 4 \<longleftrightarrow> b = 4" "uint b = 10 \<longleftrightarrow> b = 10" "uint b = 13 \<longleftrightarrow> b = 13"
  by (simp_all add: word_uint_eq_iff)

text \<open>What an input character leaves to be done after the echo: the line state and the wakeup.\<close>

definition line_step :: "u8 \<Rightarrow> 'm consst_scheme \<Rightarrow> 'm consst_scheme \<Rightarrow> bool" where
  "line_step b s t \<longleftrightarrow> cons_ok (cons_buf t)
     \<and> (cons_done (cons_buf t), cons_edit (cons_buf t)) = edit b (cons_done (cons_buf s), cons_edit (cons_buf s))
     \<and> procs t = (if cons_done (cons_buf t) = cons_done (cons_buf s) then procs s
                  else wake_procs Ch_cons_r (cur s) (procs s))
     \<and> (\<exists>echo. uart_log t = uart_log s @ map (Pair THR) echo)"

lemma ready_cons [simp]: "ready (s\<lparr>cons_buf := c\<rparr>) = ready s" "ready (s\<lparr>procs := x\<rparr>) = ready s"
  by (simp_all add: ready_def)

text \<open>The state in which the interrupt handler runs: none of the locks it takes is held on this hart or
  elsewhere.\<close>

definition irq_ready :: "'m consst_scheme \<Rightarrow> bool" where
  "irq_ready s \<longleftrightarrow> calm s \<and> ready s \<and> procs_unlocked s \<and> lock_free Lk_cons s \<and> lock_free Lk_uart s
     \<and> (pr_locking s \<noteq> 0 \<longrightarrow> lock_free Lk_pr s) \<and> tx_ok (uart_txq s)"

lemma irq_ready_cons [simp]: "irq_ready (s\<lparr>cons_buf := c\<rparr>) = irq_ready s" "irq_ready (s\<lparr>procs := x\<rparr>) = irq_ready s"
  by (simp_all add: irq_ready_def procs_unlocked_def)

lemma irq_body:
  assumes "irq_ready s" and "emits bs (s\<lparr>cons_buf := c\<rparr>) u"
  shows "calm u" "ready u" "procs_unlocked u" "lock_free Lk_cons u" "cons_buf u = c" "procs u = procs s"
    "uart_log u = uart_log s @ map (Pair THR) bs" "cur u = cur s" "irq_ready u"
  using assms emits_fields [OF assms(2)]
  by (simp_all add: irq_ready_def emits_calm emits_ready emits_lock_free)

lemma consoleintr_spec:
  assumes s: "irq_ready s" and ok: "cons_ok (cons_buf s)"
  shows "\<exists>t. consoleintr (uint b) s = Ret () t \<and> line_step b s t \<and> irq_ready t"
proof -
  let ?c = "cons_buf s" and ?l = "lock_on Lk_cons s"
  have c: "calm s" "ready s" "lock_free Lk_cons s" "procs_unlocked s" using s by (simp_all add: irq_ready_def)
  have same: "s\<lparr>cons_buf := ?c\<rparr> = s" by simp
  consider (list) "b = 16" | (kill) "b = 21" | (erase) "b = 8 \<or> b = 127"
    | (drop) "b \<notin> {16, 21, 8, 127}" "b = 0 \<or> length (cons_done ?c) + length (cons_edit ?c) \<ge> INPUT_BUF"
    | (add) "b \<notin> {16, 21, 8, 127}" "b \<noteq> 0" "length (cons_done ?c) + length (cons_edit ?c) < INPUT_BUF"
    by fastforce
  then show ?thesis
  proof cases
    case list
    have "quiet ?l" using s by (simp add: irq_ready_def quiet_def)
    then obtain t bs where "procdump ?l = Ret () t" "emits bs ?l t" using procdump_spec by blast
    then obtain u where u: "procdump ?l = Ret () (lock_on Lk_cons u)" "emits bs s u" using emits_lock_on by blast
    note f = irq_body [OF s, of bs ?c u, unfolded same, OF u(2)]
    have "line_step b s u" using f ok list by (auto simp: line_step_def edit_def)
    then show ?thesis using c list u(1) f by (simp add: consoleintr_def)
  next
    case kill
    have "calm ?l" "ready ?l" "cons_ok (cons_buf ?l)" using c ok by simp_all
    from kill_line_spec [OF this] obtain t bs where t: "kill_line ?l = Ret () t"
      "emits bs (lock_on Lk_cons (s\<lparr>cons_buf := ?c\<lparr>c_e := c_w ?c\<rparr>\<rparr>)) t" by auto
    from emits_lock_on [OF t(2)] obtain u where u: "t = lock_on Lk_cons u" "emits bs (s\<lparr>cons_buf := ?c\<lparr>c_e := c_w ?c\<rparr>\<rparr>) u" by blast
    note f = irq_body [OF s u(2)]
    have "cons_done (?c\<lparr>c_e := c_w ?c\<rparr>) = cons_done ?c" "cons_edit (?c\<lparr>c_e := c_w ?c\<rparr>) = []"
      by (simp_all add: cons_done_def cons_edit_def ring_Nil)
    then have "line_step b s u" using f ok kill by (auto simp: line_step_def edit_def cons_ok_def)
    then show ?thesis using c kill t(1) u(1) f by (simp add: consoleintr_def)
  next
    case erase
    show ?thesis
    proof (cases "c_e ?c = c_w ?c")
      case True
      then have "cons_edit ?c = []" by (simp add: cons_edit_def ring_Nil)
      then have "line_step b s s" using ok erase by (auto simp: line_step_def edit_def)
      then show ?thesis using s c erase True by (auto simp: consoleintr_def)
    next
      case False
      note d = edit_drop_spec [OF ok False]
      let ?s = "s\<lparr>cons_buf := edit_drop ?c\<rparr>"
      have "calm (lock_on Lk_cons ?s)" "ready (lock_on Lk_cons ?s)" using c by (simp_all add: ready_def)
      then obtain t where t: "consputc BACKSPACE (lock_on Lk_cons ?s) = Ret () t" "emits [8, 32, 8] (lock_on Lk_cons ?s) t"
        using prints_backspace unfolding prints_def by blast
      from emits_lock_on [OF t(2)] obtain u where u: "t = lock_on Lk_cons u" "emits [8, 32, 8] ?s u" by blast
      note f = irq_body [OF s u(2)]
      have "\<exists>echo. uart_log u = uart_log s @ map (Pair THR) echo" using f(7) by blast
      then have "line_step b s u" unfolding line_step_def using f(5,6) d erase by (auto simp: edit_def)
      then show ?thesis using c erase t(1) u(1) f False by (auto simp: consoleintr_def)
    qed
  next
    case drop
    have "\<not> (uint b \<noteq> 0 \<and> c_e ?c - c_r ?c < of_nat INPUT_BUF)"
      using drop cons_count(1) [OF cons_okD [OF ok]] by (auto simp: word_less_nat_alt INPUT_BUF_def unsigned_eq_0_iff)
    moreover have "line_step b s s" using drop ok by (auto simp: line_step_def edit_def)
    ultimately show ?thesis using s c drop by (auto simp: consoleintr_def)
  next
    case add
    let ?b = "if b = 13 then 10 else b :: u8"
    let ?i = "if uint b = 13 then 10 else uint b"
    have i: "of_int ?i = ?b" "?i = 10 \<longleftrightarrow> ?b = 10" "?i = 4 \<longleftrightarrow> ?b = 4" "?i = uint ?b" by simp_all
    have room: "uint b \<noteq> 0 \<and> c_e ?c - c_r ?c < of_nat INPUT_BUF"
      using add cons_count(1) [OF cons_okD [OF ok]] by (simp add: word_less_nat_alt INPUT_BUF_def unsigned_eq_0_iff)
    have "calm ?l" "ready ?l" using c by simp_all
    then obtain t where t: "consputc (uint ?b) ?l = Ret () t" "emits [?b] ?l t"
      using prints_byte unfolding prints_def by blast
    from emits_lock_on [OF t(2)] obtain u where u: "t = lock_on Lk_cons u" "emits [?b] s u" by blast
    note f = irq_body [OF s, of "[?b]" ?c u, unfolded same, OF u(2)]
    define c1 where "c1 = edit_put ?b ?c"
    note e = edit_put_spec [OF ok add(3), of ?b, folded c1_def]
    have full: "c_e c1 = c_r c1 + of_nat INPUT_BUF \<longleftrightarrow> length (cons_done ?c) + length (cons_edit ?c) + 1 = INPUT_BUF"
      using ring_full [OF cons_dvd(2), of "c_e c1" "c_r c1"] e(3) by simp
    have e1: "length (cons_done c1) + length (cons_edit c1) \<le> INPUT_BUF" using e(1,2) add(3) by simp
    have cd: "cons_done (c1\<lparr>c_w := c_e c1\<rparr>) = cons_done ?c @ cons_edit ?c @ [?b]" "cons_edit (c1\<lparr>c_w := c_e c1\<rparr>) = []"
      using cons_count(2) [OF e1] e(1,2) by (simp_all add: cons_done_def cons_edit_def ring_Nil)
    have ec: "\<exists>echo. uart_log u = uart_log s @ map (Pair THR) echo" using f(7) by blast
    let ?u = "u\<lparr>cons_buf := c1\<rparr>"
    let ?fl = "?b = 10 \<or> ?b = 4 \<or> length (cons_done ?c) + length (cons_edit ?c) + 1 = INPUT_BUF"
    have run: "consoleintr (uint b) s = bnd (if ?fl then wakeup Ch_cons_r (lock_on Lk_cons (u\<lparr>cons_buf := c1\<lparr>c_w := c_e c1\<rparr>\<rparr>))
        else Ret () (lock_on Lk_cons ?u)) (\<lambda>_ s. release Lk_cons s)"
      using c add(1) room t(1) u(1) f(5) i full
      by (simp add: consoleintr_def Let_def c1_def del: if_split cong: if_cong)
    show ?thesis
    proof (cases ?fl)
      case True
      let ?w = "u\<lparr>procs := wake_procs Ch_cons_r (cur s) (procs s), cons_buf := c1\<lparr>c_w := c_e c1\<rparr>\<rparr>"
      have "consoleintr (uint b) s = Ret () ?w"
        using run True f(1,3,4,6,8) by (simp add: procs_unlocked_def)
      moreover have "line_step b s ?w"
        using True add cd e1 e(1,2) ec by (auto simp: line_step_def edit_def Let_def cons_ok_def)
      moreover have "irq_ready ?w" using f(9) by simp
      ultimately show ?thesis by blast
    next
      case False
      have "consoleintr (uint b) s = Ret () ?u" using run False f(1,4) by simp
      moreover have "line_step b s ?u"
        using False add e1 e(1,2) f(6) ec ok by (auto simp: line_step_def edit_def Let_def cons_ok_def)
      moreover have "irq_ready ?u" using f(9) by simp
      ultimately show ?thesis by blast
    qed
  qed
qed

text \<open>C26: one character typed at the console. The handler changes the completed lines and the line being
  edited as \<open>edit\<close> says (erase, kill, end of line and end of file, a full buffer; other characters when the
  buffer is full are dropped), and wakes the readers exactly when a line is completed. The echo goes to
  the UART after what was written before.\<close>

theorem consoleintr_correct:
  assumes "irq_ready s" and "cons_ok (cons_buf s)"
  shows "\<exists>t. consoleintr (uint b) s = Ret () t \<and> line_step b s t"
  using consoleintr_spec [OF assms] by blast

lemma uartintr_loop_spec:
  assumes "irq_ready s" and "cons_ok (cons_buf s)"
  shows "\<exists>t. uartintr_loop s = Ret () t \<and> irq_ready t \<and> cons_ok (cons_buf t) \<and> uart_rx t = []
    \<and> (cons_done (cons_buf t), cons_edit (cons_buf t))
        = fold edit (uart_rx s) (cons_done (cons_buf s), cons_edit (cons_buf s))"
  using assms
proof (induction "uart_rx s" arbitrary: s)
  case Nil
  then show ?case by (subst uartintr_loop.simps) (simp add: uartgetc_def)
next
  case (Cons b bs)
  let ?s = "s\<lparr>uart_rx := bs\<rparr>"
  have "irq_ready ?s" "cons_ok (cons_buf ?s)" using Cons.prems by (simp_all add: irq_ready_def ready_def procs_unlocked_def)
  from consoleintr_spec [OF this, of b] obtain t where t: "consoleintr (uint b) ?s = Ret () t" "line_step b ?s t" "irq_ready t" by blast
  have rx: "uart_rx t = bs" using consoleintr_rx [OF t(1)] by simp
  have "0 \<le> uint b" by simp
  then have nb: "uint b \<noteq> -1" by linarith
  have "uartintr_loop s = uartintr_loop t"
    using nb Cons.hyps(2) t(1) by (subst uartintr_loop.simps) (simp add: uartgetc_def flip: Cons.hyps(2))
  moreover have "cons_ok (cons_buf t)"
    "(cons_done (cons_buf t), cons_edit (cons_buf t)) = edit b (cons_done (cons_buf s), cons_edit (cons_buf s))"
    using t(2) by (simp_all add: line_step_def)
  moreover note Cons.hyps(1) [OF rx [symmetric] t(3)]
  ultimately show ?case using rx by (simp flip: Cons.hyps(2))
qed


subsection \<open>Reading a line\<close>

text \<open>What a read of at most \<open>n\<close> bytes takes from the completed input: at most a line, the end-of-file
  character not included (a first one is used up, a later one stays). \<open>None\<close>: it has to wait.\<close>

fun take_line :: "bool \<Rightarrow> nat \<Rightarrow> u8 list \<Rightarrow> (u8 list \<times> u8 list) option" where
  "take_line start 0 q = Some ([], q)"
| "take_line start (Suc n) [] = None"
| "take_line start (Suc n) (c # q) =
    (if c = 4 then Some ([], if start then q else c # q)
     else if c = 10 then Some ([10], q)
     else map_option (\<lambda>(a, r). (c # a, r)) (take_line False n q))"

definition uput :: "u64 \<Rightarrow> u64 \<Rightarrow> u8 list \<Rightarrow> mem \<Rightarrow> mem \<Rightarrow> bool" where
  "uput pt a bs m m' \<longleftrightarrow> (\<forall>va. umem m' pt va =
    (if unat (va - a) < length bs then Some (bs ! unat (va - a)) else umem m pt va))"

lemma uput_Nil [simp]: "uput pt a [] m m"
  by (simp add: uput_def)

lemma uput_Cons:
  assumes "\<And>va. umem m1 pt va = (if va = a then Some b else umem m pt va)" and "uput pt (a + 1) bs m1 m2"
    and "length bs < 2 ^ 64 - 1"
  shows "uput pt a (b # bs) m m2"
  unfolding uput_def
proof
  fix va
  show "umem m2 pt va = (if unat (va - a) < length (b # bs) then Some ((b # bs) ! unat (va - a)) else umem m pt va)"
  proof (cases "va = a")
    case True
    have "unat (va - (a + 1)) = unat (-1 :: u64)" using True by simp
    moreover have "length bs < unat (-1 :: u64)" using assms(3) by (simp add: unsigned_minus_1_eq_mask mask_eq_exp_minus_1)
    ultimately have "umem m2 pt va = umem m1 pt va" using assms(2) by (simp add: uput_def)
    then show ?thesis using assms(1) True by simp
  next
    case False
    then have nz: "va - a \<noteq> 0" by simp
    have e: "va - (a + 1) = va - a - 1" by simp
    have "unat (va - (a + 1)) = unat (va - a) - 1" unfolding e using nz by (rule unat_minus_one)
    moreover have "0 < unat (va - a)" using nz by (simp add: unat_gt_0)
    ultimately show ?thesis using assms(1,2) False by (auto simp: uput_def nth_Cons')
  qed
qed

lemma take_line_length: "take_line st n q = Some (bs, r) \<Longrightarrow> length bs \<le> n"
  by (induction st n q arbitrary: bs rule: take_line.induct) (auto split: if_splits)

lemma cons_pop:
  assumes "c_r c \<noteq> c_w c"
  shows "cons_done c = cons_front c # cons_done (c\<lparr>c_r := c_r c + 1\<rparr>)"
  using ring_pop(1) [OF cons_dvd(1) assms, of "c_buf c"] by (simp add: cons_done_def cons_front_def)

lemma sint_small: "0 \<le> k \<Longrightarrow> k < 2 ^ 31 \<Longrightarrow> sint (of_int k :: u32) = k"
  by (simp add: signed_of_int signed_take_bit_int_eq_self)

lemma either_copyout_byte:
  assumes "world p s" and "uspace (pmem s) (pagetable (procs s p))" and "umem (pmem s) (pagetable (procs s p)) a \<noteq> None"
  shows "\<exists>m. either_copyout True a (\<lambda>_. ch) 1 (lock_on l s) = Ret 0 (lock_on l (s\<lparr>pmem := m\<rparr>)) \<and> uspace m (pagetable (procs s p))
    \<and> (\<forall>va. umem m (pagetable (procs s p)) va = (if va = a then Some ch else umem (pmem s) (pagetable (procs s p)) va))"
proof -
  have c: "calm (lock_on l s)" "cur (lock_on l s) = Some p" using worldD [OF assms(1)] by simp_all
  have "uspace (pmem (lock_on l s)) (pagetable (procs s p))" "umem (pmem (lock_on l s)) (pagetable (procs s p)) a \<noteq> None"
    using assms(2,3) by simp_all
  from copyout_byte [OF this, of ch] show ?thesis using c by (auto simp: either_copyout_def)
qed

lemma consoleread_loop_spec:
  assumes "world p s" and "uspace (pmem s) (pagetable (procs s p))"
    and "\<And>k. k < nat n \<Longrightarrow> umem (pmem s) (pagetable (procs s p)) (dst + of_nat k) \<noteq> None"
    and "take_line (n = N) (nat n) (cons_done (cons_buf s)) = Some (bs, rest)" and "0 \<le> n" and "n \<le> N" and "N < 2 ^ 31"
  shows "\<exists>M r. consoleread_loop True dst n (of_int N) (lock_on Lk_cons s)
      = Ret (N - n + int (length bs)) (s\<lparr>pmem := M, cons_buf := (cons_buf s)\<lparr>c_r := r\<rparr>\<rparr>)
    \<and> cons_done ((cons_buf s)\<lparr>c_r := r\<rparr>) = rest \<and> uput (pagetable (procs s p)) dst bs (pmem s) M"
  using assms
proof (induction "nat n" arbitrary: n dst s bs)
  case 0
  then have z: "n = 0" "bs = []" "cons_done (cons_buf s) = rest" by simp_all
  have "consoleread_end (of_int N) 0 (lock_on Lk_cons s) = Ret N s"
    using worldD [OF 0(2)] 0(8,7) z sint_small [of N] by (simp add: consoleread_end_def)
  then have "consoleread_loop True dst n (of_int N) (lock_on Lk_cons s) = Ret N s"
    using z by (subst consoleread_loop.simps) simp
  then show ?case using z by (intro exI [of _ "pmem s"] exI [of _ "c_r (cons_buf s)"]) simp
next
  case (Suc k)
  let ?c = "cons_buf s" and ?pt = "pagetable (procs s p)"
  note w = worldD [OF Suc.prems(1)]
  have n: "0 < n" "nat n = Suc k" "k = nat (n - 1)" using Suc(2) by auto
  have ne: "c_r ?c \<noteq> c_w ?c"
  proof
    assume "c_r ?c = c_w ?c"
    then have "cons_done ?c = []" by (simp add: cons_done_def ring_Nil)
    then show False using Suc.prems(4) n by simp
  qed
  let ?b = "cons_front ?c" and ?c1 = "?c\<lparr>c_r := c_r ?c + 1\<rparr>"
  note pop = cons_pop [OF ne]
  have tl: "take_line (n = N) (Suc k) (?b # cons_done ?c1) = Some (bs, rest)"
    using Suc.prems(4) pop n(2) by simp
  have fin: "consoleread_end (of_int N) m (lock_on Lk_cons (s\<lparr>pmem := M, cons_buf := x\<rparr>))
      = Ret (N - m) (s\<lparr>pmem := M, cons_buf := x\<rparr>)" if "0 \<le> m" "m \<le> N" for m M x
  proof -
    have "(of_int N - of_int m :: u32) = of_int (N - m)" by simp
    then show ?thesis using w that Suc.prems(7) sint_small [of "N - m"] by (simp add: consoleread_end_def)
  qed
  show ?case
  proof (cases "?b = 4")
    case True
    have lt: "(of_int n :: u32) < of_int N \<longleftrightarrow> n \<noteq> N"
      using Suc.prems(5-7) by (auto simp: word_less_def uint_word_of_int)
    let ?c2 = "if n \<noteq> N then ?c else ?c1"
    have "?c1\<lparr>c_r := c_r ?c + 1 - 1\<rparr> = ?c" by (intro cons.equality) simp_all
    then have "consoleread_loop True dst n (of_int N) (lock_on Lk_cons s)
        = consoleread_end (of_int N) n (lock_on Lk_cons (s\<lparr>pmem := pmem s, cons_buf := ?c2\<rparr>))"
      using n ne True lt by (subst consoleread_loop.simps) (simp add: Let_def)
    also have "\<dots> = Ret (N - n) (s\<lparr>pmem := pmem s, cons_buf := ?c2\<rparr>)" using Suc.prems(5,6) by (intro fin)
    finally have r: "consoleread_loop True dst n (of_int N) (lock_on Lk_cons s) = Ret (N - n) (s\<lparr>pmem := pmem s, cons_buf := ?c2\<rparr>)" .
    have "?c2 = ?c\<lparr>c_r := if n \<noteq> N then c_r ?c else c_r ?c + 1\<rparr>" by simp
    moreover have "bs = []" "cons_done ?c2 = rest" using tl True pop by (auto split: if_splits)
    ultimately show ?thesis using r by (intro exI [of _ "pmem s"] exI [of _ "if n \<noteq> N then c_r ?c else c_r ?c + 1"])
        (auto split: if_splits)
  next
    case False
    have m0: "umem (pmem s) ?pt dst \<noteq> None" using Suc.prems(3) [of 0] n by simp
    let ?s1 = "s\<lparr>cons_buf := ?c1\<rparr>"
    have "world p ?s1" using Suc.prems(1) by (simp add: world_def)
    from either_copyout_byte [OF this, of dst ?b Lk_cons]
    obtain M1 where M1: "either_copyout True dst (\<lambda>_. ?b) 1 (lock_on Lk_cons ?s1) = Ret 0 (lock_on Lk_cons (?s1\<lparr>pmem := M1\<rparr>))"
      "uspace M1 ?pt" "\<And>va. umem M1 ?pt va = (if va = dst then Some ?b else umem (pmem s) ?pt va)"
      using Suc.prems(2) m0 by auto
    let ?s2 = "s\<lparr>pmem := M1, cons_buf := ?c1\<rparr>"
    have s2: "?s1\<lparr>pmem := M1\<rparr> = ?s2" by simp
    have run: "consoleread_loop True dst n (of_int N) (lock_on Lk_cons s)
      = (if ?b = 10 then consoleread_end (of_int N) (n - 1) (lock_on Lk_cons ?s2)
         else consoleread_loop True (dst + 1) (n - 1) (of_int N) (lock_on Lk_cons ?s2))"
      using n ne False M1(1) [unfolded s2] by (subst consoleread_loop.simps) (simp add: Let_def)
    show ?thesis
    proof (cases "?b = 10")
      case True
      then have b: "bs = [10]" "cons_done ?c1 = rest" using tl by simp_all
      have "uput ?pt dst [10] (pmem s) M1" using M1(3) True by (intro uput_Cons [OF _ uput_Nil]) simp_all
      then show ?thesis using run True b fin [where m = "n - 1" and M = M1 and x = ?c1] n(1) Suc.prems(6)
        by (intro exI [of _ M1] exI [of _ "c_r ?c + 1"]) simp
    next
      case nl: False
      obtain bs' where bs: "take_line False k (cons_done ?c1) = Some (bs', rest)" "bs = ?b # bs'"
        using tl False nl by auto
      have "world p ?s2" using Suc.prems(1) by (simp add: world_def)
      moreover have "uspace (pmem ?s2) (pagetable (procs ?s2 p))" using M1(2) by simp
      moreover have "umem (pmem ?s2) (pagetable (procs ?s2 p)) (dst + 1 + of_nat j) \<noteq> None" if "j < nat (n - 1)" for j
        using Suc.prems(3) [of "Suc j"] M1(3) that n by (auto simp: add.assoc)
      moreover have "take_line (n - 1 = N) (nat (n - 1)) (cons_done (cons_buf ?s2)) = Some (bs', rest)"
        using bs(1) n Suc.prems(6) by simp
      ultimately have "\<exists>M r. consoleread_loop True (dst + 1) (n - 1) (of_int N) (lock_on Lk_cons ?s2)
          = Ret (N - (n - 1) + int (length bs')) (?s2\<lparr>pmem := M, cons_buf := (cons_buf ?s2)\<lparr>c_r := r\<rparr>\<rparr>)
        \<and> cons_done ((cons_buf ?s2)\<lparr>c_r := r\<rparr>) = rest \<and> uput (pagetable (procs ?s2 p)) (dst + 1) bs' (pmem ?s2) M"
        using n(1) Suc.prems(6,7) by (intro Suc.hyps(1) [OF n(3)]) auto
      then obtain M r where M: "consoleread_loop True (dst + 1) (n - 1) (of_int N) (lock_on Lk_cons ?s2)
          = Ret (N - (n - 1) + int (length bs')) (s\<lparr>pmem := M, cons_buf := ?c\<lparr>c_r := r\<rparr>\<rparr>)"
        "cons_done (?c\<lparr>c_r := r\<rparr>) = rest" "uput ?pt (dst + 1) bs' M1 M" by auto
      have "length bs' < 2 ^ 64 - 1" using take_line_length [OF bs(1)] n Suc.prems(6,7) by simp
      then have "uput ?pt dst bs (pmem s) M" unfolding bs(2) using M1(3) M(3) by (intro uput_Cons)
      then show ?thesis using run nl M bs(2) by (intro exI [of _ M] exI [of _ r]) simp
    qed
  qed
qed

text \<open>C28: a read from the console by a process, when a line (or what is asked for of it) is there: the bytes are
  stored in order at the process's address and nothing else of its memory changes, the return value is
  their number, and the rest of the input stays. A \<^verbatim>\<open>^D\<close> ends the read; at its start it is the end of file
  and is used up, after other bytes it stays for the next read.\<close>

theorem consoleread_correct:
  assumes "world p s" and "uspace (pmem s) (pagetable (procs s p))" and "0 \<le> n" and "n < 2 ^ 31"
    and "\<And>k. k < nat n \<Longrightarrow> umem (pmem s) (pagetable (procs s p)) (dst + of_nat k) \<noteq> None"
    and "take_line True (nat n) (cons_done (cons_buf s)) = Some (bs, rest)"
  shows "\<exists>t. consoleread True dst n s = Ret (int (length bs)) t \<and> cons_done (cons_buf t) = rest
    \<and> cons_edit (cons_buf t) = cons_edit (cons_buf s)
    \<and> (\<forall>va. umem (pmem t) (pagetable (procs s p)) va = (if unat (va - dst) < length bs then Some (bs ! unat (va - dst))
         else umem (pmem s) (pagetable (procs s p)) va))"
proof -
  have tl: "take_line (n = n) (nat n) (cons_done (cons_buf s)) = Some (bs, rest)" using assms(6) by simp
  from consoleread_loop_spec [OF assms(1,2) assms(5) tl assms(3) order_refl assms(4)]
  obtain M r where "consoleread_loop True dst n (of_int n) (lock_on Lk_cons s)
      = Ret (n - n + int (length bs)) (s\<lparr>pmem := M, cons_buf := (cons_buf s)\<lparr>c_r := r\<rparr>\<rparr>)"
    "cons_done ((cons_buf s)\<lparr>c_r := r\<rparr>) = rest" "uput (pagetable (procs s p)) dst bs (pmem s) M"
    by auto
  then show ?thesis using worldD [OF assms(1)] by (simp add: consoleread_def Let_def uput_def cons_edit_def)
qed

end
