(* ===== verification/File.thy ===== *)
theory File
  imports Console Vm
begin

unbundle bit_operations_syntax

text \<open>
  Open files, \<^verbatim>\<open>kernel/file.c\<close>, with \<open>pipealloc\<close> of \<^verbatim>\<open>kernel/pipe.c\<close>: the table of open files with their
  reference counts, and the dispatch of a read or write to the pipe, the device or the inode behind the
  file. The invariant relates the counts to the references that exist: those in the processes'
  descriptor tables and those a kernel routine holds on its stack.
\<close>

subsection \<open>Data\<close>

definition NFILE :: nat where "NFILE = 100"
definition NDEV :: int where "NDEV = 10"

datatype filetype = FD_NONE | FD_PIPE | FD_INODE | FD_DEVICE

record ofile_entry =
  f_type :: filetype
  f_ref :: int
  f_readable :: u8
  f_writable :: u8
  f_pipe :: u64
  f_ip :: nat
  f_off :: u32
  f_major :: u16

text \<open>\<open>ticks\<close> is the clock of \<^verbatim>\<open>kernel/trap.c\<close> and \<open>first_run\<close> the static variable of \<open>forkret\<close>; the later
  components use them.\<close>

record filest = consst +
  ftable :: "nat \<Rightarrow> ofile_entry"
  ticks :: u32
  first_run :: int

definition upd_file :: "nat \<Rightarrow> (ofile_entry \<Rightarrow> ofile_entry) \<Rightarrow> 'm filest_scheme \<Rightarrow> 'm filest_scheme" where
  "upd_file i f s = s\<lparr>ftable := (ftable s)(i := f (ftable s i))\<rparr>"

subsection \<open>The table of open files\<close>

definition fileinit :: "'m filest_scheme \<Rightarrow> 'm filest_scheme" where
  "fileinit s = initlock Lk_ftable ''ftable'' s"

definition filealloc_one :: "nat \<Rightarrow> 'm filest_scheme \<Rightarrow> (nat option, 'm filest_scheme) outcome" where
  "filealloc_one i s =
    (if f_ref (ftable s i) = 0 then
       bnd (release Lk_ftable (upd_file i (\<lambda>f. f\<lparr>f_ref := 1\<rparr>) s)) (\<lambda>_ s. Ret (Some i) s)
     else Ret None s)"

definition filealloc :: "'m filest_scheme \<Rightarrow> (nat option, 'm filest_scheme) outcome" where
  "filealloc s =
    bnd (acquire Lk_ftable s) (\<lambda>_ s.
    bnd (for_find [0..<NFILE] filealloc_one s) (\<lambda>r s.
    case r of
      Some i \<Rightarrow> Ret (Some i) s
    | None \<Rightarrow> bnd (release Lk_ftable s) (\<lambda>_ s. Ret None s)))"

definition filedup :: "nat \<Rightarrow> 'm filest_scheme \<Rightarrow> (nat, 'm filest_scheme) outcome" where
  "filedup f s =
    bnd (acquire Lk_ftable s) (\<lambda>_ s.
    if f_ref (ftable s f) < 1 then Panic ''filedup''
    else
      let s = upd_file f (\<lambda>x. x\<lparr>f_ref := f_ref x + 1\<rparr>) s
      in bnd (release Lk_ftable s) (\<lambda>_ s. Ret f s))"

text \<open>\<open>fileclose\<close> once the last reference is gone, with the copy of the entry.\<close>

definition fileclose_last :: "ofile_entry \<Rightarrow> 'm filest_scheme \<Rightarrow> (unit, 'm filest_scheme) outcome" where
  "fileclose_last ff s =
    (if f_type ff = FD_PIPE then pipeclose (f_pipe ff) (f_writable ff \<noteq> 0) s
     else if f_type ff = FD_INODE \<or> f_type ff = FD_DEVICE then
       bnd (begin_op s) (\<lambda>_ s.
       bnd (iput (f_ip ff) s) (\<lambda>_ s. end_op s))
     else Ret () s)"

definition fileclose :: "nat \<Rightarrow> 'm filest_scheme \<Rightarrow> (unit, 'm filest_scheme) outcome" where
  "fileclose f s =
    bnd (acquire Lk_ftable s) (\<lambda>_ s.
    if f_ref (ftable s f) < 1 then Panic ''fileclose''
    else
      let s = upd_file f (\<lambda>x. x\<lparr>f_ref := f_ref x - 1\<rparr>) s
      in if f_ref (ftable s f) > 0 then release Lk_ftable s
         else
           let ff = ftable s f; s = upd_file f (\<lambda>x. x\<lparr>f_ref := 0, f_type := FD_NONE\<rparr>) s
           in bnd (release Lk_ftable s) (\<lambda>_ s. fileclose_last ff s))"

subsection \<open>Reading and writing\<close>

text \<open>The bytes of a \<^verbatim>\<open>struct stat\<close>. The code does not initialise the padding before \<open>size\<close>: \<open>junk\<close>.\<close>

definition le_byte :: "nat \<Rightarrow> 'w::len word \<Rightarrow> u8" where
  "le_byte k w = ucast (drop_bit (8 * k) w)"

definition stat_bytes :: "(nat \<Rightarrow> u8) \<Rightarrow> fstat \<Rightarrow> nat \<Rightarrow> u8" where
  "stat_bytes junk st k =
    (if k < 4 then le_byte k (st_dev st)
     else if k < 8 then le_byte (k - 4) (st_ino st)
     else if k < 10 then le_byte (k - 8) (st_type st)
     else if k < 12 then le_byte (k - 10) (st_nlink st)
     else if k < 16 then junk k
     else le_byte (k - 16) (st_size st))"

definition filestat :: "(nat \<Rightarrow> u8) \<Rightarrow> nat \<Rightarrow> u64 \<Rightarrow> 'm filest_scheme \<Rightarrow> (int, 'm filest_scheme) outcome" where
  "filestat junk f addr s =
    bnd (curproc s) (\<lambda>p s.
    if f_type (ftable s f) = FD_INODE \<or> f_type (ftable s f) = FD_DEVICE then
      bnd (ilock (f_ip (ftable s f)) s) (\<lambda>_ s.
      let st = stati (f_ip (ftable s f)) s
      in bnd (iunlock (f_ip (ftable s f)) s) (\<lambda>_ s.
         bnd (copyout (pagetable (procs s p)) addr (stat_bytes junk st) 24 s) (\<lambda>r s.
         if r < 0 then Ret (-1) s else Ret 0 s)))
    else Ret (-1) s)"

definition call_dev :: "devfn \<Rightarrow> u64 \<Rightarrow> int \<Rightarrow> 'm filest_scheme \<Rightarrow> (int, 'm filest_scheme) outcome" where
  "call_dev fn addr n s =
    (case fn of Fn_consoleread \<Rightarrow> consoleread True addr n s | Fn_consolewrite \<Rightarrow> consolewrite True addr n s)"

definition dev_fn :: "(int \<Rightarrow> devfn option) \<Rightarrow> u16 \<Rightarrow> devfn option" where
  "dev_fn sw major = (if sint major < 0 \<or> sint major \<ge> NDEV then None else sw (sint major))"

definition fileread :: "nat \<Rightarrow> u64 \<Rightarrow> int \<Rightarrow> 'm filest_scheme \<Rightarrow> (int, 'm filest_scheme) outcome" where
  "fileread f addr n s =
    (let x = ftable s f
     in if f_readable x = 0 then Ret (-1) s
        else case f_type x of
            FD_PIPE \<Rightarrow> piperead (f_pipe x) addr n s
          | FD_DEVICE \<Rightarrow>
              (case dev_fn (devsw_read s) (f_major x) of None \<Rightarrow> Ret (-1) s | Some fn \<Rightarrow> call_dev fn addr n s)
          | FD_INODE \<Rightarrow>
              bnd (ilock (f_ip x) s) (\<lambda>_ s.
              bnd (readi (f_ip x) True addr (f_off (ftable s f)) (of_int n) s) (\<lambda>r s.
              let s = (if r > 0 then upd_file f (\<lambda>x. x\<lparr>f_off := f_off x + of_int r\<rparr>) s else s)
              in bnd (iunlock (f_ip x) s) (\<lambda>_ s. Ret r s)))
          | FD_NONE \<Rightarrow> Panic ''fileread'')"

definition write_max :: int where
  "write_max = ((MAXOPBLOCKS - 1 - 1 - 2) div 2) * int BSIZE"

text \<open>The loop of \<open>filewrite\<close>; the result is \<open>i\<close>.\<close>

function filewrite_loop :: "nat \<Rightarrow> u64 \<Rightarrow> int \<Rightarrow> int \<Rightarrow> 'm filest_scheme \<Rightarrow> (int, 'm filest_scheme) outcome" where
  "filewrite_loop f addr n i s =
    (if i < n then
       let n1 = n - i; n1 = (if n1 > write_max then write_max else n1); ip = f_ip (ftable s f)
       in bnd (begin_op s) (\<lambda>_ s.
          bnd (ilock ip s) (\<lambda>_ s.
          bnd (writei ip True (addr + of_int i) (f_off (ftable s f)) (of_int n1) s) (\<lambda>r s.
          let s = (if r > 0 then upd_file f (\<lambda>x. x\<lparr>f_off := f_off x + of_int r\<rparr>) s else s)
          in bnd (iunlock ip s) (\<lambda>_ s.
             bnd (end_op s) (\<lambda>_ s.
             if r \<noteq> n1 then Ret i s else filewrite_loop f addr n (i + r) s)))))
     else Ret i s)"
  by pat_completeness auto
termination
  by (relation "measure (\<lambda>(f, addr, n, i, s). nat (n - i))")
    (auto simp: write_max_def MAXOPBLOCKS_def BSIZE_def split: if_splits)

declare filewrite_loop.simps [simp del]

definition filewrite :: "nat \<Rightarrow> u64 \<Rightarrow> int \<Rightarrow> 'm filest_scheme \<Rightarrow> (int, 'm filest_scheme) outcome" where
  "filewrite f addr n s =
    (let x = ftable s f
     in if f_writable x = 0 then Ret (-1) s
        else case f_type x of
            FD_PIPE \<Rightarrow> pipewrite (f_pipe x) addr n s
          | FD_DEVICE \<Rightarrow>
              (case dev_fn (devsw_write s) (f_major x) of None \<Rightarrow> Ret (-1) s | Some fn \<Rightarrow> call_dev fn addr n s)
          | FD_INODE \<Rightarrow>
              bnd (filewrite_loop f addr n 0 s) (\<lambda>i s. Ret (if i = n then n else -1) s)
          | FD_NONE \<Rightarrow> Panic ''filewrite'')"

subsection \<open>Making a pipe\<close>

definition pipe_setup :: "u64 \<Rightarrow> nat \<Rightarrow> nat \<Rightarrow> 'm filest_scheme \<Rightarrow> 'm filest_scheme" where
  "pipe_setup pi f0 f1 s =
    (let s = upd_pipe pi (\<lambda>x. x\<lparr>p_readopen := 1, p_writeopen := 1, p_nwrite := 0, p_nread := 0\<rparr>) s;
         s = initlock (Lk_pipe pi) ''pipe'' s;
         s = upd_file f0 (\<lambda>x. x\<lparr>f_type := FD_PIPE, f_readable := 1, f_writable := 0, f_pipe := pi\<rparr>) s
     in upd_file f1 (\<lambda>x. x\<lparr>f_type := FD_PIPE, f_readable := 0, f_writable := 1, f_pipe := pi\<rparr>) s)"

definition close_opt :: "nat option \<Rightarrow> 'm filest_scheme \<Rightarrow> (unit, 'm filest_scheme) outcome" where
  "close_opt f s = (case f of None \<Rightarrow> Ret () s | Some f \<Rightarrow> fileclose f s)"

text \<open>The \<^verbatim>\<open>bad\<close> exit; it is only reached with \<open>pi = 0\<close>.\<close>

definition pipealloc_bad ::
  "nat option \<Rightarrow> nat option \<Rightarrow> 'm filest_scheme \<Rightarrow> ((nat \<times> nat) option, 'm filest_scheme) outcome" where
  "pipealloc_bad f0 f1 s = bnd (close_opt f0 s) (\<lambda>_ s. bnd (close_opt f1 s) (\<lambda>_ s. Ret None s))"

definition pipealloc :: "'m filest_scheme \<Rightarrow> ((nat \<times> nat) option, 'm filest_scheme) outcome" where
  "pipealloc s =
    bnd (filealloc s) (\<lambda>f0 s.
    case f0 of
      None \<Rightarrow> pipealloc_bad None None s
    | Some a \<Rightarrow>
        bnd (filealloc s) (\<lambda>f1 s.
        case f1 of
          None \<Rightarrow> pipealloc_bad f0 None s
        | Some b \<Rightarrow>
            bnd (kalloc s) (\<lambda>pi s.
            if pi = 0 then pipealloc_bad f0 f1 s
            else Ret (Some (a, b)) (pipe_setup pi a b s))))"

end
