(* ===== verification/Process.thy ===== *)
theory Process
  imports File
begin

unbundle bit_operations_syntax

text \<open>
  The life of a process, the rest of \<^verbatim>\<open>kernel/proc.c\<close>: allocation of a slot with its trapframe page and
  page table, \<open>fork\<close>, \<open>exit\<close>, \<open>wait\<close>, growing and shrinking, and the first process. \<open>sleep\<close>, \<open>wakeup\<close>,
  \<open>sched\<close>, \<open>kill\<close> are in \<open>Machine\<close>.
\<close>

subsection \<open>Operations\<close>

text \<open>The addresses of code the kernel hands to the hardware and to page tables: linker symbols.\<close>

record ksyms =
  k_forkret :: u64
  k_trampoline :: u64
  k_uservec :: u64
  k_userret :: u64
  k_usertrap :: u64
  k_kernelvec :: u64

text \<open>Offsets in \<^verbatim>\<open>struct trapframe\<close>.\<close>

definition tf_kernel_satp :: u64 where "tf_kernel_satp = 0"
definition tf_kernel_sp :: u64 where "tf_kernel_sp = 8"
definition tf_kernel_trap :: u64 where "tf_kernel_trap = 16"
definition tf_epc :: u64 where "tf_epc = 24"
definition tf_kernel_hartid :: u64 where "tf_kernel_hartid = 32"
definition tf_sp :: u64 where "tf_sp = 48"
definition tf_a0 :: u64 where "tf_a0 = 112"
definition tf_a1 :: u64 where "tf_a1 = 120"
definition tf_a7 :: u64 where "tf_a7 = 168"
definition tf_size :: nat where "tf_size = 288"

definition tf_get :: "nat \<Rightarrow> u64 \<Rightarrow> 'm memory_scheme \<Rightarrow> u64" where
  "tf_get p r s = ld64 (pmem s) (trapframe (procs s p) + r)"

definition tf_put :: "nat \<Rightarrow> u64 \<Rightarrow> u64 \<Rightarrow> 'm memory_scheme \<Rightarrow> 'm memory_scheme" where
  "tf_put p r v s = s\<lparr>pmem := st64 (pmem s) (trapframe (procs s p) + r) v\<rparr>"

definition procinit_one :: "nat \<Rightarrow> 'm machine_scheme \<Rightarrow> 'm machine_scheme" where
  "procinit_one i s = upd_proc i (\<lambda>q. q\<lparr>kstack := KSTACK i\<rparr>) (initlock (Lk_proc i) ''proc'' s)"

definition procinit :: "'m machine_scheme \<Rightarrow> 'm machine_scheme" where
  "procinit s = fold procinit_one [0..<NPROC] (initlock Lk_wait ''wait_lock'' (initlock Lk_pid ''nextpid'' s))"

definition proc_pagetable :: "ksyms \<Rightarrow> nat \<Rightarrow> 'm memory_scheme \<Rightarrow> (u64, 'm memory_scheme) outcome" where
  "proc_pagetable K p s =
    bnd (uvmcreate s) (\<lambda>pt s.
    if pt = 0 then Ret 0 s
    else
      bnd (mappages pt TRAMPOLINE PGSIZE (k_trampoline K) (PTE_R OR PTE_X) s) (\<lambda>r s.
      if r < 0 then bnd (uvmfree 3 pt 0 s) (\<lambda>_ s. Ret 0 s)
      else
        bnd (mappages pt TRAPFRAME PGSIZE (trapframe (procs s p)) (PTE_R OR PTE_W) s) (\<lambda>r s.
        if r < 0 then
          bnd (uvmunmap pt TRAMPOLINE 1 False s) (\<lambda>_ s. bnd (uvmfree 3 pt 0 s) (\<lambda>_ s. Ret 0 s))
        else Ret pt s)))"

definition proc_freepagetable :: "u64 \<Rightarrow> u64 \<Rightarrow> 'm memory_scheme \<Rightarrow> (unit, 'm memory_scheme) outcome" where
  "proc_freepagetable pt n s =
    bnd (uvmunmap pt TRAMPOLINE 1 False s) (\<lambda>_ s.
    bnd (uvmunmap pt TRAPFRAME 1 False s) (\<lambda>_ s. uvmfree 3 pt n s))"

definition freeproc :: "nat \<Rightarrow> 'm memory_scheme \<Rightarrow> (unit, 'm memory_scheme) outcome" where
  "freeproc p s =
    bnd (if trapframe (procs s p) \<noteq> 0 then kfree (trapframe (procs s p)) s else Ret () s) (\<lambda>_ s.
    let s = upd_proc p (\<lambda>q. q\<lparr>trapframe := 0\<rparr>) s
    in bnd (if pagetable (procs s p) \<noteq> 0 then proc_freepagetable (pagetable (procs s p)) (sz (procs s p)) s
            else Ret () s) (\<lambda>_ s.
       Ret () (upd_proc p (\<lambda>q. q\<lparr>pagetable := 0, sz := 0, pid := 0, parent := None, pname := (pname q)(0 := 0),
         pchan := None, killed := 0, xstate := 0, pstate := UNUSED\<rparr>) s)))"

text \<open>The scan of \<open>allocproc\<close>: it stops with the lock of the slot it found.\<close>

definition allocproc_one :: "nat \<Rightarrow> 'm machine_scheme \<Rightarrow> (nat option, 'm machine_scheme) outcome" where
  "allocproc_one i s =
    bnd (acquire (Lk_proc i) s) (\<lambda>_ s.
    if pstate (procs s i) = UNUSED then Ret (Some i) s
    else bnd (release (Lk_proc i) s) (\<lambda>_ s. Ret None s))"

definition allocproc_fail :: "nat \<Rightarrow> 'm memory_scheme \<Rightarrow> (nat option, 'm memory_scheme) outcome" where
  "allocproc_fail p s =
    bnd (freeproc p s) (\<lambda>_ s. bnd (release (Lk_proc p) s) (\<lambda>_ s. Ret None s))"

definition allocproc :: "ksyms \<Rightarrow> 'm memory_scheme \<Rightarrow> (nat option, 'm memory_scheme) outcome" where
  "allocproc K s =
    bnd (for_find [0..<NPROC] allocproc_one s) (\<lambda>r s.
    case r of
      None \<Rightarrow> Ret None s
    | Some p \<Rightarrow>
        bnd (allocpid s) (\<lambda>n s.
        let s = upd_proc p (\<lambda>q. q\<lparr>pid := n, pstate := USED\<rparr>) s
        in bnd (kalloc s) (\<lambda>tf s.
           let s = upd_proc p (\<lambda>q. q\<lparr>trapframe := tf\<rparr>) s
           in if tf = 0 then allocproc_fail p s
              else
                bnd (proc_pagetable K p s) (\<lambda>pt s.
                let s = upd_proc p (\<lambda>q. q\<lparr>pagetable := pt\<rparr>) s
                in if pt = 0 then allocproc_fail p s
                   else Ret (Some p) (upd_proc p (\<lambda>q. q\<lparr>ctx_ra := k_forkret K, ctx_sp := kstack q + PGSIZE\<rparr>) s)))))"

definition initcode :: "u8 list" where
  "initcode = [
    0x17, 0x05, 0x00, 0x00, 0x13, 0x05, 0x45, 0x02,
    0x97, 0x05, 0x00, 0x00, 0x93, 0x85, 0x35, 0x02,
    0x93, 0x08, 0x70, 0x00, 0x73, 0x00, 0x00, 0x00,
    0x93, 0x08, 0x20, 0x00, 0x73, 0x00, 0x00, 0x00,
    0xef, 0xf0, 0x9f, 0xff, 0x2f, 0x69, 0x6e, 0x69,
    0x74, 0x00, 0x00, 0x24, 0x00, 0x00, 0x00, 0x00,
    0x00, 0x00, 0x00, 0x00]"

text \<open>A byte list as a C array that ends in a NUL.\<close>

definition arr :: "u8 list \<Rightarrow> nat \<Rightarrow> u8" where
  "arr xs k = (if k < length xs then xs ! k else 0)"

definition userinit :: "ksyms \<Rightarrow> 'm fsst_scheme \<Rightarrow> (unit, 'm fsst_scheme) outcome" where
  "userinit K s =
    bnd (allocproc K s) (\<lambda>r s.
    case r of
      None \<Rightarrow> Panic ''kerneltrap''
    | Some p \<Rightarrow>
        let s = s\<lparr>initproc := p\<rparr>
        in bnd (uvminit (pagetable (procs s p)) (arr initcode) (of_nat (length initcode)) s) (\<lambda>_ s.
           let s = upd_proc p (\<lambda>q. q\<lparr>sz := PGSIZE\<rparr>) s;
               s = tf_put p tf_epc 0 s;
               s = tf_put p tf_sp PGSIZE s;
               s = upd_proc p (\<lambda>q. q\<lparr>pname := safestrcpy (pname q) (arr (bytes ''initcode'')) 16\<rparr>) s
           in bnd (namei [slash] s) (\<lambda>ip s.
              let s = upd_proc p (\<lambda>q. q\<lparr>cwd := ip, pstate := RUNNABLE\<rparr>) s
              in release (Lk_proc p) s)))"

text \<open>The size passes through a 32-bit variable.\<close>

definition growproc :: "int \<Rightarrow> 'm memory_scheme \<Rightarrow> (int, 'm memory_scheme) outcome" where
  "growproc n s =
    bnd (curproc s) (\<lambda>p s.
    let n32 = ucast (sz (procs s p)) :: u32; pt = pagetable (procs s p)
    in if n > 0 then
         bnd (uvmalloc pt (ucast n32) (ucast (n32 + of_int n)) s) (\<lambda>r s.
         let n32 = ucast r :: u32
         in if n32 = 0 then Ret (-1) s
            else Ret 0 (upd_proc p (\<lambda>q. q\<lparr>sz := ucast n32\<rparr>) s))
       else if n < 0 then
         bnd (uvmdealloc pt (ucast n32) (ucast (n32 + of_int n)) s) (\<lambda>r s.
         Ret 0 (upd_proc p (\<lambda>q. q\<lparr>sz := ucast (ucast r :: u32)\<rparr>) s))
       else Ret 0 (upd_proc p (\<lambda>q. q\<lparr>sz := ucast n32\<rparr>) s))"

subsection \<open>fork\<close>

definition fork_file :: "nat \<Rightarrow> nat \<Rightarrow> nat \<Rightarrow> 'm filest_scheme \<Rightarrow> (unit, 'm filest_scheme) outcome" where
  "fork_file p np i s =
    (case ofile (procs s p) i of
       None \<Rightarrow> Ret () s
     | Some f \<Rightarrow>
         bnd (filedup f s) (\<lambda>f s.
         Ret () (upd_proc np (\<lambda>q. q\<lparr>ofile := (ofile q)(i := Some f)\<rparr>) s)))"

definition fork :: "ksyms \<Rightarrow> 'm filest_scheme \<Rightarrow> (int, 'm filest_scheme) outcome" where
  "fork K s =
    bnd (curproc s) (\<lambda>p s.
    bnd (allocproc K s) (\<lambda>r s.
    case r of
      None \<Rightarrow> Ret (-1) s
    | Some np \<Rightarrow>
        bnd (uvmcopy (pagetable (procs s p)) (pagetable (procs s np)) (sz (procs s p)) s) (\<lambda>r s.
        if r < 0 then bnd (freeproc np s) (\<lambda>_ s. bnd (release (Lk_proc np) s) (\<lambda>_ s. Ret (-1) s))
        else
          let s = upd_proc np (\<lambda>q. q\<lparr>sz := sz (procs s p)\<rparr>) s;
              src = trapframe (procs s p); dst = trapframe (procs s np);
              s = s\<lparr>pmem := put_bytes (pmem s) dst (\<lambda>k. pmem s (src + of_nat k)) tf_size\<rparr>;
              s = tf_put np tf_a0 0 s
          in bnd (for_each [0..<NOFILE] (fork_file p np) s) (\<lambda>_ s.
             bnd (case cwd (procs s p) of None \<Rightarrow> Panic ''kerneltrap'' | Some ip \<Rightarrow> idup ip s) (\<lambda>ip s.
             let s = upd_proc np (\<lambda>q. q\<lparr>cwd := Some ip,
                   pname := safestrcpy (pname q) (pname (procs s p)) 16\<rparr>) s;
                 n = pid (procs s np)
             in bnd (release (Lk_proc np) s) (\<lambda>_ s.
                bnd (acquire Lk_wait s) (\<lambda>_ s.
                let s = upd_proc np (\<lambda>q. q\<lparr>parent := Some p\<rparr>) s
                in bnd (release Lk_wait s) (\<lambda>_ s.
                   bnd (acquire (Lk_proc np) s) (\<lambda>_ s.
                   let s = upd_proc np (\<lambda>q. q\<lparr>pstate := RUNNABLE\<rparr>) s
                   in bnd (release (Lk_proc np) s) (\<lambda>_ s. Ret n s))))))))))"

subsection \<open>exit and wait\<close>

definition reparent_one :: "nat \<Rightarrow> nat \<Rightarrow> 'm machine_scheme \<Rightarrow> (unit, 'm machine_scheme) outcome" where
  "reparent_one p i s =
    (if parent (procs s i) = Some p then
       wakeup (Ch_proc (initproc s)) (upd_proc i (\<lambda>q. q\<lparr>parent := Some (initproc s)\<rparr>) s)
     else Ret () s)"

definition reparent :: "nat \<Rightarrow> 'm machine_scheme \<Rightarrow> (unit, 'm machine_scheme) outcome" where
  "reparent p s = for_each [0..<NPROC] (reparent_one p) s"

definition exit_file :: "nat \<Rightarrow> nat \<Rightarrow> 'm filest_scheme \<Rightarrow> (unit, 'm filest_scheme) outcome" where
  "exit_file p fd s =
    (case ofile (procs s p) fd of
       None \<Rightarrow> Ret () s
     | Some f \<Rightarrow>
         bnd (fileclose f s) (\<lambda>_ s. Ret () (upd_proc p (\<lambda>q. q\<lparr>ofile := (ofile q)(fd := None)\<rparr>) s)))"

text \<open>The end of \<open>exit\<close>, from \<open>acquire(&wait_lock)\<close> on. A process without a parent wakes nobody: no process
  sleeps on a null channel.\<close>

definition exit_tail :: "nat \<Rightarrow> int \<Rightarrow> 'm machine_scheme \<Rightarrow> ('a, 'm machine_scheme) outcome" where
  "exit_tail p status s =
    bnd (acquire Lk_wait s) (\<lambda>_ s.
    bnd (reparent p s) (\<lambda>_ s.
    bnd (case parent (procs s p) of None \<Rightarrow> Ret () s | Some pp \<Rightarrow> wakeup (Ch_proc pp) s) (\<lambda>_ s.
    bnd (acquire (Lk_proc p) s) (\<lambda>_ s.
    let s = upd_proc p (\<lambda>q. q\<lparr>xstate := status, pstate := ZOMBIE\<rparr>) s
    in bnd (release Lk_wait s) (\<lambda>_ s.
       bnd (sched s) (\<lambda>(_ :: unit) s. Panic ''zombie exit''))))))"

definition exit' :: "int \<Rightarrow> 'm filest_scheme \<Rightarrow> ('a, 'm filest_scheme) outcome" where
  "exit' status s =
    bnd (curproc s) (\<lambda>p s.
    if p = initproc s then Panic ''init exiting''
    else
      bnd (for_each [0..<NOFILE] (exit_file p) s) (\<lambda>_ s.
      bnd (begin_op s) (\<lambda>_ s.
      bnd (case cwd (procs s p) of None \<Rightarrow> Panic ''kerneltrap'' | Some ip \<Rightarrow> iput ip s) (\<lambda>_ s.
      bnd (end_op s) (\<lambda>_ s.
      exit_tail p status (upd_proc p (\<lambda>q. q\<lparr>cwd := None\<rparr>) s))))))"

text \<open>The scan of \<open>wait\<close>: \<open>Inl\<close> is a return value, \<open>Inr\<close> is \<open>havekids\<close>.\<close>

primrec wait_scan ::
  "nat \<Rightarrow> u64 \<Rightarrow> nat list \<Rightarrow> bool \<Rightarrow> 'm memory_scheme \<Rightarrow> (int + bool, 'm memory_scheme) outcome" where
  "wait_scan p addr [] havekids s = Ret (Inr havekids) s"
| "wait_scan p addr (np # nps) havekids s =
    (if parent (procs s np) = Some p then
       bnd (acquire (Lk_proc np) s) (\<lambda>_ s.
       if pstate (procs s np) = ZOMBIE then
         let n = pid (procs s np)
         in bnd (if addr \<noteq> 0 then
                   copyout (pagetable (procs s p)) addr (\<lambda>k. le_byte k (of_int (xstate (procs s np)) :: u32)) 4 s
                 else Ret 0 s) (\<lambda>r s.
            if r < 0 then
              bnd (release (Lk_proc np) s) (\<lambda>_ s. bnd (release Lk_wait s) (\<lambda>_ s. Ret (Inl (-1)) s))
            else
              bnd (freeproc np s) (\<lambda>_ s.
              bnd (release (Lk_proc np) s) (\<lambda>_ s. bnd (release Lk_wait s) (\<lambda>_ s. Ret (Inl n) s))))
       else bnd (release (Lk_proc np) s) (\<lambda>_ s. wait_scan p addr nps True s))
     else wait_scan p addr nps havekids s)"

definition wait_turn :: "nat \<Rightarrow> u64 \<Rightarrow> 'm memory_scheme \<Rightarrow> (int, 'm memory_scheme) outcome" where
  "wait_turn p addr s =
    bnd (wait_scan p addr [0..<NPROC] False s) (\<lambda>r s.
    case r of
      Inl v \<Rightarrow> Ret v s
    | Inr havekids \<Rightarrow>
        if \<not> havekids \<or> killed (procs s p) \<noteq> 0 then bnd (release Lk_wait s) (\<lambda>_ s. Ret (-1) s)
        else sleep (Ch_proc p) Lk_wait s)"

definition wait :: "u64 \<Rightarrow> 'm memory_scheme \<Rightarrow> (int, 'm memory_scheme) outcome" where
  "wait addr s =
    bnd (curproc s) (\<lambda>p s. bnd (acquire Lk_wait s) (\<lambda>_ s. wait_turn p addr s))"

definition wait_back :: "nat \<Rightarrow> bool \<Rightarrow> u64 \<Rightarrow> 'm memory_scheme \<Rightarrow> (int, 'm memory_scheme) outcome" where
  "wait_back p ena addr s = bnd (sleep_back p ena Lk_wait s) (\<lambda>_ s. wait_turn p addr s)"

end
