(* ===== verification/Exec.thy ===== *)
theory Exec
  imports Process
begin

unbundle bit_operations_syntax

text \<open>
  Loading a program, \<^verbatim>\<open>kernel/exec.c\<close>, and the fetching of system call arguments, \<^verbatim>\<open>kernel/syscall.c\<close>.
  A string in kernel memory is read with \<open>kstr\<close>; a local array or struct on the kernel stack is at the
  address \<open>de_addr\<close> while it is passed by address, and its fields are read out at once.
\<close>

subsection \<open>Fetching arguments (syscall.c)\<close>

definition MAXPATH :: nat where "MAXPATH = 128"
definition MAXARG :: nat where "MAXARG = 32"

definition kbytes :: "mem \<Rightarrow> u64 \<Rightarrow> nat \<Rightarrow> u8" where
  "kbytes m a k = m (a + of_nat k)"

definition fetchaddr :: "u64 \<Rightarrow> 'm memory_scheme \<Rightarrow> (u64 option, 'm memory_scheme) outcome" where
  "fetchaddr addr s =
    bnd (curproc s) (\<lambda>p s.
    if addr \<ge> sz (procs s p) \<or> addr + 8 > sz (procs s p) then Ret None s
    else
      bnd (copyin (pagetable (procs s p)) (\<lambda>_. 0) addr 8 s) (\<lambda>(r, d) s.
      if r \<noteq> 0 then Ret None s else Ret (Some (ld64 (\<lambda>a. d (unat a)) 0)) s))"

text \<open>\<open>strlen\<close> of a string without a NUL does not return.\<close>

definition strlen_k :: "(nat \<Rightarrow> u8) \<Rightarrow> 's \<Rightarrow> (nat, 's) outcome" where
  "strlen_k a s = (case strlen a of None \<Rightarrow> Spin | Some n \<Rightarrow> Ret n s)"

definition fetchstr ::
  "u64 \<Rightarrow> (nat \<Rightarrow> u8) \<Rightarrow> nat \<Rightarrow> 'm memory_scheme \<Rightarrow> (int \<times> (nat \<Rightarrow> u8), 'm memory_scheme) outcome" where
  "fetchstr addr buf mx s =
    bnd (curproc s) (\<lambda>p s.
    bnd (copyinstr (pagetable (procs s p)) buf addr (of_nat mx) s) (\<lambda>(err, buf) s.
    if err < 0 then Ret (err, buf) s
    else bnd (strlen_k buf s) (\<lambda>n s. Ret (int n, buf) s)))"

definition argraw :: "nat \<Rightarrow> 'm memory_scheme \<Rightarrow> (u64, 'm memory_scheme) outcome" where
  "argraw n s =
    bnd (curproc s) (\<lambda>p s.
    if n \<le> 5 then Ret (tf_get p (tf_a0 + 8 * of_nat n) s) s else Panic ''argraw'')"

definition argint :: "nat \<Rightarrow> 'm memory_scheme \<Rightarrow> (int, 'm memory_scheme) outcome" where
  "argint n s = bnd (argraw n s) (\<lambda>v s. Ret (sint (ucast v :: u32)) s)"

definition argaddr :: "nat \<Rightarrow> 'm memory_scheme \<Rightarrow> (u64, 'm memory_scheme) outcome" where
  "argaddr n s = argraw n s"

text \<open>\<open>argstr\<close> into an array of \<open>MAXPATH\<close> bytes: \<open>None\<close> for -1, otherwise the string.\<close>

definition argstr :: "nat \<Rightarrow> 'm memory_scheme \<Rightarrow> (u8 list option, 'm memory_scheme) outcome" where
  "argstr n s =
    bnd (argaddr n s) (\<lambda>addr s.
    bnd (fetchstr addr (\<lambda>_. 0) MAXPATH s) (\<lambda>(r, buf) s.
    if r < 0 then Ret None s else Ret (Some (map buf [0..<nat r])) s))"

subsection \<open>ELF headers\<close>

definition ELF_MAGIC :: u32 where "ELF_MAGIC = 0x464C457F"
definition ELF_PROG_LOAD :: u32 where "ELF_PROG_LOAD = 1"

definition k32 :: "mem \<Rightarrow> u64 \<Rightarrow> u32" where
  "k32 m a = ucast (ld64 m a)"

record elfhdr =
  e_magic :: u32
  e_entry :: u64
  e_phoff :: u64
  e_phnum :: u16

definition get_elf :: "mem \<Rightarrow> u64 \<Rightarrow> elfhdr" where
  "get_elf m a = \<lparr>e_magic = k32 m a, e_entry = ld64 m (a + 24), e_phoff = ld64 m (a + 32), e_phnum = de_inum m (a + 56)\<rparr>"

record proghdr =
  ph_type :: u32
  ph_off :: u64
  ph_vaddr :: u64
  ph_filesz :: u64
  ph_memsz :: u64

definition get_ph :: "mem \<Rightarrow> u64 \<Rightarrow> proghdr" where
  "get_ph m a = \<lparr>ph_type = k32 m a, ph_off = ld64 m (a + 8), ph_vaddr = ld64 m (a + 16),
     ph_filesz = ld64 m (a + 32), ph_memsz = ld64 m (a + 40)\<rparr>"

subsection \<open>Loading\<close>

text \<open>The loop of \<open>loadseg\<close>. When \<open>i\<close> wraps around it starts over, which never ends.\<close>

function loadseg_loop ::
  "u64 \<Rightarrow> u64 \<Rightarrow> nat \<Rightarrow> u32 \<Rightarrow> u32 \<Rightarrow> u32 \<Rightarrow> 'm fsst_scheme \<Rightarrow> (int, 'm fsst_scheme) outcome" where
  "loadseg_loop pt va ip offset n i s =
    (if i < n then
       bnd (walkaddr pt (va + ucast i) s) (\<lambda>pa s.
       if pa = 0 then Panic ''loadseg: address should exist''
       else
         let m = (if n - i < 4096 then n - i else 4096)
         in bnd (readi ip False pa (offset + i) m s) (\<lambda>r s.
            if r \<noteq> int (unat m) then Ret (-1) s
            else if unat i + 4096 < 2 ^ 32 then loadseg_loop pt va ip offset n (i + 4096) s
            else Spin))
     else Ret 0 s)"
  by pat_completeness auto
termination
  by (relation "measure (\<lambda>(pt, va, ip, offset, n, i, s). 2 ^ 32 - unat i)") (auto simp: unat_add_u32)

declare loadseg_loop.simps [simp del]

definition loadseg ::
  "u64 \<Rightarrow> u64 \<Rightarrow> nat \<Rightarrow> u32 \<Rightarrow> u32 \<Rightarrow> 'm fsst_scheme \<Rightarrow> (int, 'm fsst_scheme) outcome" where
  "loadseg pt va ip offset n s =
    (if va mod PGSIZE \<noteq> 0 then Panic ''loadseg: va must be page aligned''
     else loadseg_loop pt va ip offset n 0 s)"

text \<open>The loop over the program headers: the size reached, and whether it ended without \<^verbatim>\<open>goto bad\<close>.\<close>

fun load_segments ::
  "u64 \<Rightarrow> nat \<Rightarrow> nat \<Rightarrow> u32 \<Rightarrow> u64 \<Rightarrow> 'm fsst_scheme \<Rightarrow> (bool \<times> u64, 'm fsst_scheme) outcome" where
  "load_segments pt ip 0 off n s = Ret (True, n) s"
| "load_segments pt ip (Suc left) off n s =
    bnd (readi ip False (de_addr s) off 56 s) (\<lambda>r s.
    if r \<noteq> 56 then Ret (False, n) s
    else
      let ph = get_ph (pmem s) (de_addr s)
      in if ph_type ph \<noteq> ELF_PROG_LOAD then load_segments pt ip left (off + 56) n s
         else if ph_memsz ph < ph_filesz ph then Ret (False, n) s
         else if ph_vaddr ph + ph_memsz ph < ph_vaddr ph then Ret (False, n) s
         else
           bnd (uvmalloc pt n (ph_vaddr ph + ph_memsz ph) s) (\<lambda>sz1 s.
           if sz1 = 0 then Ret (False, n) s
           else if ph_vaddr ph mod PGSIZE \<noteq> 0 then Ret (False, sz1) s
           else
             bnd (loadseg pt (ph_vaddr ph) ip (ucast (ph_off ph)) (ucast (ph_filesz ph)) s) (\<lambda>r s.
             if r < 0 then Ret (False, sz1) s
             else load_segments pt ip left (off + 56) sz1 s)))"

subsection \<open>The stack of the new program\<close>

text \<open>The argument strings: \<open>argv\<close> holds the addresses before the null pointer. The result is \<open>ustack\<close>
  and \<open>sp\<close>, or nothing for \<^verbatim>\<open>goto bad\<close>.\<close>

fun push_args ::
  "u64 \<Rightarrow> u64 \<Rightarrow> u64 list \<Rightarrow> u64 list \<Rightarrow> u64 \<Rightarrow> 'm memory_scheme \<Rightarrow> ((u64 list \<times> u64) option, 'm memory_scheme) outcome" where
  "push_args pt stackbase [] ustack sp s = Ret (Some (ustack, sp)) s"
| "push_args pt stackbase (a # argv) ustack sp s =
    (if length ustack \<ge> MAXARG then Ret None s
     else
       bnd (strlen_k (kbytes (pmem s) a) s) (\<lambda>len s.
       let sp = sp - (of_nat len + 1); sp = sp - sp mod 16
       in if sp < stackbase then Ret None s
          else
            bnd (copyout pt sp (kbytes (pmem s) a) (of_nat len + 1) s) (\<lambda>r s.
            if r < 0 then Ret None s
            else push_args pt stackbase argv (ustack @ [sp]) sp s)))"

definition ustack_bytes :: "u64 list \<Rightarrow> nat \<Rightarrow> u8" where
  "ustack_bytes us k = le_byte (k mod 8) (us ! (k div 8))"

definition push_stack ::
  "u64 \<Rightarrow> u64 \<Rightarrow> u64 list \<Rightarrow> u64 \<Rightarrow> 'm memory_scheme \<Rightarrow> ((nat \<times> u64) option, 'm memory_scheme) outcome" where
  "push_stack pt stackbase argv sp s =
    bnd (push_args pt stackbase argv [] sp s) (\<lambda>r s.
    case r of
      None \<Rightarrow> Ret None s
    | Some (us, sp) \<Rightarrow>
        let argc = length us; us = us @ [0];
            sp = sp - (of_nat argc + 1) * 8; sp = sp - sp mod 16
        in if sp < stackbase then Ret None s
           else
             bnd (copyout pt sp (ustack_bytes us) ((of_nat argc + 1) * 8) s) (\<lambda>r s.
             if r < 0 then Ret None s else Ret (Some (argc, sp)) s))"

fun path_last :: "u8 list \<Rightarrow> u8 list \<Rightarrow> u8 list" where
  "path_last [] lst = lst"
| "path_last (c # cs) lst = path_last cs (if c = slash then cs else lst)"

text \<open>\<^verbatim>\<open>bad\<close>: \<open>pt\<close> is 0 when there is no page table yet, \<open>ip\<close> is \<open>None\<close> once the inode is released.\<close>

definition exec_bad :: "u64 \<Rightarrow> u64 \<Rightarrow> nat option \<Rightarrow> 'm fsst_scheme \<Rightarrow> (int, 'm fsst_scheme) outcome" where
  "exec_bad pt n ip s =
    bnd (if pt \<noteq> 0 then proc_freepagetable pt n s else Ret () s) (\<lambda>_ s.
    bnd (case ip of None \<Rightarrow> Ret () s | Some ip \<Rightarrow> bnd (iunlockput ip s) (\<lambda>_ s. end_op s)) (\<lambda>_ s.
    Ret (-1) s))"

definition exec_commit ::
  "nat \<Rightarrow> u8 list \<Rightarrow> u64 \<Rightarrow> u64 \<Rightarrow> u64 \<Rightarrow> u64 \<Rightarrow> u64 \<Rightarrow> 'm fsst_scheme \<Rightarrow> (unit, 'm fsst_scheme) outcome" where
  "exec_commit p path pt n oldsz pc sp s =
    (let s = tf_put p tf_a1 sp s;
         s = upd_proc p (\<lambda>q. q\<lparr>pname := safestrcpy (pname q) (arr (path_last path path)) 16\<rparr>) s;
         oldpt = pagetable (procs s p);
         s = upd_proc p (\<lambda>q. q\<lparr>pagetable := pt, sz := n\<rparr>) s;
         s = tf_put p tf_epc pc s;
         s = tf_put p tf_sp sp s
     in proc_freepagetable oldpt oldsz s)"

text \<open>The part of \<open>exec\<close> after the file is closed.\<close>

definition exec_stack ::
  "nat \<Rightarrow> u8 list \<Rightarrow> u64 list \<Rightarrow> u64 \<Rightarrow> u64 \<Rightarrow> u64 \<Rightarrow> 'm fsst_scheme \<Rightarrow> (int, 'm fsst_scheme) outcome" where
  "exec_stack p path argv pt n pc s =
    (let oldsz = sz (procs s p); n = PGROUNDUP n
     in bnd (uvmalloc pt n (n + 2 * PGSIZE) s) (\<lambda>sz1 s.
        if sz1 = 0 then exec_bad pt n None s
        else
          bnd (uvmclear pt (sz1 - 2 * PGSIZE) s) (\<lambda>_ s.
          bnd (push_stack pt (sz1 - PGSIZE) argv sz1 s) (\<lambda>r s.
          case r of
            None \<Rightarrow> exec_bad pt sz1 None s
          | Some (argc, sp) \<Rightarrow>
              bnd (exec_commit p path pt sz1 oldsz pc sp s) (\<lambda>_ s. Ret (int argc) s)))))"

definition exec :: "ksyms \<Rightarrow> u8 list \<Rightarrow> u64 list \<Rightarrow> 'm fsst_scheme \<Rightarrow> (int, 'm fsst_scheme) outcome" where
  "exec K path argv s =
    bnd (curproc s) (\<lambda>p s.
    bnd (begin_op s) (\<lambda>_ s.
    bnd (namei path s) (\<lambda>ip s.
    case ip of
      None \<Rightarrow> bnd (end_op s) (\<lambda>_ s. Ret (-1) s)
    | Some ip \<Rightarrow>
        bnd (ilock ip s) (\<lambda>_ s.
        bnd (readi ip False (de_addr s) 0 64 s) (\<lambda>r s.
        let elf = get_elf (pmem s) (de_addr s)
        in if r \<noteq> 64 \<or> e_magic elf \<noteq> ELF_MAGIC then exec_bad 0 0 (Some ip) s
           else
             bnd (proc_pagetable K p s) (\<lambda>pt s.
             if pt = 0 then exec_bad 0 0 (Some ip) s
             else
               bnd (load_segments pt ip (unat (e_phnum elf)) (ucast (e_phoff elf)) 0 s) (\<lambda>(ok, n) s.
               if \<not> ok then exec_bad pt n (Some ip) s
               else
                 bnd (iunlockput ip s) (\<lambda>_ s.
                 bnd (end_op s) (\<lambda>_ s. exec_stack p path argv pt n (e_entry elf) s))))))))) "

end
