(* ===== verification/Sysfile.thy ===== *)
theory Sysfile
  imports Exec
begin

unbundle bit_operations_syntax

text \<open>
  The system calls on files, \<^verbatim>\<open>kernel/sysfile.c\<close>. Each handler fetches its arguments from the trapframe,
  checks them, and calls \<open>File\<close> and \<open>Fs\<close>; what it returns is the \<^verbatim>\<open>uint64\<close> the program sees, as an integer
  before the conversion. The local \<^verbatim>\<open>struct dirent de\<close> of a handler is at \<open>de_addr\<close>.
\<close>

subsection \<open>File descriptors\<close>

definition argfd :: "nat \<Rightarrow> 'm memory_scheme \<Rightarrow> ((int \<times> nat) option, 'm memory_scheme) outcome" where
  "argfd n s =
    bnd (argint n s) (\<lambda>fd s.
    if fd < 0 \<or> fd \<ge> int NOFILE then Ret None s
    else
      bnd (curproc s) (\<lambda>p s.
      case ofile (procs s p) (nat fd) of None \<Rightarrow> Ret None s | Some f \<Rightarrow> Ret (Some (fd, f)) s))"

definition set_ofile :: "nat \<Rightarrow> nat \<Rightarrow> nat option \<Rightarrow> 'm machine_scheme \<Rightarrow> 'm machine_scheme" where
  "set_ofile p fd f s = upd_proc p (\<lambda>q. q\<lparr>ofile := (ofile q)(fd := f)\<rparr>) s"

definition fdalloc :: "nat \<Rightarrow> 'm machine_scheme \<Rightarrow> (int, 'm machine_scheme) outcome" where
  "fdalloc f s =
    bnd (curproc s) (\<lambda>p s.
    bnd (for_find [0..<NOFILE] (\<lambda>fd s.
      if ofile (procs s p) fd = None then Ret (Some (int fd)) (set_ofile p fd (Some f) s) else Ret None s) s) (\<lambda>r s.
    case r of Some fd \<Rightarrow> Ret fd s | None \<Rightarrow> Ret (-1) s))"

definition sys_dup :: "'m filest_scheme \<Rightarrow> (int, 'm filest_scheme) outcome" where
  "sys_dup s =
    bnd (argfd 0 s) (\<lambda>a s.
    case a of
      None \<Rightarrow> Ret (-1) s
    | Some (_, f) \<Rightarrow>
        bnd (fdalloc f s) (\<lambda>fd s.
        if fd < 0 then Ret (-1) s else bnd (filedup f s) (\<lambda>_ s. Ret fd s)))"

definition sys_read :: "'m filest_scheme \<Rightarrow> (int, 'm filest_scheme) outcome" where
  "sys_read s =
    bnd (argfd 0 s) (\<lambda>a s.
    case a of
      None \<Rightarrow> Ret (-1) s
    | Some (_, f) \<Rightarrow> bnd (argint 2 s) (\<lambda>n s. bnd (argaddr 1 s) (\<lambda>addr s. fileread f addr n s)))"

definition sys_write :: "'m filest_scheme \<Rightarrow> (int, 'm filest_scheme) outcome" where
  "sys_write s =
    bnd (argfd 0 s) (\<lambda>a s.
    case a of
      None \<Rightarrow> Ret (-1) s
    | Some (_, f) \<Rightarrow> bnd (argint 2 s) (\<lambda>n s. bnd (argaddr 1 s) (\<lambda>addr s. filewrite f addr n s)))"

definition sys_close :: "'m filest_scheme \<Rightarrow> (int, 'm filest_scheme) outcome" where
  "sys_close s =
    bnd (argfd 0 s) (\<lambda>a s.
    case a of
      None \<Rightarrow> Ret (-1) s
    | Some (fd, f) \<Rightarrow>
        bnd (curproc s) (\<lambda>p s.
        bnd (fileclose f (set_ofile p (nat fd) None s)) (\<lambda>_ s. Ret 0 s)))"

definition sys_fstat :: "(nat \<Rightarrow> u8) \<Rightarrow> 'm filest_scheme \<Rightarrow> (int, 'm filest_scheme) outcome" where
  "sys_fstat junk s =
    bnd (argfd 0 s) (\<lambda>a s.
    case a of
      None \<Rightarrow> Ret (-1) s
    | Some (_, f) \<Rightarrow> bnd (argaddr 1 s) (\<lambda>st s. filestat junk f st s))"

subsection \<open>Links\<close>

abbreviation fail_op :: "'m fsst_scheme \<Rightarrow> (int, 'm fsst_scheme) outcome" where
  "fail_op s \<equiv> bnd (end_op s) (\<lambda>_ s. Ret (-1) s)"

definition add_nlink :: "nat \<Rightarrow> u16 \<Rightarrow> 'm fsst_scheme \<Rightarrow> (unit, 'm fsst_scheme) outcome" where
  "add_nlink ip d s = iupdate ip (upd_inode ip (\<lambda>x. x\<lparr>i_nlink := i_nlink x + d\<rparr>) s)"

definition link_bad :: "nat \<Rightarrow> 'm fsst_scheme \<Rightarrow> (int, 'm fsst_scheme) outcome" where
  "link_bad ip s =
    bnd (ilock ip s) (\<lambda>_ s.
    bnd (add_nlink ip (-1) s) (\<lambda>_ s.
    bnd (iunlockput ip s) (\<lambda>_ s. fail_op s)))"

text \<open>\<open>sys_link\<close> once both paths are fetched and the operation has begun.\<close>

definition link_paths :: "u8 list \<Rightarrow> u8 list \<Rightarrow> 'm fsst_scheme \<Rightarrow> (int, 'm fsst_scheme) outcome" where
  "link_paths old new s =
    bnd (namei old s) (\<lambda>ip s.
    case ip of
      None \<Rightarrow> fail_op s
    | Some ip \<Rightarrow>
        bnd (ilock ip s) (\<lambda>_ s.
        if i_type (itable s ip) = T_DIR then bnd (iunlockput ip s) (\<lambda>_ s. fail_op s)
        else
          bnd (add_nlink ip 1 s) (\<lambda>_ s.
          bnd (iunlock ip s) (\<lambda>_ s.
          bnd (nameiparent new (\<lambda>_. 0) s) (\<lambda>(dp, name) s.
          case dp of
            None \<Rightarrow> link_bad ip s
          | Some dp \<Rightarrow>
              bnd (ilock dp s) (\<lambda>_ s.
              bnd (if i_dev (itable s dp) \<noteq> i_dev (itable s ip) then Ret (-1) s
                   else dirlink dp name (i_inum (itable s ip)) s) (\<lambda>r s.
              if r < 0 then bnd (iunlockput dp s) (\<lambda>_ s. link_bad ip s)
              else
                bnd (iunlockput dp s) (\<lambda>_ s.
                bnd (iput ip s) (\<lambda>_ s.
                bnd (end_op s) (\<lambda>_ s. Ret 0 s))))))))))"

definition sys_link :: "'m fsst_scheme \<Rightarrow> (int, 'm fsst_scheme) outcome" where
  "sys_link s =
    bnd (argstr 0 s) (\<lambda>old s.
    case old of
      None \<Rightarrow> Ret (-1) s
    | Some old \<Rightarrow>
        bnd (argstr 1 s) (\<lambda>new s.
        case new of
          None \<Rightarrow> Ret (-1) s
        | Some new \<Rightarrow> bnd (begin_op s) (\<lambda>_ s. link_paths old new s)))"

text \<open>\<^verbatim>\<open>off < dp->size\<close> is an unsigned comparison.\<close>

function isdirempty_loop :: "nat \<Rightarrow> u32 \<Rightarrow> 'm fsst_scheme \<Rightarrow> (bool, 'm fsst_scheme) outcome" where
  "isdirempty_loop dp off s =
    (if off < i_size (itable s dp) then
       bnd (readi dp False (de_addr s) off 16 s) (\<lambda>r s.
       if r \<noteq> 16 then Panic ''isdirempty: readi''
       else if de_inum (pmem s) (de_addr s) \<noteq> 0 then Ret False s
       else isdirempty_loop dp (off + 16) s)
     else Ret True s)"
  by pat_completeness auto
termination
  by (relation "measure (\<lambda>(dp, off, s). 4294967296 - unat off)")
    (auto dest!: readi_no_wrap intro: entry_measure)

declare isdirempty_loop.simps [simp del]

definition isdirempty :: "nat \<Rightarrow> 'm fsst_scheme \<Rightarrow> (bool, 'm fsst_scheme) outcome" where
  "isdirempty dp s = isdirempty_loop dp 32 s"

definition unlink_bad :: "nat \<Rightarrow> 'm fsst_scheme \<Rightarrow> (int, 'm fsst_scheme) outcome" where
  "unlink_bad dp s = bnd (iunlockput dp s) (\<lambda>_ s. fail_op s)"

text \<open>The removal itself, with both inodes locked and the entry at \<open>off\<close>.\<close>

definition unlink_entry :: "nat \<Rightarrow> nat \<Rightarrow> u32 \<Rightarrow> 'm fsst_scheme \<Rightarrow> (int, 'm fsst_scheme) outcome" where
  "unlink_entry dp ip off s =
    (let s = s\<lparr>pmem := memset (pmem s) (de_addr s) 0 16\<rparr>
     in bnd (writei dp False (de_addr s) off 16 s) (\<lambda>r s.
        if r \<noteq> 16 then Panic ''unlink: writei''
        else
          bnd (if i_type (itable s ip) = T_DIR then add_nlink dp (-1) s else Ret () s) (\<lambda>_ s.
          bnd (iunlockput dp s) (\<lambda>_ s.
          bnd (add_nlink ip (-1) s) (\<lambda>_ s.
          bnd (iunlockput ip s) (\<lambda>_ s.
          bnd (end_op s) (\<lambda>_ s. Ret 0 s)))))))"

definition unlink_path :: "u8 list \<Rightarrow> 'm fsst_scheme \<Rightarrow> (int, 'm fsst_scheme) outcome" where
  "unlink_path path s =
    bnd (nameiparent path (\<lambda>_. 0) s) (\<lambda>(dp, name) s.
    case dp of
      None \<Rightarrow> fail_op s
    | Some dp \<Rightarrow>
        bnd (ilock dp s) (\<lambda>_ s.
        if namecmp name (arr (bytes ''.'')) = 0 \<or> namecmp name (arr (bytes ''..'')) = 0 then unlink_bad dp s
        else
          bnd (dirlookup dp name s) (\<lambda>r s.
          case r of
            None \<Rightarrow> unlink_bad dp s
          | Some (ip, off) \<Rightarrow>
              bnd (ilock ip s) (\<lambda>_ s.
              if sint (i_nlink (itable s ip)) < 1 then Panic ''unlink: nlink < 1''
              else
                bnd (if i_type (itable s ip) = T_DIR then isdirempty ip s else Ret True s) (\<lambda>e s.
                if \<not> e then bnd (iunlockput ip s) (\<lambda>_ s. unlink_bad dp s)
                else unlink_entry dp ip off s)))))"

definition sys_unlink :: "'m fsst_scheme \<Rightarrow> (int, 'm fsst_scheme) outcome" where
  "sys_unlink s =
    bnd (argstr 0 s) (\<lambda>path s.
    case path of
      None \<Rightarrow> Ret (-1) s
    | Some path \<Rightarrow> bnd (begin_op s) (\<lambda>_ s. unlink_path path s))"

subsection \<open>Creating and opening\<close>

definition create :: "u8 list \<Rightarrow> u16 \<Rightarrow> u16 \<Rightarrow> u16 \<Rightarrow> 'm fsst_scheme \<Rightarrow> (nat option, 'm fsst_scheme) outcome" where
  "create path ty major minor s =
    bnd (nameiparent path (\<lambda>_. 0) s) (\<lambda>(dp, name) s.
    case dp of
      None \<Rightarrow> Ret None s
    | Some dp \<Rightarrow>
        bnd (ilock dp s) (\<lambda>_ s.
        bnd (dirlookup dp name s) (\<lambda>r s.
        case r of
          Some (ip, _) \<Rightarrow>
            bnd (iunlockput dp s) (\<lambda>_ s.
            bnd (ilock ip s) (\<lambda>_ s.
            if ty = T_FILE \<and> (i_type (itable s ip) = T_FILE \<or> i_type (itable s ip) = T_DEVICE) then Ret (Some ip) s
            else bnd (iunlockput ip s) (\<lambda>_ s. Ret None s)))
        | None \<Rightarrow>
            bnd (ialloc (i_dev (itable s dp)) ty s) (\<lambda>ip s.
            bnd (ilock ip s) (\<lambda>_ s.
            bnd (iupdate ip (upd_inode ip (\<lambda>x. x\<lparr>i_major := major, i_minor := minor, i_nlink := 1\<rparr>) s)) (\<lambda>_ s.
            bnd (if ty = T_DIR then
                   bnd (add_nlink dp 1 s) (\<lambda>_ s.
                   bnd (dirlink ip (arr (bytes ''.'')) (i_inum (itable s ip)) s) (\<lambda>r s.
                   if r < 0 then Panic ''create dots''
                   else
                     bnd (dirlink ip (arr (bytes ''..'')) (i_inum (itable s dp)) s) (\<lambda>r s.
                     if r < 0 then Panic ''create dots'' else Ret () s)))
                 else Ret () s) (\<lambda>_ s.
            bnd (dirlink dp name (i_inum (itable s ip)) s) (\<lambda>r s.
            if r < 0 then Panic ''create: dirlink''
            else bnd (iunlockput dp s) (\<lambda>_ s. Ret (Some ip) s)))))))))"

definition O_RDONLY :: u32 where "O_RDONLY = 0x000"
definition O_WRONLY :: u32 where "O_WRONLY = 0x001"
definition O_RDWR :: u32 where "O_RDWR = 0x002"
definition O_CREATE :: u32 where "O_CREATE = 0x200"
definition O_TRUNC :: u32 where "O_TRUNC = 0x400"

definition open_entry :: "nat \<Rightarrow> u32 \<Rightarrow> inode \<Rightarrow> ofile_entry \<Rightarrow> ofile_entry" where
  "open_entry ip omode x f =
    (if i_type x = T_DEVICE then f\<lparr>f_type := FD_DEVICE, f_major := i_major x\<rparr> else f\<lparr>f_type := FD_INODE, f_off := 0\<rparr>)
      \<lparr>f_ip := ip, f_readable := (if omode AND O_WRONLY = 0 then 1 else 0),
       f_writable := (if omode AND O_WRONLY \<noteq> 0 \<or> omode AND O_RDWR \<noteq> 0 then 1 else 0)\<rparr>"

text \<open>\<open>sys_open\<close> from the point where the inode is found and locked.\<close>

definition open_inode :: "nat \<Rightarrow> u32 \<Rightarrow> 'm filest_scheme \<Rightarrow> (int, 'm filest_scheme) outcome" where
  "open_inode ip omode s =
    (if i_type (itable s ip) = T_DEVICE \<and> (sint (i_major (itable s ip)) < 0 \<or> sint (i_major (itable s ip)) \<ge> NDEV) then
       bnd (iunlockput ip s) (\<lambda>_ s. fail_op s)
     else
       bnd (filealloc s) (\<lambda>f s.
       case f of
         None \<Rightarrow> bnd (iunlockput ip s) (\<lambda>_ s. fail_op s)
       | Some f \<Rightarrow>
           bnd (fdalloc f s) (\<lambda>fd s.
           if fd < 0 then
             bnd (fileclose f s) (\<lambda>_ s. bnd (iunlockput ip s) (\<lambda>_ s. fail_op s))
           else
             let s = upd_file f (open_entry ip omode (itable s ip)) s
             in bnd (if omode AND O_TRUNC \<noteq> 0 \<and> i_type (itable s ip) = T_FILE then itrunc ip s else Ret () s) (\<lambda>_ s.
                bnd (iunlock ip s) (\<lambda>_ s.
                bnd (end_op s) (\<lambda>_ s. Ret fd s))))))"

definition open_path :: "u8 list \<Rightarrow> u32 \<Rightarrow> 'm filest_scheme \<Rightarrow> (int, 'm filest_scheme) outcome" where
  "open_path path omode s =
    bnd (begin_op s) (\<lambda>_ s.
    if omode AND O_CREATE \<noteq> 0 then
      bnd (create path T_FILE 0 0 s) (\<lambda>ip s.
      case ip of None \<Rightarrow> fail_op s | Some ip \<Rightarrow> open_inode ip omode s)
    else
      bnd (namei path s) (\<lambda>ip s.
      case ip of
        None \<Rightarrow> fail_op s
      | Some ip \<Rightarrow>
          bnd (ilock ip s) (\<lambda>_ s.
          if i_type (itable s ip) = T_DIR \<and> omode \<noteq> O_RDONLY then bnd (iunlockput ip s) (\<lambda>_ s. fail_op s)
          else open_inode ip omode s)))"

definition sys_open :: "'m filest_scheme \<Rightarrow> (int, 'm filest_scheme) outcome" where
  "sys_open s =
    bnd (argstr 0 s) (\<lambda>path s.
    case path of
      None \<Rightarrow> Ret (-1) s
    | Some path \<Rightarrow> bnd (argint 1 s) (\<lambda>omode s. open_path path (of_int omode) s))"

definition sys_mkdir :: "'m fsst_scheme \<Rightarrow> (int, 'm fsst_scheme) outcome" where
  "sys_mkdir s =
    bnd (begin_op s) (\<lambda>_ s.
    bnd (argstr 0 s) (\<lambda>path s.
    case path of
      None \<Rightarrow> fail_op s
    | Some path \<Rightarrow>
        bnd (create path T_DIR 0 0 s) (\<lambda>ip s.
        case ip of
          None \<Rightarrow> fail_op s
        | Some ip \<Rightarrow> bnd (iunlockput ip s) (\<lambda>_ s. bnd (end_op s) (\<lambda>_ s. Ret 0 s)))))"

definition sys_mknod :: "'m fsst_scheme \<Rightarrow> (int, 'm fsst_scheme) outcome" where
  "sys_mknod s =
    bnd (begin_op s) (\<lambda>_ s.
    bnd (argstr 0 s) (\<lambda>path s.
    case path of
      None \<Rightarrow> fail_op s
    | Some path \<Rightarrow>
        bnd (argint 1 s) (\<lambda>major s.
        bnd (argint 2 s) (\<lambda>minor s.
        bnd (create path T_DEVICE (of_int major) (of_int minor) s) (\<lambda>ip s.
        case ip of
          None \<Rightarrow> fail_op s
        | Some ip \<Rightarrow> bnd (iunlockput ip s) (\<lambda>_ s. bnd (end_op s) (\<lambda>_ s. Ret 0 s)))))))"

definition sys_chdir :: "'m fsst_scheme \<Rightarrow> (int, 'm fsst_scheme) outcome" where
  "sys_chdir s =
    bnd (curproc s) (\<lambda>p s.
    bnd (begin_op s) (\<lambda>_ s.
    bnd (argstr 0 s) (\<lambda>path s.
    case path of
      None \<Rightarrow> fail_op s
    | Some path \<Rightarrow>
        bnd (namei path s) (\<lambda>ip s.
        case ip of
          None \<Rightarrow> fail_op s
        | Some ip \<Rightarrow>
            bnd (ilock ip s) (\<lambda>_ s.
            if i_type (itable s ip) \<noteq> T_DIR then bnd (iunlockput ip s) (\<lambda>_ s. fail_op s)
            else
              bnd (iunlock ip s) (\<lambda>_ s.
              bnd (case cwd (procs s p) of None \<Rightarrow> Panic ''kerneltrap'' | Some c \<Rightarrow> iput c s) (\<lambda>_ s.
              bnd (end_op s) (\<lambda>_ s.
              Ret 0 (upd_proc p (\<lambda>q. q\<lparr>cwd := Some ip\<rparr>) s)))))))))"

subsection \<open>exec and pipe\<close>

text \<open>Fetching the argument vector. The result is the pages filled so far and whether it succeeded.\<close>

fun fetch_argv :: "u64 \<Rightarrow> nat \<Rightarrow> u64 list \<Rightarrow> 'm memory_scheme \<Rightarrow> (bool \<times> u64 list, 'm memory_scheme) outcome" where
  "fetch_argv uargv 0 argv s = Ret (False, argv) s"
| "fetch_argv uargv (Suc left) argv s =
    bnd (fetchaddr (uargv + 8 * of_nat (length argv)) s) (\<lambda>uarg s.
    case uarg of
      None \<Rightarrow> Ret (False, argv) s
    | Some uarg \<Rightarrow>
        if uarg = 0 then Ret (True, argv) s
        else
          bnd (kalloc s) (\<lambda>pg s.
          if pg = 0 then Ret (False, argv) s
          else
            bnd (fetchstr uarg (kbytes (pmem s) pg) 4096 s) (\<lambda>(r, buf) s.
            let s = s\<lparr>pmem := put_bytes (pmem s) pg buf 4096\<rparr>
            in if r < 0 then Ret (False, argv @ [pg]) s
               else fetch_argv uargv left (argv @ [pg]) s)))"

definition free_argv :: "u64 list \<Rightarrow> 'm memory_scheme \<Rightarrow> (unit, 'm memory_scheme) outcome" where
  "free_argv argv s = for_each argv kfree s"

definition sys_exec :: "ksyms \<Rightarrow> 'm fsst_scheme \<Rightarrow> (int, 'm fsst_scheme) outcome" where
  "sys_exec K s =
    bnd (argstr 0 s) (\<lambda>path s.
    case path of
      None \<Rightarrow> Ret (-1) s
    | Some path \<Rightarrow>
        bnd (argaddr 1 s) (\<lambda>uargv s.
        bnd (fetch_argv uargv MAXARG [] s) (\<lambda>(ok, argv) s.
        bnd (if ok then exec K path argv s else Ret (-1) s) (\<lambda>r s.
        bnd (free_argv argv s) (\<lambda>_ s. Ret r s)))))"

definition pipe_fail :: "nat \<Rightarrow> nat \<Rightarrow> 'm filest_scheme \<Rightarrow> (int, 'm filest_scheme) outcome" where
  "pipe_fail rfile wfile s = bnd (fileclose rfile s) (\<lambda>_ s. bnd (fileclose wfile s) (\<lambda>_ s. Ret (-1) s))"

definition sys_pipe :: "'m filest_scheme \<Rightarrow> (int, 'm filest_scheme) outcome" where
  "sys_pipe s =
    bnd (curproc s) (\<lambda>p s.
    bnd (argaddr 0 s) (\<lambda>fdarray s.
    bnd (pipealloc s) (\<lambda>r s.
    case r of
      None \<Rightarrow> Ret (-1) s
    | Some (rfile, wfile) \<Rightarrow>
        bnd (fdalloc rfile s) (\<lambda>fd0 s.
        if fd0 < 0 then pipe_fail rfile wfile s
        else
          bnd (fdalloc wfile s) (\<lambda>fd1 s.
          if fd1 < 0 then pipe_fail rfile wfile (set_ofile p (nat fd0) None s)
          else
            let pt = pagetable (procs s p); both = (\<lambda>s. set_ofile p (nat fd1) None (set_ofile p (nat fd0) None s))
            in bnd (copyout pt fdarray (\<lambda>k. le_byte k (of_int fd0 :: u32)) 4 s) (\<lambda>r s.
               if r < 0 then pipe_fail rfile wfile (both s)
               else
                 bnd (copyout pt (fdarray + 4) (\<lambda>k. le_byte k (of_int fd1 :: u32)) 4 s) (\<lambda>r s.
                 if r < 0 then pipe_fail rfile wfile (both s) else Ret 0 s)))))))"

end
