(* ===== verification/Virtio.thy ===== *)
theory Virtio
  imports File
begin

unbundle bit_operations_syntax

text \<open>
  The driver of the virtio disk, \<^verbatim>\<open>kernel/virtio_disk.c\<close>. The descriptor table, the two rings and the
  driver's book-keeping are typed; an address that the driver gives to the device is the name of what
  it points to (\<open>daddr\<close>). The registers are read through \<open>vd_reg\<close>, any function, and the writes to them
  are kept in order in \<open>vd_mmio\<close>. The buffer cache uses the disk through \<open>disk_rw\<close>, an array of blocks;
  here is how a transfer is handed to the device and taken back.
\<close>

subsection \<open>Data\<close>

definition NUM :: nat where "NUM = 8"
definition VRING_DESC_F_NEXT :: u16 where "VRING_DESC_F_NEXT = 1"
definition VRING_DESC_F_WRITE :: u16 where "VRING_DESC_F_WRITE = 2"
definition VIRTIO_BLK_T_IN :: u32 where "VIRTIO_BLK_T_IN = 0"
definition VIRTIO_BLK_T_OUT :: u32 where "VIRTIO_BLK_T_OUT = 1"

datatype daddr = D_null | D_req nat | D_data nat | D_status nat

record virtq_desc =
  d_addr :: daddr
  d_len :: u32
  d_flags :: u16
  d_next :: u16

record virtio_blk_req =
  vr_type :: u32
  vr_reserved :: u32
  vr_sector :: u64

record vdisk =
  vd_desc :: "nat \<Rightarrow> virtq_desc"
  vd_avail_idx :: u16
  vd_avail_ring :: "nat \<Rightarrow> u16"
  vd_dev_idx :: u16
  vd_used_ring :: "nat \<Rightarrow> u32"
  vd_free :: "nat \<Rightarrow> bool"
  vd_used_idx :: u16
  vd_info_b :: "nat \<Rightarrow> nat option"
  vd_info_status :: "nat \<Rightarrow> u8"
  vd_ops :: "nat \<Rightarrow> virtio_blk_req"
  vd_busy :: "nat \<Rightarrow> bool"
  vd_reg :: "u64 \<Rightarrow> u32"
  vd_mmio :: "(u64 \<times> u32) list"

record vdst = filest +
  vdisk :: vdisk

definition upd_vd :: "(vdisk \<Rightarrow> vdisk) \<Rightarrow> 'm vdst_scheme \<Rightarrow> 'm vdst_scheme" where
  "upd_vd f s = s\<lparr>vdisk := f (vdisk s)\<rparr>"

abbreviation wreg :: "u64 \<Rightarrow> u32 \<Rightarrow> vdisk \<Rightarrow> vdisk" where
  "wreg r v d \<equiv> d\<lparr>vd_mmio := vd_mmio d @ [(r, v)]\<rparr>"

subsection \<open>Initialisation\<close>

definition VIRTIO_MMIO_MAGIC_VALUE :: u64 where "VIRTIO_MMIO_MAGIC_VALUE = 0x000"
definition VIRTIO_MMIO_VERSION :: u64 where "VIRTIO_MMIO_VERSION = 0x004"
definition VIRTIO_MMIO_DEVICE_ID :: u64 where "VIRTIO_MMIO_DEVICE_ID = 0x008"
definition VIRTIO_MMIO_VENDOR_ID :: u64 where "VIRTIO_MMIO_VENDOR_ID = 0x00c"
definition VIRTIO_MMIO_DEVICE_FEATURES :: u64 where "VIRTIO_MMIO_DEVICE_FEATURES = 0x010"
definition VIRTIO_MMIO_DRIVER_FEATURES :: u64 where "VIRTIO_MMIO_DRIVER_FEATURES = 0x020"
definition VIRTIO_MMIO_GUEST_PAGE_SIZE :: u64 where "VIRTIO_MMIO_GUEST_PAGE_SIZE = 0x028"
definition VIRTIO_MMIO_QUEUE_SEL :: u64 where "VIRTIO_MMIO_QUEUE_SEL = 0x030"
definition VIRTIO_MMIO_QUEUE_NUM_MAX :: u64 where "VIRTIO_MMIO_QUEUE_NUM_MAX = 0x034"
definition VIRTIO_MMIO_QUEUE_NUM :: u64 where "VIRTIO_MMIO_QUEUE_NUM = 0x038"
definition VIRTIO_MMIO_QUEUE_PFN :: u64 where "VIRTIO_MMIO_QUEUE_PFN = 0x040"
definition VIRTIO_MMIO_QUEUE_NOTIFY :: u64 where "VIRTIO_MMIO_QUEUE_NOTIFY = 0x050"
definition VIRTIO_MMIO_INTERRUPT_STATUS :: u64 where "VIRTIO_MMIO_INTERRUPT_STATUS = 0x060"
definition VIRTIO_MMIO_INTERRUPT_ACK :: u64 where "VIRTIO_MMIO_INTERRUPT_ACK = 0x064"
definition VIRTIO_MMIO_STATUS :: u64 where "VIRTIO_MMIO_STATUS = 0x070"

text \<open>The features the driver declines: bits 5, 7, 11, 12, 27, 29, 28.\<close>

definition accepted_features :: "u32 \<Rightarrow> u32" where
  "accepted_features f = foldl (\<lambda>f b. f AND NOT (push_bit b 1)) f [5, 7, 11, 12, 27, 29, 28]"

definition empty_desc :: virtq_desc where
  "empty_desc = \<lparr>d_addr = D_null, d_len = 0, d_flags = 0, d_next = 0\<rparr>"

text \<open>\<open>pages\<close> is the address of the two pages the queue lives in; \<^verbatim>\<open>memset\<close> clears the three regions.\<close>

definition virtio_disk_init :: "u64 \<Rightarrow> 'm vdst_scheme \<Rightarrow> (unit, 'm vdst_scheme) outcome" where
  "virtio_disk_init pages s =
    (let s = initlock Lk_vdisk ''virtio_disk'' s; R = vd_reg (vdisk s)
     in if R VIRTIO_MMIO_MAGIC_VALUE \<noteq> 0x74726976 \<or> R VIRTIO_MMIO_VERSION \<noteq> 1
           \<or> R VIRTIO_MMIO_DEVICE_ID \<noteq> 2 \<or> R VIRTIO_MMIO_VENDOR_ID \<noteq> 0x554d4551
        then Panic ''could not find virtio disk''
        else
          let s = upd_vd (wreg VIRTIO_MMIO_STATUS 1) s;
              s = upd_vd (wreg VIRTIO_MMIO_STATUS (1 OR 2)) s;
              s = upd_vd (wreg VIRTIO_MMIO_DRIVER_FEATURES (accepted_features (R VIRTIO_MMIO_DEVICE_FEATURES))) s;
              s = upd_vd (wreg VIRTIO_MMIO_STATUS (1 OR 2 OR 8)) s;
              s = upd_vd (wreg VIRTIO_MMIO_STATUS (1 OR 2 OR 8 OR 4)) s;
              s = upd_vd (wreg VIRTIO_MMIO_GUEST_PAGE_SIZE 4096) s;
              s = upd_vd (wreg VIRTIO_MMIO_QUEUE_SEL 0) s;
              mx = R VIRTIO_MMIO_QUEUE_NUM_MAX
          in if mx = 0 then Panic ''virtio disk has no queue 0''
             else if mx < of_nat NUM then Panic ''virtio disk max queue too short''
             else
               let s = upd_vd (wreg VIRTIO_MMIO_QUEUE_NUM (of_nat NUM)) s;
                   s = upd_vd (\<lambda>d. d\<lparr>vd_desc := \<lambda>_. empty_desc, vd_avail_idx := 0, vd_avail_ring := \<lambda>_. 0,
                         vd_dev_idx := 0, vd_used_ring := \<lambda>_. 0\<rparr>) s;
                   s = upd_vd (wreg VIRTIO_MMIO_QUEUE_PFN (ucast (drop_bit 12 pages))) s;
                   s = upd_vd (\<lambda>d. d\<lparr>vd_free := \<lambda>i. if i < NUM then True else vd_free d i\<rparr>) s
               in Ret () s)"

subsection \<open>Descriptors\<close>

definition alloc_desc :: "'m vdst_scheme \<Rightarrow> nat option \<times> 'm vdst_scheme" where
  "alloc_desc s =
    (case find (vd_free (vdisk s)) [0..<NUM] of
       None \<Rightarrow> (None, s)
     | Some i \<Rightarrow> (Some i, upd_vd (\<lambda>d. d\<lparr>vd_free := (vd_free d)(i := False)\<rparr>) s))"

definition free_desc :: "nat \<Rightarrow> 'm vdst_scheme \<Rightarrow> (unit, 'm vdst_scheme) outcome" where
  "free_desc i s =
    (if i \<ge> NUM then Panic ''free_desc 1''
     else if vd_free (vdisk s) i then Panic ''free_desc 2''
     else wakeup Ch_desc_free
       (upd_vd (\<lambda>d. d\<lparr>vd_desc := (vd_desc d)(i := empty_desc), vd_free := (vd_free d)(i := True)\<rparr>) s))"

lemma more_vdisk: "machine.more t = machine.more s \<Longrightarrow> vdisk t = vdisk s"
  by (cases s, cases t) simp

lemma free_desc_vdisk:
  "free_desc i s = Ret u t \<Longrightarrow> i < NUM \<and> \<not> vd_free (vdisk s) i \<and> vd_free (vdisk t) = (vd_free (vdisk s))(i := True)"
  by (auto simp: free_desc_def upd_vd_def dest!: wakeup_more [THEN more_vdisk] split: if_splits)

function free_chain :: "nat \<Rightarrow> 'm vdst_scheme \<Rightarrow> (unit, 'm vdst_scheme) outcome" where
  "free_chain i s =
    (let flag = d_flags (vd_desc (vdisk s) i); nxt = d_next (vd_desc (vdisk s) i)
     in bnd (free_desc i s) (\<lambda>_ s.
        if flag AND VRING_DESC_F_NEXT \<noteq> 0 then free_chain (unat nxt) s else Ret () s))"
  by pat_completeness auto
termination
proof (relation "measure (\<lambda>(i, s). card {j. j < NUM \<and> \<not> vd_free (vdisk s) j})", goal_cases)
  case (2 i s flag nxt u t)
  note f = free_desc_vdisk [OF 2(3)]
  have "{j. j < NUM \<and> \<not> vd_free (vdisk t) j} = {j. j < NUM \<and> \<not> vd_free (vdisk s) j} - {i}" using f by auto
  moreover have "card ({j. j < NUM \<and> \<not> vd_free (vdisk s) j} - {i}) < card {j. j < NUM \<and> \<not> vd_free (vdisk s) j}"
    by (rule card_Diff1_less) (use f in simp_all)
  ultimately show ?case by (simp only: in_measure case_prod_conv)
qed simp

declare free_chain.simps [simp del]

text \<open>\<open>alloc3_desc\<close>: three descriptors, or none and those it got freed again.\<close>

definition alloc3_desc :: "'m vdst_scheme \<Rightarrow> ((nat \<times> nat \<times> nat) option, 'm vdst_scheme) outcome" where
  "alloc3_desc s =
    (case alloc_desc s of
       (None, s) \<Rightarrow> Ret None s
     | (Some a, s) \<Rightarrow>
         (case alloc_desc s of
            (None, s) \<Rightarrow> bnd (free_desc a s) (\<lambda>_ s. Ret None s)
          | (Some b, s) \<Rightarrow>
              (case alloc_desc s of
                 (None, s) \<Rightarrow> bnd (free_desc a s) (\<lambda>_ s. bnd (free_desc b s) (\<lambda>_ s. Ret None s))
               | (Some c, s) \<Rightarrow> Ret (Some (a, b, c)) s)))"

subsection \<open>A transfer\<close>

text \<open>The three descriptors of a request and its entry in the ring of requests.\<close>

definition format_chain :: "nat \<Rightarrow> u32 \<Rightarrow> bool \<Rightarrow> nat \<Rightarrow> nat \<Rightarrow> nat \<Rightarrow> vdisk \<Rightarrow> vdisk" where
  "format_chain b blockno wr i0 i1 i2 d =
    d\<lparr>vd_ops := (vd_ops d)(i0 := \<lparr>vr_type = if wr then VIRTIO_BLK_T_OUT else VIRTIO_BLK_T_IN, vr_reserved = 0,
        vr_sector = ucast (blockno * 2)\<rparr>),
      vd_desc := (vd_desc d)
        (i0 := \<lparr>d_addr = D_req i0, d_len = 16, d_flags = VRING_DESC_F_NEXT, d_next = of_nat i1\<rparr>,
         i1 := \<lparr>d_addr = D_data b, d_len = of_nat BSIZE,
            d_flags = (if wr then 0 else VRING_DESC_F_WRITE) OR VRING_DESC_F_NEXT, d_next = of_nat i2\<rparr>,
         i2 := \<lparr>d_addr = D_status i0, d_len = 1, d_flags = VRING_DESC_F_WRITE, d_next = 0\<rparr>),
      vd_info_status := (vd_info_status d)(i0 := 0xff),
      vd_busy := (vd_busy d)(b := True),
      vd_info_b := (vd_info_b d)(i0 := Some b)\<rparr>"

definition post_chain :: "nat \<Rightarrow> vdisk \<Rightarrow> vdisk" where
  "post_chain i0 d =
    wreg VIRTIO_MMIO_QUEUE_NOTIFY 0
      (d\<lparr>vd_avail_ring := (vd_avail_ring d)(unat (vd_avail_idx d) mod NUM := of_nat i0),
         vd_avail_idx := vd_avail_idx d + 1\<rparr>)"

text \<open>The wait for the interrupt handler, and what follows it.\<close>

definition rw_wait :: "nat \<Rightarrow> nat \<Rightarrow> 'm vdst_scheme \<Rightarrow> (unit, 'm vdst_scheme) outcome" where
  "rw_wait b i0 s =
    (if vd_busy (vdisk s) b then sleep (Ch_buf b) Lk_vdisk s
     else
       let s = upd_vd (\<lambda>d. d\<lparr>vd_info_b := (vd_info_b d)(i0 := None)\<rparr>) s
       in bnd (free_chain i0 s) (\<lambda>_ s. release Lk_vdisk s))"

definition rw_turn :: "nat \<Rightarrow> bool \<Rightarrow> 'm vdst_scheme \<Rightarrow> (unit, 'm vdst_scheme) outcome" where
  "rw_turn b wr s =
    bnd (alloc3_desc s) (\<lambda>r s.
    case r of
      None \<Rightarrow> sleep Ch_desc_free Lk_vdisk s
    | Some (i0, i1, i2) \<Rightarrow>
        let s = upd_vd (format_chain b (b_blockno (bufs s b)) wr i0 i1 i2) s;
            s = upd_vd (post_chain i0) s
        in rw_wait b i0 s)"

definition virtio_disk_rw :: "nat \<Rightarrow> bool \<Rightarrow> 'm vdst_scheme \<Rightarrow> (unit, 'm vdst_scheme) outcome" where
  "virtio_disk_rw b wr s = bnd (acquire Lk_vdisk s) (\<lambda>_ s. rw_turn b wr s)"

definition rw_turn_back :: "nat \<Rightarrow> bool \<Rightarrow> nat \<Rightarrow> bool \<Rightarrow> 'm vdst_scheme \<Rightarrow> (unit, 'm vdst_scheme) outcome" where
  "rw_turn_back p ena b wr s = bnd (sleep_back p ena Lk_vdisk s) (\<lambda>_ s. rw_turn b wr s)"

definition rw_wait_back :: "nat \<Rightarrow> bool \<Rightarrow> nat \<Rightarrow> nat \<Rightarrow> 'm vdst_scheme \<Rightarrow> (unit, 'm vdst_scheme) outcome" where
  "rw_wait_back p ena b i0 s = bnd (sleep_back p ena Lk_vdisk s) (\<lambda>_ s. rw_wait b i0 s)"

text \<open>The loop of the interrupt handler over the entries the device has added. A null \<open>b\<close> faults.\<close>

definition intr_one :: "'m vdst_scheme \<Rightarrow> (unit, 'm vdst_scheme) outcome" where
  "intr_one s =
    (let d = vdisk s; i = unat (vd_used_ring d (unat (vd_used_idx d) mod NUM))
     in if vd_info_status d i \<noteq> 0 then Panic ''virtio_disk_intr status''
        else case vd_info_b d i of
            None \<Rightarrow> Panic ''kerneltrap''
          | Some b \<Rightarrow>
              bnd (wakeup (Ch_buf b) (upd_vd (\<lambda>d. d\<lparr>vd_busy := (vd_busy d)(b := False)\<rparr>) s)) (\<lambda>_ s.
              Ret () (upd_vd (\<lambda>d. d\<lparr>vd_used_idx := vd_used_idx d + 1\<rparr>) s)))"

lemma intr_one_idx:
  "intr_one s = Ret u t \<Longrightarrow> vd_used_idx (vdisk t) = vd_used_idx (vdisk s) + 1 \<and> vd_dev_idx (vdisk t) = vd_dev_idx (vdisk s)"
  by (auto simp: intr_one_def upd_vd_def Let_def bnd_eq_Ret dest!: wakeup_more [THEN more_vdisk] split: if_splits option.splits)

function intr_loop :: "'m vdst_scheme \<Rightarrow> (unit, 'm vdst_scheme) outcome" where
  "intr_loop s =
    (if vd_used_idx (vdisk s) \<noteq> vd_dev_idx (vdisk s) then bnd (intr_one s) (\<lambda>_ s. intr_loop s) else Ret () s)"
  by pat_completeness auto
termination
proof (relation "measure (\<lambda>s. unat (vd_dev_idx (vdisk s) - vd_used_idx (vdisk s)))", goal_cases)
  case (2 s u t)
  have nz: "vd_dev_idx (vdisk s) - vd_used_idx (vdisk s) \<noteq> 0" using 2(1) by simp
  have "unat (vd_dev_idx (vdisk t) - vd_used_idx (vdisk t)) = unat (vd_dev_idx (vdisk s) - vd_used_idx (vdisk s) - 1)"
    using intr_one_idx [OF 2(2)] by (simp add: diff_diff_eq)
  also have "\<dots> = unat (vd_dev_idx (vdisk s) - vd_used_idx (vdisk s)) - 1" by (rule unat_minus_one [OF nz])
  finally show ?case using nz by (simp add: unat_gt_0)
qed simp

declare intr_loop.simps [simp del]

definition virtio_disk_intr :: "'m vdst_scheme \<Rightarrow> (unit, 'm vdst_scheme) outcome" where
  "virtio_disk_intr s =
    bnd (acquire Lk_vdisk s) (\<lambda>_ s.
    let s = upd_vd (\<lambda>d. wreg VIRTIO_MMIO_INTERRUPT_ACK (vd_reg d VIRTIO_MMIO_INTERRUPT_STATUS AND 3) d) s
    in bnd (intr_loop s) (\<lambda>_ s. release Lk_vdisk s))"

subsection \<open>Allocation of descriptors\<close>

lemma upd_vd_world [simp]:
  "calm (upd_vd f s) = calm s" "cur (upd_vd f s) = cur s" "depth (upd_vd f s) = depth s"
  "lock_free l (upd_vd f s) = lock_free l s" "procs_unlocked (upd_vd f s) = procs_unlocked s"
  "world p (upd_vd f s) = world p s" "hart (upd_vd f s) = hart s" "mycpu (upd_vd f s) = mycpu s"
  by (simp_all add: upd_vd_def calm_def cur_def depth_def lock_free_def procs_unlocked_def world_def)

lemma upd_vd_fields [simp]:
  "vdisk (upd_vd f s) = f (vdisk s)" "procs (upd_vd f s) = procs s" "bufs (upd_vd f s) = bufs s"
  "upd_vd f (upd_vd g s) = upd_vd (\<lambda>d. f (g d)) s" "upd_vd (\<lambda>d. d) s = s"
  "(upd_vd f s)\<lparr>procs := x\<rparr> = upd_vd f (s\<lparr>procs := x\<rparr>)" "upd_proc i h (upd_vd f s) = upd_vd f (upd_proc i h s)"
  "set_cproc q (upd_vd f s) = upd_vd f (set_cproc q s)"
  by (simp_all add: upd_vd_def upd_proc_def set_cproc_def)

lemma upd_vd_lock_on [lock_simps, simp]:
  "upd_vd f (lock_on l s) = lock_on l (upd_vd f s)" "vdisk (lock_on l s) = vdisk s"
  by (simp_all add: lock_on_def push_off_def Let_def upd_vd_def)

lemma vdisk_fields [simp]: "vdisk (s\<lparr>procs := x\<rparr>) = vdisk s" "vdisk (upd_proc i h s) = vdisk s" "vdisk (set_cproc q s) = vdisk s"
  by (simp_all add: upd_proc_def set_cproc_def)

definition free_list :: "vdisk \<Rightarrow> nat list" where
  "free_list d = filter (vd_free d) [0..<NUM]"

lemma free_list_mem: "i \<in> set (free_list d) \<longleftrightarrow> i < NUM \<and> vd_free d i"
  by (auto simp: free_list_def)

lemma distinct_free_list: "distinct (free_list d)"
  by (simp add: free_list_def)

definition use_desc :: "nat list \<Rightarrow> vdisk \<Rightarrow> vdisk" where
  "use_desc is d = d\<lparr>vd_free := \<lambda>j. j \<notin> set is \<and> vd_free d j\<rparr>"

definition clear_desc :: "nat list \<Rightarrow> vdisk \<Rightarrow> vdisk" where
  "clear_desc is d = d\<lparr>vd_desc := \<lambda>j. if j \<in> set is then empty_desc else vd_desc d j, vd_free := \<lambda>j. j \<in> set is \<or> vd_free d j\<rparr>"

lemma find_filter: "find P xs = (case filter P xs of [] \<Rightarrow> None | x # _ \<Rightarrow> Some x)"
  by (induction xs) auto

lemma alloc_desc_None: "free_list (vdisk s) = [] \<Longrightarrow> alloc_desc s = (None, s)"
  by (simp add: alloc_desc_def free_list_def find_filter)

lemma alloc_desc_Some: "free_list (vdisk s) = i # is \<Longrightarrow> alloc_desc s = (Some i, upd_vd (use_desc [i]) s)"
  by (auto simp: alloc_desc_def free_list_def find_filter use_desc_def upd_vd_def fun_eq_iff
      intro!: vdst.equality vdisk.equality)

lemma free_list_use: "free_list d = is @ js \<Longrightarrow> free_list (use_desc is d) = js"
proof -
  assume f: "free_list d = is @ js"
  have "free_list (use_desc is d) = filter (\<lambda>j. j \<notin> set is) (free_list d)"
    by (simp add: free_list_def use_desc_def conj_commute)
  also have "\<dots> = js"
  proof -
    have "set is \<inter> set js = {}" using distinct_free_list [of d] f by simp
    then have "filter (\<lambda>j. j \<notin> set is) js = js" by (intro filter_True) auto
    then show ?thesis by (simp add: f)
  qed
  finally show ?thesis .
qed

lemma use_desc_append [simp]: "use_desc is (use_desc js d) = use_desc (js @ is) d"
  by (simp add: use_desc_def conj_ac)

lemma free_desc_eq:
  assumes "calm s" and "procs_unlocked s" and "i < NUM" and "\<not> vd_free (vdisk s) i"
  shows "free_desc i s = Ret () ((upd_vd (clear_desc [i]) s)\<lparr>procs := wake_procs Ch_desc_free (cur s) (procs s)\<rparr>)"
proof -
  have "(\<lambda>d. d\<lparr>vd_desc := (vd_desc d)(i := empty_desc), vd_free := (vd_free d)(i := True)\<rparr>) = clear_desc [i]"
    by (auto simp: clear_desc_def fun_eq_iff)
  then show ?thesis using assms by (simp add: free_desc_def)
qed

text \<open>A free descriptor is empty: \<open>free_desc\<close> clears it, and so does the initialisation.\<close>

definition vd_ok :: "vdisk \<Rightarrow> bool" where
  "vd_ok d \<longleftrightarrow> (\<forall>j<NUM. vd_free d j \<longrightarrow> vd_desc d j = empty_desc)"

lemma clear_use: "vd_ok d \<Longrightarrow> (\<And>i. i \<in> set is \<Longrightarrow> i < NUM \<and> vd_free d i) \<Longrightarrow> clear_desc is (use_desc is d) = d"
  by (rule vdisk.equality) (auto simp: clear_desc_def use_desc_def vd_ok_def fun_eq_iff)

lemma clear_clear [simp]: "clear_desc is (clear_desc js d) = clear_desc (is @ js) d"
  by (auto simp: clear_desc_def fun_eq_iff)

lemma wake_procs_idem [simp]: "wake_procs ch me (wake_procs ch me ps) = wake_procs ch me ps"
  by (auto simp: wake_procs_def fun_eq_iff)

lemma upto3:
  obtains (0) "xs = []" | (1) a where "xs = [a]" | (2) a b where "xs = [a, b]" | (3) a b c r where "xs = a # b # c # r"
  by (metis list.exhaust)

lemma alloc3_desc_eq:
  assumes "calm s" and "procs_unlocked s" and "vd_ok (vdisk s)"
  shows "alloc3_desc s = (case free_list (vdisk s) of
      a # b # c # _ \<Rightarrow> Ret (Some (a, b, c)) (upd_vd (use_desc [a, b, c]) s)
    | [] \<Rightarrow> Ret None s
    | _ \<Rightarrow> Ret None (s\<lparr>procs := wake_procs Ch_desc_free (cur s) (procs s)\<rparr>))"
proof -
  note d = assms
  have mem: "i < NUM \<and> vd_free (vdisk s) i" if "i \<in> set (free_list (vdisk s))" for i using that by (simp add: free_list_mem)
  consider (0) "free_list (vdisk s) = []" | (1) a where "free_list (vdisk s) = [a]"
    | (2) a b where "free_list (vdisk s) = [a, b]" | (3) a b c r where "free_list (vdisk s) = a # b # c # r"
    by (rule upto3)
  then show ?thesis
  proof cases
    case 0
    then show ?thesis by (simp add: alloc3_desc_def alloc_desc_None)
  next
    case 1
    have u: "free_list (use_desc [a] (vdisk s)) = []" by (rule free_list_use) (simp add: 1)
    have "a < NUM" using mem 1 by simp
    moreover have "clear_desc [a] (use_desc [a] (vdisk s)) = vdisk s" by (rule clear_use) (use assms mem 1 in auto)
    ultimately show ?thesis using assms 1 u
      by (simp add: alloc3_desc_def alloc_desc_None alloc_desc_Some free_desc_eq use_desc_def [of "[a]"])
        (simp add: upd_vd_def flip: use_desc_def)
  next
    case 2
    have ne: "a \<noteq> b" using distinct_free_list [of "vdisk s"] 2 by simp
    have u: "free_list (use_desc [a] (vdisk s)) = [b]" "free_list (use_desc [a, b] (vdisk s)) = []"
      by (rule free_list_use, simp add: 2)+
    have n: "a < NUM" "b < NUM" using mem 2 by simp_all
    have c: "clear_desc [b, a] (use_desc [a, b] (vdisk s)) = vdisk s"
    proof -
      have "use_desc [a, b] (vdisk s) = use_desc [b, a] (vdisk s)" by (simp add: use_desc_def conj_ac)
      moreover have "clear_desc [b, a] (use_desc [b, a] (vdisk s)) = vdisk s" by (rule clear_use) (use assms mem 2 in auto)
      ultimately show ?thesis by simp
    qed
    have f: "\<not> vd_free (use_desc [a, b] (vdisk s)) a" "\<not> vd_free (clear_desc [a] (use_desc [a, b] (vdisk s))) b"
      using ne by (simp_all add: use_desc_def clear_desc_def)
    show ?thesis using assms 2 u n c f
      by (simp add: alloc3_desc_def alloc_desc_None alloc_desc_Some free_desc_eq) (simp add: upd_vd_def)
  next
    case 3
    have "free_list (use_desc [a] (vdisk s)) = b # c # r" "free_list (use_desc [a, b] (vdisk s)) = c # r"
      by (rule free_list_use, simp add: 3)+
    then show ?thesis using 3 by (simp add: alloc3_desc_def alloc_desc_Some)
  qed
qed

subsection \<open>A transfer, from the request to its end\<close>

text \<open>What a virtio block device makes of the chain with head \<open>i\<close>: a transfer to (\<open>True\<close>) or from the disk,
  its sector, the buffer and the status byte. \<open>None\<close> if the chain is not a request as the standard has it:
  header, data, status, with the directions the request type asks for.\<close>

definition device_sees :: "vdisk \<Rightarrow> nat \<Rightarrow> (bool \<times> u64 \<times> nat \<times> nat) option" where
  "device_sees d i =
    (let h = vd_desc d i; x = vd_desc d (unat (d_next h)); st = vd_desc d (unat (d_next x));
         out = (\<lambda>k. vr_type (vd_ops d k) = VIRTIO_BLK_T_OUT);
         has = (\<lambda>f w :: u16. f AND w \<noteq> 0)
     in case (d_addr h, d_addr x, d_addr st) of
          (D_req k, D_data b, D_status j) \<Rightarrow>
            if d_len h = 16 \<and> d_len x = of_nat BSIZE \<and> d_len st = 1
               \<and> has (d_flags h) VRING_DESC_F_NEXT \<and> has (d_flags x) VRING_DESC_F_NEXT \<and> \<not> has (d_flags st) VRING_DESC_F_NEXT
               \<and> \<not> has (d_flags h) VRING_DESC_F_WRITE \<and> has (d_flags st) VRING_DESC_F_WRITE
               \<and> has (d_flags x) VRING_DESC_F_WRITE = (\<not> out k)
               \<and> (out k \<or> vr_type (vd_ops d k) = VIRTIO_BLK_T_IN)
            then Some (out k, vr_sector (vd_ops d k), b, j) else None
        | _ \<Rightarrow> None)"

lemma unat_of_nat_desc [simp]: "i < NUM \<Longrightarrow> unat (of_nat i :: u16) = i" "i < NUM \<Longrightarrow> unat (of_nat i :: u32) = i"
  by (simp_all add: NUM_def unat_of_nat take_bit_nat_eq_self)

lemma flag_bits [simp]:
  "VRING_DESC_F_WRITE OR VRING_DESC_F_NEXT = 3" "VRING_DESC_F_NEXT AND VRING_DESC_F_NEXT = 1"
  "VRING_DESC_F_NEXT AND VRING_DESC_F_WRITE = 0" "VRING_DESC_F_WRITE AND VRING_DESC_F_NEXT = 0"
  "VRING_DESC_F_WRITE AND VRING_DESC_F_WRITE = 2" "3 AND VRING_DESC_F_NEXT = 1" "3 AND VRING_DESC_F_WRITE = 2"
  "0 OR VRING_DESC_F_NEXT = 1" "1 AND VRING_DESC_F_NEXT = 1" "1 AND VRING_DESC_F_WRITE = 0"
  "VRING_DESC_F_NEXT \<noteq> 0" "VRING_DESC_F_WRITE \<noteq> 0"
  by (simp_all add: VRING_DESC_F_WRITE_def VRING_DESC_F_NEXT_def)

lemma format_chain_seen:
  assumes "distinct [a, b, c]" and "a < NUM" and "b < NUM" and "c < NUM"
  shows "device_sees (format_chain x n wr a b c d) a = Some (wr, ucast (n * 2), x, a)"
  using assms by (simp add: device_sees_def format_chain_def Let_def VIRTIO_BLK_T_OUT_def VIRTIO_BLK_T_IN_def)

definition chained :: "nat \<Rightarrow> nat \<Rightarrow> nat \<Rightarrow> vdisk \<Rightarrow> bool" where
  "chained a b c d \<longleftrightarrow> distinct [a, b, c] \<and> {a, b, c} \<subseteq> {..<NUM} \<and> \<not> vd_free d a \<and> \<not> vd_free d b \<and> \<not> vd_free d c
     \<and> d_flags (vd_desc d a) AND VRING_DESC_F_NEXT \<noteq> 0 \<and> d_next (vd_desc d a) = of_nat b
     \<and> d_flags (vd_desc d b) AND VRING_DESC_F_NEXT \<noteq> 0 \<and> d_next (vd_desc d b) = of_nat c
     \<and> d_flags (vd_desc d c) AND VRING_DESC_F_NEXT = 0"

lemma free_chain_eq:
  assumes "calm s" and "procs_unlocked s" and "chained a b c (vdisk s)"
  shows "free_chain a s = Ret () ((upd_vd (clear_desc [c, b, a]) s)\<lparr>procs := wake_procs Ch_desc_free (cur s) (procs s)\<rparr>)"
proof -
  let ?w = "\<lambda>s. s\<lparr>procs := wake_procs Ch_desc_free (cur s) (procs s)\<rparr>"
  let ?s1 = "?w (upd_vd (clear_desc [a]) s)" and ?s2 = "?w (upd_vd (clear_desc [b, a]) s)"
  note c = assms(3) [unfolded chained_def]
  have f1: "vd_free (vdisk ?s1) i = (i = a \<or> vd_free (vdisk s) i)" "vd_desc (vdisk ?s1) i = (if i = a then empty_desc else vd_desc (vdisk s) i)" for i
    by (simp_all add: clear_desc_def)
  have f2: "vd_free (vdisk ?s2) i = (i = a \<or> i = b \<or> vd_free (vdisk s) i)"
    "vd_desc (vdisk ?s2) i = (if i = a \<or> i = b then empty_desc else vd_desc (vdisk s) i)" for i
    by (auto simp: clear_desc_def)
  have 1: "free_desc a s = Ret () ?s1" using assms(1,2) c by (simp add: free_desc_eq)
  have 2: "free_desc b ?s1 = Ret () ?s2" using assms(1,2) c f1 by (subst free_desc_eq) simp_all
  have 3: "free_desc c ?s2 = Ret () (?w (upd_vd (clear_desc [c, b, a]) s))" using assms(1,2) c f2 by (subst free_desc_eq) simp_all
  have "free_chain c ?s2 = Ret () (?w (upd_vd (clear_desc [c, b, a]) s))"
    using c f2 3 by (subst free_chain.simps) (simp add: Let_def)
  then have "free_chain b ?s1 = Ret () (?w (upd_vd (clear_desc [c, b, a]) s))"
    using c f1 2 by (subst free_chain.simps) (simp add: Let_def)
  then show ?thesis using c 1 by (subst free_chain.simps) (simp add: Let_def)
qed

text \<open>The request as the driver leaves it for the device.\<close>

definition posted :: "nat \<Rightarrow> u32 \<Rightarrow> bool \<Rightarrow> nat \<Rightarrow> nat \<Rightarrow> nat \<Rightarrow> vdisk \<Rightarrow> vdisk" where
  "posted x n wr a b c d = post_chain a (format_chain x n wr a b c (use_desc [a, b, c] d))"

lemma posted_fields [simp]:
  "vd_busy (posted x n wr a b c d) = (vd_busy d)(x := True)" "vd_info_b (posted x n wr a b c d) = (vd_info_b d)(a := Some x)"
  "vd_free (posted x n wr a b c d) j = (j \<notin> {a, b, c} \<and> vd_free d j)" "vd_dev_idx (posted x n wr a b c d) = vd_dev_idx d"
  "vd_used_idx (posted x n wr a b c d) = vd_used_idx d" "vd_avail_idx (posted x n wr a b c d) = vd_avail_idx d + 1"
  "vd_avail_ring (posted x n wr a b c d) = (vd_avail_ring d)(unat (vd_avail_idx d) mod NUM := of_nat a)"
  "vd_mmio (posted x n wr a b c d) = vd_mmio d @ [(VIRTIO_MMIO_QUEUE_NOTIFY, 0)]"
  "j \<notin> {a, b, c} \<Longrightarrow> vd_desc (posted x n wr a b c d) j = vd_desc d j"
  by (simp_all add: posted_def post_chain_def format_chain_def use_desc_def)

lemma device_sees_more: "vd_desc d' = vd_desc d \<Longrightarrow> vd_ops d' = vd_ops d \<Longrightarrow> device_sees d' i = device_sees d i"
  unfolding device_sees_def by (simp only:)

lemma posted_seen:
  assumes "distinct [a, b, c]" and "a < NUM" and "b < NUM" and "c < NUM"
  shows "device_sees (posted x n wr a b c d) a = Some (wr, ucast (n * 2), x, a)" and "chained a b c (posted x n wr a b c d)"
proof -
  have "device_sees (posted x n wr a b c d) a = device_sees (format_chain x n wr a b c (use_desc [a, b, c] d)) a"
    by (rule device_sees_more) (simp_all add: posted_def post_chain_def)
  then show "device_sees (posted x n wr a b c d) a = Some (wr, ucast (n * 2), x, a)" using format_chain_seen [OF assms] by simp
  show "chained a b c (posted x n wr a b c d)"
    using assms by (simp add: chained_def) (simp add: posted_def post_chain_def format_chain_def)
qed

lemma virtio_disk_rw_eq:
  assumes "world p s" and "depth s = 0" and "vd_ok (vdisk s)"
  shows "virtio_disk_rw x wr s = (case free_list (vdisk s) of
      a # b # c # _ \<Rightarrow> Swtch (lock_on (Lk_proc p) (upd_proc p (\<lambda>q. q\<lparr>pchan := Some (Ch_buf x), pstate := SLEEPING\<rparr>)
        (upd_vd (posted x (b_blockno (bufs s x)) wr a b c) s)))
    | fs \<Rightarrow> Swtch (lock_on (Lk_proc p) (upd_proc p (\<lambda>q. q\<lparr>pchan := Some Ch_desc_free, pstate := SLEEPING\<rparr>)
        (if fs = [] then s else s\<lparr>procs := wake_procs Ch_desc_free (Some p) (procs s)\<rparr>))))"
proof -
  note w = worldD [OF assms(1)]
  have u: "calm (lock_on Lk_vdisk s)" "procs_unlocked (lock_on Lk_vdisk s)" "vd_ok (vdisk (lock_on Lk_vdisk s))"
    using w assms(3) by simp_all
  have sl: "sleep ch Lk_vdisk (lock_on Lk_vdisk t) = (Swtch (lock_on (Lk_proc p)
      (upd_proc p (\<lambda>q. q\<lparr>pchan := Some ch, pstate := SLEEPING\<rparr>) t)) :: (unit, 'a vdst_scheme) outcome)"
    if "world p t" "depth t = 0" for ch and t :: "'a vdst_scheme"
    using worldD [OF that(1)] that(2) by (intro sleep_eq) auto
  have wt: "world p (upd_vd f s)" "world p (s\<lparr>procs := ps\<rparr>)" "depth (upd_vd f s) = 0" for f ps using assms by simp_all
  consider (0) "free_list (vdisk s) = []" | (1) a where "free_list (vdisk s) = [a]"
    | (2) a b where "free_list (vdisk s) = [a, b]" | (3) a b c r where "free_list (vdisk s) = a # b # c # r"
    by (rule upto3)
  then show ?thesis
    using w assms wt
    by cases (simp_all add: virtio_disk_rw_def rw_turn_def alloc3_desc_eq [OF u] rw_wait_def sl Let_def flip: posted_def)
qed

definition intr_ack :: "vdisk \<Rightarrow> vdisk" where
  "intr_ack d = wreg VIRTIO_MMIO_INTERRUPT_ACK (vd_reg d VIRTIO_MMIO_INTERRUPT_STATUS AND 3) d"

definition finish :: "nat \<Rightarrow> vdisk \<Rightarrow> vdisk" where
  "finish x d = (intr_ack d)\<lparr>vd_busy := (vd_busy d)(x := False), vd_used_idx := vd_used_idx d + 1\<rparr>"

lemma intr_ack_fields [simp]:
  "vd_busy (intr_ack d) = vd_busy d" "vd_used_idx (intr_ack d) = vd_used_idx d" "vd_dev_idx (intr_ack d) = vd_dev_idx d"
  "vd_used_ring (intr_ack d) = vd_used_ring d" "vd_info_b (intr_ack d) = vd_info_b d" "vd_info_status (intr_ack d) = vd_info_status d"
  "vd_free (intr_ack d) = vd_free d" "vd_desc (intr_ack d) = vd_desc d"
  by (simp_all add: intr_ack_def)

lemma virtio_disk_intr_eq:
  assumes "calm u" and "lock_free Lk_vdisk u" and "procs_unlocked u"
    and "vd_dev_idx (vdisk u) = vd_used_idx (vdisk u) + 1"
    and "vd_used_ring (vdisk u) (unat (vd_used_idx (vdisk u)) mod NUM) = of_nat a" and "a < NUM"
    and "vd_info_status (vdisk u) a = 0" and "vd_info_b (vdisk u) a = Some x"
  shows "virtio_disk_intr u = Ret () ((upd_vd (finish x) u)\<lparr>procs := wake_procs (Ch_buf x) (cur u) (procs u)\<rparr>)"
proof -
  let ?u = "lock_on Lk_vdisk (upd_vd intr_ack u)"
  let ?t = "lock_on Lk_vdisk ((upd_vd (finish x) u)\<lparr>procs := wake_procs (Ch_buf x) (cur u) (procs u)\<rparr>)"
  have one: "intr_one ?u = Ret () ?t"
    using assms by (simp add: intr_one_def Let_def finish_def [abs_def])
  have stop: "intr_loop ?t = Ret () ?t"
    using assms(4) by (subst intr_loop.simps) (simp add: finish_def)
  have "intr_loop ?u = Ret () ?t"
    using one stop assms(4) by (subst intr_loop.simps) simp
  then show ?thesis using assms(1-3) by (simp add: virtio_disk_intr_def Let_def flip: intr_ack_def)
qed

text \<open>The device's part when it has done the transfer of chain \<open>a\<close>: success in the status byte and a new entry
  in the used ring.\<close>

definition device_done :: "nat \<Rightarrow> vdisk \<Rightarrow> vdisk" where
  "device_done a d = d\<lparr>vd_info_status := (vd_info_status d)(a := 0),
     vd_used_ring := (vd_used_ring d)(unat (vd_dev_idx d) mod NUM := of_nat a), vd_dev_idx := vd_dev_idx d + 1\<rparr>"

text \<open>C29: handing a block to the disk. With three descriptors free the driver takes three, posts a request for
  the block's sector and the buffer in the direction asked for, well formed in the device's eyes, in the next slot of the ring, touches
  no descriptor of another request, notifies the device and goes to sleep until the buffer is done. With
  fewer it waits for descriptors, and the queue is as before.\<close>

theorem virtio_disk_rw_correct:
  assumes "world p s" and "depth s = 0" and "p < NPROC" and "vd_ok (vdisk s)"
  shows "\<exists>t. virtio_disk_rw x wr s = Swtch t \<and> lock_free Lk_vdisk t \<and> pstate (procs t p) = SLEEPING
    \<and> (case free_list (vdisk s) of
         a # b # c # _ \<Rightarrow> pchan (procs t p) = Some (Ch_buf x)
           \<and> device_sees (vdisk t) a = Some (wr, ucast (b_blockno (bufs s x) * 2), x, a)
           \<and> vd_avail_ring (vdisk t) (unat (vd_avail_idx (vdisk s)) mod NUM) = of_nat a
           \<and> vd_avail_idx (vdisk t) = vd_avail_idx (vdisk s) + 1
           \<and> last (vd_mmio (vdisk t)) = (VIRTIO_MMIO_QUEUE_NOTIFY, 0)
           \<and> (\<forall>j. vd_free (vdisk t) j = (j \<notin> {a, b, c} \<and> vd_free (vdisk s) j))
           \<and> (\<forall>j. \<not> vd_free (vdisk s) j \<longrightarrow> vd_desc (vdisk t) j = vd_desc (vdisk s) j)
       | _ \<Rightarrow> pchan (procs t p) = Some Ch_desc_free \<and> vdisk t = vdisk s)"
proof -
  have m: "i < NUM \<and> vd_free (vdisk s) i" if "i \<in> set (free_list (vdisk s))" for i using that by (simp add: free_list_mem)
  consider (0) "free_list (vdisk s) = []" | (1) a where "free_list (vdisk s) = [a]"
    | (2) a b where "free_list (vdisk s) = [a, b]" | (3) a b c r where "free_list (vdisk s) = a # b # c # r"
    by (rule upto3)
  then show ?thesis
  proof cases
    case 3
    have d: "distinct [a, b, c]" using distinct_free_list [of "vdisk s"] 3 by simp
    have "vd_desc (posted x n wr a b c (vdisk s)) j = vd_desc (vdisk s) j" if "\<not> vd_free (vdisk s) j" for j n
      by (rule posted_fields(9)) (use that m 3 in auto)
    then show ?thesis
      using virtio_disk_rw_eq [OF assms(1,2,4), of x wr] posted_seen(1) [OF d] m worldD(2) [OF assms(1)]
      by (simp add: 3 upd_proc_def)
  qed (use virtio_disk_rw_eq [OF assms(1,2,4), of x wr] worldD(2) [OF assms(1)] in \<open>simp_all add: upd_proc_def\<close>)
qed

text \<open>C30: a disk transfer comes to its end. The process \<open>p\<close> that asked for it sleeps, and the scheduler does not
  run it; when the device is done, its interrupt makes the process runnable; the scheduler runs it, and
  \<open>virtio_disk_rw\<close> returns with the buffer no longer busy, the request forgotten, and the same descriptors
  free as before.\<close>

theorem virtio_transfer_ends:
  assumes "world p s" and "depth s = 0" and "p < NPROC" and "vd_ok (vdisk s)"
    and "free_list (vdisk s) = a # b # c # r" and "vd_dev_idx (vdisk s) = vd_used_idx (vdisk s)"
  shows "\<exists>s1 s2 s3 s4 s5. virtio_disk_rw x wr s = Swtch s1
    \<and> scheduler_back p s1 = Ret () s2 \<and> scheduler_slot p s2 = Ret False s2
    \<and> virtio_disk_intr (upd_vd (device_done a) s2) = Ret () s3
    \<and> scheduler_slot p s3 = Ret True s4
    \<and> rw_wait_back p (intena (mycpu s4)) x a s4 = Ret () s5
    \<and> world p s5 \<and> pstate (procs s5 p) = RUNNING \<and> \<not> vd_busy (vdisk s5) x \<and> vd_info_b (vdisk s5) a = None
    \<and> vd_free (vdisk s5) = vd_free (vdisk s) \<and> vd_ok (vdisk s5) \<and> vd_dev_idx (vdisk s5) = vd_used_idx (vdisk s5)"
proof -
  note w = worldD [OF assms(1)]
  let ?P = "posted x (b_blockno (bufs s x)) wr a b c"
  let ?F = "\<lambda>q. q\<lparr>pchan := Some (Ch_buf x), pstate := SLEEPING\<rparr>"
  define s2 where "s2 = set_cproc None (upd_proc p ?F (upd_vd ?P s))"
  define u where "u = upd_vd (device_done a) s2"
  define s3 where "s3 = (upd_vd (finish x) u)\<lparr>procs := wake_procs (Ch_buf x) None (procs u)\<rparr>"
  define v where "v = set_cproc (Some p) (upd_proc p (\<lambda>q. q\<lparr>pstate := RUNNING\<rparr>) s3)"
  define v1 where "v1 = upd_proc p (\<lambda>q. q\<lparr>pchan := None\<rparr>) v"
  define v2 where "v2 = upd_vd (\<lambda>d. d\<lparr>vd_info_b := (vd_info_b d)(a := None)\<rparr>) v1"
  define s5 where "s5 = (upd_vd (clear_desc [c, b, a]) v2)\<lparr>procs := wake_procs Ch_desc_free (cur v2) (procs v2)\<rparr>"
  have m: "a < NUM" "b < NUM" "c < NUM" "vd_free (vdisk s) a" "vd_free (vdisk s) b" "vd_free (vdisk s) c"
    using free_list_mem [of _ "vdisk s"] assms(5) by (metis list.set_intros)+
  have d: "distinct [a, b, c]" using distinct_free_list [of "vdisk s"] assms(5) by simp
  note seen = posted_seen(2) [OF d m(1-3)]
  have 1: "virtio_disk_rw x wr s = Swtch (lock_on (Lk_proc p) (upd_proc p ?F (upd_vd ?P s)))"
    using virtio_disk_rw_eq [OF assms(1,2,4)] by (simp add: assms(5))
  have 2: "scheduler_back p (lock_on (Lk_proc p) (upd_proc p ?F (upd_vd ?P s))) = Ret () s2"
    using w by (simp add: scheduler_back_def s2_def)
  have 3: "scheduler_slot p s2 = Ret False s2"
    using w by (simp add: scheduler_slot_eq s2_def)
  have u: "calm u" "lock_free l u" "procs_unlocked u" "cur u = None" for l
    using w by (simp_all add: u_def s2_def)
  have vu: "vdisk u = device_done a (?P (vdisk s))" by (simp add: u_def s2_def)
  have 4: "virtio_disk_intr u = Ret () s3"
    using virtio_disk_intr_eq [of u a x] u m(1) assms(6) by (simp add: s3_def vu device_done_def)
  have pu: "procs u p = (procs s p)\<lparr>pchan := Some (Ch_buf x), pstate := SLEEPING\<rparr>" by (simp add: u_def s2_def)
  have 5: "scheduler_slot p s3 = Ret True (lock_on (Lk_proc p) v)"
    using u pu assms(3) by (simp add: scheduler_slot_eq s3_def v_def wake_procs_def wake_proc_def)
  have v: "calm v1" "lock_free l v1" "procs_unlocked v1" "cur v1 = Some p" for l
    using u by (simp_all add: v1_def v_def s3_def)
  have wv: "world p v1" using v by (simp add: world_def)
  have vd: "vdisk v1 = finish x (device_done a (?P (vdisk s)))" by (simp add: v1_def v_def s3_def vu)
  have fp: "vd_free (finish x (device_done a d)) = vd_free d" "vd_desc (finish x (device_done a d)) = vd_desc d" for d
    by (simp_all add: finish_def device_done_def)
  have "chained a b c (vdisk v2)"
    using seen by (simp add: chained_def v2_def vd fp)
  then have 6: "free_chain a (lock_on Lk_vdisk v2) = Ret () (lock_on Lk_vdisk s5)"
    using free_chain_eq [of "lock_on Lk_vdisk v2" a b c] v by (simp add: s5_def v2_def)
  have "vd_busy (vdisk v1) x = False" by (simp add: vd finish_def)
  then have "rw_wait x a (lock_on Lk_vdisk v1) = release Lk_vdisk (lock_on Lk_vdisk s5)"
    using 6 by (simp add: rw_wait_def Let_def v2_def)
  also have "\<dots> = Ret () s5" using v by (simp add: s5_def v2_def)
  finally have 7: "rw_wait_back p (intena (mycpu (lock_on (Lk_proc p) v))) x a (lock_on (Lk_proc p) v) = Ret () s5"
    using v by (simp add: rw_wait_back_def sleep_back_def Let_def flip: v1_def)
  have s5: "world p s5" "pstate (procs s5 p) = RUNNING" "\<not> vd_busy (vdisk s5) x" "vd_info_b (vdisk s5) a = None"
      "vd_dev_idx (vdisk s5) = vd_used_idx (vdisk s5)"
    using wv assms(6) by (simp_all add: s5_def v2_def clear_desc_def vd finish_def device_done_def v(4)) (simp_all add: v1_def v_def)
  have free: "vd_free (vdisk s5) = vd_free (vdisk s)"
    using m by (auto simp: s5_def v2_def clear_desc_def vd fp fun_eq_iff)
  have "vd_ok (vdisk s5)"
    using assms(4) by (auto simp: vd_ok_def s5_def v2_def clear_desc_def vd fp)
  then show ?thesis using 1 2 3 4 5 7 s5 free by (metis u_def)
qed

end
