(* ===== verification/Trap.thy ===== *)
theory Trap
  imports Sysfile Virtio
begin

unbundle bit_operations_syntax

text \<open>
  Traps, \<^verbatim>\<open>kernel/trap.c\<close>, with the interrupt controller \<^verbatim>\<open>kernel/plic.c\<close>, the dispatch of system calls
  (\<^verbatim>\<open>kernel/syscall.c\<close>), those on processes (\<^verbatim>\<open>kernel/sysproc.c\<close>), and \<open>forkret\<close>. The supervisor registers
  of the hart are fields; the interrupts that the controller will hand out on successive claims are the
  list \<open>plic_irqs\<close>, what is written to it is \<open>plic_log\<close>.
\<close>

subsection \<open>Registers\<close>

record trapst = vdst +
  csr_sstatus :: u64
  csr_sepc :: u64
  csr_scause :: u64
  csr_stval :: u64
  csr_stvec :: u64
  csr_satp :: u64
  csr_sip :: u64
  plic_irqs :: "u32 list"
  plic_log :: "(u64 \<times> u32) list"

definition SSTATUS_SPP :: u64 where "SSTATUS_SPP = push_bit 8 1"
definition SSTATUS_SPIE :: u64 where "SSTATUS_SPIE = push_bit 5 1"
definition SSTATUS_SIE :: u64 where "SSTATUS_SIE = push_bit 1 1"
definition SATP_SV39 :: u64 where "SATP_SV39 = push_bit 60 8"
definition MAKE_SATP :: "u64 \<Rightarrow> u64" where "MAKE_SATP pt = SATP_SV39 OR drop_bit 12 pt"

text \<open>The interrupt-enable bit of \<^verbatim>\<open>sstatus\<close> is the field \<open>intr\<close> of the machine.\<close>

definition r_sstatus :: "'m trapst_scheme \<Rightarrow> u64" where
  "r_sstatus s = (csr_sstatus s AND NOT SSTATUS_SIE) OR (if intr s (hart s) then SSTATUS_SIE else 0)"

definition w_sstatus :: "u64 \<Rightarrow> 'm trapst_scheme \<Rightarrow> 'm trapst_scheme" where
  "w_sstatus x s = s\<lparr>csr_sstatus := x, intr := (intr s)(hart s := x AND SSTATUS_SIE \<noteq> 0)\<rparr>"

definition intr_on :: "'m trapst_scheme \<Rightarrow> 'm trapst_scheme" where
  "intr_on s = w_sstatus (r_sstatus s OR SSTATUS_SIE) s"

definition intr_off :: "'m trapst_scheme \<Rightarrow> 'm trapst_scheme" where
  "intr_off s = w_sstatus (r_sstatus s AND NOT SSTATUS_SIE) s"

definition intr_get :: "'m trapst_scheme \<Rightarrow> bool" where
  "intr_get s \<longleftrightarrow> r_sstatus s AND SSTATUS_SIE \<noteq> 0"

definition trapinit :: "'m machine_scheme \<Rightarrow> 'm machine_scheme" where
  "trapinit s = initlock Lk_ticks ''time'' s"

definition trapinithart :: "ksyms \<Rightarrow> 'm trapst_scheme \<Rightarrow> 'm trapst_scheme" where
  "trapinithart K s = s\<lparr>csr_stvec := k_kernelvec K\<rparr>"

subsection \<open>The interrupt controller (plic.c)\<close>

definition UART0_IRQ :: int where "UART0_IRQ = 10"
definition VIRTIO0_IRQ :: int where "VIRTIO0_IRQ = 1"
definition PLIC_SENABLE :: "nat \<Rightarrow> u64" where "PLIC_SENABLE h = PLIC + 0x2080 + of_nat h * 0x100"
definition PLIC_SPRIORITY :: "nat \<Rightarrow> u64" where "PLIC_SPRIORITY h = PLIC + 0x201000 + of_nat h * 0x2000"
definition PLIC_SCLAIM :: "nat \<Rightarrow> u64" where "PLIC_SCLAIM h = PLIC + 0x201004 + of_nat h * 0x2000"

definition plic_write :: "u64 \<Rightarrow> u32 \<Rightarrow> 'm trapst_scheme \<Rightarrow> 'm trapst_scheme" where
  "plic_write a v s = s\<lparr>plic_log := plic_log s @ [(a, v)]\<rparr>"

definition plicinit :: "'m trapst_scheme \<Rightarrow> 'm trapst_scheme" where
  "plicinit s = plic_write (PLIC + of_int (VIRTIO0_IRQ * 4)) 1 (plic_write (PLIC + of_int (UART0_IRQ * 4)) 1 s)"

definition plicinithart :: "'m trapst_scheme \<Rightarrow> 'm trapst_scheme" where
  "plicinithart s =
    (let s = plic_write (PLIC_SENABLE (hart s)) (push_bit (nat UART0_IRQ) 1 OR push_bit (nat VIRTIO0_IRQ) 1) s
     in plic_write (PLIC_SPRIORITY (hart s)) 0 s)"

text \<open>A claim with nothing pending reads 0.\<close>

definition plic_claim :: "'m trapst_scheme \<Rightarrow> int \<times> 'm trapst_scheme" where
  "plic_claim s = (case plic_irqs s of [] \<Rightarrow> (0, s) | i # is \<Rightarrow> (sint i, s\<lparr>plic_irqs := is\<rparr>))"

definition plic_complete :: "int \<Rightarrow> 'm trapst_scheme \<Rightarrow> 'm trapst_scheme" where
  "plic_complete irq s = plic_write (PLIC_SCLAIM (hart s)) (of_int irq) s"

subsection \<open>System calls on processes (sysproc.c)\<close>

definition sys_exit :: "'m filest_scheme \<Rightarrow> (int, 'm filest_scheme) outcome" where
  "sys_exit s = bnd (argint 0 s) (\<lambda>n s. exit' n s)"

definition sys_getpid :: "'m machine_scheme \<Rightarrow> (int, 'm machine_scheme) outcome" where
  "sys_getpid s = bnd (curproc s) (\<lambda>p s. Ret (pid (procs s p)) s)"

definition sys_fork :: "ksyms \<Rightarrow> 'm filest_scheme \<Rightarrow> (int, 'm filest_scheme) outcome" where
  "sys_fork K s = fork K s"

definition sys_wait :: "'m memory_scheme \<Rightarrow> (int, 'm memory_scheme) outcome" where
  "sys_wait s = bnd (argaddr 0 s) (\<lambda>p s. wait p s)"

text \<open>The old size passes through a variable of type \<^verbatim>\<open>int\<close>.\<close>

definition sys_sbrk :: "'m memory_scheme \<Rightarrow> (int, 'm memory_scheme) outcome" where
  "sys_sbrk s =
    bnd (argint 0 s) (\<lambda>n s.
    bnd (curproc s) (\<lambda>p s.
    let addr = sint (ucast (sz (procs s p)) :: u32)
    in bnd (growproc n s) (\<lambda>r s. if r < 0 then Ret (-1) s else Ret addr s)))"

text \<open>One turn of the loop of \<open>sys_sleep\<close>; \<^verbatim>\<open>ticks - ticks0 < n\<close> compares unsigned numbers.\<close>

definition sys_sleep_turn :: "int \<Rightarrow> u32 \<Rightarrow> 'm filest_scheme \<Rightarrow> (int, 'm filest_scheme) outcome" where
  "sys_sleep_turn n ticks0 s =
    (if ticks s - ticks0 < of_int n then
       bnd (curproc s) (\<lambda>p s.
       if killed (procs s p) \<noteq> 0 then bnd (release Lk_ticks s) (\<lambda>_ s. Ret (-1) s)
       else sleep Ch_ticks Lk_ticks s)
     else bnd (release Lk_ticks s) (\<lambda>_ s. Ret 0 s))"

definition sys_sleep :: "'m filest_scheme \<Rightarrow> (int, 'm filest_scheme) outcome" where
  "sys_sleep s =
    bnd (argint 0 s) (\<lambda>n s.
    bnd (acquire Lk_ticks s) (\<lambda>_ s. sys_sleep_turn n (ticks s) s))"

definition sys_sleep_back :: "nat \<Rightarrow> bool \<Rightarrow> int \<Rightarrow> u32 \<Rightarrow> 'm filest_scheme \<Rightarrow> (int, 'm filest_scheme) outcome" where
  "sys_sleep_back p ena n ticks0 s = bnd (sleep_back p ena Lk_ticks s) (\<lambda>_ s. sys_sleep_turn n ticks0 s)"

definition sys_kill :: "'m memory_scheme \<Rightarrow> (int, 'm memory_scheme) outcome" where
  "sys_kill s = bnd (argint 0 s) (\<lambda>n s. kill n s)"

definition sys_uptime :: "'m filest_scheme \<Rightarrow> (int, 'm filest_scheme) outcome" where
  "sys_uptime s =
    bnd (acquire Lk_ticks s) (\<lambda>_ s.
    let x = ticks s in bnd (release Lk_ticks s) (\<lambda>_ s. Ret (uint x) s))"

subsection \<open>The dispatch (syscall.c)\<close>

text \<open>The table \<^verbatim>\<open>syscalls\<close>. \<open>junk\<close> is what the kernel stack holds where \<^verbatim>\<open>struct stat\<close> has padding.\<close>

definition syscalls :: "ksyms \<Rightarrow> (nat \<Rightarrow> u8) \<Rightarrow> nat \<Rightarrow> ('m filest_scheme \<Rightarrow> (int, 'm filest_scheme) outcome) option" where
  "syscalls K junk nr =
    (if nr = 1 then Some (sys_fork K) else if nr = 2 then Some sys_exit
     else if nr = 3 then Some sys_wait else if nr = 4 then Some sys_pipe
     else if nr = 5 then Some sys_read else if nr = 6 then Some sys_kill
     else if nr = 7 then Some (sys_exec K) else if nr = 8 then Some (sys_fstat junk)
     else if nr = 9 then Some sys_chdir else if nr = 10 then Some sys_dup
     else if nr = 11 then Some sys_getpid else if nr = 12 then Some sys_sbrk
     else if nr = 13 then Some sys_sleep else if nr = 14 then Some sys_uptime
     else if nr = 15 then Some sys_open else if nr = 16 then Some sys_write
     else if nr = 17 then Some sys_mknod else if nr = 18 then Some sys_unlink
     else if nr = 19 then Some sys_link else if nr = 20 then Some sys_mkdir
     else if nr = 21 then Some sys_close else None)"

definition unknown_args :: "proc \<Rightarrow> int \<Rightarrow> nat \<Rightarrow> va_slot" where
  "unknown_args q nr n =
    (if n = 0 then Printf.num (of_int (pid q)) else if n = 1 then str (cstr (pname q) 16) else Printf.num (of_int nr))"

definition syscall :: "ksyms \<Rightarrow> (nat \<Rightarrow> u8) \<Rightarrow> 'm filest_scheme \<Rightarrow> (unit, 'm filest_scheme) outcome" where
  "syscall K junk s =
    bnd (curproc s) (\<lambda>p s.
    let nr = sint (ucast (tf_get p tf_a7 s) :: u32)
    in case (if nr > 0 then syscalls K junk (nat nr) else None) of
         Some h \<Rightarrow> bnd (h s) (\<lambda>r s. Ret () (tf_put p tf_a0 (of_int r) s))
       | None \<Rightarrow>
           bnd (printf (Some (bytes ''%d %s: unknown sys call %d'' @ [10])) (unknown_args (procs s p) nr) s) (\<lambda>_ s.
           Ret () (tf_put p tf_a0 (-1) s)))"

subsection \<open>Interrupts\<close>

definition clockintr :: "'m filest_scheme \<Rightarrow> (unit, 'm filest_scheme) outcome" where
  "clockintr s =
    bnd (acquire Lk_ticks s) (\<lambda>_ s.
    bnd (wakeup Ch_ticks (s\<lparr>ticks := ticks s + 1\<rparr>)) (\<lambda>_ s. release Lk_ticks s))"

definition devintr :: "'m trapst_scheme \<Rightarrow> (nat, 'm trapst_scheme) outcome" where
  "devintr s =
    (let scause = csr_scause s
     in if scause AND 0x8000000000000000 \<noteq> 0 \<and> scause AND 0xff = 9 then
          let (irq, s) = plic_claim s
          in bnd (if irq = UART0_IRQ then uartintr s
                  else if irq = VIRTIO0_IRQ then virtio_disk_intr s
                  else if irq \<noteq> 0 then
                    printf (Some (bytes ''unexpected interrupt irq=%d'' @ [10])) (\<lambda>_. Printf.num (of_int irq)) s
                  else Ret () s) (\<lambda>_ s.
             Ret 1 (if irq \<noteq> 0 then plic_complete irq s else s))
        else if scause = 0x8000000000000001 then
          bnd (if hart s = 0 then clockintr s else Ret () s) (\<lambda>_ s.
          Ret 2 (s\<lparr>csr_sip := csr_sip s AND NOT 2\<rparr>))
        else Ret 0 s)"

text \<open>\<open>usertrapret\<close> up to the jump to the trampoline; the result is the arguments of that jump.\<close>

definition usertrapret :: "ksyms \<Rightarrow> 'm trapst_scheme \<Rightarrow> (u64 \<times> u64 \<times> u64, 'm trapst_scheme) outcome" where
  "usertrapret K s =
    bnd (curproc s) (\<lambda>p s.
    let s = intr_off s;
        s = s\<lparr>csr_stvec := TRAMPOLINE + (k_uservec K - k_trampoline K)\<rparr>;
        s = tf_put p tf_kernel_satp (csr_satp s) s;
        s = tf_put p tf_kernel_sp (kstack (procs s p) + PGSIZE) s;
        s = tf_put p tf_kernel_trap (k_usertrap K) s;
        s = tf_put p tf_kernel_hartid (of_nat (hart s)) s;
        s = w_sstatus ((r_sstatus s AND NOT SSTATUS_SPP) OR SSTATUS_SPIE) s;
        s = s\<lparr>csr_sepc := tf_get p tf_epc s\<rparr>
    in Ret (TRAMPOLINE + (k_userret K - k_trampoline K), TRAPFRAME, MAKE_SATP (pagetable (procs s p))) s)"

definition trap_args :: "u64 \<Rightarrow> u64 \<Rightarrow> nat \<Rightarrow> va_slot" where
  "trap_args a b n = \<lparr>a_word = if n = 0 then a else b, a_str = None\<rparr>"

text \<open>An exception the kernel does not know: report it and mark the process as killed.\<close>

definition user_fault :: "nat \<Rightarrow> 'm trapst_scheme \<Rightarrow> (unit, 'm trapst_scheme) outcome" where
  "user_fault p s =
    bnd (printf (Some (bytes ''usertrap(): unexpected scause %p pid=%d'' @ [10]))
      (trap_args (csr_scause s) (of_int (pid (procs s p)))) s) (\<lambda>_ s.
    bnd (printf (Some (bytes ''            sepc=%p stval=%p'' @ [10])) (trap_args (csr_sepc s) (csr_stval s)) s) (\<lambda>_ s.
    Ret () (upd_proc p (\<lambda>q. q\<lparr>killed := 1\<rparr>) s)))"

definition usertrap_end :: "ksyms \<Rightarrow> nat \<Rightarrow> nat \<Rightarrow> 'm trapst_scheme \<Rightarrow> (u64 \<times> u64 \<times> u64, 'm trapst_scheme) outcome" where
  "usertrap_end K p which_dev s =
    (if killed (procs s p) \<noteq> 0 then exit' (-1) s
     else bnd (if which_dev = 2 then yield s else Ret () s) (\<lambda>_ s. usertrapret K s))"

definition usertrap :: "ksyms \<Rightarrow> (nat \<Rightarrow> u8) \<Rightarrow> 'm trapst_scheme \<Rightarrow> (u64 \<times> u64 \<times> u64, 'm trapst_scheme) outcome" where
  "usertrap K junk s =
    (if r_sstatus s AND SSTATUS_SPP \<noteq> 0 then Panic ''usertrap: not from user mode''
     else
       bnd (curproc (s\<lparr>csr_stvec := k_kernelvec K\<rparr>)) (\<lambda>p s.
       let s = tf_put p tf_epc (csr_sepc s) s
       in if csr_scause s = 8 then
            if killed (procs s p) \<noteq> 0 then exit' (-1) s
            else
              let s = tf_put p tf_epc (tf_get p tf_epc s + 4) s; s = intr_on s
              in bnd (syscall K junk s) (\<lambda>_ s. usertrap_end K p 0 s)
          else
            bnd (devintr s) (\<lambda>which_dev s.
            if which_dev \<noteq> 0 then usertrap_end K p which_dev s
            else bnd (user_fault p s) (\<lambda>_ s. usertrap_end K p 0 s))))"

definition usertrap_back :: "ksyms \<Rightarrow> nat \<Rightarrow> bool \<Rightarrow> 'm trapst_scheme \<Rightarrow> (u64 \<times> u64 \<times> u64, 'm trapst_scheme) outcome" where
  "usertrap_back K p ena s = bnd (yield_back p ena s) (\<lambda>_ s. usertrapret K s)"

definition kerneltrap_end :: "u64 \<Rightarrow> u64 \<Rightarrow> 'm trapst_scheme \<Rightarrow> (unit, 'm trapst_scheme) outcome" where
  "kerneltrap_end sepc sstatus s = Ret () (w_sstatus sstatus (s\<lparr>csr_sepc := sepc\<rparr>))"

definition kerneltrap :: "'m trapst_scheme \<Rightarrow> (unit, 'm trapst_scheme) outcome" where
  "kerneltrap s =
    (let sepc = csr_sepc s; sstatus = r_sstatus s; scause = csr_scause s
     in if sstatus AND SSTATUS_SPP = 0 then Panic ''kerneltrap: not from supervisor mode''
        else if intr_get s then Panic ''kerneltrap: interrupts enabled''
        else
          bnd (devintr s) (\<lambda>which_dev s.
          if which_dev = 0 then
            bnd (printf (Some (bytes ''scause %p'' @ [10])) (trap_args scause 0) s) (\<lambda>_ s.
            bnd (printf (Some (bytes ''sepc=%p stval=%p'' @ [10])) (trap_args (csr_sepc s) (csr_stval s)) s) (\<lambda>_ s.
            Panic ''kerneltrap''))
          else if which_dev = 2 then
            bnd (myproc s) (\<lambda>p s.
            bnd (case p of None \<Rightarrow> Ret () s | Some p \<Rightarrow> if pstate (procs s p) = RUNNING then yield s else Ret () s)
              (\<lambda>_ s. kerneltrap_end sepc sstatus s))
          else kerneltrap_end sepc sstatus s))"

definition kerneltrap_back :: "nat \<Rightarrow> bool \<Rightarrow> u64 \<Rightarrow> u64 \<Rightarrow> 'm trapst_scheme \<Rightarrow> (unit, 'm trapst_scheme) outcome" where
  "kerneltrap_back p ena sepc sstatus s = bnd (yield_back p ena s) (\<lambda>_ s. kerneltrap_end sepc sstatus s)"

text \<open>The first run of a new process; on the very first one the file system is initialised.\<close>

definition forkret :: "ksyms \<Rightarrow> 'm trapst_scheme \<Rightarrow> (u64 \<times> u64 \<times> u64, 'm trapst_scheme) outcome" where
  "forkret K s =
    bnd (curproc s) (\<lambda>p s.
    bnd (release (Lk_proc p) s) (\<lambda>_ s.
    bnd (if first_run s \<noteq> 0 then fsinit ROOTDEV (s\<lparr>first_run := 0\<rparr>) else Ret () s) (\<lambda>_ s.
    usertrapret K s)))"

end
