(* ===== verification/Demo.thy ===== *)
theory Demo
  imports Boot Trap
begin

unbundle bit_operations_syntax

declare One_nat_def [simp del]

text \<open>
  A concrete state of the whole kernel, the state of \<open>Boot\<close> with the console, the open files, the disk
  driver and the trap registers added, and at it one instance of each property of those components.
\<close>

subsection \<open>The state\<close>

text \<open>The console holds one finished line of two characters and one character being edited, two bytes have
  just arrived at the UART, whose transmitter is idle at every other poll. File 0 is the console, file 1
  the reading end of the demonstration pipe, open in process 1 as descriptors 0 and 1.\<close>

definition demo_cons :: cons where
  "demo_cons = \<lparr>c_buf = (\<lambda>i. if i = 0 then 108 else if i = 1 then 115 else if i = 2 then 10 else 97), c_r = 0, c_w = 3, c_e = 4\<rparr>"

definition no_file :: ofile_entry where
  "no_file = \<lparr>f_type = FD_NONE, f_ref = 0, f_readable = 0, f_writable = 0, f_pipe = 0, f_ip = 0, f_off = 0, f_major = 0\<rparr>"

definition demo_files :: "nat \<Rightarrow> ofile_entry" where
  "demo_files = (\<lambda>_. no_file)
     (0 := no_file\<lparr>f_type := FD_DEVICE, f_ref := 1, f_readable := 1, f_writable := 1, f_major := 1\<rparr>,
      1 := no_file\<lparr>f_type := FD_PIPE, f_ref := 1, f_readable := 1, f_pipe := 0x80010000\<rparr>)"

definition demo_disk :: vdisk where
  "demo_disk = \<lparr>vd_desc = (\<lambda>_. empty_desc), vd_avail_idx = 0, vd_avail_ring = (\<lambda>_. 0), vd_dev_idx = 0,
     vd_used_ring = (\<lambda>_. 0), vd_free = (\<lambda>_. True), vd_used_idx = 0, vd_info_b = (\<lambda>_. None),
     vd_info_status = (\<lambda>_. 0), vd_ops = (\<lambda>_. \<lparr>vr_type = 0, vr_reserved = 0, vr_sector = 0\<rparr>),
     vd_busy = (\<lambda>_. False), vd_reg = (\<lambda>_. 0), vd_mmio = []\<rparr>"

definition demo :: trapst where
  "demo = vdst.extend (filest.extend (consst.extend (pipest.extend
     (upd_proc 1 (\<lambda>q. q\<lparr>ofile := [0 \<mapsto> 0, 1 \<mapsto> 1]\<rparr>) boot_p)
     (consst.fields [] [98, 13] even 0 \<lparr>tx_buf = (\<lambda>_. 0), tx_w = 0, tx_r = 0\<rparr> demo_cons 0 1 [1 \<mapsto> Fn_consoleread] [1 \<mapsto> Fn_consolewrite]))
     (filest.fields demo_files 41 0)) (vdst.fields demo_disk)) (trapst.fields 0 0 0 0 0 0 0 [] [])"

lemmas extends = vdst.extend_def filest.extend_def consst.extend_def pipest.extend_def fsst.extend_def
  vdst.fields_def filest.fields_def consst.fields_def pipest.fields_def trapst.fields_def

lemma demo_world [simp]: "world 1 demo" "depth demo = 0" "calm demo" "lock_free l demo" "procs_unlocked demo" "cur demo = Some 1"
  by (simp_all add: demo_def extends boot_p_def upd_proc_def boot_def world_def calm_def cur_def depth_def lock_free_def procs_unlocked_def)

lemma demo_fields [simp]:
  "panicked demo = 0" "pr_locking demo = 1" "uart_idle demo = even" "uart_polls demo = 0" "uart_log demo = []"
  "uart_rx demo = [98, 13]" "cons_buf demo = demo_cons" "uart_txq demo = \<lparr>tx_buf = (\<lambda>_. 0), tx_w = 0, tx_r = 0\<rparr>"
  "pmem demo = demo_mem" "pagetable (procs demo 1) = 0x80100000" "killed (procs demo 1) = 0" "pid (procs demo 1) = 1"
  "ftable demo = demo_files" "ticks demo = 41" "vdisk demo = demo_disk" "ofile (procs demo 1) = [0 \<mapsto> 0, 1 \<mapsto> 1]"
  by (simp_all add: demo_def extends boot_p_def upd_proc_def boot_def boot_proc_def)

lemma demo_queues [simp]:
  "tx_items \<lparr>tx_buf = (\<lambda>_. 0), tx_w = 0, tx_r = 0\<rparr> = []" "tx_ok \<lparr>tx_buf = (\<lambda>_. 0), tx_w = 0, tx_r = 0\<rparr>"
  "cons_done demo_cons = [108, 115, 10]" "cons_edit demo_cons = [97]" "cons_ok demo_cons"
  by (simp_all add: tx_items_def tx_ok_def UART_TX_BUF_SIZE_def ring_items_def cons_done_def cons_edit_def demo_cons_def
      INPUT_BUF_def cons_ok_def upt_rec)

lemma even_later: "\<exists>j\<ge>k. even (j::nat)"
  by (rule exI [of _ "2 * k"]) simp

lemma demo_ready [simp]: "irq_ready demo" "ready demo"
  by (simp_all add: irq_ready_def ready_def even_later)

subsection \<open>The console\<close>

theorem uartputc_correct_witness: "\<exists>t. uartputc 65 demo = Ret () t \<and> uart_log t = [(THR, 65)]"
proof -
  have "\<exists>t k. uartputc 65 demo = Ret () t \<and> tx_ok (uart_txq t) \<and> uart_log t = map (Pair THR) (take k [65])
      \<and> tx_items (uart_txq t) = drop k [65] \<and> (tx_items (uart_txq t) = [] \<or> odd k)"
    using uartputc_correct [of 1 demo 65] by (simp add: NPROC_def UART_TX_BUF_SIZE_def)
  then obtain t k where t: "uartputc 65 demo = Ret () t" "uart_log t = map (Pair THR) (take k [65])"
    "drop k [65] = ([] :: u8 list) \<or> odd k" by metis
  have "k \<noteq> 0" using t(3) by (cases "k = 0") simp_all
  then show ?thesis using t by (cases k) auto
qed

theorem printf_correct_witness: "\<exists>t. printf (Some (bytes ''pid %d'')) (\<lambda>_. Printf.num 7) demo = Ret () t
    \<and> uart_log t = map (Pair THR) (bytes ''pid 7'')"
proof -
  have "render (bytes ''pid %d'') (\<lambda>_. Printf.num 7) 0 = bytes ''pid 7''" by code_simp
  then show ?thesis using printf_correct [of demo "bytes ''pid %d''" "\<lambda>_. Printf.num 7"] even_later by auto
qed

theorem consoleintr_correct_witness:
  "\<exists>t. consoleintr 8 demo = Ret () t \<and> cons_edit (cons_buf t) = []"
  using consoleintr_correct [of demo 8] by (auto simp: line_step_def edit_def)


theorem consoleread_correct_witness:
  "\<exists>t. consoleread True 0x10 100 demo = Ret 3 t \<and> cons_done (cons_buf t) = [] \<and> umem (pmem t) 0x80100000 0x11 = Some 115"
proof -
  have tl: "take_line True 100 [108, 115, 10] = Some ([108, 115, 10], [])" by code_simp
  have "umem demo_mem 0x80100000 (0x10 + of_nat k) \<noteq> None" if "k < 100" for k
    using that by (intro demo_low) (simp add: unat_word_ariths unat_of_nat)
  then show ?thesis
    using consoleread_correct [of 1 demo 100 "0x10" "[108, 115, 10]" "[]"] tl demo_uspace by auto
qed

end
