(* ===== verification/Space.thy ===== *)
theory Space
  imports Vm
begin

unbundle bit_operations_syntax

text \<open>
  The end of an address space: \<open>uvmunmap\<close>, \<open>freewalk\<close> and \<open>uvmfree\<close> of \<^verbatim>\<open>kernel/vm.c\<close> give every page
  back, the user's pages and the pages of the page table itself, each exactly once.
\<close>

subsection \<open>Loops with a counter\<close>

lemma for_each_upt_inv:
  assumes "I m s" and "m \<le> n" and "\<And>i s. m \<le> i \<Longrightarrow> i < n \<Longrightarrow> I i s \<Longrightarrow> \<exists>s'. f i s = Ret () s' \<and> I (Suc i) s'"
  shows "\<exists>s'. for_each [m..<n] f s = Ret () s' \<and> I n s'"
  using assms
proof (induction "n - m" arbitrary: m s)
  case (Suc k)
  then have lt: "m < n" by simp
  then obtain s1 where s1: "f m s = Ret () s1" "I (Suc m) s1" using Suc.prems(1,3) by blast
  have "\<exists>s'. for_each [Suc m..<n] f s1 = Ret () s' \<and> I n s'"
    using Suc.hyps(2) s1(2) lt Suc.prems(3) by (intro Suc.hyps(1)) simp_all
  then show ?case using s1(1) lt by (simp add: upt_conv_Cons)
qed simp

subsection \<open>The pages of a table and its subtables\<close>

abbreviation idx :: "nat \<Rightarrow> u64" where "idx \<equiv> of_nat"

text \<open>The table pages at or below \<open>p\<close>, \<open>d\<close> levels deep.\<close>

primrec subpages :: "nat \<Rightarrow> mem \<Rightarrow> u64 \<Rightarrow> u64 set" where
  "subpages 0 m p = {p}"
| "subpages (Suc d) m p = insert p (\<Union>i\<in>{i. i < 512 \<and> entry m p (idx i) AND PTE_V \<noteq> 0}. subpages d m (PTE2PA (entry m p (idx i))))"

text \<open>A table whose leaves are all unmapped: what \<open>freewalk\<close> needs.\<close>

primrec bare :: "u64 \<Rightarrow> nat \<Rightarrow> mem \<Rightarrow> u64 \<Rightarrow> bool" where
  "bare e 0 m p \<longleftrightarrow> valid_page e p \<and> (\<forall>i<512. entry m p (idx i) AND PTE_V = 0)"
| "bare e (Suc d) m p \<longleftrightarrow> valid_page e p
     \<and> (\<forall>i<512. entry m p (idx i) AND PTE_V \<noteq> 0 \<longrightarrow> entry m p (idx i) AND (PTE_R OR PTE_W OR PTE_X) = 0
          \<and> bare e d m (PTE2PA (entry m p (idx i))) \<and> p \<notin> subpages d m (PTE2PA (entry m p (idx i))))
     \<and> (\<forall>i<512. \<forall>j<512. entry m p (idx i) AND PTE_V \<noteq> 0 \<and> entry m p (idx j) AND PTE_V \<noteq> 0 \<and> i \<noteq> j \<longrightarrow>
          subpages d m (PTE2PA (entry m p (idx i))) \<inter> subpages d m (PTE2PA (entry m p (idx j))) = {})"

lemma subpages_self [simp]: "p \<in> subpages d m p"
  by (cases d) simp_all

lemma bare_valid: "bare e d m p \<Longrightarrow> q \<in> subpages d m p \<Longrightarrow> valid_page e q"
proof (induction d arbitrary: p)
  case (Suc d)
  show ?case
  proof (cases "q = p")
    case False
    then obtain i where i: "i < 512" "entry m p (idx i) AND PTE_V \<noteq> 0" "q \<in> subpages d m (PTE2PA (entry m p (idx i)))"
      using Suc.prems(2) by auto
    then have "bare e d m (PTE2PA (entry m p (idx i)))" using Suc.prems(1) by simp
    then show ?thesis using i(3) by (rule Suc.IH)
  qed (use Suc.prems in simp)
qed simp

lemma entry_in_page:
  assumes "\<And>a. unat (a - p) < 4096 \<Longrightarrow> m' a = m a" and "i < 512"
  shows "entry m' p (idx i) = entry m p (idx i)"
  unfolding entry_def
proof (rule ld64_cong)
  fix k :: u64 assume "k < 8"
  then have k: "unat k < 8" by (simp add: word_less_nat_alt)
  have "unat (8 * idx i) = 8 * i" using assms(2) by (simp add: unat_word_ariths)
  then have "unat (8 * idx i + k) < 4096" using k assms(2) by (simp add: unat_add_u64)
  moreover have "p + 8 * idx i + k - p = 8 * idx i + k" by simp
  ultimately show "m' (p + 8 * idx i + k) = m (p + 8 * idx i + k)" using assms(1) by simp
qed

lemma subpages_cong:
  assumes "\<And>q i. q \<in> subpages d m p \<Longrightarrow> i < 512 \<Longrightarrow> entry m' q (idx i) = entry m q (idx i)"
  shows "subpages d m' p = subpages d m p \<and> bare e d m' p = bare e d m p"
  using assms
proof (induction d arbitrary: p)
  case (Suc d)
  have same: "entry m' p (idx i) = entry m p (idx i)" if "i < 512" for i using Suc.prems that by simp
  have IH: "subpages d m' (PTE2PA (entry m p (idx i))) = subpages d m (PTE2PA (entry m p (idx i)))"
    "bare e d m' (PTE2PA (entry m p (idx i))) = bare e d m (PTE2PA (entry m p (idx i)))"
    if "i < 512" "entry m p (idx i) AND PTE_V \<noteq> 0" for i
    using Suc.IH [of "PTE2PA (entry m p (idx i))"] Suc.prems that by auto
  have "subpages (Suc d) m' p = subpages (Suc d) m p"
    using same IH(1) by auto
  moreover have "bare e (Suc d) m' p = bare e (Suc d) m p"
    using same IH by (simp cong: conj_cong imp_cong)
  ultimately show ?case ..
qed simp

subsection \<open>freewalk\<close>

lemma far_page:
  assumes "q mod PGSIZE = 0" and "r mod PGSIZE = 0" and "q \<noteq> r" and "unat (a - q) < 4096"
  shows "4096 \<le> unat (a - r)"
proof -
  have "4096 \<le> unat (q + (a - q) - r)" using assms by (intro page_offset)
  then show ?thesis by simp
qed

text \<open>The loop body of \<open>freewalk\<close>, and what holds after \<open>i\<close> turns.\<close>

definition freewalk_turn :: "nat \<Rightarrow> u64 \<Rightarrow> nat \<Rightarrow> 'm memory_scheme \<Rightarrow> (unit, 'm memory_scheme) outcome" where
  "freewalk_turn fuel p i s =
    (let pte = entry (pmem s) p (idx i)
     in if pte AND PTE_V \<noteq> 0 \<and> pte AND (PTE_R OR PTE_W OR PTE_X) = 0 then
          bnd (freewalk fuel (PTE2PA pte) s) (\<lambda>_ s. Ret () (s\<lparr>pmem := st64 (pmem s) (p + 8 * idx i) 0\<rparr>))
        else if pte AND PTE_V \<noteq> 0 then Panic ''freewalk: leaf''
        else Ret () s)"

lemma freewalk_turns: "freewalk (Suc fuel) p s = bnd (for_each [0..<512] (freewalk_turn fuel p) s) (\<lambda>_ s. kfree p s)"
  by (simp add: freewalk_turn_def [abs_def] entry_def)

definition below :: "nat \<Rightarrow> mem \<Rightarrow> u64 \<Rightarrow> nat \<Rightarrow> u64 set" where
  "below d m p i = (\<Union>j\<in>{j. j < i \<and> entry m p (idx j) AND PTE_V \<noteq> 0}. subpages d m (PTE2PA (entry m p (idx j))))"

lemma below_simps:
  "below d m p 0 = {}" "subpages (Suc d) m p = insert p (below d m p 512)"
  "below d m p (Suc i) = below d m p i \<union> (if entry m p (idx i) AND PTE_V \<noteq> 0 then subpages d m (PTE2PA (entry m p (idx i))) else {})"
  by (auto simp: below_def less_Suc_eq)

definition walked :: "nat \<Rightarrow> 'm memory_scheme \<Rightarrow> u64 list \<Rightarrow> u64 \<Rightarrow> nat \<Rightarrow> 'm memory_scheme \<Rightarrow> bool" where
  "walked d s xs p i t \<longleftrightarrow> mem_frame s t \<and> (\<exists>ys. kmem_inv t ys \<and> set ys = set xs \<union> below d (pmem s) p i)
     \<and> (\<forall>j. i \<le> j \<and> j < 512 \<longrightarrow> entry (pmem t) p (idx j) = entry (pmem s) p (idx j))
     \<and> (\<forall>a. 4096 \<le> unat (a - p) \<and> (\<forall>q\<in>below d (pmem s) p i. 4096 \<le> unat (a - q)) \<longrightarrow> pmem t a = pmem s a)"

lemma subpages_far:
  assumes "bare e d m c" and "q mod PGSIZE = 0" and "q \<notin> subpages d m c" and "r \<in> subpages d m c" and "unat (a - r) < 4096"
  shows "4096 \<le> unat (a - q)"
  using far_page [of r q a] bare_valid [OF assms(1,4)] assms by (auto simp: valid_page_def)

lemma bareD:
  assumes "bare e (Suc d) m p" and "i < 512" and "entry m p (idx i) AND PTE_V \<noteq> 0"
  shows "entry m p (idx i) AND (PTE_R OR PTE_W OR PTE_X) = 0" "bare e d m (PTE2PA (entry m p (idx i)))"
    "p \<notin> subpages d m (PTE2PA (entry m p (idx i)))"
    "j < 512 \<Longrightarrow> entry m p (idx j) AND PTE_V \<noteq> 0 \<Longrightarrow> i \<noteq> j \<Longrightarrow>
       subpages d m (PTE2PA (entry m p (idx i))) \<inter> subpages d m (PTE2PA (entry m p (idx j))) = {}"
  using assms by simp_all

lemma bare_below:
  assumes "bare e (Suc d) m p"
  shows "i \<le> 512 \<Longrightarrow> p \<notin> below d m p i" and "i < 512 \<Longrightarrow> entry m p (idx i) AND PTE_V \<noteq> 0 \<Longrightarrow>
    subpages d m (PTE2PA (entry m p (idx i))) \<inter> below d m p i = {}"
proof -
  show "p \<notin> below d m p i" if "i \<le> 512"
    using bareD(3) [OF assms] that by (simp add: below_def)
  show "subpages d m (PTE2PA (entry m p (idx i))) \<inter> below d m p i = {}" if i: "i < 512" "entry m p (idx i) AND PTE_V \<noteq> 0"
  proof -
    have "subpages d m (PTE2PA (entry m p (idx i))) \<inter> subpages d m (PTE2PA (entry m p (idx j))) = {}"
      if "j < i" "entry m p (idx j) AND PTE_V \<noteq> 0" for j
      using bareD(4) [OF assms i, of j] that i(1) by simp
    then show ?thesis unfolding below_def by blast
  qed
qed

lemma freewalk_step:
  assumes IH: "\<And>(s :: 'm memory_scheme) xs p. calm s \<Longrightarrow> lock_free Lk_kmem s \<Longrightarrow> kmem_inv s xs \<Longrightarrow> bare (kend s) d (pmem s) p
        \<Longrightarrow> subpages d (pmem s) p \<inter> set xs = {} \<Longrightarrow>
      \<exists>t ys. freewalk (Suc d) p s = Ret () t \<and> mem_frame s t \<and> kmem_inv t ys \<and> set ys = set xs \<union> subpages d (pmem s) p
        \<and> (\<forall>a. (\<forall>q\<in>subpages d (pmem s) p. 4096 \<le> unat (a - q)) \<longrightarrow> pmem t a = pmem s a)"
    and s: "calm (s :: 'm memory_scheme)" "lock_free Lk_kmem s" "bare (kend s) (Suc d) (pmem s) p" "subpages (Suc d) (pmem s) p \<inter> set xs = {}"
    and i: "i < 512" and w: "walked d s xs p i t"
  shows "\<exists>u. freewalk_turn (Suc d) p i t = Ret () u \<and> walked d s xs p (Suc i) u"
proof -
  let ?m = "pmem s"
  let ?e = "entry ?m p (idx i)"
  let ?c = "PTE2PA ?e"
  obtain ys where w': "mem_frame s t" "kmem_inv t ys" "set ys = set xs \<union> below d ?m p i"
    "\<And>j. i \<le> j \<Longrightarrow> j < 512 \<Longrightarrow> entry (pmem t) p (idx j) = entry ?m p (idx j)"
    "\<And>a. 4096 \<le> unat (a - p) \<Longrightarrow> (\<And>q. q \<in> below d ?m p i \<Longrightarrow> 4096 \<le> unat (a - q)) \<Longrightarrow> pmem t a = ?m a"
    using w by (auto simp: walked_def)
  note fr = mem_frame_fields [OF w'(1)]
  have e: "entry (pmem t) p (idx i) = ?e" using w'(4) i by simp
  show ?thesis
  proof (cases "?e AND PTE_V = 0")
    case True
    then have "freewalk_turn (Suc d) p i t = Ret () t" by (simp add: freewalk_turn_def e)
    then show ?thesis using w True by (auto simp: walked_def below_simps)
  next
    case False
    note c' = bareD(1-3) [OF s(3) i False]
    have p: "p mod PGSIZE = 0" using s(3) by (simp add: valid_page_def)
    note sib = bare_below(2) [OF s(3) i False]
    have sub: "subpages d ?m ?c \<subseteq> subpages (Suc d) ?m p" using i False by auto
    have aligned: "q mod PGSIZE = 0" if q: "q \<in> below d ?m p i" for q
    proof -
      obtain j where "j < i" "entry ?m p (idx j) AND PTE_V \<noteq> 0" "q \<in> subpages d ?m (PTE2PA (entry ?m p (idx j)))"
        using q by (auto simp: below_def)
      moreover from this have "j < 512" using i by simp
      ultimately have "q \<in> subpages (Suc d) ?m p" by auto
      then show ?thesis using bare_valid [OF s(3)] by (auto simp: valid_page_def)
    qed
    have here: "pmem t a = ?m a" if "r \<in> subpages d ?m ?c" "unat (a - r) < 4096" for r a
    proof (rule w'(5))
      show "4096 \<le> unat (a - p)" using subpages_far [OF c'(2) p c'(3) that] .
      show "4096 \<le> unat (a - q)" if "q \<in> below d ?m p i" for q
        using subpages_far [OF c'(2) aligned [OF that] _ \<open>r \<in> _\<close> \<open>unat (a - r) < 4096\<close>] sib that by blast
    qed
    have same: "subpages d (pmem t) ?c = subpages d ?m ?c" "bare (kend s) d (pmem t) ?c"
      using subpages_cong [of d ?m ?c "pmem t" "kend s"] here c'(2) entry_in_page [of _ "pmem t" ?m] by metis+
    have "subpages d (pmem t) ?c \<inter> set ys = {}" using same(1) sib sub s(4) w'(3) by blast
    then obtain u zs where u: "freewalk (Suc d) ?c t = Ret () u" "mem_frame t u" "kmem_inv u zs"
        "set zs = set ys \<union> subpages d ?m ?c"
        "\<And>a. (\<And>q. q \<in> subpages d ?m ?c \<Longrightarrow> 4096 \<le> unat (a - q)) \<Longrightarrow> pmem u a = pmem t a"
      using IH [of t ys ?c] w'(2) s(1,2) same fr by auto
    let ?u = "u\<lparr>pmem := st64 (pmem u) (p + 8 * idx i) 0\<rparr>"
    have idx: "unat (idx i) < 512" using i by simp
    have "p \<notin> set zs"
      using c'(3) u(4) w'(3) s(4) bare_below(1) [OF s(3), of i] i by auto
    then have k: "kmem_inv ?u zs"
      using u(3) p entry_store_outside [OF p idx] by (intro kmem_inv_store [of u zs p]) auto
    have pu: "pmem u a = pmem t a" if "unat (a - p) < 4096" for a
    proof (rule u(5))
      show "4096 \<le> unat (a - q)" if "q \<in> subpages d ?m ?c" for q
        using far_page [OF p _ _ \<open>unat (a - p) < 4096\<close>, of q] that c'(3) bare_valid [OF c'(2) that]
        by (auto simp: valid_page_def)
    qed
    have "walked d s xs p (Suc i) ?u"
      unfolding walked_def
    proof (intro conjI exI allI impI; (elim conjE)?)
      show "mem_frame s ?u" using mem_frame_trans [OF mem_frame_trans [OF w'(1) u(2)] mem_frame_pmem] .
      show "kmem_inv ?u zs" by (rule k)
      show "set zs = set xs \<union> below d ?m p (Suc i)" using u(4) w'(3) False by (auto simp: below_simps)
      show "entry (pmem ?u) p (idx j) = entry ?m p (idx j)" if "Suc i \<le> j" "j < 512" for j
      proof -
        have "unat (idx j) < 512" "idx j \<noteq> idx i" using that by (simp_all add: word_unat_eq_iff)
        then have "entry (pmem ?u) p (idx j) = entry (pmem u) p (idx j)"
          using entry_st64_other [OF p p idx, of "idx j"] by simp
        also have "\<dots> = entry (pmem t) p (idx j)" using pu that by (intro entry_in_page)
        finally show ?thesis using w'(4) that by simp
      qed
      show "pmem ?u a = ?m a" if a: "4096 \<le> unat (a - p)" "\<forall>q\<in>below d ?m p (Suc i). 4096 \<le> unat (a - q)" for a
      proof -
        have "pmem ?u a = pmem u a" using entry_store_outside [OF p idx a(1)] by simp
        also have "\<dots> = pmem t a" using a(2) False by (intro u(5)) (simp add: below_simps)
        also have "\<dots> = ?m a" using a by (intro w'(5)) (auto simp: below_simps)
        finally show ?thesis .
      qed
    qed
    moreover have "freewalk_turn (Suc d) p i t = Ret () ?u"
      using False c'(1) u(1) by (simp add: freewalk_turn_def e)
    ultimately show ?thesis by blast
  qed
qed

lemma freewalk_frees:
  assumes "calm s" and "lock_free Lk_kmem s" and "kmem_inv s xs" and "bare (kend s) d (pmem s) p"
    and "subpages d (pmem s) p \<inter> set xs = {}"
  shows "\<exists>t ys. freewalk (Suc d) p s = Ret () t \<and> mem_frame s t \<and> kmem_inv t ys
    \<and> set ys = set xs \<union> subpages d (pmem s) p
    \<and> (\<forall>a. (\<forall>q\<in>subpages d (pmem s) p. 4096 \<le> unat (a - q)) \<longrightarrow> pmem t a = pmem s a)"
  using assms
proof (induction d arbitrary: s xs p)
  case 0
  have e: "for_each [0..<512] (\<lambda>i s.
      let pte = ld64 (pmem s) (p + 8 * of_nat i)
      in if pte AND PTE_V \<noteq> 0 \<and> pte AND (PTE_R OR PTE_W OR PTE_X) = 0 then
           bnd (freewalk 0 (PTE2PA pte) s) (\<lambda>_ s.
           Ret () (s\<lparr>pmem := st64 (pmem s) (p + 8 * of_nat i) 0\<rparr>))
         else if pte AND PTE_V \<noteq> 0 then Panic ''freewalk: leaf''
         else Ret () s) s = Ret () s" (is "for_each _ ?f s = _")
  proof -
    have "\<exists>s'. for_each [0..<512] ?f s = Ret () s' \<and> s' = s"
      using "0.prems"(4) by (intro for_each_upt_inv) (simp_all add: entry_def Let_def)
    then show ?thesis by simp
  qed
  have p: "p \<notin> set xs" "valid_page (kend s) p" using "0.prems"(4,5) by simp_all
  from kfree_push [OF "0.prems"(1-3) p(2,1)] show ?case
    using e by (force simp: mem_frame_refl)
next
  case (Suc d)
  let ?m = "pmem s"
  have bare: "bare (kend s) (Suc d) ?m p" by (rule Suc.prems(4))
  have p: "valid_page (kend s) p" using bare by simp
  have "walked d s xs p 0 s" using Suc.prems(3) by (auto simp: walked_def below_simps)
  then have "\<exists>t. for_each [0..<512] (freewalk_turn (Suc d) p) s = Ret () t \<and> walked d s xs p 512 t"
  proof (rule for_each_upt_inv)
    fix i t assume "i < 512" and "walked d s xs p i t"
    then show "\<exists>u. freewalk_turn (Suc d) p i t = Ret () u \<and> walked d s xs p (Suc i) u"
      by (intro freewalk_step [OF _ Suc.prems(1,2,4,5)] Suc.IH)
  qed simp
  then obtain t where t: "for_each [0..<512] (freewalk_turn (Suc d) p) s = Ret () t" "walked d s xs p 512 t" by blast
  obtain ys where w: "mem_frame s t" "kmem_inv t ys" "set ys = set xs \<union> below d ?m p 512"
    "\<And>a. 4096 \<le> unat (a - p) \<Longrightarrow> (\<And>q. q \<in> below d ?m p 512 \<Longrightarrow> 4096 \<le> unat (a - q)) \<Longrightarrow> pmem t a = ?m a"
    using t(2) by (auto simp: walked_def)
  note fr = mem_frame_fields [OF w(1)]
  have "p \<notin> set xs" using Suc.prems(5) by auto
  moreover have "p \<notin> below d ?m p 512" using bare_below(1) [OF bare] by simp
  ultimately obtain u where u: "kfree p t = Ret () u" "kmem_inv u (p # ys)"
      "\<And>a. 4096 \<le> unat (a - p) \<Longrightarrow> pmem u a = pmem t a" "mem_frame t u"
    using kfree_push [of t ys p] w(2,3) p Suc.prems(1,2) fr by auto
  have "freewalk (Suc (Suc d)) p s = Ret () u" unfolding freewalk_turns t(1) using u(1) by simp
  moreover have "set (p # ys) = set xs \<union> subpages (Suc d) ?m p" unfolding below_simps(2) using w(3) by auto
  moreover have "pmem u a = ?m a" if "\<forall>q\<in>subpages (Suc d) ?m p. 4096 \<le> unat (a - q)" for a
  proof -
    have "pmem u a = pmem t a" using that u(3) by (simp only: below_simps(2) ball_simps)
    also have "\<dots> = ?m a" using that by (intro w(4)) (simp_all only: below_simps(2) ball_simps)
    finally show ?thesis .
  qed
  ultimately show ?case using u(2) mem_frame_trans [OF w(1) u(4)] by blast
qed

subsection \<open>The tree seen from the root and from the leaves\<close>

definition pathd :: "nat \<Rightarrow> u64 list \<Rightarrow> bool" where
  "pathd d is \<longleftrightarrow> length is \<le> d \<and> (\<forall>i\<in>set is. unat i < 512)"

lemma pathd_simps: "pathd 2 is \<longleftrightarrow> is \<in> paths" "pathd d []"
  "pathd (Suc d) (is @ [i]) \<longleftrightarrow> unat i < 512 \<and> pathd d is"
  by (auto simp: pathd_def paths_def)

lemma node_snoc: "node m p (is @ [i]) = (if entry m p i AND PTE_V \<noteq> 0 then node m (PTE2PA (entry m p i)) is else None)"
  by (induction "is") auto

lemma ex_idx: "(\<exists>i. unat i < 512 \<and> P i) \<longleftrightarrow> (\<exists>i<512. P (idx i))"
proof
  assume "\<exists>i. unat i < 512 \<and> P i"
  then obtain i where "unat i < 512 \<and> P i" ..
  then show "\<exists>i<512. P (idx i)" by (intro exI [of _ "unat i"]) simp
next
  assume "\<exists>i<512. P (idx i)"
  then obtain i where "i < 512 \<and> P (idx i)" ..
  then show "\<exists>i. unat i < 512 \<and> P i" by (intro exI [of _ "idx i"]) simp
qed

lemma idx_inj: "i < 512 \<Longrightarrow> j < 512 \<Longrightarrow> idx i = idx j \<longleftrightarrow> i = j"
  by (simp add: word_unat_eq_iff)

lemma subpages_node: "q \<in> subpages d m p \<longleftrightarrow> (\<exists>is. pathd d is \<and> node m p is = Some q)"
proof (induction d arbitrary: p)
  case 0
  then show ?case by (auto simp: pathd_def)
next
  case (Suc d)
  have "(\<exists>is. pathd (Suc d) is \<and> node m p is = Some q) \<longleftrightarrow>
      q = p \<or> (\<exists>is i. pathd (Suc d) (is @ [i]) \<and> node m p (is @ [i]) = Some q)"
  proof
    assume "\<exists>is. pathd (Suc d) is \<and> node m p is = Some q"
    then obtain "is" where "pathd (Suc d) is \<and> node m p is = Some q" by blast
    then show "q = p \<or> (\<exists>is i. pathd (Suc d) (is @ [i]) \<and> node m p (is @ [i]) = Some q)"
      by (cases "is" rule: rev_cases) auto
  qed (use pathd_simps(2) in \<open>metis node.simps(1)\<close>)
  also have "\<dots> \<longleftrightarrow> q = p \<or> (\<exists>i. unat i < 512 \<and> entry m p i AND PTE_V \<noteq> 0
      \<and> (\<exists>is. pathd d is \<and> node m (PTE2PA (entry m p i)) is = Some q))"
    by (auto simp: pathd_simps node_snoc split: if_splits)
  also have "\<dots> \<longleftrightarrow> q = p \<or> (\<exists>i<512. entry m p (idx i) AND PTE_V \<noteq> 0 \<and> q \<in> subpages d m (PTE2PA (entry m p (idx i))))"
    by (simp add: ex_idx Suc.IH)
  finally show ?case by auto
qed

lemma tnodes_subpages: "tnodes m pt = subpages 2 m pt"
  by (auto simp: tnodes_def subpages_node pathd_simps)

text \<open>Every entry of a table page above the leaves points to a table page.\<close>

definition ptrs :: "nat \<Rightarrow> mem \<Rightarrow> u64 \<Rightarrow> bool" where
  "ptrs d m p \<longleftrightarrow> (\<forall>is q i. length is < d \<and> pathd d is \<and> node m p is = Some q \<and> i < 512 \<and> entry m q (idx i) AND PTE_V \<noteq> 0
     \<longrightarrow> entry m q (idx i) AND (PTE_R OR PTE_W OR PTE_X) = 0)"

lemma ptrsD: "ptrs d m p \<Longrightarrow> length is < d \<Longrightarrow> pathd d is \<Longrightarrow> node m p is = Some q \<Longrightarrow> i < 512
    \<Longrightarrow> entry m q (idx i) AND PTE_V \<noteq> 0 \<Longrightarrow> entry m q (idx i) AND (PTE_R OR PTE_W OR PTE_X) = 0"
  unfolding ptrs_def by blast

lemma tree_bare:
  assumes "\<And>is q. pathd d is \<Longrightarrow> node m p is = Some q \<Longrightarrow> valid_page e q"
    and "\<And>is js q. pathd d is \<Longrightarrow> pathd d js \<Longrightarrow> node m p is = Some q \<Longrightarrow> node m p js = Some q \<Longrightarrow> is = js"
    and "ptrs d m p"
    and "\<And>is q i. length is = d \<Longrightarrow> pathd d is \<Longrightarrow> node m p is = Some q \<Longrightarrow> i < 512 \<Longrightarrow> entry m q (idx i) AND PTE_V = 0"
  shows "bare e d m p"
  using assms
proof (induction d arbitrary: p)
  case 0
  then show ?case using "0.prems"(1,4) [of "[]"] by (simp add: pathd_simps)
next
  case (Suc d)
  let ?c = "\<lambda>i. PTE2PA (entry m p (idx i))"
  have child: "node m p (is @ [idx i]) = node m (?c i) is" "pathd (Suc d) (is @ [idx i]) = pathd d is"
    if "i < 512" "entry m p (idx i) AND PTE_V \<noteq> 0" for i "is"
    using that by (simp_all add: node_snoc pathd_simps)
  have "bare e d m (?c i)" if i: "i < 512" "entry m p (idx i) AND PTE_V \<noteq> 0" for i
  proof (rule Suc.IH)
    show "valid_page e q" if "pathd d is" "node m (?c i) is = Some q" for "is" q
      using Suc.prems(1) [of "is @ [idx i]" q] child [OF i] that by simp
    show "is = js" if "pathd d is" "pathd d js" "node m (?c i) is = Some q" "node m (?c i) js = Some q" for "is" js q
      using Suc.prems(2) [of "is @ [idx i]" "js @ [idx i]" q] child [OF i] that by simp
    show "ptrs d m (?c i)"
      unfolding ptrs_def
    proof (intro allI impI, elim conjE)
      fix "is" q j
      assume a: "length is < d" "pathd d is" "node m (?c i) is = Some q" "j < 512" "entry m q (idx j) AND PTE_V \<noteq> 0"
      then have "length (is @ [idx i]) < Suc d" "pathd (Suc d) (is @ [idx i])" "node m p (is @ [idx i]) = Some q"
        using child [OF i, of "is"] by simp_all
      then show "entry m q (idx j) AND (PTE_R OR PTE_W OR PTE_X) = 0"
        using ptrsD [OF Suc.prems(3)] a(4,5) by blast
    qed
    show "entry m q (idx j) AND PTE_V = 0" if "length is = d" "pathd d is" "node m (?c i) is = Some q" "j < 512" for "is" q j
      using Suc.prems(4) [of "is @ [idx i]" q j] child [OF i] that by simp
  qed
  moreover have "entry m p (idx i) AND (PTE_R OR PTE_W OR PTE_X) = 0" if "i < 512" "entry m p (idx i) AND PTE_V \<noteq> 0" for i
    using ptrsD [OF Suc.prems(3), of "[]"] that by (simp add: pathd_simps)
  moreover have "p \<notin> subpages d m (?c i)" if i: "i < 512" "entry m p (idx i) AND PTE_V \<noteq> 0" for i
  proof
    assume "p \<in> subpages d m (?c i)"
    then obtain "is" where "pathd d is" "node m (?c i) is = Some p" unfolding subpages_node by blast
    then have "is @ [idx i] = []" using child [OF i] i(1) Suc.prems(2) [of "is @ [idx i]" "[]" p] by (simp add: pathd_simps)
    then show False by simp
  qed
  moreover have "subpages d m (?c i) \<inter> subpages d m (?c j) = {}"
    if i: "i < 512" "entry m p (idx i) AND PTE_V \<noteq> 0" and j: "j < 512" "entry m p (idx j) AND PTE_V \<noteq> 0" and ne: "i \<noteq> j" for i j
  proof -
    have False if q: "q \<in> subpages d m (?c i)" "q \<in> subpages d m (?c j)" for q
    proof -
      obtain "is" js where "pathd d is" "node m (?c i) is = Some q" "pathd d js" "node m (?c j) js = Some q"
        using q unfolding subpages_node by blast
      then have "is @ [idx i] = js @ [idx j]"
        using child [OF i] child [OF j] Suc.prems(2) [of "is @ [idx i]" "js @ [idx j]" q] by simp
      then show False using idx_inj [OF i(1) j(1)] ne by simp
    qed
    then show ?thesis by blast
  qed
  moreover have "valid_page e p" using Suc.prems(1) [of "[]"] by (simp add: pathd_simps)
  ultimately show ?case by simp
qed

subsection \<open>uvmunmap\<close>

lemma tree_far:
  assumes same: "\<forall>q\<in>tnodes m pt. \<forall>a. unat (a - q) < 4096 \<longrightarrow> m' a = m a"
  shows "q \<in> tnodes m pt \<Longrightarrow> unat i < 512 \<Longrightarrow> entry m' q i = entry m q i"
    and "js \<in> paths \<Longrightarrow> node m' pt js = node m pt js" and "tnodes m' pt = tnodes m pt"
    and "pt_tree e m' pt = pt_tree e m pt" and "leaf m' pt va = leaf m pt va"
proof -
  show e: "entry m' q i = entry m q i" if "q \<in> tnodes m pt" "unat i < 512" for q i
    using entry_in_page [of q m' m "unat i"] same that by simp
  show n: "node m' pt js = node m pt js" if "js \<in> paths" for js
    using that
  proof (induction js)
    case (Cons j js)
    then have js: "js \<in> paths" "unat j < 512" by (auto simp: paths_Cons)
    then have "entry m' q j = entry m q j" if "node m pt js = Some q" for q
      using e [OF tnodesI [OF js(1) that]] by simp
    then show ?case using Cons.IH [OF js(1)] by (simp split: option.split)
  qed simp
  then show t: "tnodes m' pt = tnodes m pt" by (auto simp: tnodes_def)
  show "pt_tree e m' pt = pt_tree e m pt" unfolding pt_tree_def t by (simp add: n)
  show "leaf m' pt va = leaf m pt va"
    using n [OF paths_va(1)] e [OF tnodesI [OF paths_va(1)] PX_less] by (simp add: leaf_def del: node.simps split: option.split)
qed

lemma ptrs_far:
  assumes same: "\<forall>q\<in>tnodes m pt. \<forall>a. unat (a - q) < 4096 \<longrightarrow> m' a = m a" and p: "ptrs 2 m pt"
  shows "ptrs 2 m' pt"
  unfolding ptrs_def
proof (intro allI impI, elim conjE)
  note far = tree_far [OF same]
  fix "is" r i
  assume a: "length is < 2" "pathd 2 is" "node m' pt is = Some r" "i < 512" "entry m' r (idx i) AND PTE_V \<noteq> 0"
  then have "is": "is \<in> paths" by (simp add: pathd_simps)
  have n: "node m pt is = Some r" using far(2) [OF "is"] a(3) by simp
  have "entry m' r (idx i) = entry m r (idx i)" using far(1) [OF tnodesI [OF "is" n]] a(4) by simp
  then show "entry m' r (idx i) AND (PTE_R OR PTE_W OR PTE_X) = 0" using ptrsD [OF p a(1,2) n a(4)] a(5) by simp
qed

definition key :: "u64 \<Rightarrow> u64 list" where
  "key va = [PX 0 va, PX 1 va, PX 2 va]"

lemma walk_ro_node:
  "l \<le> 2 \<Longrightarrow> node m pt (vpath l va) = Some p \<Longrightarrow>
   walk_ro l m p va = (case node m pt (vpath 0 va) of None \<Rightarrow> 0 | Some q \<Rightarrow> q + 8 * PX 0 va)"
proof (induction l arbitrary: p)
  case (Suc l)
  then have v: "vpath l va = PX (Suc l) va # vpath (Suc l) va" by (simp add: vpath_simps(3))
  show ?case
  proof (cases "entry m p (PX (Suc l) va) AND PTE_V = 0")
    case True
    have "node m pt (vpath k va) = None" if "k \<le> l" for k
      using that
    proof (induction "l - k" arbitrary: k)
      case 0
      then show ?case using Suc.prems(2) v True by simp
    next
      case (Suc d)
      then have "k < 2" "node m pt (vpath (Suc k) va) = None" using \<open>Suc l \<le> 2\<close> by simp_all
      then show ?case by (simp add: vpath_simps(3))
    qed
    then show ?thesis using True by (simp add: entry_def Let_def)
  next
    case False
    then have "node m pt (vpath l va) = Some (PTE2PA (entry m p (PX (Suc l) va)))" using Suc.prems(2) v by simp
    then show ?thesis using Suc.IH Suc.prems(1) False by (simp add: entry_def Let_def)
  qed
qed simp

lemma walk_below_maxva: "va < MAXVA \<Longrightarrow> walk pt va False s = Ret (walk_ro 2 (pmem s) pt va) s"
  by (simp add: walk_def walk_level_ro)

text \<open>What a store to the leaf of \<open>va\<close> does; \<open>q\<close> is the table page that holds it.\<close>

lemma clear_leaf:
  assumes inv: "vm_inv s pt xs" and va: "va < MAXVA" and v: "leaf (pmem s) pt va AND PTE_V \<noteq> 0"
  shows "\<exists>q. walk pt va False s = Ret (q + 8 * PX 0 va) s \<and> q + 8 * PX 0 va \<noteq> 0 \<and> q \<in> tnodes (pmem s) pt
    \<and> ld64 (pmem s) (q + 8 * PX 0 va) = leaf (pmem s) pt va
    \<and> (\<forall>w. let u = s\<lparr>pmem := st64 (pmem s) (q + 8 * PX 0 va) w\<rparr> in vm_inv u pt xs \<and> tnodes (pmem u) pt = tnodes (pmem s) pt
        \<and> (\<forall>vb. leaf (pmem u) pt vb = (if key vb = key va then w else leaf (pmem s) pt vb))
        \<and> (\<forall>a. 4096 \<le> unat (a - q) \<longrightarrow> pmem u a = pmem s a) \<and> (ptrs 2 (pmem s) pt \<longrightarrow> ptrs 2 (pmem u) pt))"
proof -
  let ?m = "pmem s"
  have vp: "vpath 0 va = [PX 1 va, PX 2 va]" by (simp add: vpath_simps(2))
  obtain q where q: "node ?m pt [PX 1 va, PX 2 va] = Some q"
    using v by (cases "node ?m pt [PX 1 va, PX 2 va]") (simp_all add: leaf_def)
  have tree: "pt_tree (kend s) ?m pt" using inv by (simp add: vm_inv_def)
  have qn: "q \<in> tnodes ?m pt" using paths_va(1) q by (rule tnodesI)
  have valid: "valid_page (kend s) q" using pt_treeD(3) [OF tree qn] .
  have qa: "q mod PGSIZE = 0" using valid by (simp add: valid_page_def)
  have "walk_ro 2 ?m pt va = q + 8 * PX 0 va"
    using walk_ro_node [of 2 ?m pt va pt] q by (simp add: vpath_simps(1) vp)
  then have w: "walk pt va False s = Ret (q + 8 * PX 0 va) s"
    using va by (simp add: walk_def walk_level_ro)
  have ld: "ld64 ?m (q + 8 * PX 0 va) = leaf ?m pt va"
    using q by (simp add: leaf_def entry_def del: node.simps)
  have "0 < kend s" using inv by (simp add: vm_inv_def kmem_inv_def)
  then have "0 < unat q" "unat q < 2281701376"
    using valid by (auto simp: valid_page_def PHYSTOP_def KERNBASE_def word_less_nat_alt word_le_nat_alt)
  moreover have "unat (8 * PX 0 va) = 8 * unat (PX 0 va)" using PX_less [of 0 va] by (simp add: unat_word_ariths)
  ultimately have nz: "q + 8 * PX 0 va \<noteq> 0"
    using PX_less [of 0 va] unat_add_u64 [of q "8 * PX 0 va"] by auto
  have upd: "let u = s\<lparr>pmem := st64 ?m (q + 8 * PX 0 va) w\<rparr> in vm_inv u pt xs \<and> tnodes (pmem u) pt = tnodes ?m pt
        \<and> (\<forall>vb. leaf (pmem u) pt vb = (if key vb = key va then w else leaf ?m pt vb))
        \<and> (\<forall>a. 4096 \<le> unat (a - q) \<longrightarrow> pmem u a = ?m a) \<and> (ptrs 2 ?m pt \<longrightarrow> ptrs 2 (pmem u) pt)" for w
  proof -
    let ?u = "s\<lparr>pmem := st64 ?m (q + 8 * PX 0 va) w\<rparr>"
    note sl = node_set_leaf [OF tree paths_va(1) _ q PX_less [of 0 va], where v = w, simplified]
    have "q \<notin> set xs" using qn inv by (auto simp: vm_inv_def)
    then have "kmem_inv ?u xs"
      using inv qa entry_store_outside [OF qa PX_less] by (intro kmem_inv_store [of s xs q]) (auto simp: vm_inv_def)
    then have 1: "vm_inv ?u pt xs" using inv sl(2,3) by (simp add: vm_inv_def)
    have 2: "ptrs 2 (pmem ?u) pt" if p: "ptrs 2 ?m pt"
      unfolding ptrs_def
    proof (intro allI impI, elim conjE)
      fix "is" r i
      assume a: "length is < 2" "pathd 2 is" "node (pmem ?u) pt is = Some r" "i < 512" "entry (pmem ?u) r (idx i) AND PTE_V \<noteq> 0"
      then have "is": "is \<in> paths" by (simp add: pathd_simps)
      have n: "node ?m pt is = Some r" using sl(1) [OF "is"] a(3) by simp
      then have "r \<noteq> q" using pt_treeD(4) [OF tree "is" paths_va(1) n] q a(1) by auto
      moreover have "r mod PGSIZE = 0" using tree tnodesI [OF "is" n] by (rule pt_treeD)
      ultimately have "entry (pmem ?u) r (idx i) = entry ?m r (idx i)"
        using entry_st64_other [OF qa _ PX_less, of r "idx i" 0 va ?m w] a(4) by simp
      then show "entry (pmem ?u) r (idx i) AND (PTE_R OR PTE_W OR PTE_X) = 0"
        using ptrsD [OF p a(1,2) n a(4)] a(5) by simp
    qed
    have "leaf (pmem ?u) pt vb = (if key vb = key va then w else leaf ?m pt vb)" for vb
      using sl(4) [of vb] by (simp add: key_def)
    then show ?thesis unfolding Let_def using 1 2 sl(3) entry_store_outside [OF qa PX_less] by auto
  qed
  show ?thesis using w nz qn ld upd by blast
qed

text \<open>The \<open>k\<close>-th page from \<open>a\<close> on, and the physical page behind it.\<close>

abbreviation pg :: "u64 \<Rightarrow> nat \<Rightarrow> u64" where
  "pg a k \<equiv> a + of_nat k * PGSIZE"

definition phys :: "mem \<Rightarrow> u64 \<Rightarrow> u64 \<Rightarrow> nat \<Rightarrow> u64" where
  "phys m pt a k = PTE2PA (leaf m pt (pg a k))"

lemma pg_Suc: "pg a (Suc k) = pg (a + PGSIZE) k"
  by (simp add: algebra_simps)

lemma unat_pg: "unat a + 4096 * k < 18446744073709551616 \<Longrightarrow> unat (pg a k) = unat a + 4096 * k"
proof -
  assume lt: "unat a + 4096 * k < 18446744073709551616"
  have "unat (of_nat k * PGSIZE :: u64) = 4096 * k"
    using lt by (simp add: PGSIZE_def unat_word_ariths)
  then show ?thesis using lt by (simp add: unat_add_u64)
qed

lemma pg_aligned: "a mod PGSIZE = 0 \<Longrightarrow> unat a + 4096 * k < 18446744073709551616 \<Longrightarrow> pg a k mod PGSIZE = 0"
  using unat_pg [of a k] by (simp add: PGSIZE_def word_unat_eq_iff unat_mod)

lemma maxva: "unat MAXVA = 274877906944"
  by (simp add: MAXVA_def)

lemma key_pg:
  assumes "a mod PGSIZE = 0" and "unat a + 4096 * n \<le> unat MAXVA" and "j < n" and "k < n"
  shows "key (pg a j) = key (pg a k) \<longleftrightarrow> j = k"
proof -
  have u: "unat (pg a i) = unat a + 4096 * i" "pg a i mod PGSIZE = 0" "pg a i < MAXVA" if "i < n" for i
    using that assms unat_pg [of a i] pg_aligned [of a i] by (simp_all add: maxva word_less_nat_alt)
  have "key (pg a j) = key (pg a k) \<longleftrightarrow> pg a j = pg a k"
    using same_page [of "pg a j" "pg a k"] page_aligned_round(1) u assms(3,4) by (simp add: key_def)
  also have "\<dots> \<longleftrightarrow> j = k" using u(1) [OF assms(3)] u(1) [OF assms(4)] by (auto simp: word_unat_eq_iff)
  finally show ?thesis .
qed

lemma uvmunmap_page:
  assumes inv: "vm_inv s pt xs" and va: "va < MAXVA"
    and v: "leaf (pmem s) pt va AND PTE_V \<noteq> 0" "PTE_FLAGS (leaf (pmem s) pt va) \<noteq> PTE_V"
    and own: "df \<Longrightarrow> valid_page (kend s) (PTE2PA (leaf (pmem s) pt va)) \<and> PTE2PA (leaf (pmem s) pt va) \<notin> tnodes (pmem s) pt \<union> set xs"
  shows "\<exists>t. (va < limit \<longrightarrow> uvmunmap_loop pt va limit df s = uvmunmap_loop pt (va + PGSIZE) limit df t) \<and> mem_frame s t
    \<and> vm_inv t pt (if df then PTE2PA (leaf (pmem s) pt va) # xs else xs) \<and> tnodes (pmem t) pt = tnodes (pmem s) pt
    \<and> (\<forall>vb. leaf (pmem t) pt vb = (if key vb = key va then 0 else leaf (pmem s) pt vb))
    \<and> (ptrs 2 (pmem s) pt \<longrightarrow> ptrs 2 (pmem t) pt)
    \<and> (\<forall>b. (\<forall>q\<in>tnodes (pmem s) pt. 4096 \<le> unat (b - q)) \<and> (df \<longrightarrow> 4096 \<le> unat (b - PTE2PA (leaf (pmem s) pt va)))
        \<longrightarrow> pmem t b = pmem s b)"
proof (cases df)
  case False
  obtain q where q: "walk pt va False s = Ret (q + 8 * PX 0 va) s" "q + 8 * PX 0 va \<noteq> 0" "q \<in> tnodes (pmem s) pt"
    "ld64 (pmem s) (q + 8 * PX 0 va) = leaf (pmem s) pt va"
    "let u = s\<lparr>pmem := st64 (pmem s) (q + 8 * PX 0 va) 0\<rparr> in vm_inv u pt xs \<and> tnodes (pmem u) pt = tnodes (pmem s) pt
        \<and> (\<forall>vb. leaf (pmem u) pt vb = (if key vb = key va then 0 else leaf (pmem s) pt vb))
        \<and> (\<forall>a. 4096 \<le> unat (a - q) \<longrightarrow> pmem u a = pmem s a) \<and> (ptrs 2 (pmem s) pt \<longrightarrow> ptrs 2 (pmem u) pt)"
    using clear_leaf [OF inv va v(1)] by blast
  let ?u = "s\<lparr>pmem := st64 (pmem s) (q + 8 * PX 0 va) 0\<rparr>"
  have "va < limit \<longrightarrow> uvmunmap_loop pt va limit df s = uvmunmap_loop pt (va + PGSIZE) limit df ?u"
    using q(1,2,4) v False by (subst uvmunmap_loop.simps) (simp add: Let_def)
  then show ?thesis using q(3,5) False unfolding Let_def by (intro exI [of _ ?u]) auto
next
  case True
  let ?P = "PTE2PA (leaf (pmem s) pt va)"
  note own = own [OF True]
  have inv': "calm s" "lock_free Lk_kmem s" "kmem_inv s xs" "pt_tree (kend s) (pmem s) pt" "tnodes (pmem s) pt \<inter> set xs = {}"
    using inv by (simp_all add: vm_inv_def)
  obtain t where t: "kfree ?P s = Ret () t" "kmem_inv t (?P # xs)" "\<And>a. 4096 \<le> unat (a - ?P) \<Longrightarrow> pmem t a = pmem s a" "mem_frame s t"
    using kfree_push [OF inv'(1-3)] own by blast
  note fr = mem_frame_fields [OF t(4)]
  have same: "pmem t a = pmem s a" if "q \<in> tnodes (pmem s) pt" "unat (a - q) < 4096" for q a
  proof (rule t(3), rule far_page [OF _ _ _ that(2)])
    show "q mod PGSIZE = 0" using inv'(4) that(1) by (rule pt_treeD)
    show "q \<noteq> ?P" using own that(1) by blast
  qed simp
  then have faraway: "\<forall>q\<in>tnodes (pmem s) pt. \<forall>a. unat (a - q) < 4096 \<longrightarrow> pmem t a = pmem s a" by blast
  note far = tree_far [OF faraway]
  have ti: "vm_inv t pt (?P # xs)"
    using inv' t(2) far(3,4) fr own by (simp add: vm_inv_def)
  have tv: "leaf (pmem t) pt va AND PTE_V \<noteq> 0" using v(1) far(5) by simp
  obtain q where q: "walk pt va False t = Ret (q + 8 * PX 0 va) t" "q + 8 * PX 0 va \<noteq> 0" "q \<in> tnodes (pmem t) pt"
    "ld64 (pmem t) (q + 8 * PX 0 va) = leaf (pmem t) pt va"
    "let u = t\<lparr>pmem := st64 (pmem t) (q + 8 * PX 0 va) 0\<rparr> in vm_inv u pt (?P # xs) \<and> tnodes (pmem u) pt = tnodes (pmem t) pt
        \<and> (\<forall>vb. leaf (pmem u) pt vb = (if key vb = key va then 0 else leaf (pmem t) pt vb))
        \<and> (\<forall>a. 4096 \<le> unat (a - q) \<longrightarrow> pmem u a = pmem t a) \<and> (ptrs 2 (pmem t) pt \<longrightarrow> ptrs 2 (pmem u) pt)"
    using clear_leaf [OF ti va tv] by blast
  have wt: "walk pt va False s = Ret (q + 8 * PX 0 va) s"
  proof -
    obtain r where r: "walk pt va False s = Ret (r + 8 * PX 0 va) s" using clear_leaf [OF inv va v(1)] by blast
    have "walk_ro 2 (pmem t) pt va = walk_ro 2 (pmem s) pt va"
      using walk_ro_node [of 2 _ pt va pt] far(2) [OF paths_va(1)] by (simp add: vpath_simps(1,2) del: node.simps)
        (simp add: node.simps(1))
    then show ?thesis using r q(1) unfolding walk_below_maxva [OF va] by simp
  qed
  let ?u = "t\<lparr>pmem := st64 (pmem t) (q + 8 * PX 0 va) 0\<rparr>"
  have ld: "ld64 (pmem s) (q + 8 * PX 0 va) = leaf (pmem s) pt va"
  proof -
    have "q \<in> tnodes (pmem s) pt" using q(3) far(3) by simp
    then have "entry (pmem t) q (PX 0 va) = entry (pmem s) q (PX 0 va)" using far(1) PX_less by blast
    then show ?thesis using q(4) far(5) by (simp add: entry_def)
  qed
  have "va < limit \<longrightarrow> uvmunmap_loop pt va limit df s = uvmunmap_loop pt (va + PGSIZE) limit df ?u"
    using wt q(2) ld v t(1) True by (subst uvmunmap_loop.simps) (simp add: Let_def)
  moreover have "mem_frame s ?u" using mem_frame_trans [OF t(4) mem_frame_pmem] .
  moreover have "ptrs 2 (pmem t) pt" if "ptrs 2 (pmem s) pt" using ptrs_far [OF faraway that] .
  ultimately show ?thesis
    using q(3,5) True far(3,5) t(3) unfolding Let_def by (intro exI [of _ ?u]) auto
qed

lemma uvmunmap_spec:
  assumes "vm_inv s pt xs" and "a mod PGSIZE = 0" and "unat a + 4096 * n \<le> unat MAXVA"
    and "\<And>k. k < n \<Longrightarrow> leaf (pmem s) pt (pg a k) AND PTE_V \<noteq> 0 \<and> PTE_FLAGS (leaf (pmem s) pt (pg a k)) \<noteq> PTE_V"
    and "\<And>k. df \<Longrightarrow> k < n \<Longrightarrow> valid_page (kend s) (phys (pmem s) pt a k) \<and> phys (pmem s) pt a k \<notin> tnodes (pmem s) pt \<union> set xs"
    and "\<And>j k. df \<Longrightarrow> j < n \<Longrightarrow> k < n \<Longrightarrow> phys (pmem s) pt a j = phys (pmem s) pt a k \<Longrightarrow> j = k"
  shows "\<exists>t. uvmunmap_loop pt a (pg a n) df s = Ret () t \<and> mem_frame s t
    \<and> vm_inv t pt (if df then rev (map (phys (pmem s) pt a) [0..<n]) @ xs else xs) \<and> tnodes (pmem t) pt = tnodes (pmem s) pt
    \<and> (\<forall>vb. leaf (pmem t) pt vb = (if \<exists>k<n. key vb = key (pg a k) then 0 else leaf (pmem s) pt vb))
    \<and> (ptrs 2 (pmem s) pt \<longrightarrow> ptrs 2 (pmem t) pt)
    \<and> (\<forall>b. (\<forall>q\<in>tnodes (pmem s) pt. 4096 \<le> unat (b - q)) \<and> (df \<longrightarrow> (\<forall>k<n. 4096 \<le> unat (b - phys (pmem s) pt a k)))
        \<longrightarrow> pmem t b = pmem s b)"
  using assms
proof (induction n arbitrary: a s xs)
  case 0
  then show ?case by (subst uvmunmap_loop.simps) simp
next
  case (Suc n)
  let ?m = "pmem s"
  let ?P = "phys ?m pt a"
  have ua: "unat (a + PGSIZE) = unat a + 4096" "(a + PGSIZE) mod PGSIZE = 0" "a < MAXVA"
    using Suc.prems(2,3) unat_pg [of a 1] pg_aligned [of a 1] by (simp_all add: maxva word_less_nat_alt)
  have la: "leaf ?m pt a AND PTE_V \<noteq> 0" "PTE_FLAGS (leaf ?m pt a) \<noteq> PTE_V" "?P 0 = PTE2PA (leaf ?m pt a)"
    using Suc.prems(4) [of 0] by (simp_all add: phys_def)
  have own: "valid_page (kend s) (PTE2PA (leaf ?m pt a)) \<and> PTE2PA (leaf ?m pt a) \<notin> tnodes ?m pt \<union> set xs" if df
    using Suc.prems(5) [OF that, of 0] la(3) by simp
  obtain t where t: "a < pg a (Suc n) \<longrightarrow> uvmunmap_loop pt a (pg a (Suc n)) df s = uvmunmap_loop pt (a + PGSIZE) (pg a (Suc n)) df t"
    "mem_frame s t" "vm_inv t pt (if df then ?P 0 # xs else xs)" "tnodes (pmem t) pt = tnodes ?m pt"
    "\<forall>vb. leaf (pmem t) pt vb = (if key vb = key a then 0 else leaf ?m pt vb)" "ptrs 2 ?m pt \<longrightarrow> ptrs 2 (pmem t) pt"
    "\<forall>b. (\<forall>q\<in>tnodes ?m pt. 4096 \<le> unat (b - q)) \<and> (df \<longrightarrow> 4096 \<le> unat (b - ?P 0)) \<longrightarrow> pmem t b = ?m b"
    using uvmunmap_page [OF Suc.prems(1) ua(3) la(1,2) own, where limit = "pg a (Suc n)"] unfolding la(3) by blast
  have lt: "a < pg a (Suc n)"
    using unat_pg [of a "Suc n"] Suc.prems(3) by (simp add: word_less_nat_alt maxva del: of_nat_Suc)
  have lk: "leaf (pmem t) pt (pg (a + PGSIZE) k) = leaf ?m pt (pg (a + PGSIZE) k)" if "k < n" for k
  proof -
    have "key (pg a (Suc k)) \<noteq> key (pg a 0)"
      using that key_pg [OF Suc.prems(2,3), of "Suc k" 0] by (simp del: of_nat_Suc)
    then show ?thesis using t(5) unfolding pg_Suc by simp
  qed
  have Pk: "phys (pmem t) pt (a + PGSIZE) k = ?P (Suc k)" if "k < n" for k
    using lk [OF that] unfolding phys_def pg_Suc by simp
  note fr = mem_frame_fields [OF t(2)]
  have lists: "(if df then A @ (if df then B else xs) else (if df then B else xs)) = (if df then A @ B else xs)" for A B by simp
  have "\<exists>u. uvmunmap_loop pt (a + PGSIZE) (pg (a + PGSIZE) n) df t = Ret () u \<and> mem_frame t u
    \<and> vm_inv u pt (if df then rev (map (phys (pmem t) pt (a + PGSIZE)) [0..<n]) @ (if df then ?P 0 # xs else xs)
         else (if df then ?P 0 # xs else xs)) \<and> tnodes (pmem u) pt = tnodes (pmem t) pt
    \<and> (\<forall>vb. leaf (pmem u) pt vb = (if \<exists>k<n. key vb = key (pg (a + PGSIZE) k) then 0 else leaf (pmem t) pt vb))
    \<and> (ptrs 2 (pmem t) pt \<longrightarrow> ptrs 2 (pmem u) pt)
    \<and> (\<forall>b. (\<forall>q\<in>tnodes (pmem t) pt. 4096 \<le> unat (b - q)) \<and> (df \<longrightarrow> (\<forall>k<n. 4096 \<le> unat (b - phys (pmem t) pt (a + PGSIZE) k)))
        \<longrightarrow> pmem u b = pmem t b)"
  proof (rule Suc.IH [OF t(3) ua(2)])
    show "unat (a + PGSIZE) + 4096 * n \<le> unat MAXVA" using Suc.prems(3) ua(1) by simp
    show "leaf (pmem t) pt (pg (a + PGSIZE) k) AND PTE_V \<noteq> 0 \<and> PTE_FLAGS (leaf (pmem t) pt (pg (a + PGSIZE) k)) \<noteq> PTE_V"
      if "k < n" for k
      using Suc.prems(4) [of "Suc k"] lk [OF that] that unfolding pg_Suc by simp
    show "valid_page (kend t) (phys (pmem t) pt (a + PGSIZE) k)
        \<and> phys (pmem t) pt (a + PGSIZE) k \<notin> tnodes (pmem t) pt \<union> set (if df then ?P 0 # xs else xs)" if "df" "k < n" for k
      using Suc.prems(5) [OF that(1), of "Suc k"] Suc.prems(6) [OF that(1), of "Suc k" 0] that Pk [OF that(2)] t(4) fr by auto
    show "j = k" if "df" "j < n" "k < n" "phys (pmem t) pt (a + PGSIZE) j = phys (pmem t) pt (a + PGSIZE) k" for j k
      using Suc.prems(6) [OF that(1), of "Suc j" "Suc k"] that Pk by simp
  qed
  then obtain u where u: "uvmunmap_loop pt (a + PGSIZE) (pg a (Suc n)) df t = Ret () u" "mem_frame t u"
    "vm_inv u pt (if df then rev (map (phys (pmem t) pt (a + PGSIZE)) [0..<n]) @ ?P 0 # xs else xs)"
    "tnodes (pmem u) pt = tnodes ?m pt"
    "\<And>vb. leaf (pmem u) pt vb = (if \<exists>k<n. key vb = key (pg a (Suc k)) then 0 else leaf (pmem t) pt vb)"
    "ptrs 2 (pmem t) pt \<longrightarrow> ptrs 2 (pmem u) pt"
    "\<And>b. (\<forall>q\<in>tnodes ?m pt. 4096 \<le> unat (b - q)) \<Longrightarrow> (df \<longrightarrow> (\<forall>k<n. 4096 \<le> unat (b - phys (pmem t) pt (a + PGSIZE) k)))
        \<Longrightarrow> pmem u b = pmem t b"
    unfolding pg_Suc [of a n] pg_Suc [of a] t(4) lists by blast
  have "rev (map ?P [0..<Suc n]) = rev (map (phys (pmem t) pt (a + PGSIZE)) [0..<n]) @ [?P 0]"
  proof -
    have "map ?P [0..<Suc n] = ?P 0 # map (\<lambda>k. ?P (Suc k)) [0..<n]" by (simp add: upt_conv_Cons map_Suc_upt [symmetric] del: upt_Suc)
    also have "map (\<lambda>k. ?P (Suc k)) [0..<n] = map (phys (pmem t) pt (a + PGSIZE)) [0..<n]" using Pk by simp
    finally show ?thesis by simp
  qed
  then have 1: "vm_inv u pt (if df then rev (map ?P [0..<Suc n]) @ xs else xs)" using u(3) by (simp split: if_splits)
  have 2: "leaf (pmem u) pt vb = (if \<exists>k<Suc n. key vb = key (pg a k) then 0 else leaf ?m pt vb)" for vb
  proof -
    have "(\<exists>k<Suc n. key vb = key (pg a k)) \<longleftrightarrow> key vb = key a \<or> (\<exists>k<n. key vb = key (pg a (Suc k)))"
      by (auto simp: less_Suc_eq_0_disj simp del: of_nat_Suc)
    then show ?thesis using u(5) [of vb] t(5) [rule_format, of vb] by (auto split: if_splits simp del: of_nat_Suc)
  qed
  have 3: "pmem u b = ?m b" if "\<forall>q\<in>tnodes ?m pt. 4096 \<le> unat (b - q)" "df \<longrightarrow> (\<forall>k<Suc n. 4096 \<le> unat (b - ?P k))" for b
    using u(7) [OF that(1)] t(7) that Pk by (simp add: all_conj_distrib less_Suc_eq_0_disj)
  show ?case using u(1,4,6) t(1,6) lt 1 2 3 mem_frame_trans [OF t(2) u(2)] by (intro exI [of _ u]) simp
qed

subsection \<open>A whole address space\<close>

definition npages :: "u64 \<Rightarrow> nat" where
  "npages n = (unat n + 4095) div 4096"

text \<open>The address space of a program of size \<open>n\<close> in the table \<open>pt\<close>: its pages, each with a physical page of its
  own that is neither free nor a table page, and apart from them only the mappings of \<open>E\<close>.\<close>

definition aspace :: "'m memory_scheme \<Rightarrow> u64 \<Rightarrow> u64 list \<Rightarrow> u64 \<Rightarrow> u64 set \<Rightarrow> bool" where
  "aspace s pt xs n E \<longleftrightarrow> vm_inv s pt xs \<and> ptrs 2 (pmem s) pt \<and> unat n \<le> unat MAXVA
     \<and> (\<forall>k<npages n. leaf (pmem s) pt (pg 0 k) AND PTE_V \<noteq> 0 \<and> PTE_FLAGS (leaf (pmem s) pt (pg 0 k)) \<noteq> PTE_V
          \<and> valid_page (kend s) (phys (pmem s) pt 0 k) \<and> phys (pmem s) pt 0 k \<notin> tnodes (pmem s) pt \<union> set xs)
     \<and> inj_on (phys (pmem s) pt 0) {..<npages n}
     \<and> (\<forall>va. leaf (pmem s) pt va AND PTE_V \<noteq> 0 \<longrightarrow> (\<exists>k<npages n. key va = key (pg 0 k)) \<or> (\<exists>e\<in>E. key va = key e))"

text \<open>All the pages an address space is made of.\<close>

definition space_pages :: "mem \<Rightarrow> u64 \<Rightarrow> u64 \<Rightarrow> u64 set" where
  "space_pages m pt n = tnodes m pt \<union> phys m pt 0 ` {..<npages n}"

lemma npages_roundup:
  assumes "unat n \<le> unat MAXVA"
  shows "PGROUNDUP n div PGSIZE = of_nat (npages n)" and "4096 * npages n \<le> unat MAXVA" and "n \<noteq> 0 \<longleftrightarrow> npages n \<noteq> 0"
proof -
  have b: "unat (n + PGSIZE - 1) = unat n + 4095"
  proof -
    have e: "n + PGSIZE - 1 = n + 4095" by (simp add: PGSIZE_def)
    show ?thesis unfolding e using assms by (simp add: unat_add_u64 maxva)
  qed
  have "unat (PGROUNDUP n) = unat n + 4095 - (unat n + 4095) mod 4096"
    unfolding PGROUNDUP_def round_down unat_round_down b ..
  then have r: "unat (PGROUNDUP n) = 4096 * npages n" by (simp only: npages_def minus_mod_eq_mult_div)
  have le: "unat n \<le> 274877906944" using assms by (simp only: maxva)
  have "4096 * ((unat n + 4095) div 4096) \<le> 274877906944"
  proof -
    have "(unat n + 4095) div 4096 \<le> (274877906944 + 4095) div 4096" using le by (intro div_le_mono) simp
    then show ?thesis by simp
  qed
  then show b: "4096 * npages n \<le> unat MAXVA" by (simp only: npages_def maxva)
  have "unat (PGROUNDUP n div PGSIZE) = unat (PGROUNDUP n) div 4096" by (simp add: PGSIZE_def unat_div)
  then have "unat (PGROUNDUP n div PGSIZE) = npages n" by (simp add: r)
  moreover have "npages n < 18446744073709551616" using b unfolding maxva by linarith
  ultimately show "PGROUNDUP n div PGSIZE = of_nat (npages n)" by (simp only: word_unat_eq_iff unat_of_nat_u64)
  show "n \<noteq> 0 \<longleftrightarrow> npages n \<noteq> 0" by (auto simp: npages_def word_unat_eq_iff)
qed

lemma key_exists:
  assumes "unat i < 512" and "unat a < 512" and "unat b < 512"
  shows "\<exists>va. key va = [i, a, b]"
proof
  let ?va = "push_bit 12 i OR push_bit 21 a OR push_bit 30 b"
  have small: "n < 9" if "bit w n" "unat w < 512" for w :: u64 and n
  proof (rule ccontr)
    assume "\<not> n < 9"
    have "unat w < 2 ^ 9" using that(2) by simp
    then have "take_bit 9 w = w" by (simp add: word_unat_eq_iff unsigned_take_bit_eq take_bit_nat_eq_self)
    then have "bit (take_bit 9 w) n = bit w n" by simp
    then show False using that(1) \<open>\<not> n < 9\<close> by (simp add: bit_take_bit_iff)
  qed
  have bits: "bit (PX l v) n \<longleftrightarrow> n < 9 \<and> bit v (12 + 9 * l + n)" for l v n
  proof -
    have "PX l v = take_bit 9 (drop_bit (12 + 9 * l) v)"
      by (simp add: PX_def take_bit_eq_mask mask_eq_exp_minus_1)
    then show ?thesis by (simp add: bit_simps)
  qed
  have "PX 0 ?va = i" by (rule bit_word_eqI) (use assms in \<open>auto simp: bits bit_simps dest: small\<close>)
  moreover have "PX 1 ?va = a" by (rule bit_word_eqI) (use assms in \<open>auto simp: bits bit_simps dest: small\<close>)
  moreover have "PX 2 ?va = b" by (rule bit_word_eqI) (use assms in \<open>auto simp: bits bit_simps dest: small\<close>)
  ultimately show "key ?va = [i, a, b]" by (simp add: key_def)
qed

lemma bare_tree:
  assumes "vm_inv s pt xs" and "ptrs 2 (pmem s) pt" and "\<And>va. leaf (pmem s) pt va AND PTE_V = 0"
  shows "bare (kend s) 2 (pmem s) pt"
proof (rule tree_bare)
  have tree: "pt_tree (kend s) (pmem s) pt" using assms(1) by (simp add: vm_inv_def)
  show "valid_page (kend s) q" if "pathd 2 is" "node (pmem s) pt is = Some q" for "is" q
    using pt_treeD(3) [OF tree tnodesI [OF _ that(2)]] that(1) by (simp add: pathd_simps)
  show "is = js" if "pathd 2 is" "pathd 2 js" "node (pmem s) pt is = Some q" "node (pmem s) pt js = Some q" for "is" js q
    using pt_treeD(4) [OF tree] that by (simp add: pathd_simps)
  show "entry (pmem s) q (idx i) AND PTE_V = 0"
    if l: "length is = 2" and d: "pathd 2 is" and n: "node (pmem s) pt is = Some q" and i: "i < 512" for "is" q i
  proof -
    obtain a b where ab: "is = [a, b]" using l by (auto simp: length_Suc_conv numeral_2_eq_2)
    have "unat (idx i) < 512" "unat a < 512" "unat b < 512" using d i ab by (simp_all add: pathd_def)
    then obtain va where "key va = [idx i, a, b]" using key_exists by blast
    then have "leaf (pmem s) pt va = entry (pmem s) q (idx i)"
      using n by (simp add: leaf_def key_def ab del: node.simps)
    then show ?thesis using assms(3) [of va] by simp
  qed
qed (rule assms(2))

lemma uvmfree_spec:
  assumes "aspace s pt xs n {}"
  shows "\<exists>t ys. uvmfree 3 pt n s = Ret () t \<and> mem_frame s t \<and> kmem_inv t ys
    \<and> set ys = set xs \<union> space_pages (pmem s) pt n
    \<and> (\<forall>b. (\<forall>q\<in>space_pages (pmem s) pt n. 4096 \<le> unat (b - q)) \<longrightarrow> pmem t b = pmem s b)"
proof -
  let ?m = "pmem s"
  let ?N = "npages n"
  have a: "vm_inv s pt xs" "ptrs 2 ?m pt" "unat n \<le> unat MAXVA"
    "\<And>k. k < ?N \<Longrightarrow> leaf ?m pt (pg 0 k) AND PTE_V \<noteq> 0 \<and> PTE_FLAGS (leaf ?m pt (pg 0 k)) \<noteq> PTE_V"
    "\<And>k. k < ?N \<Longrightarrow> valid_page (kend s) (phys ?m pt 0 k) \<and> phys ?m pt 0 k \<notin> tnodes ?m pt \<union> set xs"
    "\<And>j k. j < ?N \<Longrightarrow> k < ?N \<Longrightarrow> phys ?m pt 0 j = phys ?m pt 0 k \<Longrightarrow> j = k"
    "\<And>va. leaf ?m pt va AND PTE_V \<noteq> 0 \<Longrightarrow> \<exists>k<?N. key va = key (pg 0 k)"
    using assms by (auto simp: aspace_def inj_on_def)
  note np = npages_roundup [OF a(3)]
  obtain t where t: "uvmunmap_loop pt 0 (pg 0 ?N) True s = Ret () t" "mem_frame s t"
    "vm_inv t pt (rev (map (phys ?m pt 0) [0..<?N]) @ xs)" "tnodes (pmem t) pt = tnodes ?m pt"
    "\<And>vb. leaf (pmem t) pt vb = (if \<exists>k<?N. key vb = key (pg 0 k) then 0 else leaf ?m pt vb)" "ptrs 2 (pmem t) pt"
    "\<And>b. (\<forall>q\<in>tnodes ?m pt. 4096 \<le> unat (b - q)) \<Longrightarrow> (\<forall>k<?N. 4096 \<le> unat (b - phys ?m pt 0 k)) \<Longrightarrow> pmem t b = ?m b"
    using uvmunmap_spec [OF a(1), of 0 ?N True] a(2,4-6) np(2) by auto
  have "(if n > 0 then uvmunmap pt 0 (PGROUNDUP n div PGSIZE) True s else Ret () s) = Ret () t"
  proof (cases "n = 0")
    case True
    then have "?N = 0" using np(3) by blast
    then have "uvmunmap_loop pt 0 (pg 0 ?N) True s = Ret () s" by (subst uvmunmap_loop.simps) simp
    then show ?thesis using t(1) True by simp
  next
    case False
    then have "n > 0" by (simp add: word_neq_0_conv)
    then show ?thesis using t(1) np(1) by (simp add: uvmunmap_def)
  qed
  moreover have "leaf (pmem t) pt va AND PTE_V = 0" for va
    using a(7) [of va] t(5) [of va] by (cases "\<exists>k<?N. key va = key (pg 0 k)") auto
  then have bare: "bare (kend t) 2 (pmem t) pt" using bare_tree [OF t(3,6)] by blast
  have sub: "subpages 2 (pmem t) pt = tnodes ?m pt" using t(4) tnodes_subpages [of "pmem t" pt] by simp
  have i: "calm t" "lock_free Lk_kmem t" "kmem_inv t (rev (map (phys ?m pt 0) [0..<?N]) @ xs)"
    "tnodes (pmem t) pt \<inter> set (rev (map (phys ?m pt 0) [0..<?N]) @ xs) = {}"
    using t(3) by (simp_all add: vm_inv_def)
  obtain u ys where u: "freewalk 3 pt t = Ret () u" "mem_frame t u" "kmem_inv u ys"
    "set ys = set (rev (map (phys ?m pt 0) [0..<?N]) @ xs) \<union> tnodes ?m pt"
    "\<And>b. (\<forall>q\<in>tnodes ?m pt. 4096 \<le> unat (b - q)) \<Longrightarrow> pmem u b = pmem t b"
    using freewalk_frees [OF i(1-3) bare] i(4) unfolding sub t(4) by (auto simp: numeral_3_eq_3 numeral_2_eq_2)
  have "pmem u b = ?m b" if "\<forall>q\<in>space_pages ?m pt n. 4096 \<le> unat (b - q)" for b
    using that u(5) [of b] t(7) [of b] by (simp add: space_pages_def ball_Un)
  moreover have "set ys = set xs \<union> space_pages ?m pt n" using u(4) by (auto simp: space_pages_def)
  ultimately show ?thesis
    using u(1,3) mem_frame_trans [OF t(2) u(2)] by (intro exI [of _ u] exI [of _ ys]) (simp add: uvmfree_def)
qed

text \<open>An address space depends on memory through its table pages only.\<close>

lemma aspace_far:
  assumes a: "aspace s pt xs n E" and k: "kmem_inv t ys" and fr: "calm t" "lock_free Lk_kmem t" "kend t = kend s"
    and same: "\<forall>q\<in>tnodes (pmem s) pt. \<forall>b. unat (b - q) < 4096 \<longrightarrow> pmem t b = pmem s b"
    and sep: "space_pages (pmem s) pt n \<inter> set ys = {}"
  shows "aspace t pt ys n E" and "space_pages (pmem t) pt n = space_pages (pmem s) pt n"
    and "leaf (pmem t) pt va = leaf (pmem s) pt va" and "tnodes (pmem t) pt = tnodes (pmem s) pt"
proof -
  note far = tree_far [OF same]
  show lf: "leaf (pmem t) pt va = leaf (pmem s) pt va" for va by (rule far(5))
  show tn: "tnodes (pmem t) pt = tnodes (pmem s) pt" by (rule far(3))
  have ph: "phys (pmem t) pt 0 = phys (pmem s) pt 0" by (simp add: phys_def fun_eq_iff lf)
  show "space_pages (pmem t) pt n = space_pages (pmem s) pt n" by (simp add: space_pages_def ph far(3))
  have "ptrs 2 (pmem t) pt" using ptrs_far [OF same] a by (simp add: aspace_def)
  moreover have "vm_inv t pt ys"
    using a k fr sep far(3,4) by (auto simp: aspace_def vm_inv_def space_pages_def)
  moreover have "phys (pmem s) pt 0 i \<notin> tnodes (pmem s) pt \<union> set ys" if "i < npages n" for i
    using a sep that by (auto simp: aspace_def space_pages_def)
  ultimately show "aspace t pt ys n E"
    using a unfolding aspace_def lf ph far(3) fr(3) by blast
qed

end
