(* ===== verification/Lifecycle.thy ===== *)
theory Lifecycle
  imports Process Space
begin

unbundle bit_operations_syntax

text \<open>
  How a process ends: \<open>exit\<close> leaves a zombie, hands its children to the first process and wakes its
  parent; \<open>wait\<close> finds the zombie, reports its number, and gives back every page it was made of.
\<close>

subsection \<open>Freeing a process\<close>

lemma special_pages:
  "TRAMPOLINE mod PGSIZE = 0" "TRAPFRAME mod PGSIZE = 0" "unat TRAMPOLINE + 4096 \<le> unat MAXVA" "unat TRAPFRAME + 4096 \<le> unat MAXVA"
  "TRAMPOLINE < MAXVA" "TRAPFRAME < MAXVA" "key TRAMPOLINE \<noteq> key TRAPFRAME"
  by (simp_all add: TRAMPOLINE_def TRAPFRAME_def MAXVA_def PGSIZE_def key_def PX_def)

text \<open>Removing a mapping of \<open>E\<close>.\<close>

lemma unmap_special:
  assumes a: "aspace s pt xs n E" and e: "e mod PGSIZE = 0" "unat e + 4096 \<le> unat MAXVA" "unat n \<le> unat e"
    and v: "leaf (pmem s) pt e AND PTE_V \<noteq> 0" "PTE_FLAGS (leaf (pmem s) pt e) \<noteq> PTE_V"
  shows "\<exists>t. uvmunmap pt e 1 False s = Ret () t \<and> mem_frame s t \<and> aspace t pt xs n (E - {e})
    \<and> space_pages (pmem t) pt n = space_pages (pmem s) pt n
    \<and> (\<forall>vb. key vb \<noteq> key e \<longrightarrow> leaf (pmem t) pt vb = leaf (pmem s) pt vb)
    \<and> (\<forall>b. (\<forall>q\<in>space_pages (pmem s) pt n. 4096 \<le> unat (b - q)) \<longrightarrow> pmem t b = pmem s b)"
proof -
  let ?m = "pmem s"
  have vm: "vm_inv s pt xs" using a by (simp add: aspace_def)
  obtain t where t: "uvmunmap_loop pt e (pg e 1) False s = Ret () t" "mem_frame s t" "vm_inv t pt xs"
    "tnodes (pmem t) pt = tnodes ?m pt"
    "\<And>vb. leaf (pmem t) pt vb = (if \<exists>k<1. key vb = key (pg e k) then 0 else leaf ?m pt vb)" "ptrs 2 ?m pt \<longrightarrow> ptrs 2 (pmem t) pt"
    "\<And>b. (\<forall>q\<in>tnodes ?m pt. 4096 \<le> unat (b - q)) \<Longrightarrow> pmem t b = ?m b"
    using uvmunmap_spec [OF vm e(1), of 1 False] e(2) v by auto
  have lf: "leaf (pmem t) pt vb = (if key vb = key e then 0 else leaf ?m pt vb)" for vb using t(5) by simp
  have in_range: "key (pg 0 k) \<noteq> key e" if "k < npages n" for k
  proof -
    have le: "unat n \<le> unat MAXVA" using a by (simp add: aspace_def)
    have "4096 * k < unat n"
      using that unfolding npages_def by linarith
    then have "unat (pg 0 k) < unat e" using e(3) unat_pg [of 0 k] le unfolding maxva by simp
    moreover have "pg 0 k mod PGSIZE = 0" using pg_aligned [of 0 k] \<open>4096 * k < unat n\<close> le unfolding maxva by simp
    moreover have "pg 0 k < MAXVA" "e < MAXVA" using calculation(1) e(2) by (simp_all add: word_less_nat_alt)
    ultimately show ?thesis
      using same_page [of "pg 0 k" e] page_aligned_round(1) e(1) by (auto simp: key_def)
  qed
  have ph: "phys (pmem t) pt 0 k = phys ?m pt 0 k" if "k < npages n" for k
    using in_range [OF that] by (simp add: phys_def lf)
  have sp: "space_pages (pmem t) pt n = space_pages ?m pt n" using t(4) ph by (simp add: space_pages_def cong: image_cong_simp)
  have "aspace t pt xs n (E - {e})"
    unfolding aspace_def
  proof (intro conjI allI impI)
    show "vm_inv t pt xs" by (rule t(3))
    show "ptrs 2 (pmem t) pt" "unat n \<le> unat MAXVA" using a t(6) by (simp_all add: aspace_def)
    show "inj_on (phys (pmem t) pt 0) {..<npages n}"
      using a ph by (simp add: aspace_def inj_on_def)
    show "(\<exists>k<npages n. key va = key (pg 0 k)) \<or> (\<exists>e\<in>E - {e}. key va = key e)"
      if "leaf (pmem t) pt va AND PTE_V \<noteq> 0" for va
    proof -
      have "key va \<noteq> key e" "leaf ?m pt va AND PTE_V \<noteq> 0" using that lf [of va] by (auto split: if_splits)
      then show ?thesis using a unfolding aspace_def by blast
    qed
    fix k assume k: "k < npages n"
    show "leaf (pmem t) pt (pg 0 k) AND PTE_V \<noteq> 0" "PTE_FLAGS (leaf (pmem t) pt (pg 0 k)) \<noteq> PTE_V"
      "valid_page (kend t) (phys (pmem t) pt 0 k)" "phys (pmem t) pt 0 k \<notin> tnodes (pmem t) pt \<union> set xs"
      using a k lf in_range [OF k] ph [OF k] t(4) mem_frame_fields(9) [OF t(2)] by (simp_all add: aspace_def)
  qed
  moreover have "uvmunmap pt e 1 False s = Ret () t" using t(1) e(1) by (simp add: uvmunmap_def)
  moreover have "pmem t b = ?m b" if "\<forall>q\<in>space_pages ?m pt n. 4096 \<le> unat (b - q)" for b
    using that by (intro t(7)) (simp add: space_pages_def)
  ultimately show ?thesis using t(2) sp lf by auto
qed

text \<open>The address space of a process: its pages, and the trampoline and trapframe at the top.\<close>

definition proc_space :: "'m memory_scheme \<Rightarrow> u64 \<Rightarrow> u64 list \<Rightarrow> u64 \<Rightarrow> bool" where
  "proc_space s pt xs n \<longleftrightarrow> aspace s pt xs n {TRAMPOLINE, TRAPFRAME} \<and> unat n \<le> unat TRAPFRAME
     \<and> leaf (pmem s) pt TRAMPOLINE AND PTE_V \<noteq> 0 \<and> PTE_FLAGS (leaf (pmem s) pt TRAMPOLINE) \<noteq> PTE_V
     \<and> leaf (pmem s) pt TRAPFRAME AND PTE_V \<noteq> 0 \<and> PTE_FLAGS (leaf (pmem s) pt TRAPFRAME) \<noteq> PTE_V"

lemma proc_freepagetable_spec:
  assumes "proc_space s pt xs n"
  shows "\<exists>t ys. proc_freepagetable pt n s = Ret () t \<and> mem_frame s t \<and> kmem_inv t ys
    \<and> set ys = set xs \<union> space_pages (pmem s) pt n
    \<and> (\<forall>b. (\<forall>q\<in>space_pages (pmem s) pt n. 4096 \<le> unat (b - q)) \<longrightarrow> pmem t b = pmem s b)"
proof -
  let ?S = "space_pages (pmem s) pt n"
  note a = assms [unfolded proc_space_def]
  have n: "unat n \<le> unat TRAMPOLINE" using a by (simp add: TRAMPOLINE_def TRAPFRAME_def MAXVA_def PGSIZE_def)
  obtain t where t: "uvmunmap pt TRAMPOLINE 1 False s = Ret () t" "mem_frame s t" "aspace t pt xs n ({TRAMPOLINE, TRAPFRAME} - {TRAMPOLINE})"
    "space_pages (pmem t) pt n = ?S" "\<And>vb. key vb \<noteq> key TRAMPOLINE \<Longrightarrow> leaf (pmem t) pt vb = leaf (pmem s) pt vb"
    "\<And>b. (\<forall>q\<in>?S. 4096 \<le> unat (b - q)) \<Longrightarrow> pmem t b = pmem s b"
    using unmap_special [OF _ special_pages(1,3) n] a by metis
  have lf: "leaf (pmem t) pt TRAPFRAME = leaf (pmem s) pt TRAPFRAME" using t(5) special_pages(7) by metis
  obtain u where u: "uvmunmap pt TRAPFRAME 1 False t = Ret () u" "mem_frame t u"
    "aspace u pt xs n (({TRAMPOLINE, TRAPFRAME} - {TRAMPOLINE}) - {TRAPFRAME})" "space_pages (pmem u) pt n = ?S"
    "\<And>b. (\<forall>q\<in>?S. 4096 \<le> unat (b - q)) \<Longrightarrow> pmem u b = pmem t b"
    using unmap_special [OF t(3) special_pages(2,4)] a lf t(4) by metis
  have "aspace u pt xs n {}" using u(3) by (auto simp: insert_Diff_if split: if_splits)
  from uvmfree_spec [OF this] obtain v ys where v: "uvmfree 3 pt n u = Ret () v" "mem_frame u v" "kmem_inv v ys"
    "set ys = set xs \<union> ?S" "\<And>b. (\<forall>q\<in>?S. 4096 \<le> unat (b - q)) \<Longrightarrow> pmem v b = pmem u b"
    unfolding u(4) by blast
  have "mem_frame s v" using t(2) u(2) v(2) mem_frame_trans by blast
  then show ?thesis
    using t(1,6) u(1,5) v by (intro exI [of _ v] exI [of _ ys]) (simp add: proc_freepagetable_def)
qed

text \<open>The pages a process is made of: its trapframe and its address space.\<close>

definition proc_pages :: "nat \<Rightarrow> 'm memory_scheme \<Rightarrow> u64 set" where
  "proc_pages p s = insert (trapframe (procs s p)) (space_pages (pmem s) (pagetable (procs s p)) (sz (procs s p)))"

definition proc_mem :: "nat \<Rightarrow> 'm memory_scheme \<Rightarrow> u64 list \<Rightarrow> bool" where
  "proc_mem p s xs \<longleftrightarrow> trapframe (procs s p) \<noteq> 0 \<and> valid_page (kend s) (trapframe (procs s p))
     \<and> trapframe (procs s p) \<notin> set xs \<union> space_pages (pmem s) (pagetable (procs s p)) (sz (procs s p))
     \<and> pagetable (procs s p) \<noteq> 0 \<and> proc_space s (pagetable (procs s p)) xs (sz (procs s p))"

definition reset_proc :: "proc \<Rightarrow> proc" where
  "reset_proc q = q\<lparr>trapframe := 0, pagetable := 0, sz := 0, pid := 0, parent := None, pname := (pname q)(0 := 0),
     pchan := None, killed := 0, xstate := 0, pstate := UNUSED\<rparr>"

lemma proc_space_procs [simp]: "proc_space (s\<lparr>procs := x\<rparr>) pt xs n = proc_space s pt xs n"
  by (simp add: proc_space_def aspace_def vm_inv_def kmem_inv_def)

lemma freeproc_spec:
  assumes pm: "proc_mem p s xs"
  shows "\<exists>t ys. freeproc p s = Ret () t \<and> kmem_inv t ys \<and> set ys = set xs \<union> proc_pages p s
    \<and> t = s\<lparr>procs := (procs s)(p := reset_proc (procs s p)), freelist := freelist t, pmem := pmem t\<rparr>
    \<and> (\<forall>b. (\<forall>q\<in>proc_pages p s. 4096 \<le> unat (b - q)) \<longrightarrow> pmem t b = pmem s b)"
proof -
  let ?tf = "trapframe (procs s p)" and ?pt = "pagetable (procs s p)" and ?n = "sz (procs s p)"
  let ?S = "space_pages (pmem s) ?pt ?n"
  have a: "?tf \<noteq> 0" "valid_page (kend s) ?tf" "?tf \<notin> set xs" "?tf \<notin> ?S" "?pt \<noteq> 0" "proc_space s ?pt xs ?n"
    using pm by (simp_all add: proc_mem_def)
  have as: "aspace s ?pt xs ?n {TRAMPOLINE, TRAPFRAME}" using a(6) by (simp add: proc_space_def)
  then have vm: "calm s" "lock_free Lk_kmem s" "kmem_inv s xs" "pt_tree (kend s) (pmem s) ?pt" "?S \<inter> set xs = {}"
    by (auto simp: aspace_def vm_inv_def space_pages_def)
  obtain t where t: "kfree ?tf s = Ret () t" "kmem_inv t (?tf # xs)" "\<And>b. 4096 \<le> unat (b - ?tf) \<Longrightarrow> pmem t b = pmem s b" "mem_frame s t"
    using kfree_push [OF vm(1-3) a(2,3)] by blast
  note fr = mem_frame_fields [OF t(4)]
  have same: "\<forall>q\<in>tnodes (pmem s) ?pt. \<forall>b. unat (b - q) < 4096 \<longrightarrow> pmem t b = pmem s b"
  proof (intro ballI allI impI)
    fix q b assume q: "q \<in> tnodes (pmem s) ?pt" and b: "unat (b - q) < 4096"
    have "q mod PGSIZE = 0" using vm(4) q by (rule pt_treeD)
    moreover have "q \<noteq> ?tf" using a(4) q by (auto simp: space_pages_def)
    ultimately show "pmem t b = pmem s b" using a(2) b by (intro t(3) far_page [of q]) (simp_all add: valid_page_def)
  qed
  have "?S \<inter> set (?tf # xs) = {}" using vm(5) a(4) by auto
  note far = aspace_far [OF as t(2) _ _ fr(9) same this, unfolded fr, OF vm(1,2)]
  let ?t = "upd_proc p (\<lambda>q. q\<lparr>trapframe := 0\<rparr>) t"
  have ps: "proc_space ?t ?pt (?tf # xs) ?n"
    using a(6) far by (simp add: proc_space_def upd_proc_def aspace_def vm_inv_def kmem_inv_def)
  obtain u ys where u: "proc_freepagetable ?pt ?n ?t = Ret () u" "mem_frame ?t u" "kmem_inv u ys"
    "set ys = set (?tf # xs) \<union> ?S" "\<And>b. (\<forall>q\<in>?S. 4096 \<le> unat (b - q)) \<Longrightarrow> pmem u b = pmem t b"
    using proc_freepagetable_spec [OF ps] far(2) by (auto simp: upd_proc_def)
  let ?u = "upd_proc p (\<lambda>q. q\<lparr>pagetable := 0, sz := 0, pid := 0, parent := None, pname := (pname q)(0 := 0),
         pchan := None, killed := 0, xstate := 0, pstate := UNUSED\<rparr>) u"
  have eq: "freeproc p s = Ret () ?u"
    using a(1,5) t(1) u(1) fr by (simp add: freeproc_def Let_def)
  have "procs u = procs ?t" using mem_frame_fields(6) [OF u(2)] .
  then have "?u = s\<lparr>procs := (procs s)(p := reset_proc (procs s p)), freelist := freelist ?u, pmem := pmem ?u\<rparr>"
    using mem_frame_fields [OF u(2)] fr by (intro memory.equality) (simp_all add: reset_proc_def upd_proc_def fun_eq_iff)
  moreover have "kmem_inv ?u ys" using u(3) by (simp add: kmem_inv_def upd_proc_def)
  moreover have "set ys = set xs \<union> proc_pages p s" using u(4) by (auto simp: proc_pages_def)
  moreover have "pmem ?u b = pmem s b" if "\<forall>q\<in>proc_pages p s. 4096 \<le> unat (b - q)" for b
    using that u(5) [of b] t(3) [of b] by (simp add: proc_pages_def upd_proc_def)
  ultimately show ?thesis using eq by blast
qed

subsection \<open>Storing in one process does not disturb another\<close>

text \<open>The pages through which a process reads its memory.\<close>

definition user_pages :: "mem \<Rightarrow> u64 \<Rightarrow> u64 set" where
  "user_pages m pt = {q. q \<noteq> 0 \<and> (\<exists>va. upage m pt va = q)} \<union> (\<Union>va\<in>{..<MAXVA}. tpages 2 m pt va)"

lemma user_pages_aligned: "pt mod PGSIZE = 0 \<Longrightarrow> q \<in> user_pages m pt \<Longrightarrow> q mod PGSIZE = 0"
proof -
  assume pt: "pt mod PGSIZE = 0" and "q \<in> user_pages m pt"
  then consider va where "q = upage m pt va" | va where "q \<in> tpages 2 m pt va" unfolding user_pages_def by blast
  then show ?thesis using upage_aligned tpages_aligned [OF pt] by cases metis+
qed

lemma umem_far:
  assumes "\<And>q a. q \<in> user_pages m pt \<Longrightarrow> unat (a - q) < 4096 \<Longrightarrow> m' a = m a"
  shows "umem m' pt va = umem m pt va"
proof -
  have up: "upage m' pt vb = upage m pt vb" for vb
  proof (cases "vb < MAXVA")
    case True
    have "walk_ro 2 m' pt vb = walk_ro 2 m pt vb \<and> tpages 2 m' pt vb = tpages 2 m pt vb
      \<and> (walk_ro 2 m pt vb \<noteq> 0 \<longrightarrow> ld64 m' (walk_ro 2 m pt vb) = ld64 m (walk_ro 2 m pt vb))"
      by (rule walk_ro_cong, rule assms) (use True in \<open>auto simp: user_pages_def\<close>)
    then show ?thesis by (auto simp: upage_def Let_def)
  qed (simp add: upage_def not_less)
  show ?thesis
  proof (cases "upage m pt (PGROUNDDOWN va) = 0")
    case False
    let ?q = "upage m pt (PGROUNDDOWN va)"
    have "?q \<in> user_pages m pt" using False by (auto simp: user_pages_def)
    moreover have "unat (?q + va mod PGSIZE - ?q) < 4096" using unat_page_mod by simp
    ultimately have "m' (?q + va mod PGSIZE) = m (?q + va mod PGSIZE)" by (rule assms)
    then show ?thesis by (simp add: umem_def up Let_def)
  qed (simp add: umem_def up)
qed

lemma kmem_inv_far:
  assumes "kmem_inv s xs" and "\<And>q a. q \<in> set xs \<Longrightarrow> unat (a - q) < 4096 \<Longrightarrow> m a = pmem s a"
  shows "kmem_inv (s\<lparr>pmem := m\<rparr>) xs"
proof -
  have "ld64 m x = ld64 (pmem s) x" if "x \<in> set xs" for x
    by (rule ld64_cong, rule assms(2) [OF that]) (simp add: word_less_nat_alt)
  then have "freelist_is m (freelist s) xs = freelist_is (pmem s) (freelist s) xs" by (rule freelist_is_cong)
  then show ?thesis using assms(1) by (simp add: kmem_inv_def)
qed

lemma proc_mem_far:
  assumes pm: "proc_mem p s xs" and same: "\<And>q a. q \<in> proc_pages p s \<union> set xs \<Longrightarrow> unat (a - q) < 4096 \<Longrightarrow> m a = pmem s a"
  shows "proc_mem p (s\<lparr>pmem := m\<rparr>) xs" and "proc_pages p (s\<lparr>pmem := m\<rparr>) = proc_pages p s"
proof -
  let ?pt = "pagetable (procs s p)" and ?n = "sz (procs s p)" and ?t = "s\<lparr>pmem := m\<rparr>"
  have as: "aspace s ?pt xs ?n {TRAMPOLINE, TRAPFRAME}" using pm by (simp add: proc_mem_def proc_space_def)
  have k: "kmem_inv s xs" "calm s" "lock_free Lk_kmem s" using as by (simp_all add: aspace_def vm_inv_def)
  have kt: "kmem_inv ?t xs" using k(1) same by (intro kmem_inv_far) blast+
  have tn: "\<forall>q\<in>tnodes (pmem s) ?pt. \<forall>b. unat (b - q) < 4096 \<longrightarrow> pmem ?t b = pmem s b"
    using same by (auto simp: proc_pages_def space_pages_def)
  have sep: "space_pages (pmem s) ?pt ?n \<inter> set xs = {}"
    using as by (auto simp: aspace_def vm_inv_def space_pages_def)
  have c: "calm ?t" "lock_free Lk_kmem ?t" using k by simp_all
  note far = aspace_far [OF as kt c _ tn sep]
  show "proc_pages p ?t = proc_pages p s" using far(2) by (simp add: proc_pages_def)
  show "proc_mem p ?t xs" using pm far by (simp add: proc_mem_def proc_space_def)
qed

lemma proc_mem_aligned:
  assumes "proc_mem p s xs" and "q \<in> proc_pages p s \<union> set xs"
  shows "q mod PGSIZE = 0"
proof -
  let ?pt = "pagetable (procs s p)"
  have as: "aspace s ?pt xs (sz (procs s p)) {TRAMPOLINE, TRAPFRAME}" using assms(1) by (simp add: proc_mem_def proc_space_def)
  have vm: "kmem_inv s xs" "pt_tree (kend s) (pmem s) ?pt" using as by (simp_all add: aspace_def vm_inv_def)
  consider "q = trapframe (procs s p)" | "q \<in> tnodes (pmem s) ?pt" | k where "q = phys (pmem s) ?pt 0 k" | "q \<in> set xs"
    using assms(2) by (auto simp: proc_pages_def space_pages_def)
  then show ?thesis
  proof cases
    case 1
    then show ?thesis using assms(1) unfolding proc_mem_def valid_page_def by blast
  next
    case 2
    then show ?thesis by (rule pt_treeD(1) [OF vm(2)])
  next
    case 3
    then show ?thesis by (simp only: phys_def PTE2PA_aligned)
  next
    case 4
    then show ?thesis using vm(1) unfolding kmem_inv_def valid_page_def by blast
  qed
qed

lemma copyout_into:
  assumes "uspace (pmem s) pt"
  shows "\<exists>m. copyout pt dst src len s = Ret (if all_mapped (pmem s) pt dst len then 0 else -1) (s\<lparr>pmem := m\<rparr>)
    \<and> (all_mapped (pmem s) pt dst len \<longrightarrow> (\<forall>va. umem m pt va
         = (if unat (va - dst) < unat len then Some (src (unat (va - dst))) else umem (pmem s) pt va)))
    \<and> (\<forall>a. (\<forall>va. upage (pmem s) pt va \<noteq> 0 \<longrightarrow> 4096 \<le> unat (a - upage (pmem s) pt va)) \<longrightarrow> m a = pmem s a)
    \<and> user_pages m pt = user_pages (pmem s) pt"
proof -
  let ?m = "pmem s"
  obtain t where t: "copyout pt dst src len s = Ret (if all_mapped ?m pt dst len then 0 else -1) t" "mem_frame s t" "freelist t = freelist s"
    "\<And>va. upage (pmem t) pt va = upage ?m pt va"
    "all_mapped ?m pt dst len \<longrightarrow> (\<forall>va. umem (pmem t) pt va
         = (if unat (va - dst) < unat len then Some (src (unat (va - dst))) else umem ?m pt va))"
    "\<And>a. (\<forall>va. upage ?m pt va \<noteq> 0 \<longrightarrow> 4096 \<le> unat (a - upage ?m pt va)) \<Longrightarrow> pmem t a = ?m a"
    using copyout_spec [OF assms, of dst src len] unfolding all_mapped_def by blast
  have eq: "t = s\<lparr>pmem := pmem t\<rparr>"
    using mem_frame_fields [OF t(2)] t(3) by (intro memory.equality) simp_all
  have al: "pt mod PGSIZE = 0" using assms by (simp add: uspace_def)
  have tp: "tpages 2 (pmem t) pt vb = tpages 2 ?m pt vb" if vb: "vb < MAXVA" for vb
  proof -
    have "pmem t (q + o') = ?m (q + o')" if q: "q \<in> tpages 2 ?m pt vb" and o': "unat o' < 4096" for q o'
    proof (rule t(6), intro allI impI)
      fix va assume va: "upage ?m pt va \<noteq> 0"
      have "upage ?m pt va \<notin> tpages 2 ?m pt vb" using assms va vb unfolding uspace_def by blast
      then have "q \<noteq> upage ?m pt va" using q by blast
      then show "4096 \<le> unat (q + o' - upage ?m pt va)" using tpages_aligned [OF al q] o' by (intro page_offset) simp_all
    qed
    then show ?thesis using walk_ro_cong [of 2 ?m pt vb "pmem t"] by blast
  qed
  have "user_pages (pmem t) pt = user_pages ?m pt" using tp by (simp add: user_pages_def t(4))
  then show ?thesis using t(1,5,6) eq by (intro exI [of _ "pmem t"]) simp
qed

subsection \<open>wait\<close>

definition is_child :: "nat \<Rightarrow> 'm machine_scheme \<Rightarrow> nat \<Rightarrow> bool" where
  "is_child p s i \<longleftrightarrow> parent (procs s i) = Some p"

lemma wait_scan_skip:
  assumes "calm s" and "\<And>i. i \<in> set is \<Longrightarrow> lock_free (Lk_proc i) s"
    and "\<And>i. i \<in> set is \<Longrightarrow> is_child p s i \<Longrightarrow> pstate (procs s i) \<noteq> ZOMBIE"
  shows "wait_scan p addr (is @ js) hk s = wait_scan p addr js (hk \<or> (\<exists>i\<in>set is. is_child p s i)) s"
  using assms by (induction "is" arbitrary: hk) (simp_all add: is_child_def)

definition wait_child :: "nat \<Rightarrow> 'm machine_scheme \<Rightarrow> nat option" where
  "wait_child p s = find (\<lambda>i. is_child p s i \<and> pstate (procs s i) = ZOMBIE) [0..<NPROC]"

lemma wait_child_split:
  assumes "wait_child p s = Some c"
  obtains "is" js where "[0..<NPROC] = is @ c # js" "c < NPROC" "is_child p s c" "pstate (procs s c) = ZOMBIE"
    "\<And>i. i \<in> set is \<Longrightarrow> is_child p s i \<Longrightarrow> pstate (procs s i) \<noteq> ZOMBIE"
proof -
  let ?P = "\<lambda>i. is_child p s i \<and> pstate (procs s i) = ZOMBIE"
  have c: "c \<in> set [0..<NPROC]" "?P c" using find_SomeD [OF assms [unfolded wait_child_def]] by auto
  have "\<exists>is js. xs = is @ c # js \<and> (\<forall>i\<in>set is. \<not> ?P i)" if "find ?P xs = Some c" for xs
    using that
  proof (induction xs)
    case (Cons x xs)
    show ?case
    proof (cases "?P x")
      case True
      then have "x # xs = [] @ c # xs" using Cons.prems by simp
      then show ?thesis by (metis empty_iff empty_set)
    next
      case False
      then have "find ?P xs = Some c" using Cons.prems by (simp split: if_splits)
      then obtain "is" js where "xs = is @ c # js" "\<forall>i\<in>set is. \<not> ?P i" using Cons.IH by blast
      then have "x # xs = (x # is) @ c # js" "\<forall>i\<in>set (x # is). \<not> ?P i" using False by auto
      then show ?thesis by blast
    qed
  qed simp
  then obtain "is" js where "[0..<NPROC] = is @ c # js" "\<forall>i\<in>set is. \<not> ?P i" using assms unfolding wait_child_def by blast
  then obtain "is" js where s: "[0..<NPROC] = is @ c # js" and n: "\<And>i. i \<in> set is \<Longrightarrow> \<not> ?P i" by blast
  have "c < NPROC" using c(1) by (simp only: set_upt atLeastLessThan_iff)
  from that [OF s this] c(2) n show ?thesis by blast
qed

lemma freeproc_wait:
  assumes w: "world p s" and l: "lk = lock_on (Lk_proc c) (lock_on Lk_wait s)" and pm: "proc_mem c s xs"
  shows "\<exists>t ys. freeproc c lk = Ret () (lock_on (Lk_proc c) (lock_on Lk_wait t)) \<and> kmem_inv t ys
    \<and> set ys = set xs \<union> proc_pages c s
    \<and> t = s\<lparr>procs := (procs s)(c := reset_proc (procs s c)), freelist := freelist t, pmem := pmem t\<rparr>
    \<and> (\<forall>b. (\<forall>q\<in>proc_pages c s. 4096 \<le> unat (b - q)) \<longrightarrow> pmem t b = pmem s b)"
proof -
  note w' = worldD [OF w]
  have k: "lock_free Lk_kmem lk" "calm lk" using w' by (simp_all add: l)
  have "vm_inv lk (pagetable (procs s c)) xs = vm_inv s (pagetable (procs s c)) xs"
    using w' k by (simp add: vm_inv_def l kmem_inv_def)
  then have "proc_mem c lk xs" using pm by (simp add: proc_mem_def proc_space_def aspace_def l)
  from freeproc_spec [OF this] obtain t ys where t: "freeproc c lk = Ret () t" "kmem_inv t ys" "set ys = set xs \<union> proc_pages c lk"
    "t = lk\<lparr>procs := (procs lk)(c := reset_proc (procs lk c)), freelist := freelist t, pmem := pmem t\<rparr>"
    "\<And>b. (\<forall>q\<in>proc_pages c lk. 4096 \<le> unat (b - q)) \<Longrightarrow> pmem t b = pmem lk b" by blast
  let ?t = "s\<lparr>procs := (procs s)(c := reset_proc (procs s c)), freelist := freelist t, pmem := pmem t\<rparr>"
  have "t = lock_on (Lk_proc c) (lock_on Lk_wait ?t)" by (subst t(4)) (simp add: l)
  moreover have "kmem_inv ?t ys"
  proof -
    have "kend t = kend s" by (subst t(4)) (simp add: l)
    then show ?thesis using t(2) by (simp add: kmem_inv_def)
  qed
  moreover have "proc_pages c lk = proc_pages c s" by (simp add: proc_pages_def l)
  ultimately show ?thesis using t(1,3,5) by (intro exI [of _ ?t] exI [of _ ys]) (simp add: l)
qed

lemma two_locks:
  assumes "world p s" and "a \<noteq> b"
  shows "release a (lock_on a (lock_on b s)) = Ret () (lock_on b s)" and "release b (lock_on b s) = Ret () s"
  using worldD [OF assms(1)] assms(2) by simp_all

text \<open>C31: a parent that waits for a zombie child. It gets the number of the first one in the table, and its
  exit status in its memory at \<open>addr\<close> (unless that is 0); the child's slot is free again, and every page
  of the child (its trapframe, its user pages, its page table) is back on the free list, exactly once.
  With an \<open>addr\<close> that is not mapped the result is -1 and the child stays.\<close>

theorem wait_correct:
  assumes "world p s" and "wait_child p s = Some c" and "proc_mem c s xs"
    and "uspace (pmem s) (pagetable (procs s p))"
    and "user_pages (pmem s) (pagetable (procs s p)) \<inter> (proc_pages c s \<union> set xs) = {}"
  shows "if addr = 0 \<or> all_mapped (pmem s) (pagetable (procs s p)) addr 4
    then \<exists>t ys. wait addr s = Ret (pid (procs s c)) t \<and> world p t
      \<and> procs t = (procs s)(c := reset_proc (procs s c))
      \<and> kmem_inv t ys \<and> set ys = set xs \<union> proc_pages c s
      \<and> (\<forall>va. umem (pmem t) (pagetable (procs s p)) va = (if addr \<noteq> 0 \<and> unat (va - addr) < 4
           then Some (le_byte (unat (va - addr)) (of_int (xstate (procs s c)) :: u32))
           else umem (pmem s) (pagetable (procs s p)) va))
    else \<exists>t. wait addr s = Ret (-1) t \<and> procs t = procs s"
proof -
  note w = worldD [OF assms(1)]
  let ?m = "pmem s" and ?pt = "pagetable (procs s p)" and ?x = "\<lambda>k. le_byte k (of_int (xstate (procs s c)) :: u32)"
  let ?lk = "lock_on (Lk_proc c) (lock_on Lk_wait s)"
  obtain "is" js where c: "[0..<NPROC] = is @ c # js" "c < NPROC" "is_child p s c" "pstate (procs s c) = ZOMBIE"
    "\<And>i. i \<in> set is \<Longrightarrow> is_child p s i \<Longrightarrow> pstate (procs s i) \<noteq> ZOMBIE"
    using wait_child_split [OF assms(2)] by metis
  have al: "q mod PGSIZE = 0" if "q \<in> user_pages ?m ?pt" for q
    using assms(4) user_pages_aligned [OF _ that] unfolding uspace_def by metis
  have pal: "q mod PGSIZE = 0" if "q \<in> proc_pages c s \<union> set xs" for q
    using proc_mem_aligned [OF assms(3) that] .
  have "\<exists>m. (if addr \<noteq> 0 then copyout ?pt addr ?x 4 ?lk else Ret 0 ?lk)
      = Ret (if addr = 0 \<or> all_mapped ?m ?pt addr 4 then 0 else -1) (lock_on (Lk_proc c) (lock_on Lk_wait (s\<lparr>pmem := m\<rparr>)))
    \<and> (addr = 0 \<or> all_mapped ?m ?pt addr 4 \<longrightarrow> (\<forall>va. umem m ?pt va = (if addr \<noteq> 0 \<and> unat (va - addr) < 4
           then Some (?x (unat (va - addr))) else umem ?m ?pt va)))
    \<and> (\<forall>a. (\<forall>va. upage ?m ?pt va \<noteq> 0 \<longrightarrow> 4096 \<le> unat (a - upage ?m ?pt va)) \<longrightarrow> m a = ?m a)
    \<and> user_pages m ?pt = user_pages ?m ?pt"
  proof (cases "addr = 0")
    case True
    then show ?thesis by (intro exI [of _ ?m]) simp
  next
    case False
    have e: "pmem ?lk = ?m" by simp
    have l: "?lk\<lparr>pmem := m\<rparr> = lock_on (Lk_proc c) (lock_on Lk_wait (s\<lparr>pmem := m\<rparr>))" for m by simp
    have n: "unat (4 :: u64) = 4" by simp
    show ?thesis using copyout_into [of ?lk ?pt addr ?x 4, unfolded e l n, OF assms(4)]
      by (simp only: False simp_thms if_True not_False_eq_True)
  qed
  then obtain m where m: "(if addr \<noteq> 0 then copyout ?pt addr ?x 4 ?lk else Ret 0 ?lk)
      = Ret (if addr = 0 \<or> all_mapped ?m ?pt addr 4 then 0 else -1) (lock_on (Lk_proc c) (lock_on Lk_wait (s\<lparr>pmem := m\<rparr>)))"
    "addr = 0 \<or> all_mapped ?m ?pt addr 4 \<Longrightarrow> umem m ?pt va = (if addr \<noteq> 0 \<and> unat (va - addr) < 4
           then Some (?x (unat (va - addr))) else umem ?m ?pt va)"
    "\<And>a. (\<forall>va. upage ?m ?pt va \<noteq> 0 \<longrightarrow> 4096 \<le> unat (a - upage ?m ?pt va)) \<Longrightarrow> m a = ?m a"
    "user_pages m ?pt = user_pages ?m ?pt" for va by metis
  let ?s = "s\<lparr>pmem := m\<rparr>" and ?l = "lock_on (Lk_proc c) (lock_on Lk_wait (s\<lparr>pmem := m\<rparr>))"
  have ws: "world p ?s" using assms(1) by (simp cong: world_cong)
  have scan0: "wait_turn p addr (lock_on Lk_wait s) = bnd (if addr \<noteq> 0 then copyout ?pt addr ?x 4 ?lk else Ret 0 ?lk)
      (\<lambda>r u. bnd (if r < 0 then
              bnd (release (Lk_proc c) u) (\<lambda>_ u. bnd (release Lk_wait u) (\<lambda>_ u. Ret (Inl (-1)) u))
            else
              bnd (freeproc c u) (\<lambda>_ u.
              bnd (release (Lk_proc c) u) (\<lambda>_ u. bnd (release Lk_wait u) (\<lambda>_ u. Ret (Inl (pid (procs s c))) u))))
        (\<lambda>r u. case r of Inl v \<Rightarrow> Ret v u | Inr havekids \<Rightarrow>
          if \<not> havekids \<or> killed (procs u p) \<noteq> 0 then bnd (release Lk_wait u) (\<lambda>_ u. Ret (-1) u)
          else sleep (Ch_proc p) Lk_wait u))"
  proof -
    have "wait_scan p addr (is @ c # js) False (lock_on Lk_wait s)
        = wait_scan p addr (c # js) (False \<or> (\<exists>i\<in>set is. is_child p (lock_on Lk_wait s) i)) (lock_on Lk_wait s)"
      using w c(5) by (intro wait_scan_skip) (simp_all add: is_child_def)
    then show ?thesis
      using w c(3,4) by (simp add: wait_turn_def c(1) is_child_def bnd_assoc)
  qed
  note scan = scan0 [unfolded m(1)]
  have wait: "wait addr s = wait_turn p addr (lock_on Lk_wait s)" using w by (simp add: wait_def)
  show ?thesis
  proof (cases "addr = 0 \<or> all_mapped ?m ?pt addr 4")
    case False
    then have "wait addr s = Ret (-1) ?s" unfolding wait scan using two_locks [OF ws, of "Lk_proc c" Lk_wait] by simp
    then show ?thesis using False by simp
  next
    case True
    have quiet: "m a = ?m a" if "q \<in> proc_pages c s \<union> set xs" "unat (a - q) < 4096" for q a
    proof (rule m(3), intro allI impI)
      fix va assume "upage ?m ?pt va \<noteq> 0"
      then have "upage ?m ?pt va \<in> user_pages ?m ?pt" by (auto simp: user_pages_def)
      then have "upage ?m ?pt va \<noteq> q" "upage ?m ?pt va mod PGSIZE = 0" using assms(5) that(1) al by blast+
      then show "4096 \<le> unat (a - upage ?m ?pt va)" using pal [OF that(1)] that(2) far_page [of q] by metis
    qed
    have pm: "proc_mem c ?s xs" "proc_pages c ?s = proc_pages c s"
      using quiet by (blast intro!: proc_mem_far [OF assms(3)])+
    obtain t ys where t: "freeproc c ?l = Ret () (lock_on (Lk_proc c) (lock_on Lk_wait t))" "kmem_inv t ys"
      "set ys = set xs \<union> proc_pages c s"
      "t = ?s\<lparr>procs := (procs s)(c := reset_proc (procs s c)), freelist := freelist t, pmem := pmem t\<rparr>"
      "\<And>b. (\<forall>q\<in>proc_pages c s. 4096 \<le> unat (b - q)) \<Longrightarrow> pmem t b = m b"
      using freeproc_wait [OF ws refl pm(1)] unfolding pm(2) by (simp add: Bex_def) blast
    have wt: "world p t" by (subst t(4)) (use ws in \<open>simp cong: world_cong\<close>)
    have "wait addr s = Ret (pid (procs s c)) t"
      unfolding wait scan using True t(1) two_locks [OF wt, of "Lk_proc c" Lk_wait] by simp
    moreover have "procs t = (procs s)(c := reset_proc (procs s c))" by (subst t(4)) simp
    moreover have "umem (pmem t) ?pt va = umem m ?pt va" for va
    proof (rule umem_far)
      fix q a assume q: "q \<in> user_pages m ?pt" and a: "unat (a - q) < 4096"
      show "pmem t a = m a"
      proof (rule t(5), rule ballI)
        fix r assume r: "r \<in> proc_pages c s"
        then have "q \<noteq> r" using assms(5) q m(4) by blast
        then show "4096 \<le> unat (a - r)" using far_page [OF al pal _ a] q r m(4) by blast
      qed
    qed
    ultimately show ?thesis using True wt t(2,3) m(2) by auto
  qed
qed

text \<open>A parent without a zombie child. With no child, or when it has been killed, \<open>wait\<close> returns -1;
  otherwise it sleeps, on its own channel, which \<open>exit\<close> of a child wakes, with the lock released.\<close>

theorem wait_blocks:
  assumes "world p s" and "depth s = 0" and "p < NPROC" and "wait_child p s = None"
  shows "wait addr s = (if (\<forall>i<NPROC. \<not> is_child p s i) \<or> killed (procs s p) \<noteq> 0 then Ret (-1) s
    else Swtch (lock_on (Lk_proc p) (upd_proc p (\<lambda>q. q\<lparr>pchan := Some (Ch_proc p), pstate := SLEEPING\<rparr>) s)))"
proof -
  note w = worldD [OF assms(1)]
  have nz: "pstate (procs s i) \<noteq> ZOMBIE" if "i < NPROC" "is_child p s i" for i
    using find_NoneD [OF assms(4) [unfolded wait_child_def], of i] that by simp
  have "wait_scan p addr ([0..<NPROC] @ []) False (lock_on Lk_wait s)
      = wait_scan p addr [] (False \<or> (\<exists>i\<in>set [0..<NPROC]. is_child p (lock_on Lk_wait s) i)) (lock_on Lk_wait s)"
    using w nz by (intro wait_scan_skip) (simp_all add: is_child_def)
  then have scan: "wait_scan p addr [0..<NPROC] False (lock_on Lk_wait s) = Ret (Inr (\<exists>i<NPROC. is_child p s i)) (lock_on Lk_wait s)"
    by (simp add: is_child_def Bex_def conj_commute atLeast0LessThan lessThan_def)
  have sl: "sleep (Ch_proc p) Lk_wait (lock_on Lk_wait s)
    = (Swtch (lock_on (Lk_proc p) (upd_proc p (\<lambda>q. q\<lparr>pchan := Some (Ch_proc p), pstate := SLEEPING\<rparr>) s)) :: (int, _) outcome)"
    using w assms(2) by (intro sleep_eq) auto
  have "wait addr s = wait_turn p addr (lock_on Lk_wait s)" using w by (simp add: wait_def)
  also have "\<dots> = (if (\<forall>i<NPROC. \<not> is_child p s i) \<or> killed (procs s p) \<noteq> 0 then Ret (-1) s
    else Swtch (lock_on (Lk_proc p) (upd_proc p (\<lambda>q. q\<lparr>pchan := Some (Ch_proc p), pstate := SLEEPING\<rparr>) s)))"
    using w sl by (simp add: wait_turn_def scan)
  finally show ?thesis .
qed

subsection \<open>exit\<close>

text \<open>The process table once the children of \<open>p\<close> below \<open>k\<close> are init's.\<close>

definition adopted :: "nat \<Rightarrow> nat \<Rightarrow> nat \<Rightarrow> (nat \<Rightarrow> proc) \<Rightarrow> nat \<Rightarrow> proc" where
  "adopted p ini k ps i = (if i < k \<and> parent (ps i) = Some p then (ps i)\<lparr>parent := Some ini\<rparr> else ps i)"

definition adopting :: "nat \<Rightarrow> nat \<Rightarrow> nat \<Rightarrow> (nat \<Rightarrow> proc) \<Rightarrow> nat \<Rightarrow> proc" where
  "adopting p ini k ps = (if \<exists>i<k. parent (ps i) = Some p
    then wake_procs (Ch_proc ini) (Some p) (adopted p ini k ps) else adopted p ini k ps)"

lemma wake_proc_parent [simp]: "wake_proc ch (q\<lparr>parent := x\<rparr>) = (wake_proc ch q)\<lparr>parent := x\<rparr>"
  by (simp add: wake_proc_def)

lemma adopting_0 [simp]: "adopting p ini 0 ps = ps"
  by (simp add: adopting_def adopted_def fun_eq_iff)

lemma adopting_parent: "parent (adopting p ini k ps k) = parent (ps k)"
  by (simp add: adopting_def adopted_def)

lemma adopting_Suc:
  "adopting p ini (Suc k) ps = (if parent (ps k) = Some p
     then wake_procs (Ch_proc ini) (Some p) ((adopting p ini k ps)
       (k := (adopting p ini k ps k)\<lparr>parent := Some ini\<rparr>))
     else adopting p ini k ps)"
proof (rule ext)
  fix i
  have ad: "adopted p ini (Suc k) ps i = (if i = k \<and> parent (ps k) = Some p then (ps k)\<lparr>parent := Some ini\<rparr>
      else adopted p ini k ps i)" "adopted p ini k ps k = ps k" "adopted p ini (Suc k) ps k
      = (if parent (ps k) = Some p then (ps k)\<lparr>parent := Some ini\<rparr> else ps k)"
    by (auto simp: adopted_def less_Suc_eq)
  show "adopting p ini (Suc k) ps i = (if parent (ps k) = Some p
     then wake_procs (Ch_proc ini) (Some p) ((adopting p ini k ps)
       (k := (adopting p ini k ps k)\<lparr>parent := Some ini\<rparr>))
     else adopting p ini k ps) i"
  proof -
    define E where "E \<longleftrightarrow> (\<exists>i<k. parent (ps i) = Some p)"
    have "(\<exists>i<Suc k. parent (ps i) = Some p) \<longleftrightarrow> parent (ps k) = Some p \<or> E" unfolding E_def by (rule Ex_less_Suc)
    then have a: "adopting p ini (Suc k) ps = (if parent (ps k) = Some p \<or> E
        then wake_procs (Ch_proc ini) (Some p) (adopted p ini (Suc k) ps) else adopted p ini (Suc k) ps)"
      by (simp only: adopting_def)
    have b: "adopting p ini k ps = (if E
        then wake_procs (Ch_proc ini) (Some p) (adopted p ini k ps) else adopted p ini k ps)"
      by (simp only: adopting_def E_def)
    show ?thesis unfolding a b by (cases E; cases "parent (ps k) = Some p"; cases "i = k") (simp_all add: wake_procs_def ad)
  qed
qed

lemma procs_lock_on: "(lock_on l s)\<lparr>procs := x\<rparr> = lock_on l (s\<lparr>procs := x\<rparr>)"
  by simp

lemma reparent_eq:
  assumes "world p s"
  shows "reparent p (lock_on Lk_wait s)
    = Ret () (lock_on Lk_wait (s\<lparr>procs := adopting p (initproc s) NPROC (procs s)\<rparr>))"
proof -
  note w = worldD [OF assms]
  let ?A = "\<lambda>k. adopting p (initproc s) k (procs s)"
  let ?I = "\<lambda>k t. t = lock_on Lk_wait (s\<lparr>procs := ?A k\<rparr>)"
  have "\<exists>t. for_each [0..<NPROC] (reparent_one p) (lock_on Lk_wait s) = Ret () t \<and> ?I NPROC t"
  proof (rule for_each_upt_inv)
    fix k t assume "?I k t"
    then have t: "t = lock_on Lk_wait (s\<lparr>procs := ?A k\<rparr>)" .
    have "reparent_one p k t = Ret () (lock_on Lk_wait (s\<lparr>procs := ?A (Suc k)\<rparr>))"
      using w by (simp add: t reparent_one_def adopting_parent adopting_Suc upd_proc_def procs_unlocked_def)
    then show "\<exists>u. reparent_one p k t = Ret () u \<and> ?I (Suc k) u" by blast
  qed simp_all
  then show ?thesis by (simp add: reparent_def)
qed

text \<open>C32: the end of a process. Its children become children of init, which is woken if it sleeps in
  \<open>wait\<close>; so is the parent; the slot is a zombie with the exit status; the CPU goes to the scheduler
  with the process's own lock as the only one held, so the parent cannot free the slot before the
  switch. No other field of any process changes.\<close>

theorem exit_tail_correct:
  assumes "world p s" and "depth s = 0" and "parent (procs s p) \<noteq> Some p"
  shows "\<exists>t. exit_tail p status s = (Swtch (lock_on (Lk_proc p) t) :: ('a, 'm machine_scheme) outcome) \<and> t = s\<lparr>procs := procs t\<rparr>
    \<and> procs t p = (procs s p)\<lparr>xstate := status, pstate := ZOMBIE\<rparr>
    \<and> (\<forall>i<NPROC. i \<noteq> p \<longrightarrow> procs t i = (procs s i)\<lparr>
          parent := (if parent (procs s i) = Some p then Some (initproc s) else parent (procs s i)),
          pstate := (if pstate (procs s i) = SLEEPING \<and>
              ((\<exists>pp. parent (procs s p) = Some pp \<and> pchan (procs s i) = Some (Ch_proc pp))
                \<or> (\<exists>j<NPROC. parent (procs s j) = Some p) \<and> pchan (procs s i) = Some (Ch_proc (initproc s)))
            then RUNNABLE else pstate (procs s i))\<rparr>)"
proof -
  note w = worldD [OF assms(1)]
  let ?A = "adopting p (initproc s) NPROC (procs s)"
  let ?B = "case parent (procs s p) of None \<Rightarrow> ?A | Some pp \<Rightarrow> wake_procs (Ch_proc pp) (Some p) ?A"
  let ?t = "s\<lparr>procs := ?B(p := (procs s p)\<lparr>xstate := status, pstate := ZOMBIE\<rparr>)\<rparr>"
  have Ap: "?A p = procs s p" using assms(3) by (simp add: adopting_def adopted_def)
  have Bp: "?B p = procs s p" using Ap by (simp split: option.splits)
  have wake: "(case parent (procs s p) of None \<Rightarrow> Ret () u | Some pp \<Rightarrow> wakeup (Ch_proc pp) u)
      = Ret () (lock_on Lk_wait (s\<lparr>procs := ?B\<rparr>))" if "u = lock_on Lk_wait (s\<lparr>procs := ?A\<rparr>)" for u
    using w by (simp add: that procs_unlocked_def split: option.splits)
  have sw: "lock_on (Lk_proc p) (lock_on Lk_wait u) = lock_on Lk_wait (lock_on (Lk_proc p) u)" if "world p u" for u :: "'m machine_scheme"
    using worldD [OF that] by (intro lock_on_commute) auto
  have "exit_tail p status s = (Swtch (lock_on (Lk_proc p) ?t) :: ('a, 'm machine_scheme) outcome)"
  proof -
    have "exit_tail p status s = bnd (acquire (Lk_proc p) (lock_on Lk_wait (s\<lparr>procs := ?B\<rparr>))) (\<lambda>_ s.
      let s = upd_proc p (\<lambda>q. q\<lparr>xstate := status, pstate := ZOMBIE\<rparr>) s
      in bnd (release Lk_wait s) (\<lambda>_ s. bnd (sched s) (\<lambda>(_ :: unit) s. Panic ''zombie exit'')))"
      using w Ap by (simp add: exit_tail_def reparent_eq [OF assms(1)] wake)
    also have "\<dots> = bnd (release Lk_wait (lock_on (Lk_proc p) (lock_on Lk_wait ?t)))
        (\<lambda>_ s. bnd (sched s) (\<lambda>(_ :: unit) s. Panic ''zombie exit''))"
      using w Bp by (simp add: upd_proc_def)
    also have "\<dots> = bnd (sched (lock_on (Lk_proc p) ?t)) (\<lambda>(_ :: unit) s. Panic ''zombie exit'')"
      using w assms(1) by (subst sw) simp_all
    also have "\<dots> = Swtch (lock_on (Lk_proc p) ?t)"
      using w assms(2) by (simp add: sched_eq [where p = p])
    finally show ?thesis .
  qed
  moreover have "procs ?t i = (procs s i)\<lparr>
          parent := (if parent (procs s i) = Some p then Some (initproc s) else parent (procs s i)),
          pstate := (if pstate (procs s i) = SLEEPING \<and>
              ((\<exists>pp. parent (procs s p) = Some pp \<and> pchan (procs s i) = Some (Ch_proc pp))
                \<or> (\<exists>j<NPROC. parent (procs s j) = Some p) \<and> pchan (procs s i) = Some (Ch_proc (initproc s)))
            then RUNNABLE else pstate (procs s i))\<rparr>" if "i < NPROC" "i \<noteq> p" for i
    using that by (auto simp: adopting_def adopted_def wake_procs_def wake_proc_def split: option.splits)
  ultimately show ?thesis by (intro exI [of _ ?t]) simp
qed

end
