(* ===== verification/Grow.thy ===== *)
theory Grow
  imports Lifecycle
begin

unbundle bit_operations_syntax

text \<open>
  Address spaces that grow: a page taken from the allocator and mapped behind the last page (\<open>uvmalloc\<close>,
  \<open>uvmcopy\<close>), and the way back when there is no memory left. In every case the pages of the address space and the free
  pages together stay the same set.
\<close>

subsection \<open>Entries of page tables\<close>

lemma PA2PTE_inner: "(PA2PTE x OR PTE_V) AND (PTE_R OR PTE_W OR PTE_X) = 0"
proof (rule bit_word_eqI)
  fix n
  show "bit ((PA2PTE x OR PTE_V) AND (PTE_R OR PTE_W OR PTE_X)) n = bit (0 :: u64) n"
  proof (cases "n < 10")
    case True
    then have "\<not> bit (PA2PTE x) n" by (simp add: PA2PTE_def bit_simps)
    moreover have "PTE_V AND (PTE_R OR PTE_W OR PTE_X) = 0" by (simp add: PTE_V_def PTE_R_def PTE_W_def PTE_X_def)
    then have "bit (PTE_V AND (PTE_R OR PTE_W OR PTE_X)) n = bit (0 :: u64) n" by simp
    ultimately show ?thesis by (auto simp: bit_simps)
  next
    case False
    have "PTE_R OR PTE_W OR PTE_X = take_bit 10 (PTE_R OR PTE_W OR PTE_X)" by (simp add: PTE_R_def PTE_W_def PTE_X_def)
    then have "bit (PTE_R OR PTE_W OR PTE_X) n = bit (take_bit 10 (PTE_R OR PTE_W OR PTE_X)) n" by simp
    then show ?thesis using False by (simp add: bit_simps)
  qed
qed

lemma ptrs_inner: "inner_from m m' pt \<Longrightarrow> ptrs 2 m pt \<Longrightarrow> ptrs 2 m' pt"
  unfolding ptrs_def
proof (intro allI impI, elim conjE)
  fix "is" r i
  assume i: "inner_from m m' pt" "\<forall>is q i. length is < 2 \<and> pathd 2 is \<and> node m pt is = Some q \<and> i < 512 \<and> entry m q (idx i) AND PTE_V \<noteq> 0
      \<longrightarrow> entry m q (idx i) AND (PTE_R OR PTE_W OR PTE_X) = 0"
    and a: "length is < 2" "pathd 2 is" "node m' pt is = Some r" "i < 512" "entry m' r (idx i) AND PTE_V \<noteq> 0"
  have "is \<in> paths" "unat (idx i) < 512" using a(2,4) by (simp_all add: pathd_simps)
  then have "node m pt is = Some r \<and> entry m' r (idx i) = entry m r (idx i) \<or> (\<exists>x. entry m' r (idx i) = PA2PTE x OR PTE_V)"
    using i(1) a(1,3,5) unfolding inner_from_def by blast
  then show "entry m' r (idx i) AND (PTE_R OR PTE_W OR PTE_X) = 0"
  proof
    assume n: "node m pt is = Some r \<and> entry m' r (idx i) = entry m r (idx i)"
    then show ?thesis using i(2) a(1,2,4,5) by metis
  qed (use PA2PTE_inner in auto)
qed

text \<open>A leaf for page \<open>q\<close> with the flags \<open>perm\<close>.\<close>

lemma leaf_word:
  assumes "q mod PGSIZE = 0" and "q < PHYSTOP" and "perm AND 0x3FF = perm"
  shows "PTE2PA (PA2PTE q OR perm OR PTE_V) = q" and "PTE_FLAGS (PA2PTE q OR perm OR PTE_V) = perm OR PTE_V"
    and "(PA2PTE q OR perm OR PTE_V) AND PTE_V \<noteq> 0"
proof -
  have m: "0x3FF = (mask 10 :: u64)" by (simp add: mask_eq_exp_minus_1)
  have hi: "\<not> bit perm n" if "10 \<le> n" for n
  proof -
    have "bit perm n = bit (perm AND mask 10) n" using assms(3) by (simp add: m)
    then show ?thesis using that by (simp add: bit_simps)
  qed
  have "drop_bit 10 (PA2PTE q OR perm OR PTE_V) = drop_bit 10 (PA2PTE q OR PTE_V)"
    by (rule bit_word_eqI) (use hi in \<open>auto simp: bit_simps\<close>)
  then show "PTE2PA (PA2PTE q OR perm OR PTE_V) = q" using PTE_roundtrip(1) [OF assms(1,2)] by (simp add: PTE2PA_def)
  show "PTE_FLAGS (PA2PTE q OR perm OR PTE_V) = perm OR PTE_V"
  proof -
    have lt: "n < 10" if "bit perm n" for n using hi [of n] that by (simp add: not_le [symmetric]) blast
    show ?thesis unfolding PTE_FLAGS_def m by (rule bit_word_eqI) (auto simp: bit_simps PA2PTE_def PTE_V_def dest: lt)
  qed
  have "bit ((PA2PTE q OR perm OR PTE_V) AND PTE_V) 0" by (simp add: PTE_V_def bit_simps)
  then show "(PA2PTE q OR perm OR PTE_V) AND PTE_V \<noteq> 0" by auto
qed

subsection \<open>Address spaces by their number of pages\<close>

lemma npages_pg: "4096 * k \<le> unat MAXVA \<Longrightarrow> npages (pg 0 k) = k \<and> unat (pg 0 k) = 4096 * k"
  using unat_pg [of 0 k] by (simp add: npages_def maxva)

lemma aspace_pages: "unat n \<le> unat MAXVA \<Longrightarrow> aspace s pt xs n E = aspace s pt xs (pg 0 (npages n)) E \<and> space_pages m pt n = space_pages m pt (pg 0 (npages n))"
  using npages_roundup(2) [of n] npages_pg [of "npages n"] by (simp add: aspace_def space_pages_def)

lemma aspace_sep: "aspace s pt xs n E \<Longrightarrow> space_pages (pmem s) pt n \<inter> set xs = {}"
  by (auto simp: aspace_def space_pages_def vm_inv_def)

lemma aspace_valid: "aspace s pt xs n E \<Longrightarrow> p \<in> space_pages (pmem s) pt n \<Longrightarrow> valid_page (kend s) p"
  by (auto simp: aspace_def space_pages_def vm_inv_def dest: pt_treeD(3))

definition owned :: "'m memory_scheme \<Rightarrow> u64 \<Rightarrow> u64 list \<Rightarrow> nat \<Rightarrow> bool" where
  "owned s pt xs j \<longleftrightarrow> leaf (pmem s) pt (pg 0 j) AND PTE_V \<noteq> 0 \<and> PTE_FLAGS (leaf (pmem s) pt (pg 0 j)) \<noteq> PTE_V
     \<and> valid_page (kend s) (phys (pmem s) pt 0 j) \<and> phys (pmem s) pt 0 j \<notin> tnodes (pmem s) pt \<union> set xs"

lemma aspace_count: "4096 * k \<le> unat MAXVA \<Longrightarrow> aspace s pt xs (pg 0 k) E \<longleftrightarrow> vm_inv s pt xs \<and> ptrs 2 (pmem s) pt
    \<and> (\<forall>j<k. owned s pt xs j) \<and> inj_on (phys (pmem s) pt 0) {..<k}
    \<and> (\<forall>va. leaf (pmem s) pt va AND PTE_V \<noteq> 0 \<longrightarrow> (\<exists>j<k. key va = key (pg 0 j)) \<or> (\<exists>e\<in>E. key va = key e))"
  using npages_pg [of k] unfolding aspace_def owned_def by simp

lemma key_before: "4096 * Suc k \<le> unat MAXVA \<Longrightarrow> i < k \<Longrightarrow> key (pg 0 i) \<noteq> key (pg 0 k)"
  using key_pg [of 0 "Suc k" i k] by simp

text \<open>Page number \<open>k\<close> is not mapped when there are \<open>k\<close> pages and nothing else is there.\<close>

lemma aspace_unmapped:
  assumes "aspace s pt xs (pg 0 k) E" and "4096 * Suc k \<le> unat MAXVA" and "\<And>e. e \<in> E \<Longrightarrow> key e \<noteq> key (pg 0 k)"
  shows "leaf (pmem s) pt (pg 0 k) AND PTE_V = 0"
proof (rule ccontr)
  assume "leaf (pmem s) pt (pg 0 k) AND PTE_V \<noteq> 0"
  then have "(\<exists>j<npages (pg 0 k). key (pg 0 k) = key (pg 0 j)) \<or> (\<exists>e\<in>E. key (pg 0 k) = key e)"
    using assms(1) unfolding aspace_def by blast
  moreover have "npages (pg 0 k) = k" using npages_pg [of k] assms(2) by simp
  moreover have "key (pg 0 k) \<noteq> key (pg 0 j)" if "j < k" for j
    using key_pg [of 0 "Suc k" k j] assms(2) that by simp
  ultimately show False using assms(3) by metis
qed

text \<open>A page leaves the free list: address spaces do not notice, whatever is then written to the page.\<close>

lemma take_page:
  assumes a: "aspace s pt xs n E" and xs: "xs = q # ys" and u: "mem_frame s u" "kmem_inv u ys" "\<And>a. 4096 \<le> unat (a - q) \<Longrightarrow> pmem u a = pmem s a"
    and m: "\<And>a. 4096 \<le> unat (a - q) \<Longrightarrow> m a = pmem s a"
  shows "aspace (u\<lparr>pmem := m\<rparr>) pt ys n E" and "space_pages m pt n = space_pages (pmem s) pt n" and "leaf m pt va = leaf (pmem s) pt va"
    and "tnodes m pt = tnodes (pmem s) pt" and "q \<notin> space_pages (pmem s) pt n" and "kmem_inv (u\<lparr>pmem := m\<rparr>) ys"
    and "p \<in> space_pages (pmem s) pt n \<Longrightarrow> unat d < 4096 \<Longrightarrow> m (p + d) = pmem s (p + d)"
proof -
  have km: "kmem_inv s xs" using a by (simp add: aspace_def vm_inv_def)
  have q: "valid_page (kend s) q" "q \<notin> set ys" using km xs by (auto simp: kmem_inv_def)
  note fr = mem_frame_fields [OF u(1)]
  show qn: "q \<notin> space_pages (pmem s) pt n" using aspace_sep [OF a] xs by auto
  have qa: "q mod PGSIZE = 0" using q(1) by (simp add: valid_page_def)
  show "kmem_inv (u\<lparr>pmem := m\<rparr>) ys"
    by (rule kmem_inv_store [OF u(2) qa q(2)]) (use u(3) m in auto)
  moreover have same: "m b = pmem s b" if "p \<in> space_pages (pmem s) pt n" "unat (b - p) < 4096" for p b
  proof -
    have "p mod PGSIZE = 0" using aspace_valid [OF a that(1)] by (simp add: valid_page_def)
    moreover have "p \<noteq> q" using that(1) qn by auto
    ultimately show ?thesis using far_page [OF _ qa _ that(2)] by (intro m) simp
  qed
  moreover have "tnodes (pmem s) pt \<subseteq> space_pages (pmem s) pt n" by (simp add: space_pages_def)
  ultimately have *: "kmem_inv (u\<lparr>pmem := m\<rparr>) ys" "\<forall>p\<in>tnodes (pmem s) pt. \<forall>b. unat (b - p) < 4096 \<longrightarrow> pmem (u\<lparr>pmem := m\<rparr>) b = pmem s b"
    by auto
  have c: "calm (u\<lparr>pmem := m\<rparr>)" "lock_free Lk_kmem (u\<lparr>pmem := m\<rparr>)" "kend (u\<lparr>pmem := m\<rparr>) = kend s"
    using a fr by (simp_all add: aspace_def vm_inv_def)
  have sep: "space_pages (pmem s) pt n \<inter> set ys = {}" using aspace_sep [OF a] xs by auto
  note far = aspace_far [OF a *(1) c *(2) sep]
  show "aspace (u\<lparr>pmem := m\<rparr>) pt ys n E" by (rule far(1))
  show "space_pages m pt n = space_pages (pmem s) pt n" "leaf m pt va = leaf (pmem s) pt va" "tnodes m pt = tnodes (pmem s) pt"
    using far(2-4) by simp_all
  show "m (p + d) = pmem s (p + d)" if "p \<in> space_pages (pmem s) pt n" "unat d < 4096"
    using same [OF that(1), of "p + d"] that(2) by simp
qed

subsection \<open>Mapping the next page\<close>

lemma add_page:
  assumes a: "aspace s pt xs (pg 0 k) E" and k: "4096 * Suc k \<le> unat MAXVA" and E: "\<And>e. e \<in> E \<Longrightarrow> key e \<noteq> key (pg 0 k)"
    and q: "valid_page (kend s) q" "q \<notin> space_pages (pmem s) pt (pg 0 k) \<union> set xs"
    and perm: "perm AND 0x3FF = perm" "perm OR PTE_V \<noteq> PTE_V"
  shows "\<exists>r t ys. mappages pt (pg 0 k) PGSIZE q perm s = Ret r t \<and> mem_frame s t \<and> (r = 0 \<or> r = -1 \<and> ys = [])
    \<and> aspace t pt ys (pg 0 (if r = 0 then Suc k else k)) E
    \<and> (\<forall>vb. leaf (pmem t) pt vb = (if r = 0 \<and> key vb = key (pg 0 k) then PA2PTE q OR perm OR PTE_V else leaf (pmem s) pt vb))
    \<and> (\<forall>a. (\<forall>p\<in>tnodes (pmem s) pt \<union> set xs. 4096 \<le> unat (a - p)) \<longrightarrow> pmem t a = pmem s a)
    \<and> tnodes (pmem t) pt \<union> set ys = tnodes (pmem s) pt \<union> set xs"
proof -
  have va: "pg 0 k mod PGSIZE = 0" "pg 0 k < MAXVA" "npages (pg 0 k) = k" "npages (pg 0 (Suc k)) = Suc k" "unat (pg 0 (Suc k)) \<le> unat MAXVA"
    using pg_aligned [of 0 k] npages_pg [of k] npages_pg [of "Suc k"] k by (simp_all add: maxva word_less_nat_alt del: of_nat_Suc)
  note free = aspace_unmapped [OF a k E]
  have k': "4096 * k \<le> unat MAXVA" using k by simp
  note ac = a [unfolded aspace_count [OF k']]
  have inv: "vm_inv s pt xs" "ptrs 2 (pmem s) pt" using ac by blast+
  obtain r t ys where t: "mappages pt (pg 0 k) PGSIZE q perm s = Ret r t" "mem_frame s t" "vm_inv t pt ys" "set ys \<subseteq> set xs" "r = 0 \<or> r = -1 \<and> ys = []"
    "\<forall>vb. leaf (pmem t) pt vb = (if r = 0 \<and> key vb = key (pg 0 k) then PA2PTE q OR perm OR PTE_V else leaf (pmem s) pt vb)"
    "\<forall>a. (\<forall>p\<in>tnodes (pmem s) pt \<union> set xs. 4096 \<le> unat (a - p)) \<longrightarrow> pmem t a = pmem s a"
    "tnodes (pmem t) pt \<union> set ys = tnodes (pmem s) pt \<union> set xs" "inner_from (pmem s) (pmem t) pt"
    using mappages_page [OF inv(1) va(1,2) free, of q perm] unfolding key_def by blast
  note fr = mem_frame_fields [OF t(2)]
  have ptrs: "ptrs 2 (pmem t) pt" using ptrs_inner [OF t(9) inv(2)] .
  have qa: "q mod PGSIZE = 0" "q < PHYSTOP" using q(1) by (simp_all add: valid_page_def)
  note lw = leaf_word [OF qa perm(1)]
  have old: "leaf (pmem t) pt (pg 0 j) = leaf (pmem s) pt (pg 0 j)" if "j < k" for j
    using t(6) key_pg [of 0 "Suc k" j k] k that by simp
  then have oldp: "phys (pmem t) pt 0 j = phys (pmem s) pt 0 j" if "j < k" for j using that by (simp add: phys_def)
  have inj: "inj_on (phys (pmem s) pt 0) {..<k}" using ac by blast
  have inj': "inj_on (phys (pmem t) pt 0) {..<k}" using inj oldp by (simp add: inj_on_def)
  have own: "owned t pt ys j" if "j < k" for j
    using ac old [OF that] oldp [OF that] that t(8) fr(9) unfolding owned_def by simp
  have rest: "(\<exists>j<k. key vb = key (pg 0 j)) \<or> (\<exists>e\<in>E. key vb = key e)" if "leaf (pmem s) pt vb AND PTE_V \<noteq> 0" for vb
    using ac that by blast
  have "aspace t pt ys (pg 0 (if r = 0 then Suc k else k)) E"
  proof (cases "r = 0")
    case False
    then have lf: "leaf (pmem t) pt vb = leaf (pmem s) pt vb" for vb using t(6) by simp
    have "aspace t pt ys (pg 0 k) E"
      unfolding aspace_count [OF k'] using t(3) ptrs own inj' rest lf by simp
    then show ?thesis using False by simp
  next
    case True
    have lk: "leaf (pmem t) pt (pg 0 k) = PA2PTE q OR perm OR PTE_V" using t(6) True by simp
    then have pk: "phys (pmem t) pt 0 k = q" using lw(1) by (simp add: phys_def)
    have qs: "q \<notin> phys (pmem s) pt 0 ` {..<k}" "q \<notin> tnodes (pmem s) pt \<union> set xs" using q(2) va(3) by (auto simp: space_pages_def)
    have "owned t pt ys k"
      unfolding owned_def lk pk t(8) using lw(2,3) perm(2) q(1) qs(2) fr(9) by simp
    then have "\<forall>j<Suc k. owned t pt ys j" using own less_Suc_eq by metis
    moreover have "inj_on (phys (pmem t) pt 0) {..<Suc k}"
      using inj' qs(1) pk oldp by (auto simp: lessThan_Suc)
    moreover have "(\<exists>j<Suc k. key vb = key (pg 0 j)) \<or> (\<exists>e\<in>E. key vb = key e)" if "leaf (pmem t) pt vb AND PTE_V \<noteq> 0" for vb
    proof (cases "key vb = key (pg 0 k)")
      case False
      then have "leaf (pmem t) pt vb = leaf (pmem s) pt vb" using t(6) by simp
      then show ?thesis using rest [of vb] that less_Suc_eq by metis
    qed blast
    ultimately have "aspace t pt ys (pg 0 (Suc k)) E"
      unfolding aspace_count [OF k] using t(3) ptrs by blast
    then show ?thesis using True by (simp del: of_nat_Suc)
  qed
  then show ?thesis using t(1,2,5,6,7,8) by (intro exI [of _ r] exI [of _ t] exI [of _ ys]) (simp del: of_nat_Suc)
qed

subsection \<open>Unmapping the last pages\<close>

lemma pg_add: "pg (pg 0 j) i = pg 0 (j + i)"
  by (simp add: algebra_simps)

lemma drop_pages:
  assumes a: "aspace s pt xs (pg 0 k) E" and jk: "j \<le> k" and k: "4096 * k \<le> unat MAXVA"
  shows "\<exists>t ys. uvmunmap pt (pg 0 j) (of_nat (k - j)) True s = Ret () t \<and> mem_frame s t \<and> aspace t pt ys (pg 0 j) E
    \<and> set ys = set xs \<union> phys (pmem s) pt 0 ` {j..<k} \<and> tnodes (pmem t) pt = tnodes (pmem s) pt
    \<and> (\<forall>i<j. leaf (pmem t) pt (pg 0 i) = leaf (pmem s) pt (pg 0 i))
    \<and> (\<forall>vb. (\<forall>i<k. key vb \<noteq> key (pg 0 i)) \<longrightarrow> leaf (pmem t) pt vb = leaf (pmem s) pt vb)
    \<and> (\<forall>b. (\<forall>q\<in>tnodes (pmem s) pt. 4096 \<le> unat (b - q)) \<and> (\<forall>i. j \<le> i \<and> i < k \<longrightarrow> 4096 \<le> unat (b - phys (pmem s) pt 0 i))
        \<longrightarrow> pmem t b = pmem s b)"
proof -
  note ac = a [unfolded aspace_count [OF k]]
  have j: "4096 * j \<le> unat MAXVA" using jk k by simp
  have pj: "unat (pg 0 j) = 4096 * j" "pg 0 j mod PGSIZE = 0" using npages_pg [OF j] pg_aligned [of 0 j] j by (simp_all add: maxva)
  have ph: "phys (pmem s) pt (pg 0 j) i = phys (pmem s) pt 0 (j + i)" for i unfolding phys_def pg_add ..
  have own: "owned s pt xs (j + i)" if "i < k - j" for i using ac that by simp
  have inj: "i = i'" if "i < k - j" "i' < k - j" "phys (pmem s) pt (pg 0 j) i = phys (pmem s) pt (pg 0 j) i'" for i i'
  proof -
    have "j + i = j + i'" using ac that jk unfolding ph by (auto dest: inj_onD)
    then show ?thesis by simp
  qed
  obtain t where t: "uvmunmap_loop pt (pg 0 j) (pg (pg 0 j) (k - j)) True s = Ret () t" "mem_frame s t"
    "vm_inv t pt (rev (map (phys (pmem s) pt (pg 0 j)) [0..<k - j]) @ xs)" "tnodes (pmem t) pt = tnodes (pmem s) pt"
    "\<And>vb. leaf (pmem t) pt vb = (if \<exists>i<k - j. key vb = key (pg (pg 0 j) i) then 0 else leaf (pmem s) pt vb)" "ptrs 2 (pmem t) pt"
    "\<And>b. (\<forall>q\<in>tnodes (pmem s) pt. 4096 \<le> unat (b - q)) \<Longrightarrow> (\<forall>i<k - j. 4096 \<le> unat (b - phys (pmem s) pt (pg 0 j) i)) \<Longrightarrow> pmem t b = pmem s b"
  proof -
    have v: "vm_inv s pt xs" "ptrs 2 (pmem s) pt" using ac by blast+
    have le: "unat (pg 0 j) + 4096 * (k - j) \<le> unat MAXVA" using pj(1) jk k by simp
    have l: "leaf (pmem s) pt (pg (pg 0 j) i) AND PTE_V \<noteq> 0 \<and> PTE_FLAGS (leaf (pmem s) pt (pg (pg 0 j) i)) \<noteq> PTE_V" if "i < k - j" for i
      using own [OF that] unfolding owned_def pg_add by blast
    have p: "valid_page (kend s) (phys (pmem s) pt (pg 0 j) i) \<and> phys (pmem s) pt (pg 0 j) i \<notin> tnodes (pmem s) pt \<union> set xs" if "i < k - j" for i
      using own [OF that] unfolding owned_def ph by blast
    show ?thesis
      using uvmunmap_spec [where df = True, OF v(1) pj(2) le l p inj] v(2) that unfolding if_True simp_thms by blast
  qed
  let ?ys = "rev (map (phys (pmem s) pt (pg 0 j)) [0..<k - j]) @ xs"
  note fr = mem_frame_fields [OF t(2)]
  have sy: "set ?ys = set xs \<union> phys (pmem s) pt 0 ` {j..<k}"
  proof -
    have "phys (pmem s) pt (pg 0 j) ` {0..<k - j} = phys (pmem s) pt 0 ` (\<lambda>i. j + i) ` {0..<k - j}" unfolding ph image_image ..
    also have "(\<lambda>i. j + i) ` {0..<k - j} = {j..<k}" using jk image_add_atLeastLessThan [of j 0 "k - j"] by simp
    finally show ?thesis by auto
  qed
  have lf: "leaf (pmem t) pt vb = (if \<exists>i. j \<le> i \<and> i < k \<and> key vb = key (pg 0 i) then 0 else leaf (pmem s) pt vb)" for vb
  proof -
    have "(\<exists>i<k - j. key vb = key (pg (pg 0 j) i)) \<longleftrightarrow> (\<exists>i. j \<le> i \<and> i < k \<and> key vb = key (pg 0 i))"
      unfolding pg_add by (metis add_diff_inverse_nat le_add1 less_diff_conv add.commute not_less)
    then show ?thesis using t(5) by simp
  qed
  have old: "leaf (pmem t) pt (pg 0 i) = leaf (pmem s) pt (pg 0 i)" if "i < j" for i
  proof -
    have "key (pg 0 i) \<noteq> key (pg 0 i')" if "j \<le> i'" "i' < k" for i'
      using key_pg [of 0 k i i'] k that \<open>i < j\<close> by simp
    then show ?thesis using lf [of "pg 0 i"] by metis
  qed
  have oldp: "phys (pmem t) pt 0 i = phys (pmem s) pt 0 i" if "i < j" for i using old [OF that] by (simp add: phys_def)
  have "owned t pt ?ys i" if "i < j" for i
  proof -
    have "owned s pt xs i" using ac that jk by simp
    moreover have "phys (pmem s) pt 0 i \<notin> phys (pmem s) pt 0 ` {j..<k}"
      using ac that jk by (auto dest: inj_onD)
    ultimately show ?thesis using old [OF that] oldp [OF that] t(4) fr(9) unfolding owned_def sy by auto
  qed
  moreover have "inj_on (phys (pmem t) pt 0) {..<j}"
  proof -
    have "inj_on (phys (pmem s) pt 0) {..<j}" using ac jk by (auto intro: inj_on_subset)
    then show ?thesis using oldp by (simp add: inj_on_def)
  qed
  moreover have "(\<exists>i<j. key vb = key (pg 0 i)) \<or> (\<exists>e\<in>E. key vb = key e)" if "leaf (pmem t) pt vb AND PTE_V \<noteq> 0" for vb
  proof -
    have "leaf (pmem s) pt vb AND PTE_V \<noteq> 0" "\<not> (\<exists>i. j \<le> i \<and> i < k \<and> key vb = key (pg 0 i))"
      using that lf [of vb] by (auto split: if_splits)
    then show ?thesis using ac not_less by metis
  qed
  ultimately have "aspace t pt ?ys (pg 0 j) E" unfolding aspace_count [OF j] using t(3,6) by blast
  moreover have "uvmunmap pt (pg 0 j) (of_nat (k - j)) True s = Ret () t"
    using t(1) pj(2) by (simp add: uvmunmap_def)
  moreover have "pmem t b = pmem s b"
    if "\<forall>q\<in>tnodes (pmem s) pt. 4096 \<le> unat (b - q)" "\<forall>i. j \<le> i \<and> i < k \<longrightarrow> 4096 \<le> unat (b - phys (pmem s) pt 0 i)" for b
  proof (rule t(7) [OF that(1)], intro allI impI)
    show "4096 \<le> unat (b - phys (pmem s) pt (pg 0 j) i)" if "i < k - j" for i
      unfolding ph using \<open>\<forall>i. j \<le> i \<and> i < k \<longrightarrow> _ i\<close> that by simp
  qed
  moreover have "leaf (pmem t) pt vb = leaf (pmem s) pt vb" if "\<forall>i<k. key vb \<noteq> key (pg 0 i)" for vb using lf [of vb] that by metis
  ultimately show ?thesis using t(2,4) sy old by (intro exI [of _ t] exI [of _ ?ys]) blast
qed

subsection \<open>Pages that are left alone\<close>

definition intact :: "u64 set \<Rightarrow> mem \<Rightarrow> mem \<Rightarrow> bool" where
  "intact P m m' \<longleftrightarrow> (\<forall>p\<in>P. \<forall>d. unat d < 4096 \<longrightarrow> m' (p + d) = m (p + d))"

lemma intact_refl [simp]: "intact P m m"
  by (simp add: intact_def)

lemma intact_trans: "intact P m m' \<Longrightarrow> intact P m' m'' \<Longrightarrow> intact P m m''"
  by (simp add: intact_def)

lemma intactD: "intact P m m' \<Longrightarrow> p \<in> P \<Longrightarrow> unat d < 4096 \<Longrightarrow> m' (p + d) = m (p + d)"
  by (simp add: intact_def)

lemma intact_mono: "intact P m m' \<Longrightarrow> Q \<subseteq> P \<Longrightarrow> intact Q m m'"
  by (auto simp: intact_def)

text \<open>A change within the pages \<open>R\<close> leaves every other page alone.\<close>

lemma intact_apart:
  assumes "\<And>a. (\<And>q. q \<in> R \<Longrightarrow> 4096 \<le> unat (a - q)) \<Longrightarrow> m' a = m a"
    and "\<And>p. p \<in> P \<Longrightarrow> p mod PGSIZE = 0" and "\<And>q. q \<in> R \<Longrightarrow> q mod PGSIZE = 0" and "P \<inter> R = {}"
  shows "intact P m m'"
  unfolding intact_def
proof (intro ballI allI impI)
  fix p d :: u64
  assume p: "p \<in> P" and d: "unat d < 4096"
  show "m' (p + d) = m (p + d)"
  proof (rule assms(1))
    fix q assume "q \<in> R"
    then show "4096 \<le> unat (p + d - q)" using assms(2) [OF p] assms(3,4) p d by (intro page_offset) auto
  qed
qed

lemma intact_aspace:
  assumes a: "aspace s pt xs n E" and i: "intact (space_pages (pmem s) pt n) (pmem s) (pmem t)"
    and f: "mem_frame s t" and k: "kmem_inv t ys" and sep: "space_pages (pmem s) pt n \<inter> set ys = {}"
  shows "aspace t pt ys n E" and "space_pages (pmem t) pt n = space_pages (pmem s) pt n"
    and "leaf (pmem t) pt va = leaf (pmem s) pt va" and "tnodes (pmem t) pt = tnodes (pmem s) pt"
proof -
  note fr = mem_frame_fields [OF f]
  have c: "calm t" "lock_free Lk_kmem t" "kend t = kend s" using a fr by (simp_all add: aspace_def vm_inv_def)
  have "\<forall>q\<in>tnodes (pmem s) pt. \<forall>b. unat (b - q) < 4096 \<longrightarrow> pmem t b = pmem s b"
  proof (intro ballI allI impI)
    fix q b assume "q \<in> tnodes (pmem s) pt" "unat (b - q) < 4096"
    then show "pmem t b = pmem s b" using intactD [OF i, of q "b - q"] by (simp add: space_pages_def)
  qed
  note far = aspace_far [OF a k c this sep]
  show "aspace t pt ys n E" "space_pages (pmem t) pt n = space_pages (pmem s) pt n"
    "leaf (pmem t) pt va = leaf (pmem s) pt va" "tnodes (pmem t) pt = tnodes (pmem s) pt" by (rule far)+
qed

lemma aspace_aligned: "aspace s pt xs n E \<Longrightarrow> p \<in> space_pages (pmem s) pt n \<union> set xs \<Longrightarrow> p mod PGSIZE = 0"
  using aspace_valid [of s pt xs n E p] by (auto simp: aspace_def vm_inv_def kmem_inv_def valid_page_def)

lemma aspace_kmem: "aspace s pt xs n E \<Longrightarrow> calm s \<and> lock_free Lk_kmem s \<and> kmem_inv s xs"
  by (simp add: aspace_def vm_inv_def)

lemma give_page:
  assumes a: "aspace s pt xs n E" and q: "valid_page (kend s) q" "q \<notin> space_pages (pmem s) pt n \<union> set xs"
  shows "\<exists>t. kfree q s = Ret () t \<and> mem_frame s t \<and> aspace t pt (q # xs) n E \<and> space_pages (pmem t) pt n = space_pages (pmem s) pt n
    \<and> (\<forall>vb. leaf (pmem t) pt vb = leaf (pmem s) pt vb) \<and> (\<forall>b. 4096 \<le> unat (b - q) \<longrightarrow> pmem t b = pmem s b)
    \<and> tnodes (pmem t) pt = tnodes (pmem s) pt"
proof -
  have c: "calm s" "lock_free Lk_kmem s" "kmem_inv s xs" using aspace_kmem [OF a] by simp_all
  obtain t where t: "kfree q s = Ret () t" "kmem_inv t (q # xs)" "\<And>b. 4096 \<le> unat (b - q) \<Longrightarrow> pmem t b = pmem s b" "mem_frame s t"
    using kfree_push [OF c q(1)] q(2) by blast
  have "intact (space_pages (pmem s) pt n) (pmem s) (pmem t)"
    by (rule intact_apart [where R = "{q}"]) (use t(3) aspace_aligned [OF a] q in \<open>auto simp: valid_page_def\<close>)
  moreover have "space_pages (pmem s) pt n \<inter> set (q # xs) = {}" using aspace_sep [OF a] q(2) by auto
  ultimately show ?thesis using intact_aspace [OF a _ t(4,2)] t(1,3,4) by blast
qed

subsection \<open>One turn of the loops\<close>

lemma space_pg: "4096 * k \<le> unat MAXVA \<Longrightarrow> space_pages m pt (pg 0 k) = tnodes m pt \<union> phys m pt 0 ` {..<k}"
  using npages_pg [of k] unfolding space_pages_def by simp

text \<open>Both loops take a page, fill it, and map it; \<open>F\<close> is what they do when memory runs out, \<open>C\<close> how they go on.\<close>

definition turn :: "u64 \<Rightarrow> u64 \<Rightarrow> u64 \<Rightarrow> (u64 \<Rightarrow> mem \<Rightarrow> mem) \<Rightarrow> ('m memory_scheme \<Rightarrow> ('b, 'm memory_scheme) outcome)
    \<Rightarrow> ('m memory_scheme \<Rightarrow> ('b, 'm memory_scheme) outcome) \<Rightarrow> 'm memory_scheme \<Rightarrow> ('b, 'm memory_scheme) outcome" where
  "turn pt a perm g F C s =
    bnd (kalloc s) (\<lambda>mem s.
    if mem = 0 then F s
    else
      let s = s\<lparr>pmem := g mem (pmem s)\<rparr>
      in bnd (mappages pt a PGSIZE mem perm s) (\<lambda>r s.
         if r \<noteq> 0 then bnd (kfree mem s) (\<lambda>_ s. F s) else C s))"

lemma turn_spec:
  assumes a: "aspace s pt xs (pg 0 k) E" and k: "4096 * Suc k \<le> unat MAXVA" and E: "\<And>e. e \<in> E \<Longrightarrow> key e \<noteq> key (pg 0 k)"
    and perm: "perm AND 0x3FF = perm" "perm OR PTE_V \<noteq> PTE_V"
    and g: "\<And>q m x. valid_page (kend s) q \<Longrightarrow> 4096 \<le> unat (x - q) \<Longrightarrow> g q m x = m x"
  shows "\<exists>t ys ok. turn pt (pg 0 k) perm g F C s = (if ok then C t else F t) \<and> mem_frame s t
    \<and> aspace t pt ys (pg 0 (if ok then Suc k else k)) E
    \<and> (\<forall>vb. key vb \<noteq> key (pg 0 k) \<longrightarrow> leaf (pmem t) pt vb = leaf (pmem s) pt vb)
    \<and> (\<forall>b. (\<forall>p\<in>tnodes (pmem s) pt \<union> set xs. 4096 \<le> unat (b - p)) \<longrightarrow> pmem t b = pmem s b)
    \<and> tnodes (pmem t) pt \<union> set ys \<union> (if ok then {phys (pmem t) pt 0 k} else {}) = tnodes (pmem s) pt \<union> set xs
    \<and> (ok \<longrightarrow> PTE_FLAGS (leaf (pmem t) pt (pg 0 k)) = perm OR PTE_V
         \<and> (\<exists>m. (\<forall>b. 4096 \<le> unat (b - phys (pmem t) pt 0 k) \<longrightarrow> m b = pmem s b)
              \<and> (\<forall>d. unat d < 4096 \<longrightarrow> pmem t (phys (pmem t) pt 0 k + d) = g (phys (pmem t) pt 0 k) m (phys (pmem t) pt 0 k + d))))"
proof -
  have k': "4096 * k \<le> unat MAXVA" using k by simp
  note c = aspace_kmem [OF a]
  show ?thesis
  proof (cases xs)
    case Nil
    then have "kalloc s = Ret 0 s" using kalloc_pop [of s xs] c by simp
    then have "turn pt (pg 0 k) perm g F C s = F s" by (simp add: turn_def)
    then show ?thesis using a by (intro exI [of _ s] exI [of _ xs] exI [of _ False]) (simp add: mem_frame_def)
  next
    case (Cons q ys0)
    obtain u where u: "kalloc s = Ret q u" "q \<noteq> 0" "valid_page (kend u) q" "kmem_inv u ys0"
      "\<And>a. pmem u a = (if unat (a - q) < 4096 then 5 else pmem s a)" "mem_frame s u"
      using kalloc_pop [of s xs] c Cons by auto
    have us: "pmem u x = pmem s x" if "4096 \<le> unat (x - q)" for x using u(5) that by simp
    have vq: "valid_page (kend s) q" using c Cons by (simp add: kmem_inv_def)
    define v where "v = u\<lparr>pmem := g q (pmem u)\<rparr>"
    have mv: "pmem v x = pmem s x" if "4096 \<le> unat (x - q)" for x using g [OF vq that] us [OF that] by (simp add: v_def)
    have fv: "mem_frame s v" using mem_frame_trans [OF u(6)] by (simp add: v_def)
    note frv = mem_frame_fields [OF fv]
    have tp: "aspace v pt ys0 (pg 0 k) E" "leaf (pmem v) pt vb = leaf (pmem s) pt vb" "tnodes (pmem v) pt = tnodes (pmem s) pt"
      "q \<notin> space_pages (pmem s) pt (pg 0 k)" for vb
      using take_page [OF a Cons u(6,4) us, of "g q (pmem u)"] mv unfolding v_def by auto
    have ph: "phys (pmem v) pt 0 = phys (pmem s) pt 0" by (simp add: phys_def fun_eq_iff tp(2))
    have q: "valid_page (kend v) q" "q \<notin> set ys0" "q mod PGSIZE = 0"
      using c Cons frv by (auto simp: kmem_inv_def valid_page_def)
    have qn: "q \<notin> space_pages (pmem v) pt (pg 0 k) \<union> set ys0"
      using tp(3,4) q(2) unfolding space_pg [OF k'] ph by simp
    obtain r t ys where t: "mappages pt (pg 0 k) PGSIZE q perm v = Ret r t" "mem_frame v t" "r = 0 \<or> r = -1 \<and> ys = []"
      "aspace t pt ys (pg 0 (if r = 0 then Suc k else k)) E"
      "\<And>vb. leaf (pmem t) pt vb = (if r = 0 \<and> key vb = key (pg 0 k) then PA2PTE q OR perm OR PTE_V else leaf (pmem v) pt vb)"
      "\<And>a. (\<forall>p\<in>tnodes (pmem v) pt \<union> set ys0. 4096 \<le> unat (a - p)) \<Longrightarrow> pmem t a = pmem v a"
      "tnodes (pmem t) pt \<union> set ys = tnodes (pmem v) pt \<union> set ys0"
      using add_page [OF tp(1) k E q(1) qn perm] by blast
    have ft: "mem_frame s t" using mem_frame_trans [OF fv t(2)] .
    have far: "pmem t b = pmem s b" if "\<forall>p\<in>tnodes (pmem s) pt \<union> set xs. 4096 \<le> unat (b - p)" for b
      using t(6) [of b] mv [of b] that Cons tp(3) by simp
    have old: "leaf (pmem t) pt vb = leaf (pmem s) pt vb" if "key vb \<noteq> key (pg 0 k)" for vb
      using t(5) [of vb] tp(2) that by simp
    have G: "turn pt (pg 0 k) perm g F C s = (if r \<noteq> 0 then bnd (kfree q t) (\<lambda>_ s. F s) else C t)"
      using u(1,2) t(1) by (simp add: turn_def v_def)
    show ?thesis
    proof (cases "r = 0")
      case True
      have lk: "leaf (pmem t) pt (pg 0 k) = PA2PTE q OR perm OR PTE_V" using t(5) True by simp
      have "q mod PGSIZE = 0" "q < PHYSTOP" using q(1) by (simp_all add: valid_page_def)
      note lw = leaf_word [OF this perm(1)]
      have pk: "phys (pmem t) pt 0 k = q" using lk lw(1) by (simp add: phys_def)
      have "pmem t (q + d) = g q (pmem u) (q + d)" if d: "unat d < 4096" for d
      proof -
        have "4096 \<le> unat (q + d - p)" if "p \<in> tnodes (pmem v) pt \<union> set ys0" for p
        proof (rule page_offset [OF q(3) _ _ d])
          show "p mod PGSIZE = 0" using aspace_aligned [OF tp(1), of p] that by (auto simp: space_pages_def)
          show "q \<noteq> p" using qn that by (auto simp: space_pages_def)
        qed
        then have "pmem t (q + d) = pmem v (q + d)" using t(6) by blast
        then show ?thesis by (simp add: v_def)
      qed
      moreover have "tnodes (pmem t) pt \<union> set ys \<union> {q} = tnodes (pmem s) pt \<union> set xs" using t(7) tp(3) Cons by auto
      ultimately show ?thesis
        using True G ft t(4) old far lw(2) us pk lk by (intro exI [of _ t] exI [of _ ys] exI [of _ True]) (simp del: of_nat_Suc, blast)
    next
      case False
      then have ys: "ys = []" "aspace t pt [] (pg 0 k) E" using t(3,4) by auto
      have pt': "phys (pmem t) pt 0 = phys (pmem s) pt 0" using t(5) tp(2) False by (simp add: phys_def fun_eq_iff)
      have q': "valid_page (kend t) q" "q \<notin> space_pages (pmem t) pt (pg 0 k) \<union> set []"
      proof -
        show "valid_page (kend t) q" using q(1) mem_frame_fields(9) [OF t(2)] by simp
        show "q \<notin> space_pages (pmem t) pt (pg 0 k) \<union> set []"
          using qn t(7) ys(1) unfolding space_pg [OF k'] pt' ph by auto
      qed
      obtain w where w: "kfree q t = Ret () w" "mem_frame t w" "aspace w pt [q] (pg 0 k) E"
        "space_pages (pmem w) pt (pg 0 k) = space_pages (pmem t) pt (pg 0 k)" "\<And>vb. leaf (pmem w) pt vb = leaf (pmem t) pt vb"
        "\<And>b. 4096 \<le> unat (b - q) \<Longrightarrow> pmem w b = pmem t b" "tnodes (pmem w) pt = tnodes (pmem t) pt"
        using give_page [OF ys(2) q'] by blast
      have "pmem w b = pmem s b" if "\<forall>p\<in>tnodes (pmem s) pt \<union> set xs. 4096 \<le> unat (b - p)" for b
        using w(6) [of b] far [OF that] that Cons by simp
      moreover have "tnodes (pmem w) pt \<union> set [q] = tnodes (pmem s) pt \<union> set xs" using w(7) t(7) tp(3) Cons ys(1) by auto
      ultimately show ?thesis
        using False G w(1,3) mem_frame_trans [OF ft w(2)] old w(5)
        by (intro exI [of _ w] exI [of _ "[q]"] exI [of _ False]) simp
    qed
  qed
qed

subsection \<open>Copying an address space\<close>

lemma memmove_page:
  assumes "valid_page e q" and "valid_page e p"
  shows "unat d < 4096 \<Longrightarrow> memmove m q p (ucast PGSIZE) (q + d) = m (p + d)"
    and "4096 \<le> unat (x - q) \<Longrightarrow> memmove m q p (ucast PGSIZE) x = m x"
proof -
  have u: "unat (ucast PGSIZE :: u32) = 4096" by (simp add: PGSIZE_def)
  have "unat q < 2281701376" "unat p < 2281701376" using assms by (simp_all add: valid_page_def PHYSTOP_def KERNBASE_def word_less_nat_alt)
  then have "memmove m q p (ucast PGSIZE) = (\<lambda>x. if unat (x - q) < unat (ucast PGSIZE :: u32) then m (p + (x - q)) else m x)"
    by (intro memmove_spec) (simp_all add: u)
  then show "unat d < 4096 \<Longrightarrow> memmove m q p (ucast PGSIZE) (q + d) = m (p + d)"
    "4096 \<le> unat (x - q) \<Longrightarrow> memmove m q p (ucast PGSIZE) x = m x" unfolding u by simp_all
qed

lemma flags_V:
  assumes "x AND PTE_V \<noteq> 0"
  shows "PTE_FLAGS x OR PTE_V = PTE_FLAGS x" and "PTE_FLAGS x AND 0x3FF = PTE_FLAGS x"
proof -
  have "bit x 0"
  proof (rule ccontr)
    assume "\<not> bit x 0"
    then have "x AND PTE_V = 0" by (intro bit_word_eqI) (auto simp: PTE_V_def bit_simps intro: gr0I)
    then show False using assms by simp
  qed
  then show "PTE_FLAGS x OR PTE_V = PTE_FLAGS x"
    by (intro bit_word_eqI) (auto simp: PTE_FLAGS_def PTE_V_def bit_simps)
  show "PTE_FLAGS x AND 0x3FF = PTE_FLAGS x" by (simp add: PTE_FLAGS_def)
qed

text \<open>Page \<open>i\<close> has the same flags and the same contents in both address spaces.\<close>

definition same_page_in :: "mem \<Rightarrow> u64 \<Rightarrow> u64 \<Rightarrow> nat \<Rightarrow> bool" where
  "same_page_in m old new i \<longleftrightarrow> PTE_FLAGS (leaf m new (pg 0 i)) = PTE_FLAGS (leaf m old (pg 0 i))
     \<and> (\<forall>d. unat d < 4096 \<longrightarrow> m (phys m new 0 i + d) = m (phys m old 0 i + d))"

lemma pg_less: "unat n \<le> unat MAXVA \<Longrightarrow> pg 0 k < n \<longleftrightarrow> k < npages n" if "k \<le> npages n" for k n
proof -
  assume n: "unat n \<le> unat MAXVA"
  have "4096 * k \<le> unat MAXVA" using npages_roundup(2) [OF n] that by simp
  then have "unat (pg 0 k) = 4096 * k" using npages_pg by blast
  then show ?thesis by (auto simp: word_less_nat_alt npages_def)
qed

lemma uvmcopy_turn:
  assumes a: "aspace s old xs n E" and k: "k < npages n"
  shows "uvmcopy_loop old new (pg 0 k) n s = turn new (pg 0 k) (PTE_FLAGS (leaf (pmem s) old (pg 0 k)))
    (\<lambda>mem m. memmove m mem (phys (pmem s) old 0 k) (ucast PGSIZE)) (uvmcopy_err new (pg 0 k)) (uvmcopy_loop old new (pg 0 (Suc k)) n) s"
proof -
  have n: "unat n \<le> unat MAXVA" using a by (simp add: aspace_def)
  have lt: "pg 0 k < n" using pg_less [OF _ n] k by simp
  have va: "pg 0 k < MAXVA" using lt n by (simp add: word_less_nat_alt)
  have inv: "vm_inv s old xs" "leaf (pmem s) old (pg 0 k) AND PTE_V \<noteq> 0" using a k by (auto simp: aspace_def)
  obtain q where q: "walk old (pg 0 k) False s = Ret (q + 8 * PX 0 (pg 0 k)) s" "q + 8 * PX 0 (pg 0 k) \<noteq> 0"
    "ld64 (pmem s) (q + 8 * PX 0 (pg 0 k)) = leaf (pmem s) old (pg 0 k)"
    using clear_leaf [OF inv(1) va inv(2)] by blast
  have e: "pg 0 (Suc k) = pg 0 k + PGSIZE" by (simp add: algebra_simps)
  define b where "b = pg 0 k"
  show ?thesis
    using lt q inv(2) unfolding e phys_def b_def [symmetric]
    by (subst uvmcopy_loop.simps) (simp add: turn_def Let_def)
qed

text \<open>While one address space changes, within its own pages and the free ones, another stays as it is.\<close>

lemma other_space:
  assumes old: "aspace s old xs n E" and new: "aspace s new xs n' E'" and apart: "space_pages (pmem s) old n \<inter> space_pages (pmem s) new n' = {}"
    and t: "mem_frame s t" "kmem_inv t ys" "set ys \<subseteq> space_pages (pmem s) new n' \<union> set xs"
    and far: "\<And>b. (\<And>p. p \<in> space_pages (pmem s) new n' \<union> set xs \<Longrightarrow> 4096 \<le> unat (b - p)) \<Longrightarrow> pmem t b = pmem s b"
  shows "aspace t old ys n E" and "intact (space_pages (pmem s) old n) (pmem s) (pmem t)"
    and "space_pages (pmem t) old n = space_pages (pmem s) old n" and "leaf (pmem t) old va = leaf (pmem s) old va"
proof -
  have sep: "space_pages (pmem s) old n \<inter> (space_pages (pmem s) new n' \<union> set xs) = {}"
    using apart aspace_sep [OF old] by blast
  show i: "intact (space_pages (pmem s) old n) (pmem s) (pmem t)"
    by (rule intact_apart [OF far _ _ sep]) (use aspace_aligned [OF old] aspace_aligned [OF new] in blast)+
  have "space_pages (pmem s) old n \<inter> set ys = {}" using sep t(3) by blast
  note far' = intact_aspace [OF old i t(1,2) this]
  show "aspace t old ys n E" "space_pages (pmem t) old n = space_pages (pmem s) old n" "leaf (pmem t) old va = leaf (pmem s) old va"
    by (rule far')+
qed

lemma phys_pg: "leaf m pt (pg 0 k) = leaf m' pt' (pg 0 k) \<Longrightarrow> phys m pt 0 k = phys m' pt' 0 k"
  by (simp add: phys_def)

lemma grown_pages:
  assumes K: "4096 * Suc k \<le> unat MAXVA" and l: "\<And>i. i < k \<Longrightarrow> leaf m' pt (pg 0 i) = leaf m pt (pg 0 i)"
    and p: "tnodes m' pt \<union> Y \<union> (if ok then {phys m' pt 0 k} else {}) = tnodes m pt \<union> X"
  shows "space_pages m' pt (pg 0 (if ok then Suc k else k)) \<union> Y = space_pages m pt (pg 0 k) \<union> X"
proof -
  have k: "4096 * k \<le> unat MAXVA" using K by simp
  have im: "phys m' pt 0 ` {..<k} = phys m pt 0 ` {..<k}" using phys_pg [OF l] by simp
  show ?thesis
  proof (cases ok)
    case True
    then have "space_pages m' pt (pg 0 (Suc k)) = tnodes m' pt \<union> insert (phys m' pt 0 k) (phys m pt 0 ` {..<k})"
      unfolding space_pg [OF K] lessThan_Suc image_insert im by blast
    then show ?thesis using True p unfolding space_pg [OF k] by (simp del: of_nat_Suc) blast
  next
    case False
    then show ?thesis using p unfolding if_not_P [OF False] space_pg [OF k] im by auto
  qed
qed

lemma uvmcopy_err_spec:
  assumes old: "aspace s old xs n E" and new: "aspace s new xs (pg 0 k) E'" and k: "4096 * k \<le> unat MAXVA"
    and apart: "space_pages (pmem s) old n \<inter> space_pages (pmem s) new (pg 0 k) = {}"
  shows "\<exists>t ys. uvmcopy_err new (pg 0 k) s = Ret (-1) t \<and> mem_frame s t \<and> aspace t old ys n E \<and> aspace t new ys 0 E'
    \<and> intact (space_pages (pmem s) old n) (pmem s) (pmem t)
    \<and> space_pages (pmem t) new 0 \<union> set ys = space_pages (pmem s) new (pg 0 k) \<union> set xs"
proof -
  obtain t ys where t: "uvmunmap new (pg 0 0) (of_nat (k - 0)) True s = Ret () t" "mem_frame s t" "aspace t new ys (pg 0 0) E'"
    "set ys = set xs \<union> phys (pmem s) new 0 ` {0..<k}" "tnodes (pmem t) new = tnodes (pmem s) new"
    "\<And>b. (\<forall>q\<in>tnodes (pmem s) new. 4096 \<le> unat (b - q)) \<and> (\<forall>i. 0 \<le> i \<and> i < k \<longrightarrow> 4096 \<le> unat (b - phys (pmem s) new 0 i))
        \<Longrightarrow> pmem t b = pmem s b"
    using drop_pages [OF new le0 k] by blast
  have sp: "space_pages (pmem s) new (pg 0 k) = tnodes (pmem s) new \<union> phys (pmem s) new 0 ` {..<k}" by (rule space_pg [OF k])
  have sub: "set ys \<subseteq> space_pages (pmem s) new (pg 0 k) \<union> set xs" unfolding sp t(4) by auto
  have km: "kmem_inv t ys" using aspace_kmem [OF t(3)] by blast
  have far: "pmem t b = pmem s b" if "\<And>p. p \<in> space_pages (pmem s) new (pg 0 k) \<union> set xs \<Longrightarrow> 4096 \<le> unat (b - p)" for b
    using that unfolding sp by (intro t(6)) auto
  note o = other_space [OF old new apart t(2) km sub far]
  have "pg 0 k div PGSIZE = of_nat k"
    using npages_pg [OF k] k by (simp add: word_unat_eq_iff unat_div maxva PGSIZE_def unat_of_nat)
  then have "uvmcopy_err new (pg 0 k) s = Ret (-1) t" using t(1) by (simp add: uvmcopy_err_def)
  moreover have "space_pages (pmem t) new 0 \<union> set ys = space_pages (pmem s) new (pg 0 k) \<union> set xs"
    using space_pg [of 0 "pmem t" new] unfolding sp t(4) t(5) by auto
  moreover have "aspace t new ys 0 E'" using t(3) by simp
  ultimately show ?thesis using t(2) o(1,2) by blast
qed

lemma apart_neq: "p \<in> A \<Longrightarrow> A \<inter> B = {} \<Longrightarrow> A \<inter> C = {} \<Longrightarrow> q \<in> B \<union> C \<Longrightarrow> p \<noteq> q"
  by blast

text \<open>One turn of \<open>uvmcopy\<close> leaves the original alone and copies page \<open>k\<close>.\<close>

lemma uvmcopy_step:
  assumes old: "aspace s old xs n E" and new: "aspace s new xs (pg 0 k) E'" and k: "k < npages n"
    and apart: "space_pages (pmem s) old n \<inter> space_pages (pmem s) new (pg 0 k) = {}"
    and E': "\<And>e. e \<in> E' \<Longrightarrow> key e \<noteq> key (pg 0 k)" and same: "\<forall>i<k. same_page_in (pmem s) old new i"
  shows "\<exists>t ys ok. uvmcopy_loop old new (pg 0 k) n s = (if ok then uvmcopy_loop old new (pg 0 (Suc k)) n t else uvmcopy_err new (pg 0 k) t)
    \<and> mem_frame s t \<and> aspace t old ys n E \<and> aspace t new ys (pg 0 (if ok then Suc k else k)) E'
    \<and> intact (space_pages (pmem s) old n) (pmem s) (pmem t) \<and> space_pages (pmem t) old n = space_pages (pmem s) old n
    \<and> space_pages (pmem t) new (pg 0 (if ok then Suc k else k)) \<union> set ys = space_pages (pmem s) new (pg 0 k) \<union> set xs
    \<and> (ok \<longrightarrow> (\<forall>i<Suc k. same_page_in (pmem t) old new i))"
proof -
  let ?m = "pmem s" and ?perm = "PTE_FLAGS (leaf (pmem s) old (pg 0 k))"
  have n: "unat n \<le> unat MAXVA" using old by (simp add: aspace_def)
  have K: "4096 * Suc k \<le> unat MAXVA" "4096 * k \<le> unat MAXVA" using npages_roundup(2) [OF n] k by auto
  have lk: "leaf ?m old (pg 0 k) AND PTE_V \<noteq> 0" "?perm \<noteq> PTE_V" "valid_page (kend s) (phys ?m old 0 k)"
    using old k by (auto simp: aspace_def)
  have perm: "?perm AND 0x3FF = ?perm" "?perm OR PTE_V = ?perm" using flags_V [OF lk(1)] by auto
  have g: "memmove m q (phys ?m old 0 k) (ucast PGSIZE) x = m x" if "valid_page (kend s) q" "4096 \<le> unat (x - q)" for q m x
    using memmove_page(2) [OF that(1) lk(3) that(2)] .
  have P: "?perm OR PTE_V \<noteq> PTE_V" using perm(2) lk(2) by simp
  obtain t ys ok where t: "uvmcopy_loop old new (pg 0 k) n s = (if ok then uvmcopy_loop old new (pg 0 (Suc k)) n t else uvmcopy_err new (pg 0 k) t)"
    "mem_frame s t" "aspace t new ys (pg 0 (if ok then Suc k else k)) E'" "\<And>vb. key vb \<noteq> key (pg 0 k) \<Longrightarrow> leaf (pmem t) new vb = leaf ?m new vb"
    "\<And>b. (\<forall>p\<in>tnodes ?m new \<union> set xs. 4096 \<le> unat (b - p)) \<Longrightarrow> pmem t b = ?m b"
    "tnodes (pmem t) new \<union> set ys \<union> (if ok then {phys (pmem t) new 0 k} else {}) = tnodes ?m new \<union> set xs"
    "ok \<Longrightarrow> PTE_FLAGS (leaf (pmem t) new (pg 0 k)) = ?perm OR PTE_V
       \<and> (\<exists>m. (\<forall>b. 4096 \<le> unat (b - phys (pmem t) new 0 k) \<longrightarrow> m b = ?m b)
            \<and> (\<forall>d. unat d < 4096 \<longrightarrow> pmem t (phys (pmem t) new 0 k + d)
                = memmove m (phys (pmem t) new 0 k) (phys ?m old 0 k) (ucast PGSIZE) (phys (pmem t) new 0 k + d)))"
    unfolding uvmcopy_turn [OF old k]
    using turn_spec [where g = "\<lambda>mem m. memmove m mem (phys ?m old 0 k) (ucast PGSIZE)", OF new K(1) E' perm(1) P g] by blast
  have lf: "leaf (pmem t) new (pg 0 i) = leaf ?m new (pg 0 i)" if "i < k" for i using t(4) [OF key_before [OF K(1) that]] .
  have sp: "space_pages ?m new (pg 0 k) = tnodes ?m new \<union> phys ?m new 0 ` {..<k}" by (rule space_pg [OF K(2)])
  have km: "kmem_inv t ys" using aspace_kmem [OF t(3)] by blast
  have sub: "set ys \<subseteq> space_pages ?m new (pg 0 k) \<union> set xs" using t(6) unfolding sp by auto
  have far: "pmem t b = ?m b" if "\<And>p. p \<in> space_pages ?m new (pg 0 k) \<union> set xs \<Longrightarrow> 4096 \<le> unat (b - p)" for b
    using that unfolding sp by (intro t(5)) auto
  note o = other_space [OF old new apart t(2) km sub far]
  have po: "phys (pmem t) old 0 i = phys ?m old 0 i" for i by (rule phys_pg [OF o(4)])
  have np: "phys (pmem t) new 0 i = phys ?m new 0 i" if "i < k" for i using phys_pg [OF lf [OF that]] .
  note S = grown_pages [OF K(1) lf t(6)]
  have same': "same_page_in (pmem t) old new i" if "i < k" for i
  proof -
    have ac: "owned s new xs i" using new [unfolded aspace_count [OF K(2)]] that by blast
    have "intact {phys ?m new 0 i} ?m (pmem t)"
      by (rule intact_apart [OF t(5), where R = "tnodes ?m new \<union> set xs"])
        (use ac aspace_aligned [OF new] sp in \<open>auto simp: owned_def valid_page_def\<close>)
    moreover have "phys ?m old 0 i \<in> space_pages ?m old n" using that k by (simp add: space_pages_def)
    ultimately show ?thesis
      using same that o(2) np [OF that] lf [OF that] o(4) [of "pg 0 i"] po
      unfolding same_page_in_def intact_def by simp
  qed
  have "same_page_in (pmem t) old new k" if okay: ok
  proof -
    let ?q = "phys (pmem t) new 0 k" and ?p = "phys ?m old 0 k"
    have new': "aspace t new ys (pg 0 (Suc k)) E'" using t(3) okay by simp
    have "\<forall>j<Suc k. owned t new ys j" using new' [unfolded aspace_count [OF K(1)]] by blast
    then have q: "valid_page (kend s) ?q" using mem_frame_fields(9) [OF t(2)] by (simp add: owned_def)
    have q': "?q \<in> tnodes ?m new \<union> set xs" unfolding t(6) [symmetric] using okay by simp
    have p: "?p \<in> space_pages ?m old n" using k by (simp add: space_pages_def)
    have "?q \<in> space_pages ?m new (pg 0 k) \<union> set xs" using q' unfolding sp by blast
    then have ne: "?p \<noteq> ?q" by (rule apart_neq [OF p apart aspace_sep [OF old]])
    obtain m where m: "\<And>b. 4096 \<le> unat (b - ?q) \<Longrightarrow> m b = ?m b"
      "\<And>d. unat d < 4096 \<Longrightarrow> pmem t (?q + d) = memmove m ?q ?p (ucast PGSIZE) (?q + d)" using t(7) [OF okay] by blast
    have "pmem t (?q + d) = pmem t (?p + d)" if d: "unat d < 4096" for d
    proof -
      have "4096 \<le> unat (?p + d - ?q)" using page_offset [OF _ _ _ d] ne lk(3) q by (simp add: valid_page_def)
      then have "pmem t (?q + d) = ?m (?p + d)" using m memmove_page(1) [OF q lk(3) d] d by simp
      then show ?thesis using intactD [OF o(2) p d] by simp
    qed
    then show ?thesis using t(7) [OF okay] perm(2) o(4) [of "pg 0 k"] po unfolding same_page_in_def by simp
  qed
  then have "ok \<longrightarrow> (\<forall>i<Suc k. same_page_in (pmem t) old new i)" using same' less_Suc_eq by metis
  then show ?thesis using t(1,2,3) o(1,2,3) S by blast
qed

lemma apart_grown:
  assumes "P' \<union> Y = P \<union> X" and "Q \<inter> P = {}" and "Q \<inter> X = {}"
  shows "Q \<inter> P' = {}"
  using assms by blast

lemma uvmcopy_loop_spec:
  assumes "aspace s old xs n E" and "aspace s new xs (pg 0 k) E'" and "k \<le> npages n"
    and "space_pages (pmem s) old n \<inter> space_pages (pmem s) new (pg 0 k) = {}"
    and "\<And>e i. e \<in> E' \<Longrightarrow> i < npages n \<Longrightarrow> key e \<noteq> key (pg 0 i)" and "\<forall>i<k. same_page_in (pmem s) old new i"
  shows "\<exists>r t ys. uvmcopy_loop old new (pg 0 k) n s = Ret r t \<and> mem_frame s t \<and> aspace t old ys n E
    \<and> aspace t new ys (if r = 0 then n else 0) E' \<and> (r = 0 \<or> r = -1)
    \<and> intact (space_pages (pmem s) old n) (pmem s) (pmem t)
    \<and> space_pages (pmem t) new (if r = 0 then n else 0) \<union> set ys = space_pages (pmem s) new (pg 0 k) \<union> set xs
    \<and> (r = 0 \<longrightarrow> (\<forall>i<npages n. same_page_in (pmem t) old new i))"
  using assms
proof (induction "npages n - k" arbitrary: k s xs)
  case 0
  then have k: "k = npages n" by simp
  have n: "unat n \<le> unat MAXVA" using 0 by (simp add: aspace_def)
  have "\<not> pg 0 k < n" using pg_less [OF _ n, of k] k by simp
  then have l: "uvmcopy_loop old new (pg 0 k) n s = Ret 0 s" by (subst uvmcopy_loop.simps) simp
  have "aspace s new xs n E'" using 0(3) aspace_pages [OF n] unfolding k by metis
  moreover have "space_pages (pmem s) new n = space_pages (pmem s) new (pg 0 k)" using aspace_pages [OF n] unfolding k by metis
  ultimately show ?case using 0(2,7) l unfolding k by (intro exI [of _ 0] exI [of _ s] exI [of _ xs]) (simp add: mem_frame_def)
next
  case (Suc j)
  then have k: "k < npages n" by simp
  have n: "unat n \<le> unat MAXVA" using Suc.prems(1) by (simp add: aspace_def)
  have K: "4096 * k \<le> unat MAXVA" using npages_roundup(2) [OF n] k by simp
  obtain t ys ok where t: "uvmcopy_loop old new (pg 0 k) n s = (if ok then uvmcopy_loop old new (pg 0 (Suc k)) n t else uvmcopy_err new (pg 0 k) t)"
    "mem_frame s t" "aspace t old ys n E" "aspace t new ys (pg 0 (if ok then Suc k else k)) E'"
    "intact (space_pages (pmem s) old n) (pmem s) (pmem t)" "space_pages (pmem t) old n = space_pages (pmem s) old n"
    "space_pages (pmem t) new (pg 0 (if ok then Suc k else k)) \<union> set ys = space_pages (pmem s) new (pg 0 k) \<union> set xs"
    "ok \<longrightarrow> (\<forall>i<Suc k. same_page_in (pmem t) old new i)"
    using uvmcopy_step [OF Suc.prems(1,2) k Suc.prems(4) Suc.prems(5) [OF _ k] Suc.prems(6)] by blast
  have apart: "space_pages (pmem t) old n \<inter> space_pages (pmem t) new (pg 0 (if ok then Suc k else k)) = {}"
    unfolding t(6) by (rule apart_grown [OF t(7) Suc.prems(4) aspace_sep [OF Suc.prems(1)]])
  show ?case
  proof (cases ok)
    case True
    note t' = t [unfolded if_P [OF True]] and apart' = apart [unfolded if_P [OF True]]
    have j: "j = npages n - Suc k" "Suc k \<le> npages n" using Suc.hyps(2) by simp_all
    obtain r u zs where u: "uvmcopy_loop old new (pg 0 (Suc k)) n t = Ret r u" "mem_frame t u" "aspace u old zs n E"
      "aspace u new zs (if r = 0 then n else 0) E'" "r = 0 \<or> r = -1" "intact (space_pages (pmem t) old n) (pmem t) (pmem u)"
      "space_pages (pmem u) new (if r = 0 then n else 0) \<union> set zs = space_pages (pmem t) new (pg 0 (Suc k)) \<union> set ys"
      "r = 0 \<longrightarrow> (\<forall>i<npages n. same_page_in (pmem u) old new i)"
      using Suc.hyps(1) [OF j(1) t'(3,4) j(2) apart' Suc.prems(5)] t'(8) True by blast
    note i = intact_trans [OF t(5) u(6) [unfolded t(6)]]
    show ?thesis
      unfolding t'(1) using u(1,3-5,8) i mem_frame_trans [OF t(2) u(2)] u(7) [unfolded t'(7)] by blast
  next
    case False
    note t' = t [unfolded if_not_P [OF False]] and apart' = apart [unfolded if_not_P [OF False]]
    obtain u zs where u: "uvmcopy_err new (pg 0 k) t = Ret (-1) u" "mem_frame t u" "aspace u old zs n E" "aspace u new zs 0 E'"
      "intact (space_pages (pmem t) old n) (pmem t) (pmem u)"
      "space_pages (pmem u) new 0 \<union> set zs = space_pages (pmem t) new (pg 0 k) \<union> set ys"
      using uvmcopy_err_spec [OF t'(3,4) K apart'] by blast
    note i = intact_trans [OF t(5) u(5) [unfolded t(6)]]
    show ?thesis
      unfolding t'(1) using u(1,3,4) i mem_frame_trans [OF t(2) u(2)] u(6) [unfolded t'(7)]
      by (intro exI [of _ "-1"] exI [of _ u] exI [of _ zs]) simp
  qed
qed

text \<open>C14: \<open>uvmcopy\<close>, the memory of \<open>fork\<close>, refines a copy of an address space, when memory runs out included. Given two
  address spaces with the same free list, the second without user pages, it always returns. If it returns 0 the new one
  has the same number of pages, and each page has the flags and the contents of the old one's page, in memory of its own:
  the two still share nothing. If it returns -1 the new one is back to no user pages. In both cases the old address
  space and its contents are unchanged, both are well formed, and no page is lost: the pages of the new one with those on
  the free list are the same as before.
\<close>

theorem uvmcopy_correct:
  assumes "aspace s old xs n E" and "aspace s new xs 0 E'" and "space_pages (pmem s) old n \<inter> space_pages (pmem s) new 0 = {}"
    and "\<And>e i. e \<in> E' \<Longrightarrow> i < npages n \<Longrightarrow> key e \<noteq> key (pg 0 i)"
  shows "\<exists>r t ys. uvmcopy old new n s = Ret r t \<and> (r = 0 \<or> r = -1)
    \<and> aspace t old ys n E \<and> aspace t new ys (if r = 0 then n else 0) E'
    \<and> space_pages (pmem t) old n \<inter> space_pages (pmem t) new (if r = 0 then n else 0) = {}
    \<and> (\<forall>p\<in>space_pages (pmem s) old n. \<forall>d. unat d < 4096 \<longrightarrow> pmem t (p + d) = pmem s (p + d))
    \<and> space_pages (pmem t) new (if r = 0 then n else 0) \<union> set ys = space_pages (pmem s) new 0 \<union> set xs
    \<and> (r = 0 \<longrightarrow> (\<forall>i<npages n. PTE_FLAGS (leaf (pmem t) new (pg 0 i)) = PTE_FLAGS (leaf (pmem t) old (pg 0 i))
        \<and> (\<forall>d. unat d < 4096 \<longrightarrow> pmem t (phys (pmem t) new 0 i + d) = pmem t (phys (pmem t) old 0 i + d))))"
proof -
  have z: "pg 0 0 = 0" by simp
  obtain r t ys where t: "uvmcopy_loop old new 0 n s = Ret r t" "mem_frame s t" "aspace t old ys n E" "aspace t new ys (if r = 0 then n else 0) E'"
    "r = 0 \<or> r = -1" "intact (space_pages (pmem s) old n) (pmem s) (pmem t)"
    "space_pages (pmem t) new (if r = 0 then n else 0) \<union> set ys = space_pages (pmem s) new 0 \<union> set xs"
    "r = 0 \<longrightarrow> (\<forall>i<npages n. same_page_in (pmem t) old new i)"
    using uvmcopy_loop_spec [of s old xs n E new 0, unfolded z, OF assms(1,2) le0 assms(3,4)] by blast
  have "space_pages (pmem s) old n \<inter> set ys = {}" using apart_grown [OF t(7) [unfolded Un_commute [of _ "set ys"]] assms(3) aspace_sep [OF assms(1)]] .
  note o = intact_aspace(2) [OF assms(1) t(6,2) conjunct2 [OF conjunct2 [OF aspace_kmem [OF t(3)]]] this]
  have "space_pages (pmem t) old n \<inter> space_pages (pmem t) new (if r = 0 then n else 0) = {}"
    unfolding o by (rule apart_grown [OF t(7) assms(3) aspace_sep [OF assms(1)]])
  then show ?thesis
    unfolding uvmcopy_def using t(1,3-5,7,8) t(6) [unfolded intact_def]
    unfolding same_page_in_def by (intro exI [of _ r] exI [of _ t] exI [of _ ys]) blast
qed

subsection \<open>Growing and shrinking an address space\<close>

text \<open>The first \<open>k\<close> pages keep their entries and their contents, and the mappings of \<open>E\<close> stay.\<close>

definition lasting :: "u64 set \<Rightarrow> mem \<Rightarrow> mem \<Rightarrow> u64 \<Rightarrow> nat \<Rightarrow> bool" where
  "lasting E m m' pt k \<longleftrightarrow> (\<forall>e\<in>E. leaf m' pt e = leaf m pt e) \<and> (\<forall>i<k. leaf m' pt (pg 0 i) = leaf m pt (pg 0 i)
     \<and> (\<forall>d. unat d < 4096 \<longrightarrow> m' (phys m pt 0 i + d) = m (phys m pt 0 i + d)))"

lemma lasting_refl [simp]: "lasting E m m pt k"
  by (simp add: lasting_def)

lemma lasting_trans: "lasting E m m' pt k \<Longrightarrow> lasting E m' m'' pt k \<Longrightarrow> lasting E m m'' pt k"
  unfolding lasting_def phys_def by simp

lemma lasting_mono: "lasting E m m' pt k \<Longrightarrow> j \<le> k \<Longrightarrow> lasting E m m' pt j"
  by (simp add: lasting_def)

lemma lastingI:
  assumes "\<And>i. i < k \<Longrightarrow> leaf m' pt (pg 0 i) = leaf m pt (pg 0 i)" and "\<And>b. (\<And>q. q \<in> R \<Longrightarrow> 4096 \<le> unat (b - q)) \<Longrightarrow> m' b = m b"
    and "\<And>q. q \<in> R \<Longrightarrow> q mod PGSIZE = 0" and "\<And>i. i < k \<Longrightarrow> phys m pt 0 i mod PGSIZE = 0 \<and> phys m pt 0 i \<notin> R"
    and "\<And>e. e \<in> E \<Longrightarrow> leaf m' pt e = leaf m pt e"
  shows "lasting E m m' pt k"
  unfolding lasting_def
proof (intro allI impI conjI ballI)
  show "leaf m' pt e = leaf m pt e" if "e \<in> E" for e using assms(5) [OF that] .
  fix i and d :: u64 assume i: "i < k"
  show "leaf m' pt (pg 0 i) = leaf m pt (pg 0 i)" using assms(1) [OF i] .
  assume d: "unat d < 4096"
  have "intact {phys m pt 0 i} m m'" by (rule intact_apart [OF assms(2)]) (use assms(3) assms(4) [OF i] in auto)
  then show "m' (phys m pt 0 i + d) = m (phys m pt 0 i + d)" using d by (simp add: intact_def)
qed

lemma owned_aligned: "owned s pt xs i \<Longrightarrow> phys (pmem s) pt 0 i mod PGSIZE = 0 \<and> phys (pmem s) pt 0 i \<notin> tnodes (pmem s) pt \<union> set xs"
  by (simp add: owned_def valid_page_def)

text \<open>A page that the program has just got: it may read, write and execute it, and it finds zeros there.\<close>

definition blank :: "mem \<Rightarrow> u64 \<Rightarrow> nat \<Rightarrow> bool" where
  "blank m pt i \<longleftrightarrow> PTE_FLAGS (leaf m pt (pg 0 i)) = PTE_W OR PTE_X OR PTE_R OR PTE_U OR PTE_V
     \<and> (\<forall>d. unat d < 4096 \<longrightarrow> m (phys m pt 0 i + d) = 0)"

lemma lasting_blank: "lasting E m m' pt k \<Longrightarrow> i < k \<Longrightarrow> blank m pt i \<Longrightarrow> blank m' pt i"
  unfolding lasting_def blank_def phys_def by simp

lemma PGROUNDUP_pages:
  assumes "unat n \<le> unat MAXVA"
  shows "PGROUNDUP n = pg 0 (npages n)"
proof -
  have "PGROUNDUP n mod PGSIZE = 0"
    unfolding PGROUNDUP_def word_unat_eq_iff unat_mod round_down unat_round_down by (simp add: PGSIZE_def minus_mod_eq_mult_div)
  then have "PGROUNDUP n = (PGROUNDUP n div PGSIZE) * PGSIZE" using word_mod_div_equality [of "PGROUNDUP n" PGSIZE] by simp
  then show ?thesis using npages_roundup(1) [OF assms] by simp
qed

lemma scast_short:
  assumes "\<And>n. bit w n \<Longrightarrow> n < 31"
  shows "scast (ucast (w :: u64) :: u32) = w"
proof (rule bit_word_eqI)
  show "bit (scast (ucast w :: u32) :: u64) n \<longleftrightarrow> bit w n" for n
    using assms [of n] assms [of 31] by (cases "n < 31") (auto simp: bit_simps min_def)
qed

lemma short_nat:
  assumes "i < 2 ^ 31"
  shows "scast (ucast (of_nat i :: u64) :: u32) = (of_nat i :: u64)"
proof (rule scast_short, rule ccontr)
  fix n assume b: "bit (of_nat i :: u64) n" "\<not> n < 31"
  have "take_bit 31 (of_nat i :: u64) = of_nat i"
    using assms by (simp add: word_unat_eq_iff unsigned_take_bit_eq unat_of_nat_u64 take_bit_nat_eq_self)
  then have "bit (take_bit 31 (of_nat i :: u64)) n" using b(1) by simp
  then show False using b(2) by (simp add: bit_take_bit_iff)
qed

lemma short_count:
  assumes "4096 * k \<le> unat MAXVA" and "j \<le> k"
  shows "scast (ucast ((pg 0 k - pg 0 j) div PGSIZE) :: u32) = (of_nat (k - j) :: u64)" and "pg 0 j < pg 0 k \<longleftrightarrow> j < k"
proof -
  have u: "unat (pg 0 k) = 4096 * k" "unat (pg 0 j) = 4096 * j" using npages_pg [of k] npages_pg [of j] assms by simp_all
  then show "pg 0 j < pg 0 k \<longleftrightarrow> j < k" by (simp add: word_less_nat_alt)
  have "unat (pg 0 k - pg 0 j) = 4096 * (k - j)" using u assms(2) by (simp add: unat_sub word_le_nat_alt diff_mult_distrib2)
  then have "unat ((pg 0 k - pg 0 j) div PGSIZE) = k - j" by (simp add: unat_div PGSIZE_def)
  moreover have "k - j < 2 ^ 31" "k - j < 18446744073709551616" using assms(1) by (simp_all add: maxva)
  ultimately have d: "(pg 0 k - pg 0 j) div PGSIZE = of_nat (k - j)" "k - j < 2 ^ 31"
    by (simp_all only: word_unat_eq_iff unat_of_nat_u64)
  show "scast (ucast ((pg 0 k - pg 0 j) div PGSIZE) :: u32) = (of_nat (k - j) :: u64)"
    unfolding d(1) by (rule short_nat [OF d(2)])
qed

lemma uvmdealloc_spec:
  assumes a: "aspace s pt xs n E" and lt: "m < n" and E: "\<And>e i. e \<in> E \<Longrightarrow> i < npages n \<Longrightarrow> key e \<noteq> key (pg 0 i)"
  shows "\<exists>t ys. uvmdealloc pt n m s = Ret m t \<and> mem_frame s t \<and> aspace t pt ys m E \<and> lasting E (pmem s) (pmem t) pt (npages m)
    \<and> space_pages (pmem t) pt m \<union> set ys = space_pages (pmem s) pt n \<union> set xs"
proof -
  let ?j = "npages m" and ?k = "npages n"
  have n: "unat n \<le> unat MAXVA" "unat m \<le> unat MAXVA" using a lt by (simp_all add: aspace_def word_less_nat_alt)
  have nle: "\<not> n \<le> m" using lt by simp
  have jk: "?j \<le> ?k" using lt by (simp add: npages_def word_less_nat_alt div_le_mono)
  have K: "4096 * ?k \<le> unat MAXVA" "4096 * ?j \<le> unat MAXVA" using npages_roundup(2) n by blast+
  have a': "aspace s pt xs (pg 0 ?k) E" using a aspace_pages [OF n(1)] by metis
  have sp: "space_pages x pt m = tnodes x pt \<union> phys x pt 0 ` {..<?j}" "space_pages x pt n = tnodes x pt \<union> phys x pt 0 ` {..<?k}" for x
    unfolding space_pages_def by blast+
  obtain t ys where t: "uvmunmap pt (pg 0 ?j) (of_nat (?k - ?j)) True s = Ret () t" "mem_frame s t" "aspace t pt ys (pg 0 ?j) E"
    "set ys = set xs \<union> phys (pmem s) pt 0 ` {?j..<?k}" "tnodes (pmem t) pt = tnodes (pmem s) pt"
    "\<And>i. i < ?j \<Longrightarrow> leaf (pmem t) pt (pg 0 i) = leaf (pmem s) pt (pg 0 i)"
    "\<And>vb. (\<forall>i<?k. key vb \<noteq> key (pg 0 i)) \<Longrightarrow> leaf (pmem t) pt vb = leaf (pmem s) pt vb"
    "\<And>b. (\<forall>q\<in>tnodes (pmem s) pt. 4096 \<le> unat (b - q)) \<and> (\<forall>i. ?j \<le> i \<and> i < ?k \<longrightarrow> 4096 \<le> unat (b - phys (pmem s) pt 0 i))
        \<Longrightarrow> pmem t b = pmem s b"
    using drop_pages [OF a' jk K(1)] by blast
  have ow: "\<forall>i<?k. owned s pt xs i" "inj_on (phys (pmem s) pt 0) {..<?k}" using a' [unfolded aspace_count [OF K(1)]] by blast+
  have kept: "lasting E (pmem s) (pmem t) pt ?j"
  proof (rule lastingI [where R = "tnodes (pmem s) pt \<union> phys (pmem s) pt 0 ` {?j..<?k}"])
    show "leaf (pmem t) pt (pg 0 i) = leaf (pmem s) pt (pg 0 i)" if "i < ?j" for i by (rule t(6) [OF that])
    show "pmem t b = pmem s b" if "\<And>q. q \<in> tnodes (pmem s) pt \<union> phys (pmem s) pt 0 ` {?j..<?k} \<Longrightarrow> 4096 \<le> unat (b - q)" for b
      using that by (intro t(8)) auto
    show "leaf (pmem t) pt e = leaf (pmem s) pt e" if "e \<in> E" for e using E [OF that] by (intro t(7)) simp
    show "q mod PGSIZE = 0" if "q \<in> tnodes (pmem s) pt \<union> phys (pmem s) pt 0 ` {?j..<?k}" for q
      using that by (intro aspace_aligned [OF a]) (auto simp: sp)
    show "phys (pmem s) pt 0 i mod PGSIZE = 0 \<and> phys (pmem s) pt 0 i \<notin> tnodes (pmem s) pt \<union> phys (pmem s) pt 0 ` {?j..<?k}"
      if i: "i < ?j" for i
    proof -
      have "owned s pt xs i" using ow(1) i jk by simp
      moreover have "phys (pmem s) pt 0 i \<notin> phys (pmem s) pt 0 ` {?j..<?k}" using ow(2) i jk by (auto dest: inj_onD)
      ultimately show ?thesis using owned_aligned by blast
    qed
  qed
  have ph: "phys (pmem t) pt 0 ` {..<?j} = phys (pmem s) pt 0 ` {..<?j}" using phys_pg [OF t(6)] by simp
  have "{..<?k} = {..<?j} \<union> {?j..<?k}" using jk by auto
  then have S: "space_pages (pmem t) pt m \<union> set ys = space_pages (pmem s) pt n \<union> set xs"
    unfolding sp t(4,5) ph by (simp add: image_Un) blast
  have "uvmdealloc pt n m s = Ret m t"
  proof (cases "?j < ?k")
    case True
    then show ?thesis
      using t(1) nle short_count [OF K(1) jk]
      unfolding uvmdealloc_def PGROUNDUP_pages [OF n(1)] PGROUNDUP_pages [OF n(2)] Let_def by simp
  next
    case False
    then have "uvmunmap pt (pg 0 ?j) (of_nat (?k - ?j)) True s = Ret () s"
      using pg_aligned [of 0 ?j] K(2) by (simp add: uvmunmap_def maxva) (subst uvmunmap_loop.simps, simp)
    then have "t = s" using t(1) by simp
    then show ?thesis
      using False nle short_count [OF K(1) jk]
      unfolding uvmdealloc_def PGROUNDUP_pages [OF n(1)] PGROUNDUP_pages [OF n(2)] by simp
  qed
  moreover have "aspace t pt ys m E" using t(3) aspace_pages [OF n(2)] by metis
  ultimately show ?thesis using t(2) kept S by blast
qed

lemma uvmalloc_turn:
  assumes "pg 0 k < n"
  shows "uvmalloc_loop pt (pg 0 k) z n s = turn pt (pg 0 k) (PTE_W OR PTE_X OR PTE_R OR PTE_U) (\<lambda>mem m. memset m mem 0 (ucast PGSIZE))
    (\<lambda>s. bnd (uvmdealloc pt (pg 0 k) z s) (\<lambda>_ s. Ret 0 s)) (uvmalloc_loop pt (pg 0 (Suc k)) z n) s"
proof -
  have e: "pg 0 (Suc k) = pg 0 k + PGSIZE" by (simp add: algebra_simps)
  define b where "b = pg 0 k"
  show ?thesis using assms unfolding e b_def [symmetric] by (subst uvmalloc_loop.simps) (simp add: turn_def Let_def)
qed

text \<open>One turn of \<open>uvmalloc\<close> adds a blank page.\<close>

lemma uvmalloc_step:
  assumes a: "aspace s pt xs (pg 0 k) E" and K: "4096 * Suc k \<le> unat MAXVA" and lt: "pg 0 k < n" and E: "\<And>e. e \<in> E \<Longrightarrow> key e \<noteq> key (pg 0 k)"
  shows "\<exists>t ys ok. uvmalloc_loop pt (pg 0 k) z n s
      = (if ok then uvmalloc_loop pt (pg 0 (Suc k)) z n t else bnd (uvmdealloc pt (pg 0 k) z t) (\<lambda>_ s. Ret 0 s))
    \<and> mem_frame s t \<and> aspace t pt ys (pg 0 (if ok then Suc k else k)) E \<and> lasting E (pmem s) (pmem t) pt k
    \<and> space_pages (pmem t) pt (pg 0 (if ok then Suc k else k)) \<union> set ys = space_pages (pmem s) pt (pg 0 k) \<union> set xs
    \<and> (ok \<longrightarrow> blank (pmem t) pt k)"
proof -
  let ?perm = "PTE_W OR PTE_X OR PTE_R OR PTE_U"
  have k: "4096 * k \<le> unat MAXVA" using K by simp
  have perm: "?perm AND 0x3FF = ?perm" "?perm OR PTE_V \<noteq> PTE_V"
    by (simp_all add: PTE_W_def PTE_X_def PTE_R_def PTE_U_def PTE_V_def)
  have g: "memset m q 0 (ucast PGSIZE) x = m x" if "valid_page (kend s) q" "4096 \<le> unat (x - q)" for q m x
    using that(2) by (simp add: memset_page)
  obtain t ys ok where t: "uvmalloc_loop pt (pg 0 k) z n s
      = (if ok then uvmalloc_loop pt (pg 0 (Suc k)) z n t else bnd (uvmdealloc pt (pg 0 k) z t) (\<lambda>_ s. Ret 0 s))"
    "mem_frame s t" "aspace t pt ys (pg 0 (if ok then Suc k else k)) E" "\<And>vb. key vb \<noteq> key (pg 0 k) \<Longrightarrow> leaf (pmem t) pt vb = leaf (pmem s) pt vb"
    "\<And>b. (\<forall>p\<in>tnodes (pmem s) pt \<union> set xs. 4096 \<le> unat (b - p)) \<Longrightarrow> pmem t b = pmem s b"
    "tnodes (pmem t) pt \<union> set ys \<union> (if ok then {phys (pmem t) pt 0 k} else {}) = tnodes (pmem s) pt \<union> set xs"
    "ok \<Longrightarrow> PTE_FLAGS (leaf (pmem t) pt (pg 0 k)) = ?perm OR PTE_V
       \<and> (\<exists>m. \<forall>d. unat d < 4096 \<longrightarrow> pmem t (phys (pmem t) pt 0 k + d)
                = memset m (phys (pmem t) pt 0 k) 0 (ucast PGSIZE) (phys (pmem t) pt 0 k + d))"
    unfolding uvmalloc_turn [OF lt]
    using turn_spec [where g = "\<lambda>mem m. memset m mem 0 (ucast PGSIZE)" and F = "\<lambda>s. bnd (uvmdealloc pt (pg 0 k) z s) (\<lambda>_ s. Ret 0 s)"
      and C = "uvmalloc_loop pt (pg 0 (Suc k)) z n", OF a K E perm g] by blast
  have lf: "leaf (pmem t) pt (pg 0 i) = leaf (pmem s) pt (pg 0 i)" if "i < k" for i using t(4) [OF key_before [OF K that]] .
  have ow: "\<forall>i<k. owned s pt xs i" using a [unfolded aspace_count [OF k]] by blast
  have "lasting E (pmem s) (pmem t) pt k"
  proof (rule lastingI [where R = "tnodes (pmem s) pt \<union> set xs"])
    show "q mod PGSIZE = 0" if "q \<in> tnodes (pmem s) pt \<union> set xs" for q
      using that by (intro aspace_aligned [OF a]) (auto simp: space_pages_def)
    show "leaf (pmem t) pt e = leaf (pmem s) pt e" if "e \<in> E" for e using E [OF that] by (rule t(4))
  qed (use lf t(5) ow owned_aligned in blast)+
  moreover have "space_pages (pmem t) pt (pg 0 (if ok then Suc k else k)) \<union> set ys = space_pages (pmem s) pt (pg 0 k) \<union> set xs"
    using grown_pages [OF K lf t(6)] .
  moreover have "blank (pmem t) pt k" if okay: ok
    using t(7) [OF okay] by (auto simp: blank_def memset_page or.assoc)
  ultimately show ?thesis using t(1-3) by blast
qed

lemma uvmalloc_loop_spec:
  assumes "aspace s pt xs (pg 0 k) E" and "j \<le> k" and "k \<le> npages n" and "unat n \<le> unat MAXVA"
    and "\<And>e i. e \<in> E \<Longrightarrow> i < npages n \<Longrightarrow> key e \<noteq> key (pg 0 i)" and "\<And>i. j \<le> i \<Longrightarrow> i < k \<Longrightarrow> blank (pmem s) pt i"
  shows "\<exists>t ys ok. uvmalloc_loop pt (pg 0 k) (pg 0 j) n s = Ret (if ok then n else 0) t \<and> mem_frame s t
    \<and> aspace t pt ys (pg 0 (if ok then npages n else j)) E \<and> lasting E (pmem s) (pmem t) pt j
    \<and> space_pages (pmem t) pt (pg 0 (if ok then npages n else j)) \<union> set ys = space_pages (pmem s) pt (pg 0 k) \<union> set xs
    \<and> (ok \<longrightarrow> (\<forall>i. j \<le> i \<and> i < npages n \<longrightarrow> blank (pmem t) pt i))"
  using assms
proof (induction "npages n - k" arbitrary: k s xs)
  case 0
  then have k: "k = npages n" by simp
  then have "\<not> pg 0 k < n" using pg_less [OF _ 0(5), of k] by simp
  then have l: "uvmalloc_loop pt (pg 0 k) (pg 0 j) n s = Ret n s" by (subst uvmalloc_loop.simps) simp
  show ?case using 0(2,7) l unfolding k by (intro exI [of _ s] exI [of _ xs] exI [of _ True]) simp
next
  case (Suc d)
  then have k: "k < npages n" by simp
  note n = Suc.prems(4)
  have K: "4096 * Suc k \<le> unat MAXVA" "4096 * k \<le> unat MAXVA" using npages_roundup(2) [OF n] k by auto
  have lt: "pg 0 k < n" using pg_less [OF _ n] k by simp
  obtain t ys ok where t: "uvmalloc_loop pt (pg 0 k) (pg 0 j) n s
      = (if ok then uvmalloc_loop pt (pg 0 (Suc k)) (pg 0 j) n t else bnd (uvmdealloc pt (pg 0 k) (pg 0 j) t) (\<lambda>_ s. Ret 0 s))"
    "mem_frame s t" "aspace t pt ys (pg 0 (if ok then Suc k else k)) E" "lasting E (pmem s) (pmem t) pt k"
    "space_pages (pmem t) pt (pg 0 (if ok then Suc k else k)) \<union> set ys = space_pages (pmem s) pt (pg 0 k) \<union> set xs"
    "ok \<longrightarrow> blank (pmem t) pt k"
    using uvmalloc_step [OF Suc.prems(1) K(1) lt Suc.prems(5) [OF _ k]] by blast
  note kept = lasting_mono [OF t(4) Suc.prems(2)]
  show ?case
  proof (cases ok)
    case True
    note t' = t(1,3,5) [unfolded if_P [OF True]]
    have d: "d = npages n - Suc k" "j \<le> Suc k" "Suc k \<le> npages n" using Suc.hyps(2) Suc.prems(2) by simp_all
    have fr: "blank (pmem t) pt i" if "j \<le> i" "i < Suc k" for i
      using that lasting_blank [OF t(4)] Suc.prems(6) t(6) True less_Suc_eq by metis
    obtain u zs ok' where u: "uvmalloc_loop pt (pg 0 (Suc k)) (pg 0 j) n t = Ret (if ok' then n else 0) u" "mem_frame t u"
      "aspace u pt zs (pg 0 (if ok' then npages n else j)) E" "lasting E (pmem t) (pmem u) pt j"
      "space_pages (pmem u) pt (pg 0 (if ok' then npages n else j)) \<union> set zs = space_pages (pmem t) pt (pg 0 (Suc k)) \<union> set ys"
      "ok' \<longrightarrow> (\<forall>i. j \<le> i \<and> i < npages n \<longrightarrow> blank (pmem u) pt i)"
      using Suc.hyps(1) [OF d(1) t'(2) d(2,3) n Suc.prems(5) fr] by blast
    show ?thesis
      unfolding t'(1) using u(1,3,6) u(5) [unfolded t'(3)] lasting_trans [OF kept u(4)] mem_frame_trans [OF t(2) u(2)] by blast
  next
    case False
    note t' = t(1,3,5) [unfolded if_not_P [OF False]]
    show ?thesis
    proof (cases "j = k")
      case True
      have "uvmdealloc pt (pg 0 k) (pg 0 j) t = Ret (pg 0 k) t" unfolding True by (simp add: uvmdealloc_def)
      then show ?thesis
        unfolding t'(1) using t(2) t'(2,3) kept True by (intro exI [of _ t] exI [of _ ys] exI [of _ False]) simp
    next
      case ne: False
      have j: "4096 * j \<le> unat MAXVA" "npages (pg 0 j) = j" using Suc.prems(2) K(2) npages_pg [of j] by simp_all
      have "pg 0 j < pg 0 k" using short_count(2) [OF K(2) Suc.prems(2)] ne Suc.prems(2) by simp
      have "key e \<noteq> key (pg 0 i)" if "e \<in> E" "i < npages (pg 0 k)" for e i
        using Suc.prems(5) that k npages_pg [OF K(2)] by simp
      from uvmdealloc_spec [OF t'(2) \<open>pg 0 j < pg 0 k\<close> this] obtain u zs where u: "uvmdealloc pt (pg 0 k) (pg 0 j) t = Ret (pg 0 j) u" "mem_frame t u"
        "aspace u pt zs (pg 0 j) E" "lasting E (pmem t) (pmem u) pt j"
        "space_pages (pmem u) pt (pg 0 j) \<union> set zs = space_pages (pmem t) pt (pg 0 k) \<union> set ys"
        unfolding j(2) by blast
      then show ?thesis
        unfolding t'(1) using t'(3) lasting_trans [OF kept u(4)] mem_frame_trans [OF t(2) u(2)]
        by (intro exI [of _ u] exI [of _ zs] exI [of _ False]) simp
    qed
  qed
qed

lemma uvmalloc_spec:
  assumes a: "aspace s pt xs m E" and le: "m \<le> n" "unat n \<le> unat MAXVA"
    and E: "\<And>e i. e \<in> E \<Longrightarrow> i < npages n \<Longrightarrow> key e \<noteq> key (pg 0 i)"
  shows "\<exists>t ys ok. uvmalloc pt m n s = Ret (if ok then n else 0) t \<and> mem_frame s t
    \<and> aspace t pt ys (if ok then n else m) E \<and> lasting E (pmem s) (pmem t) pt (npages m)
    \<and> space_pages (pmem t) pt (if ok then n else m) \<union> set ys = space_pages (pmem s) pt m \<union> set xs
    \<and> (ok \<longrightarrow> (\<forall>i. npages m \<le> i \<and> i < npages n \<longrightarrow> blank (pmem t) pt i))"
proof -
  let ?j = "npages m"
  have m: "unat m \<le> unat MAXVA" using a by (simp add: aspace_def)
  have jn: "?j \<le> npages n" using le(1) by (simp add: npages_def word_le_nat_alt div_le_mono)
  have nle: "\<not> n < m" using le(1) by simp
  have a': "aspace s pt xs (pg 0 ?j) E" using a aspace_pages [OF m] by metis
  have none: "blank (pmem s) pt i" if "?j \<le> i" "i < ?j" for i using that by simp
  let ?e = "\<lambda>ok. if ok then n else m"
  have ends: "pg 0 (if ok then npages n else ?j) = pg 0 (npages (?e ok))" "unat (?e ok) \<le> unat MAXVA" for ok
    using m le(2) by simp_all
  obtain t ys ok where t: "uvmalloc_loop pt (pg 0 ?j) (pg 0 ?j) n s = Ret (if ok then n else 0) t" "mem_frame s t"
    "aspace t pt ys (pg 0 (if ok then npages n else ?j)) E" "lasting E (pmem s) (pmem t) pt ?j"
    "space_pages (pmem t) pt (pg 0 (if ok then npages n else ?j)) \<union> set ys = space_pages (pmem s) pt (pg 0 ?j) \<union> set xs"
    "ok \<longrightarrow> (\<forall>i. ?j \<le> i \<and> i < npages n \<longrightarrow> blank (pmem t) pt i)"
    using uvmalloc_loop_spec [OF a' order_refl jn le(2) E none] by blast
  have "uvmalloc pt m n s = Ret (if ok then n else 0) t"
    using t(1) nle PGROUNDUP_pages [OF m] by (simp add: uvmalloc_def)
  moreover have "space_pages (pmem s) pt (pg 0 ?j) = space_pages (pmem s) pt m" using aspace_pages [OF m] by metis
  moreover have "aspace t pt ys (?e ok) E"
    using t(3) conjunct1 [OF aspace_pages [OF ends(2) [of ok]]] unfolding ends(1) by blast
  moreover have "space_pages (pmem t) pt (pg 0 (npages (?e ok))) = space_pages (pmem t) pt (?e ok)"
    by (rule sym, rule conjunct2 [OF aspace_pages [OF ends(2)]])
  ultimately show ?thesis
    using t(2,4,5,6) unfolding ends(1) by (intro exI [of _ t] exI [of _ ys] exI [of _ ok]) simp
qed

subsection \<open>growproc\<close>

lemma special_keys:
  assumes "unat m \<le> unat TRAPFRAME" and "e \<in> {TRAMPOLINE, TRAPFRAME}" and "i < npages m"
  shows "key e \<noteq> key (pg 0 i)"
proof -
  have tf: "unat TRAPFRAME = 274877898752" "unat TRAMPOLINE = 274877902848" by (simp_all add: TRAPFRAME_def TRAMPOLINE_def MAXVA_def PGSIZE_def)
  have "4096 * i < unat m" using assms(3) unfolding npages_def by linarith
  then have u: "unat (pg 0 i) < unat TRAPFRAME" "unat (pg 0 i) = 4096 * i" using assms(1) npages_pg [of i] by (simp_all add: tf maxva)
  have "pg 0 i mod PGSIZE = 0" using pg_aligned [of 0 i] u by (simp add: tf)
  moreover have "e mod PGSIZE = 0" using assms(2) special_pages(1,2) by blast
  moreover have "e < MAXVA" "pg 0 i < MAXVA" "e \<noteq> pg 0 i"
    using assms(2) special_pages(5,6) u(1) by (auto simp: word_less_nat_alt tf maxva)
  ultimately show ?thesis using same_page [of e "pg 0 i"] page_aligned_round(1) by (simp add: key_def)
qed

lemma uint_of_int_small:
  "0 \<le> k \<Longrightarrow> k < 2 ^ 64 \<Longrightarrow> uint (of_int k :: u64) = k" "0 \<le> k \<Longrightarrow> k < 2 ^ 32 \<Longrightarrow> uint (of_int k :: u32) = k"
  by (simp_all add: unsigned_of_int take_bit_int_eq_self)

lemma uint_sum:
  fixes old :: u64
  assumes "unat old < 2 ^ 32" and "0 \<le> int (unat old) + n" and "int (unat old) + n < 2 ^ 32"
  shows "ucast (ucast old + of_int n :: u32) = old + of_int n" and "int (unat (old + of_int n)) = int (unat old) + n"
proof -
  let ?k = "int (unat old) + n"
  have old: "old = of_int (int (unat old))" "(ucast old :: u32) = of_int (int (unat old))"
    by (simp_all add: word_uint_eq_iff unsigned_ucast_eq unsigned_of_int)
  have 1: "old + of_int n = of_int ?k" by (subst old(1)) simp
  have 2: "ucast old + of_int n = (of_int ?k :: u32)" by (subst old(2)) simp
  have k64: "uint (of_int ?k :: u64) = ?k" by (rule uint_of_int_small(1)) (use assms in simp_all)
  have k32: "uint (of_int ?k :: u32) = ?k" by (rule uint_of_int_small(2)) (use assms in simp_all)
  show "int (unat (old + of_int n)) = ?k" unfolding 1 using k64 by simp
  show "ucast (ucast old + of_int n :: u32) = old + of_int n"
    unfolding 1 2 using k32 k64 assms(2,3) by (simp add: word_uint_eq_iff unsigned_ucast_eq take_bit_int_eq_self)
qed

lemma ucast_short: "unat (x :: u64) < 2 ^ 32 \<Longrightarrow> ucast (ucast x :: u32) = x"
  by (simp add: word_unat_eq_iff unsigned_ucast_eq unsigned_take_bit_eq take_bit_nat_eq_self)

lemma uint_sum_below:
  fixes old :: u64
  assumes "unat old < 2 ^ 32" and "int (unat old) + n < 0" and "- (2 ^ 31) \<le> n"
  shows "old \<le> ucast (ucast old + of_int n :: u32)"
proof -
  let ?k = "int (unat old) + n + 4294967296"
  have old: "(ucast old :: u32) = of_int (int (unat old))" by (simp add: word_uint_eq_iff unsigned_ucast_eq unsigned_of_int)
  have "ucast old + of_int n = (of_int ?k :: u32)" by (subst old) simp
  moreover have "0 \<le> uint old" "- 2147483648 \<le> n" using assms(3) by simp_all
  then have "0 \<le> ?k" unfolding uint_nat by linarith
  then have "uint (of_int ?k :: u32) = ?k" by (intro uint_of_int_small(2)) (use assms in simp_all)
  ultimately have "uint (ucast old + of_int n :: u32) = ?k" by metis
  moreover have "int (unat (ucast w :: u64)) = uint w" for w :: u32 by (simp add: unsigned_ucast_eq take_bit_int_eq_self)
  ultimately have "int (unat (ucast (ucast old + of_int n :: u32) :: u64)) = ?k" by metis
  moreover have "int (unat old) \<le> ?k" using assms(3) by simp
  ultimately show ?thesis unfolding word_le_nat_alt by linarith
qed

text \<open>Growing, shrinking and failing all end in the same way.\<close>

definition resized :: "nat \<Rightarrow> 'm memory_scheme \<Rightarrow> u64 list \<Rightarrow> u64 \<Rightarrow> 'm memory_scheme \<Rightarrow> u64 list \<Rightarrow> bool" where
  "resized p s xs m t ys \<longleftrightarrow> (let pt = pagetable (procs s p); old = sz (procs s p) in
     mem_frame s t \<and> aspace t pt ys m {TRAMPOLINE, TRAPFRAME}
     \<and> lasting {TRAMPOLINE, TRAPFRAME} (pmem s) (pmem t) pt (min (npages old) (npages m))
     \<and> space_pages (pmem t) pt m \<union> set ys = space_pages (pmem s) pt old \<union> set xs
     \<and> (\<forall>i. npages old \<le> i \<and> i < npages m \<longrightarrow> blank (pmem t) pt i))"

lemma resized_proc:
  assumes "resized p s xs m t ys" and pm: "proc_mem p s xs" and m: "unat m \<le> unat TRAPFRAME"
  shows "proc_mem p (upd_proc p (\<lambda>q. q\<lparr>sz := m\<rparr>) t) ys"
    and "proc_pages p (upd_proc p (\<lambda>q. q\<lparr>sz := m\<rparr>) t) \<union> set ys = proc_pages p s \<union> set xs"
proof -
  let ?pt = "pagetable (procs s p)"
  have r: "mem_frame s t" "aspace t ?pt ys m {TRAMPOLINE, TRAPFRAME}"
    "\<And>e. e \<in> {TRAMPOLINE, TRAPFRAME} \<Longrightarrow> leaf (pmem t) ?pt e = leaf (pmem s) ?pt e"
    "space_pages (pmem t) ?pt m \<union> set ys = space_pages (pmem s) ?pt (sz (procs s p)) \<union> set xs"
    using assms(1) by (auto simp: resized_def Let_def lasting_def)
  note fr = mem_frame_fields [OF r(1)]
  have "proc_space t ?pt ys m" using pm r(2,3) m by (simp add: proc_mem_def proc_space_def)
  then have "proc_space (upd_proc p (\<lambda>q. q\<lparr>sz := m\<rparr>) t) ?pt ys m" by (simp add: upd_proc_def)
  moreover have "trapframe (procs s p) \<notin> set ys \<union> space_pages (pmem t) ?pt m" using pm r(4) by (simp add: proc_mem_def) blast
  ultimately show "proc_mem p (upd_proc p (\<lambda>q. q\<lparr>sz := m\<rparr>) t) ys"
    using pm fr(6,9) by (simp add: proc_mem_def upd_proc_def)
  show "proc_pages p (upd_proc p (\<lambda>q. q\<lparr>sz := m\<rparr>) t) \<union> set ys = proc_pages p s \<union> set xs"
    using r(4) fr(6) by (simp add: proc_pages_def upd_proc_def)
qed

lemma growproc_spec:
  fixes s :: "'m memory_scheme"
  assumes c: "cur s = Some p" and pm: "proc_mem p s xs" and z: "unat (sz (procs s p)) < 2 ^ 32" "int (unat (sz (procs s p))) + n < 2 ^ 32" "- (2 ^ 31) \<le> n"
  shows "\<exists>r t ys m. growproc n s = Ret r (upd_proc p (\<lambda>q. q\<lparr>sz := m\<rparr>) t) \<and> (r = 0 \<or> r = -1 \<and> 0 < n)
    \<and> m = (if r = 0 \<and> 0 \<le> int (unat (sz (procs s p))) + n then sz (procs s p) + of_int n else sz (procs s p))
    \<and> resized p s xs m t ys"
proof -
  let ?o = "sz (procs s p)" and ?pt = "pagetable (procs s p)" and ?E = "{TRAMPOLINE, TRAPFRAME}"
  have ps: "aspace s ?pt xs ?o ?E" "unat ?o \<le> unat TRAPFRAME" using pm by (simp_all add: proc_mem_def proc_space_def)
  have cp: "curproc s = Ret p s" using aspace_kmem [OF ps(1)] c by simp
  have tf: "unat TRAPFRAME = 274877898752" by (simp add: TRAPFRAME_def TRAMPOLINE_def MAXVA_def PGSIZE_def)
  note o32 = ucast_short [OF z(1)]
  have idle: "upd_proc p (\<lambda>q. q\<lparr>sz := ?o\<rparr>) t = t" if "mem_frame s t" for t :: "'m memory_scheme"
    using mem_frame_fields(6) [OF that] by (simp add: upd_proc_def fun_upd_idem)
  have same: "resized p s xs ?o s xs" using ps(1) by (auto simp: resized_def Let_def)
  consider "n = 0" | "0 < n" | "n < 0" "0 \<le> int (unat ?o) + n" | "n < 0" "int (unat ?o) + n < 0" by linarith
  then show ?thesis
  proof cases
    case 1
    then have "growproc n s = Ret 0 (upd_proc p (\<lambda>q. q\<lparr>sz := ?o\<rparr>) s)" using o32 by (simp add: growproc_def cp)
    then show ?thesis using 1 same by (intro exI [of _ 0] exI [of _ s] exI [of _ xs] exI [of _ ?o]) simp
  next
    case 2
    let ?n = "?o + of_int n"
    have ge: "0 \<le> int (unat ?o) + n" using 2 by simp
    note w = uint_sum [OF z(1) ge z(2)]
    have b: "unat ?n < 4294967296" unfolding of_nat_less_iff [where 'a = int, symmetric] w(2) using z(2) by simp
    have n: "?o \<le> ?n" "unat ?n \<le> unat MAXVA" "unat ?n \<le> unat TRAPFRAME"
      unfolding word_le_nat_alt tf maxva using w(2) 2 b by linarith+
    have "unat ?n \<noteq> 0" using w(2) 2 by linarith
    moreover have n0: "(ucast ?n :: u32) \<noteq> 0" using calculation ucast_short [of ?n] b by auto
    ultimately have n': "?n \<noteq> 0" "unat ?n < 2 ^ 32" using b by auto
    have np: "npages ?o \<le> npages ?n" using n(1) by (simp add: npages_def word_le_nat_alt div_le_mono)
    obtain t ys ok where t: "uvmalloc ?pt ?o ?n s = Ret (if ok then ?n else 0) t" "mem_frame s t" "aspace t ?pt ys (if ok then ?n else ?o) ?E"
      "lasting ?E (pmem s) (pmem t) ?pt (npages ?o)" "space_pages (pmem t) ?pt (if ok then ?n else ?o) \<union> set ys = space_pages (pmem s) ?pt ?o \<union> set xs"
      "ok \<longrightarrow> (\<forall>i. npages ?o \<le> i \<and> i < npages ?n \<longrightarrow> blank (pmem t) ?pt i)"
      using uvmalloc_spec [OF ps(1) n(1,2) special_keys [OF n(3)]] by blast
    have r: "resized p s xs (if ok then ?n else ?o) t ys" using t np by (cases ok) (auto simp: resized_def Let_def min_def)
    have "growproc n s = (if ok then Ret 0 (upd_proc p (\<lambda>q. q\<lparr>sz := ?n\<rparr>) t) else Ret (-1) t)"
      using 2 t(1) o32 w(1) n'(1) ucast_short [OF n'(2)] unfolding growproc_def cp bnd.simps Let_def by (cases ok) (simp_all add: n0)
    then show ?thesis
      using r 2 ge idle [OF t(2)]
      by (intro exI [of _ "if ok then 0 else -1"] exI [of _ t] exI [of _ ys] exI [of _ "if ok then ?n else ?o"]) simp
  next
    case 3
    let ?n = "?o + of_int n"
    note w = uint_sum [OF z(1) 3(2) z(2)]
    have n: "?n < ?o" "unat ?n < 2 ^ 32" using w(2) 3 z(1) unfolding word_less_nat_alt by linarith+
    have np: "npages ?n \<le> npages ?o" using n(1) by (simp add: npages_def word_less_nat_alt div_le_mono)
    obtain t ys where t: "uvmdealloc ?pt ?o ?n s = Ret ?n t" "mem_frame s t" "aspace t ?pt ys ?n ?E"
      "lasting ?E (pmem s) (pmem t) ?pt (npages ?n)" "space_pages (pmem t) ?pt ?n \<union> set ys = space_pages (pmem s) ?pt ?o \<union> set xs"
      using uvmdealloc_spec [OF ps(1) n(1) special_keys [OF ps(2)]] by blast
    have r: "resized p s xs ?n t ys" using t np by (auto simp: resized_def Let_def min_def)
    have "growproc n s = Ret 0 (upd_proc p (\<lambda>q. q\<lparr>sz := ?n\<rparr>) t)"
      using 3 t(1) o32 w(1) ucast_short [OF n(2)] unfolding growproc_def cp bnd.simps Let_def by simp
    then show ?thesis using r 3 by (intro exI [of _ 0] exI [of _ t] exI [of _ ys] exI [of _ ?n]) simp
  next
    case 4
    have "uvmdealloc ?pt ?o (ucast (ucast ?o + of_int n :: u32)) s = Ret ?o s"
      using uint_sum_below [OF z(1) 4(2) z(3)] by (simp add: uvmdealloc_def)
    then have "growproc n s = Ret 0 (upd_proc p (\<lambda>q. q\<lparr>sz := ?o\<rparr>) s)"
      using 4(1) o32 unfolding growproc_def cp bnd.simps Let_def by simp
    then show ?thesis using 4 same by (intro exI [of _ 0] exI [of _ s] exI [of _ xs] exI [of _ ?o]) simp
  qed
qed

text \<open>C15: \<open>growproc\<close>, behind \<open>sbrk\<close>. The process's memory is well formed (its pages, table pages, trapframe and the free
  list are apart), its size fits in 32 bits and so does the new size. Then \<open>growproc\<close> returns, 0 or, growing only, -1.
  The memory is still well formed, and the pages of the process together with the free pages are the same as before:
  nothing is lost when an allocation fails half way. The size changes by \<open>n\<close>, unless the result is -1, or the process
  would shrink by more than its size: then nothing changes though the result is 0, for the sum wraps around. Pages below
  both sizes keep their entries and contents; new pages are full of zeros, and readable, writable, executable by the user.
\<close>

theorem growproc_correct:
  assumes "cur s = Some p" and "proc_mem p s xs" and "unat (sz (procs s p)) < 2 ^ 32"
    and "int (unat (sz (procs s p))) + n < 2 ^ 32" and "- (2 ^ 31) \<le> n"
  shows "\<exists>r t ys. growproc n s = Ret r t \<and> (r = 0 \<or> r = -1 \<and> 0 < n) \<and> proc_mem p t ys
    \<and> proc_pages p t \<union> set ys = proc_pages p s \<union> set xs
    \<and> (let old = sz (procs s p); pt = pagetable (procs s p);
           new = (if r = 0 \<and> 0 \<le> int (unat old) + n then old + of_int n else old) in
        procs t = (procs s)(p := (procs s p)\<lparr>sz := new\<rparr>)
        \<and> (\<forall>i. i < npages old \<and> i < npages new \<longrightarrow> leaf (pmem t) pt (pg 0 i) = leaf (pmem s) pt (pg 0 i)
            \<and> (\<forall>d. unat d < 4096 \<longrightarrow> pmem t (phys (pmem s) pt 0 i + d) = pmem s (phys (pmem s) pt 0 i + d)))
        \<and> (\<forall>i. npages old \<le> i \<and> i < npages new \<longrightarrow>
            PTE_FLAGS (leaf (pmem t) pt (pg 0 i)) = PTE_W OR PTE_X OR PTE_R OR PTE_U OR PTE_V
            \<and> (\<forall>d. unat d < 4096 \<longrightarrow> pmem t (phys (pmem t) pt 0 i + d) = 0)))"
proof -
  let ?o = "sz (procs s p)"
  obtain r t ys m where g: "growproc n s = Ret r (upd_proc p (\<lambda>q. q\<lparr>sz := m\<rparr>) t)" "r = 0 \<or> r = -1 \<and> 0 < n"
    "m = (if r = 0 \<and> 0 \<le> int (unat ?o) + n then ?o + of_int n else ?o)" "resized p s xs m t ys"
    using growproc_spec [OF assms] by blast
  have "unat ?o \<le> unat TRAPFRAME" using assms(2) by (simp add: proc_mem_def proc_space_def)
  moreover have "unat (?o + of_int n) \<le> unat TRAPFRAME" if "0 \<le> int (unat ?o) + n"
    unfolding zle_int [symmetric] uint_sum(2) [OF assms(3) that assms(4)]
    using assms(4) by (simp add: TRAPFRAME_def TRAMPOLINE_def MAXVA_def PGSIZE_def)
  ultimately have m: "unat m \<le> unat TRAPFRAME" unfolding g(3) by simp
  note pm = resized_proc [OF g(4) assms(2) m]
  have f: "mem_frame s t" "lasting {TRAMPOLINE, TRAPFRAME} (pmem s) (pmem t) (pagetable (procs s p)) (min (npages ?o) (npages m))"
    "\<And>i. npages ?o \<le> i \<Longrightarrow> i < npages m \<Longrightarrow> blank (pmem t) (pagetable (procs s p)) i"
    using g(4) by (simp_all add: resized_def Let_def)
  show ?thesis
    using g(1,2) pm f(2) [unfolded lasting_def] f(3) [unfolded blank_def] mem_frame_fields(6) [OF f(1)]
    by (intro exI [of _ r] exI [of _ "upd_proc p (\<lambda>q. q\<lparr>sz := m\<rparr>) t"] exI [of _ ys], unfold Let_def g(3) [symmetric])
      (simp add: upd_proc_def)
qed

end
