(* ===== verification/Instances.thy ===== *)
theory Instances
  imports Demo Grow
begin

unbundle bit_operations_syntax

declare One_nat_def [simp del]

text \<open>
  Concrete states for the properties of process life: a page table with one page of each level, the
  states of a parent and its children, and one instance of each property there.
\<close>

subsection \<open>A page table with one path\<close>

text \<open>The root \<open>r\<close> has one valid entry \<open>a\<close>, to \<open>q\<close>, which has one valid entry \<open>b\<close>, to \<open>l\<close>.\<close>

definition spine :: "mem \<Rightarrow> u64 \<Rightarrow> u64 \<Rightarrow> u64 \<Rightarrow> u64 \<Rightarrow> u64 \<Rightarrow> bool" where
  "spine m r a q b l \<longleftrightarrow> unat a < 512 \<and> unat b < 512
     \<and> (\<forall>i. unat i < 512 \<longrightarrow> entry m r i = (if i = a then PA2PTE q OR PTE_V else 0))
     \<and> (\<forall>i. unat i < 512 \<longrightarrow> entry m q i = (if i = b then PA2PTE l OR PTE_V else 0))
     \<and> valid_page 0 r \<and> valid_page 0 q \<and> valid_page 0 l \<and> distinct [r, q, l]"

lemma PTE_dir:
  assumes "valid_page 0 q"
  shows "PTE2PA (PA2PTE q OR PTE_V) = q" and "(PA2PTE q OR PTE_V) AND PTE_V \<noteq> 0"
    and "(PA2PTE q OR PTE_V) AND (PTE_R OR PTE_W OR PTE_X) = 0"
proof -
  show "PTE2PA (PA2PTE q OR PTE_V) = q" "(PA2PTE q OR PTE_V) AND PTE_V \<noteq> 0"
    using assms by (intro PTE_roundtrip; simp add: valid_page_def)+
  have m: "PTE_R = push_bit 1 1" "PTE_W = push_bit 2 1" "PTE_X = push_bit 3 1" by code_simp+
  have "bit (PTE_R OR PTE_W OR PTE_X) n \<Longrightarrow> n \<in> {1, 2, 3}" for n
    unfolding m by (auto simp only: bit_or_iff bit_push_bit_iff bit_1_iff insert_iff empty_iff)
  moreover have "\<not> bit (PA2PTE q OR PTE_V) n" if "n \<in> {1, 2, 3}" for n
    using that by (auto simp: PA2PTE_def PTE_V_def bit_simps)
  ultimately show "(PA2PTE q OR PTE_V) AND (PTE_R OR PTE_W OR PTE_X) = 0"
    by (intro bit_word_eqI) (simp only: bit_and_iff bit_0_eq bot_fun_def bot_bool_def, blast)
qed

lemma spine_node:
  assumes "spine m r a q b l" and "is \<in> paths"
  shows "node m r is = (if is = [] then Some r else if is = [a] then Some q else if is = [b, a] then Some l else None)"
proof -
  define P Q where P: "P = PA2PTE q OR PTE_V" and Q: "Q = PA2PTE l OR PTE_V"
  have s: "entry m r i = (if i = a then P else 0)" "entry m q i = (if i = b then Q else 0)"
    if "unat i < 512" for i using assms(1) that by (simp_all add: spine_def P Q)
  have v: "PTE2PA P = q" "P AND PTE_V \<noteq> 0" "PTE2PA Q = l" "Q AND PTE_V \<noteq> 0"
    using assms(1) PTE_dir(1,2) [of q] PTE_dir(1,2) [of l] by (simp_all only: spine_def simp_thms P Q)
  have ab: "unat a < 512" "unat b < 512" using assms(1) by (simp_all add: spine_def)
  consider "is = []" | i where "is = [i]" "unat i < 512" | i j where "is = [i, j]" "unat i < 512" "unat j < 512"
    using assms(2) unfolding paths_def
    by (cases "is"; cases "tl is") (auto simp: neq_Nil_conv)
  then show ?thesis by cases (auto simp: s v ab)
qed

lemma spine_tree:
  assumes s: "spine m r a q b l" and e: "e \<le> r" "e \<le> q" "e \<le> l"
  shows "tnodes m r = {r, q, l}" and "pt_tree e m r" and "ptrs 2 m r"
    and "leaf m r va = (if PX 1 va = b \<and> PX 2 va = a then entry m l (PX 0 va) else 0)"
proof -
  note n = spine_node [OF s]
  have p: "[] \<in> paths" "[a] \<in> paths" "[b, a] \<in> paths" using s by (simp_all add: spine_def paths_def)
  show t: "tnodes m r = {r, q, l}"
  proof (rule set_eqI, rule iffI)
    fix x assume "x \<in> tnodes m r"
    then obtain "is" where "is \<in> paths" "node m r is = Some x" unfolding tnodes_def by blast
    then show "x \<in> {r, q, l}" using n [of "is"] by (auto split: if_splits)
  next
    fix x assume x: "x \<in> {r, q, l}"
    have "node m r [] = Some r" "node m r [a] = Some q" "node m r [b, a] = Some l"
      using n [OF p(1)] n [OF p(2)] n [OF p(3)] by simp_all
    with x p show "x \<in> tnodes m r" unfolding tnodes_def by blast
  qed
  have d: "valid_page 0 r \<and> valid_page 0 q \<and> valid_page 0 l" "r \<noteq> q" "r \<noteq> l" "q \<noteq> l"
    using s by (auto simp: spine_def)
  have "is = js" if "is \<in> paths" "js \<in> paths" "node m r is = Some p" "node m r js = Some p" for "is" js p
    using that n [OF that(1)] n [OF that(2)] d by (auto split: if_splits)
  moreover have "\<forall>p\<in>tnodes m r. valid_page e p" unfolding t using d e by (auto simp: valid_page_def)
  ultimately show "pt_tree e m r" unfolding pt_tree_def by blast
  show "ptrs 2 m r" unfolding ptrs_def
  proof (intro allI impI, elim conjE)
    fix "is" p i assume h: "length is < 2" "pathd 2 is" "node m r is = Some p" "i < 512" "entry m p (idx i) AND PTE_V \<noteq> 0"
    have "is \<in> paths" using h(2) by (simp add: pathd_simps)
    then have "p = r \<or> p = q" using n [of "is"] h(1,3) by (auto split: if_splits)
    moreover have "unat (idx i) < 512" using h(4) by (simp add: unat_of_nat)
    ultimately have "entry m p (idx i) \<in> {0, PA2PTE q OR PTE_V, PA2PTE l OR PTE_V}"
      using s by (auto simp: spine_def)
    then show "entry m p (idx i) AND (PTE_R OR PTE_W OR PTE_X) = 0"
      using PTE_dir(3) d(1) by auto
  qed
  show "leaf m r va = (if PX 1 va = b \<and> PX 2 va = a then entry m l (PX 0 va) else 0)"
    using n [OF paths_va(1), of va] by (simp add: leaf_def)
qed

subsection \<open>A zombie and its parent\<close>

text \<open>Process 2 is a child of process 1 that has exited with status 7: its trapframe is the page
  \<^verbatim>\<open>0x80113000\<close>, its page table has the pages from \<^verbatim>\<open>0x80110000\<close> and maps only the trampoline and the
  trapframe. The parent has an address space without pages.\<close>

definition zombie_mem :: mem where
  "zombie_mem = st64 (st64 (st64 (st64 (\<lambda>_. 0) (0x80110000 + 8 * 255) (PA2PTE 0x80111000 OR PTE_V))
     (0x80111000 + 8 * 511) (PA2PTE 0x80112000 OR PTE_V))
     (0x80112000 + 8 * 511) (PA2PTE 0x80007000 OR PTE_R OR PTE_X OR PTE_V))
     (0x80112000 + 8 * 510) (PA2PTE 0x80113000 OR PTE_R OR PTE_W OR PTE_V)"

lemma entry_st64:
  assumes "p mod PGSIZE = 0" and "q mod PGSIZE = 0" and "unat i < 512" and "unat j < 512"
  shows "entry (st64 m (p + 8 * j) v) q i = (if q = p \<and> i = j then v else entry m q i)"
  using entry_st64_other [OF assms(1,2,4,3), of m v] entry_st64_same [of m p j v] by auto

lemma zombie_entry:
  assumes "unat i < 512"
  shows "entry zombie_mem 0x80110000 i = (if i = 255 then PA2PTE 0x80111000 OR PTE_V else 0)"
    and "entry zombie_mem 0x80111000 i = (if i = 511 then PA2PTE 0x80112000 OR PTE_V else 0)"
    and "entry zombie_mem 0x80112000 i = (if i = 510 then PA2PTE 0x80113000 OR PTE_R OR PTE_W OR PTE_V
      else if i = 511 then PA2PTE 0x80007000 OR PTE_R OR PTE_X OR PTE_V else 0)"
    and "entry zombie_mem 0x80120000 i = 0"
proof -
  have p: "(0x80110000 :: u64) mod PGSIZE = 0" "(0x80111000 :: u64) mod PGSIZE = 0" "(0x80112000 :: u64) mod PGSIZE = 0"
    "(0x80120000 :: u64) mod PGSIZE = 0" "unat (255 :: u64) < 512" "unat (510 :: u64) < 512" "unat (511 :: u64) < 512"
    by (simp_all add: PGSIZE_def)
  note e = entry_st64 [OF _ _ assms]
  show "entry zombie_mem 0x80110000 i = (if i = 255 then PA2PTE 0x80111000 OR PTE_V else 0)"
    "entry zombie_mem 0x80111000 i = (if i = 511 then PA2PTE 0x80112000 OR PTE_V else 0)"
    "entry zombie_mem 0x80112000 i = (if i = 510 then PA2PTE 0x80113000 OR PTE_R OR PTE_W OR PTE_V
      else if i = 511 then PA2PTE 0x80007000 OR PTE_R OR PTE_X OR PTE_V else 0)"
    "entry zombie_mem 0x80120000 i = 0"
    unfolding zombie_mem_def by (simp_all only: e p zero_entry) auto
qed

lemma zombie_spine: "spine zombie_mem 0x80110000 255 0x80111000 511 0x80112000"
  unfolding spine_def using zombie_entry by (simp add: valid_page_def PGSIZE_def PHYSTOP_def KERNBASE_def)

lemma top_keys: "PX 0 TRAMPOLINE = 511" "PX 1 TRAMPOLINE = 511" "PX 2 TRAMPOLINE = 255"
    "PX 0 TRAPFRAME = 510" "PX 1 TRAPFRAME = 511" "PX 2 TRAPFRAME = 255"
  by code_simp+

lemma zombie_leaf: "leaf zombie_mem 0x80110000 va = (if key va = key TRAPFRAME then PA2PTE 0x80113000 OR PTE_R OR PTE_W OR PTE_V
    else if key va = key TRAMPOLINE then PA2PTE 0x80007000 OR PTE_R OR PTE_X OR PTE_V else 0)"
  using spine_tree(4) [OF zombie_spine, of 0 va] PX_less [of 0 va]
  by (simp add: key_def top_keys zombie_entry)

definition zombie :: trapst where
  "zombie = demo\<lparr>pmem := zombie_mem, kend := 0x80021000, freelist := 0,
     procs := (procs demo)(1 := (procs demo 1)\<lparr>pagetable := 0x80120000, sz := 0\<rparr>,
       2 := (procs demo 2)\<lparr>pstate := ZOMBIE, parent := Some 1, pid := 5, xstate := 7, sz := 0,
         pagetable := 0x80110000, trapframe := 0x80113000\<rparr>)\<rparr>"

lemma zombie_fields [simp]:
  "pmem zombie = zombie_mem" "kend zombie = 0x80021000" "freelist zombie = 0" "world 1 zombie" "calm zombie" "lock_free l zombie"
  "procs zombie 1 = (procs demo 1)\<lparr>pagetable := 0x80120000, sz := 0\<rparr>"
  "procs zombie 2 = (procs demo 2)\<lparr>pstate := ZOMBIE, parent := Some 1, pid := 5, xstate := 7, sz := 0,
         pagetable := 0x80110000, trapframe := 0x80113000\<rparr>"
  by (simp_all add: zombie_def calm_def world_def lock_free_def cur_def demo_def extends boot_p_def upd_proc_def boot_def)

lemma zombie_space: "proc_space zombie 0x80110000 [] 0"
proof -
  have t: "tnodes zombie_mem 0x80110000 = {0x80110000, 0x80111000, 0x80112000}" "pt_tree 0x80021000 zombie_mem 0x80110000"
    "ptrs 2 zombie_mem 0x80110000"
    using spine_tree [OF zombie_spine, of "0x80021000"] by simp_all
  have "npages 0 = 0" by (simp add: npages_def)
  moreover have "kmem_inv zombie []" by (simp add: kmem_inv_def)
  moreover have "(PA2PTE 0x80113000 OR PTE_R OR PTE_W OR PTE_V) AND PTE_V \<noteq> 0"
    "PTE_FLAGS (PA2PTE 0x80113000 OR PTE_R OR PTE_W OR PTE_V) \<noteq> PTE_V"
    "(PA2PTE 0x80007000 OR PTE_R OR PTE_X OR PTE_V) AND PTE_V \<noteq> 0"
    "PTE_FLAGS (PA2PTE 0x80007000 OR PTE_R OR PTE_X OR PTE_V) \<noteq> PTE_V"
    by code_simp+
  moreover have "key TRAMPOLINE \<noteq> key TRAPFRAME" by (simp add: key_def top_keys)
  ultimately show ?thesis using t
    by (auto simp: proc_space_def aspace_def vm_inv_def zombie_leaf split: if_splits)
qed

theorem wait_correct_witness:
  "\<exists>t ys. wait 0 zombie = Ret 5 t \<and> pstate (procs t 2) = UNUSED \<and> kmem_inv t ys
     \<and> set ys = {0x80110000, 0x80111000, 0x80112000, 0x80113000}"
proof -
  have z: "ld64 zombie_mem (0x80120000 + 8 * PX l va) = 0" for l va
    using zombie_entry(4) [OF PX_less] by (simp add: entry_def)
  have up: "upage zombie_mem 0x80120000 va = 0" for va
    by (simp add: upage_def numeral_2_eq_2 Let_def z)
  have tp: "tpages 2 zombie_mem 0x80120000 va = {0x80120000}" for va by (simp add: numeral_2_eq_2 Let_def z)
  have "[0..<NPROC] = 0 # 1 # 2 # [3..<NPROC]" by (simp add: NPROC_def upt_conv_Cons)
  then have "wait_child 1 zombie = Some 2"
    by (simp add: wait_child_def is_child_def zombie_def demo_def extends boot_p_def upd_proc_def boot_def boot_proc_def)
  moreover have "space_pages zombie_mem 0x80110000 0 = {0x80110000, 0x80111000, 0x80112000}"
    using spine_tree(1) [OF zombie_spine, of 0] by (simp add: space_pages_def npages_def)
  ultimately have pp: "proc_pages 2 zombie = {0x80110000, 0x80111000, 0x80112000, 0x80113000}" "wait_child 1 zombie = Some 2"
     "proc_mem 2 zombie []"
    using zombie_space by (auto simp: proc_pages_def proc_mem_def valid_page_def PGSIZE_def PHYSTOP_def KERNBASE_def)
  have us: "uspace zombie_mem 0x80120000" by (simp add: uspace_def up tp PGSIZE_def)
  have "user_pages zombie_mem 0x80120000 = {0x80120000}"
  proof -
    have "(0 :: u64) \<in> {..<MAXVA}" by (simp add: MAXVA_def)
    then show ?thesis by (auto simp: user_pages_def up tp simp del: lessThan_iff)
  qed
  with wait_correct [of 1 zombie 2 "[]" 0] us pp show ?thesis
    by (auto simp: reset_proc_def)
qed

text \<open>The same, with the child still running.\<close>

definition busy_child :: trapst where
  "busy_child = zombie\<lparr>procs := (procs zombie)(2 := (procs zombie 2)\<lparr>pstate := RUNNABLE\<rparr>)\<rparr>"

theorem wait_blocks_witness:
  "\<exists>t. wait 0 busy_child = Swtch t \<and> pstate (procs t 1) = SLEEPING \<and> pchan (procs t 1) = Some (Ch_proc 1)"
proof -
  have w: "world 1 busy_child" by (simp add: busy_child_def)
  have w2: "depth busy_child = 0" "(1 :: nat) < NPROC"
    by (simp_all add: busy_child_def depth_def zombie_def demo_def extends boot_p_def upd_proc_def boot_def NPROC_def)
  have k: "killed (procs busy_child 1) = 0" "is_child 1 busy_child 2" "(2 :: nat) < NPROC"
    by (simp_all add: busy_child_def is_child_def NPROC_def)
  have "\<not> (is_child 1 busy_child i \<and> pstate (procs busy_child i) = ZOMBIE)" for i
    by (cases "i = 2"; cases "i = 1")
      (simp_all add: busy_child_def is_child_def zombie_def demo_def extends boot_p_def upd_proc_def boot_def boot_proc_def)
  then have "wait_child 1 busy_child = None" by (simp add: wait_child_def find_None_iff)
  from wait_blocks [OF w w2 this, of 0] k show ?thesis by (auto simp: upd_proc_def)
qed

theorem exit_tail_correct_witness:
  "\<exists>t. exit_tail 2 7 (set_cproc (Some 2) (upd_proc 1 (\<lambda>q. q\<lparr>pstate := SLEEPING, pchan := Some (Ch_proc 1)\<rparr>) busy_child))
     = (Swtch t :: (unit, trapst) outcome) \<and> pstate (procs t 2) = ZOMBIE \<and> xstate (procs t 2) = 7"
proof -
  let ?s = "set_cproc (Some 2) (upd_proc 1 (\<lambda>q. q\<lparr>pstate := SLEEPING, pchan := Some (Ch_proc 1)\<rparr>) busy_child)"
  have h: "world 2 ?s" "depth ?s = 0" "parent (procs ?s 2) \<noteq> Some 2"
    by (simp_all add: busy_child_def zombie_def calm_def world_def lock_free_def cur_def depth_def demo_def extends boot_p_def
        set_cproc_def upd_proc_def boot_def boot_proc_def)
  from exit_tail_correct [where 'a = unit, OF h, of 7] show ?thesis
    by (elim exE conjE) (intro exI conjI, assumption, simp_all)
qed

subsection \<open>The disk\<close>

lemma demo_free_list: "free_list demo_disk = 0 # 1 # 2 # [3..<8]" "vd_ok demo_disk"
  by (simp_all add: free_list_def NUM_def demo_disk_def vd_ok_def upt_conv_Cons)

theorem virtio_disk_rw_correct_witness:
  "\<exists>t. virtio_disk_rw 3 True demo = Swtch t \<and> device_sees (vdisk t) 0 = Some (True, ucast (b_blockno (bufs demo 3) * 2), 3, 0)
     \<and> vd_avail_ring (vdisk t) 0 = 0"
  using virtio_disk_rw_correct [of 1 demo 3 True] demo_free_list
  by (auto simp: NPROC_def demo_disk_def NUM_def)

theorem virtio_transfer_ends_witness:
  "\<exists>s1 s2 (s5 :: trapst). virtio_disk_rw 3 True demo = Swtch s1 \<and> scheduler_back 1 s1 = Ret () s2
     \<and> world 1 s5 \<and> \<not> vd_busy (vdisk s5) 3"
proof -
  have "vd_dev_idx demo_disk = vd_used_idx demo_disk" by (simp add: demo_disk_def)
  then have "vd_dev_idx (vdisk demo) = vd_used_idx (vdisk demo)" "free_list (vdisk demo) = 0 # 1 # 2 # [3..<8]"
    "vd_ok (vdisk demo)" "(1 :: nat) < NPROC" using demo_free_list by (simp_all add: NPROC_def)
  from virtio_transfer_ends [OF demo_world(1,2) this(4,3,2,1), of 3 True] show ?thesis
    by (elim exE conjE) (intro exI conjI, assumption+)
qed

subsection \<open>A process that grows\<close>

text \<open>Process 1 with the page table of the zombie, no pages yet, and one free page.\<close>

definition young :: trapst where
  "young = zombie\<lparr>freelist := 0x80130000,
     procs := (procs zombie)(1 := (procs zombie 1)\<lparr>pagetable := 0x80110000, trapframe := 0x80113000\<rparr>)\<rparr>"

lemma one_free:
  assumes "entry m 0x80130000 0 = 0"
  shows "freelist_is m 0x80130000 [0x80130000]" and "valid_page 0x80021000 0x80130000"
  using assms by (simp_all add: entry_def valid_page_def PGSIZE_def PHYSTOP_def KERNBASE_def)

lemma young_mem: "proc_mem 1 young [0x80130000]"
proof -
  have t: "tnodes zombie_mem 0x80110000 = {0x80110000, 0x80111000, 0x80112000}" "pt_tree 0x80021000 zombie_mem 0x80110000"
    "ptrs 2 zombie_mem 0x80110000"
    using spine_tree [OF zombie_spine, of "0x80021000"] by simp_all
  have n: "npages 0 = 0" by (simp add: npages_def)
  have p: "(0x80110000 :: u64) mod PGSIZE = 0" "(0x80111000 :: u64) mod PGSIZE = 0" "(0x80112000 :: u64) mod PGSIZE = 0"
    "(0x80130000 :: u64) mod PGSIZE = 0" "unat (255 :: u64) < 512" "unat (510 :: u64) < 512" "unat (511 :: u64) < 512" "unat (0 :: u64) < 512"
    by (simp_all add: PGSIZE_def)
  have "entry zombie_mem 0x80130000 0 = 0"
    unfolding zombie_mem_def by (simp_all only: entry_st64 p zero_entry) auto
  then have k: "kmem_inv young [0x80130000]" using one_free by (simp add: kmem_inv_def young_def)
  have f: "(PA2PTE 0x80113000 OR PTE_R OR PTE_W OR PTE_V) AND PTE_V \<noteq> 0"
    "PTE_FLAGS (PA2PTE 0x80113000 OR PTE_R OR PTE_W OR PTE_V) \<noteq> PTE_V"
    "(PA2PTE 0x80007000 OR PTE_R OR PTE_X OR PTE_V) AND PTE_V \<noteq> 0"
    "PTE_FLAGS (PA2PTE 0x80007000 OR PTE_R OR PTE_X OR PTE_V) \<noteq> PTE_V"
    by code_simp+
  have "calm young" "lock_free l young" for l by (simp_all add: young_def)
  then have "proc_space young 0x80110000 [0x80130000] 0"
    using t n k f top_keys
    by (auto simp: proc_space_def aspace_def vm_inv_def zombie_leaf key_def young_def split: if_splits)
  then show ?thesis
    using t n by (simp add: proc_mem_def young_def space_pages_def valid_page_def PGSIZE_def PHYSTOP_def KERNBASE_def)
qed

theorem growproc_correct_witness:
  "\<exists>r t ys. growproc 4096 young = Ret r t \<and> proc_mem 1 t ys
     \<and> proc_pages 1 t \<union> set ys = {0x80110000, 0x80111000, 0x80112000, 0x80113000, 0x80130000}"
proof -
  have "tnodes zombie_mem 0x80110000 = {0x80110000, 0x80111000, 0x80112000}" using spine_tree(1) [OF zombie_spine, of 0] by simp
  then have "proc_pages 1 young \<union> set [0x80130000] = {0x80110000, 0x80111000, 0x80112000, 0x80113000, 0x80130000}"
    by (auto simp: proc_pages_def young_def space_pages_def npages_def)
  moreover have "cur young = Some 1" using worldD(3) [of 1 zombie] by (simp add: young_def)
  moreover have "sz (procs young 1) = 0" by (simp add: young_def)
  ultimately show ?thesis using growproc_correct [OF _ young_mem, of 4096] unfolding Let_def by fastforce
qed

subsection \<open>Two address spaces\<close>

text \<open>The first has one page, \<^verbatim>\<open>0x80113000\<close>; the second, from \<^verbatim>\<open>0x80120000\<close> on, has none; one page is free.\<close>

definition twin_mem :: mem where
  "twin_mem = st64 (st64 (st64 (st64 (st64 (\<lambda>_. 0) (0x80110000 + 8 * 0) (PA2PTE 0x80111000 OR PTE_V))
     (0x80111000 + 8 * 0) (PA2PTE 0x80112000 OR PTE_V))
     (0x80112000 + 8 * 0) (PA2PTE 0x80113000 OR PTE_R OR PTE_W OR PTE_U OR PTE_V))
     (0x80120000 + 8 * 0) (PA2PTE 0x80121000 OR PTE_V))
     (0x80121000 + 8 * 0) (PA2PTE 0x80122000 OR PTE_V)"

lemma twin_entry:
  assumes "unat i < 512"
  shows "entry twin_mem 0x80110000 i = (if i = 0 then PA2PTE 0x80111000 OR PTE_V else 0)"
    and "entry twin_mem 0x80111000 i = (if i = 0 then PA2PTE 0x80112000 OR PTE_V else 0)"
    and "entry twin_mem 0x80112000 i = (if i = 0 then PA2PTE 0x80113000 OR PTE_R OR PTE_W OR PTE_U OR PTE_V else 0)"
    and "entry twin_mem 0x80120000 i = (if i = 0 then PA2PTE 0x80121000 OR PTE_V else 0)"
    and "entry twin_mem 0x80121000 i = (if i = 0 then PA2PTE 0x80122000 OR PTE_V else 0)"
    and "entry twin_mem 0x80122000 i = 0" and "entry twin_mem 0x80130000 i = 0"
proof -
  have p: "(0x80110000 :: u64) mod PGSIZE = 0" "(0x80111000 :: u64) mod PGSIZE = 0" "(0x80112000 :: u64) mod PGSIZE = 0"
    "(0x80120000 :: u64) mod PGSIZE = 0" "(0x80121000 :: u64) mod PGSIZE = 0" "(0x80122000 :: u64) mod PGSIZE = 0"
    "(0x80130000 :: u64) mod PGSIZE = 0" "unat (0 :: u64) < 512"
    by (simp_all add: PGSIZE_def)
  note e = entry_st64 [OF _ _ assms]
  show "entry twin_mem 0x80110000 i = (if i = 0 then PA2PTE 0x80111000 OR PTE_V else 0)"
    "entry twin_mem 0x80111000 i = (if i = 0 then PA2PTE 0x80112000 OR PTE_V else 0)"
    "entry twin_mem 0x80112000 i = (if i = 0 then PA2PTE 0x80113000 OR PTE_R OR PTE_W OR PTE_U OR PTE_V else 0)"
    "entry twin_mem 0x80120000 i = (if i = 0 then PA2PTE 0x80121000 OR PTE_V else 0)"
    "entry twin_mem 0x80121000 i = (if i = 0 then PA2PTE 0x80122000 OR PTE_V else 0)"
    "entry twin_mem 0x80122000 i = 0" "entry twin_mem 0x80130000 i = 0"
    unfolding twin_mem_def by (simp_all only: e p zero_entry) auto
qed

lemma twin_spines: "spine twin_mem 0x80110000 0 0x80111000 0 0x80112000" "spine twin_mem 0x80120000 0 0x80121000 0 0x80122000"
  unfolding spine_def using twin_entry by (simp_all add: valid_page_def PGSIZE_def PHYSTOP_def KERNBASE_def)

definition twins :: trapst where
  "twins = zombie\<lparr>pmem := twin_mem, freelist := 0x80130000\<rparr>"

lemma twin_spaces:
  shows "aspace twins 0x80110000 [0x80130000] 4096 {}" and "aspace twins 0x80120000 [0x80130000] 0 {}"
    and "space_pages twin_mem 0x80110000 4096 = {0x80110000, 0x80111000, 0x80112000, 0x80113000}"
    and "space_pages twin_mem 0x80120000 0 = {0x80120000, 0x80121000, 0x80122000}"
proof -
  have f: "calm twins" "lock_free l twins" "kend twins = 0x80021000" "pmem twins = twin_mem" for l by (simp_all add: twins_def)
  have k: "kmem_inv twins [0x80130000]" using one_free twin_entry(7) [of 0] by (simp add: kmem_inv_def twins_def)
  have t: "tnodes twin_mem 0x80110000 = {0x80110000, 0x80111000, 0x80112000}" "pt_tree 0x80021000 twin_mem 0x80110000" "ptrs 2 twin_mem 0x80110000"
    "tnodes twin_mem 0x80120000 = {0x80120000, 0x80121000, 0x80122000}" "pt_tree 0x80021000 twin_mem 0x80120000" "ptrs 2 twin_mem 0x80120000"
    using spine_tree [OF twin_spines(1), of "0x80021000"] spine_tree [OF twin_spines(2), of "0x80021000"] by simp_all
  have n: "npages 4096 = 1" "npages 0 = 0" by (simp_all add: npages_def One_nat_def)
  define E where "E = PA2PTE 0x80113000 OR PTE_R OR PTE_W OR PTE_U OR PTE_V"
  have lf: "leaf twin_mem 0x80110000 va = (if key va = key 0 then E else 0)" "leaf twin_mem 0x80120000 va = 0" for va
    using spine_tree(4) [OF twin_spines(1), of 0 va] spine_tree(4) [OF twin_spines(2), of 0 va] twin_entry(3,6) [OF PX_less, of 0 va]
    by (auto simp: key_def E_def PX_def)
  have e: "E AND PTE_V \<noteq> 0" "PTE_FLAGS E \<noteq> PTE_V" "PTE2PA E = 0x80113000" unfolding E_def by code_simp+
  have ph: "phys twin_mem 0x80110000 0 0 = 0x80113000" by (simp add: phys_def lf e)
  show "space_pages twin_mem 0x80110000 4096 = {0x80110000, 0x80111000, 0x80112000, 0x80113000}"
    "space_pages twin_mem 0x80120000 0 = {0x80120000, 0x80121000, 0x80122000}"
    using t n ph by (auto simp: space_pages_def lessThan_Suc One_nat_def)
  show "aspace twins 0x80110000 [0x80130000] 4096 {}"
    using f k t n ph by (auto simp: aspace_def vm_inv_def lf e One_nat_def lessThan_Suc valid_page_def PGSIZE_def PHYSTOP_def KERNBASE_def maxva split: if_splits)
  show "aspace twins 0x80120000 [0x80130000] 0 {}"
    using f k t n by (auto simp: aspace_def vm_inv_def lf)
qed

theorem uvmcopy_correct_witness:
  "\<exists>r t ys. uvmcopy 0x80110000 0x80120000 4096 twins = Ret r t \<and> aspace t 0x80120000 ys (if r = 0 then 4096 else 0) {}
     \<and> space_pages (pmem t) 0x80120000 (if r = 0 then 4096 else 0) \<union> set ys = {0x80120000, 0x80121000, 0x80122000, 0x80130000}
     \<and> (r = 0 \<longrightarrow> PTE_FLAGS (leaf (pmem t) 0x80120000 0) = PTE_FLAGS (leaf (pmem t) 0x80110000 0))"
proof -
  have m: "pmem twins = twin_mem" by (simp add: twins_def)
  have d: "space_pages (pmem twins) 0x80110000 4096 \<inter> space_pages (pmem twins) 0x80120000 0 = {}"
    unfolding m twin_spaces(3,4) by simp
  obtain r t ys where u: "uvmcopy 0x80110000 0x80120000 4096 twins = Ret r t" "aspace t 0x80120000 ys (if r = 0 then 4096 else 0) {}"
    "space_pages (pmem t) 0x80120000 (if r = 0 then 4096 else 0) \<union> set ys = space_pages (pmem twins) 0x80120000 0 \<union> set [0x80130000]"
    "r = 0 \<longrightarrow> (\<forall>i<npages 4096. PTE_FLAGS (leaf (pmem t) 0x80120000 (pg 0 i)) = PTE_FLAGS (leaf (pmem t) 0x80110000 (pg 0 i))
        \<and> (\<forall>d. unat d < 4096 \<longrightarrow> pmem t (phys (pmem t) 0x80120000 0 i + d) = pmem t (phys (pmem t) 0x80110000 0 i + d)))"
    using uvmcopy_correct [OF twin_spaces(1,2) d] by blast
  have "npages 4096 = 1" by (simp add: npages_def One_nat_def)
  then have "r = 0 \<longrightarrow> PTE_FLAGS (leaf (pmem t) 0x80120000 (pg 0 0)) = PTE_FLAGS (leaf (pmem t) 0x80110000 (pg 0 0))"
    using u(4) by simp
  then show ?thesis
    using u(1-3) unfolding m twin_spaces(4) by (intro exI [of _ r] exI [of _ t] exI [of _ ys]) auto
qed

end
