(* ===== verification/Grep.thy ===== *)
theory Grep
  imports Prelude
begin

text \<open>
  The user program \<^verbatim>\<open>user/grep.c\<close>: the regular-expression matcher, with its termination, and the loop that
  cuts the input into lines. A C string is the list of its bytes before the NUL. A file descriptor is
  the list of the pieces in which its bytes become available; \<open>fd_read\<close> is what a \<^verbatim>\<open>read\<close> of at most \<open>k\<close>
  bytes gives. The matcher is shown to decide the language its pattern denotes, and \<open>grep\<close> to write out
  exactly the matching lines, however the input is cut into pieces.
\<close>

subsection \<open>The matcher\<close>

abbreviation "c_caret \<equiv> 94 :: u8"
abbreviation "c_dot \<equiv> 46 :: u8"
abbreviation "c_star \<equiv> 42 :: u8"
abbreviation "c_dollar \<equiv> 36 :: u8"
abbreviation "c_nl \<equiv> 10 :: u8"

function (sequential) matchhere :: "u8 list \<Rightarrow> u8 list \<Rightarrow> bool"
  and matchstar :: "u8 \<Rightarrow> u8 list \<Rightarrow> u8 list \<Rightarrow> bool" where
  "matchhere re tx =
    (if re = [] then True
     else if length re \<ge> 2 \<and> re ! 1 = c_star then matchstar (re ! 0) (drop 2 re) tx
     else if re ! 0 = c_dollar \<and> length re = 1 then tx = []
     else if tx \<noteq> [] \<and> (re ! 0 = c_dot \<or> re ! 0 = tx ! 0) then matchhere (tl re) (tl tx)
     else False)"
| "matchstar c re tx =
    (if matchhere re tx then True
     else if tx \<noteq> [] \<and> (tx ! 0 = c \<or> c = c_dot) then matchstar c re (tl tx)
     else False)"
  by pat_completeness auto
termination
  by (relation "measure (\<lambda>x. case x of Inl (re, tx) \<Rightarrow> 2 * (length re + length tx)
      | Inr (c, re, tx) \<Rightarrow> 2 * (length re + length tx) + 1)") (auto simp: neq_Nil_conv)

declare matchhere.simps [simp del] matchstar.simps [simp del]

text \<open>The \<^verbatim>\<open>do\<close> loop of \<open>match\<close> tries every suffix, the empty one included.\<close>

fun match_at :: "u8 list \<Rightarrow> u8 list \<Rightarrow> bool" where
  "match_at re tx =
    (if matchhere re tx then True else case tx of [] \<Rightarrow> False | _ # tx \<Rightarrow> match_at re tx)"

definition match :: "u8 list \<Rightarrow> u8 list \<Rightarrow> bool" where
  "match re tx =
    (if re \<noteq> [] \<and> re ! 0 = c_caret then matchhere (tl re) tx else match_at re tx)"

declare match_at.simps [simp del]

subsection \<open>Lines\<close>

text \<open>\<open>strchr(p, '\n')\<close> on the bytes of the buffer from \<open>p\<close> on: the search stops at a NUL.\<close>

fun find_nl :: "u8 list \<Rightarrow> nat option" where
  "find_nl [] = None"
| "find_nl (c # cs) = (if c = 0 then None else if c = c_nl then Some 0 else map_option Suc (find_nl cs))"

lemma find_nl_less: "find_nl p = Some k \<Longrightarrow> k < length p"
  by (induction p arbitrary: k) (auto split: if_splits)

function grep_lines :: "u8 list \<Rightarrow> u8 list \<Rightarrow> u8 list \<Rightarrow> u8 list \<times> u8 list" where
  "grep_lines pattern p out =
    (case find_nl p of
       None \<Rightarrow> (p, out)
     | Some k \<Rightarrow>
         let out = (if match pattern (take k p) then out @ take (k + 1) p else out)
         in grep_lines pattern (drop (k + 1) p) out)"
  by pat_completeness auto
termination
  by (relation "measure (\<lambda>(pattern, p, out). length p)") (auto dest: find_nl_less)

declare grep_lines.simps [simp del]

definition fd_read :: "nat \<Rightarrow> u8 list list \<Rightarrow> u8 list \<times> u8 list list" where
  "fd_read k fd =
    (case fd of [] \<Rightarrow> ([], [])
     | c # cs \<Rightarrow> if length c \<le> k then (c, cs) else (take k c, drop k c # cs))"

lemma fd_read_less: "fd_read k fd = (c, cs) \<Longrightarrow> c \<noteq> [] \<Longrightarrow> length (concat cs) < length (concat fd)"
  by (auto simp: fd_read_def split: list.splits if_splits)

text \<open>\<open>buf\<close> holds the \<open>m\<close> bytes of the buffer that are in use. The result is what is written.\<close>

function grep :: "u8 list \<Rightarrow> u8 list \<Rightarrow> u8 list list \<Rightarrow> u8 list \<Rightarrow> u8 list" where
  "grep pattern buf fd out =
    (let (c, fd) = fd_read (1024 - length buf - 1) fd
     in if c = [] then out
        else let (buf, out) = grep_lines pattern (buf @ c) out
             in grep pattern buf fd out)"
  by pat_completeness auto
termination
  by (relation "measure (\<lambda>(pattern, buf, fd, out). length (concat fd))") (auto dest: fd_read_less [OF sym])

declare grep.simps [simp del]

subsection \<open>What a pattern denotes\<close>

datatype relem = One u8 | Many u8

fun elems_of :: "u8 list \<Rightarrow> relem list \<times> bool" where
  "elems_of [] = ([], False)"
| "elems_of [c] = (if c = c_dollar then ([], True) else ([One c], False))"
| "elems_of (c # d # re) =
    (if d = c_star then (let (es, e) = elems_of re in (Many c # es, e))
     else (let (es, e) = elems_of (d # re) in (One c # es, e)))"

definition stands_for :: "u8 \<Rightarrow> u8 \<Rightarrow> bool" where
  "stands_for c d \<longleftrightarrow> c = c_dot \<or> c = d"

fun elem_lang :: "relem \<Rightarrow> u8 list set" where
  "elem_lang (One c) = {[d] |d. stands_for c d}"
| "elem_lang (Many c) = {ds. \<forall>d\<in>set ds. stands_for c d}"

primrec lang :: "relem list \<Rightarrow> u8 list set" where
  "lang [] = {[]}"
| "lang (e # es) = {u @ v |u v. u \<in> elem_lang e \<and> v \<in> lang es}"

text \<open>The text has a beginning in the language; with a final \<open>$\<close> it is that beginning.\<close>

definition begins :: "relem list \<times> bool \<Rightarrow> u8 list \<Rightarrow> bool" where
  "begins p tx \<longleftrightarrow> (\<exists>v w. tx = v @ w \<and> v \<in> lang (fst p) \<and> (snd p \<longrightarrow> w = []))"

lemma beginsI: "tx = v @ w \<Longrightarrow> v \<in> lang es \<Longrightarrow> (e \<longrightarrow> w = []) \<Longrightarrow> begins (es, e) tx"
  unfolding begins_def by auto

lemma beginsE:
  assumes "begins (es, e) tx"
  obtains v w where "tx = v @ w" and "v \<in> lang es" and "e \<longrightarrow> w = []"
  using assms unfolding begins_def by auto

lemma begins_Nil: "begins ([], e) tx \<longleftrightarrow> (e \<longrightarrow> tx = [])"
  by (auto simp: begins_def)

lemma begins_One: "begins (One c # es, e) tx \<longleftrightarrow> (case tx of [] \<Rightarrow> False | d # t \<Rightarrow> stands_for c d \<and> begins (es, e) t)"
proof (cases tx)
  case Nil
  then show ?thesis by (auto simp: begins_def)
next
  case (Cons d t)
  have "stands_for c d \<and> begins (es, e) t" if "begins (One c # es, e) (d # t)"
  proof -
    from that obtain v w where v: "d # t = v @ w" "v \<in> lang (One c # es)" "e \<longrightarrow> w = []" by (elim beginsE)
    then obtain d' v' where "v = [d'] @ v'" "stands_for c d'" "v' \<in> lang es" by auto
    then show ?thesis using v by (auto intro: beginsI)
  qed
  moreover have "begins (One c # es, e) (d # t)" if c: "stands_for c d" and b: "begins (es, e) t"
  proof -
    from b obtain v w where v: "t = v @ w" "v \<in> lang es" "e \<longrightarrow> w = []" by (elim beginsE)
    have "d # v = [d] @ v" by simp
    then have "d # v \<in> lang (One c # es)" using c v(2) by (simp only: lang.simps elem_lang.simps mem_Collect_eq) blast
    then show ?thesis using v by (intro beginsI [of _ "d # v" w]) auto
  qed
  ultimately show ?thesis using Cons by auto
qed

lemma begins_Many: "begins (Many c # es, e) tx \<longleftrightarrow> begins (es, e) tx
    \<or> (case tx of [] \<Rightarrow> False | d # t \<Rightarrow> stands_for c d \<and> begins (Many c # es, e) t)"
proof
  assume "begins (Many c # es, e) tx"
  then obtain x w where x: "tx = x @ w" "x \<in> lang (Many c # es)" "e \<longrightarrow> w = []" by (elim beginsE)
  then obtain u v where u: "x = u @ v" "\<forall>d\<in>set u. stands_for c d" "v \<in> lang es" by auto
  show "begins (es, e) tx \<or> (case tx of [] \<Rightarrow> False | d # t \<Rightarrow> stands_for c d \<and> begins (Many c # es, e) t)"
  proof (cases u)
    case Nil
    then show ?thesis using x u by (auto intro: beginsI)
  next
    case (Cons d u')
    have "u' @ v \<in> lang (Many c # es)" using u Cons by auto
    then have "begins (Many c # es, e) (u' @ v @ w)" using x(3) by (intro beginsI [of _ "u' @ v" w]) auto
    then show ?thesis using x u Cons by auto
  qed
next
  assume "begins (es, e) tx \<or> (case tx of [] \<Rightarrow> False | d # t \<Rightarrow> stands_for c d \<and> begins (Many c # es, e) t)"
  then show "begins (Many c # es, e) tx"
  proof
    assume "begins (es, e) tx"
    then obtain v w where v: "tx = v @ w" "v \<in> lang es" "e \<longrightarrow> w = []" by (elim beginsE)
    have "[] @ v \<in> lang (Many c # es)" using v(2) by fastforce
    then show ?thesis using v by (intro beginsI [of _ v w]) auto
  next
    assume "case tx of [] \<Rightarrow> False | d # t \<Rightarrow> stands_for c d \<and> begins (Many c # es, e) t"
    then obtain d t where t: "tx = d # t" "stands_for c d" "begins (Many c # es, e) t" by (cases tx) auto
    then obtain x w where x: "t = x @ w" "x \<in> lang (Many c # es)" "e \<longrightarrow> w = []" by (elim beginsE)
    then obtain u v where u: "x = u @ v" "\<forall>d\<in>set u. stands_for c d" "v \<in> lang es" by auto
    have "\<forall>x\<in>set (d # u). stands_for c x" using t(2) u(2) by simp
    then have "(d # u) @ v \<in> lang (Many c # es)"
      using u(3) by (simp only: lang.simps elem_lang.simps mem_Collect_eq) blast
    then show ?thesis using x(3) by (intro beginsI [of _ "(d # u) @ v" w]) (simp_all only: t(1) x(1) u(1) append.simps append_assoc)
  qed
qed

lemma matcher_spec:
  "matchhere re tx \<longleftrightarrow> begins (elems_of re) tx"
  "matchstar c re tx \<longleftrightarrow> begins (Many c # fst (elems_of re), snd (elems_of re)) tx"
proof (induction re tx and c re tx rule: matchhere_matchstar.induct)
  case (1 re tx)
  show ?case
  proof (cases re rule: elems_of.cases)
    case 1
    then show ?thesis by (subst matchhere.simps) (simp add: begins_def)
  next
    case (2 c)
    then show ?thesis
      using "1.IH"(2) by (subst matchhere.simps) (cases tx, auto simp: begins_One begins_Nil matchhere.simps [of "[]"] stands_for_def)
  next
    case (3 c d re')
    then show ?thesis
      using "1.IH" by (subst matchhere.simps) (cases tx, auto simp: begins_One stands_for_def split: prod.splits)
  qed
next
  case (2 c re tx)
  then show ?case
    by (subst matchstar.simps, subst begins_Many) (cases tx, auto simp: stands_for_def)
qed

lemma match_at_spec: "match_at re tx \<longleftrightarrow> (\<exists>u v. tx = u @ v \<and> matchhere re v)"
proof (induction re tx rule: match_at.induct)
  case (1 re tx)
  show ?case
  proof (cases tx)
    case (Cons d t)
    have "(\<exists>u v. tx = u @ v \<and> matchhere re v) \<longleftrightarrow> matchhere re tx \<or> (\<exists>u v. t = u @ v \<and> matchhere re v)"
      unfolding Cons by (auto simp: Cons_eq_append_conv)
    then show ?thesis using 1 Cons by (subst match_at.simps) auto
  qed (subst match_at.simps, simp)
qed

text \<open>C23: the matcher decides what its pattern denotes, for every pattern and every text: \<open>match\<close> returns 1
  exactly when the text has a part in the pattern's language, a part that begins the text if the
  pattern starts with \<open>^\<close> and ends it if the pattern ends with \<open>$\<close>. (It always returns.)\<close>

theorem match_correct:
  "match re tx \<longleftrightarrow>
    (let anchored = (re \<noteq> [] \<and> hd re = c_caret); p = elems_of (if anchored then tl re else re)
     in \<exists>u v w. tx = u @ v @ w \<and> v \<in> lang (fst p) \<and> (anchored \<longrightarrow> u = []) \<and> (snd p \<longrightarrow> w = []))"
proof (cases "re \<noteq> [] \<and> hd re = c_caret")
  case True
  then show ?thesis by (auto simp: match_def matcher_spec begins_def Let_def hd_conv_nth)
next
  case False
  then have "\<not> (re \<noteq> [] \<and> re ! 0 = c_caret)" by (auto simp: hd_conv_nth)
  then have "match re tx = match_at re tx" unfolding match_def by (rule if_not_P)
  moreover have "Let (re \<noteq> [] \<and> hd re = c_caret) f = f False" for f :: "bool \<Rightarrow> bool" using False by (simp only: Let_def)
  ultimately show ?thesis by (simp only: match_at_spec matcher_spec begins_def) (auto simp: Let_def)
qed


theorem match_correct_witness: "match [c_caret, 97, c_dot, c_dollar] [97, 98]"
proof -
  have "[97, 98] \<in> lang (fst (elems_of [97, c_dot, c_dollar]))"
    by (auto simp: stands_for_def)
  then have "\<exists>u v w. [97, 98] = u @ v @ w \<and> v \<in> lang (fst (elems_of [97, c_dot, c_dollar])) \<and> (True \<longrightarrow> u = [])
      \<and> (snd (elems_of [97, c_dot, c_dollar]) \<longrightarrow> w = [])"
    by (intro exI [of _ "[]"] exI [of _ "[97, 98]"]) (simp del: elems_of.simps)
  then show ?thesis
    using match_correct [of "[c_caret, 97, c_dot, c_dollar]" "[97, 98]"] by (simp add: Let_def del: elems_of.simps)
qed

subsection \<open>What is written\<close>

text \<open>\<open>lines_from l bs\<close>: the complete lines of \<open>l @ bs\<close> when \<open>l\<close> has no newline, and the bytes after the last
  newline.\<close>

fun lines_from :: "u8 list \<Rightarrow> u8 list \<Rightarrow> u8 list list \<times> u8 list" where
  "lines_from l [] = ([], l)"
| "lines_from l (c # cs) =
    (if c = c_nl then (l # fst (lines_from [] cs), snd (lines_from [] cs)) else lines_from (l @ [c]) cs)"

definition matching_lines :: "u8 list \<Rightarrow> u8 list list \<Rightarrow> u8 list" where
  "matching_lines pattern ls = concat (map (\<lambda>l. l @ [c_nl]) (filter (match pattern) ls))"

lemma matching_lines_append [simp]:
  "matching_lines pattern (ls @ ls') = matching_lines pattern ls @ matching_lines pattern ls'"
  by (simp add: matching_lines_def)

lemma lines_from_append:
  "lines_from l (a @ b) = (fst (lines_from l a) @ fst (lines_from (snd (lines_from l a)) b),
    snd (lines_from (snd (lines_from l a)) b))"
  by (induction l a rule: lines_from.induct) auto

lemma lines_from_line: "c_nl \<notin> set a \<Longrightarrow> lines_from l a = ([], l @ a)"
  by (induction l a rule: lines_from.induct) auto

lemma lines_from_rest: "c_nl \<notin> set l \<Longrightarrow> c_nl \<notin> set (snd (lines_from l bs))"
  by (induction l bs rule: lines_from.induct) auto

lemma lines_from_bytes: "set (snd (lines_from l bs)) \<subseteq> set l \<union> set bs"
  by (induction l bs rule: lines_from.induct) auto

lemma lines_from_start:
  "\<forall>x\<in>set (snd (lines_from l bs) # fst (lines_from l bs)). length x < n \<Longrightarrow> length l < n"
  by (induction l bs rule: lines_from.induct) (auto split: if_splits)

lemma find_nl_None: "find_nl p = None \<Longrightarrow> 0 \<notin> set p \<Longrightarrow> c_nl \<notin> set p"
  by (induction p) (auto split: if_splits)

lemma find_nl_Some:
  "find_nl p = Some k \<Longrightarrow> \<exists>b. p = take k p @ c_nl # b \<and> drop (k + 1) p = b \<and> take (k + 1) p = take k p @ [c_nl]
    \<and> c_nl \<notin> set (take k p)"
  by (induction p arbitrary: k) (auto split: if_splits)

lemma grep_lines_spec:
  "0 \<notin> set p \<Longrightarrow> grep_lines pattern p out
    = (snd (lines_from [] p), out @ matching_lines pattern (fst (lines_from [] p)))"
proof (induction pattern p out rule: grep_lines.induct)
  case (1 pattern p out)
  show ?case
  proof (cases "find_nl p")
    case None
    then show ?thesis using 1 by (simp add: grep_lines.simps lines_from_line find_nl_None matching_lines_def)
  next
    case (Some k)
    then obtain b where b: "p = take k p @ c_nl # b" "drop (k + 1) p = b" "take (k + 1) p = take k p @ [c_nl]"
      "c_nl \<notin> set (take k p)" by (blast dest: find_nl_Some)
    have l: "lines_from [] p = (take k p # fst (lines_from [] b), snd (lines_from [] b))"
      by (subst b(1)) (simp add: lines_from_append lines_from_line b(4))
    have z: "0 \<notin> set b" using 1 b(2) by (metis in_set_dropD)
    show ?thesis
      unfolding grep_lines.simps [of pattern p] Some option.case
      using 1(1) [OF Some refl] z b(2,3) l by (auto simp: Let_def matching_lines_def)
  qed
qed

lemma fd_read_concat: "concat (fst (fd_read k fd) # snd (fd_read k fd)) = concat fd"
  by (auto simp: fd_read_def split: list.splits)

lemma fd_read_pieces: "[] \<notin> set fd \<Longrightarrow> [] \<notin> set (snd (fd_read k fd))"
  by (auto simp: fd_read_def split: list.splits)

lemma fd_read_eof: "[] \<notin> set fd \<Longrightarrow> 0 < k \<Longrightarrow> fst (fd_read k fd) = [] \<longleftrightarrow> fd = []"
  by (auto simp: fd_read_def split: list.splits)

lemma grep_spec:
  assumes "c_nl \<notin> set buf" and "0 \<notin> set (buf @ concat fd)" and "[] \<notin> set fd"
    and "\<forall>l\<in>set (snd (lines_from buf (concat fd)) # fst (lines_from buf (concat fd))). length l < 1023"
  shows "grep pattern buf fd out = out @ matching_lines pattern (fst (lines_from buf (concat fd)))"
  using assms
proof (induction pattern buf fd out rule: grep.induct)
  case (1 pattern buf fd out)
  let ?k = "1024 - length buf - 1"
  obtain c fd' where r: "fd_read ?k fd = (c, fd')" by fastforce
  have k: "0 < ?k" using lines_from_start [OF 1(5)] by simp
  show ?case
  proof (cases "c = []")
    case True
    then have "fd = []" using fd_read_eof [OF 1(4) k] r by simp
    then show ?thesis using True r by (subst grep.simps) (simp add: matching_lines_def)
  next
    case False
    have cc: "concat fd = c @ concat fd'" using fd_read_concat [of ?k fd] r by simp
    let ?ls = "fst (lines_from buf c)" and ?r = "snd (lines_from buf c)"
    have l: "lines_from [] (buf @ c) = lines_from buf c"
      using 1(2) by (simp add: lines_from_append lines_from_line)
    have g: "grep_lines pattern (buf @ c) out = (?r, out @ matching_lines pattern ?ls)"
      using grep_lines_spec [of "buf @ c" pattern out] 1(3) cc l by simp
    have t: "lines_from buf (concat fd)
        = (?ls @ fst (lines_from ?r (concat fd')), snd (lines_from ?r (concat fd')))"
      unfolding cc by (rule lines_from_append)
    have "grep pattern ?r fd' (out @ matching_lines pattern ?ls)
        = (out @ matching_lines pattern ?ls) @ matching_lines pattern (fst (lines_from ?r (concat fd')))"
    proof (rule 1(1) [OF r [symmetric] refl False g [symmetric] refl])
      show "c_nl \<notin> set ?r" using 1(2) by (rule lines_from_rest)
      show "0 \<notin> set (?r @ concat fd')" using 1(3) cc lines_from_bytes [of buf c] by auto
      show "[] \<notin> set fd'" using fd_read_pieces [OF 1(4), of ?k] r by simp
      show "\<forall>l\<in>set (snd (lines_from ?r (concat fd')) # fst (lines_from ?r (concat fd'))). length l < 1023"
        using 1(5) unfolding t by simp
    qed
    then show ?thesis using False g t r by (subst grep.simps) simp
  qed
qed

text \<open>C24: \<open>grep\<close> writes the lines that match, each with its newline, in order and nothing else, whatever the
  sizes of the pieces in which \<^verbatim>\<open>read\<close> returns the input. This needs an input without NUL bytes whose lines
  have fewer than 1023 bytes (a longer line fills the buffer, and the loop ends there). The bytes after
  the last newline are never looked at.\<close>

theorem grep_correct:
  assumes "0 \<notin> set (concat fd)" and "[] \<notin> set fd"
    and "\<forall>l\<in>set (snd (lines_from [] (concat fd)) # fst (lines_from [] (concat fd))). length l < 1023"
  shows "grep pattern [] fd [] = matching_lines pattern (fst (lines_from [] (concat fd)))"
  using grep_spec [of "[]" fd pattern "[]"] assms by simp

theorem grep_correct_witness:
  "grep [97, c_star, 98] [] [[120, 98, c_nl, 99], [99, c_nl, 97], [97]] [] = [120, 98, c_nl]"
proof -
  have "grep [97, c_star, 98] [] [[120, 98, c_nl, 99], [99, c_nl, 97], [97]] []
      = matching_lines [97, c_star, 98] (fst (lines_from [] (concat [[120, 98, c_nl, 99], [99, c_nl, 97], [97]])))"
    by (rule grep_correct) simp_all
  then show ?thesis
    by (simp add: matching_lines_def match_def match_at.simps matchhere.simps matchstar.simps)
qed

end
