(* ===== verification/Ulib.thy ===== *)
theory Ulib
  imports Memory Digits Grep
begin

unbundle bit_operations_syntax

text \<open>
  The user library: the string and memory routines of \<^verbatim>\<open>user/ulib.c\<close> (\<open>atoi\<close> is in \<open>Digits\<close>) and the
  formatted output of \<^verbatim>\<open>user/printf.c\<close>. The names carry a \<open>u_\<close> where the kernel has a routine of the
  same name. A pointer that is only indexed is the array of bytes from it on, a string argument that is
  only searched the list of its bytes before the NUL; what a program writes to a descriptor is a list of bytes.
\<close>

subsection \<open>Strings\<close>

text \<open>The loops that look for a NUL run on when there is none.\<close>

partial_function (option) strcpy_from :: "(nat \<Rightarrow> u8) \<Rightarrow> (nat \<Rightarrow> u8) \<Rightarrow> nat \<Rightarrow> (nat \<Rightarrow> u8) option" where
  "strcpy_from s t i = (let s = s(i := t i) in if t i \<noteq> 0 then strcpy_from s t (Suc i) else Some s)"

definition strcpy :: "(nat \<Rightarrow> u8) \<Rightarrow> (nat \<Rightarrow> u8) \<Rightarrow> (nat \<Rightarrow> u8) option" where
  "strcpy s t = strcpy_from s t 0"

partial_function (option) strcmp_from :: "(nat \<Rightarrow> u8) \<Rightarrow> (nat \<Rightarrow> u8) \<Rightarrow> nat \<Rightarrow> int option" where
  "strcmp_from p q i =
    (if p i \<noteq> 0 \<and> p i = q i then strcmp_from p q (Suc i) else Some (uint (p i) - uint (q i)))"

definition strcmp :: "(nat \<Rightarrow> u8) \<Rightarrow> (nat \<Rightarrow> u8) \<Rightarrow> int option" where
  "strcmp p q = strcmp_from p q 0"

text \<open>The index of the first \<open>c\<close>; a NUL is never found.\<close>

primrec strchr :: "u8 list \<Rightarrow> u8 \<Rightarrow> nat option" where
  "strchr [] c = None"
| "strchr (x # xs) c = (if x = c then Some 0 else map_option Suc (strchr xs c))"

lemma strchr_mem [simp]: "strchr xs c = None \<longleftrightarrow> c \<notin> set xs"
  by (induction xs) auto

subsection \<open>Memory\<close>

definition u_memset :: "mem \<Rightarrow> u64 \<Rightarrow> int \<Rightarrow> u32 \<Rightarrow> mem" where
  "u_memset m dst c n = set_bytes m dst (of_int c) (unat n)"

definition u_memmove :: "mem \<Rightarrow> u64 \<Rightarrow> u64 \<Rightarrow> int \<Rightarrow> mem" where
  "u_memmove m d s n =
    (if s > d then copy_up m d s (nat n)
     else copy_down m (d + of_int n) (s + of_int n) (nat n))"

definition u_memcpy :: "mem \<Rightarrow> u64 \<Rightarrow> u64 \<Rightarrow> u32 \<Rightarrow> mem" where
  "u_memcpy m d s n = u_memmove m d s (sint n)"

definition u_memcmp :: "(nat \<Rightarrow> u8) \<Rightarrow> (nat \<Rightarrow> u8) \<Rightarrow> u32 \<Rightarrow> int" where
  "u_memcmp p q n = memcmp_loop p q 0 (unat n)"

subsection \<open>gets\<close>

text \<open>The loop: \<open>i\<close> characters are in the buffer, which is returned with the rest of the input.\<close>

function gets_loop :: "(nat \<Rightarrow> u8) \<Rightarrow> int \<Rightarrow> nat \<Rightarrow> u8 list list \<Rightarrow> (nat \<Rightarrow> u8) \<times> u8 list list" where
  "gets_loop buf mx i fd =
    (if int i + 1 < mx then
       case fd_read 1 fd of
         ([], fd) \<Rightarrow> (buf(i := 0), fd)
       | (c # _, fd) \<Rightarrow>
           let buf = buf(i := c)
           in if c = 10 \<or> c = 13 then (buf(Suc i := 0), fd) else gets_loop buf mx (Suc i) fd
     else (buf(i := 0), fd))"
  by pat_completeness auto
termination
  by (relation "measure (\<lambda>(buf, mx, i, fd). nat (mx - int i))") auto

declare gets_loop.simps [simp del]

definition gets :: "(nat \<Rightarrow> u8) \<Rightarrow> int \<Rightarrow> u8 list list \<Rightarrow> (nat \<Rightarrow> u8) \<times> u8 list list" where
  "gets buf mx fd = gets_loop buf mx 0 fd"

text \<open>\<open>stat\<close>: the system calls are parameters; \<open>sys_open\<close>, \<open>sys_fstat\<close> and \<open>sys_close\<close> pass the kernel's state on.\<close>

definition u_stat ::
  "('s \<Rightarrow> int \<times> 's) \<Rightarrow> (int \<Rightarrow> 's \<Rightarrow> int \<times> 's) \<Rightarrow> (int \<Rightarrow> 's \<Rightarrow> int \<times> 's) \<Rightarrow> 's \<Rightarrow> int \<times> 's" where
  "u_stat sys_open sys_fstat sys_close s =
    (let (fd, s) = sys_open s
     in if fd < 0 then (-1, s)
        else let (r, s) = sys_fstat fd s; (_, s) = sys_close fd s in (r, s))"

subsection \<open>Formatted output\<close>

definition udigits :: "u8 list" where
  "udigits = bytes ''0123456789ABCDEF''"

definition u_printint :: "u32 \<Rightarrow> u32 \<Rightarrow> bool \<Rightarrow> u8 list" where
  "u_printint xx base sign = rev (int_buf udigits xx base sign)"

definition u_printptr :: "u64 \<Rightarrow> u8 list" where
  "u_printptr x = [48, 120] @ ptr_digits udigits 16 x"

text \<open>An argument as \<^verbatim>\<open>va_arg\<close> reads it, as a number or as the address of a string.\<close>

record u_slot =
  ua_word :: u64
  ua_str :: "u8 list option"

text \<open>The loop of \<open>vprintf\<close>; \<open>state\<close> is 0 or 37, the percent sign.\<close>

fun vprintf_loop :: "u8 list \<Rightarrow> u8 \<Rightarrow> (nat \<Rightarrow> u_slot) \<Rightarrow> nat \<Rightarrow> u8 list" where
  "vprintf_loop [] state ap n = []"
| "vprintf_loop (c # fmt) state ap n =
    (if state = 0 then
       if c = 37 then vprintf_loop fmt 37 ap n else c # vprintf_loop fmt 0 ap n
     else if state = 37 then
       if c = 100 then u_printint (ucast (ua_word (ap n))) 10 True @ vprintf_loop fmt 0 ap (n + 1)
       else if c = 108 then u_printint (ucast (ua_word (ap n))) 10 False @ vprintf_loop fmt 0 ap (n + 1)
       else if c = 120 then u_printint (ucast (ua_word (ap n))) 16 False @ vprintf_loop fmt 0 ap (n + 1)
       else if c = 112 then u_printptr (ua_word (ap n)) @ vprintf_loop fmt 0 ap (n + 1)
       else if c = 115 then
         (case ua_str (ap n) of None \<Rightarrow> bytes ''(null)'' | Some s \<Rightarrow> s) @ vprintf_loop fmt 0 ap (n + 1)
       else if c = 99 then ucast (ua_word (ap n)) # vprintf_loop fmt 0 ap (n + 1)
       else if c = 37 then c # vprintf_loop fmt 0 ap n
       else 37 # c # vprintf_loop fmt 0 ap n
     else vprintf_loop fmt state ap n)"

definition vprintf :: "u8 list \<Rightarrow> (nat \<Rightarrow> u_slot) \<Rightarrow> u8 list" where
  "vprintf fmt ap = vprintf_loop fmt 0 ap 0"

end
