(* ===== verification/Usys.thy ===== *)
theory Usys
  imports Ulib Sysfile
begin

text \<open>
  User programs as trees of system calls: a program has exited, or makes a system call and goes on
  according to the answer. What it does between two calls is in the functions that build the tree.
  A string that is passed is the list of its bytes. A loop that a user or a file may keep going
  for ever has fuel, and \<open>Cut\<close> is where it has run out. The second part says how the calls act on the
  descriptors of the process.
\<close>

subsection \<open>Programs\<close>

datatype call =
    Sys_open "u8 list" u32
  | Sys_close int
  | Sys_read int nat
  | Sys_write int "u8 list"
  | Sys_dup int
  | Sys_pipe
  | Sys_fork
  | Sys_wait
  | Sys_exec "u8 list" "u8 list list"
  | Sys_chdir "u8 list"
  | Sys_fstat int
  | Sys_mknod "u8 list" int int
  | Sys_mkdir "u8 list"
  | Sys_unlink "u8 list"
  | Sys_link "u8 list" "u8 list"
  | Sys_kill int
  | Sys_sleep int

text \<open>The answer: the value of the call, and what it stores in memory (bytes read, the two descriptors of a pipe,
  the fields of a \<^verbatim>\<open>struct stat\<close>).\<close>

record answer =
  rv :: int
  rbytes :: "u8 list"
  rfds :: "int \<times> int"
  rstat :: fstat

datatype prog = Exit int | Sys call "answer \<Rightarrow> prog" | Cut

text \<open>\<open>printf\<close> and \<open>fprintf\<close> write byte by byte.\<close>

primrec emit :: "int \<Rightarrow> u8 list \<Rightarrow> prog \<Rightarrow> prog" where
  "emit fd [] k = k"
| "emit fd (c # cs) k = Sys (Sys_write fd [c]) (\<lambda>_. emit fd cs k)"

definition arg_s :: "u8 list \<Rightarrow> u_slot" where "arg_s s = \<lparr>ua_word = 0, ua_str = Some s\<rparr>"
definition arg_d :: "int \<Rightarrow> u_slot" where "arg_d n = \<lparr>ua_word = of_int n, ua_str = None\<rparr>"

definition fprintf :: "int \<Rightarrow> string \<Rightarrow> u_slot list \<Rightarrow> prog \<Rightarrow> prog" where
  "fprintf fd fmt args k = emit fd (vprintf (bytes fmt) (\<lambda>i. args ! i)) k"

text \<open>The same with a newline at the end of the format.\<close>

definition fprintln :: "int \<Rightarrow> string \<Rightarrow> u_slot list \<Rightarrow> prog \<Rightarrow> prog" where
  "fprintln fd fmt args k = emit fd (vprintf (bytes fmt @ [10]) (\<lambda>i. args ! i)) k"

text \<open>\<open>stat\<close> of the library: open, fstat, close.\<close>

definition stat_call :: "u8 list \<Rightarrow> (answer \<Rightarrow> prog) \<Rightarrow> prog" where
  "stat_call path k =
    Sys (Sys_open path O_RDONLY) (\<lambda>a.
    if rv a < 0 then k (a\<lparr>rv := -1\<rparr>)
    else Sys (Sys_fstat (rv a)) (\<lambda>b. Sys (Sys_close (rv a)) (\<lambda>_. k b)))"

subsection \<open>The descriptors of a process\<close>

text \<open>A descriptor refers to a file that was there at the start, to one end of a pipe, or to a file that was opened.
  A pipe has the history of the process that made it for its name: the answers it got from \<^verbatim>\<open>fork\<close>, 0 as the child and 1 as
  the parent, so no two pipes have the same name.\<close>

datatype ofd = Inherited nat | Pipe_read "nat list" | Pipe_write "nat list" | Opened "u8 list" u32

type_synonym fds = "nat \<Rightarrow> ofd option"

definition lowest :: "(nat \<Rightarrow> 'f option) \<Rightarrow> nat option" where
  "lowest t = find (\<lambda>i. t i = None) [0..<NOFILE]"

definition answers :: "int \<Rightarrow> answer" where
  "answers v = \<lparr>rv = v, rbytes = [], rfds = (0, 0), rstat = \<lparr>st_dev = 0, st_ino = 0, st_type = 0, st_nlink = 0, st_size = 0\<rparr>\<rparr>"

text \<open>One call: the kernel may refuse those that need resources. A \<^verbatim>\<open>fork\<close> has the parent and the child as successors.\<close>

inductive ustep :: "prog \<times> fds \<times> nat list \<Rightarrow> prog \<times> fds \<times> nat list \<Rightarrow> bool" where
  us_open: "lowest t = Some i \<Longrightarrow> ustep (Sys (Sys_open path mode) k, t, h) (k (answers (int i)), t(i \<mapsto> Opened path mode), h)"
| us_open_fail: "ustep (Sys (Sys_open path mode) k, t, h) (k (answers (-1)), t, h)"
| us_close: "0 \<le> fd \<Longrightarrow> t (nat fd) \<noteq> None \<Longrightarrow> ustep (Sys (Sys_close fd) k, t, h) (k (answers 0), t(nat fd := None), h)"
| us_close_fail: "fd < 0 \<or> t (nat fd) = None \<Longrightarrow> ustep (Sys (Sys_close fd) k, t, h) (k (answers (-1)), t, h)"
| us_dup: "0 \<le> fd \<Longrightarrow> t (nat fd) = Some f \<Longrightarrow> lowest t = Some i \<Longrightarrow> ustep (Sys (Sys_dup fd) k, t, h) (k (answers (int i)), t(i \<mapsto> f), h)"
| us_dup_fail: "fd < 0 \<or> t (nat fd) = None \<or> lowest t = None \<Longrightarrow> ustep (Sys (Sys_dup fd) k, t, h) (k (answers (-1)), t, h)"
| us_pipe: "lowest t = Some i \<Longrightarrow> lowest (t(i \<mapsto> Pipe_read h)) = Some j \<Longrightarrow> ustep (Sys Sys_pipe k, t, h)
    (k ((answers 0)\<lparr>rfds := (int i, int j)\<rparr>), t(i \<mapsto> Pipe_read h, j \<mapsto> Pipe_write h), h)"
| us_pipe_fail: "ustep (Sys Sys_pipe k, t, h) (k (answers (-1)), t, h)"
| us_fork_child: "ustep (Sys Sys_fork k, t, h) (k (answers 0), t, h @ [0])"
| us_fork_parent: "0 < n \<Longrightarrow> ustep (Sys Sys_fork k, t, h) (k (answers n), t, h @ [1])"
| us_fork_fail: "ustep (Sys Sys_fork k, t, h) (k (answers (-1)), t, h)"
| us_exec_fail: "ustep (Sys (Sys_exec path argv) k, t, h) (k (answers (-1)), t, h)"
| us_other: "(case c of Sys_read _ _ \<Rightarrow> True | Sys_write _ _ \<Rightarrow> True | Sys_wait \<Rightarrow> True | Sys_chdir _ \<Rightarrow> True | Sys_fstat _ \<Rightarrow> True
    | Sys_mknod _ _ _ \<Rightarrow> True | Sys_mkdir _ \<Rightarrow> True | Sys_unlink _ \<Rightarrow> True | Sys_link _ _ \<Rightarrow> True | Sys_kill _ \<Rightarrow> True | Sys_sleep _ \<Rightarrow> True
    | _ \<Rightarrow> False) \<Longrightarrow> ustep (Sys c k, t, h) (k a, t, h)"

inductive_simps ustep_simps:
  "ustep (Exit n, t, h) r" "ustep (Cut, t, h) r" "ustep (Sys (Sys_open path mode) k, t, h) r" "ustep (Sys (Sys_close fd) k, t, h) r"
  "ustep (Sys (Sys_dup fd) k, t, h) r" "ustep (Sys Sys_pipe k, t, h) r" "ustep (Sys Sys_fork k, t, h) r"
  "ustep (Sys Sys_wait k, t, h) r" "ustep (Sys (Sys_write fd bs) k, t, h) r" "ustep (Sys (Sys_exec path argv) k, t, h) r"

text \<open>What a process and its children execute, and with which descriptors.\<close>

definition runs :: "prog \<Rightarrow> fds \<Rightarrow> nat list \<Rightarrow> (u8 list \<times> u8 list list \<times> fds) set" where
  "runs p t h = {(path, argv, t'). \<exists>k h'. ustep\<^sup>*\<^sup>* (p, t, h) (Sys (Sys_exec path argv) k, t', h')}"

lemma runs_step: "runs p t h = {(path, argv, t'). t' = t \<and> (\<exists>k. p = Sys (Sys_exec path argv) k)}
    \<union> (\<Union>r\<in>{r. ustep (p, t, h) r}. runs (fst r) (fst (snd r)) (snd (snd r)))"
proof -
  have "(path, argv, t') \<in> runs p t h \<longleftrightarrow> (t' = t \<and> (\<exists>k. p = Sys (Sys_exec path argv) k))
      \<or> (\<exists>r. ustep (p, t, h) r \<and> (path, argv, t') \<in> runs (fst r) (fst (snd r)) (snd (snd r)))" for path argv t'
    unfolding runs_def by (auto elim: converse_rtranclpE intro: converse_rtranclp_into_rtranclp)
  then show ?thesis by fast
qed

text \<open>A call that is not \<^verbatim>\<open>exec\<close> passes on what its successors execute.\<close>

lemma runs_call: "(\<And>path argv. c \<noteq> Sys_exec path argv) \<Longrightarrow> {r. ustep (Sys c k, t, h) r} = S
    \<Longrightarrow> runs (Sys c k) t h = (\<Union>r\<in>S. runs (fst r) (fst (snd r)) (snd (snd r)))"
  by (subst runs_step) auto

lemma runs_end [simp]: "runs (Exit n) t h = {}" "runs Cut t h = {}"
  by (subst runs_step, simp add: ustep_simps)+

lemma runs_exec: "runs (Sys (Sys_exec path argv) k) t h = insert (path, argv, t) (runs (k (answers (-1))) t h)"
  by (subst runs_step) (auto simp: ustep_simps)

lemma runs_close: "0 \<le> fd \<Longrightarrow> t (nat fd) \<noteq> None \<Longrightarrow> runs (Sys (Sys_close fd) k) t h = runs (k (answers 0)) (t(nat fd := None)) h"
  by (subst runs_step) (auto simp: ustep_simps)

lemma runs_open: "lowest t = Some i \<Longrightarrow> runs (Sys (Sys_open path mode) k) t h
    = runs (k (answers (int i))) (t(i \<mapsto> Opened path mode)) h \<union> runs (k (answers (-1))) t h"
  by (subst runs_step) (auto simp: ustep_simps)

lemma runs_dup: "0 \<le> fd \<Longrightarrow> t (nat fd) = Some f \<Longrightarrow> lowest t = Some i \<Longrightarrow> runs (Sys (Sys_dup fd) k) t h = runs (k (answers (int i))) (t(i \<mapsto> f)) h"
  by (subst runs_step) (auto simp: ustep_simps)

lemma runs_pipe: "lowest t = Some i \<Longrightarrow> lowest (t(i \<mapsto> Pipe_read h)) = Some j \<Longrightarrow> runs (Sys Sys_pipe k) t h
    = runs (k ((answers 0)\<lparr>rfds := (int i, int j)\<rparr>)) (t(i \<mapsto> Pipe_read h, j \<mapsto> Pipe_write h)) h \<union> runs (k (answers (-1))) t h"
  by (subst runs_step) (auto simp: ustep_simps)

lemma runs_fork: "runs (Sys Sys_fork k) t h = runs (k (answers 0)) t (h @ [0])
    \<union> (\<Union>n\<in>{0<..}. runs (k (answers n)) t (h @ [1])) \<union> runs (k (answers (-1))) t h"
proof -
  have s: "{r. ustep (Sys Sys_fork k, t, h) r} = {(k (answers 0), t, h @ [0])} \<union> (\<lambda>n. (k (answers n), t, h @ [1])) ` {0<..} \<union> {(k (answers (-1)), t, h)}"
    by (auto simp: ustep_simps)
  show ?thesis by (subst runs_call [OF _ s]) auto
qed

lemma runs_wait: "runs (Sys Sys_wait k) t h = (\<Union>a. runs (k a) t h)"
proof -
  have s: "{r. ustep (Sys Sys_wait k, t, h) r} = range (\<lambda>a. (k a, t, h))" by (auto simp: ustep_simps)
  show ?thesis by (subst runs_call [OF _ s]) auto
qed

lemma runs_emit [simp]: "runs (emit fd bs k) t h = runs k t h"
proof (induction bs)
  case (Cons c bs)
  have s: "{r. ustep (Sys (Sys_write fd [c]) (\<lambda>_. emit fd bs k), t, h) r} = {(emit fd bs k, t, h)}" by (auto simp: ustep_simps)
  show ?case unfolding emit.simps by (subst runs_call [OF _ s]) (simp_all add: Cons)
qed simp

lemma runs_fprintf [simp]: "runs (fprintf fd fmt args k) t h = runs k t h" "runs (fprintln fd fmt args k) t h = runs k t h"
  by (simp_all add: fprintf_def fprintln_def)

end
