(* ===== verification/Shell.thy ===== *)
theory Shell
  imports Ulib Sysfile
begin

unbundle bit_operations_syntax

text \<open>
  The shell's parser, \<^verbatim>\<open>user/sh.c\<close>. The command line is a buffer of bytes without NUL; a pointer into it is
  an index, \<open>ch\<close> reads the NUL at the end, and the pointer \<^verbatim>\<open>es\<close>, which every routine gets, is the length. A string of the command is the pair of its first index
  and the index after its last character, until \<open>nulterminate\<close> writes a NUL there. \<open>panic\<close>, which ends
  the shell's child, is \<open>Syntax\<close> with its message. The mutually recursive descent takes fuel, of which the
  length of the line is shown to be enough.
\<close>

subsection \<open>Commands\<close>

type_synonym span = "nat \<times> nat"

datatype cmd =
    EXEC "span list"
  | REDIR cmd nat nat u32 int
  | PIPE cmd cmd
  | LIST cmd cmd
  | BACK cmd

definition MAXARGS :: nat where "MAXARGS = 10"

text \<open>The command under construction in \<open>parseexec\<close> may already be wrapped in redirections: a new argument
  goes to the innermost command, which \<^verbatim>\<open>cmd\<close> still points to.\<close>

primrec add_arg :: "span \<Rightarrow> cmd \<Rightarrow> cmd" where
  "add_arg a (EXEC as) = EXEC (as @ [a])"
| "add_arg a (REDIR c q eq mode fd) = REDIR (add_arg a c) q eq mode fd"
| "add_arg a (PIPE l r) = PIPE l r"
| "add_arg a (LIST l r) = LIST l r"
| "add_arg a (BACK c) = BACK c"

datatype 'a parse = Parsed 'a | Syntax string | Fuel

fun pbind :: "'a parse \<Rightarrow> ('a \<Rightarrow> 'b parse) \<Rightarrow> 'b parse" where
  "pbind (Parsed x) f = f x"
| "pbind (Syntax e) f = Syntax e"
| "pbind Fuel f = Fuel"

lemma pbind_cong [fundef_cong]:
  "p = q \<Longrightarrow> (\<And>x. q = Parsed x \<Longrightarrow> f x = g x) \<Longrightarrow> pbind p f = pbind q g"
  by (cases q) simp_all

lemma pbind_eq_Parsed: "pbind p f = Parsed y \<longleftrightarrow> (\<exists>x. p = Parsed x \<and> f x = Parsed y)"
  by (cases p) auto

subsection \<open>Tokens\<close>

abbreviation "t_bar \<equiv> 124 :: u8"
abbreviation "t_lp \<equiv> 40 :: u8"
abbreviation "t_rp \<equiv> 41 :: u8"
abbreviation "t_semi \<equiv> 59 :: u8"
abbreviation "t_amp \<equiv> 38 :: u8"
abbreviation "t_lt \<equiv> 60 :: u8"
abbreviation "t_gt \<equiv> 62 :: u8"
abbreviation "t_plus \<equiv> 43 :: u8"
abbreviation "t_word \<equiv> 97 :: u8"

definition whitespace :: "u8 list" where "whitespace = [32, 9, 13, 10, 11]"
definition symbols :: "u8 list" where "symbols = [t_lt, t_bar, t_gt, t_amp, t_semi, t_lp, t_rp]"

definition ch :: "u8 list \<Rightarrow> nat \<Rightarrow> u8" where
  "ch buf i = (if i < length buf then buf ! i else 0)"

function skip_ws :: "u8 list \<Rightarrow> nat \<Rightarrow> nat" where
  "skip_ws buf s = (if s < length buf \<and> strchr whitespace (ch buf s) \<noteq> None then skip_ws buf (s + 1) else s)"
  by pat_completeness auto
termination by (relation "measure (\<lambda>(buf, s). length buf - s)") auto

function skip_word :: "u8 list \<Rightarrow> nat \<Rightarrow> nat" where
  "skip_word buf s =
    (if s < length buf \<and> strchr whitespace (ch buf s) = None \<and> strchr symbols (ch buf s) = None then skip_word buf (s + 1)
     else s)"
  by pat_completeness auto
termination by (relation "measure (\<lambda>(buf, s). length buf - s)") auto

declare skip_ws.simps [simp del] skip_word.simps [simp del]

text \<open>\<open>gettoken\<close>: the kind of the token, its first index, the index after it, and where the next one starts.
  A word has the kind \<^verbatim>\<open>'a'\<close>, the redirection \<^verbatim>\<open>>>\<close> the kind \<^verbatim>\<open>'+'\<close>.\<close>

definition gettoken :: "u8 list \<Rightarrow> nat \<Rightarrow> u8 \<times> nat \<times> nat \<times> nat" where
  "gettoken buf s =
    (let q = skip_ws buf s; c = ch buf q;
         (ret, e) =
           (if c = 0 then (c, q)
            else if c \<in> {t_bar, t_lp, t_rp, t_semi, t_amp, t_lt}
            then (c, q + 1)
            else if c = t_gt then
              if ch buf (q + 1) = t_gt then (t_plus, q + 2) else (c, q + 1)
            else (t_word, skip_word buf q))
     in (ret, q, e, skip_ws buf e))"

definition peek :: "u8 list \<Rightarrow> nat \<Rightarrow> u8 list \<Rightarrow> bool \<times> nat" where
  "peek buf s toks =
    (let s = skip_ws buf s in (ch buf s \<noteq> 0 \<and> strchr toks (ch buf s) \<noteq> None, s))"

lemma skip_ws_ge: "s \<le> skip_ws buf s"
  by (induction buf s rule: skip_ws.induct) (subst skip_ws.simps, auto)

lemma skip_ws_le: "s \<le> length buf \<Longrightarrow> skip_ws buf s \<le> length buf"
  by (induction buf s rule: skip_ws.induct) (subst skip_ws.simps, auto)

lemma skip_word_ge: "s \<le> skip_word buf s"
  by (induction buf s rule: skip_word.induct) (subst skip_word.simps, auto)

lemma gettoken_ge: "gettoken buf s = (r, q, e, s') \<Longrightarrow> skip_ws buf s \<le> s' \<and> s \<le> s'"
  using skip_ws_ge [of s buf] skip_ws_ge [of e buf] skip_word_ge [of "skip_ws buf s" buf]
  by (auto simp: gettoken_def Let_def split: if_splits)

lemma peek_ge: "peek buf s toks = (b, s') \<Longrightarrow> s \<le> s' \<and> (b \<longrightarrow> ch buf s' \<noteq> 0 \<and> s' < length buf)"
  using skip_ws_ge [of s buf] by (auto simp: peek_def Let_def ch_def split: if_splits)

lemma ch_end: "ch buf i \<noteq> 0 \<Longrightarrow> i < length buf"
  by (simp add: ch_def split: if_splits)

lemma skip_ws_stop: "skip_ws buf s < length buf \<Longrightarrow> ch buf (skip_ws buf s) \<notin> set whitespace"
  by (induction buf s rule: skip_ws.induct) (subst (asm) (3) skip_ws.simps, subst skip_ws.simps, auto split: if_splits)

lemma gettoken_advance: "gettoken buf s = (r, q, e, s') \<Longrightarrow> r \<noteq> 0 \<Longrightarrow>
    skip_ws buf s < s' \<and> skip_ws buf s < length buf"
proof -
  assume h: "gettoken buf s = (r, q, e, s')" "r \<noteq> 0"
  let ?q = "skip_ws buf s"
  have c: "ch buf ?q \<noteq> 0" using h(1,2) by (auto simp: gettoken_def Let_def split: if_splits)
  then have lt: "?q < length buf" using ch_end by blast
  have "?q < skip_word buf ?q" if "ch buf ?q \<notin> set symbols"
  proof -
    have "skip_word buf ?q = skip_word buf (?q + 1)"
      using that lt skip_ws_stop [OF lt] by (subst skip_word.simps) simp
    then show ?thesis using skip_word_ge [of "?q + 1" buf] by simp
  qed
  then have "?q < e" using h(1) c by (auto simp: gettoken_def Let_def symbols_def split: if_splits)
  moreover have "s' = skip_ws buf e" using h(1) by (auto simp: gettoken_def Let_def split: prod.splits)
  ultimately show ?thesis using lt skip_ws_ge [of e buf] by simp
qed

lemma gettoken_step: "gettoken buf s = (r, q, e, s') \<Longrightarrow>
    s \<le> s' \<and> (r \<noteq> 0 \<longrightarrow> s < s' \<and> s < length buf)"
  using gettoken_ge [of buf s r q e s'] gettoken_advance [of buf s r q e s'] skip_ws_ge [of s buf] by auto

lemma skip_ws_idem [simp]: "skip_ws buf (skip_ws buf s) = skip_ws buf s"
proof (induction buf s rule: skip_ws.induct)
  case (1 buf s)
  show ?case
  proof (cases "s < length buf \<and> strchr whitespace (ch buf s) \<noteq> None")
    case True
    then show ?thesis using 1 by (simp add: skip_ws.simps [of buf s])
  next
    case False
    then have "skip_ws buf s = s" by (subst skip_ws.simps) auto
    then show ?thesis by simp
  qed
qed

lemma peek_token: "peek buf s toks = (True, s') \<Longrightarrow> gettoken buf s' = (r, q, e, s'') \<Longrightarrow> r \<noteq> 0 \<and> s' < s''"
proof -
  assume h: "peek buf s toks = (True, s')" "gettoken buf s' = (r, q, e, s'')"
  have "ch buf (skip_ws buf s') \<noteq> 0" using h(1) by (auto simp: peek_def Let_def)
  then have "r \<noteq> 0" using h(2) by (auto simp: gettoken_def Let_def split: if_splits)
  then show ?thesis using gettoken_step [OF h(2)] by simp
qed

subsection \<open>The parser\<close>

definition redir_of :: "u8 \<Rightarrow> cmd \<Rightarrow> span \<Rightarrow> cmd" where
  "redir_of tok c w =
    (if tok = t_lt then REDIR c (fst w) (snd w) O_RDONLY 0
     else if tok = t_gt then REDIR c (fst w) (snd w) (O_WRONLY OR O_CREATE OR O_TRUNC) 1
     else if tok = t_plus then REDIR c (fst w) (snd w) (O_WRONLY OR O_CREATE) 1
     else c)"

text \<open>The loops of the parser end because each turn takes a token. A pair is a
  command and the place behind it.\<close>

function parseredirs :: "u8 list \<Rightarrow> cmd \<Rightarrow> nat \<Rightarrow> (cmd \<times> nat) parse" where
  "parseredirs buf cmd s =
    (let (found, s) = peek buf s [t_lt, t_gt]
     in if found then
          let (tok, _, _, s) = gettoken buf s; (w, q, eq, s) = gettoken buf s
          in if w \<noteq> t_word then Syntax ''missing file for redirection''
             else parseredirs buf (redir_of tok cmd (q, eq)) s
        else Parsed (cmd, s))"
  by pat_completeness auto
termination
proof (relation "measure (\<lambda>(buf, cmd, s). length buf - s)", goal_cases)
  case 2
  then show ?case by (fastforce dest!: sym [of "(_, _)"] peek_ge gettoken_step)
qed simp

declare parseredirs.simps [simp del]

lemma parseredirs_ge: "parseredirs buf cmd s = Parsed (c, s') \<Longrightarrow> s \<le> s'"
proof (induction buf cmd s arbitrary: c s' rule: parseredirs.induct)
  case (1 buf cmd s)
  obtain b s1 where p: "peek buf s [t_lt, t_gt] = (b, s1)" by fastforce
  obtain tok q0 e0 s2 where g: "gettoken buf s1 = (tok, q0, e0, s2)" by (rule prod_cases4)
  obtain w q eq s3 where h: "gettoken buf s2 = (w, q, eq, s3)" by (rule prod_cases4)
  have le: "s \<le> s1" "s1 \<le> s2" "s2 \<le> s3" using peek_ge [OF p] gettoken_step [OF g] gettoken_step [OF h] by auto
  show ?case
  proof (cases "b \<and> w = t_word")
    case True
    have "parseredirs buf (redir_of tok cmd (q, eq)) s3 = Parsed (c, s')"
      using 1(2) True by (subst (asm) parseredirs.simps) (simp add: p g h)
    from 1(1) [OF refl p [symmetric] _ refl g [symmetric] refl refl refl h [symmetric] refl refl _ this] True
    show ?thesis using le by simp
  next
    case False
    then show ?thesis using 1(2) le by (subst (asm) parseredirs.simps) (auto simp: p g h split: if_splits)
  qed
qed

function parseargs :: "u8 list \<Rightarrow> nat \<Rightarrow> cmd \<Rightarrow> nat \<Rightarrow> (cmd \<times> nat) parse" where
  "parseargs buf argc ret s =
    (let (found, s) = peek buf s [t_bar, t_rp, t_amp, t_semi]
     in if found then Parsed (ret, s)
        else
          let (tok, q, eq, s) = gettoken buf s
          in if tok = 0 then Parsed (ret, s)
             else if tok \<noteq> t_word then Syntax ''syntax''
             else
               let ret = add_arg (q, eq) ret; argc = argc + 1
               in if argc \<ge> MAXARGS then Syntax ''too many args''
                  else pbind (parseredirs buf ret s) (\<lambda>(ret, s). parseargs buf argc ret s))"
  by pat_completeness auto
termination
proof (relation "measure (\<lambda>(buf, argc, ret, s). length buf - s)", goal_cases)
  case 2
  then show ?case by (fastforce dest!: sym [of "(_, _)"] peek_ge gettoken_step parseredirs_ge)
qed simp

declare parseargs.simps [simp del]

text \<open>The loop of \<open>parseline\<close> over the ampersands.\<close>

function parseamps :: "u8 list \<Rightarrow> cmd \<Rightarrow> nat \<Rightarrow> cmd \<times> nat" where
  "parseamps buf cmd s =
    (let (found, s) = peek buf s [t_amp]
     in if found then let (_, _, _, s) = gettoken buf s in parseamps buf (BACK cmd) s else (cmd, s))"
  by pat_completeness auto
termination
proof (relation "measure (\<lambda>(buf, cmd, s). length buf - s)", goal_cases)
  case (2 buf cmd s x b s1 y tok y1 q y2 e s2)
  then have "peek buf s [t_amp] = (True, s1)" "gettoken buf s1 = (tok, q, e, s2)" by simp_all
  from peek_token [OF this] peek_ge [OF this(1)] show ?case by auto
qed simp

declare parseamps.simps [simp del]

fun parseline :: "nat \<Rightarrow> u8 list \<Rightarrow> nat \<Rightarrow> (cmd \<times> nat) parse"
  and parsepipe :: "nat \<Rightarrow> u8 list \<Rightarrow> nat \<Rightarrow> (cmd \<times> nat) parse"
  and parseexec :: "nat \<Rightarrow> u8 list \<Rightarrow> nat \<Rightarrow> (cmd \<times> nat) parse"
  and parseblock :: "nat \<Rightarrow> u8 list \<Rightarrow> nat \<Rightarrow> (cmd \<times> nat) parse" where
  "parseline 0 buf s = Fuel"
| "parseline (Suc n) buf s =
    pbind (parsepipe n buf s) (\<lambda>(cmd, s).
    let (cmd, s) = parseamps buf cmd s; (found, s) = peek buf s [t_semi]
    in if found then
         let (_, _, _, s) = gettoken buf s
         in pbind (parseline n buf s) (\<lambda>(right, s). Parsed (LIST cmd right, s))
       else Parsed (cmd, s))"
| "parsepipe 0 buf s = Fuel"
| "parsepipe (Suc n) buf s =
    pbind (parseexec n buf s) (\<lambda>(cmd, s).
    let (found, s) = peek buf s [t_bar]
    in if found then
         let (_, _, _, s) = gettoken buf s
         in pbind (parsepipe n buf s) (\<lambda>(right, s). Parsed (PIPE cmd right, s))
       else Parsed (cmd, s))"
| "parseexec 0 buf s = Fuel"
| "parseexec (Suc n) buf s =
    (let (found, s) = peek buf s [t_lp]
     in if found then parseblock n buf s
        else pbind (parseredirs buf (EXEC []) s) (\<lambda>(ret, s). parseargs buf 0 ret s))"
| "parseblock 0 buf s = Fuel"
| "parseblock (Suc n) buf s =
    (let (found, s) = peek buf s [t_lp]
     in if \<not> found then Syntax ''parseblock''
        else
          let (_, _, _, s) = gettoken buf s
          in pbind (parseline n buf s) (\<lambda>(cmd, s).
             let (found, s) = peek buf s [t_rp]
             in if \<not> found then Syntax ''syntax - missing )''
                else let (_, _, _, s) = gettoken buf s in parseredirs buf cmd s))"

text \<open>\<open>nulterminate\<close> on the buffer.\<close>

primrec nulterminate :: "cmd \<Rightarrow> (nat \<Rightarrow> u8) \<Rightarrow> (nat \<Rightarrow> u8)" where
  "nulterminate (EXEC as) b = fold (\<lambda>(q, eq) b. b(eq := 0)) as b"
| "nulterminate (REDIR c q eq mode fd) b = (nulterminate c b)(eq := 0)"
| "nulterminate (PIPE l r) b = nulterminate r (nulterminate l b)"
| "nulterminate (LIST l r) b = nulterminate r (nulterminate l b)"
| "nulterminate (BACK c) b = nulterminate c b"

definition parse_fuel :: "u8 list \<Rightarrow> nat" where
  "parse_fuel buf = 4 * length buf + 4"

definition parsecmd :: "u8 list \<Rightarrow> (cmd \<times> (nat \<Rightarrow> u8)) parse" where
  "parsecmd buf =
    pbind (parseline (parse_fuel buf) buf 0) (\<lambda>(cmd, s).
    let (_, s) = peek buf s []
    in if s \<noteq> length buf then Syntax ''syntax'' else Parsed (cmd, nulterminate cmd (ch buf)))"

end
