(* ===== verification/Grammar.thy ===== *)
theory Grammar
  imports Shell
begin

unbundle bit_operations_syntax

text \<open>
  What the shell's parser accepts: a grammar on the tokens of a line, as inductive relations between token
  lists and commands, and the proof that \<open>parsecmd\<close> decides it, with the fuel it is given.
\<close>

subsection \<open>The tokens of a line\<close>

type_synonym tok = "u8 \<times> span"

function toks :: "u8 list \<Rightarrow> nat \<Rightarrow> tok list" where
  "toks buf s = (case gettoken buf s of (r, q, e, s') \<Rightarrow> if r = 0 then [] else (r, q, e) # toks buf s')"
  by pat_completeness auto
termination
proof (relation "measure (\<lambda>(buf, s). length buf - s)", goal_cases)
  case (2 buf s r y q z e s')
  then have "gettoken buf s = (r, q, e, s')" "r \<noteq> 0" by simp_all
  from gettoken_step [OF this(1)] this(2) show ?case by auto
qed simp

declare toks.simps [simp del]

lemma gettoken_toks: "gettoken buf s = (r, q, e, s') \<Longrightarrow> toks buf s = (if r = 0 then [] else (r, q, e) # toks buf s')"
  by (subst toks.simps) simp

lemma toks_Cons: "toks buf s = t # ts \<Longrightarrow> \<exists>s'. gettoken buf s = (fst t, fst (snd t), snd (snd t), s') \<and> fst t \<noteq> 0 \<and> toks buf s' = ts"
  by (subst (asm) toks.simps) (auto split: prod.splits if_splits)

lemma toks_Nil: "toks buf s = [] \<Longrightarrow> \<exists>q e s'. gettoken buf s = (0, q, e, s')"
  by (subst (asm) toks.simps) (auto split: prod.splits if_splits)

lemma gettoken_skip [simp]: "gettoken buf (skip_ws buf s) = gettoken buf s"
  by (simp add: gettoken_def)

lemma toks_skip [simp]: "toks buf (skip_ws buf s) = toks buf s"
  by (subst (1 2) toks.simps) simp

text \<open>The character a token starts with, for those that are not words.\<close>

definition heads :: "tok list \<Rightarrow> u8 set \<Rightarrow> bool" where
  "heads ts F \<longleftrightarrow> (case ts of [] \<Rightarrow> False | t # _ \<Rightarrow> (if fst t = t_plus then t_gt else fst t) \<in> F)"

lemma heads_simps [simp]: "\<not> heads [] F" "heads (t # ts) F \<longleftrightarrow> (if fst t = t_plus then t_gt else fst t) \<in> F"
  by (simp_all add: heads_def)

lemma peek_toks:
  assumes "peek buf s cs = (b, s')" and "set cs \<subseteq> set symbols"
  shows "toks buf s' = toks buf s" and "b \<longleftrightarrow> heads (toks buf s) (set cs)"
proof -
  have s': "s' = skip_ws buf s" and b: "b \<longleftrightarrow> ch buf s' \<noteq> 0 \<and> ch buf s' \<in> set cs"
    using assms(1) by (auto simp: peek_def Let_def)
  show "toks buf s' = toks buf s" by (simp add: s')
  obtain r q e s2 where g: "gettoken buf s = (r, q, e, s2)" by (rule prod_cases4)
  have sym: "set symbols = {t_lt, t_bar, t_gt, t_amp, t_semi, t_lp, t_rp}" by (simp add: symbols_def)
  have ns: "t_plus \<notin> set cs" "t_word \<notin> set cs" "0 \<notin> set cs" using assms(2) unfolding sym by auto
  have r: "r = (if ch buf s' \<in> {0, t_bar, t_lp, t_rp, t_semi, t_amp, t_lt} then ch buf s'
      else if ch buf s' = t_gt then (if ch buf (s' + 1) = t_gt then t_plus else t_gt) else t_word)"
    using g by (auto simp: gettoken_def Let_def s' split: if_splits)
  have "b \<longleftrightarrow> r \<noteq> 0 \<and> (if r = t_plus then t_gt else r) \<in> set cs"
  proof (cases "ch buf s' \<in> {0, t_bar, t_lp, t_rp, t_semi, t_amp, t_lt, t_gt}")
    case True
    then show ?thesis using b r ns by (auto split: if_splits)
  next
    case False
    then have "ch buf s' \<notin> set cs" using assms(2) unfolding sym by blast
    then show ?thesis using b r ns False by simp
  qed
  then show "b \<longleftrightarrow> heads (toks buf s) (set cs)" using gettoken_toks [OF g] by simp
qed

subsection \<open>The grammar\<close>

text \<open>A simple command is a sequence of words and redirections.\<close>

datatype item = Word span | Redirect u8 span span

primrec item_toks :: "item \<Rightarrow> tok list" where
  "item_toks (Word w) = [(t_word, w)]"
| "item_toks (Redirect r p w) = [(r, p), (t_word, w)]"

primrec redirects :: "item \<Rightarrow> bool" where
  "redirects (Word w) = False"
| "redirects (Redirect r p w) = (r \<in> {t_lt, t_gt, t_plus})"

primrec is_word :: "item \<Rightarrow> bool" where
  "is_word (Word w) = True"
| "is_word (Redirect r p w) = False"

abbreviation items_toks :: "item list \<Rightarrow> tok list" where
  "items_toks is \<equiv> concat (map item_toks is)"

primrec item_words :: "item list \<Rightarrow> span list" where
  "item_words [] = []"
| "item_words (i # is) = (case i of Word w \<Rightarrow> w # item_words is | Redirect r p w \<Rightarrow> item_words is)"

text \<open>The redirections of a sequence, wrapped around a command, the last one outermost.\<close>

primrec wrap :: "cmd \<Rightarrow> item list \<Rightarrow> cmd" where
  "wrap c [] = c"
| "wrap c (i # is) = wrap (case i of Word w \<Rightarrow> c | Redirect r p w \<Rightarrow> redir_of r c w) is"

inductive line :: "tok list \<Rightarrow> cmd \<Rightarrow> bool" and pipeline :: "tok list \<Rightarrow> cmd \<Rightarrow> bool" and simple :: "tok list \<Rightarrow> cmd \<Rightarrow> bool" where
  simple_items: "\<forall>i\<in>set is. is_word i \<or> redirects i \<Longrightarrow> length (item_words is) < MAXARGS
    \<Longrightarrow> simple (items_toks is) (wrap (EXEC (item_words is)) is)"
| simple_block: "line ts c \<Longrightarrow> \<forall>i\<in>set is. redirects i
    \<Longrightarrow> simple ((t_lp, p) # ts @ (t_rp, p') # items_toks is) (wrap c is)"
| pipe_one: "simple ts c \<Longrightarrow> pipeline ts c"
| pipe_more: "simple ts c \<Longrightarrow> pipeline us d \<Longrightarrow> pipeline (ts @ (t_bar, p) # us) (PIPE c d)"
| line_one: "pipeline ts c \<Longrightarrow> \<forall>a\<in>set as. fst a = t_amp \<Longrightarrow> line (ts @ as) ((BACK ^^ length as) c)"
| line_more: "pipeline ts c \<Longrightarrow> \<forall>a\<in>set as. fst a = t_amp \<Longrightarrow> line us d
    \<Longrightarrow> line (ts @ as @ (t_semi, p) # us) (LIST ((BACK ^^ length as) c) d)"

subsection \<open>The redirection and argument loops\<close>

lemma sym_set: "set symbols = {t_lt, t_bar, t_gt, t_amp, t_semi, t_lp, t_rp}"
  by (simp add: symbols_def)

lemma heads_redir: "heads ts (set [t_lt, t_gt]) \<longleftrightarrow> (\<exists>t us. ts = t # us \<and> fst t \<in> {t_lt, t_gt, t_plus})"
  by (cases ts) (auto simp: heads_def)

text \<open>One turn of \<open>parseredirs\<close>, on tokens.\<close>

lemma parseredirs_turn:
  "if heads (toks buf s) (set [t_lt, t_gt]) then
     (case toks buf s of t # (w, q, eq) # ts \<Rightarrow>
        if w = t_word then \<exists>s'. parseredirs buf c s = parseredirs buf (redir_of (fst t) c (q, eq)) s' \<and> toks buf s' = ts \<and> s < s'
        else parseredirs buf c s = Syntax ''missing file for redirection''
      | _ \<Rightarrow> parseredirs buf c s = Syntax ''missing file for redirection'')
   else \<exists>s'. parseredirs buf c s = Parsed (c, s') \<and> toks buf s' = toks buf s"
proof -
  obtain b s1 where p: "peek buf s [t_lt, t_gt] = (b, s1)" by fastforce
  obtain tok q0 e0 s2 where g: "gettoken buf s1 = (tok, q0, e0, s2)" by (rule prod_cases4)
  obtain w q eq s3 where h: "gettoken buf s2 = (w, q, eq, s3)" by (rule prod_cases4)
  have pt: "toks buf s1 = toks buf s" "b \<longleftrightarrow> heads (toks buf s) (set [t_lt, t_gt])"
    using peek_toks [OF p] by (simp_all add: sym_set)
  have e: "parseredirs buf c s = (if b then if w \<noteq> t_word then Syntax ''missing file for redirection''
             else parseredirs buf (redir_of tok c (q, eq)) s3 else Parsed (c, s1))"
    by (subst parseredirs.simps) (simp add: p g h)
  show ?thesis
  proof (cases b)
    case True
    have r: "tok \<noteq> 0" "s < s2" "s2 \<le> s3" using peek_token [of buf s "[t_lt, t_gt]" s1] p g True peek_ge [OF p] gettoken_step [OF h] by auto
    have t: "toks buf s = (tok, q0, e0) # toks buf s2" using gettoken_toks [OF g] pt(1) r(1) by simp
    show ?thesis using True pt(2) gettoken_toks [OF h] e r unfolding t by (auto intro: exI [of _ s3])
  next
    case False
    then show ?thesis using e pt by auto
  qed
qed

lemma parseredirs_complete:
  "\<forall>i\<in>set is. redirects i \<Longrightarrow> toks buf s = items_toks is @ rest \<Longrightarrow> \<not> heads rest (set [t_lt, t_gt])
    \<Longrightarrow> \<exists>s'. parseredirs buf c s = Parsed (wrap c is, s') \<and> toks buf s' = rest"
proof (induction "is" arbitrary: c s)
  case Nil
  then show ?case using parseredirs_turn [of buf s c] by simp
next
  case (Cons i "is")
  obtain r p q eq where i: "i = Redirect r p (q, eq)" "r \<in> {t_lt, t_gt, t_plus}"
    using Cons.prems(1) by (cases i) auto
  have "heads (toks buf s) (set [t_lt, t_gt])" using i Cons.prems(2) unfolding heads_redir by simp
  then obtain s' where "parseredirs buf c s = parseredirs buf (redir_of r c (q, eq)) s'" "toks buf s' = items_toks is @ rest"
    using parseredirs_turn [of buf s c] Cons.prems(2) by (auto simp: i(1))
  with Cons.IH [of s' "redir_of r c (q, eq)"] Cons.prems show ?case by (simp add: i(1))
qed

lemma parseredirs_sound:
  "parseredirs buf c s = Parsed (d, s') \<Longrightarrow> \<exists>is. (\<forall>i\<in>set is. redirects i) \<and> toks buf s = items_toks is @ toks buf s'
    \<and> d = wrap c is \<and> \<not> heads (toks buf s') (set [t_lt, t_gt])"
proof (induction "toks buf s" arbitrary: c s rule: length_induct)
  case 1
  show ?case
  proof (cases "heads (toks buf s) (set [t_lt, t_gt])")
    case True
    then obtain t us where t: "toks buf s = t # us" "fst t \<in> {t_lt, t_gt, t_plus}" unfolding heads_redir by blast
    obtain q eq vs where u: "us = (t_word, q, eq) # vs"
      using parseredirs_turn [of buf s c] True t 1(2) by (auto split: list.splits if_splits)
    obtain s2 where s2: "parseredirs buf c s = parseredirs buf (redir_of (fst t) c (q, eq)) s2" "toks buf s2 = vs"
      using parseredirs_turn [of buf s c] True t u by auto
    have "length (toks buf s2) < length (toks buf s)" by (simp add: t(1) u s2(2))
    then obtain "is" where "\<forall>i\<in>set is. redirects i" "vs = items_toks is @ toks buf s'" "d = wrap (redir_of (fst t) c (q, eq)) is"
      "\<not> heads (toks buf s') (set [t_lt, t_gt])"
      using 1(1) 1(2) s2 by metis
    then show ?thesis using t u
      by (intro exI [of _ "Redirect (fst t) (snd t) (q, eq) # is"]) auto
  next
    case False
    then show ?thesis using parseredirs_turn [of buf s c] 1(2) by (intro exI [of _ "[]"]) auto
  qed
qed

lemma gettoken_end: "gettoken buf s = (0, q, e, s') \<Longrightarrow> toks buf s' = []"
proof -
  assume g: "gettoken buf s = (0, q, e, s')"
  then have "s' = skip_ws buf s" by (auto simp: gettoken_def Let_def split: if_splits)
  then show ?thesis using gettoken_toks [OF g] by simp
qed

text \<open>What may stand behind a part of a command.\<close>

definition follows :: "u8 set \<Rightarrow> tok list \<Rightarrow> bool" where
  "follows F ts \<longleftrightarrow> ts = [] \<or> heads ts F"

lemma parseargs_turn:
  "if follows {t_bar, t_rp, t_amp, t_semi} (toks buf s) then
     \<exists>s'. parseargs buf argc ret s = Parsed (ret, s') \<and> toks buf s' = toks buf s
   else (let t = hd (toks buf s) in if fst t \<noteq> t_word then parseargs buf argc ret s = Syntax ''syntax''
     else if argc + 1 \<ge> MAXARGS then parseargs buf argc ret s = Syntax ''too many args''
     else \<exists>s'. toks buf s = t # toks buf s' \<and> parseargs buf argc ret s
       = pbind (parseredirs buf (add_arg (snd t) ret) s') (\<lambda>(ret, s). parseargs buf (argc + 1) ret s))"
proof -
  obtain b s1 where p: "peek buf s [t_bar, t_rp, t_amp, t_semi] = (b, s1)" by fastforce
  obtain tok q e s2 where g: "gettoken buf s1 = (tok, q, e, s2)" by (rule prod_cases4)
  have pt: "toks buf s1 = toks buf s" "b \<longleftrightarrow> heads (toks buf s) {t_bar, t_rp, t_amp, t_semi}"
    using peek_toks [OF p] by (simp_all add: sym_set)
  have t: "toks buf s = (if tok = 0 then [] else (tok, q, e) # toks buf s2)" using gettoken_toks [OF g] pt(1) by simp
  have eq: "parseargs buf argc ret s = (if b then Parsed (ret, s1) else if tok = 0 then Parsed (ret, s2)
     else if tok \<noteq> t_word then Syntax ''syntax'' else if argc + 1 \<ge> MAXARGS then Syntax ''too many args''
     else pbind (parseredirs buf (add_arg (q, e) ret) s2) (\<lambda>(ret, s). parseargs buf (argc + 1) ret s))"
    by (subst parseargs.simps) (simp add: p g Let_def)
  show ?thesis
  proof (cases "tok = 0")
    case True
    then have "toks buf s = []" "toks buf s2 = []" using t gettoken_end g by auto
    then show ?thesis using eq True pt by (auto simp: follows_def)
  next
    case False
    then show ?thesis using eq t pt by (cases b) (auto simp: follows_def Let_def)
  qed
qed

lemma add_arg_redir [simp]: "add_arg a (redir_of r c w) = redir_of r (add_arg a c) w"
  by (simp add: redir_of_def)

lemma add_args_wrap: "fold add_arg ws (wrap c is) = wrap (fold add_arg ws c) is"
proof (induction ws arbitrary: c)
  case (Cons a ws)
  have "add_arg a (wrap c is) = wrap (add_arg a c) is" for c
    by (induction "is" arbitrary: c) (simp_all split: item.splits)
  then show ?case using Cons by simp
qed simp

lemma add_args_EXEC [simp]: "fold add_arg ws (EXEC as) = EXEC (as @ ws)"
  by (induction ws arbitrary: as) simp_all

lemma wrap_append [simp]: "wrap c (is @ js) = wrap (wrap c is) js"
  by (induction "is" arbitrary: c) simp_all

lemma item_words_append [simp]: "item_words (is @ js) = item_words is @ item_words js"
  by (induction "is") (simp_all split: item.splits)

lemma redirects_words: "\<forall>i\<in>set is. redirects i \<Longrightarrow> item_words is = []"
  by (induction "is") (simp_all split: item.splits, auto)

lemma parseargs_sound:
  "parseargs buf argc ret s = Parsed (d, s') \<Longrightarrow> \<exists>is. (\<forall>i\<in>set is. is_word i \<or> redirects i)
    \<and> toks buf s = items_toks is @ toks buf s' \<and> d = wrap (fold add_arg (item_words is) ret) is
    \<and> (is = [] \<or> argc + length (item_words is) < MAXARGS)"
proof (induction s arbitrary: argc ret rule: measure_induct_rule [where f = "\<lambda>s. length (toks buf s)"])
  case (less s)
  show ?case
  proof (cases "follows {t_bar, t_rp, t_amp, t_semi} (toks buf s)")
    case True
    then show ?thesis using parseargs_turn [of buf s argc ret] less.prems by (intro exI [of _ "[]"]) auto
  next
    case False
    let ?t = "hd (toks buf s)"
    have w: "fst ?t = t_word" "argc + 1 < MAXARGS"
      using parseargs_turn [of buf s argc ret] False less.prems by (auto simp: Let_def split: if_splits)
    then obtain s2 where s2: "toks buf s = ?t # toks buf s2" "parseargs buf argc ret s
       = pbind (parseredirs buf (add_arg (snd ?t) ret) s2) (\<lambda>(ret, s). parseargs buf (argc + 1) ret s)"
      using parseargs_turn [of buf s argc ret] False by (auto simp: Let_def)
    have "pbind (parseredirs buf (add_arg (snd ?t) ret) s2) (\<lambda>(ret, s). parseargs buf (argc + 1) ret s) = Parsed (d, s')"
      using less.prems unfolding s2(2) .
    then obtain r s3 where r: "parseredirs buf (add_arg (snd ?t) ret) s2 = Parsed (r, s3)" "parseargs buf (argc + 1) r s3 = Parsed (d, s')"
      by (auto simp: pbind_eq_Parsed)
    obtain rs where rs: "\<forall>i\<in>set rs. redirects i" "toks buf s2 = items_toks rs @ toks buf s3" "r = wrap (add_arg (snd ?t) ret) rs"
      using parseredirs_sound [OF r(1)] by blast
    have "length (toks buf s3) < length (toks buf s)" by (subst s2(1)) (simp add: rs(2))
    from less.IH [OF this r(2)] obtain "is" where "is": "\<forall>i\<in>set is. is_word i \<or> redirects i" "toks buf s3 = items_toks is @ toks buf s'"
      "d = wrap (fold add_arg (item_words is) r) is" "is = [] \<or> argc + 1 + length (item_words is) < MAXARGS" by blast
    let ?i = "Word (snd ?t) # rs @ is"
    have "items_toks ?i @ toks buf s' = ?t # toks buf s2"
      using rs(2) "is"(2) w(1) by (cases ?t) simp
    then have "toks buf s = items_toks ?i @ toks buf s'" using s2(1) by (rule trans [OF _ sym, rotated])
    moreover have "d = wrap (fold add_arg (item_words ?i) ret) ?i"
      using "is"(3) rs(3) redirects_words [OF rs(1)] by (simp add: add_args_wrap)
    moreover have "argc + length (item_words ?i) < MAXARGS" using "is"(4) w(2) redirects_words [OF rs(1)] by auto
    ultimately show ?thesis using "is"(1) rs(1) by (intro exI [of _ ?i]) auto
  qed
qed

lemma items_split: "\<forall>i\<in>set is. is_word i \<or> redirects i \<Longrightarrow>
    \<exists>rs js. is = rs @ js \<and> (\<forall>i\<in>set rs. redirects i) \<and> (js = [] \<or> is_word (hd js))"
proof (induction "is")
  case (Cons i "is")
  then obtain rs js where "is = rs @ js" "\<forall>i\<in>set rs. redirects i" "js = [] \<or> is_word (hd js)" by auto
  then show ?case using Cons.prems
    by (cases "redirects i") (force intro: exI [of _ "i # rs"], force intro: exI [of _ "[]"])
qed simp

lemma not_redir_head:
  assumes "js = [] \<or> is_word (hd js)" and "follows {t_bar, t_rp, t_amp, t_semi} rest"
  shows "\<not> heads (items_toks js @ rest) (set [t_lt, t_gt])"
proof (cases js)
  case Nil
  then show ?thesis using assms(2) by (auto simp: follows_def heads_def split: list.splits if_splits)
next
  case (Cons j js')
  then show ?thesis using assms(1) by (cases j) simp_all
qed

lemma parseargs_complete:
  "\<forall>i\<in>set is. is_word i \<or> redirects i \<Longrightarrow> is = [] \<or> is_word (hd is) \<Longrightarrow> argc + length (item_words is) < MAXARGS
    \<Longrightarrow> toks buf s = items_toks is @ rest \<Longrightarrow> follows {t_bar, t_rp, t_amp, t_semi} rest
    \<Longrightarrow> \<exists>s'. parseargs buf argc ret s = Parsed (wrap (fold add_arg (item_words is) ret) is, s') \<and> toks buf s' = rest"
proof (induction "is" arbitrary: argc ret s rule: length_induct)
  case (1 "is")
  show ?case
  proof (cases "is")
    case Nil
    then show ?thesis using parseargs_turn [of buf s argc ret] 1(5,6) by simp
  next
    case (Cons i more)
    then obtain w where i: "i = Word w" using 1(3) by (cases i) auto
    obtain rs js where sp: "more = rs @ js" "\<forall>i\<in>set rs. redirects i" "js = [] \<or> is_word (hd js)"
      using items_split [of more] 1(2) Cons by auto
    have rw: "item_words rs = []" by (rule redirects_words [OF sp(2)])
    have t: "toks buf s = (t_word, w) # items_toks rs @ items_toks js @ rest" using 1(5) Cons i sp(1) by simp
    then have "\<not> follows {t_bar, t_rp, t_amp, t_semi} (toks buf s)" by (simp add: follows_def)
    moreover have "argc + 1 < MAXARGS" using 1(4) Cons i by simp
    ultimately obtain s2 where s2: "toks buf s2 = items_toks rs @ items_toks js @ rest"
      "parseargs buf argc ret s = pbind (parseredirs buf (add_arg w ret) s2) (\<lambda>(ret, s). parseargs buf (argc + 1) ret s)"
      using parseargs_turn [of buf s argc ret] t by (auto simp: Let_def)
    obtain s3 where s3: "parseredirs buf (add_arg w ret) s2 = Parsed (wrap (add_arg w ret) rs, s3)" "toks buf s3 = items_toks js @ rest"
      using parseredirs_complete [OF sp(2) s2(1) not_redir_head [OF sp(3) 1(6)]] by blast
    have "length js < length is" using Cons sp(1) by simp
    moreover have "\<forall>i\<in>set js. is_word i \<or> redirects i" using 1(2) Cons sp(1) by simp
    moreover have "argc + 1 + length (item_words js) < MAXARGS" using 1(4) Cons i sp(1) rw by simp
    ultimately obtain s4 where "parseargs buf (argc + 1) (wrap (add_arg w ret) rs) s3
        = Parsed (wrap (fold add_arg (item_words js) (wrap (add_arg w ret) rs)) js, s4)" "toks buf s4 = rest"
      using 1(1) sp(3) s3(2) 1(6) by blast
    then show ?thesis using s2(2) s3(1) by (simp add: Cons i sp(1) rw add_args_wrap)
  qed
qed

subsection \<open>The descent\<close>

lemma next_sym:
  assumes "x \<in> {t_bar, t_lp, t_rp, t_semi, t_amp}"
  shows "if heads (toks buf s) {x} then \<exists>s1 q e s2. peek buf s [x] = (True, s1) \<and> gettoken buf s1 = (x, q, e, s2)
      \<and> toks buf s = (x, q, e) # toks buf s2 \<and> toks buf s1 = toks buf s
    else \<exists>s1. peek buf s [x] = (False, s1) \<and> toks buf s1 = toks buf s"
proof -
  obtain b s1 where p: "peek buf s [x] = (b, s1)" by fastforce
  have pt: "toks buf s1 = toks buf s" "b \<longleftrightarrow> heads (toks buf s) {x}" using peek_toks [OF p] assms by (auto simp: sym_set)
  show ?thesis
  proof (cases b)
    case True
    obtain r q e s2 where g: "gettoken buf s1 = (r, q, e, s2)" by (rule prod_cases4)
    have "r \<noteq> 0" using peek_token [OF _ g] p True by simp
    then have t: "toks buf s = (r, q, e) # toks buf s2" using gettoken_toks [OF g] pt(1) by simp
    have "(if r = t_plus then t_gt else r) = x" using True unfolding pt(2) t by (auto split: if_splits)
    then have "r = x" using assms by (auto split: if_splits)
    then show ?thesis using True p pt g t by auto
  next
    case False
    then show ?thesis using p pt by auto
  qed
qed

lemma parseamps_spec: "\<exists>as s'. parseamps buf c s = ((BACK ^^ length as) c, s') \<and> toks buf s = as @ toks buf s'
    \<and> (\<forall>a\<in>set as. fst a = t_amp) \<and> \<not> heads (toks buf s') {t_amp}"
proof (induction s arbitrary: c rule: measure_induct_rule [where f = "\<lambda>s. length (toks buf s)"])
  case (less s)
  show ?case
  proof (cases "heads (toks buf s) {t_amp}")
    case True
    then obtain s1 q e s2 where n: "peek buf s [t_amp] = (True, s1)" "gettoken buf s1 = (t_amp, q, e, s2)"
      "toks buf s = (t_amp, q, e) # toks buf s2" using next_sym [of t_amp buf s] by auto
    have "length (toks buf s2) < length (toks buf s)" using n(3) by simp
    from less.IH [OF this, of "BACK c"] obtain as s' where as: "parseamps buf (BACK c) s2 = ((BACK ^^ length as) (BACK c), s')"
      "toks buf s2 = as @ toks buf s'" "\<forall>a\<in>set as. fst a = t_amp" "\<not> heads (toks buf s') {t_amp}" by blast
    have "parseamps buf c s = parseamps buf (BACK c) s2" by (subst parseamps.simps) (simp add: n)
    then show ?thesis using as n(3)
      by (intro exI [of _ "(t_amp, q, e) # as"] exI [of _ s']) (simp add: funpow_swap1)
  next
    case False
    then obtain s1 where "peek buf s [t_amp] = (False, s1)" "toks buf s1 = toks buf s" using next_sym [of t_amp buf s] by auto
    then show ?thesis using False by (subst parseamps.simps) (auto intro!: exI [of _ "[]"])
  qed
qed

lemma amps_unique:
  assumes "as @ ts = bs @ us" and "\<forall>a\<in>set as. fst a = t_amp" and "\<forall>a\<in>set bs. fst a = t_amp"
    and "\<not> heads ts {t_amp}" and "\<not> heads us {t_amp}"
  shows "as = bs \<and> ts = us"
proof -
  let ?P = "\<lambda>a. fst a = t_amp"
  have tw: "takeWhile ?P (as @ ts) = as" if "\<forall>a\<in>set as. fst a = t_amp" "\<not> heads ts {t_amp}" for as ts :: "tok list"
    using that by (cases ts) (auto simp: takeWhile_append)
  have "as = bs" using tw [OF assms(2,4)] tw [OF assms(3,5)] unfolding assms(1) by simp
  then show ?thesis using assms(1) by simp
qed

lemma parse_sound:
  "(\<forall>s c s'. parseline n buf s = Parsed (c, s') \<longrightarrow> (\<exists>ts. line ts c \<and> toks buf s = ts @ toks buf s'))
   \<and> (\<forall>s c s'. parsepipe n buf s = Parsed (c, s') \<longrightarrow> (\<exists>ts. pipeline ts c \<and> toks buf s = ts @ toks buf s'))
   \<and> (\<forall>s c s'. parseexec n buf s = Parsed (c, s') \<longrightarrow> (\<exists>ts. simple ts c \<and> toks buf s = ts @ toks buf s'))
   \<and> (\<forall>s c s'. parseblock n buf s = Parsed (c, s') \<longrightarrow> (\<exists>ts. simple ts c \<and> toks buf s = ts @ toks buf s'))"
proof (induction n)
  case (Suc n)
  have IH: "parseline n buf s = Parsed (c, s') \<Longrightarrow> \<exists>ts. line ts c \<and> toks buf s = ts @ toks buf s'"
    "parsepipe n buf s = Parsed (c, s') \<Longrightarrow> \<exists>ts. pipeline ts c \<and> toks buf s = ts @ toks buf s'"
    "parseexec n buf s = Parsed (c, s') \<Longrightarrow> \<exists>ts. simple ts c \<and> toks buf s = ts @ toks buf s'"
    "parseblock n buf s = Parsed (c, s') \<Longrightarrow> \<exists>ts. simple ts c \<and> toks buf s = ts @ toks buf s'" for s c s'
    using Suc by blast+
  have line: "\<exists>ts. line ts c \<and> toks buf s = ts @ toks buf s'" if l: "parseline (Suc n) buf s = Parsed (c, s')" for s c s'
  proof -
    obtain d s1 where d: "parsepipe n buf s = Parsed (d, s1)" using l by (auto simp: pbind_eq_Parsed)
    obtain ts where ts: "pipeline ts d" "toks buf s = ts @ toks buf s1" using IH(2) [OF d] by blast
    obtain as s2 where as: "parseamps buf d s1 = ((BACK ^^ length as) d, s2)" "toks buf s1 = as @ toks buf s2"
      "\<forall>a\<in>set as. fst a = t_amp" using parseamps_spec [of buf d s1] by blast
    show ?thesis
    proof (cases "heads (toks buf s2) {t_semi}")
      case True
      then obtain s3 q e s4 where n: "peek buf s2 [t_semi] = (True, s3)" "gettoken buf s3 = (t_semi, q, e, s4)"
        "toks buf s2 = (t_semi, q, e) # toks buf s4" using next_sym [of t_semi buf s2] by auto
      then obtain r where r: "parseline n buf s4 = Parsed (r, s')" "c = LIST ((BACK ^^ length as) d) r"
        using l by (auto simp: pbind_eq_Parsed d as(1))
      obtain us where "line us r" "toks buf s4 = us @ toks buf s'" using IH(1) [OF r(1)] by blast
      then show ?thesis using line_more [OF ts(1) as(3), of us r "(q, e)"] r(2) ts(2) as(2) n(3) by auto
    next
      case False
      then obtain s3 where n: "peek buf s2 [t_semi] = (False, s3)" "toks buf s3 = toks buf s2" using next_sym [of t_semi buf s2] by auto
      then have "c = (BACK ^^ length as) d" "s' = s3" using l by (simp_all add: pbind_eq_Parsed d as(1))
      then show ?thesis using line_one [OF ts(1) as(3)] ts(2) as(2) n(2) by auto
    qed
  qed
  have pipe: "\<exists>ts. pipeline ts c \<and> toks buf s = ts @ toks buf s'" if l: "parsepipe (Suc n) buf s = Parsed (c, s')" for s c s'
  proof -
    obtain d s1 where d: "parseexec n buf s = Parsed (d, s1)" using l by (auto simp: pbind_eq_Parsed)
    obtain ts where ts: "simple ts d" "toks buf s = ts @ toks buf s1" using IH(3) [OF d] by blast
    show ?thesis
    proof (cases "heads (toks buf s1) {t_bar}")
      case True
      then obtain s3 q e s4 where n: "peek buf s1 [t_bar] = (True, s3)" "gettoken buf s3 = (t_bar, q, e, s4)"
        "toks buf s1 = (t_bar, q, e) # toks buf s4" using next_sym [of t_bar buf s1] by auto
      then obtain r where r: "parsepipe n buf s4 = Parsed (r, s')" "c = PIPE d r"
        using l by (auto simp: pbind_eq_Parsed d)
      obtain us where "pipeline us r" "toks buf s4 = us @ toks buf s'" using IH(2) [OF r(1)] by blast
      then show ?thesis using pipe_more [OF ts(1), of us r "(q, e)"] r(2) ts(2) n(3) by auto
    next
      case False
      then obtain s3 where n: "peek buf s1 [t_bar] = (False, s3)" "toks buf s3 = toks buf s1" using next_sym [of t_bar buf s1] by auto
      then have "c = d" "s' = s3" using l by (simp_all add: pbind_eq_Parsed d)
      then show ?thesis using pipe_one [OF ts(1)] ts(2) n(2) by auto
    qed
  qed
  have block: "\<exists>ts. simple ts c \<and> toks buf s = ts @ toks buf s'" if l: "parseblock (Suc n) buf s = Parsed (c, s')" for s c s'
  proof -
    have h: "heads (toks buf s) {t_lp}" using l next_sym [of t_lp buf s] by (auto split: if_splits)
    then obtain s1 q e s2 where n: "peek buf s [t_lp] = (True, s1)" "gettoken buf s1 = (t_lp, q, e, s2)"
      "toks buf s = (t_lp, q, e) # toks buf s2" using next_sym [of t_lp buf s] by auto
    then obtain d s3 where d: "parseline n buf s2 = Parsed (d, s3)" using l by (auto simp: pbind_eq_Parsed)
    then obtain ts where ts: "line ts d" "toks buf s2 = ts @ toks buf s3" using IH(1) by blast
    have h3: "heads (toks buf s3) {t_rp}" using l n d next_sym [of t_rp buf s3] by (auto split: if_splits)
    then obtain s4 q' e' s5 where n3: "peek buf s3 [t_rp] = (True, s4)" "gettoken buf s4 = (t_rp, q', e', s5)"
      "toks buf s3 = (t_rp, q', e') # toks buf s5" using next_sym [of t_rp buf s3] by auto
    then have "parseredirs buf d s5 = Parsed (c, s')" using l n d by simp
    from parseredirs_sound [OF this] obtain "is" where "\<forall>i\<in>set is. redirects i" "toks buf s5 = items_toks is @ toks buf s'" "c = wrap d is"
      by blast
    then show ?thesis using simple_block [OF ts(1), of "is" "(q, e)" "(q', e')"] n(3) ts(2) n3(3) by auto
  qed
  have exec: "\<exists>ts. simple ts c \<and> toks buf s = ts @ toks buf s'" if l: "parseexec (Suc n) buf s = Parsed (c, s')" for s c s'
  proof (cases "heads (toks buf s) {t_lp}")
    case True
    then obtain s1 where n: "peek buf s [t_lp] = (True, s1)" "toks buf s1 = toks buf s" using next_sym [of t_lp buf s] by auto
    then have "parseblock n buf s1 = Parsed (c, s')" using l by simp
    from IH(4) [OF this] n(2) show ?thesis by simp
  next
    case False
    then obtain s1 where n: "peek buf s [t_lp] = (False, s1)" "toks buf s1 = toks buf s" using next_sym [of t_lp buf s] by auto
    then obtain r s2 where r: "parseredirs buf (EXEC []) s1 = Parsed (r, s2)" "parseargs buf 0 r s2 = Parsed (c, s')"
      using l by (auto simp: pbind_eq_Parsed)
    obtain rs where rs: "\<forall>i\<in>set rs. redirects i" "toks buf s1 = items_toks rs @ toks buf s2" "r = wrap (EXEC []) rs"
      using parseredirs_sound [OF r(1)] by blast
    obtain js where js: "\<forall>i\<in>set js. is_word i \<or> redirects i" "toks buf s2 = items_toks js @ toks buf s'"
      "c = wrap (fold add_arg (item_words js) r) js" "js = [] \<or> 0 + length (item_words js) < MAXARGS"
      using parseargs_sound [OF r(2)] by blast
    have "c = wrap (EXEC (item_words (rs @ js))) (rs @ js)"
      using js(3) rs(3) redirects_words [OF rs(1)] by (simp add: add_args_wrap)
    moreover have "length (item_words (rs @ js)) < MAXARGS" using js(4) redirects_words [OF rs(1)] by (auto simp: MAXARGS_def)
    ultimately show ?thesis using simple_items [of "rs @ js"] rs js(1,2) n(2) by auto
  qed
  show ?case using line pipe exec block by blast
qed simp

lemma simple_head: "simple ts c \<Longrightarrow> follows {t_bar, t_rp, t_amp, t_semi} rest \<Longrightarrow>
    heads (ts @ rest) {t_lp} \<longleftrightarrow> (\<exists>p us. ts = (t_lp, p) # us)"
proof (induction rule: simple.cases)
  case (simple_items "is")
  then show ?thesis
  proof (cases "is")
    case Nil
    then show ?thesis using simple_items by (auto simp: follows_def heads_def split: list.splits if_splits)
  next
    case (Cons i js)
    then show ?thesis using simple_items by (cases i) auto
  qed
qed simp

lemma follows_mono: "follows F ts \<Longrightarrow> F \<subseteq> G \<Longrightarrow> follows G ts"
  by (cases ts) (auto simp: follows_def)

lemma follows_Cons [simp]: "follows F (t # ts) \<longleftrightarrow> (if fst t = t_plus then t_gt else fst t) \<in> F" "follows F []"
  by (simp_all add: follows_def)

lemma follows_not: "follows F ts \<Longrightarrow> x \<notin> F \<Longrightarrow> \<not> heads ts {x}"
  by (auto simp: follows_def heads_def split: list.splits if_splits)

lemma suc_fuel: "k < n \<Longrightarrow> \<exists>m. n = Suc m \<and> k \<le> m"
  by (cases n) auto

lemma parse_complete:
  "line ts c \<Longrightarrow> \<forall>s rest n. toks buf s = ts @ rest \<and> follows {t_rp} rest \<and> 4 * length ts + 3 \<le> n
      \<longrightarrow> (\<exists>s'. parseline n buf s = Parsed (c, s') \<and> toks buf s' = rest)"
  "pipeline ts c \<Longrightarrow> \<forall>s rest n. toks buf s = ts @ rest \<and> follows {t_amp, t_semi, t_rp} rest \<and> 4 * length ts + 2 \<le> n
      \<longrightarrow> (\<exists>s'. parsepipe n buf s = Parsed (c, s') \<and> toks buf s' = rest)"
  "simple ts c \<Longrightarrow> \<forall>s rest n. toks buf s = ts @ rest \<and> follows {t_bar, t_rp, t_amp, t_semi} rest \<and> 4 * length ts + 1 \<le> n
      \<longrightarrow> (\<exists>s'. parseexec n buf s = Parsed (c, s') \<and> toks buf s' = rest)"
proof (induction rule: line_pipeline_simple.inducts)
  case (simple_items "is")
  show ?case
  proof (intro allI impI, elim conjE)
    fix s rest n assume h: "toks buf s = items_toks is @ rest" "follows {t_bar, t_rp, t_amp, t_semi} rest" "4 * length (items_toks is) + 1 \<le> n"
    then obtain m where n: "n = Suc m" using suc_fuel [of 0 n] by auto
    have "simple (items_toks is) (wrap (EXEC (item_words is)) is)" by (rule line_pipeline_simple.simple_items) (use simple_items in blast)+
    from simple_head [OF this h(2)] have "\<not> heads (toks buf s) {t_lp}"
      using simple_items(1) unfolding h(1) by (cases "is"; cases "hd is") auto
    then obtain s1 where p: "peek buf s [t_lp] = (False, s1)" "toks buf s1 = toks buf s" using next_sym [of t_lp buf s] by auto
    obtain rs js where sp: "is = rs @ js" "\<forall>i\<in>set rs. redirects i" "js = [] \<or> is_word (hd js)"
      using items_split [OF simple_items(1)] by blast
    have rw: "item_words rs = []" by (rule redirects_words [OF sp(2)])
    have "toks buf s1 = items_toks rs @ items_toks js @ rest" using p(2) h(1) sp(1) by simp
    from parseredirs_complete [OF sp(2) this not_redir_head [OF sp(3) h(2)], of "EXEC []"]
    obtain s2 where s2: "parseredirs buf (EXEC []) s1 = Parsed (wrap (EXEC []) rs, s2)" "toks buf s2 = items_toks js @ rest" by blast
    have "\<forall>i\<in>set js. is_word i \<or> redirects i" "0 + length (item_words js) < MAXARGS" using simple_items sp(1) rw by auto
    from parseargs_complete [OF this(1) sp(3) this(2) s2(2) h(2), of "wrap (EXEC []) rs"]
    show "\<exists>s'. parseexec n buf s = Parsed (wrap (EXEC (item_words is)) is, s') \<and> toks buf s' = rest"
      using s2(1) by (simp add: n p(1) sp(1) rw add_args_wrap)
  qed
next
  case (simple_block ts c "is" p p')
  show ?case
  proof (intro allI impI, elim conjE)
    fix s rest n assume h: "toks buf s = ((t_lp, p) # ts @ (t_rp, p') # items_toks is) @ rest"
      "follows {t_bar, t_rp, t_amp, t_semi} rest" "4 * length ((t_lp, p) # ts @ (t_rp, p') # items_toks is) + 1 \<le> n"
    then obtain k where k: "n = Suc k" "4 * length ts + 4 \<le> k" using suc_fuel [of "4 * length ts + 4" n] by auto
    obtain m where m: "k = Suc m" "4 * length ts + 3 \<le> m" using suc_fuel [of "4 * length ts + 3" k] k(2) by auto
    note n = k(1) [unfolded m(1)] m(2)
    obtain s1 where p: "peek buf s [t_lp] = (True, s1)" "toks buf s1 = toks buf s"
      using next_sym [of t_lp buf s] h(1) by auto
    obtain s2 q e s3 where q: "peek buf s1 [t_lp] = (True, s2)" "gettoken buf s2 = (t_lp, q, e, s3)"
      "toks buf s3 = ts @ (t_rp, p') # items_toks is @ rest"
      using next_sym [of t_lp buf s1] h(1) p(2) by auto
    then obtain s4 where l: "parseline m buf s3 = Parsed (c, s4)" "toks buf s4 = (t_rp, p') # items_toks is @ rest"
      using simple_block.IH n(2) by force
    obtain s5 q' e' s6 where r: "peek buf s4 [t_rp] = (True, s5)" "gettoken buf s5 = (t_rp, q', e', s6)"
      "toks buf s6 = items_toks is @ rest"
      using next_sym [of t_rp buf s4] l(2) by auto
    from parseredirs_complete [OF simple_block(2) r(3), of c]
    obtain s7 where "parseredirs buf c s6 = Parsed (wrap c is, s7)" "toks buf s7 = rest"
      using not_redir_head [of "[]", OF _ h(2)] by auto
    then show "\<exists>s'. parseexec n buf s = Parsed (wrap c is, s') \<and> toks buf s' = rest"
      using p q l r by (simp add: n(1))
  qed
next
  case (pipe_one ts c)
  show ?case
  proof (intro allI impI, elim conjE)
    fix s rest n assume h: "toks buf s = ts @ rest" "follows {t_amp, t_semi, t_rp} rest" "4 * length ts + 2 \<le> n"
    then obtain m where n: "n = Suc m" "4 * length ts + 1 \<le> m" using suc_fuel [of "4 * length ts + 1" n] by auto
    have "follows {t_bar, t_rp, t_amp, t_semi} rest" by (rule follows_mono [OF h(2)]) auto
    then obtain s1 where e: "parseexec m buf s = Parsed (c, s1)" "toks buf s1 = rest" using pipe_one.IH h(1) n(2) by blast
    have "\<not> heads (toks buf s1) {t_bar}" unfolding e(2) by (rule follows_not [OF h(2)]) simp
    then obtain s2 where "peek buf s1 [t_bar] = (False, s2)" "toks buf s2 = rest" using next_sym [of t_bar buf s1] e(2) by auto
    then show "\<exists>s'. parsepipe n buf s = Parsed (c, s') \<and> toks buf s' = rest" using e(1) by (simp add: n(1))
  qed
next
  case (pipe_more ts c us d p)
  show ?case
  proof (intro allI impI, elim conjE)
    fix s rest n assume h: "toks buf s = (ts @ (t_bar, p) # us) @ rest" "follows {t_amp, t_semi, t_rp} rest"
      "4 * length (ts @ (t_bar, p) # us) + 2 \<le> n"
    then obtain m where n: "n = Suc m" "4 * length ts + 1 \<le> m" "4 * length us + 2 \<le> m"
      using suc_fuel [of "4 * length ts + 4 * length us + 5" n] by auto
    have "toks buf s = ts @ (t_bar, p) # us @ rest" "follows {t_bar, t_rp, t_amp, t_semi} ((t_bar, p) # us @ rest)" using h(1) by simp_all
    then obtain s1 where e: "parseexec m buf s = Parsed (c, s1)" "toks buf s1 = (t_bar, p) # us @ rest" using pipe_more.IH(1) n(2) by blast
    obtain s2 q e' s3 where q: "peek buf s1 [t_bar] = (True, s2)" "gettoken buf s2 = (t_bar, q, e', s3)" "toks buf s3 = us @ rest"
      using next_sym [of t_bar buf s1] e(2) by auto
    then obtain s4 where "parsepipe m buf s3 = Parsed (d, s4)" "toks buf s4 = rest" using pipe_more.IH(2) n(3) h(2) by blast
    then show "\<exists>s'. parsepipe n buf s = Parsed (PIPE c d, s') \<and> toks buf s' = rest" using e(1) q by (simp add: n(1))
  qed
next
  case (line_one ts c as)
  show ?case
  proof (intro allI impI, elim conjE)
    fix s rest n assume h: "toks buf s = (ts @ as) @ rest" "follows {t_rp} rest" "4 * length (ts @ as) + 3 \<le> n"
    then obtain m where n: "n = Suc m" "4 * length ts + 2 \<le> m" using suc_fuel [of "4 * length ts + 2" n] by auto
    have "follows {t_amp, t_semi, t_rp} (as @ rest)" using line_one(2) follows_mono [OF h(2), of "{t_amp, t_semi, t_rp}"] by (cases as) auto
    then obtain s1 where e: "parsepipe m buf s = Parsed (c, s1)" "toks buf s1 = as @ rest"
      using line_one.IH h(1) [unfolded append_assoc] n(2) by blast
    obtain bs s2 where b: "parseamps buf c s1 = ((BACK ^^ length bs) c, s2)" "toks buf s1 = bs @ toks buf s2"
      "\<forall>a\<in>set bs. fst a = t_amp" "\<not> heads (toks buf s2) {t_amp}" using parseamps_spec [of buf c s1] by blast
    have "\<not> heads rest {t_amp}" "\<not> heads rest {t_semi}" using follows_not [OF h(2)] by auto
    have "bs @ toks buf s2 = as @ rest" using b(2) e(2) by simp
    from amps_unique [OF this b(3) line_one(2) b(4)] have u: "bs = as" "toks buf s2 = rest"
      using \<open>\<not> heads rest {t_amp}\<close> by blast+
    obtain s3 where "peek buf s2 [t_semi] = (False, s3)" "toks buf s3 = rest"
      using next_sym [of t_semi buf s2] u(2) \<open>\<not> heads rest {t_semi}\<close> by auto
    then show "\<exists>s'. parseline n buf s = Parsed ((BACK ^^ length as) c, s') \<and> toks buf s' = rest" using e(1) b(1) u(1) by (simp add: n(1))
  qed
next
  case (line_more ts c as us d p)
  show ?case
  proof (intro allI impI, elim conjE)
    fix s rest n assume h: "toks buf s = (ts @ as @ (t_semi, p) # us) @ rest" "follows {t_rp} rest"
      "4 * length (ts @ as @ (t_semi, p) # us) + 3 \<le> n"
    then obtain m where n: "n = Suc m" "4 * length ts + 2 \<le> m" "4 * length us + 3 \<le> m"
      using suc_fuel [of "4 * length ts + 4 * length us + 6" n] by auto
    let ?r = "(t_semi, p) # us @ rest"
    have "follows {t_amp, t_semi, t_rp} (as @ ?r)" using line_more(2) by (cases as) auto
    then obtain s1 where e: "parsepipe m buf s = Parsed (c, s1)" "toks buf s1 = as @ ?r"
      using line_more.IH(1) h(1) [unfolded append_assoc append_Cons] n(2) by blast
    obtain bs s2 where b: "parseamps buf c s1 = ((BACK ^^ length bs) c, s2)" "toks buf s1 = bs @ toks buf s2"
      "\<forall>a\<in>set bs. fst a = t_amp" "\<not> heads (toks buf s2) {t_amp}" using parseamps_spec [of buf c s1] by blast
    have "\<not> heads ?r {t_amp}" by simp
    have "bs @ toks buf s2 = as @ ?r" using b(2) e(2) by simp
    from amps_unique [OF this b(3) line_more(2) b(4)] have u: "bs = as" "toks buf s2 = ?r"
      using \<open>\<not> heads ?r {t_amp}\<close> by blast+
    obtain s3 q e' s4 where q: "peek buf s2 [t_semi] = (True, s3)" "gettoken buf s3 = (t_semi, q, e', s4)" "toks buf s4 = us @ rest"
      using next_sym [of t_semi buf s2] u(2) by auto
    then obtain s5 where "parseline m buf s4 = Parsed (d, s5)" "toks buf s5 = rest" using line_more.IH(2) n(3) h(2) by blast
    then show "\<exists>s'. parseline n buf s = Parsed (LIST ((BACK ^^ length as) c) d, s') \<and> toks buf s' = rest"
      using e(1) b(1) u(1) q by (simp add: n(1))
  qed
qed

subsection \<open>Enough fuel\<close>

lemma parseredirs_fuel: "parseredirs buf c s \<noteq> Fuel"
proof (induction s arbitrary: c rule: measure_induct_rule [where f = "\<lambda>s. length (toks buf s)"])
  case (less s)
  note turn = parseredirs_turn [of buf s c]
  show ?case
  proof (cases "\<exists>t q eq ts. toks buf s = t # (t_word, q, eq) # ts \<and> heads (toks buf s) (set [t_lt, t_gt])")
    case True
    then obtain t q eq ts where t: "toks buf s = t # (t_word, q, eq) # ts" "heads (toks buf s) (set [t_lt, t_gt])" by blast
    then obtain s' where "parseredirs buf c s = parseredirs buf (redir_of (fst t) c (q, eq)) s'" "toks buf s' = ts"
      using turn by auto
    then show ?thesis using less [of s'] t(1) by simp
  next
    case False
    then show ?thesis using turn
      by (cases "heads (toks buf s) (set [t_lt, t_gt])") (auto split: list.splits if_splits)
  qed
qed

lemma parseargs_fuel: "parseargs buf argc ret s \<noteq> Fuel"
proof (induction s arbitrary: argc ret rule: measure_induct_rule [where f = "\<lambda>s. length (toks buf s)"])
  case (less s)
  show ?case
  proof
    assume f: "parseargs buf argc ret s = Fuel"
    let ?t = "hd (toks buf s)"
    obtain s' where s': "toks buf s = ?t # toks buf s'" "parseargs buf argc ret s
       = pbind (parseredirs buf (add_arg (snd ?t) ret) s') (\<lambda>(ret, s). parseargs buf (argc + 1) ret s)"
      using parseargs_turn [of buf s argc ret] f by (auto simp: Let_def split: if_splits)
    then obtain r s3 where r: "parseredirs buf (add_arg (snd ?t) ret) s' = Parsed (r, s3)" "parseargs buf (argc + 1) r s3 = Fuel"
      using f parseredirs_fuel [of buf "add_arg (snd ?t) ret" s'] by (cases "parseredirs buf (add_arg (snd ?t) ret) s'") auto
    have "length (toks buf s3) < length (toks buf s)" using parseredirs_sound [OF r(1)] by (subst s'(1)) auto
    then show False using less r(2) by blast
  qed
qed

lemma descent_fuel:
  "(\<forall>s. 4 * length (toks buf s) + 3 \<le> n \<longrightarrow> parseline n buf s \<noteq> Fuel)
   \<and> (\<forall>s. 4 * length (toks buf s) + 2 \<le> n \<longrightarrow> parsepipe n buf s \<noteq> Fuel)
   \<and> (\<forall>s. 4 * length (toks buf s) + 1 \<le> n \<longrightarrow> parseexec n buf s \<noteq> Fuel)
   \<and> (\<forall>s. heads (toks buf s) {t_lp} \<longrightarrow> 4 * length (toks buf s) \<le> n \<longrightarrow> parseblock n buf s \<noteq> Fuel)"
proof (induction n)
  case 0
  then show ?case by (auto simp: heads_def)
next
  case (Suc n)
  have IH: "4 * length (toks buf s) + 3 \<le> n \<Longrightarrow> parseline n buf s \<noteq> Fuel"
    "4 * length (toks buf s) + 2 \<le> n \<Longrightarrow> parsepipe n buf s \<noteq> Fuel"
    "4 * length (toks buf s) + 1 \<le> n \<Longrightarrow> parseexec n buf s \<noteq> Fuel"
    "heads (toks buf s) {t_lp} \<Longrightarrow> 4 * length (toks buf s) \<le> n \<Longrightarrow> parseblock n buf s \<noteq> Fuel" for s
    using Suc by blast+
  have line: "parseline (Suc n) buf s \<noteq> Fuel" if l: "4 * length (toks buf s) + 3 \<le> Suc n" for s
  proof (cases "parsepipe n buf s")
    case (Parsed x)
    obtain d s1 where x: "x = (d, s1)" by (cases x)
    have "length (toks buf s1) \<le> length (toks buf s)" using parse_sound [of n buf] Parsed x by fastforce
    moreover obtain as s2 where as: "parseamps buf d s1 = ((BACK ^^ length as) d, s2)" "toks buf s1 = as @ toks buf s2"
      using parseamps_spec [of buf d s1] by blast
    ultimately have le: "length (toks buf s2) \<le> length (toks buf s)" by simp
    show ?thesis
    proof (cases "heads (toks buf s2) {t_semi}")
      case True
      then obtain s3 q e s4 where n: "peek buf s2 [t_semi] = (True, s3)" "gettoken buf s3 = (t_semi, q, e, s4)"
        "toks buf s2 = (t_semi, q, e) # toks buf s4" using next_sym [of t_semi buf s2] by auto
      have "4 * length (toks buf s4) + 3 \<le> n" using le l n(3) by simp
      from IH(1) [OF this] show ?thesis using Parsed x as(1) n by (cases "parseline n buf s4") auto
    next
      case False
      then show ?thesis using next_sym [of t_semi buf s2] Parsed x as(1) by auto
    qed
  qed (use IH(2) [of s] l in auto)
  have pipe: "parsepipe (Suc n) buf s \<noteq> Fuel" if l: "4 * length (toks buf s) + 2 \<le> Suc n" for s
  proof (cases "parseexec n buf s")
    case (Parsed x)
    obtain d s1 where x: "x = (d, s1)" by (cases x)
    have le: "length (toks buf s1) \<le> length (toks buf s)" using parse_sound [of n buf] Parsed x by fastforce
    show ?thesis
    proof (cases "heads (toks buf s1) {t_bar}")
      case True
      then obtain s3 q e s4 where n: "peek buf s1 [t_bar] = (True, s3)" "gettoken buf s3 = (t_bar, q, e, s4)"
        "toks buf s1 = (t_bar, q, e) # toks buf s4" using next_sym [of t_bar buf s1] by auto
      have "4 * length (toks buf s4) + 2 \<le> n" using le l n(3) by simp
      from IH(2) [OF this] show ?thesis using Parsed x n by (cases "parsepipe n buf s4") auto
    next
      case False
      then show ?thesis using next_sym [of t_bar buf s1] Parsed x by auto
    qed
  qed (use IH(3) [of s] l in auto)
  have exec: "parseexec (Suc n) buf s \<noteq> Fuel" if l: "4 * length (toks buf s) + 1 \<le> Suc n" for s
  proof (cases "heads (toks buf s) {t_lp}")
    case True
    then obtain s1 where s1: "peek buf s [t_lp] = (True, s1)" "toks buf s1 = toks buf s" using next_sym [of t_lp buf s] by auto
    then show ?thesis using IH(4) [of s1] True l by simp
  next
    case False
    then obtain s1 where s1: "peek buf s [t_lp] = (False, s1)" using next_sym [of t_lp buf s] by auto
    show ?thesis using parseredirs_fuel [of buf "EXEC []" s1] parseargs_fuel s1
      by (cases "parseredirs buf (EXEC []) s1") auto
  qed
  have block: "parseblock (Suc n) buf s \<noteq> Fuel" if h: "heads (toks buf s) {t_lp}" and l: "4 * length (toks buf s) \<le> Suc n" for s
  proof -
    obtain s1 q e s2 where n: "peek buf s [t_lp] = (True, s1)" "gettoken buf s1 = (t_lp, q, e, s2)"
      "toks buf s = (t_lp, q, e) # toks buf s2" using next_sym [of t_lp buf s] h by auto
    then have "4 * length (toks buf s2) + 3 \<le> n" using l by simp
    from IH(1) [OF this] show ?thesis using n parseredirs_fuel
      by (cases "parseline n buf s2") (auto split: prod.splits)
  qed
  show ?case using line pipe exec block by blast
qed

subsection \<open>The strings\<close>

lemma skip_word_le: "s \<le> length buf \<Longrightarrow> skip_word buf s \<le> length buf"
  by (induction buf s rule: skip_word.induct) (subst skip_word.simps, auto)

lemma gettoken_span:
  assumes g: "gettoken buf s = (r, q, e, s')" and r: "r \<noteq> 0"
  shows "s \<le> q" and "q < e" and "e \<le> s'" and "e \<le> length buf"
proof -
  let ?q = "skip_ws buf s"
  have q: "q = ?q" and s': "s' = skip_ws buf e" using g by (auto simp: gettoken_def Let_def split: prod.splits)
  have c: "ch buf ?q \<noteq> 0" using g r by (auto simp: gettoken_def Let_def split: if_splits)
  then have lt: "?q < length buf" by (rule ch_end)
  have e: "e = (if ch buf ?q \<in> {t_bar, t_lp, t_rp, t_semi, t_amp, t_lt} then ?q + 1
      else if ch buf ?q = t_gt then if ch buf (?q + 1) = t_gt then ?q + 2 else ?q + 1 else skip_word buf ?q)"
    using g c by (auto simp: gettoken_def Let_def split: if_splits)
  have "?q < skip_word buf ?q" if "ch buf ?q \<notin> set symbols"
  proof -
    have "skip_word buf ?q = skip_word buf (?q + 1)" using that lt skip_ws_stop [OF lt] by (subst skip_word.simps) simp
    then show ?thesis using skip_word_ge [of "?q + 1" buf] by simp
  qed
  then show "q < e" unfolding q e by (auto simp: sym_set)
  have "?q + 1 < length buf" if "ch buf (?q + 1) = t_gt" by (rule ch_end) (simp only: that, simp)
  then show "e \<le> length buf" unfolding e using lt skip_word_le [of ?q buf] by auto
  show "s \<le> q" "e \<le> s'" unfolding q s' by (rule skip_ws_ge)+
qed

lemma toks_spans:
  "(\<forall>t\<in>set (toks buf s). s \<le> fst (snd t) \<and> fst (snd t) < snd (snd t) \<and> snd (snd t) \<le> length buf)
   \<and> sorted_wrt (\<lambda>t u. snd (snd t) \<le> fst (snd u)) (toks buf s) \<and> length (toks buf s) \<le> length buf - s"
proof (induction buf s rule: toks.induct)
  case (1 buf s)
  obtain r q e s' where g: "gettoken buf s = (r, q, e, s')" by (rule prod_cases4)
  show ?case
  proof (cases "r = 0")
    case True
    then show ?thesis using gettoken_toks [OF g] by simp
  next
    case False
    note sp = gettoken_span [OF g False]
    show ?thesis using 1 [OF g [symmetric] refl refl False] gettoken_toks [OF g] False sp by fastforce
  qed
qed

text \<open>The strings of a command.\<close>

primrec spans :: "cmd \<Rightarrow> span set" where
  "spans (EXEC as) = set as"
| "spans (REDIR c q eq mode fd) = insert (q, eq) (spans c)"
| "spans (PIPE l r) = spans l \<union> spans r"
| "spans (LIST l r) = spans l \<union> spans r"
| "spans (BACK c) = spans c"

lemma nulterminate_exec: "fold (\<lambda>(q, eq) b. b(eq := 0)) as b i = (if i \<in> snd ` set as then 0 else b i)"
  for b :: "nat \<Rightarrow> u8"
  by (induction as arbitrary: b) auto

lemma nulterminate_at: "nulterminate c b i = (if i \<in> snd ` spans c then 0 else b i)"
  by (induction c arbitrary: b) (simp_all add: nulterminate_exec image_Un)

lemma spans_back [simp]: "spans ((BACK ^^ n) c) = spans c"
  by (induction n) simp_all

lemma spans_wrap: "spans (wrap c is) \<subseteq> spans c \<union> {w. (t_word, w) \<in> set (items_toks is)}"
proof (induction "is" arbitrary: c)
  case (Cons i "is")
  show ?case
  proof (cases i)
    case (Word w)
    then show ?thesis using Cons [of c] by auto
  next
    case (Redirect r p w)
    have "spans (redir_of r c w) \<subseteq> insert w (spans c)" by (auto simp: redir_of_def)
    moreover have "(t_word, w) \<in> set (items_toks (i # is))" by (simp add: Redirect)
    ultimately show ?thesis using Cons [of "redir_of r c w"] by (simp add: Redirect) blast
  qed
qed simp

lemma item_words_toks: "set (item_words is) \<subseteq> {w. (t_word, w) \<in> set (items_toks is)}"
  by (induction "is") (auto split: item.splits)

lemma grammar_spans:
  "line ts c \<Longrightarrow> spans c \<subseteq> {w. (t_word, w) \<in> set ts}"
  "pipeline ts c \<Longrightarrow> spans c \<subseteq> {w. (t_word, w) \<in> set ts}"
  "simple ts c \<Longrightarrow> spans c \<subseteq> {w. (t_word, w) \<in> set ts}"
proof (induction rule: line_pipeline_simple.inducts)
  case (simple_items "is")
  show ?case using spans_wrap [of "EXEC (item_words is)" "is"] item_words_toks [of "is"] by auto
next
  case (simple_block ts c "is" p p')
  then show ?case using spans_wrap [of c "is"] by auto
qed auto

text \<open>A word is a longest run of ordinary characters.\<close>

definition special :: "u8 \<Rightarrow> bool" where
  "special c \<longleftrightarrow> c \<in> set whitespace \<union> set symbols"

lemma skip_word_run: "s \<le> i \<Longrightarrow> i < skip_word buf s \<Longrightarrow> \<not> special (ch buf i)"
proof (induction buf s rule: skip_word.induct)
  case (1 buf s)
  show ?case
  proof (cases "s < length buf \<and> strchr whitespace (ch buf s) = None \<and> strchr symbols (ch buf s) = None")
    case True
    then have "skip_word buf s = skip_word buf (s + 1)" by (subst skip_word.simps) simp
    then show ?thesis using 1 True by (cases "i = s") (auto simp: special_def)
  next
    case False
    then have "skip_word buf s = s" by (subst skip_word.simps) auto
    then show ?thesis using 1(2,3) by simp
  qed
qed

lemma skip_word_stop: "skip_word buf s < length buf \<Longrightarrow> special (ch buf (skip_word buf s))"
proof (induction buf s rule: skip_word.induct)
  case (1 buf s)
  show ?case
  proof (cases "s < length buf \<and> strchr whitespace (ch buf s) = None \<and> strchr symbols (ch buf s) = None")
    case True
    then have "skip_word buf s = skip_word buf (s + 1)" by (subst skip_word.simps) simp
    then show ?thesis using 1 True by simp
  next
    case False
    then have "skip_word buf s = s" by (subst skip_word.simps) auto
    then show ?thesis using False 1(2) by (auto simp: special_def)
  qed
qed

lemma toks_word: "(t_word, q, e) \<in> set (toks buf s) \<Longrightarrow> (\<forall>i. q \<le> i \<and> i < e \<longrightarrow> \<not> special (ch buf i)) \<and> (e < length buf \<longrightarrow> special (ch buf e))"
proof (induction buf s rule: toks.induct)
  case (1 buf s)
  obtain r q' e' s' where g: "gettoken buf s = (r, q', e', s')" by (rule prod_cases4)
  have "r \<noteq> 0" using 1(2) gettoken_toks [OF g] by auto
  then consider "(t_word, q, e) = (r, q', e')" | "(t_word, q, e) \<in> set (toks buf s')"
    using 1(2) gettoken_toks [OF g] by auto
  then show ?case
  proof cases
    case 1
    then have "e = skip_word buf q" using g by (auto simp: gettoken_def Let_def split: if_splits)
    then show ?thesis using skip_word_run [of q] skip_word_stop [of buf q] by auto
  next
    case 2
    then show ?thesis using 1 g \<open>r \<noteq> 0\<close> by auto
  qed
qed

lemma word_ends_outside:
  assumes "(t_word, q, e) \<in> set (toks buf s)" and "(t_word, q', e') \<in> set (toks buf s)"
  shows "\<not> (q \<le> e' \<and> e' < e)"
proof
  assume h: "q \<le> e' \<and> e' < e"
  have "e \<le> length buf" using toks_spans [of buf s] assms(1) by force
  then show False using toks_word [OF assms(1)] toks_word [OF assms(2)] h by auto
qed

subsection \<open>Staying in the line\<close>

lemma peek_le: "peek buf s cs = (b, s') \<Longrightarrow> s \<le> length buf \<Longrightarrow> s' \<le> length buf"
  using skip_ws_le [of s buf] by (auto simp: peek_def Let_def)

lemma gettoken_le: "gettoken buf s = (r, q, e, s') \<Longrightarrow> s \<le> length buf \<Longrightarrow> s' \<le> length buf"
proof -
  assume g: "gettoken buf s = (r, q, e, s')" and s: "s \<le> length buf"
  have s': "s' = skip_ws buf e" using g by (auto simp: gettoken_def Let_def split: prod.splits)
  have "e \<le> length buf"
  proof (cases "r = 0")
    case True
    then have "e = skip_ws buf s" using g by (auto simp: gettoken_def Let_def split: if_splits)
    then show ?thesis using skip_ws_le [OF s] by simp
  qed (rule gettoken_span(4) [OF g])
  then show ?thesis unfolding s' by (rule skip_ws_le)
qed

lemma parseredirs_le: "parseredirs buf cmd s = Parsed (c, s') \<Longrightarrow> s \<le> length buf \<Longrightarrow> s' \<le> length buf"
proof (induction buf cmd s arbitrary: c s' rule: parseredirs.induct)
  case (1 buf cmd s)
  obtain b s1 where p: "peek buf s [t_lt, t_gt] = (b, s1)" by fastforce
  obtain tok q0 e0 s2 where g: "gettoken buf s1 = (tok, q0, e0, s2)" by (rule prod_cases4)
  obtain w q eq s3 where h: "gettoken buf s2 = (w, q, eq, s3)" by (rule prod_cases4)
  have le: "s1 \<le> length buf" "s3 \<le> length buf" using peek_le [OF p] gettoken_le [OF g] gettoken_le [OF h] 1(3) by auto
  show ?case
  proof (cases "b \<and> w = t_word")
    case True
    have "parseredirs buf (redir_of tok cmd (q, eq)) s3 = Parsed (c, s')"
      using 1(2) True by (subst (asm) parseredirs.simps) (simp add: p g h)
    from 1(1) [OF refl p [symmetric] _ refl g [symmetric] refl refl refl h [symmetric] refl refl _ this le(2)] True
    show ?thesis by simp
  next
    case False
    then show ?thesis using 1(2) le by (subst (asm) parseredirs.simps) (auto simp: p g h split: if_splits)
  qed
qed

lemma parseargs_le: "parseargs buf argc ret s = Parsed (c, s') \<Longrightarrow> s \<le> length buf \<Longrightarrow> s' \<le> length buf"
proof (induction s arbitrary: argc ret rule: measure_induct_rule [where f = "\<lambda>s. length buf - s"])
  case (less s)
  obtain b s1 where p: "peek buf s [t_bar, t_rp, t_amp, t_semi] = (b, s1)" by fastforce
  obtain tok q e s2 where g: "gettoken buf s1 = (tok, q, e, s2)" by (rule prod_cases4)
  have le: "s1 \<le> length buf" "s2 \<le> length buf" "s \<le> s1" using peek_le [OF p] gettoken_le [OF g] peek_ge [OF p] less.prems(2) by auto
  have eq: "parseargs buf argc ret s = (if b then Parsed (ret, s1) else if tok = 0 then Parsed (ret, s2)
     else if tok \<noteq> t_word then Syntax ''syntax'' else if argc + 1 \<ge> MAXARGS then Syntax ''too many args''
     else pbind (parseredirs buf (add_arg (q, e) ret) s2) (\<lambda>(ret, s). parseargs buf (argc + 1) ret s))"
    by (subst parseargs.simps) (simp add: p g Let_def)
  show ?case
  proof (cases "b \<or> tok = 0")
    case False
    then obtain r s3 where r: "parseredirs buf (add_arg (q, e) ret) s2 = Parsed (r, s3)" "parseargs buf (argc + 1) r s3 = Parsed (c, s')"
      using less.prems(1) unfolding eq by (auto simp: pbind_eq_Parsed split: if_splits)
    have "s < s3" "s3 \<le> length buf" using parseredirs_ge [OF r(1)] parseredirs_le [OF r(1) le(2)] gettoken_step [OF g] le(3) False by auto
    then show ?thesis using less.IH [OF _ r(2)] by simp
  qed (use less.prems(1) le eq in \<open>auto split: if_splits\<close>)
qed

lemma parseamps_le: "parseamps buf c s = (d, s') \<Longrightarrow> s \<le> length buf \<Longrightarrow> s' \<le> length buf"
proof (induction s arbitrary: c rule: measure_induct_rule [where f = "\<lambda>s. length buf - s"])
  case (less s)
  obtain b s1 where p: "peek buf s [t_amp] = (b, s1)" by fastforce
  obtain tok q e s2 where g: "gettoken buf s1 = (tok, q, e, s2)" by (rule prod_cases4)
  have le: "s1 \<le> length buf" "s2 \<le> length buf" "s \<le> s1" using peek_le [OF p] gettoken_le [OF g] peek_ge [OF p] less.prems(2) by auto
  have eq: "parseamps buf c s = (if b then parseamps buf (BACK c) s2 else (c, s1))"
    by (subst parseamps.simps) (simp add: p g)
  show ?case
  proof (cases b)
    case True
    then have "s1 < s2" "s1 < length buf" using peek_token [OF _ g] peek_ge [OF p] p by simp_all
    then show ?thesis using less.IH [of s2 "BACK c"] less.prems(1) eq True le by simp
  qed (use less.prems(1) le eq in simp)
qed

lemma descent_le:
  "(\<forall>s c s'. parseline n buf s = Parsed (c, s') \<longrightarrow> s \<le> length buf \<longrightarrow> s' \<le> length buf)
   \<and> (\<forall>s c s'. parsepipe n buf s = Parsed (c, s') \<longrightarrow> s \<le> length buf \<longrightarrow> s' \<le> length buf)
   \<and> (\<forall>s c s'. parseexec n buf s = Parsed (c, s') \<longrightarrow> s \<le> length buf \<longrightarrow> s' \<le> length buf)
   \<and> (\<forall>s c s'. parseblock n buf s = Parsed (c, s') \<longrightarrow> s \<le> length buf \<longrightarrow> s' \<le> length buf)"
proof (induction n)
  case (Suc n)
  have IH: "parseline n buf s = Parsed (c, s') \<Longrightarrow> s \<le> length buf \<Longrightarrow> s' \<le> length buf"
    "parsepipe n buf s = Parsed (c, s') \<Longrightarrow> s \<le> length buf \<Longrightarrow> s' \<le> length buf"
    "parseexec n buf s = Parsed (c, s') \<Longrightarrow> s \<le> length buf \<Longrightarrow> s' \<le> length buf"
    "parseblock n buf s = Parsed (c, s') \<Longrightarrow> s \<le> length buf \<Longrightarrow> s' \<le> length buf" for s c s'
    using Suc by blast+
  have line: "s' \<le> length buf" if l: "parseline (Suc n) buf s = Parsed (c, s')" "s \<le> length buf" for s c s'
  proof -
    obtain d s1 where d: "parsepipe n buf s = Parsed (d, s1)" using l(1) by (auto simp: pbind_eq_Parsed)
    obtain d2 s2 where a: "parseamps buf d s1 = (d2, s2)" by fastforce
    obtain b s3 where p: "peek buf s2 [t_semi] = (b, s3)" by fastforce
    obtain r q e s4 where g: "gettoken buf s3 = (r, q, e, s4)" by (rule prod_cases4)
    have le: "s3 \<le> length buf" "s4 \<le> length buf" using IH(2) [OF d l(2)] parseamps_le [OF a] peek_le [OF p] gettoken_le [OF g] by auto
    show ?thesis
    proof (cases b)
      case True
      then obtain f where "parseline n buf s4 = Parsed (f, s')" using l(1) by (auto simp: pbind_eq_Parsed d a p g)
      from IH(1) [OF this le(2)] show ?thesis .
    qed (use l(1) le in \<open>simp add: d a p g\<close>)
  qed
  have pipe: "s' \<le> length buf" if l: "parsepipe (Suc n) buf s = Parsed (c, s')" "s \<le> length buf" for s c s'
  proof -
    obtain d s1 where d: "parseexec n buf s = Parsed (d, s1)" using l(1) by (auto simp: pbind_eq_Parsed)
    obtain b s3 where p: "peek buf s1 [t_bar] = (b, s3)" by fastforce
    obtain r q e s4 where g: "gettoken buf s3 = (r, q, e, s4)" by (rule prod_cases4)
    have le: "s3 \<le> length buf" "s4 \<le> length buf" using IH(3) [OF d l(2)] peek_le [OF p] gettoken_le [OF g] by auto
    show ?thesis
    proof (cases b)
      case True
      then obtain f where "parsepipe n buf s4 = Parsed (f, s')" using l(1) by (auto simp: pbind_eq_Parsed d p g)
      from IH(2) [OF this le(2)] show ?thesis .
    qed (use l(1) le in \<open>simp add: d p g\<close>)
  qed
  have block: "s' \<le> length buf" if l: "parseblock (Suc n) buf s = Parsed (c, s')" "s \<le> length buf" for s c s'
  proof -
    obtain b s1 where p: "peek buf s [t_lp] = (b, s1)" by fastforce
    obtain r q e s2 where g: "gettoken buf s1 = (r, q, e, s2)" by (rule prod_cases4)
    obtain d s3 where d: "parseline n buf s2 = Parsed (d, s3)" using l(1) by (auto simp: pbind_eq_Parsed p g split: if_splits)
    obtain b' s4 where p': "peek buf s3 [t_rp] = (b', s4)" by fastforce
    obtain r' q' e' s5 where g': "gettoken buf s4 = (r', q', e', s5)" by (rule prod_cases4)
    have "s5 \<le> length buf"
      using l(2) peek_le [OF p] gettoken_le [OF g] IH(1) [OF d] peek_le [OF p'] gettoken_le [OF g'] by auto
    moreover have "parseredirs buf d s5 = Parsed (c, s')" using l(1) by (simp add: p g d p' g' split: if_splits)
    ultimately show ?thesis using parseredirs_le by blast
  qed
  have exec: "s' \<le> length buf" if l: "parseexec (Suc n) buf s = Parsed (c, s')" "s \<le> length buf" for s c s'
  proof -
    obtain b s1 where p: "peek buf s [t_lp] = (b, s1)" by fastforce
    have le: "s1 \<le> length buf" using peek_le [OF p l(2)] .
    show ?thesis
    proof (cases b)
      case True
      then show ?thesis using l(1) IH(4) [OF _ le] by (simp add: p)
    next
      case False
      then obtain r s2 where r: "parseredirs buf (EXEC []) s1 = Parsed (r, s2)" "parseargs buf 0 r s2 = Parsed (c, s')"
        using l(1) by (auto simp: p pbind_eq_Parsed)
      show ?thesis using parseargs_le [OF r(2) parseredirs_le [OF r(1) le]] .
    qed
  qed
  show ?case using line pipe exec block by blast
qed simp

subsection \<open>The whole line\<close>

lemma parsecmd_spec:
  assumes "0 \<notin> set buf"
  shows "parsecmd buf = Parsed (c, b) \<longleftrightarrow> line (toks buf 0) c \<and> b = nulterminate c (ch buf)"
proof
  assume p: "parsecmd buf = Parsed (c, b)"
  then obtain s where l: "parseline (parse_fuel buf) buf 0 = Parsed (c, s)" "skip_ws buf s = length buf" "b = nulterminate c (ch buf)"
    by (auto simp: parsecmd_def pbind_eq_Parsed peek_def Let_def split: if_splits)
  then obtain ts where ts: "line ts c" "toks buf 0 = ts @ toks buf s" using parse_sound [of "parse_fuel buf" buf] by blast
  have "length (toks buf (skip_ws buf s)) \<le> length buf - skip_ws buf s" using toks_spans by blast
  then have "toks buf (skip_ws buf s) = []" unfolding l(2) by simp
  then have "toks buf s = []" unfolding toks_skip .
  then show "line (toks buf 0) c \<and> b = nulterminate c (ch buf)" using ts l(3) by simp
next
  assume h: "line (toks buf 0) c \<and> b = nulterminate c (ch buf)"
  have "length (toks buf 0) \<le> length buf" using toks_spans [of buf 0] by simp
  then have "4 * length (toks buf 0) + 3 \<le> parse_fuel buf" by (simp add: parse_fuel_def)
  moreover have "toks buf 0 = toks buf 0 @ []" by simp
  moreover have "follows {t_rp} []" by simp
  ultimately obtain s where s: "parseline (parse_fuel buf) buf 0 = Parsed (c, s)" "toks buf s = []"
    using parse_complete(1) [of "toks buf 0" c buf] h by blast
  obtain q e s' where "gettoken buf s = (0, q, e, s')" using toks_Nil [OF s(2)] by blast
  then have z: "ch buf (skip_ws buf s) = 0" by (auto simp: gettoken_def Let_def split: if_splits)
  have "skip_ws buf s \<le> length buf" using descent_le [of "parse_fuel buf" buf] s(1) skip_ws_le by blast
  moreover have "\<not> skip_ws buf s < length buf" using z assms by (metis ch_def nth_mem)
  ultimately have "skip_ws buf s = length buf" by simp
  then show "parsecmd buf = Parsed (c, b)" using s(1) h by (simp add: parsecmd_def peek_def Let_def)
qed

lemma strings_spec:
  assumes "0 \<notin> set buf" and "parsecmd buf = Parsed (c, b)" and "(q, e) \<in> spans c"
  shows "q < e \<and> e \<le> length buf \<and> b e = 0 \<and> (\<forall>i. q \<le> i \<and> i < e \<longrightarrow> b i = buf ! i \<and> b i \<noteq> 0 \<and> \<not> special (b i))"
proof -
  obtain s where l: "parseline (parse_fuel buf) buf 0 = Parsed (c, s)" and b: "b = nulterminate c (ch buf)"
    using assms(2) by (auto simp: parsecmd_def pbind_eq_Parsed peek_def Let_def split: if_splits)
  then obtain ts where ts: "line ts c" "toks buf 0 = ts @ toks buf s" using parse_sound [of "parse_fuel buf" buf] by blast
  have w: "(t_word, w) \<in> set (toks buf 0)" if "w \<in> spans c" for w using grammar_spans(1) [OF ts(1)] that ts(2) by auto
  have qe: "(t_word, q, e) \<in> set (toks buf 0)" using w assms(3) by blast
  have r: "q < e" "e \<le> length buf" using toks_spans [of buf 0] qe by force+
  moreover have "b i = buf ! i \<and> b i \<noteq> 0 \<and> \<not> special (b i)" if "q \<le> i" "i < e" for i
  proof -
    have "i \<notin> snd ` spans c" using word_ends_outside [OF qe] w that by fastforce
    then have "b i = ch buf i" unfolding b nulterminate_at by simp
    moreover have "i < length buf" using that r by simp
    moreover have "buf ! i \<noteq> 0" using assms(1) nth_mem [of i buf] calculation(2) by metis
    moreover have "\<not> special (ch buf i)" using toks_word [OF qe] that by blast
    ultimately show ?thesis by (simp add: ch_def)
  qed
  moreover have "b e = 0" unfolding b nulterminate_at using assms(3) by force
  ultimately show ?thesis by blast
qed

subsection \<open>Properties\<close>

text \<open>C33: the shell's parser accepts exactly the grammar of commands, and the tree it returns is the one the
  grammar gives; the buffer it returns is the line with a NUL behind every string.\<close>

theorem parsecmd_correct:
  assumes "0 \<notin> set buf"
  shows "parsecmd buf = Parsed (c, b) \<longleftrightarrow> line (toks buf 0) c \<and> b = nulterminate c (ch buf)"
  by (rule parsecmd_spec [OF assms])

text \<open>C34: the parser ends on every line, with a command or a syntax error: the recursion is never deeper than
  the fuel \<open>parsecmd\<close> gives it.\<close>

theorem parsecmd_terminates: "(\<exists>c b. parsecmd buf = Parsed (c, b)) \<or> (\<exists>e. parsecmd buf = Syntax e)"
proof -
  have "length (toks buf 0) \<le> length buf" using toks_spans [of buf 0] by simp
  then have "4 * length (toks buf 0) + 3 \<le> parse_fuel buf" by (simp add: parse_fuel_def)
  then have "parseline (parse_fuel buf) buf 0 \<noteq> Fuel" using descent_fuel [of buf] by blast
  then have "parsecmd buf \<noteq> Fuel"
    by (cases "parseline (parse_fuel buf) buf 0") (auto simp: parsecmd_def Let_def split: prod.splits)
  then show ?thesis by (cases "parsecmd buf") auto
qed

text \<open>C35: the strings of a parsed command. Each is not empty, its characters are those of the line, with no white
  space, no symbol and no NUL among them, and a NUL ends it: writing the NULs has not cut any string short.\<close>

theorem parsecmd_strings:
  assumes "0 \<notin> set buf" and "parsecmd buf = Parsed (c, b)" and "(q, e) \<in> spans c"
  shows "q < e \<and> e \<le> length buf \<and> b e = 0 \<and> (\<forall>i. q \<le> i \<and> i < e \<longrightarrow> b i = buf ! i \<and> b i \<noteq> 0 \<and> \<not> special (b i))"
  by (rule strings_spec [OF assms])

subsection \<open>An example\<close>

text \<open>\<^verbatim>\<open>a|(b>c)&\<close>.\<close>

definition example :: "u8 list" where
  "example = [97, t_bar, t_lp, 98, t_gt, 99, t_rp, t_amp]"

lemma example_parse: "\<exists>b. parsecmd example = Parsed
    (BACK (PIPE (EXEC [(0, 1)]) (REDIR (EXEC [(3, 4)]) 5 6 (O_WRONLY OR O_CREATE OR O_TRUNC) 1)), b)"
proof -
  have "case parsecmd example of Parsed (c, b) \<Rightarrow> c = BACK (PIPE (EXEC [(0, 1)]) (REDIR (EXEC [(3, 4)]) 5 6 (O_WRONLY OR O_CREATE OR O_TRUNC) 1))
      | _ \<Rightarrow> False"
    by code_simp
  then show ?thesis by (cases "parsecmd example") auto
qed

theorem parsecmd_correct_witness:
  "line (toks example 0) (BACK (PIPE (EXEC [(0, 1)]) (REDIR (EXEC [(3, 4)]) 5 6 (O_WRONLY OR O_CREATE OR O_TRUNC) 1)))"
proof -
  have "0 \<notin> set example" by (simp add: example_def)
  then show ?thesis using example_parse parsecmd_correct [of example] by blast
qed

theorem parsecmd_strings_witness: "\<exists>c b. parsecmd example = Parsed (c, b) \<and> b 5 = 99 \<and> b 6 = 0"
proof -
  obtain c b where p: "parsecmd example = Parsed (c, b)" "(5, 6) \<in> spans c" using example_parse by auto
  have "0 \<notin> set example" by (simp add: example_def)
  from parsecmd_strings [OF this p] have "b 6 = 0" "b 5 = example ! 5" by auto
  then show ?thesis using p(1) by (auto simp: example_def)
qed

end
