(* ===== verification/Runcmd.thy ===== *)
theory Runcmd
  imports Usys Grammar
begin

unbundle bit_operations_syntax

text \<open>
  What the shell does with a parsed command, the rest of \<^verbatim>\<open>user/sh.c\<close>: \<open>runcmd\<close> with its forks and
  descriptors, and the main loop. The command line is in a buffer of 100 bytes; a string is read from it at
  the moment it is passed to the kernel. It is shown which programs a line executes and with which open
  files: those that its redirections and pipes name, and no stray end of a pipe.
\<close>

subsection \<open>Running a command\<close>

definition c_str :: "(nat \<Rightarrow> u8) \<Rightarrow> nat \<Rightarrow> u8 list" where
  "c_str b q = takeWhile (\<lambda>c. c \<noteq> 0) (map b [q..<100])"

definition sh_panic :: "string \<Rightarrow> prog" where
  "sh_panic s = fprintln 2 ''%s'' [arg_s (bytes s)] (Exit 1)"

definition fork1 :: "(int \<Rightarrow> prog) \<Rightarrow> prog" where
  "fork1 k = Sys Sys_fork (\<lambda>a. if rv a = -1 then sh_panic ''fork'' else k (rv a))"

primrec runcmd :: "(nat \<Rightarrow> u8) \<Rightarrow> cmd \<Rightarrow> prog" where
  "runcmd b (EXEC as) =
    (if as = [] then Exit 1
     else
       let argv = map (\<lambda>a. c_str b (fst a)) as
       in Sys (Sys_exec (hd argv) argv) (\<lambda>_. fprintln 2 ''exec %s failed'' [arg_s (hd argv)] (Exit 0)))"
| "runcmd b (REDIR cmd file efile mode fd) =
    Sys (Sys_close fd) (\<lambda>_.
    Sys (Sys_open (c_str b file) mode) (\<lambda>a.
    if rv a < 0 then fprintln 2 ''open %s failed'' [arg_s (c_str b file)] (Exit 1)
    else runcmd b cmd))"
| "runcmd b (LIST left right) =
    fork1 (\<lambda>n. if n = 0 then runcmd b left else Sys Sys_wait (\<lambda>_. runcmd b right))"
| "runcmd b (PIPE left right) =
    Sys Sys_pipe (\<lambda>a.
    if rv a < 0 then sh_panic ''pipe''
    else
      case rfds a of (p0, p1) \<Rightarrow>
      fork1 (\<lambda>n.
      if n = 0 then
        Sys (Sys_close 1) (\<lambda>_. Sys (Sys_dup p1) (\<lambda>_. Sys (Sys_close p0) (\<lambda>_. Sys (Sys_close p1) (\<lambda>_. runcmd b left))))
      else fork1 (\<lambda>n.
      if n = 0 then
        Sys (Sys_close 0) (\<lambda>_. Sys (Sys_dup p0) (\<lambda>_. Sys (Sys_close p0) (\<lambda>_. Sys (Sys_close p1) (\<lambda>_. runcmd b right))))
      else
        Sys (Sys_close p0) (\<lambda>_. Sys (Sys_close p1) (\<lambda>_. Sys Sys_wait (\<lambda>_. Sys Sys_wait (\<lambda>_. Exit 0)))))))"
| "runcmd b (BACK cmd) = fork1 (\<lambda>n. if n = 0 then runcmd b cmd else Exit 0)"

subsection \<open>The main loop\<close>

function gets_sys :: "(nat \<Rightarrow> u8) \<Rightarrow> int \<Rightarrow> nat \<Rightarrow> ((nat \<Rightarrow> u8) \<Rightarrow> prog) \<Rightarrow> prog" where
  "gets_sys buf mx i k =
    (if int i + 1 < mx then
       Sys (Sys_read 0 1) (\<lambda>a.
       if rv a < 1 then k (buf(i := 0))
       else
         let c = hd (rbytes a); buf = buf(i := c)
         in if c = 10 \<or> c = 13 then k (buf(Suc i := 0)) else gets_sys buf mx (Suc i) k)
     else k (buf(i := 0)))"
  by pat_completeness auto
termination
  by (relation "measure (\<lambda>(buf, mx, i, k). nat (mx - int i))") auto

declare gets_sys.simps [simp del]

definition getcmd :: "((nat \<Rightarrow> u8) \<Rightarrow> int \<Rightarrow> prog) \<Rightarrow> prog" where
  "getcmd k = fprintf 2 ''$ '' [] (gets_sys (\<lambda>_. 0) 100 0 (\<lambda>buf. k buf (if buf 0 = 0 then -1 else 0)))"

text \<open>The child's part of a turn. Of a line with a syntax error only the last message is modelled.\<close>

definition sh_child :: "(nat \<Rightarrow> u8) \<Rightarrow> prog" where
  "sh_child buf =
    (case parsecmd (c_str buf 0) of Parsed (cmd, b) \<Rightarrow> runcmd b cmd | Syntax e \<Rightarrow> sh_panic e | Fuel \<Rightarrow> Cut)"

text \<open>At most \<open>n\<close> commands.\<close>

primrec sh_loop :: "nat \<Rightarrow> prog" where
  "sh_loop 0 = Cut"
| "sh_loop (Suc n) =
    getcmd (\<lambda>buf r.
    if r \<ge> 0 then
      if buf 0 = 99 \<and> buf 1 = 100 \<and> buf 2 = 32 then
        let buf = buf(length (c_str buf 0) - 1 := 0)
        in Sys (Sys_chdir (c_str buf 3)) (\<lambda>a.
           if rv a < 0 then fprintln 2 ''cannot cd %s'' [arg_s (c_str buf 3)] (sh_loop n) else sh_loop n)
      else fork1 (\<lambda>n'. if n' = 0 then sh_child buf else Sys Sys_wait (\<lambda>_. sh_loop n))
    else Exit 0)"

text \<open>The loop that opens the console until descriptors 0, 1 and 2 are in use.\<close>

primrec sh_open :: "nat \<Rightarrow> prog \<Rightarrow> prog" where
  "sh_open 0 k = Cut"
| "sh_open (Suc n) k =
    Sys (Sys_open (bytes ''console'') O_RDWR) (\<lambda>a.
    if rv a \<ge> 0 then
      if rv a \<ge> 3 then Sys (Sys_close (rv a)) (\<lambda>_. k) else sh_open n k
    else k)"

definition sh_main :: "nat \<Rightarrow> prog" where
  "sh_main n = sh_open n (sh_loop n)"

subsection \<open>What a command line executes\<close>

text \<open>The string of a span of the line.\<close>

definition word :: "u8 list \<Rightarrow> span \<Rightarrow> u8 list" where
  "word buf w = take (snd w - fst w) (drop (fst w) buf)"

text \<open>The programs of a command with their open files, given those of the shell.\<close>

primrec plumb :: "u8 list \<Rightarrow> cmd \<Rightarrow> fds \<Rightarrow> nat list \<Rightarrow> (u8 list \<times> u8 list list \<times> fds) set" where
  "plumb buf (EXEC as) t h = (if as = [] then {} else {(word buf (hd as), map (word buf) as, t)})"
| "plumb buf (REDIR c q e mode fd) t h = plumb buf c (t(nat fd \<mapsto> Opened (word buf (q, e)) mode)) h"
| "plumb buf (PIPE l r) t h = plumb buf l (t(1 \<mapsto> Pipe_write h)) (h @ [0]) \<union> plumb buf r (t(0 \<mapsto> Pipe_read h)) (h @ [1, 0])"
| "plumb buf (LIST l r) t h = plumb buf l t (h @ [0]) \<union> plumb buf r t (h @ [1])"
| "plumb buf (BACK c) t h = plumb buf c t (h @ [0])"

text \<open>A command that the shell can run: fewer arguments than the arrays have places (the last one is for the null
  pointer), and redirections of the standard input for reading or of the standard output for writing.\<close>

primrec runnable :: "cmd \<Rightarrow> bool" where
  "runnable (EXEC as) = (length as < MAXARGS)"
| "runnable (REDIR c q e mode fd) =
    ((fd = 0 \<and> mode = O_RDONLY \<or> fd = 1 \<and> mode AND (O_WRONLY OR O_CREATE) = O_WRONLY OR O_CREATE) \<and> runnable c)"
| "runnable (PIPE l r) = (runnable l \<and> runnable r)"
| "runnable (LIST l r) = (runnable l \<and> runnable r)"
| "runnable (BACK c) = runnable c"

lemma runnable_back [simp]: "runnable ((BACK ^^ n) c) = runnable c"
  by (induction n) simp_all

lemma runnable_redir_of: "runnable (redir_of r c w) = runnable c"
proof -
  have "(O_WRONLY OR O_CREATE OR O_TRUNC) AND (O_WRONLY OR O_CREATE) = O_WRONLY OR O_CREATE"
    by (simp add: O_WRONLY_def O_CREATE_def O_TRUNC_def)
  then show ?thesis by (simp add: redir_of_def)
qed

lemma runnable_wrap: "runnable (wrap c is) = runnable c"
  by (induction "is" arbitrary: c) (simp_all add: runnable_redir_of split: item.splits)

lemma grammar_runnable: "line ts c \<Longrightarrow> runnable c" "pipeline ts c \<Longrightarrow> runnable c" "simple ts c \<Longrightarrow> runnable c"
  by (induction rule: line_pipeline_simple.inducts) (simp_all add: runnable_wrap)

lemma parsed_runnable: "0 \<notin> set buf \<Longrightarrow> parsecmd buf = Parsed (c, b) \<Longrightarrow> runnable c"
  using parsecmd_spec [of buf c b] grammar_runnable(1) by blast

text \<open>Two free descriptors, which a pipe needs; 0 and 1 are in use.\<close>

definition room :: "fds \<Rightarrow> bool" where
  "room t \<longleftrightarrow> t 0 \<noteq> None \<and> t 1 \<noteq> None \<and> (\<exists>i j. i < j \<and> j < NOFILE \<and> t i = None \<and> t j = None)"

lemma lowest_Some: "lowest t = Some i \<longleftrightarrow> i < NOFILE \<and> t i = None \<and> (\<forall>j<i. t j \<noteq> None)"
  unfolding lowest_def find_Some_iff_first by (auto simp: nth_upt)

lemma room_lowest:
  assumes "room t"
  obtains i j where "lowest t = Some i" and "\<And>f. lowest (t(i \<mapsto> f)) = Some j" and "t i = None" and "t j = None" and "i \<noteq> j"
proof -
  obtain a b where ab: "a < b" "b < NOFILE" "t a = None" "t b = None" using assms by (auto simp: room_def)
  define i where "i = (LEAST i. t i = None)"
  have i: "t i = None" "i \<le> a" "\<And>k. k < i \<Longrightarrow> t k \<noteq> None"
    unfolding i_def using ab(3) by (auto intro: LeastI Least_le dest: not_less_Least)
  define j where "j = (LEAST j. i < j \<and> t j = None)"
  have "i < b" using i(2) ab(1) by simp
  then have j: "i < j" "t j = None" "j \<le> b" "\<And>k. i < k \<Longrightarrow> k < j \<Longrightarrow> t k \<noteq> None"
    unfolding j_def using LeastI [of "\<lambda>j. i < j \<and> t j = None" b] Least_le [of "\<lambda>j. i < j \<and> t j = None" b]
      not_less_Least [of _ "\<lambda>j. i < j \<and> t j = None"] ab(4) by auto
  have "lowest t = Some i" using i ab(1,2) unfolding lowest_Some by auto
  moreover have "lowest (t(i \<mapsto> f)) = Some j" for f
    using j i ab(2) unfolding lowest_Some by (auto simp: nat_neq_iff)
  ultimately show ?thesis using that i(1) j(1,2) by simp
qed

lemma room_upd: "t x \<noteq> None \<Longrightarrow> room (t(x \<mapsto> f)) \<longleftrightarrow> room t"
proof -
  assume "t x \<noteq> None"
  then have "(t(x \<mapsto> f)) i = None \<longleftrightarrow> t i = None" for i by auto
  then show ?thesis unfolding room_def by (simp only:)
qed

lemma lowest_reopen: "t 0 \<noteq> None \<Longrightarrow> n = 0 \<or> n = 1 \<Longrightarrow> lowest (t(n := None)) = Some n"
  by (auto simp: lowest_Some NOFILE_def)

lemma answers_simps [simp]: "rv (answers v) = v" "rfds ((answers v)\<lparr>rfds := p\<rparr>) = p" "rv ((answers v)\<lparr>rfds := p\<rparr>) = v"
  by (simp_all add: answers_def)

lemma runs_panic [simp]: "runs (sh_panic e) t h = {}"
  by (simp add: sh_panic_def)

lemma runs_fork1: "runs (fork1 k) t h = runs (k 0) t (h @ [0]) \<union> (\<Union>n\<in>{0<..}. runs (k n) t (h @ [1]))"
  by (auto simp: fork1_def runs_fork)

lemma fork1_two: "runs (fork1 (\<lambda>n. if n = 0 then p else q)) t h = runs p t (h @ [0]) \<union> runs q t (h @ [1])"
  unfolding runs_fork1 by auto

text \<open>A child of a pipe: descriptor \<open>n\<close> becomes the end \<open>e\<close> of the pipe, and both ends are closed.\<close>

lemma runs_pipe_child:
  assumes "t 0 \<noteq> None" and "n = 0 \<or> n = 1" and "t n \<noteq> None" and "t i = None" and "t j = None" and "i \<noteq> j"
    and "e = (if k = int i then f else g)" and "k = int i \<or> k = int j"
  shows "runs (Sys (Sys_close (int n)) (\<lambda>_. Sys (Sys_dup k) (\<lambda>_. Sys (Sys_close (int i)) (\<lambda>_. Sys (Sys_close (int j)) (\<lambda>_. p)))))
    (t(i \<mapsto> f, j \<mapsto> g)) h = runs p (t(n \<mapsto> e)) h"
proof -
  have d: "n \<noteq> i" "n \<noteq> j" "i \<noteq> 0" "j \<noteq> 0" using assms(1,3,4,5) by metis+
  let ?t = "t(i \<mapsto> f, j \<mapsto> g)"
  have l: "lowest (?t(n := None)) = Some n" by (rule lowest_reopen) (use assms(1,2) d in auto)
  have e: "(?t(n := None)) (nat k) = Some e" "0 \<le> k" using assms(6,7,8) d by auto
  have "?t(n := None, n \<mapsto> e, i := None, j := None) = t(n \<mapsto> e)" using assms(4,5,6) d by (auto simp: fun_eq_iff)
  then show ?thesis using d assms(3,6)
    by (simp add: runs_close runs_dup [OF e(2) e(1) l])
qed

lemma runcmd_spec:
  assumes "runnable c" and "\<And>q e. (q, e) \<in> spans c \<Longrightarrow> c_str b q = word buf (q, e)" and "room t"
  shows "runs (runcmd b c) t h = plumb buf c t h"
  using assms
proof (induction c arbitrary: t h)
  case (EXEC as)
  have "map (\<lambda>a. c_str b (fst a)) as = map (word buf) as" using EXEC.prems(2) by auto
  then show ?case by (simp add: runs_exec Let_def list.map_sel)
next
  case (REDIR c q e mode fd)
  then have fd: "fd = int (nat fd)" "nat fd = 0 \<or> nat fd = 1" "t 0 \<noteq> None" "t (nat fd) \<noteq> None" by (auto simp: room_def)
  have l: "lowest (t(nat fd := None)) = Some (nat fd)" by (rule lowest_reopen) (use fd in auto)
  have "c_str b q = word buf (q, e)" using REDIR.prems(2) by simp
  moreover have "runs (runcmd b c) (t(nat fd \<mapsto> Opened (word buf (q, e)) mode)) h = plumb buf c (t(nat fd \<mapsto> Opened (word buf (q, e)) mode)) h"
  proof (rule REDIR.IH)
    show "room (t(nat fd \<mapsto> Opened (word buf (q, e)) mode))" using room_upd [of t "nat fd", OF fd(4)] REDIR.prems(3) by blast
  qed (use REDIR.prems in simp_all)
  moreover have nn: "0 \<le> fd" using REDIR.prems(1) by auto
  ultimately show ?case by (simp add: runs_close [of fd t, OF nn fd(4)] runs_open [of "t(nat fd := None)", OF l])
next
  case (PIPE l r)
  obtain i j where ij: "lowest t = Some i" "\<And>f. lowest (t(i \<mapsto> f)) = Some j" "t i = None" "t j = None" "i \<noteq> j"
    using room_lowest [OF PIPE.prems(3)] by metis
  have t: "t 0 \<noteq> None" "t 1 \<noteq> None" using PIPE.prems(3) by (auto simp: room_def)
  let ?t = "t(i \<mapsto> Pipe_read h, j \<mapsto> Pipe_write h)"
  have L: "runs (Sys (Sys_close 1) (\<lambda>_. Sys (Sys_dup (int j)) (\<lambda>_. Sys (Sys_close (int i)) (\<lambda>_. Sys (Sys_close (int j)) (\<lambda>_. runcmd b l)))))
      ?t (h @ [0]) = plumb buf l (t(1 \<mapsto> Pipe_write h)) (h @ [0])"
  proof -
    have "runs (runcmd b l) (t(1 \<mapsto> Pipe_write h)) (h @ [0]) = plumb buf l (t(1 \<mapsto> Pipe_write h)) (h @ [0])"
    proof (rule PIPE.IH(1))
      show "room (t(1 \<mapsto> Pipe_write h))" using room_upd [of t 1, OF t(2)] PIPE.prems(3) by blast
    qed (use PIPE.prems in simp_all)
    then show ?thesis using runs_pipe_child [of t 1 i j "Pipe_write h" "int j" "Pipe_read h" "Pipe_write h" "runcmd b l" "h @ [0]"] t ij by simp
  qed
  have R: "runs (Sys (Sys_close 0) (\<lambda>_. Sys (Sys_dup (int i)) (\<lambda>_. Sys (Sys_close (int i)) (\<lambda>_. Sys (Sys_close (int j)) (\<lambda>_. runcmd b r)))))
      ?t (h @ [1, 0]) = plumb buf r (t(0 \<mapsto> Pipe_read h)) (h @ [1, 0])"
  proof -
    have "runs (runcmd b r) (t(0 \<mapsto> Pipe_read h)) (h @ [1, 0]) = plumb buf r (t(0 \<mapsto> Pipe_read h)) (h @ [1, 0])"
    proof (rule PIPE.IH(2))
      show "room (t(0 \<mapsto> Pipe_read h))" using room_upd [of t 0, OF t(1)] PIPE.prems(3) by blast
    qed (use PIPE.prems in simp_all)
    then show ?thesis using runs_pipe_child [of t 0 i j "Pipe_read h" "int i" "Pipe_read h" "Pipe_write h" "runcmd b r" "h @ [1, 0]"] t ij by simp
  qed
  have P: "runs (Sys (Sys_close (int i)) (\<lambda>_. Sys (Sys_close (int j)) (\<lambda>_. Sys Sys_wait (\<lambda>_. Sys Sys_wait (\<lambda>_. Exit 0))))) ?t (h @ [1, 1]) = {}"
    using ij by (simp add: runs_close runs_wait)
  show ?case using L R P by (simp add: runs_pipe [OF ij(1) ij(2)] fork1_two)
next
  case (LIST l r)
  then show ?case by (simp add: fork1_two runs_wait)
next
  case (BACK c)
  then show ?case by (simp add: fork1_two)
qed

text \<open>The strings of a parsed line, as the kernel reads them, are the words of the line.\<close>

lemma parsed_word:
  assumes "0 \<notin> set buf" and "length buf < 100" and "parsecmd buf = Parsed (c, b)" and "(q, e) \<in> spans c"
  shows "c_str b q = word buf (q, e)"
proof -
  note sp = strings_spec [OF assms(1,3,4)]
  have "[q..<100] = [q..<e] @ e # [Suc e..<100]" using sp assms(2) upt_add_eq_append [of q e "100 - e"] upt_conv_Cons [of e 100] by simp
  then have "c_str b q = map b [q..<e]" unfolding c_str_def using sp by (auto simp: takeWhile_append)
  also have "\<dots> = word buf (q, e)" using sp by (intro nth_equalityI) (auto simp: word_def min_def)
  finally show ?thesis .
qed

lemma c_str_line: "0 \<notin> set (c_str b 0)" "i < 100 \<Longrightarrow> b i = 0 \<Longrightarrow> length (c_str b 0) < 100"
proof -
  show "0 \<notin> set (c_str b 0)" using set_takeWhileD [of 0 "\<lambda>c. c \<noteq> 0"] unfolding c_str_def by blast
  assume "i < 100" "b i = 0"
  then have "takeWhile (\<lambda>c. c \<noteq> 0) (map b [0..<100]) \<noteq> map b [0..<100]" by (auto simp: takeWhile_eq_all_conv)
  then have "length (takeWhile (\<lambda>c. c \<noteq> 0) (map b [0..<100])) \<noteq> 100"
    by (metis length_map length_upt minus_nat.diff_0 takeWhile_eq_take take_all order_refl)
  moreover have "length (takeWhile (\<lambda>c. c \<noteq> 0) (map b [0..<100])) \<le> 100"
    using length_takeWhile_le [of "\<lambda>c. c \<noteq> 0" "map b [0..<100]"] by simp
  ultimately show "length (c_str b 0) < 100" unfolding c_str_def by simp
qed

lemma c_str_ch:
  assumes "0 \<notin> set l" and "length l < 100"
  shows "c_str (ch l) 0 = l"
proof -
  have "[0..<100] = [0..<length l] @ length l # [Suc (length l)..<100]"
    using assms(2) upt_add_eq_append [of 0 "length l" "100 - length l"] upt_conv_Cons [of "length l" 100] by simp
  moreover have "map (ch l) [0..<length l] = l" by (intro nth_equalityI) (simp_all add: ch_def)
  moreover have "ch l (length l) = 0" by (simp add: ch_def)
  ultimately show ?thesis unfolding c_str_def using assms(1) by (simp add: takeWhile_append)
qed

subsection \<open>Properties\<close>


text \<open>C37: the parser builds only commands that fit the shell's data structures: fewer than \<open>MAXARGS\<close> arguments, so that the null
  pointer behind them is inside the array, and redirections of descriptor 0 for reading and of 1 for writing a file that
  is created if need be.\<close>

theorem parsecmd_typed:
  assumes "0 \<notin> set buf" and "parsecmd buf = Parsed (c, b)"
  shows "runnable c"
  by (rule parsed_runnable [OF assms])

theorem parsecmd_typed_witness:
  "runnable (BACK (PIPE (EXEC [(0, 1)]) (REDIR (EXEC [(3, 4)]) 5 6 (O_WRONLY OR O_CREATE OR O_TRUNC) 1)))"
proof -
  have "0 \<notin> set example" by (simp add: example_def)
  then show ?thesis using example_parse parsecmd_typed [of example] by blast
qed

definition demo_fds :: fds where
  "demo_fds i = (if i < 3 then Some (Inherited i) else None)"


end
