(* ===== verification/Utils.thy ===== *)
theory Utils
  imports Usys
begin

unbundle bit_operations_syntax

text \<open>
  The small programs of \<^verbatim>\<open>user/\<close>: cat, echo, wc, ls, mkdir, rm, ln, kill, zombie and init, as trees of system calls.
  The arguments are those after the program's name. Loops over the input have fuel. It is shown that cat copies
  its input and that wc counts it, however the pieces are cut in which \<^verbatim>\<open>read\<close> returns it.
\<close>

abbreviation printf_u :: "string \<Rightarrow> u_slot list \<Rightarrow> prog \<Rightarrow> prog" where "printf_u \<equiv> fprintf 1"
abbreviation println_u :: "string \<Rightarrow> u_slot list \<Rightarrow> prog \<Rightarrow> prog" where "println_u \<equiv> fprintln 1"

subsection \<open>cat, echo\<close>

primrec cat :: "nat \<Rightarrow> int \<Rightarrow> prog \<Rightarrow> prog" where
  "cat 0 fd k = Cut"
| "cat (Suc n) fd k =
    Sys (Sys_read fd 512) (\<lambda>a.
    if rv a > 0 then
      Sys (Sys_write 1 (rbytes a)) (\<lambda>b.
      if rv b \<noteq> rv a then fprintln 2 ''cat: write error'' [] (Exit 1) else cat n fd k)
    else if rv a < 0 then fprintln 2 ''cat: read error'' [] (Exit 1)
    else k)"

primrec cat_files :: "nat \<Rightarrow> u8 list list \<Rightarrow> prog" where
  "cat_files n [] = Exit 0"
| "cat_files n (f # fs) =
    Sys (Sys_open f 0) (\<lambda>a.
    if rv a < 0 then fprintln 2 ''cat: cannot open %s'' [arg_s f] (Exit 1)
    else cat n (rv a) (Sys (Sys_close (rv a)) (\<lambda>_. cat_files n fs)))"

definition cat_main :: "nat \<Rightarrow> u8 list list \<Rightarrow> prog" where
  "cat_main n args = (if args = [] then cat n 0 (Exit 0) else cat_files n args)"

primrec echo_main :: "u8 list list \<Rightarrow> prog" where
  "echo_main [] = Exit 0"
| "echo_main (a # as) =
    Sys (Sys_write 1 a) (\<lambda>_. Sys (Sys_write 1 (if as \<noteq> [] then [32] else [10])) (\<lambda>_. echo_main as))"

subsection \<open>wc\<close>

text \<open>The counters \<^verbatim>\<open>l\<close>, \<^verbatim>\<open>w\<close>, \<^verbatim>\<open>c\<close> and \<^verbatim>\<open>inword\<close>.\<close>

record wc_counts =
  wc_l :: u32
  wc_w :: u32
  wc_c :: u32
  wc_inword :: bool

definition wc_white :: "u8 list" where "wc_white = [32, 13, 9, 10, 11]"

definition wc_byte :: "u8 \<Rightarrow> wc_counts \<Rightarrow> wc_counts" where
  "wc_byte b s =
    (let s = s\<lparr>wc_c := wc_c s + 1\<rparr>;
         s = (if b = 10 then s\<lparr>wc_l := wc_l s + 1\<rparr> else s)
     in if strchr wc_white b \<noteq> None then s\<lparr>wc_inword := False\<rparr>
        else if \<not> wc_inword s then s\<lparr>wc_w := wc_w s + 1, wc_inword := True\<rparr>
        else s)"

definition wc_print :: "wc_counts \<Rightarrow> u8 list \<Rightarrow> prog \<Rightarrow> prog" where
  "wc_print s name k = println_u ''%d %d %d %s''
    [\<lparr>ua_word = scast (wc_l s), ua_str = None\<rparr>, \<lparr>ua_word = scast (wc_w s), ua_str = None\<rparr>,
     \<lparr>ua_word = scast (wc_c s), ua_str = None\<rparr>, arg_s name] k"

primrec wc_loop :: "nat \<Rightarrow> int \<Rightarrow> u8 list \<Rightarrow> wc_counts \<Rightarrow> prog \<Rightarrow> prog" where
  "wc_loop 0 fd name s k = Cut"
| "wc_loop (Suc n) fd name s k =
    Sys (Sys_read fd 512) (\<lambda>a.
    if rv a > 0 then wc_loop n fd name (fold wc_byte (rbytes a) s) k
    else if rv a < 0 then println_u ''wc: read error'' [] (Exit 1)
    else wc_print s name k)"

definition wc :: "nat \<Rightarrow> int \<Rightarrow> u8 list \<Rightarrow> prog \<Rightarrow> prog" where
  "wc n fd name k = wc_loop n fd name \<lparr>wc_l = 0, wc_w = 0, wc_c = 0, wc_inword = False\<rparr> k"

primrec wc_files :: "nat \<Rightarrow> u8 list list \<Rightarrow> prog" where
  "wc_files n [] = Exit 0"
| "wc_files n (f # fs) =
    Sys (Sys_open f 0) (\<lambda>a.
    if rv a < 0 then println_u ''wc: cannot open %s'' [arg_s f] (Exit 1)
    else wc n (rv a) f (Sys (Sys_close (rv a)) (\<lambda>_. wc_files n fs)))"

definition wc_main :: "nat \<Rightarrow> u8 list list \<Rightarrow> prog" where
  "wc_main n args = (if args = [] then wc n 0 [] (Exit 0) else wc_files n args)"

subsection \<open>ls\<close>

definition fmtname :: "u8 list \<Rightarrow> u8 list" where
  "fmtname path =
    (let p = rev (takeWhile (\<lambda>c. c \<noteq> 47) (rev path))
     in if length p \<ge> DIRSIZ then p else p @ replicate (DIRSIZ - length p) 32)"

definition ls_print :: "string \<Rightarrow> u8 list \<Rightarrow> fstat \<Rightarrow> prog \<Rightarrow> prog" where
  "ls_print fmt path st k = println_u fmt
    [arg_s (fmtname path), \<lparr>ua_word = scast (st_type st), ua_str = None\<rparr>, \<lparr>ua_word = ucast (st_ino st), ua_str = None\<rparr>,
     \<lparr>ua_word = st_size st, ua_str = None\<rparr>] k"

text \<open>An entry of a directory as read: two bytes of the inode number, then the name.\<close>

definition entry_inum :: "u8 list \<Rightarrow> u16" where
  "entry_inum de = ucast (de ! 0) OR push_bit 8 (ucast (de ! 1))"

definition entry_name :: "u8 list \<Rightarrow> u8 list" where
  "entry_name de = takeWhile (\<lambda>c. c \<noteq> 0) (take DIRSIZ (drop 2 de))"

primrec ls_entries :: "nat \<Rightarrow> u8 list \<Rightarrow> int \<Rightarrow> prog \<Rightarrow> prog" where
  "ls_entries 0 path fd k = Cut"
| "ls_entries (Suc n) path fd k =
    Sys (Sys_read fd 16) (\<lambda>a.
    if rv a = 16 then
      if entry_inum (rbytes a) = 0 then ls_entries n path fd k
      else
        let buf = path @ [47] @ entry_name (rbytes a)
        in stat_call buf (\<lambda>b.
           if rv b < 0 then println_u ''ls: cannot stat %s'' [arg_s buf] (ls_entries n path fd k)
           else ls_print ''%s %d %d %d'' buf (rstat b) (ls_entries n path fd k))
    else k)"

definition ls :: "nat \<Rightarrow> u8 list \<Rightarrow> prog \<Rightarrow> prog" where
  "ls n path k =
    Sys (Sys_open path 0) (\<lambda>a.
    let fd = rv a
    in if fd < 0 then fprintln 2 ''ls: cannot open %s'' [arg_s path] k
       else
         Sys (Sys_fstat fd) (\<lambda>b.
         let st = rstat b; close = Sys (Sys_close fd) (\<lambda>_. k)
         in if rv b < 0 then fprintln 2 ''ls: cannot stat %s'' [arg_s path] close
            else if st_type st = T_FILE then ls_print ''%s %d %d %l'' path st close
            else if st_type st = T_DIR then
              if length path + 1 + DIRSIZ + 1 > 512 then println_u ''ls: path too long'' [] close
              else ls_entries n path fd close
            else close))"

primrec ls_files :: "nat \<Rightarrow> u8 list list \<Rightarrow> prog" where
  "ls_files n [] = Exit 0"
| "ls_files n (f # fs) = ls n f (ls_files n fs)"

definition ls_main :: "nat \<Rightarrow> u8 list list \<Rightarrow> prog" where
  "ls_main n args = (if args = [] then ls n (bytes ''.'') (Exit 0) else ls_files n args)"

subsection \<open>Programs that wrap one system call\<close>

primrec mkdir_loop :: "u8 list list \<Rightarrow> prog" where
  "mkdir_loop [] = Exit 0"
| "mkdir_loop (f # fs) =
    Sys (Sys_mkdir f) (\<lambda>a. if rv a < 0 then fprintln 2 ''mkdir: %s failed to create'' [arg_s f] (Exit 0) else mkdir_loop fs)"

definition mkdir_main :: "u8 list list \<Rightarrow> prog" where
  "mkdir_main args = (if args = [] then fprintln 2 ''Usage: mkdir files...'' [] (Exit 1) else mkdir_loop args)"

primrec rm_loop :: "u8 list list \<Rightarrow> prog" where
  "rm_loop [] = Exit 0"
| "rm_loop (f # fs) =
    Sys (Sys_unlink f) (\<lambda>a. if rv a < 0 then fprintln 2 ''rm: %s failed to delete'' [arg_s f] (Exit 0) else rm_loop fs)"

definition rm_main :: "u8 list list \<Rightarrow> prog" where
  "rm_main args = (if args = [] then fprintln 2 ''Usage: rm files...'' [] (Exit 1) else rm_loop args)"

definition ln_main :: "u8 list list \<Rightarrow> prog" where
  "ln_main args =
    (case args of
       [old, new] \<Rightarrow>
         Sys (Sys_link old new) (\<lambda>a.
         if rv a < 0 then fprintln 2 ''link %s %s: failed'' [arg_s old, arg_s new] (Exit 0) else Exit 0)
     | _ \<Rightarrow> fprintln 2 ''Usage: ln old new'' [] (Exit 1))"

primrec kill_loop :: "u8 list list \<Rightarrow> prog" where
  "kill_loop [] = Exit 0"
| "kill_loop (p # ps) = Sys (Sys_kill (atoi p)) (\<lambda>_. kill_loop ps)"

definition kill_main :: "u8 list list \<Rightarrow> prog" where
  "kill_main args = (if args = [] then fprintln 2 ''usage: kill pid...'' [] (Exit 1) else kill_loop args)"

definition zombie_main :: prog where
  "zombie_main = Sys Sys_fork (\<lambda>a. if rv a > 0 then Sys (Sys_sleep 5) (\<lambda>_. Exit 0) else Exit 0)"

subsection \<open>init\<close>

text \<open>Waiting for the shell, while processes without a parent end.\<close>

primrec init_wait :: "nat \<Rightarrow> int \<Rightarrow> prog \<Rightarrow> prog" where
  "init_wait 0 sh k = Cut"
| "init_wait (Suc n) sh k =
    Sys Sys_wait (\<lambda>a.
    if rv a = sh then k
    else if rv a < 0 then println_u ''init: wait returned an error'' [] (Exit 1)
    else init_wait n sh k)"

primrec init_loop :: "nat \<Rightarrow> nat \<Rightarrow> prog" where
  "init_loop 0 m = Cut"
| "init_loop (Suc n) m =
    println_u ''init: starting sh'' []
    (Sys Sys_fork (\<lambda>a.
     if rv a < 0 then println_u ''init: fork failed'' [] (Exit 1)
     else if rv a = 0 then
       Sys (Sys_exec (bytes ''sh'') [bytes ''sh'']) (\<lambda>_. println_u ''init: exec sh failed'' [] (Exit 1))
     else init_wait m (rv a) (init_loop n m)))"

definition init_main :: "nat \<Rightarrow> nat \<Rightarrow> prog" where
  "init_main n m =
    (let go = Sys (Sys_dup 0) (\<lambda>_. Sys (Sys_dup 0) (\<lambda>_. init_loop n m))
     in Sys (Sys_open (bytes ''console'') O_RDWR) (\<lambda>a.
        if rv a < 0 then
          Sys (Sys_mknod (bytes ''console'') 1 0) (\<lambda>_. Sys (Sys_open (bytes ''console'') O_RDWR) (\<lambda>_. go))
        else go))"

subsection \<open>What cat and wc write\<close>

text \<open>A program with the pieces \<open>fd\<close> as its input, whose writes succeed: the bytes that it writes, to any descriptor.\<close>

primrec outputs :: "prog \<Rightarrow> u8 list list \<Rightarrow> u8 list" where
  "outputs (Exit n) fd = []"
| "outputs (Sys c k) fd =
    (case c of
       Sys_read _ n \<Rightarrow> (case fd_read n fd of (bs, fd) \<Rightarrow> outputs (k ((answers (int (length bs)))\<lparr>rbytes := bs\<rparr>)) fd)
     | Sys_write _ bs \<Rightarrow> bs @ outputs (k (answers (int (length bs)))) fd
     | _ \<Rightarrow> outputs (k (answers 0)) fd)"
| "outputs Cut fd = []"

lemma answers_read [simp]: "rv ((answers v)\<lparr>rbytes := bs\<rparr>) = v" "rbytes ((answers v)\<lparr>rbytes := bs\<rparr>) = bs" "rv (answers v) = v"
  by (simp_all add: answers_def)

lemma outputs_emit: "outputs (emit d bs k) fd = bs @ outputs k fd"
  by (induction bs) simp_all

lemma fd_read_input: "0 < n \<Longrightarrow> fd_read n fd = (bs, fd') \<Longrightarrow> [] \<notin> set fd \<Longrightarrow> concat fd = bs @ concat fd' \<and> [] \<notin> set fd' \<and> (bs = [] \<longrightarrow> fd = [])"
  by (auto simp: fd_read_def split: list.splits if_splits)

lemma cat_spec: "[] \<notin> set fd \<Longrightarrow> length (concat fd) < n \<Longrightarrow> outputs (cat n d (Exit 0)) fd = concat fd"
proof (induction n arbitrary: fd)
  case (Suc n)
  obtain bs fd' where r: "fd_read 512 fd = (bs, fd')" by fastforce
  note c = fd_read_input [OF _ r Suc.prems(1)]
  show ?case
  proof (cases "bs = []")
    case False
    then have "length (concat fd') < n" using c Suc.prems(2) by (cases bs) auto
    then show ?thesis using Suc.IH [of fd'] c False by (simp add: r)
  qed (use c in \<open>simp add: r fd_read_def\<close>)
qed simp

text \<open>Where a word starts.\<close>

definition word_starts :: "u8 list \<Rightarrow> nat" where
  "word_starts xs = length (filter (\<lambda>i. xs ! i \<notin> set wc_white \<and> (i = 0 \<or> xs ! (i - 1) \<in> set wc_white)) [0..<length xs])"

lemma word_starts_snoc: "word_starts (xs @ [x]) = word_starts xs + (if x \<notin> set wc_white \<and> (xs = [] \<or> last xs \<in> set wc_white) then 1 else 0)"
proof -
  have "filter (\<lambda>i. (xs @ [x]) ! i \<notin> set wc_white \<and> (i = 0 \<or> (xs @ [x]) ! (i - 1) \<in> set wc_white)) [0..<length xs]
      = filter (\<lambda>i. xs ! i \<notin> set wc_white \<and> (i = 0 \<or> xs ! (i - 1) \<in> set wc_white)) [0..<length xs]"
    by (rule filter_cong) (auto simp: nth_append)
  then show ?thesis by (cases "xs = []") (auto simp: word_starts_def nth_append last_conv_nth)
qed

definition wc_of :: "u8 list \<Rightarrow> wc_counts" where
  "wc_of xs = \<lparr>wc_l = of_nat (count_list xs 10), wc_w = of_nat (word_starts xs), wc_c = of_nat (length xs),
     wc_inword = (xs \<noteq> [] \<and> last xs \<notin> set wc_white)\<rparr>"

lemma wc_fold: "fold wc_byte ys (wc_of xs) = wc_of (xs @ ys)"
proof (induction ys arbitrary: xs)
  case (Cons y ys)
  have "wc_byte y (wc_of xs) = wc_of (xs @ [y])"
    by (auto simp: wc_byte_def wc_of_def Let_def word_starts_snoc wc_white_def)
  then show ?case using Cons [of "xs @ [y]"] by simp
qed simp

lemma wc_spec: "[] \<notin> set fd \<Longrightarrow> length (concat fd) < n \<Longrightarrow>
    outputs (wc_loop n d name (wc_of xs) (Exit 0)) fd = outputs (wc_print (wc_of (xs @ concat fd)) name (Exit 0)) []"
proof (induction n arbitrary: fd xs)
  case (Suc n)
  obtain bs fd' where r: "fd_read 512 fd = (bs, fd')" by fastforce
  note c = fd_read_input [OF _ r Suc.prems(1)]
  show ?case
  proof (cases "bs = []")
    case False
    then have "length (concat fd') < n" using c Suc.prems(2) by (cases bs) auto
    then show ?thesis using Suc.IH [of fd' "xs @ bs"] c False by (simp add: r wc_fold)
  next
    case True
    then have "fd = []" using c by simp
    then show ?thesis by (simp add: fd_read_def wc_print_def fprintln_def outputs_emit)
  qed
qed simp

text \<open>The program \<^verbatim>\<open>wc\<close> on its standard input writes one line: the number of newlines, of words, and of bytes, whatever
  the pieces in which the input arrives. Its counters wrap around at \<open>2\<^sup>3\<^sup>2\<close>.\<close>

theorem wc_correct:
  assumes "[] \<notin> set fd" and "length (concat fd) < n"
  shows "outputs (wc n d name (Exit 0)) fd =
    u_printint (of_nat (count_list (concat fd) 10)) 10 True @ [32] @ u_printint (of_nat (word_starts (concat fd))) 10 True @ [32]
    @ u_printint (of_nat (length (concat fd))) 10 True @ [32] @ name @ [10]"
proof -
  have z: "wc_of [] = \<lparr>wc_l = 0, wc_w = 0, wc_c = 0, wc_inword = False\<rparr>" by (simp add: wc_of_def word_starts_def)
  have sc: "ucast (scast x :: u64) = x" for x :: u32 by (rule bit_word_eqI) (auto simp: bit_simps)
  show ?thesis
    unfolding wc_def z [symmetric] wc_spec [OF assms]
    by (simp add: wc_print_def fprintln_def outputs_emit vprintf_def arg_s_def wc_of_def sc)
qed

theorem cat_correct:
  assumes "[] \<notin> set fd" and "length (concat fd) < n"
  shows "outputs (cat_main n []) fd = concat fd"
  using cat_spec [OF assms] by (simp add: cat_main_def)

end
