(* ===== verification/Umalloc.thy ===== *)
theory Umalloc
  imports Prelude
begin

unbundle bit_operations_syntax

text \<open>
  The allocator of the user library, \<^verbatim>\<open>user/umalloc.c\<close>: a circular list of free blocks in the order of their
  addresses. A header is 16 bytes; the sizes count headers. The state holds the headers by their address,
  the list's entry point \<open>freep\<close>, the address of the static \<open>base\<close> and the end of the heap. \<^verbatim>\<open>sbrk\<close> is a
  system call: a parameter, with the contract \<open>sbrk_ok\<close> for requests that are not negative. The loops
  run on for ever on a damaged list, so they are partial functions, and shown to end on a proper one.
\<close>

record header =
  h_ptr :: u64
  h_size :: u32

record uheap =
  hdrs :: "u64 \<Rightarrow> header"
  freep :: u64
  base :: u64
  brk :: u64

abbreviation ptr :: "uheap \<Rightarrow> u64 \<Rightarrow> u64" where "ptr s p \<equiv> h_ptr (hdrs s p)"
abbreviation usize :: "uheap \<Rightarrow> u64 \<Rightarrow> u32" where "usize s p \<equiv> h_size (hdrs s p)"

definition upd_hdr :: "u64 \<Rightarrow> (header \<Rightarrow> header) \<Rightarrow> uheap \<Rightarrow> uheap" where
  "upd_hdr p f s = s\<lparr>hdrs := (hdrs s)(p := f (hdrs s p))\<rparr>"

text \<open>\<^verbatim>\<open>p + p->s.size\<close> on a pointer to headers.\<close>

abbreviation past :: "uheap \<Rightarrow> u64 \<Rightarrow> u64" where "past s p \<equiv> p + 16 * ucast (usize s p)"

partial_function (option) free_search :: "uheap \<Rightarrow> u64 \<Rightarrow> u64 \<Rightarrow> u64 option" where
  "free_search s bp p =
    (if bp > p \<and> bp < ptr s p then Some p
     else if p \<ge> ptr s p \<and> (bp > p \<or> bp < ptr s p) then Some p
     else free_search s bp (ptr s p))"

definition free_at :: "u64 \<Rightarrow> u64 \<Rightarrow> uheap \<Rightarrow> uheap" where
  "free_at bp p s =
    (let s = (if past s bp = ptr s p then
                let n = ptr s p
                in upd_hdr bp (\<lambda>h. h\<lparr>h_size := h_size h + usize s n, h_ptr := ptr s n\<rparr>) s
              else upd_hdr bp (\<lambda>h. h\<lparr>h_ptr := ptr s p\<rparr>) s);
         s = (if past s p = bp then
                upd_hdr p (\<lambda>h. h\<lparr>h_size := h_size h + usize s bp, h_ptr := ptr s bp\<rparr>) s
              else upd_hdr p (\<lambda>h. h\<lparr>h_ptr := bp\<rparr>) s)
     in s\<lparr>freep := p\<rparr>)"

definition free :: "u64 \<Rightarrow> uheap \<Rightarrow> uheap option" where
  "free ap s =
    (let bp = ap - 16
     in map_option (\<lambda>p. free_at bp p s) (free_search s bp (freep s)))"

text \<open>The argument of \<^verbatim>\<open>sbrk\<close> is an \<^verbatim>\<open>int\<close>; -1 is the pointer \<^verbatim>\<open>sbrk\<close> returns when it fails.\<close>

type_synonym sbrk = "int \<Rightarrow> uheap \<Rightarrow> u64 \<times> uheap"

definition morecore :: "sbrk \<Rightarrow> u32 \<Rightarrow> uheap \<Rightarrow> (u64 \<times> uheap) option" where
  "morecore sbrk nu s =
    (let nu = (if nu < 4096 then 4096 else nu); (p, s) = sbrk (sint (ucast (ucast nu * 16 :: u64) :: u32)) s
     in if p = -1 then Some (0, s)
        else map_option (\<lambda>s. (freep s, s)) (free (p + 16) (upd_hdr p (\<lambda>h. h\<lparr>h_size := nu\<rparr>) s)))"

definition carve :: "u32 \<Rightarrow> u64 \<Rightarrow> u64 \<Rightarrow> uheap \<Rightarrow> u64 \<times> uheap" where
  "carve n prevp p s =
    (let (p, s) = (if usize s p = n then (p, upd_hdr prevp (\<lambda>h. h\<lparr>h_ptr := ptr s p\<rparr>) s)
                   else let s = upd_hdr p (\<lambda>h. h\<lparr>h_size := h_size h - n\<rparr>) s; p = past s p
                        in (p, upd_hdr p (\<lambda>h. h\<lparr>h_size := n\<rparr>) s))
     in (p + 16, s\<lparr>freep := prevp\<rparr>))"

partial_function (option) malloc_loop :: "sbrk \<Rightarrow> u32 \<Rightarrow> u64 \<Rightarrow> u64 \<Rightarrow> uheap \<Rightarrow> (u64 \<times> uheap) option" where
  "malloc_loop sbrk n prevp p s =
    (if usize s p \<ge> n then Some (carve n prevp p s)
     else if p = freep s then
       (case morecore sbrk n s of
          None \<Rightarrow> None
        | Some (p, s) \<Rightarrow> if p = 0 then Some (0, s) else malloc_loop sbrk n p (ptr s p) s)
     else malloc_loop sbrk n p (ptr s p) s)"

text \<open>The sum in \<^verbatim>\<open>nunits\<close> is one of 64 bits, because \<^verbatim>\<open>sizeof\<close> is.\<close>

definition nunits :: "u32 \<Rightarrow> u32" where
  "nunits nbytes = ucast ((ucast nbytes + 16 - 1) div 16 + 1 :: u64)"

definition malloc :: "sbrk \<Rightarrow> u32 \<Rightarrow> uheap \<Rightarrow> (u64 \<times> uheap) option" where
  "malloc sbrk nbytes s =
    (let n = nunits nbytes;
         s = (if freep s = 0 then
                (upd_hdr (base s) (\<lambda>h. h\<lparr>h_ptr := base s, h_size := 0\<rparr>) s)\<lparr>freep := base s\<rparr>
              else s)
     in malloc_loop sbrk n (freep s) (ptr s (freep s)) s)"

subsection \<open>The list\<close>

text \<open>\<open>link\<close>: the elements of a list are linked in order, the last one to \<open>z\<close>.\<close>

fun link :: "(u64 \<Rightarrow> header) \<Rightarrow> u64 list \<Rightarrow> u64 \<Rightarrow> bool" where
  "link h [] z = True"
| "link h [a] z = (h_ptr (h a) = z)"
| "link h (a # b # r) z = (h_ptr (h a) = b \<and> link h (b # r) z)"

lemma link_append: "link h (xs @ a # ys) z \<longleftrightarrow> link h xs a \<and> link h (a # ys) z"
  by (induction h xs z rule: link.induct) auto

lemma link_cong: "(\<And>x. x \<in> set xs \<Longrightarrow> h_ptr (g x) = h_ptr (h x)) \<Longrightarrow> link g xs z = link h xs z"
  by (induction h xs z rule: link.induct) auto

definition bend :: "uheap \<Rightarrow> u64 \<Rightarrow> nat" where
  "bend s p = unat p + 16 * unat (usize s p)"

definition bytes_of :: "uheap \<Rightarrow> u64 \<Rightarrow> nat set" where
  "bytes_of s p = {unat p..<bend s p}"

definition free_bytes :: "uheap \<Rightarrow> u64 list \<Rightarrow> nat set" where
  "free_bytes s ys = (\<Union>y\<in>set ys. bytes_of s y)"

text \<open>The free blocks \<open>ys\<close>, in order, without the static \<open>base\<close>: no two of them touch.\<close>

definition heap_ok :: "uheap \<Rightarrow> u64 list \<Rightarrow> bool" where
  "heap_ok s ys \<longleftrightarrow> link (hdrs s) (base s # ys) (base s) \<and> freep s \<in> set (base s # ys) \<and> base s \<noteq> 0
     \<and> usize s (base s) = 0 \<and> unat (brk s) < 2 ^ 32 \<and> unat (base s) + 16 \<le> unat (brk s)
     \<and> sorted_wrt (\<lambda>a b. bend s a < unat b) (base s # ys)
     \<and> (\<forall>y\<in>set ys. unat (base s) + 16 \<le> unat y \<and> usize s y \<noteq> 0 \<and> bend s y \<le> unat (brk s))"

lemma link_next: "link h (xs @ a # ys) z \<Longrightarrow> h_ptr (h a) = (case ys of [] \<Rightarrow> z | b # _ \<Rightarrow> b)"
  by (cases ys) (simp_all add: link_append)

text \<open>\<open>free_search\<close> passes over the elements where it does not stop.\<close>

definition stop :: "uheap \<Rightarrow> u64 \<Rightarrow> u64 \<Rightarrow> bool" where
  "stop s bp p \<longleftrightarrow> bp > p \<and> bp < ptr s p \<or> p \<ge> ptr s p \<and> (bp > p \<or> bp < ptr s p)"

lemma free_search_eq: "free_search s bp p = (if stop s bp p then Some p else free_search s bp (ptr s p))"
  by (subst free_search.simps) (auto simp: stop_def)

lemma free_search_skip: "link (hdrs s) xs q \<Longrightarrow> \<forall>x\<in>set xs. \<not> stop s bp x \<Longrightarrow> xs \<noteq> [] \<Longrightarrow> free_search s bp (hd xs) = free_search s bp q"
proof (induction xs)
  case (Cons x xs)
  then show ?case by (cases xs) (simp_all add: free_search_eq [of s bp x])
qed simp

lemma upd_hdr_fields [simp]:
  "hdrs (upd_hdr p f s) = (hdrs s)(p := f (hdrs s p))" "freep (upd_hdr p f s) = freep s"
  "base (upd_hdr p f s) = base s" "brk (upd_hdr p f s) = brk s"
  by (simp_all add: upd_hdr_def)

lemma past_unat: "bend s x < 2 ^ 32 \<Longrightarrow> unat (past s x) = bend s x"
proof -
  assume b: "bend s x < 2 ^ 32"
  have "unat (16 * ucast (usize s x) :: u64) = 16 * unat (usize s x)"
    using b by (simp add: unat_word_ariths bend_def)
  then show ?thesis using b by (simp add: unat_word_ariths bend_def)
qed

lemma link_build: "link h xs a \<Longrightarrow> h_ptr (h a) = (case ys of [] \<Rightarrow> z | b # _ \<Rightarrow> b) \<Longrightarrow> link h ys z \<Longrightarrow> link h (xs @ a # ys) z"
  unfolding link_append by (cases ys) simp_all

lemma link_suffix: "link h (xs @ ys) z \<Longrightarrow> link h ys z"
proof (induction xs)
  case (Cons x xs)
  then show ?case by (cases "xs @ ys") simp_all
qed simp

lemma heap_okD:
  assumes "heap_ok s ys"
  shows "link (hdrs s) (base s # ys) (base s)" and "freep s \<in> set (base s # ys)" and "base s \<noteq> 0" and "usize s (base s) = 0"
    and "unat (brk s) < 2 ^ 32" and "sorted_wrt (\<lambda>a b. bend s a < unat b) (base s # ys)"
    and "\<And>y. y \<in> set ys \<Longrightarrow> unat (base s) + 16 \<le> unat y" and "\<And>y. y \<in> set ys \<Longrightarrow> usize s y \<noteq> 0"
    and "\<And>y. y \<in> set ys \<Longrightarrow> bend s y \<le> unat (brk s)" and "unat (base s) + 16 \<le> unat (brk s)"
  using assms by (simp_all add: heap_ok_def)

text \<open>A block that is not free: in the heap, apart from every free block.\<close>

definition apart :: "uheap \<Rightarrow> u64 list \<Rightarrow> u64 \<Rightarrow> bool" where
  "apart s ys bp \<longleftrightarrow> unat (base s) + 16 \<le> unat bp \<and> usize s bp \<noteq> 0 \<and> bend s bp \<le> unat (brk s)
     \<and> (\<forall>y\<in>set ys. bend s y \<le> unat bp \<or> bend s bp \<le> unat y)"

lemma split_at:
  assumes "sorted_wrt (\<lambda>a b. bend s a < unat b) ys" and "\<And>y. y \<in> set ys \<Longrightarrow> bend s y \<le> unat bp \<or> bend s bp \<le> unat y"
    and "usize s bp \<noteq> 0"
  obtains as bs where "ys = as @ bs" and "\<And>a. a \<in> set as \<Longrightarrow> bend s a \<le> unat bp" and "\<And>b. b \<in> set bs \<Longrightarrow> bend s bp \<le> unat b"
proof -
  have nz: "0 < unat (usize s bp)" using assms(3) by (simp add: unat_gt_0)
  have "\<exists>as bs. ys = as @ bs \<and> (\<forall>a\<in>set as. bend s a \<le> unat bp) \<and> (\<forall>b\<in>set bs. bend s bp \<le> unat b)"
    using assms(1,2)
  proof (induction ys)
    case (Cons y ys)
    then obtain as bs where i: "ys = as @ bs" "\<forall>a\<in>set as. bend s a \<le> unat bp" "\<forall>b\<in>set bs. bend s bp \<le> unat b" by auto
    show ?case
    proof (cases "bend s y \<le> unat bp")
      case True
      then show ?thesis using i by (intro exI [of _ "y # as"] exI [of _ bs]) auto
    next
      case False
      then have "bend s bp \<le> unat y" using Cons.prems(2) by auto
      moreover have "bend s bp \<le> unat z" if "z \<in> set ys" for z
      proof -
        have "bend s y < unat z" using Cons.prems(1) that by simp
        then show ?thesis using \<open>bend s bp \<le> unat y\<close> unfolding bend_def by linarith
      qed
      ultimately show ?thesis by (intro exI [of _ "[]"] exI [of _ "y # ys"]) auto
    qed
  qed simp
  then show ?thesis using that by blast
qed

lemma free_search_spec:
  assumes ok: "heap_ok s ys" and ys: "ys = as @ bs" and L: "base s # as = init @ [p]"
    and as: "\<And>a. a \<in> set as \<Longrightarrow> bend s a \<le> unat bp" and bs: "\<And>b. b \<in> set bs \<Longrightarrow> unat bp < unat b"
    and b: "unat (base s) < unat bp" and nz: "\<And>a. a \<in> set as \<Longrightarrow> usize s a \<noteq> 0"
  shows "free_search s bp (freep s) = Some p"
proof -
  note h = heap_okD [OF ok]
  have Ls: "base s # ys = init @ p # bs" using L ys by simp
  have lk: "link (hdrs s) (init @ p # bs) (base s)" using h(1) unfolding Ls .
  have so: "sorted_wrt (\<lambda>a b. bend s a < unat b) (init @ p # bs)" using h(6) unfolding Ls .
  have low: "unat x < unat bp" if "x \<in> set (init @ [p])" for x
  proof -
    have "x = base s \<or> x \<in> set as" using that unfolding L [symmetric] by simp
    moreover have "unat x < bend s x" if "x \<in> set as" using nz [OF that] by (simp add: bend_def unat_gt_0)
    ultimately show ?thesis using as [of x] b by auto
  qed
  have up: "unat x < unat y" if "bend s x < unat y" for x y using that by (simp add: bend_def)
  have "stop s bp p"
  proof (cases bs)
    case Nil
    then have n: "ptr s p = base s" using link_next [OF lk] by simp
    have "base s \<le> p" using L so by (cases init) (auto simp: word_le_nat_alt dest!: up)
    then show ?thesis using n low [of p] by (simp add: stop_def word_less_nat_alt word_le_nat_alt)
  next
    case (Cons y r)
    then have "ptr s p = y" using link_next [OF lk] by simp
    then show ?thesis using low [of p] bs [of y] Cons by (simp add: stop_def word_less_nat_alt)
  qed
  moreover have i: "\<not> stop s bp x" if x: "x \<in> set init" for x
  proof -
    obtain l r where sp: "init = l @ x # r" using x by (auto simp: in_set_conv_decomp)
    have lk2: "link (hdrs s) (l @ x # (r @ p # bs)) (base s)" using lk sp by simp
    obtain y where y: "ptr s x = y" "y \<in> set (init @ [p])" "bend s x < unat y"
    proof (cases r)
      case Nil
      then show ?thesis using that [of p] link_next [OF lk2] so sp by (auto simp: sorted_wrt_append)
    next
      case (Cons y r')
      then show ?thesis using that [of y] link_next [OF lk2] so sp by (auto simp: sorted_wrt_append)
    qed
    then show ?thesis using low [OF y(2)] up [OF y(3)] by (simp add: stop_def word_less_nat_alt word_le_nat_alt)
  qed
  moreover have j: "\<not> stop s bp x" if x: "x \<in> set bs" for x
  proof -
    obtain l r where sp: "bs = l @ x # r" using x by (auto simp: in_set_conv_decomp)
    have lk2: "link (hdrs s) ((init @ p # l) @ x # r) (base s)" using lk sp by simp
    show ?thesis
    proof (cases r)
      case Nil
      then have "ptr s x = base s" using link_next [OF lk2] by simp
      then show ?thesis using b bs [OF x] by (simp add: stop_def word_less_nat_alt word_le_nat_alt)
    next
      case (Cons y r')
      then have "ptr s x = y" "bend s x < unat y" using link_next [OF lk2] so sp by (auto simp: sorted_wrt_append)
      then show ?thesis using bs [OF x] up [of x y] by (simp add: stop_def word_less_nat_alt word_le_nat_alt)
    qed
  qed
  ultimately have p: "free_search s bp p = Some p" by (subst free_search_eq) simp
  have fi: "free_search s bp x = Some p" if x: "x \<in> set init" for x
  proof -
    obtain l r where sp: "init = l @ x # r" using x by (auto simp: in_set_conv_decomp)
    have "link (hdrs s) (x # r) p" using lk unfolding sp link_append [of _ "l @ x # r"] by (metis link_suffix)
    moreover have "\<forall>y\<in>set (x # r). \<not> stop s bp y" using i sp by auto
    ultimately show ?thesis using free_search_skip [of s "x # r" p bp] p by simp
  qed
  have fb: "free_search s bp (base s) = Some p"
    using L fi p by (cases init) auto
  have fj: "free_search s bp x = Some p" if x: "x \<in> set bs" for x
  proof -
    obtain l r where sp: "bs = l @ x # r" using x by (auto simp: in_set_conv_decomp)
    have "link (hdrs s) (x # r) (base s)" using lk link_suffix [of "hdrs s" "init @ p # l" "x # r" "base s"] sp by simp
    moreover have "\<forall>y\<in>set (x # r). \<not> stop s bp y" using j sp by auto
    ultimately show ?thesis using free_search_skip [of s "x # r" "base s" bp] fb by simp
  qed
  have "freep s \<in> set (init @ p # bs)" using h(2) unfolding Ls .
  then show ?thesis using fi fj p by auto
qed

lemma header_eq [simp]: "h\<lparr>h_size := z, h_ptr := n\<rparr> = \<lparr>h_ptr = n, h_size = z\<rparr>"
  by (cases h) simp

lemma header_ptr: "h\<lparr>h_ptr := n\<rparr> = \<lparr>h_ptr = n, h_size = h_size h\<rparr>"
  by (cases h) simp

lemma sorted_bend_cong: "(\<And>x. x \<in> set xs \<Longrightarrow> bend t x = bend s x) \<Longrightarrow>
    sorted_wrt (\<lambda>a b. bend t a < unat b) xs = sorted_wrt (\<lambda>a b. bend s a < unat b) xs"
  by (induction xs) auto

lemma bytes_join: "bend s x = unat y \<Longrightarrow> unat x \<le> bend s x \<Longrightarrow> unat y \<le> e \<Longrightarrow> {unat x..<e} = bytes_of s x \<union> {unat y..<e}"
  by (auto simp: bytes_of_def)

text \<open>The first half of \<open>free\<close>: the block takes over the next one if it touches it, and is linked to what follows.\<close>

lemma free_next:
  assumes ok: "heap_ok s ys" and ys: "ys = as @ bs" and L: "base s # as = init @ [p]"
    and ap: "apart s ys bp" and bs: "\<And>b. b \<in> set bs \<Longrightarrow> bend s bp \<le> unat b"
  shows "\<exists>n sz bs1. (if past s bp = ptr s p then upd_hdr bp (\<lambda>h. h\<lparr>h_size := h_size h + usize s (ptr s p), h_ptr := ptr s (ptr s p)\<rparr>) s
         else upd_hdr bp (\<lambda>h. h\<lparr>h_ptr := ptr s p\<rparr>) s) = upd_hdr bp (\<lambda>_. \<lparr>h_ptr = n, h_size = sz\<rparr>) s
       \<and> n = (case bs1 of [] \<Rightarrow> base s | b # _ \<Rightarrow> b) \<and> (bs1 = bs \<or> (\<exists>b. bs = b # bs1))
       \<and> sz \<noteq> 0 \<and> unat bp + 16 * unat sz \<le> unat (brk s) \<and> (\<forall>b\<in>set bs1. unat bp + 16 * unat sz < unat b)
       \<and> {unat bp..<unat bp + 16 * unat sz} \<union> free_bytes s bs1 = bytes_of s bp \<union> free_bytes s bs"
proof -
  note h = heap_okD [OF ok]
  have Ls: "base s # ys = init @ p # bs" using L ys by simp
  have lk: "link (hdrs s) (init @ p # bs) (base s)" using h(1) unfolding Ls .
  have so: "sorted_wrt (\<lambda>a b. bend s a < unat b) bs" using h(6) unfolding Ls by (simp add: sorted_wrt_append)
  have e: "bend s bp < 2 ^ 32" "unat bp < bend s bp" using ap h(5) by (auto simp: apart_def bend_def unat_gt_0)
  note pu = past_unat [OF e(1)]
  have pp: "ptr s p = (case bs of [] \<Rightarrow> base s | b # _ \<Rightarrow> b)" using link_next [OF lk] .
  show ?thesis
  proof (cases "past s bp = ptr s p")
    case True
    have "bs \<noteq> []"
    proof
      assume "bs = []"
      then have "bend s bp = unat (base s)" using True pp pu by simp
      then show False using e(2) ap by (simp add: apart_def)
    qed
    then obtain b bs1 where b: "bs = b # bs1" by (cases bs) auto
    then have pb: "ptr s p = b" using pp by simp
    have en: "bend s bp = unat b" using True pb pu by simp
    have bin: "b \<in> set ys" using b ys by simp
    have nb: "ptr s b = (case bs1 of [] \<Rightarrow> base s | c # _ \<Rightarrow> c)"
      using link_next [of "hdrs s" "init @ [p]" b bs1 "base s"] lk b by simp
    have sz: "unat (usize s bp + usize s b) = unat (usize s bp) + unat (usize s b)"
    proof -
      have "unat bp + 16 * unat (usize s bp) = unat b" "unat b + 16 * unat (usize s b) < 2 ^ 32"
        using en h(9) [OF bin] h(5) by (simp_all add: bend_def)
      then have "unat (usize s bp) + unat (usize s b) < 2 ^ 32" by simp
      then show ?thesis by (simp add: unat_word_ariths)
    qed
    have eb: "unat bp + 16 * unat (usize s bp + usize s b) = bend s b" unfolding sz using en by (simp add: bend_def)
    have lb: "unat b \<le> bend s b" by (simp add: bend_def)
    show ?thesis
    proof (intro exI conjI)
      show "(if past s bp = ptr s p then upd_hdr bp (\<lambda>h. h\<lparr>h_size := h_size h + usize s (ptr s p), h_ptr := ptr s (ptr s p)\<rparr>) s
         else upd_hdr bp (\<lambda>h. h\<lparr>h_ptr := ptr s p\<rparr>) s)
         = upd_hdr bp (\<lambda>_. \<lparr>h_ptr = ptr s b, h_size = usize s bp + usize s b\<rparr>) s"
        using True pb by (simp add: upd_hdr_def)
      show "ptr s b = (case bs1 of [] \<Rightarrow> base s | c # _ \<Rightarrow> c)" by (rule nb)
      show "bs1 = bs \<or> (\<exists>b. bs = b # bs1)" using b by blast
      show "usize s bp + usize s b \<noteq> 0"
      proof
        assume "usize s bp + usize s b = 0"
        then have "unat (usize s bp) = 0" using sz by simp
        then show False using ap by (simp add: apart_def unat_eq_0)
      qed
      show "unat bp + 16 * unat (usize s bp + usize s b) \<le> unat (brk s)" unfolding eb by (rule h(9) [OF bin])
      show "\<forall>c\<in>set bs1. unat bp + 16 * unat (usize s bp + usize s b) < unat c" unfolding eb using so b by simp
      show "{unat bp..<unat bp + 16 * unat (usize s bp + usize s b)} \<union> free_bytes s bs1 = bytes_of s bp \<union> free_bytes s bs"
        unfolding eb using bytes_join [OF en _ lb] e(2) by (simp add: b free_bytes_def bytes_of_def Un_assoc)
    qed
  next
    case False
    have lt: "bend s bp < unat b" if "b \<in> set bs" for b
    proof (cases bs)
      case (Cons c r)
      then have "past s bp \<noteq> c" using False pp by simp
      then have "bend s bp \<noteq> unat c" using pu by (metis word_unat_eq_iff)
      then have c: "bend s bp < unat c" using bs [of c] Cons by simp
      show ?thesis
      proof (cases "b = c")
        case False
        then have "bend s c < unat b" using so Cons that by simp
        then show ?thesis using c by (simp add: bend_def)
      qed (use c in simp)
    qed (use that in simp)
    have nz: "usize s bp \<noteq> 0" "bend s bp \<le> unat (brk s)" using ap by (simp_all add: apart_def)
    show ?thesis
      using False pp lt nz
      by (intro exI [of _ "ptr s p"] exI [of _ "usize s bp"] exI [of _ bs]) (simp add: upd_hdr_def bend_def bytes_of_def header_ptr)
  qed
qed

text \<open>The second half: the block before takes it over if it touches it, or is linked to it.\<close>

lemma free_prev:
  assumes ok: "heap_ok s ys" and ys: "ys = as @ bs" and L: "base s # as = init @ [p]"
    and base: "unat (base s) + 16 \<le> unat bp" and as: "\<And>a. a \<in> set as \<Longrightarrow> bend s a \<le> unat bp"
    and bs1: "bs1 = bs \<or> (\<exists>b. bs = b # bs1)" and n: "n = (case bs1 of [] \<Rightarrow> base s | b # _ \<Rightarrow> b)"
    and sz: "sz \<noteq> 0" "unat bp + 16 * unat sz \<le> unat (brk s)" "\<And>b. b \<in> set bs1 \<Longrightarrow> unat bp + 16 * unat sz < unat b"
    and bp: "bp \<notin> set ys" 
  defines "s1 \<equiv> upd_hdr bp (\<lambda>_. \<lparr>h_ptr = n, h_size = sz\<rparr>) s"
  shows "\<exists>zs. heap_ok ((if past s1 p = bp then upd_hdr p (\<lambda>h. h\<lparr>h_size := h_size h + usize s1 bp, h_ptr := ptr s1 bp\<rparr>) s1
         else upd_hdr p (\<lambda>h. h\<lparr>h_ptr := bp\<rparr>) s1)\<lparr>freep := p\<rparr>) zs
       \<and> free_bytes ((if past s1 p = bp then upd_hdr p (\<lambda>h. h\<lparr>h_size := h_size h + usize s1 bp, h_ptr := ptr s1 bp\<rparr>) s1
         else upd_hdr p (\<lambda>h. h\<lparr>h_ptr := bp\<rparr>) s1)\<lparr>freep := p\<rparr>) zs
         = free_bytes s as \<union> {unat bp..<unat bp + 16 * unat sz} \<union> free_bytes s bs1"
proof -
  note h = heap_okD [OF ok]
  have Ls: "base s # ys = init @ p # bs" using L ys by simp
  have lk: "link (hdrs s) (init @ p # bs) (base s)" using h(1) unfolding Ls .
  then have li: "link (hdrs s) init p" and lb: "link (hdrs s) bs (base s)"
    by (simp_all add: link_append) (metis append_Cons append_Nil link_suffix)
  have lb1: "link (hdrs s) bs1 (base s)" using lb bs1 link_suffix [of _ "[_]" bs1] by auto
  have so: "sorted_wrt (\<lambda>a b. bend s a < unat b) (init @ p # bs)" using h(6) unfolding Ls .
  have sub: "set bs1 \<subseteq> set bs" using bs1 by auto
  have so1: "sorted_wrt (\<lambda>a b. bend s a < unat b) (init @ [p])" "sorted_wrt (\<lambda>a b. bend s a < unat b) bs1"
    using so bs1 by (auto simp: sorted_wrt_append)
  have cross: "bend s a < unat b" if "a \<in> set (init @ [p])" "b \<in> set bs1" for a b
    using so that sub by (auto simp: sorted_wrt_append)
  have dist: "p \<notin> set init" "p \<notin> set bs1" using so sub by (auto simp: sorted_wrt_append bend_def)
  have nb: "bp \<noteq> base s" using base by auto
  have bpL: "bp \<notin> set init" "bp \<noteq> p" "bp \<notin> set bs1" using bp nb L ys sub by (auto simp: set_eq_iff dest!: arg_cong [of _ _ set])
  have pe: "p = base s \<and> as = [] \<and> init = [] \<or> p \<in> set as \<and> init = base s # butlast as" 
    using L by (cases as rule: rev_cases) auto
  let ?m = "past s1 p = bp"
  have u1: "usize s1 p = usize s p" "ptr s1 bp = n" "usize s1 bp = sz" using bpL by (simp_all add: s1_def)
  have ends: "bend s p \<le> unat bp" using pe as base h(4) by (auto simp: bend_def)
  have ap: "bend s p < 2 ^ 32" using ends sz(2) h(5) by linarith
  have pm: "past s1 p = bp \<longleftrightarrow> bend s p = unat bp"
    using past_unat [OF ap] by (simp add: u1(1)) (metis word_unat_eq_iff)
  have bad: "base s \<notin> set ys" using h(7) by fastforce
  have bs1b: "base s \<notin> set bs1" using bad ys sub by auto
  show ?thesis
  proof (cases "past s1 p = bp")
    case True
    then have en: "bend s p = unat bp" using pm by blast
    have pb: "p \<noteq> base s" using en base h(4) by (auto simp: bend_def)
    then have pin: "p \<in> set as" "init = base s # butlast as" using pe by auto
    then have las: "as = butlast as @ [p]" using L by simp
    define t where "t = (upd_hdr p (\<lambda>h. h\<lparr>h_size := h_size h + usize s1 bp, h_ptr := ptr s1 bp\<rparr>) s1)\<lparr>freep := p\<rparr>"
    have t: "hdrs t = (hdrs s)(bp := \<lparr>h_ptr = n, h_size = sz\<rparr>, p := \<lparr>h_ptr = n, h_size = usize s p + sz\<rparr>)"
      "freep t = p" "base t = base s" "brk t = brk s"
      using bpL(2) by (simp_all add: t_def u1) (simp_all add: s1_def)
    have us: "unat (usize s p + sz) = unat (usize s p) + unat sz"
    proof -
      have "unat p + 16 * unat (usize s p) + 16 * unat sz < 2 ^ 32" using en sz(2) h(5) by (simp add: bend_def)
      then show ?thesis by (simp add: unat_word_ariths)
    qed
    have ep: "bend t p = unat bp + 16 * unat sz" unfolding bend_def t(1) using us en by (simp add: bend_def)
    have eo: "bend t x = bend s x" if "x \<noteq> p" "x \<noteq> bp" for x using that by (simp add: bend_def t(1))
    have eqL: "base t # (as @ bs1) = init @ p # bs1" using L t(3) by simp
    have "link (hdrs t) (init @ p # bs1) (base t)"
    proof (rule link_build)
      show "link (hdrs t) init p" using li bpL dist by (subst link_cong [where h = "hdrs s"]) (auto simp: t(1))
      show "link (hdrs t) bs1 (base t)" using lb1 bpL dist by (subst link_cong [where h = "hdrs s"]) (auto simp: t(1,3))
      show "ptr t p = (case bs1 of [] \<Rightarrow> base t | b # _ \<Rightarrow> b)" by (simp add: t(1) n t(3) [symmetric] split: list.splits)
    qed
    moreover have "sorted_wrt (\<lambda>a b. bend t a < unat b) (init @ p # bs1)"
    proof -
      have "sorted_wrt (\<lambda>a b. bend t a < unat b) init = sorted_wrt (\<lambda>a b. bend s a < unat b) init"
        "sorted_wrt (\<lambda>a b. bend t a < unat b) bs1 = sorted_wrt (\<lambda>a b. bend s a < unat b) bs1"
        by (rule sorted_bend_cong, rule eo; use dist bpL in auto)+
      moreover have "bend t x = bend s x" if "x \<in> set init" for x by (rule eo) (use that dist bpL in auto)
      ultimately show ?thesis using so1 cross sz(3) by (auto simp: sorted_wrt_append ep)
    qed
    moreover have "unat (base t) + 16 \<le> unat y \<and> usize t y \<noteq> 0 \<and> bend t y \<le> unat (brk t)" if "y \<in> set (as @ bs1)" for y
    proof (cases "y = p")
      case True
      have "usize s p + sz \<noteq> 0" using us sz(1) by (metis add_is_0 unat_eq_0)
      then show ?thesis using True h(7) [of p] pin(1) ys sz(2) ep by (auto simp: t(1,3,4))
    next
      case False
      moreover have "y \<in> set ys" "y \<noteq> bp" using that sub ys bp by auto
      ultimately show ?thesis using h(7-9) [of y] eo by (simp add: t(1,3,4))
    qed
    moreover have "usize t (base t) = 0" using pb nb h(4) by (simp add: t(1,3))
    ultimately have "heap_ok t (as @ bs1)" using h(3,5,10) unfolding heap_ok_def eqL by (simp add: t(2-4))
    moreover have "free_bytes t (as @ bs1) = free_bytes s as \<union> {unat bp..<unat bp + 16 * unat sz} \<union> free_bytes s bs1"
    proof -
      have o: "bytes_of t y = bytes_of s y" if "y \<in> set (butlast as) \<union> set bs1" for y
      proof -
        have "y \<noteq> p" using that dist pin(2) by auto
        moreover have "y \<noteq> bp" using that bpL(1,3) pin(2) by auto
        ultimately show ?thesis using eo by (simp add: bytes_of_def)
      qed
      have "bytes_of t p = bytes_of s p \<union> {unat bp..<unat bp + 16 * unat sz}"
        using en ep by (auto simp: bytes_of_def bend_def)
      then have "free_bytes t (as @ bs1) = free_bytes s (butlast as) \<union> (bytes_of s p \<union> {unat bp..<unat bp + 16 * unat sz}) \<union> free_bytes s bs1"
        using o by (subst las) (auto simp: free_bytes_def)
      moreover have "free_bytes s as = free_bytes s (butlast as) \<union> bytes_of s p" by (subst las) (auto simp: free_bytes_def)
      ultimately show ?thesis by auto
    qed
    ultimately show ?thesis using True unfolding t_def by (intro exI [of _ "as @ bs1"]) simp
  next
    case False
    then have lt: "bend s p < unat bp" using pm ends by linarith
    define t where "t = (upd_hdr p (\<lambda>h. h\<lparr>h_ptr := bp\<rparr>) s1)\<lparr>freep := p\<rparr>"
    have t: "hdrs t = (hdrs s)(bp := \<lparr>h_ptr = n, h_size = sz\<rparr>, p := (hdrs s p)\<lparr>h_ptr := bp\<rparr>)"
      "freep t = p" "base t = base s" "brk t = brk s"
      using bpL(2) by (simp_all add: t_def) (simp_all add: s1_def)
    have ep: "bend t bp = unat bp + 16 * unat sz" using bpL(2) by (simp add: bend_def t(1))
    have eo: "bend t x = bend s x" if "x \<noteq> bp" for x using that by (simp add: bend_def t(1))
    have eqL: "base t # (as @ bp # bs1) = init @ p # bp # bs1" using L t(3) by simp
    have "link (hdrs t) (init @ p # bp # bs1) (base t)"
    proof (rule link_build)
      show "link (hdrs t) init p" using li bpL dist by (subst link_cong [where h = "hdrs s"]) (auto simp: t(1))
      have "link (hdrs t) bs1 (base t)" using lb1 bpL dist by (subst link_cong [where h = "hdrs s"]) (auto simp: t(1,3))
      moreover have "ptr t bp = (case bs1 of [] \<Rightarrow> base t | b # _ \<Rightarrow> b)" using bpL(2) by (simp add: t(1) n t(3) [symmetric] split: list.splits)
      ultimately show "link (hdrs t) (bp # bs1) (base t)" using link_build [of "hdrs t" "[]"] by simp
    qed (simp add: t(1))
    moreover have "sorted_wrt (\<lambda>a b. bend t a < unat b) (init @ p # bp # bs1)"
    proof -
      have "sorted_wrt (\<lambda>a b. bend t a < unat b) (init @ [p]) = sorted_wrt (\<lambda>a b. bend s a < unat b) (init @ [p])"
        "sorted_wrt (\<lambda>a b. bend t a < unat b) bs1 = sorted_wrt (\<lambda>a b. bend s a < unat b) bs1"
        by (rule sorted_bend_cong, rule eo; use bpL in auto)+
      then have s2: "sorted_wrt (\<lambda>a b. bend t a < unat b) (init @ [p])" "sorted_wrt (\<lambda>a b. bend t a < unat b) bs1" using so1 by simp_all
      have "bend t a < unat bp" if "a \<in> set (init @ [p])" for a
      proof -
        have "bend s a \<le> bend s p" using so1(1) that by (auto simp: sorted_wrt_append bend_def dest: less_imp_le)
        moreover have "a \<noteq> bp" using that bpL by auto
        ultimately show ?thesis using lt eo by simp
      qed
      moreover have "bend t a < unat b" if "a \<in> set (init @ [p])" "b \<in> set bs1" for a b
      proof -
        have "a \<noteq> bp" using that(1) bpL by auto
        then show ?thesis using cross [OF that] eo by simp
      qed
      ultimately show ?thesis using s2 sz(3) by (auto simp: sorted_wrt_append ep)
    qed
    moreover have "unat (base t) + 16 \<le> unat y \<and> usize t y \<noteq> 0 \<and> bend t y \<le> unat (brk t)" if "y \<in> set (as @ bp # bs1)" for y
    proof (cases "y = bp")
      case True
      then show ?thesis using base sz ep bpL(2) by (simp add: t(1,3,4))
    next
      case False
      moreover from this have "y \<in> set ys" using that sub ys by auto
      ultimately show ?thesis using h(7-9) [of y] eo by (auto simp: t(1,3,4))
    qed
    moreover have "usize t (base t) = 0" using nb h(4) by (auto simp: t(1,3))
    ultimately have "heap_ok t (as @ bp # bs1)" using h(3,5,10) unfolding heap_ok_def eqL by (simp add: t(2-4))
    moreover have "free_bytes t (as @ bp # bs1) = free_bytes s as \<union> {unat bp..<unat bp + 16 * unat sz} \<union> free_bytes s bs1"
    proof -
      have o: "bytes_of t y = bytes_of s y" if "y \<in> set as \<union> set bs1" for y
      proof -
        have "y \<noteq> bp" using that bp ys sub by auto
        then show ?thesis using eo by (simp add: bytes_of_def)
      qed
      have "bytes_of t bp = {unat bp..<unat bp + 16 * unat sz}" by (simp add: bytes_of_def ep)
      then show ?thesis using o by (auto simp: free_bytes_def)
    qed
    ultimately show ?thesis using False unfolding t_def by (intro exI [of _ "as @ bp # bs1"]) simp
  qed
qed

lemma free_spec:
  assumes ok: "heap_ok s ys" and ap: "apart s ys bp"
  shows "\<exists>t zs. free (bp + 16) s = Some t \<and> heap_ok t zs \<and> free_bytes t zs = free_bytes s ys \<union> bytes_of s bp
    \<and> base t = base s \<and> brk t = brk s"
proof -
  note h = heap_okD [OF ok]
  have nz: "usize s bp \<noteq> 0" and lo: "unat (base s) + 16 \<le> unat bp" using ap by (simp_all add: apart_def)
  have e: "unat bp < bend s bp" using nz by (simp add: bend_def unat_gt_0)
  have "sorted_wrt (\<lambda>a b. bend s a < unat b) ys" using h(6) by simp
  then obtain as bs where sp: "ys = as @ bs" "\<And>a. a \<in> set as \<Longrightarrow> bend s a \<le> unat bp" "\<And>b. b \<in> set bs \<Longrightarrow> bend s bp \<le> unat b"
    using split_at [of s ys bp] ap by (auto simp: apart_def)
  obtain init p where L: "base s # as = init @ [p]" by (metis append_butlast_last_id list.distinct(1))
  have bp: "bp \<notin> set ys"
  proof
    assume y: "bp \<in> set ys"
    then have "bend s bp \<le> unat bp" using ap by (auto simp: apart_def)
    then show False using e by simp
  qed
  have "unat bp < unat b" if "b \<in> set bs" for b using sp(3) [OF that] e by simp
  then have srch: "free_search s bp (freep s) = Some p"
    using free_search_spec [OF ok sp(1) L sp(2)] lo h(8) sp(1) by auto
  obtain n sz bs1 where st: "(if past s bp = ptr s p then upd_hdr bp (\<lambda>h. h\<lparr>h_size := h_size h + usize s (ptr s p), h_ptr := ptr s (ptr s p)\<rparr>) s
         else upd_hdr bp (\<lambda>h. h\<lparr>h_ptr := ptr s p\<rparr>) s) = upd_hdr bp (\<lambda>_. \<lparr>h_ptr = n, h_size = sz\<rparr>) s"
    "n = (case bs1 of [] \<Rightarrow> base s | b # _ \<Rightarrow> b)" "bs1 = bs \<or> (\<exists>b. bs = b # bs1)"
    "sz \<noteq> 0" "unat bp + 16 * unat sz \<le> unat (brk s)" "\<And>b. b \<in> set bs1 \<Longrightarrow> unat bp + 16 * unat sz < unat b"
    "{unat bp..<unat bp + 16 * unat sz} \<union> free_bytes s bs1 = bytes_of s bp \<union> free_bytes s bs"
    using free_next [OF ok sp(1) L ap sp(3)] by blast
  let ?s1 = "upd_hdr bp (\<lambda>_. \<lparr>h_ptr = n, h_size = sz\<rparr>) s"
  let ?t = "(if past ?s1 p = bp then upd_hdr p (\<lambda>h. h\<lparr>h_size := h_size h + usize ?s1 bp, h_ptr := ptr ?s1 bp\<rparr>) ?s1
         else upd_hdr p (\<lambda>h. h\<lparr>h_ptr := bp\<rparr>) ?s1)\<lparr>freep := p\<rparr>"
  obtain zs where zs: "heap_ok ?t zs" "free_bytes ?t zs = free_bytes s as \<union> {unat bp..<unat bp + 16 * unat sz} \<union> free_bytes s bs1"
    using free_prev [OF ok sp(1) L lo sp(2) st(3,2,4,5,6) bp] by blast
  have "free_at bp p s = ?t" unfolding free_at_def Let_def st(1) ..
  then have "free (bp + 16) s = Some ?t" using srch by (simp add: free_def)
  moreover have "free_bytes ?t zs = free_bytes s ys \<union> bytes_of s bp"
    unfolding zs(2) using st(7) by (simp add: sp(1) free_bytes_def) blast
  moreover have "base ?t = base s" "brk ?t = brk s" by simp_all
  ultimately show ?thesis using zs(1) by blast
qed

subsection \<open>Taking a block\<close>

lemma carve_spec:
  assumes ok: "heap_ok s ys" and ys: "ys = as @ p # bs" and L: "base s # as = init @ [prevp]"
    and n: "n \<le> usize s p" "n \<noteq> 0"
  shows "\<exists>q t zs. carve n prevp p s = (q + 16, t) \<and> heap_ok t zs \<and> usize t q = n \<and> apart t zs q
    \<and> bytes_of t q \<subseteq> bytes_of s p \<and> free_bytes t zs = free_bytes s ys - bytes_of t q \<and> base t = base s \<and> brk t = brk s"
proof -
  note h = heap_okD [OF ok]
  have Ls: "base s # ys = init @ prevp # p # bs" using L ys by simp
  have lk: "link (hdrs s) (init @ prevp # p # bs) (base s)" using h(1) unfolding Ls .
  have so: "sorted_wrt (\<lambda>a b. bend s a < unat b) (init @ prevp # p # bs)" using h(6) unfolding Ls .
  have nx: "ptr s p = (case bs of [] \<Rightarrow> base s | b # _ \<Rightarrow> b)" using link_next [of "hdrs s" "init @ [prevp]" p bs "base s"] lk by simp
  have pin: "p \<in> set ys" using ys by simp
  note hp = h(7-9) [OF pin]
  have below: "bend s a < unat p" if "a \<in> set as" for a using h(6) that ys by (auto simp: sorted_wrt_append)
  have above: "bend s p < unat b" if "b \<in> set bs" for b using so that by (auto simp: sorted_wrt_append)
  have asbs: "bend s a < unat b" if "a \<in> set as" "b \<in> set bs" for a b
    using below [OF that(1)] above [OF that(2)] by (simp add: bend_def)
  have dp: "p \<notin> set as" "p \<notin> set bs" "p \<noteq> base s" "p \<noteq> prevp" "prevp \<notin> set bs" "prevp \<notin> set init"
  proof -
    show "p \<notin> set as" "p \<notin> set bs" using below [of p] above [of p] by (auto simp: bend_def)
    show "p \<noteq> base s" using hp(1) by auto
    show "p \<noteq> prevp" "prevp \<notin> set bs" "prevp \<notin> set init" using so by (auto simp: sorted_wrt_append bend_def)
  qed
  have disj: "bytes_of s y \<inter> bytes_of s p = {}" if "y \<in> set as \<union> set bs" for y
    using that below [of y] above [of y] by (auto simp: bytes_of_def)
  have fb: "free_bytes s (as @ bs) \<inter> bytes_of s p = {}" using disj by (auto simp: free_bytes_def)
  show ?thesis
  proof (cases "usize s p = n")
    case True
    define t where "t = (upd_hdr prevp (\<lambda>h. h\<lparr>h_ptr := ptr s p\<rparr>) s)\<lparr>freep := prevp\<rparr>"
    have t: "hdrs t = (hdrs s)(prevp := (hdrs s prevp)\<lparr>h_ptr := ptr s p\<rparr>)" "freep t = prevp" "base t = base s" "brk t = brk s"
      by (simp_all add: t_def)
    have us: "usize t y = usize s y" for y by (simp add: t(1))
    then have be: "bend t = bend s" "bytes_of t = bytes_of s" by (simp_all add: bend_def bytes_of_def fun_eq_iff)
    have eqL: "base t # (as @ bs) = init @ prevp # bs" using L t(3) by simp
    have "link (hdrs t) (init @ prevp # bs) (base t)"
    proof (rule link_build)
      have "link (hdrs s) init prevp" using lk by (simp add: link_append)
      then show "link (hdrs t) init prevp" using dp by (subst link_cong [where h = "hdrs s"]) (auto simp: t(1))
      have "link (hdrs s) bs (base s)" using lk link_suffix [of _ "init @ [prevp, p]" bs] by simp
      then show "link (hdrs t) bs (base t)" using dp by (subst link_cong [where h = "hdrs s"]) (auto simp: t(1,3))
    qed (simp add: t(1) nx t(3) [symmetric] split: list.splits)
    moreover have "sorted_wrt (\<lambda>a b. bend t a < unat b) (init @ prevp # bs)"
      using so unfolding be by (auto simp: sorted_wrt_append)
    ultimately have "heap_ok t (as @ bs)" using h(3,4,5,7-10) ys unfolding heap_ok_def eqL by (simp add: t(2-4) us be)
    moreover have "apart t (as @ bs) p"
      using hp below above by (auto simp: apart_def t(3,4) us be intro: less_imp_le)
    moreover have "free_bytes t (as @ bs) = free_bytes s ys - bytes_of t p"
      using fb unfolding free_bytes_def be ys by auto
    moreover have "carve n prevp p s = (p + 16, t)" using True by (simp add: carve_def t_def)
    ultimately show ?thesis using True us be t(3,4) by (intro exI [of _ p] exI [of _ t] exI [of _ "as @ bs"]) simp
  next
    case False
    define m where "m = usize s p - n"
    define q where "q = p + 16 * ucast m"
    define t where "t = (upd_hdr q (\<lambda>h. h\<lparr>h_size := n\<rparr>) (upd_hdr p (\<lambda>h. h\<lparr>h_size := m\<rparr>) s))\<lparr>freep := prevp\<rparr>"
    have um: "unat m = unat (usize s p) - unat n" using n(1) by (simp add: m_def unat_sub)
    have un: "unat n \<le> unat (usize s p)" using n(1) by (simp add: word_le_nat_alt)
    have "unat n \<noteq> unat (usize s p)" using False by (simp add: word_unat_eq_iff)
    moreover have "unat n \<noteq> 0" using n(2) by (simp add: unat_eq_0)
    ultimately have mz: "0 < unat m" "0 < unat n" using un um by simp_all
    have lim: "unat p + 16 * unat (usize s p) < 2 ^ 32" using hp(3) h(5) by (simp add: bend_def)
    have uq: "unat q = unat p + 16 * unat m"
    proof -
      have "unat (16 * ucast m :: u64) = 16 * unat m" using lim um by (simp add: unat_word_ariths)
      then show ?thesis using lim um unfolding q_def by (simp add: unat_word_ariths)
    qed
    have qp: "q \<noteq> p" using uq mz by auto
    have t: "hdrs t = (hdrs s)(p := (hdrs s p)\<lparr>h_size := m\<rparr>, q := (hdrs s q)\<lparr>h_size := n\<rparr>)" "freep t = prevp" "base t = base s" "brk t = brk s"
      using qp by (simp_all add: t_def)
    have car: "carve n prevp p s = (q + 16, t)"
      using False by (simp add: carve_def t_def Let_def m_def q_def)
    have inside: "unat p < unat q" "unat q < bend s p" using uq um mz un by (simp_all add: bend_def)
    have qL: "q \<notin> set (base s # ys)"
    proof
      assume "q \<in> set (base s # ys)"
      then consider "q = base s" | "q = p" | "q \<in> set as" | "q \<in> set bs" using ys by auto
      then show False
      proof cases
        case 1
        then show False using inside hp(1) by simp
      next
        case 3
        then show False using below [of q] inside by (simp add: bend_def)
      next
        case 4
        then show False using above [of q] inside by simp
      qed (use qp in simp)
    qed
    have eo: "bend t x = bend s x" if "x \<noteq> p" "x \<noteq> q" for x using that by (simp add: bend_def t(1))
    have ep: "bend t p = unat q" using qp uq by (simp add: bend_def t(1))
    have eq: "bend t q = bend s p" using uq um un by (simp add: bend_def t(1))
    have le: "bend t x \<le> bend s x" if "x \<in> set (base s # ys)" for x
    proof (cases "x = p")
      case False
      have "x \<noteq> q" using that qL by blast
      then show ?thesis using eo False by simp
    qed (use ep inside in simp)
    have "link (hdrs t) (base s # ys) (base s)"
      using h(1) by (subst link_cong [where h = "hdrs s"]) (simp_all add: t(1))
    moreover have "sorted_wrt (\<lambda>a b. bend t a < unat b) (base s # ys)"
      using le by (intro sorted_wrt_mono_rel [OF _ h(6)]) (meson le_less_trans)
    moreover have "usize t y \<noteq> 0 \<and> bend t y \<le> unat (brk s)" if "y \<in> set ys" for y
    proof
      show "usize t y \<noteq> 0" using h(8) [OF that] that qL mz(1) by (auto simp: t(1))
      show "bend t y \<le> unat (brk s)" using le [of y] h(9) [OF that] that by simp
    qed
    moreover have "usize t (base s) = 0" using h(4) dp qL by (auto simp: t(1))
    moreover have "prevp \<in> set (base s # ys)" unfolding Ls by simp
    ultimately have "heap_ok t ys" using h(3,5,7,10) by (auto simp: heap_ok_def t(2-4))
    moreover have "apart t ys q" unfolding apart_def
    proof (intro conjI ballI)
      show "unat (base t) + 16 \<le> unat q" using hp(1) inside by (simp add: t(3))
      show "usize t q \<noteq> 0" using n(2) by (simp add: t(1))
      show "bend t q \<le> unat (brk t)" using hp(3) by (simp add: eq t(4))
      fix y assume "y \<in> set ys"
      then consider "y = p" | "y \<in> set as" | "y \<in> set bs" using ys by auto
      then show "bend t y \<le> unat q \<or> bend t q \<le> unat y"
      proof cases
        case 1
        then show ?thesis using ep by simp
      next
        case 2
        then show ?thesis using below [of y] inside le [of y] ys by auto
      next
        case 3
        then show ?thesis using above [of y] eq by simp
      qed
    qed
    moreover have "bytes_of t q \<subseteq> bytes_of s p" using inside eq by (auto simp: bytes_of_def)
    moreover have "free_bytes t ys = free_bytes s ys - bytes_of t q"
    proof -
      have o: "bytes_of t y = bytes_of s y" if "y \<in> set as \<union> set bs" for y
      proof -
        have "y \<noteq> p" using that dp by auto
        moreover have "y \<noteq> q" using that qL ys by auto
        ultimately show ?thesis using eo by (simp add: bytes_of_def)
      qed
      have "bytes_of t p = bytes_of s p - bytes_of t q" using inside ep eq by (auto simp: bytes_of_def)
      moreover have "bytes_of s y \<inter> bytes_of t q = {}" if "y \<in> set as \<union> set bs" for y
        using disj [OF that] \<open>bytes_of t q \<subseteq> bytes_of s p\<close> by blast
      ultimately show ?thesis using o unfolding free_bytes_def ys by auto
    qed
    moreover have "usize t q = n" by (simp add: t(1))
    ultimately show ?thesis using car t(3,4) by (intro exI [of _ q] exI [of _ t] exI [of _ ys]) simp
  qed
qed

subsection \<open>Looking for a block\<close>

lemma loop_skip: "link (hdrs s) (c # xs) q \<Longrightarrow> \<forall>x\<in>set xs. usize s x < n \<and> x \<noteq> freep s
    \<Longrightarrow> malloc_loop sbrk n c (ptr s c) s = malloc_loop sbrk n (last (c # xs)) q s"
proof (induction xs arbitrary: c)
  case (Cons x xs)
  have "\<not> n \<le> usize s x" "x \<noteq> freep s" using Cons.prems(2) by (auto simp: not_le)
  then have "malloc_loop sbrk n c x s = malloc_loop sbrk n x (ptr s x) s" by (subst malloc_loop.simps) simp
  then show ?case using Cons by simp
qed simp

lemma loop_found: "n \<le> usize s p \<Longrightarrow> malloc_loop sbrk n prevp p s = Some (carve n prevp p s)"
  by (subst malloc_loop.simps) simp

text \<open>Walking from \<open>freep\<close>, \<open>malloc\<close> comes past every free block before it is back.\<close>

lemma find_block:
  assumes ok: "heap_ok s ys" and n: "n \<noteq> 0" and ex: "\<exists>y\<in>set ys. n \<le> usize s y"
  shows "\<exists>as p bs init prevp. ys = as @ p # bs \<and> base s # as = init @ [prevp] \<and> n \<le> usize s p
    \<and> malloc_loop sbrk n (freep s) (ptr s (freep s)) s = Some (carve n prevp p s)"
proof -
  note h = heap_okD [OF ok]
  obtain l r where L: "base s # ys = l @ freep s # r" using split_list [OF h(2)] by blast
  let ?f = "freep s"
  have so: "sorted_wrt (\<lambda>a b. bend s a < unat b) (l @ ?f # r)" using h(6) unfolding L .
  have nf: "?f \<notin> set l" "?f \<notin> set r" using so by (auto simp: sorted_wrt_append bend_def)
  have lk: "link (hdrs s) (l @ ?f # r) (base s)" using h(1) unfolding L .
  then have lr: "link (hdrs s) (?f # r) (base s)" and ll: "link (hdrs s) l ?f" by (simp_all add: link_append)
  have small: "usize s (base s) < n" using h(4) n by (simp add: word_gt_0)
  have big0: "x \<noteq> base s" if "n \<le> usize s x" for x using that small by auto
  show ?thesis
  proof (cases "\<exists>x\<in>set r. n \<le> usize s x")
    case True
    then obtain r1 p r2 where r: "r = r1 @ p # r2" "n \<le> usize s p" "\<forall>x\<in>set r1. \<not> n \<le> usize s x"
      using split_list_first_prop [of r "\<lambda>x. n \<le> usize s x"] by blast
    have "link (hdrs s) (?f # r1) p" using lr r(1) link_append [of "hdrs s" "?f # r1" p r2] by simp
    moreover have "\<forall>x\<in>set r1. usize s x < n \<and> x \<noteq> ?f" using r nf by auto
    ultimately have m: "malloc_loop sbrk n ?f (ptr s ?f) s = Some (carve n (last (?f # r1)) p s)"
      using loop_skip loop_found [OF r(2)] by metis
    obtain as where as: "l @ ?f # r1 = base s # as" using L r(1) by (cases l) auto
    have ys: "ys = as @ p # r2"
    proof -
      have "base s # ys = (l @ ?f # r1) @ p # r2" using L r(1) by simp
      then show ?thesis unfolding as by simp
    qed
    have "base s # as = butlast (l @ ?f # r1) @ [last (?f # r1)]" unfolding as [symmetric] by (simp add: butlast_append)
    then show ?thesis using m ys r(2) by blast
  next
    case False
    then have sr: "\<forall>x\<in>set r. usize s x < n \<and> x \<noteq> ?f" using nf by auto
    obtain y where y: "y \<in> set ys" "n \<le> usize s y" using ex by blast
    have "l \<noteq> []"
    proof
      assume "l = []"
      then show False using L y False by auto
    qed
    then obtain l' where l': "l = base s # l'" using L by (cases l) auto
    have ys0: "ys = l' @ ?f # r" using L l' by simp
    show ?thesis
    proof (cases "\<exists>x\<in>set l'. n \<le> usize s x")
      case True
      then obtain l1 p l2 where l1: "l' = l1 @ p # l2" "n \<le> usize s p" "\<forall>x\<in>set l1. \<not> n \<le> usize s x"
        using split_list_first_prop [of l' "\<lambda>x. n \<le> usize s x"] by blast
      have "link (hdrs s) (base s # l1) p" using ll l' l1(1) link_append [of "hdrs s" "base s # l1" p l2] by simp
      then have "link (hdrs s) (?f # r @ base s # l1) p" using lr link_append [of "hdrs s" "?f # r" "base s" l1 p] by simp
      moreover have "\<forall>x\<in>set (r @ base s # l1). usize s x < n \<and> x \<noteq> ?f" using sr small l1 nf l' by auto
      ultimately have m: "malloc_loop sbrk n ?f (ptr s ?f) s = Some (carve n (last (?f # r @ base s # l1)) p s)"
        using loop_skip loop_found [OF l1(2)] by metis
      moreover have "ys = l1 @ p # l2 @ ?f # r" using ys0 l1(1) by simp
      moreover have "base s # l1 = butlast (base s # l1) @ [last (?f # r @ base s # l1)]" by simp
      ultimately show ?thesis using l1(2) by blast
    next
      case False
      have fb: "n \<le> usize s ?f" using y ys0 sr False by (auto simp: not_less)
      have "link (hdrs s) (?f # r @ base s # l') ?f" using lr ll l' link_append [of "hdrs s" "?f # r" "base s" l' ?f] by simp
      moreover have "\<forall>x\<in>set (r @ base s # l'). usize s x < n \<and> x \<noteq> ?f" using sr small False nf l' by auto
      ultimately have m: "malloc_loop sbrk n ?f (ptr s ?f) s = Some (carve n (last (?f # r @ base s # l')) ?f s)"
        using loop_skip loop_found [OF fb] by metis
      moreover have "base s # l' = butlast (base s # l') @ [last (?f # r @ base s # l')]" by simp
      ultimately show ?thesis using fb ys0 by blast
    qed
  qed
qed

lemma no_block:
  assumes ok: "heap_ok s ys" and n: "n \<noteq> 0" and sm: "\<And>y. y \<in> set ys \<Longrightarrow> usize s y < n"
  shows "malloc_loop sbrk n (freep s) (ptr s (freep s)) s = (case morecore sbrk n s of
      None \<Rightarrow> None | Some (p, s) \<Rightarrow> if p = 0 then Some (0, s) else malloc_loop sbrk n p (ptr s p) s)"
proof -
  note h = heap_okD [OF ok]
  obtain l r where L: "base s # ys = l @ freep s # r" using split_list [OF h(2)] by blast
  let ?f = "freep s"
  have so: "sorted_wrt (\<lambda>a b. bend s a < unat b) (l @ ?f # r)" using h(6) unfolding L .
  have nf: "?f \<notin> set l" "?f \<notin> set r" using so by (auto simp: sorted_wrt_append bend_def)
  have lk: "link (hdrs s) (l @ ?f # r) (base s)" using h(1) unfolding L .
  then have lr: "link (hdrs s) (?f # r) (base s)" and ll: "link (hdrs s) l ?f" by (simp_all add: link_append)
  have small: "usize s x < n" if "x \<in> set (l @ ?f # r)" for x
    using that sm h(4) n unfolding L [symmetric] by (auto simp: word_gt_0)
  have "link (hdrs s) (?f # r @ l) ?f"
  proof (cases l)
    case Nil
    then show ?thesis using lr L by simp
  next
    case (Cons b l')
    then show ?thesis using lr ll L link_append [of "hdrs s" "?f # r" b l' ?f] by simp
  qed
  moreover have "\<forall>x\<in>set (r @ l). usize s x < n \<and> x \<noteq> ?f" using small nf by auto
  ultimately have "malloc_loop sbrk n ?f (ptr s ?f) s = malloc_loop sbrk n (last (?f # r @ l)) ?f s" by (rule loop_skip)
  also have "\<dots> = (case morecore sbrk n s of
      None \<Rightarrow> None | Some (p, s) \<Rightarrow> if p = 0 then Some (0, s) else malloc_loop sbrk n p (ptr s p) s)"
  proof -
    have "\<not> n \<le> usize s ?f" using small [of ?f] by (simp add: not_le)
    then show ?thesis by (subst malloc_loop.simps) simp
  qed
  finally show ?thesis .
qed

end
