(* ===== verification/Malloc.thy ===== *)
theory Malloc
  imports Umalloc
begin

text \<open>
  The contract of \<^verbatim>\<open>malloc\<close> and \<^verbatim>\<open>free\<close> in \<^verbatim>\<open>user/umalloc.c\<close>: blocks that are in nobody else's hands, nothing lost,
  and what happens to requests that \<^verbatim>\<open>sbrk\<close> cannot express.
\<close>

subsection \<open>Growing the heap\<close>

definition sbrk_ok :: "sbrk \<Rightarrow> bool" where
  "sbrk_ok sbrk \<longleftrightarrow> (\<forall>n s. 0 \<le> n \<longrightarrow> sbrk n s = (-1, s)
     \<or> sbrk n s = (brk s, s\<lparr>brk := brk s + of_int n\<rparr>) \<and> unat (brk s) + nat n < 2 ^ 32)"

text \<open>A range of addresses that the free blocks cover lies in one of them, because no two of them touch.\<close>

lemma one_block:
  assumes ok: "heap_ok s ys" and c: "{a..<e} \<subseteq> free_bytes s ys" and ae: "a < e"
  shows "\<exists>y\<in>set ys. unat y \<le> a \<and> e \<le> bend s y"
proof -
  have so: "sorted_wrt (\<lambda>a b. bend s a < unat b) ys" using heap_okD(6) [OF ok] by simp
  have "a \<in> free_bytes s ys" using c ae by auto
  then obtain y where y: "y \<in> set ys" "unat y \<le> a" "a < bend s y" by (auto simp: free_bytes_def bytes_of_def)
  have "e \<le> bend s y"
  proof (rule ccontr)
    assume "\<not> e \<le> bend s y"
    then have "bend s y \<in> free_bytes s ys" using c y by auto
    then obtain z where z: "z \<in> set ys" "unat z \<le> bend s y" "bend s y < bend s z" by (auto simp: free_bytes_def bytes_of_def)
    have "z = y \<or> bend s z < unat y \<or> bend s y < unat z"
      using so y(1) z(1) by (induction ys) auto
    then show False using y z by (auto simp: bend_def)
  qed
  then show ?thesis using y by blast
qed

lemma int_arg: "unat (x :: u64) = 16 * k \<Longrightarrow> 16 * k < 2 ^ 31 \<Longrightarrow> sint (ucast x :: u32) = 16 * int k"
proof -
  assume x: "unat x = 16 * k" "16 * k < 2 ^ 31"
  have "unat (ucast x :: u32) = take_bit 32 (unat x)" by (simp only: unsigned_ucast_eq) simp
  also have "\<dots> = 16 * k" unfolding x(1) by (rule take_bit_nat_eq_self) (use x(2) in simp)
  finally have "unat (ucast x :: u32) = 16 * k" .
  then have "uint (ucast x :: u32) = 16 * int k" by (simp add: uint_nat)
  moreover have "16 * int k < 2 ^ 31" using x(2) by simp
  ultimately show ?thesis by (simp only: sint_uint signed_take_bit_int_eq_self) (simp add: signed_take_bit_int_eq_self)
qed

lemma morecore_spec:
  assumes ok: "heap_ok s ys" and sb: "sbrk_ok sbrk" and n: "n \<noteq> 0" "unat n < 2 ^ 27"
  shows "morecore sbrk n s = Some (0, s) \<or> (\<exists>t zs. morecore sbrk n s = Some (freep t, t) \<and> heap_ok t zs
    \<and> free_bytes t zs = free_bytes s ys \<union> {unat (brk s)..<unat (brk t)} \<and> base t = base s \<and> (\<exists>y\<in>set zs. n \<le> usize t y))"
proof -
  note h = heap_okD [OF ok]
  define nu where "nu = (if n < 4096 then 4096 else n)"
  have nu: "unat n \<le> unat nu" "unat nu < 2 ^ 27" "0 < unat nu"
    using n by (auto simp: nu_def word_less_nat_alt)
  have uc: "unat (of_nat (16 * unat nu) :: u64) = 16 * unat nu"
    unfolding unsigned_of_nat of_nat_id by (rule take_bit_nat_eq_self) (use nu(2) in simp)
  have "ucast nu * 16 = (of_nat (16 * unat nu) :: u64)" by (simp add: ac_simps)
  then have arg: "sint (ucast (ucast nu * 16 :: u64) :: u32) = 16 * int (unat nu)"
    by (simp only:) (rule int_arg [OF uc], use nu(2) in simp)
  have mc: "morecore sbrk n s = (case sbrk (16 * int (unat nu)) s of (p, s) \<Rightarrow>
        if p = -1 then Some (0, s)
        else map_option (\<lambda>s. (freep s, s)) (free (p + 16) (upd_hdr p (\<lambda>h. h\<lparr>h_size := nu\<rparr>) s)))"
    unfolding morecore_def nu_def [symmetric] Let_def arg ..
  consider "sbrk (16 * int (unat nu)) s = (-1, s)"
    | "sbrk (16 * int (unat nu)) s = (brk s, s\<lparr>brk := brk s + of_int (16 * int (unat nu))\<rparr>)" "unat (brk s) + 16 * unat nu < 2 ^ 32"
  proof -
    have "0 \<le> 16 * int (unat nu)" by simp
    moreover have "nat (16 * int (unat nu)) = 16 * unat nu" by linarith
    ultimately show ?thesis using sb [unfolded sbrk_ok_def, rule_format, of "16 * int (unat nu)" s] that by fastforce
  qed
  then show ?thesis
  proof cases
    case 1
    then show ?thesis by (simp add: mc)
  next
    case 2
    define u where "u = upd_hdr (brk s) (\<lambda>h. h\<lparr>h_size := nu\<rparr>) (s\<lparr>brk := brk s + of_int (16 * int (unat nu))\<rparr>)"
    have ub: "unat (brk s + of_int (16 * int (unat nu)) :: u64) = unat (brk s) + 16 * unat nu"
    proof -
      have "(of_int (16 * int (unat nu)) :: u64) = of_nat (16 * unat nu)" by simp
      then have "unat (of_int (16 * int (unat nu)) :: u64) = 16 * unat nu" using uc by (simp only:)
      then show ?thesis using 2(2) by (simp only: unat_word_ariths) simp
    qed
    have u: "hdrs u = (hdrs s)(brk s := (hdrs s (brk s))\<lparr>h_size := nu\<rparr>)" "freep u = freep s" "base u = base s"
      "unat (brk u) = unat (brk s) + 16 * unat nu" using ub by (simp_all add: u_def)
    have new: "brk s \<notin> set (base s # ys)"
    proof
      assume "brk s \<in> set (base s # ys)"
      then have "brk s \<in> set ys" using h(10) by auto
      then have "bend s (brk s) \<le> unat (brk s)" "usize s (brk s) \<noteq> 0" using h(8,9) by blast+
      then show False by (simp add: bend_def unat_eq_0)
    qed
    have eo: "usize u x = usize s x" "bend u x = bend s x" if "x \<noteq> brk s" for x using that by (simp_all add: u(1) bend_def)
    have eo': "usize u x = usize s x" "bend u x = bend s x" if "x \<in> set (base s # ys)" for x using eo [of x] that new by blast+
    have "link (hdrs u) (base s # ys) (base s)" using h(1) by (subst link_cong [where h = "hdrs s"]) (simp_all add: u(1))
    moreover have "sorted_wrt (\<lambda>a b. bend u a < unat b) (base s # ys)"
      using h(6) sorted_bend_cong [of "base s # ys" u s, OF eo'(2)] by blast
    moreover have "unat (base s) + 16 \<le> unat y \<and> usize u y \<noteq> 0 \<and> bend u y \<le> unat (brk u)" if "y \<in> set ys" for y
      using h(7-9) [OF that] eo' [of y] that u(4) by simp
    ultimately have oku: "heap_ok u ys" using h(2,3,4,10) 2(2) eo'(1) [of "base s"] by (simp add: heap_ok_def u(2-4))
    have bu: "bend u (brk s) = unat (brk u)" by (simp add: bend_def u(1,4))
    have "usize u (brk s) \<noteq> 0" using nu(3) by (auto simp: u(1))
    moreover have "bend u y \<le> unat (brk s)" if "y \<in> set ys" for y using h(9) [OF that] eo' [of y] that by simp
    ultimately have ap: "apart u ys (brk s)" using h(10) bu by (simp add: apart_def u(3))
    obtain t zs where t: "free (brk s + 16) u = Some t" "heap_ok t zs" "free_bytes t zs = free_bytes u ys \<union> bytes_of u (brk s)"
      "base t = base u" "brk t = brk u" using free_spec [OF oku ap] by blast
    have fb: "free_bytes u ys = free_bytes s ys" using eo' by (simp add: free_bytes_def bytes_of_def)
    have bb: "bytes_of u (brk s) = {unat (brk s)..<unat (brk t)}" by (simp add: bytes_of_def bu t(5))
    have "\<exists>y\<in>set zs. unat y \<le> unat (brk s) \<and> unat (brk t) \<le> bend t y"
      by (rule one_block [OF t(2)]) (use t(3) bb u(4) t(5) nu(3) in auto)
    then obtain y where y: "y \<in> set zs" "unat y \<le> unat (brk s)" "unat (brk t) \<le> bend t y" by blast
    have "16 * unat nu \<le> 16 * unat (usize t y)" using y u(4) t(5) by (simp add: bend_def)
    then have "n \<le> usize t y" using nu(1) by (simp add: word_le_nat_alt)
    moreover have "brk s \<noteq> -1" using h(5) by (auto simp: unsigned_minus_1_eq_mask mask_eq_exp_minus_1)
    then have "morecore sbrk n s = Some (freep t, t)" unfolding mc 2(1) using t(1) by (simp add: u_def)
    ultimately show ?thesis using t(2-4) y(1) by (auto simp: fb bb u(3))
  qed
qed

subsection \<open>malloc\<close>

lemma nunits_sum: "unat ((ucast (nbytes :: u32) + 16 - 1) div 16 + 1 :: u64) = (unat nbytes + 15) div 16 + 1"
proof -
  have le: "unat nbytes < 2 ^ 32" using unsigned_less [of nbytes, where 'a = nat] by simp
  have "unat (ucast nbytes + 16 - 1 :: u64) = unat nbytes + 15" using le by (simp add: unat_word_ariths)
  then have d: "unat ((ucast nbytes + 16 - 1) div 16 :: u64) = (unat nbytes + 15) div 16" by (simp only: unat_div) simp
  have "(unat nbytes + 15) div 16 + 1 < 2 ^ 64" using le by simp
  then show ?thesis unfolding unat_word_ariths(1) d by simp
qed

lemma nunits_spec:
  assumes "unat nbytes < 2 ^ 31 - 32"
  shows "unat (nunits nbytes) = (unat nbytes + 15) div 16 + 1"
  using assms unfolding nunits_def by (simp only: unsigned_ucast_eq nunits_sum) (simp add: take_bit_nat_eq_self)

lemma freep_nonzero: "heap_ok s ys \<Longrightarrow> freep s \<noteq> 0"
  using heap_okD(2,3,7) by fastforce

text \<open>What \<open>malloc\<close> does on a list that is set up, for a number of units.\<close>

lemma loop_spec:
  assumes ok: "heap_ok s ys" and sb: "sbrk_ok sbrk" and n: "n \<noteq> 0" "unat n < 2 ^ 27"
  shows "malloc_loop sbrk n (freep s) (ptr s (freep s)) s = Some (0, s)
    \<or> (\<exists>q t zs. malloc_loop sbrk n (freep s) (ptr s (freep s)) s = Some (q + 16, t) \<and> heap_ok t zs \<and> usize t q = n \<and> apart t zs q
       \<and> bytes_of t q \<subseteq> free_bytes s ys \<union> {unat (brk s)..<unat (brk t)}
       \<and> free_bytes t zs = free_bytes s ys \<union> {unat (brk s)..<unat (brk t)} - bytes_of t q \<and> base t = base s)"
proof -
  have have_one: "\<exists>q t zs. malloc_loop sbrk n (freep s) (ptr s (freep s)) s = Some (q + 16, t) \<and> heap_ok t zs \<and> usize t q = n \<and> apart t zs q
       \<and> bytes_of t q \<subseteq> free_bytes s ys \<and> free_bytes t zs = free_bytes s ys - bytes_of t q \<and> base t = base s \<and> brk t = brk s"
    if ok: "heap_ok s ys" and ex: "\<exists>y\<in>set ys. n \<le> usize s y" for s ys
  proof -
    obtain as p bs init prevp where f: "ys = as @ p # bs" "base s # as = init @ [prevp]" "n \<le> usize s p"
      "malloc_loop sbrk n (freep s) (ptr s (freep s)) s = Some (carve n prevp p s)"
      using find_block [OF ok n(1) ex] by blast
    obtain q t zs where c: "carve n prevp p s = (q + 16, t)" "heap_ok t zs" "usize t q = n" "apart t zs q"
      "bytes_of t q \<subseteq> bytes_of s p" "free_bytes t zs = free_bytes s ys - bytes_of t q" "base t = base s" "brk t = brk s"
      using carve_spec [OF ok f(1,2,3) n(1)] by blast
    have "bytes_of s p \<subseteq> free_bytes s ys" using f(1) by (auto simp: free_bytes_def)
    then show ?thesis using f(4) c by (intro exI [of _ q] exI [of _ t] exI [of _ zs]) auto
  qed
  show ?thesis
  proof (cases "\<exists>y\<in>set ys. n \<le> usize s y")
    case True
    obtain q t zs where c: "malloc_loop sbrk n (freep s) (ptr s (freep s)) s = Some (q + 16, t)" "heap_ok t zs" "usize t q = n" "apart t zs q"
      "bytes_of t q \<subseteq> free_bytes s ys" "free_bytes t zs = free_bytes s ys - bytes_of t q" "base t = base s" "brk t = brk s"
      using have_one [OF ok True] by blast
    then show ?thesis by (intro disjI2 exI [of _ q] exI [of _ t] exI [of _ zs]) simp
  next
    case False
    have lp: "malloc_loop sbrk n (freep s) (ptr s (freep s)) s = (case morecore sbrk n s of
      None \<Rightarrow> None | Some (p, s) \<Rightarrow> if p = 0 then Some (0, s) else malloc_loop sbrk n p (ptr s p) s)"
      by (rule no_block [OF ok n(1)]) (use False in auto)
    from morecore_spec [OF ok sb n] show ?thesis
    proof
      assume "morecore sbrk n s = Some (0, s)"
      then show ?thesis using lp by simp
    next
      assume "\<exists>t zs. morecore sbrk n s = Some (freep t, t) \<and> heap_ok t zs
        \<and> free_bytes t zs = free_bytes s ys \<union> {unat (brk s)..<unat (brk t)} \<and> base t = base s \<and> (\<exists>y\<in>set zs. n \<le> usize t y)"
      then obtain u us where u: "morecore sbrk n s = Some (freep u, u)" "heap_ok u us"
        "free_bytes u us = free_bytes s ys \<union> {unat (brk s)..<unat (brk u)}" "base u = base s" "\<exists>y\<in>set us. n \<le> usize u y" by blast
      obtain q t zs where c: "malloc_loop sbrk n (freep u) (ptr u (freep u)) u = Some (q + 16, t)" "heap_ok t zs" "usize t q = n" "apart t zs q"
        "bytes_of t q \<subseteq> free_bytes u us" "free_bytes t zs = free_bytes u us - bytes_of t q" "base t = base u" "brk t = brk u"
        using have_one [OF u(2,5)] by blast
      have "malloc_loop sbrk n (freep s) (ptr s (freep s)) s = Some (q + 16, t)" using lp u(1) c(1) freep_nonzero [OF u(2)] by simp
      then show ?thesis using c(2-6) u(3,4) c(7,8) by (intro disjI2 exI [of _ q] exI [of _ t] exI [of _ zs]) simp
    qed
  qed
qed

text \<open>A heap before the first call: \<open>freep\<close> is the null pointer.\<close>

definition fresh :: "uheap \<Rightarrow> bool" where
  "fresh s \<longleftrightarrow> freep s = 0 \<and> base s \<noteq> 0 \<and> unat (base s) + 16 \<le> unat (brk s) \<and> unat (brk s) < 2 ^ 32"

text \<open>The block before the pointer \<open>r\<close>, handed to the program: what \<open>malloc\<close> promises of it and of the rest.\<close>

definition handed :: "uheap \<Rightarrow> nat set \<Rightarrow> nat \<Rightarrow> u64 \<Rightarrow> uheap \<Rightarrow> bool" where
  "handed s old nbytes r t \<longleftrightarrow> (\<exists>zs. heap_ok t zs \<and> apart t zs (r - 16) \<and> r \<noteq> 0 \<and> unat r = unat (r - 16) + 16
     \<and> unat r + nbytes \<le> bend t (r - 16) \<and> bend t (r - 16) < unat r + nbytes + 16
     \<and> bytes_of t (r - 16) \<subseteq> old \<union> {unat (brk s)..<unat (brk t)}
     \<and> free_bytes t zs = old \<union> {unat (brk s)..<unat (brk t)} - bytes_of t (r - 16))"

lemma malloc_spec:
  assumes ok: "heap_ok s ys \<or> fresh s \<and> ys = []" and sb: "sbrk_ok sbrk" and nb: "unat nbytes < 2 ^ 31 - 32"
  shows "\<exists>r t. malloc sbrk nbytes s = Some (r, t) \<and> (r = 0 \<and> heap_ok t ys \<and> free_bytes t ys = free_bytes s ys \<and> brk t = brk s
    \<or> handed s (free_bytes s ys) (unat nbytes) r t)"
proof -
  define n where "n = nunits nbytes"
  have un: "unat n = (unat nbytes + 15) div 16 + 1" unfolding n_def by (rule nunits_spec [OF nb])
  have n: "n \<noteq> 0" "unat n < 2 ^ 27" using un nb by auto
  define s1 where "s1 = (if freep s = 0 then
                (upd_hdr (base s) (\<lambda>h. h\<lparr>h_ptr := base s, h_size := 0\<rparr>) s)\<lparr>freep := base s\<rparr>
              else s)"
  have m: "malloc sbrk nbytes s = malloc_loop sbrk n (freep s1) (ptr s1 (freep s1)) s1"
    unfolding malloc_def s1_def n_def Let_def ..
  have s1: "heap_ok s1 ys" "free_bytes s1 ys = free_bytes s ys" "brk s1 = brk s"
  proof -
    have "heap_ok s1 ys \<and> free_bytes s1 ys = free_bytes s ys \<and> brk s1 = brk s"
      using ok
    proof
      assume o: "heap_ok s ys"
      then have "s1 = s" using freep_nonzero [OF o] by (simp add: s1_def)
      then show ?thesis using o by simp
    next
      assume o: "fresh s \<and> ys = []"
      then show ?thesis by (simp add: s1_def fresh_def heap_ok_def free_bytes_def)
    qed
    then show "heap_ok s1 ys" "free_bytes s1 ys = free_bytes s ys" "brk s1 = brk s" by blast+
  qed
  from loop_spec [OF s1(1) sb n] show ?thesis unfolding m [symmetric] s1(2,3)
  proof
    assume "malloc sbrk nbytes s = Some (0, s1)"
    then show ?thesis using s1 by blast
  next
    assume "\<exists>q t zs. malloc sbrk nbytes s = Some (q + 16, t) \<and> heap_ok t zs \<and> usize t q = n \<and> apart t zs q
       \<and> bytes_of t q \<subseteq> free_bytes s ys \<union> {unat (brk s)..<unat (brk t)}
       \<and> free_bytes t zs = free_bytes s ys \<union> {unat (brk s)..<unat (brk t)} - bytes_of t q \<and> base t = base s1"
    then obtain q t zs where c: "malloc sbrk nbytes s = Some (q + 16, t)" "heap_ok t zs" "usize t q = n" "apart t zs q"
       "bytes_of t q \<subseteq> free_bytes s ys \<union> {unat (brk s)..<unat (brk t)}"
       "free_bytes t zs = free_bytes s ys \<union> {unat (brk s)..<unat (brk t)} - bytes_of t q" by blast
    have e: "bend t q = unat q + 16 * unat n" by (simp add: bend_def c(3))
    have "bend t q < 2 ^ 32" using c(4) heap_okD(5) [OF c(2)] by (simp add: apart_def)
    then have uq: "unat (q + 16) = unat q + 16" using e un by (simp add: unat_word_ariths)
    then have "q + 16 \<noteq> 0" by auto
    moreover have "unat q + 16 + unat nbytes \<le> bend t q" "bend t q < unat q + 16 + unat nbytes + 16"
      unfolding e un by presburger+
    ultimately have "handed s (free_bytes s ys) (unat nbytes) (q + 16) t"
      unfolding handed_def using c(2,4,5,6) uq by (intro exI [of _ zs]) simp
    then show ?thesis using c(1) by blast
  qed
qed

text \<open>C38: \<^verbatim>\<open>malloc\<close> ends, and gives either no memory, with the heap as it was, or a block that holds the request
  and less than a header more, that no free block shares a byte with, made of free memory or of what \<^verbatim>\<open>sbrk\<close>
  added, the rest of which stays free.\<close>

theorem malloc_correct:
  assumes "heap_ok s ys \<or> fresh s \<and> ys = []" and "sbrk_ok sbrk" and "unat nbytes < 2 ^ 31 - 32"
  shows "\<exists>r t. malloc sbrk nbytes s = Some (r, t) \<and> (r = 0 \<and> heap_ok t ys \<and> free_bytes t ys = free_bytes s ys \<and> brk t = brk s
    \<or> handed s (free_bytes s ys) (unat nbytes) r t)"
  using malloc_spec [OF assms] .

text \<open>C39: a block that \<^verbatim>\<open>malloc\<close> gave out can be freed, and then exactly what was free before is free again,
  with what the heap grew by: nothing leaks, and blocks that touch are merged.\<close>

theorem malloc_free:
  assumes "heap_ok s ys \<or> fresh s \<and> ys = []" and "sbrk_ok sbrk" and "unat nbytes < 2 ^ 31 - 32"
    and "malloc sbrk nbytes s = Some (r, t)" and "r \<noteq> 0"
  shows "\<exists>u zs. free r t = Some u \<and> heap_ok u zs \<and> free_bytes u zs = free_bytes s ys \<union> {unat (brk s)..<unat (brk u)}"
proof -
  have "handed s (free_bytes s ys) (unat nbytes) r t" using malloc_spec [OF assms(1-3)] assms(4,5) by auto
  then obtain zs where z: "heap_ok t zs" "apart t zs (r - 16)" "bytes_of t (r - 16) \<subseteq> free_bytes s ys \<union> {unat (brk s)..<unat (brk t)}"
    "free_bytes t zs = free_bytes s ys \<union> {unat (brk s)..<unat (brk t)} - bytes_of t (r - 16)"
    unfolding handed_def by blast
  obtain u us where u: "free (r - 16 + 16) t = Some u" "heap_ok u us" "free_bytes u us = free_bytes t zs \<union> bytes_of t (r - 16)" "brk u = brk t"
    using free_spec [OF z(1,2)] by blast
  have "free_bytes u us = free_bytes s ys \<union> {unat (brk s)..<unat (brk u)}" unfolding u(3,4) using z(3,4) by blast
  then show ?thesis using u(1,2) by auto
qed

subsection \<open>Requests that \<^verbatim>\<open>sbrk\<close> cannot express\<close>

text \<open>The units in bytes are given to \<^verbatim>\<open>sbrk\<close> as an \<^verbatim>\<open>int\<close>; from \<open>2\<^sup>3\<^sup>2\<close> bytes on only 0 or 16 of them arrive.\<close>

lemma nunits_huge:
  assumes "2 ^ 32 - 31 \<le> unat nbytes"
  shows "nunits nbytes = 0x10000000 \<or> nunits nbytes = 0x10000001"
proof -
  have le: "unat nbytes < 2 ^ 32" using unsigned_less [of nbytes, where 'a = nat] by simp
  have "(2 ^ 32 - 16) div 16 \<le> (unat nbytes + 15) div 16" by (rule div_le_mono) (use assms in simp)
  moreover have "(unat nbytes + 15) div 16 \<le> (2 ^ 32 + 14) div 16" by (rule div_le_mono) (use le in simp)
  ultimately have "(unat nbytes + 15) div 16 + 1 = 0x10000000 \<or> (unat nbytes + 15) div 16 + 1 = 0x10000001" by simp linarith
  moreover note nunits_sum [of nbytes]
  ultimately have "unat ((ucast nbytes + 16 - 1) div 16 + 1 :: u64) = unat (0x10000000 :: u64)
    \<or> unat ((ucast nbytes + 16 - 1) div 16 + 1 :: u64) = unat (0x10000001 :: u64)" by simp
  then have "(ucast nbytes + 16 - 1) div 16 + 1 = (0x10000000 :: u64) \<or> (ucast nbytes + 16 - 1) div 16 + 1 = (0x10000001 :: u64)"
    by (simp only: word_unat_eq_iff [symmetric])
  then show ?thesis unfolding nunits_def by (elim disjE) simp_all
qed

lemma loop_fresh:
  assumes fr: "fresh s" and n: "4096 \<le> n" and arg: "sint (ucast (ucast n * 16 :: u64) :: u32) = m"
    and sb: "\<And>u. brk u = brk s \<Longrightarrow> sbrk m u = (brk s, u\<lparr>brk := brk s + of_int m\<rparr>)"
    and s1: "s1 = (upd_hdr (base s) (\<lambda>h. h\<lparr>h_ptr := base s, h_size := 0\<rparr>) s)\<lparr>freep := base s\<rparr>"
  shows "\<exists>t. malloc_loop sbrk n (base s) (base s) s1 = Some (brk s + 16, t) \<and> brk t = brk s + of_int m \<and> usize t (brk s) = n"
proof -
  have lt: "base s < brk s" "base s \<noteq> 0" "unat (base s) + 16 \<le> unat (brk s)" "unat (brk s) < 2 ^ 32"
    using fr by (auto simp: fresh_def word_less_nat_alt)
  have ne: "base s \<noteq> brk s" "brk s \<noteq> -1" using lt by (auto simp: unsigned_minus_1_eq_mask mask_eq_exp_minus_1)
  have pn: "brk s + 16 * ucast n \<noteq> base s"
  proof
    assume e: "brk s + 16 * ucast n = base s"
    have "unat (16 * ucast n :: u64) = 16 * unat n"
    proof -
      have "unat n < 2 ^ 32" using unsigned_less [of n, where 'a = nat] by simp
      then show ?thesis by (simp add: unat_word_ariths)
    qed
    moreover have "unat n < 2 ^ 32" using unsigned_less [of n, where 'a = nat] by simp
    ultimately have "unat (brk s + 16 * ucast n) = unat (brk s) + 16 * unat n" using lt(4) by (simp add: unat_word_ariths)
    then show False using e lt(3) by simp
  qed
  have n0: "0 < n" "n \<noteq> 0" using less_le_trans [OF _ n, of 0] by auto
  let ?u = "upd_hdr (brk s) (\<lambda>h. h\<lparr>h_size := n\<rparr>) (s1\<lparr>brk := brk s + of_int m\<rparr>)"
  let ?v = "free_at (brk s) (base s) ?u"
  have srch: "free_search ?u (brk s) (base s) = Some (base s)"
    using lt(1) ne by (subst free_search.simps) (simp add: s1)
  have mc: "morecore sbrk n s1 = Some (base s, ?v)"
    using n ne srch by (simp add: morecore_def Let_def arg sb s1 free_def not_less [symmetric]) (simp add: free_at_def Let_def)
  have v: "usize ?v (brk s) = n" "ptr ?v (base s) = brk s" "brk ?v = brk s + of_int m"
    using ne pn by (simp_all add: free_at_def Let_def s1)
  have "malloc_loop sbrk n (base s) (base s) s1 = malloc_loop sbrk n (base s) (brk s) ?v"
    using n0 lt(2) mc v(2) by (subst malloc_loop.simps) (simp add: s1 not_le)
  also have "\<dots> = Some (carve n (base s) (brk s) ?v)" by (rule loop_found) (simp add: v(1))
  finally show ?thesis using v ne by (auto simp: carve_def)
qed


subsection \<open>Instances\<close>

definition demo_sbrk :: sbrk where
  "demo_sbrk n s = (if 0 \<le> n \<and> unat (brk s) + nat n < 2 ^ 32 then (brk s, s\<lparr>brk := brk s + of_int n\<rparr>) else (-1, s))"

definition demo_heap :: uheap where
  "demo_heap = \<lparr>hdrs = \<lambda>_. \<lparr>h_ptr = 0, h_size = 0\<rparr>, freep = 0, base = 0x1000, brk = 0x4000\<rparr>"

lemma demo_sbrk_ok: "sbrk_ok demo_sbrk"
  by (simp add: sbrk_ok_def demo_sbrk_def)

lemma demo_fresh: "fresh demo_heap"
  by (simp add: fresh_def demo_heap_def)

lemma malloc_correct_witness: "\<exists>r t. malloc demo_sbrk 100 demo_heap = Some (r, t)
    \<and> (r = 0 \<and> heap_ok t [] \<and> free_bytes t [] = free_bytes demo_heap [] \<and> brk t = brk demo_heap
    \<or> handed demo_heap (free_bytes demo_heap []) 100 r t)"
  using malloc_correct [of demo_heap "[]" demo_sbrk 100] demo_sbrk_ok demo_fresh by simp

lemma demo_malloc: "\<exists>t. malloc demo_sbrk 70000 demo_heap = Some (0x4010, t)"
proof -
  have "\<exists>t. malloc_loop demo_sbrk 4376 (base demo_heap) (base demo_heap)
     ((upd_hdr (base demo_heap) (\<lambda>h. h\<lparr>h_ptr := base demo_heap, h_size := 0\<rparr>) demo_heap)\<lparr>freep := base demo_heap\<rparr>)
     = Some (brk demo_heap + 16, t) \<and> brk t = brk demo_heap + of_int 70016 \<and> usize t (brk demo_heap) = 4376"
    by (rule loop_fresh [OF demo_fresh _ _ _ refl]) (simp_all add: demo_sbrk_def demo_heap_def)
  moreover have "nunits 70000 = 4376" by (simp add: nunits_def)
  ultimately show ?thesis using demo_fresh by (auto simp: malloc_def fresh_def Let_def demo_heap_def)
qed

lemma malloc_free_witness: "\<exists>t u zs. malloc demo_sbrk 70000 demo_heap = Some (0x4010, t) \<and> free 0x4010 t = Some u \<and> heap_ok u zs
    \<and> free_bytes u zs = free_bytes demo_heap [] \<union> {unat (brk demo_heap)..<unat (brk u)}"
proof -
  obtain t where "malloc demo_sbrk 70000 demo_heap = Some (0x4010, t)" using demo_malloc by blast
  then show ?thesis using malloc_free [of demo_heap "[]" demo_sbrk 70000 "0x4010" t] demo_sbrk_ok demo_fresh by auto
qed


end
